(* ===== verification/Tamer_Prelude.thy ===== *)
theory Tamer_Prelude
  imports Complex_Main "HOL-Library.AList" "HOL-Library.Multiset"
begin

text \<open>
  Shared vocabulary of the development: Python errors as values, the error
  monad, Python's list indexing and slicing, insertion-ordered dictionaries,
  and the loop combinator every unbounded \<open>while\<close> of the source is written with.
\<close>

section \<open>Errors as values\<close>

text \<open>
  The exceptions the modelled code can raise.  \<open>ExpansionLimit\<close> is the code's own
  \<open>ExpansionLimitReached\<close>, \<open>Unsupported\<close> the \<open>UPUnsupportedProblemTypeError\<close> of
  unified_planning, \<open>Timeout\<close> Python's \<open>TimeoutError\<close>; the others are the exceptions of the interpreter's built-in operations.  \<open>NoReturn\<close> is no exception:
  it is the value of a call that runs forever (see \<open>run_loop\<close> below), so that a claim
  that a call returns is a claim that its value is not \<open>Inl NoReturn\<close>.
\<close>

datatype py_error =
    TypeErr
  | IndexErr
  | KeyErr
  | ZeroDivErr
  | ValueErr
  | AssertErr
  | StopIterErr
  | Timeout
  | OverflowErr
  | Unsupported
  | ExpansionLimit nat
  | NoReturn

type_synonym 'a res = "py_error + 'a"

definition rbind :: "'a res \<Rightarrow> ('a \<Rightarrow> 'b res) \<Rightarrow> 'b res" where
  "rbind m f = (case m of Inl e \<Rightarrow> Inl e | Inr x \<Rightarrow> f x)"

definition rassert :: "bool \<Rightarrow> unit res" where
  "rassert b = (if b then Inr () else Inl AssertErr)"

lemma rbind_simps [simp]:
  "rbind (Inl e) f = Inl e"
  "rbind (Inr x) f = f x"
  by (simp_all add: rbind_def)

lemma rbind_eq_Inr: "rbind m f = Inr y \<longleftrightarrow> (\<exists>x. m = Inr x \<and> f x = Inr y)"
  by (cases m) auto

lemma rbind_eq_Inl: "rbind m f = Inl e \<longleftrightarrow> m = Inl e \<or> (\<exists>x. m = Inr x \<and> f x = Inl e)"
  by (cases m) auto

lemma rbind_assoc: "rbind (rbind m f) g = rbind m (\<lambda>x. rbind (f x) g)"
  by (cases m) auto

lemma rbind_Inr_right [simp]: "rbind m Inr = m"
  by (cases m) auto

lemma rbind_cong [fundef_cong]:
  "m = m' \<Longrightarrow> (\<And>x. m' = Inr x \<Longrightarrow> f x = f' x) \<Longrightarrow> rbind m f = rbind m' f'"
  by (cases m') auto

lemma rassert_eq_Inr [simp]: "rassert b = Inr u \<longleftrightarrow> b"
  by (simp add: rassert_def)

lemma rassert_True [simp]: "rassert True = Inr ()"
  by (simp add: rassert_def)

text \<open>A list comprehension whose body may raise, evaluated left to right.\<close>

fun rmap :: "('a \<Rightarrow> 'b res) \<Rightarrow> 'a list \<Rightarrow> 'b list res" where
  "rmap f [] = Inr []"
| "rmap f (x # xs) = rbind (f x) (\<lambda>y. rbind (rmap f xs) (\<lambda>ys. Inr (y # ys)))"

text \<open>A \<open>for\<close> loop over a list whose body may raise.\<close>

fun rfold :: "('a \<Rightarrow> 's \<Rightarrow> 's res) \<Rightarrow> 'a list \<Rightarrow> 's \<Rightarrow> 's res" where
  "rfold f [] s = Inr s"
| "rfold f (x # xs) s = rbind (f x s) (rfold f xs)"

text \<open>Python's \<open>all(...)\<close> over a generator: stops at the first falsy element.\<close>

fun rall :: "('a \<Rightarrow> bool res) \<Rightarrow> 'a list \<Rightarrow> bool res" where
  "rall p [] = Inr True"
| "rall p (x # xs) = rbind (p x) (\<lambda>b. if b then rall p xs else Inr False)"

lemma rmap_cong [fundef_cong]:
  "xs = ys \<Longrightarrow> (\<And>x. x \<in> set ys \<Longrightarrow> f x = g x) \<Longrightarrow> rmap f xs = rmap g ys"
  by (induction ys arbitrary: xs) auto

lemma rfold_cong [fundef_cong]:
  assumes "xs = ys" "s = t" "\<And>x s. x \<in> set ys \<Longrightarrow> f x s = g x s"
  shows "rfold f xs s = rfold g ys t"
proof -
  have "rfold f ys t = rfold g ys t" if "\<And>x s. x \<in> set ys \<Longrightarrow> f x s = g x s" for ys t
    using that
  proof (induction ys arbitrary: t)
    case (Cons y ys)
    then have "rfold f ys = rfold g ys" by fastforce
    with Cons show ?case by simp
  qed simp
  with assms show ?thesis by simp
qed

lemma rmap_Inr_iff:
  "rmap f xs = Inr ys \<longleftrightarrow> length ys = length xs \<and> (\<forall>i < length xs. f (xs ! i) = Inr (ys ! i))"
proof (induction xs arbitrary: ys)
  case (Cons x xs)
  show ?case
  proof (cases ys)
    case (Cons y zs)
    then show ?thesis
      by (auto simp: rbind_eq_Inr Cons.IH less_Suc_eq_0_disj)
  qed (auto simp: rbind_eq_Inr)
qed auto

lemma rmap_pure [simp]: "rmap (\<lambda>x. Inr (f x)) xs = Inr (map f xs)"
  by (induction xs) auto

lemma rmap_append:
  "rmap f (xs @ ys) = rbind (rmap f xs) (\<lambda>us. rbind (rmap f ys) (\<lambda>vs. Inr (us @ vs)))"
  by (induction xs) (auto simp: rbind_assoc)

lemma rfold_append: "rfold f (xs @ ys) s = rbind (rfold f xs s) (rfold f ys)"
proof (induction xs arbitrary: s)
  case (Cons x xs)
  show ?case by (cases "f x s") (auto simp: Cons.IH)
qed simp

lemma rall_True_iff: "rall p xs = Inr True \<longleftrightarrow> (\<forall>x \<in> set xs. p x = Inr True)"
  by (induction xs) (auto simp: rbind_eq_Inr)

lemma rall_False_D: "rall p xs = Inr False \<Longrightarrow> \<exists>x \<in> set xs. p x = Inr False"
  by (induction xs) (auto simp: rbind_eq_Inr split: if_splits)

text \<open>Invariant rule for \<open>rfold\<close>: what every iteration keeps, the loop keeps.\<close>

lemma rfold_invariant:
  assumes "rfold f xs s = Inr t" "I s"
    and "\<And>x s s'. x \<in> set xs \<Longrightarrow> I s \<Longrightarrow> f x s = Inr s' \<Longrightarrow> I s'"
  shows "I t"
  using assms by (induction xs arbitrary: s) (auto simp: rbind_eq_Inr)


section \<open>Python lists\<close>

lemma list_cases2 [case_names Nil one more]:
  obtains "xs = []" | a where "xs = [a]" | a b ys where "xs = a # b # ys"
  by (metis neq_Nil_conv)

lemma list_cases3 [case_names Nil one two more]:
  obtains "xs = []" | a where "xs = [a]" | a b where "xs = [a, b]"
    | a b c ys where "xs = a # b # c # ys"
  by (metis neq_Nil_conv)

text \<open>Indexing: a negative index counts from the end, anything out of range raises.\<close>

definition py_nth :: "'a list \<Rightarrow> int \<Rightarrow> 'a res" where
  "py_nth xs i =
     (let j = (if i < 0 then i + int (length xs) else i)
      in if j < 0 \<or> int (length xs) \<le> j then Inl IndexErr else Inr (xs ! nat j))"

text \<open>Assignment to a slot, with the same index rule.\<close>

definition py_update :: "'a list \<Rightarrow> int \<Rightarrow> 'a \<Rightarrow> 'a list res" where
  "py_update xs i v =
     (let j = (if i < 0 then i + int (length xs) else i)
      in if j < 0 \<or> int (length xs) \<le> j then Inl IndexErr else Inr (xs[nat j := v]))"

text \<open>Slices \<open>xs[a:b]\<close>: bounds are clamped and never raise.\<close>

definition py_bound :: "nat \<Rightarrow> int \<Rightarrow> nat" where
  "py_bound n i = (if i < 0 then nat (int n + i) else min n (nat i))"

definition py_slice :: "'a list \<Rightarrow> int \<Rightarrow> int \<Rightarrow> 'a list" where
  "py_slice xs a b = drop (py_bound (length xs) a) (take (py_bound (length xs) b) xs)"

definition py_last :: "'a list \<Rightarrow> 'a res" where
  "py_last xs = py_nth xs (- 1)"

lemma py_nth_int [simp]:
  "i < length xs \<Longrightarrow> py_nth xs (int i) = Inr (xs ! i)"
  by (simp add: py_nth_def)

lemma py_nth_in_range:
  "0 \<le> i \<Longrightarrow> i < int (length xs) \<Longrightarrow> py_nth xs i = Inr (xs ! nat i)"
  by (simp add: py_nth_def)

lemma py_nth_append_left:
  "0 \<le> i \<Longrightarrow> i < int (length xs) \<Longrightarrow> py_nth (xs @ ys) i = py_nth xs i"
  by (simp add: py_nth_def nth_append nat_less_iff)

lemma py_nth_Inr_mem: "py_nth xs i = Inr x \<Longrightarrow> x \<in> set xs"
  by (auto simp: py_nth_def Let_def nat_less_iff split: if_splits intro: nth_mem)

lemma py_update_Inr_length: "py_update xs i v = Inr ys \<Longrightarrow> length ys = length xs"
  by (auto simp: py_update_def Let_def split: if_splits)

lemma py_update_int [simp]:
  "i < length xs \<Longrightarrow> py_update xs (int i) v = Inr (xs[i := v])"
  by (simp add: py_update_def)

lemma py_update_int_iff:
  "py_update xs (int i) v = Inr ys \<longleftrightarrow> i < length xs \<and> ys = xs[i := v]"
  by (auto simp: py_update_def Let_def split: if_splits)

lemma py_nth_int_iff: "py_nth xs (int i) = Inr x \<longleftrightarrow> i < length xs \<and> xs ! i = x"
  by (auto simp: py_nth_def Let_def split: if_splits)

lemma py_last_Nil [simp]: "py_last [] = Inl IndexErr"
  by (simp add: py_last_def py_nth_def)

lemma py_last_snoc [simp]: "py_last (xs @ [x]) = Inr x"
  by (simp add: py_last_def py_nth_def Let_def nat_add_distrib nth_append)

lemma py_last_eq: "xs \<noteq> [] \<Longrightarrow> py_last xs = Inr (last xs)"
  by (cases xs rule: rev_cases) auto

lemma py_slice_middle:
  "py_slice (xs @ ys @ zs) (int (length xs)) (int (length xs) + int (length ys)) = ys"
  by (simp add: py_slice_def py_bound_def nat_add_distrib)


section \<open>Insertion-ordered dictionaries\<close>

text \<open>
  A Python \<open>dict\<close> is an association list with distinct keys, in insertion order:
  assigning to a present key keeps its place (\<^const>\<open>AList.update\<close>), a new key goes
  to the end, deletion removes it.
\<close>

type_synonym ('k, 'v) dict = "('k \<times> 'v) list"

abbreviation dict_get :: "('k, 'v) dict \<Rightarrow> 'k \<Rightarrow> 'v option" where
  "dict_get \<equiv> map_of"

abbreviation dict_set :: "'k \<Rightarrow> 'v \<Rightarrow> ('k, 'v) dict \<Rightarrow> ('k, 'v) dict" where
  "dict_set \<equiv> AList.update"

abbreviation dict_del :: "'k \<Rightarrow> ('k, 'v) dict \<Rightarrow> ('k, 'v) dict" where
  "dict_del \<equiv> AList.delete"

definition dict_wf :: "('k, 'v) dict \<Rightarrow> bool" where
  "dict_wf d \<longleftrightarrow> distinct (map fst d)"

definition dict_lookup :: "('k, 'v) dict \<Rightarrow> 'k \<Rightarrow> 'v res" where
  "dict_lookup d k = (case dict_get d k of None \<Rightarrow> Inl KeyErr | Some v \<Rightarrow> Inr v)"

lemma dict_wf_Nil [simp]: "dict_wf []"
  by (simp add: dict_wf_def)

lemma dict_wf_set [simp]: "dict_wf d \<Longrightarrow> dict_wf (dict_set k v d)"
  by (simp add: dict_wf_def distinct_update)

lemma dict_wf_del [simp]: "dict_wf d \<Longrightarrow> dict_wf (dict_del k d)"
  by (simp add: dict_wf_def distinct_delete)

lemma dict_get_set: "dict_get (dict_set k v d) k' = (if k' = k then Some v else dict_get d k')"
  by (simp add: update_conv')

lemma dict_get_del: "dict_get (dict_del k d) k' = (if k' = k then None else dict_get d k')"
  by (simp add: delete_conv')

lemma set_dict_set_new: "dict_get d k = None \<Longrightarrow> set (dict_set k v d) = insert (k, v) (set d)"
  by (induction d) (auto split: if_splits)

lemma set_dict_set: "dict_wf d \<Longrightarrow> set (dict_set k v d) = insert (k, v) {p \<in> set d. fst p \<noteq> k}"
proof (induction d)
  case (Cons p d)
  then have "fst p \<notin> fst ` set d" by (simp add: dict_wf_def)
  with Cons show ?case by (cases p) (auto simp: dict_wf_def rev_image_eqI)
qed simp

lemma set_dict_del: "set (dict_del k d) = {p \<in> set d. fst p \<noteq> k}"
  by (auto simp: AList.delete_eq)

lemma dict_lookup_Inr [simp]: "dict_lookup d k = Inr v \<longleftrightarrow> dict_get d k = Some v"
  by (auto simp: dict_lookup_def split: option.splits)

lemma dict_get_mem: "dict_wf d \<Longrightarrow> dict_get d k = Some v \<longleftrightarrow> (k, v) \<in> set d"
  by (simp add: dict_wf_def)


section \<open>Unbounded loops\<close>

text \<open>
  Every \<open>while\<close> of the source whose termination depends on its input is written as
  an iteration of a step function: \<open>Inl\<close> leaves the loop with a result, \<open>Inr\<close> goes
  round again.  \<open>None\<close> is a loop that never returns, so a claim that it returns is a
  claim that the result is \<open>Some\<close>.
\<close>

partial_function (option) iterate :: "('s \<Rightarrow> 'r + 's) \<Rightarrow> 's \<Rightarrow> 'r option" where
  "iterate step s = (case step s of Inl r \<Rightarrow> Some r | Inr s' \<Rightarrow> iterate step s')"

declare iterate.simps [code]

lemma iterate_exit: "step s = Inl r \<Longrightarrow> iterate step s = Some r"
  by (subst iterate.simps) simp

lemma iterate_next: "step s = Inr s' \<Longrightarrow> iterate step s = iterate step s'"
  by (subst iterate.simps) simp

text \<open>Partial correctness: an invariant every round keeps holds where the loop leaves.\<close>

lemma iterate_invariant:
  assumes ret: "iterate step s = Some r" and init: "I s"
    and keep: "\<And>s s'. I s \<Longrightarrow> step s = Inr s' \<Longrightarrow> I s'"
  obtains s' where "I s'" "step s' = Inl r"
proof -
  define P where "P st s r \<longleftrightarrow> (st = step \<longrightarrow> I s \<longrightarrow> (\<exists>s'. I s' \<and> step s' = Inl r))" for st s r
  have "P step s r"
  proof (rule iterate.raw_induct [where P = P, OF _ ret])
    fix f st s r
    assume IH: "\<And>st s r. f st s = Some r \<Longrightarrow> P st s r"
      and eq: "(case st s of Inl r \<Rightarrow> Some r | Inr s' \<Rightarrow> f st s') = Some r"
    show "P st s r"
      unfolding P_def
    proof (intro impI)
      assume st: "st = step" and I: "I s"
      show "\<exists>s'. I s' \<and> step s' = Inl r"
      proof (cases "step s")
        case (Inl r')
        with eq st I show ?thesis by auto
      next
        case (Inr s')
        with eq st have "f step s' = Some r" by simp
        with IH keep [OF I Inr] show ?thesis by (auto simp: P_def)
      qed
    qed
  qed
  with init that show thesis by (auto simp: P_def)
qed

text \<open>Total correctness: an invariant and a measure that decreases while it holds.\<close>

lemma iterate_returns:
  assumes "I s"
    and "\<And>s s'. I s \<Longrightarrow> step s = Inr s' \<Longrightarrow> I s' \<and> (m s' :: nat) < m s"
  shows "\<exists>r. iterate step s = Some r"
  using assms(1)
proof (induction "m s" arbitrary: s rule: less_induct)
  case less
  show ?case
  proof (cases "step s")
    case (Inl r)
    then show ?thesis by (auto intro: iterate_exit)
  next
    case (Inr s')
    with less assms(2) show ?thesis by (metis iterate_next)
  qed
qed

definition run_loop :: "('s \<Rightarrow> 'r res + 's) \<Rightarrow> 's \<Rightarrow> 'r res" where
  "run_loop step s = (case iterate step s of None \<Rightarrow> Inl NoReturn | Some r \<Rightarrow> r)"

lemma run_loop_exit: "step s = Inl r \<Longrightarrow> run_loop step s = r"
  by (simp add: run_loop_def iterate_exit)

lemma run_loop_next: "step s = Inr s' \<Longrightarrow> run_loop step s = run_loop step s'"
  by (simp add: run_loop_def iterate_next)

lemma run_loop_unfold:
  "run_loop step s = (case step s of Inl r \<Rightarrow> r | Inr s' \<Rightarrow> run_loop step s')"
  by (auto simp: run_loop_exit run_loop_next split: sum.split)

lemma run_loop_invariant:
  assumes "run_loop step s = r" "r \<noteq> Inl NoReturn" "I s"
    and "\<And>s s'. I s \<Longrightarrow> step s = Inr s' \<Longrightarrow> I s'"
  obtains s' where "I s'" "step s' = Inl r"
proof -
  have "iterate step s = Some r"
    using assms(1,2) by (auto simp: run_loop_def split: option.splits)
  then show thesis
    by (rule iterate_invariant [where I = I]) (use assms(3,4) that in blast)+
qed

lemma run_loop_returns:
  assumes "I s"
    and "\<And>s s'. I s \<Longrightarrow> step s = Inr s' \<Longrightarrow> I s' \<and> (m s' :: nat) < m s"
    and "\<And>s. I s \<Longrightarrow> step s \<noteq> Inl (Inl NoReturn)"
  shows "run_loop step s \<noteq> Inl NoReturn"
proof -
  obtain r where r: "iterate step s = Some r"
    using iterate_returns [where I = I and m = m, OF assms(1,2)] by blast
  obtain s' where "I s'" "step s' = Inl r"
    by (rule iterate_invariant [where I = I, OF r assms(1)]) (use assms(2) in blast)+
  with assms(3) r show ?thesis by (auto simp: run_loop_def)
qed


section \<open>Loops that may be left early\<close>

text \<open>
  The body of a loop yields \<open>Inl\<close> to leave with a result (\<open>return\<close> or \<open>break\<close>) and \<open>Inr\<close> to
  go on; \<open>rloop\<close> is a \<open>for\<close> over a list, \<open>run_rounds\<close> a \<open>while\<close>.
\<close>

fun rloop :: "('a \<Rightarrow> 's \<Rightarrow> ('r + 's) res) \<Rightarrow> 'a list \<Rightarrow> 's \<Rightarrow> ('r + 's) res" where
  "rloop f [] s = Inr (Inr s)"
| "rloop f (x # xs) s = rbind (f x s) (\<lambda>r. case r of Inl res \<Rightarrow> Inr (Inl res) | Inr s' \<Rightarrow> rloop f xs s')"

definition step_of :: "('r + 's) res \<Rightarrow> 'r res + 's" where
  "step_of m = (case m of Inl e \<Rightarrow> Inl (Inl e) | Inr (Inl r) \<Rightarrow> Inl (Inr r) | Inr (Inr s) \<Rightarrow> Inr s)"

definition run_rounds :: "('s \<Rightarrow> ('r + 's) res) \<Rightarrow> 's \<Rightarrow> 'r res" where
  "run_rounds rnd s = run_loop (\<lambda>s. step_of (rnd s)) s"

lemma step_of_iff [simp]:
  "step_of m = Inl (Inl e) \<longleftrightarrow> m = Inl e"
  "step_of m = Inl (Inr r) \<longleftrightarrow> m = Inr (Inl r)"
  "step_of m = Inr s \<longleftrightarrow> m = Inr (Inr s)"
  by (auto simp: step_of_def split: sum.splits)

text \<open>A result handed on, or the loop goes on with \<open>g\<close>.\<close>

lemma handed_on_iff:
  "(case y of Inl r \<Rightarrow> Inr (Inl r) | Inr z \<Rightarrow> g z) = (Inr (Inr w) :: ('r + 's) res) \<longleftrightarrow>
     (\<exists>z. y = Inr z \<and> g z = Inr (Inr w))"
  by (auto split: sum.splits)

lemma rloop_result:
  assumes "rloop f xs s = Inr x" "I s"
    and "\<And>x s s'. x \<in> set xs \<Longrightarrow> I s \<Longrightarrow> f x s = Inr (Inr s') \<Longrightarrow> I s'"
    and "\<And>x s r. x \<in> set xs \<Longrightarrow> I s \<Longrightarrow> f x s = Inr (Inl r) \<Longrightarrow> Q r"
  shows "case x of Inl r \<Rightarrow> Q r | Inr s' \<Rightarrow> I s'"
  using assms
proof (induction xs arbitrary: s)
  case (Cons a xs)
  from Cons.prems(1) obtain y where y: "f a s = Inr y" by (auto simp: rbind_eq_Inr)
  show ?case
  proof (cases y)
    case (Inl r)
    with y Cons.prems(1) have "x = Inl r" by simp
    with y Inl Cons.prems(2) Cons.prems(4) [of a s r] show ?thesis by simp
  next
    case (Inr s')
    with y Cons.prems(1,2) Cons.prems(3) [of a s s'] have I': "I s'" and rest: "rloop f xs s' = Inr x" by auto
    show ?thesis
    proof (rule Cons.IH [OF rest I'])
      show "I t'" if "y \<in> set xs" "I t" "f y t = Inr (Inr t')" for y t t'
        using Cons.prems(3) [of y t t'] that by simp
      show "Q r" if "y \<in> set xs" "I t" "f y t = Inr (Inl r)" for y t r
        using Cons.prems(4) [of y t r] that by simp
    qed
  qed
qed auto

lemma rloop_error:
  assumes "rloop f xs s = Inl e" "I s"
    and "\<And>x s s'. x \<in> set xs \<Longrightarrow> I s \<Longrightarrow> f x s = Inr (Inr s') \<Longrightarrow> I s'"
  shows "\<exists>x s. x \<in> set xs \<and> I s \<and> f x s = Inl e"
  using assms
proof (induction xs arbitrary: s)
  case (Cons a xs)
  show ?case
  proof (cases "f a s")
    case (Inr y)
    with Cons.prems obtain s' where "y = Inr s'" "rloop f xs s' = Inl e"
      by (auto split: sum.splits)
    with Cons.prems Inr Cons.IH [of s'] show ?thesis by (metis list.set_intros)
  qed (use Cons.prems in auto)
qed auto

lemma rfold_error:
  assumes "rfold f xs s = Inl e" "I s"
    and "\<And>x s s'. x \<in> set xs \<Longrightarrow> I s \<Longrightarrow> f x s = Inr s' \<Longrightarrow> I s'"
  shows "\<exists>x s. x \<in> set xs \<and> I s \<and> f x s = Inl e"
  using assms
proof (induction xs arbitrary: s)
  case (Cons a xs)
  show ?case
  proof (cases "f a s")
    case (Inr s')
    with Cons.prems Cons.IH [of s'] show ?thesis by (metis list.set_intros rbind_simps(2) rfold.simps(2))
  qed (use Cons.prems in auto)
qed auto

lemma run_rounds_result:
  assumes "run_rounds rnd s = Inr r" "I s"
    and "\<And>s s'. I s \<Longrightarrow> rnd s = Inr (Inr s') \<Longrightarrow> I s'"
  obtains s' where "I s'" "rnd s' = Inr (Inl r)"
  by (rule run_loop_invariant [where I = I, OF assms(1) [unfolded run_rounds_def] _ assms(2)])
    (use assms(3) in auto)

lemma run_rounds_error:
  assumes "run_rounds rnd s = Inl e" "e \<noteq> NoReturn" "I s"
    and "\<And>s s'. I s \<Longrightarrow> rnd s = Inr (Inr s') \<Longrightarrow> I s'"
  obtains s' where "I s'" "rnd s' = Inl e"
  by (rule run_loop_invariant [where I = I, OF assms(1) [unfolded run_rounds_def] _ assms(3)])
    (use assms(2,4) in auto)

lemma run_rounds_returns:
  assumes "I s"
    and "\<And>s s'. I s \<Longrightarrow> rnd s = Inr (Inr s') \<Longrightarrow> I s' \<and> (m s' :: nat) < m s"
    and "\<And>s. I s \<Longrightarrow> rnd s \<noteq> Inl NoReturn"
  shows "run_rounds rnd s \<noteq> Inl NoReturn"
  unfolding run_rounds_def
  by (rule run_loop_returns [of I _ _ m]) (use assms in auto)


section \<open>Which errors a computation can end with\<close>

named_theorems errs_intro \<open>what errors a computation can raise, construct by construct\<close>

definition errs :: "(py_error \<Rightarrow> bool) \<Rightarrow> 'a res \<Rightarrow> bool" where
  "errs P m \<longleftrightarrow> (\<forall>e. m = Inl e \<longrightarrow> P e)"

text \<open>The errors of the interpreter and of the library, not those of a search.\<close>

definition ordinary :: "py_error \<Rightarrow> bool" where
  "ordinary e \<longleftrightarrow> e \<noteq> NoReturn \<and> e \<noteq> Timeout \<and> (\<forall>n. e \<noteq> ExpansionLimit n)"

lemma errsD: "errs P m \<Longrightarrow> m = Inl e \<Longrightarrow> P e"
  by (simp add: errs_def)

lemma errs_mono: "errs P m \<Longrightarrow> (\<And>e. P e \<Longrightarrow> Q e) \<Longrightarrow> errs Q m"
  by (auto simp: errs_def)

lemma errs_Inr [errs_intro, simp]: "errs P (Inr x)"
  by (simp add: errs_def)

lemma errs_Inl [simp]: "errs P (Inl e) \<longleftrightarrow> P e"
  by (simp add: errs_def)

lemma errs_bind [errs_intro]:
  "errs P m \<Longrightarrow> (\<And>x. m = Inr x \<Longrightarrow> errs P (f x)) \<Longrightarrow> errs P (rbind m f)"
  by (cases m) (auto simp: errs_def)

lemma errs_rmap [errs_intro]: "(\<And>x. x \<in> set xs \<Longrightarrow> errs P (f x)) \<Longrightarrow> errs P (rmap f xs)"
  by (induction xs) (auto intro!: errs_bind)

lemma errs_rfold [errs_intro]: "(\<And>x s. x \<in> set xs \<Longrightarrow> errs P (f x s)) \<Longrightarrow> errs P (rfold f xs s)"
  by (induction xs arbitrary: s) (auto intro!: errs_bind)

lemma errs_rall [errs_intro]: "(\<And>x. x \<in> set xs \<Longrightarrow> errs P (f x)) \<Longrightarrow> errs P (rall f xs)"
  by (induction xs) (auto intro!: errs_bind)

lemma errs_rloop [errs_intro]: "(\<And>x s. x \<in> set xs \<Longrightarrow> errs P (f x s)) \<Longrightarrow> errs P (rloop f xs s)"
  by (induction xs arbitrary: s) (auto intro!: errs_bind split: sum.split)

lemma errs_if [errs_intro]: "(b \<Longrightarrow> errs P m) \<Longrightarrow> (\<not> b \<Longrightarrow> errs P n) \<Longrightarrow> errs P (if b then m else n)"
  by simp

lemma errs_option [errs_intro]:
  "(x = None \<Longrightarrow> errs P m) \<Longrightarrow> (\<And>y. x = Some y \<Longrightarrow> errs P (f y)) \<Longrightarrow> errs P (case x of None \<Rightarrow> m | Some y \<Rightarrow> f y)"
  by (simp split: option.split)

lemma errs_prod [errs_intro]: "(\<And>a b. p = (a, b) \<Longrightarrow> errs P (f a b)) \<Longrightarrow> errs P (case p of (a, b) \<Rightarrow> f a b)"
  by (simp split: prod.split)

lemma errs_Let [errs_intro]: "(\<And>y. errs P (f y)) \<Longrightarrow> errs P (Let x f)"
  by (simp add: Let_def)

lemma errs_prod_app [errs_intro]:
  "(\<And>a b. p = (a, b) \<Longrightarrow> errs P (f a b x)) \<Longrightarrow> errs P ((case p of (a, b) \<Rightarrow> f a b) x)"
  by (cases p) simp

lemma errs_sum [errs_intro]:
  "(\<And>a. x = Inl a \<Longrightarrow> errs P (f a)) \<Longrightarrow> (\<And>b. x = Inr b \<Longrightarrow> errs P (g b)) \<Longrightarrow>
     errs P (case x of Inl a \<Rightarrow> f a | Inr b \<Rightarrow> g b)"
  by (simp split: sum.split)

lemma ordinary_simps [simp]:
  "ordinary TypeErr" "ordinary IndexErr" "ordinary KeyErr" "ordinary ZeroDivErr" "ordinary ValueErr"
  "ordinary AssertErr" "ordinary StopIterErr" "ordinary Unsupported" "ordinary OverflowErr"
  "\<not> ordinary NoReturn" "\<not> ordinary Timeout" "\<not> ordinary (ExpansionLimit n)"
  by (simp_all add: ordinary_def)

lemma errs_py_nth [errs_intro]: "errs ordinary (py_nth xs i)"
  by (simp add: py_nth_def Let_def)

lemma errs_py_update [errs_intro]: "errs ordinary (py_update xs i v)"
  by (simp add: py_update_def Let_def)

lemma errs_py_last [errs_intro]: "errs ordinary (py_last xs)"
  by (simp add: py_last_def errs_py_nth)

lemma errs_dict_lookup [errs_intro]: "errs ordinary (dict_lookup d k)"
  by (simp add: dict_lookup_def split: option.split)

lemma rloop_errs:
  assumes start: "I s" and body: "\<And>x s. x \<in> set xs \<Longrightarrow> I s \<Longrightarrow> errs P (f x s)"
    and step: "\<And>x s s'. x \<in> set xs \<Longrightarrow> I s \<Longrightarrow> f x s = Inr (Inr s') \<Longrightarrow> I s'"
  shows "errs P (rloop f xs s)"
  unfolding errs_def
proof (intro allI impI)
  fix e assume "rloop f xs s = Inl e"
  then have "\<exists>x s'. x \<in> set xs \<and> I s' \<and> f x s' = Inl e"
    using start by (rule rloop_error) (rule step)
  then obtain x s' where "x \<in> set xs" "I s'" "f x s' = Inl e" by blast
  with body [of x s'] show "P e" by (auto dest: errsD)
qed

lemma run_rounds_errs:
  assumes "I s" "\<And>s. I s \<Longrightarrow> errs P (rnd s)" "\<not> P NoReturn"
    and step: "\<And>s s'. I s \<Longrightarrow> rnd s = Inr (Inr s') \<Longrightarrow> I s' \<and> (m s' :: nat) < m s"
  shows "errs P (run_rounds rnd s)"
  unfolding errs_def
proof (intro allI impI)
  fix e assume e: "run_rounds rnd s = Inl e"
  have "run_rounds rnd s \<noteq> Inl NoReturn"
  proof (rule run_rounds_returns [of I _ _ m])
    show "rnd s \<noteq> Inl NoReturn" if "I s" for s using errsD [OF assms(2) [OF that]] assms(3) by blast
  qed (use assms(1) step in simp_all)
  with e have "e \<noteq> NoReturn" by auto
  from run_rounds_error [where I = I, OF e this assms(1)] step obtain s' where "I s'" "rnd s' = Inl e"
    by blast
  with assms(2) show "P e" using errsD by blast
qed

end
