(* ===== verification/Values.thy ===== *)
theory Values
  imports Tamer_Prelude
begin

text \<open>
  The identities and constants of the search space
  (\<open>src/tamerlite/core/search_space.py\<close>): fluents, objects and actions are bare
  indices; a constant is a Python \<open>bool\<close>, \<open>int\<close>, \<open>Fraction\<close> or \<open>ObjectNode\<close>, with the
  interpreter's rules for comparing and combining values of different types
  (a \<open>bool\<close> is an \<open>int\<close>, an \<open>int\<close> combined with a \<open>Fraction\<close> is a \<open>Fraction\<close>).
\<close>

section \<open>Identities\<close>

datatype fluent = Fluent (fl_idx: nat)

datatype obj = Object (obj_idx: nat)

datatype action = Action (act_idx: nat)

text \<open>
  The three dataclasses are declared with \<open>order=True\<close>: they compare by index.
  (The code's \<open>idx\<close> is an \<open>int\<close> the encoder counts up from 0.)
\<close>

instantiation fluent :: linorder
begin
definition less_eq_fluent :: "fluent \<Rightarrow> fluent \<Rightarrow> bool" where
  "f \<le> g \<longleftrightarrow> fl_idx f \<le> fl_idx g"
definition less_fluent :: "fluent \<Rightarrow> fluent \<Rightarrow> bool" where
  "f < g \<longleftrightarrow> fl_idx f < fl_idx g"
instance
  by intro_classes (auto simp: less_eq_fluent_def less_fluent_def fluent.expand)
end

instantiation obj :: linorder
begin
definition less_eq_obj :: "obj \<Rightarrow> obj \<Rightarrow> bool" where
  "f \<le> g \<longleftrightarrow> obj_idx f \<le> obj_idx g"
definition less_obj :: "obj \<Rightarrow> obj \<Rightarrow> bool" where
  "f < g \<longleftrightarrow> obj_idx f < obj_idx g"
instance
  by intro_classes (auto simp: less_eq_obj_def less_obj_def obj.expand)
end

instantiation action :: linorder
begin
definition less_eq_action :: "action \<Rightarrow> action \<Rightarrow> bool" where
  "a \<le> b \<longleftrightarrow> act_idx a \<le> act_idx b"
definition less_action :: "action \<Rightarrow> action \<Rightarrow> bool" where
  "a < b \<longleftrightarrow> act_idx a < act_idx b"
instance
  by intro_classes (auto simp: less_eq_action_def less_action_def action.expand)
end

datatype fluent_kind = KBool | KInt | KReal | KObject

record fluent_domain =
  fd_kind :: fluent_kind
  fd_objects :: "obj list"

text \<open>\<open>FluentDomain.__post_init__\<close>: only an object fluent has objects.\<close>

definition mk_fluent_domain :: "fluent_kind \<Rightarrow> obj list \<Rightarrow> fluent_domain res" where
  "mk_fluent_domain k os =
     rbind (rassert (k = KObject \<or> os = [])) (\<lambda>_. Inr \<lparr>fd_kind = k, fd_objects = os\<rparr>)"


section \<open>Constants\<close>

datatype const =
    CBool bool
  | CInt int
  | CFrac rat
  | CObj obj

text \<open>\<open>isinstance(v, (int, Fraction))\<close>, which a \<open>bool\<close> satisfies too.\<close>

fun is_num :: "const \<Rightarrow> bool" where
  "is_num (CObj _) = False"
| "is_num _ = True"

fun is_frac :: "const \<Rightarrow> bool" where
  "is_frac (CFrac _) = True"
| "is_frac _ = False"

fun as_int :: "const \<Rightarrow> int option" where
  "as_int (CBool b) = Some (of_bool b)"
| "as_int (CInt i) = Some i"
| "as_int _ = None"

fun as_rat :: "const \<Rightarrow> rat option" where
  "as_rat (CBool b) = Some (of_bool b)"
| "as_rat (CInt i) = Some (of_int i)"
| "as_rat (CFrac r) = Some r"
| "as_rat (CObj _) = None"

text \<open>\<open>bool(v)\<close>.\<close>

fun truthy :: "const \<Rightarrow> bool" where
  "truthy (CBool b) = b"
| "truthy (CInt i) = (i \<noteq> 0)"
| "truthy (CFrac r) = (r \<noteq> 0)"
| "truthy (CObj _) = True"

text \<open>\<open>==\<close>: numbers by value whatever their type, objects by identity.\<close>

definition py_eq :: "const \<Rightarrow> const \<Rightarrow> bool" where
  "py_eq a b = (case (as_rat a, as_rat b) of
     (Some p, Some q) \<Rightarrow> p = q
   | (None, None) \<Rightarrow> a = b
   | _ \<Rightarrow> False)"

definition py_compare :: "(rat \<Rightarrow> rat \<Rightarrow> bool) \<Rightarrow> const \<Rightarrow> const \<Rightarrow> bool res" where
  "py_compare f a b = (case (as_rat a, as_rat b) of
     (Some p, Some q) \<Rightarrow> Inr (f p q)
   | _ \<Rightarrow> Inl TypeErr)"

definition py_arith ::
    "(int \<Rightarrow> int \<Rightarrow> int) \<Rightarrow> (rat \<Rightarrow> rat \<Rightarrow> rat) \<Rightarrow> const \<Rightarrow> const \<Rightarrow> const res" where
  "py_arith fi fr a b = (case (as_int a, as_int b) of
     (Some i, Some j) \<Rightarrow> Inr (CInt (fi i j))
   | _ \<Rightarrow> (case (as_rat a, as_rat b) of
       (Some p, Some q) \<Rightarrow> Inr (CFrac (fr p q))
     | _ \<Rightarrow> Inl TypeErr))"

definition py_add :: "const \<Rightarrow> const \<Rightarrow> const res" where
  "py_add = py_arith (+) (+)"

definition py_sub :: "const \<Rightarrow> const \<Rightarrow> const res" where
  "py_sub = py_arith (-) (-)"

definition py_mul :: "const \<Rightarrow> const \<Rightarrow> const res" where
  "py_mul = py_arith (*) (*)"

text \<open>\<open>Fraction(a, b)\<close>: the types are checked before the divisor.\<close>

definition py_fraction :: "const \<Rightarrow> const \<Rightarrow> const res" where
  "py_fraction a b = (case (as_rat a, as_rat b) of
     (Some p, Some q) \<Rightarrow> if q = 0 then Inl ZeroDivErr else Inr (CFrac (p / q))
   | _ \<Rightarrow> Inl TypeErr)"

text \<open>\<open>r.denominator == 1\<close>.\<close>

definition integral :: "rat \<Rightarrow> bool" where
  "integral r \<longleftrightarrow> of_int \<lfloor>r\<rfloor> = r"

text \<open>
  \<open>_canonical_rational\<close>, which is also the step
  \<open>if isinstance(v, Fraction) and v.denominator == 1: v = int(v)\<close> of \<open>evaluate\<close>.
\<close>

definition canonical_rational :: "rat \<Rightarrow> const" where
  "canonical_rational r = (if integral r then CInt \<lfloor>r\<rfloor> else CFrac r)"

fun normalize_num :: "const \<Rightarrow> const" where
  "normalize_num (CFrac r) = canonical_rational r"
| "normalize_num c = c"

text \<open>A constant is canonical when no \<open>Fraction\<close> in it is integral.\<close>

fun canonical :: "const \<Rightarrow> bool" where
  "canonical (CFrac r) = (\<not> integral r)"
| "canonical _ = True"

lemma integral_iff_denominator: "integral r \<longleftrightarrow> snd (quotient_of r) = 1"
proof
  assume "integral r"
  then obtain i where i: "r = of_int i" by (metis integral_def)
  show "snd (quotient_of r) = 1" unfolding i by simp
next
  assume *: "snd (quotient_of r) = 1"
  obtain p q where pq: "quotient_of r = (p, q)" by fastforce
  with * have r: "r = of_int p" using quotient_of_div [OF pq] by simp
  show "integral r" unfolding r integral_def by simp
qed

lemma integral_of_int [simp]: "integral (of_int i)"
  by (simp add: integral_def)

lemma canonical_canonical_rational [simp]: "canonical (canonical_rational r)"
  by (simp add: canonical_rational_def)

lemma canonical_normalize [simp]: "canonical (normalize_num c)"
  by (cases c) auto

lemma normalize_canonical: "canonical c \<Longrightarrow> normalize_num c = c"
  by (cases c) (auto simp: canonical_rational_def)

lemma as_rat_canonical_rational [simp]: "as_rat (canonical_rational r) = Some r"
  by (simp add: canonical_rational_def integral_def)

lemma as_rat_normalize [simp]: "as_rat (normalize_num c) = as_rat c"
  by (cases c) auto

lemma as_int_as_rat: "as_int c = Some i \<Longrightarrow> as_rat c = Some (of_int i)"
  by (cases c) auto

lemma is_num_iff: "is_num c \<longleftrightarrow> as_rat c \<noteq> None"
  by (cases c) auto

lemma as_rat_None_iff: "as_rat c = None \<longleftrightarrow> (\<exists>x. c = CObj x)"
  by (cases c) auto

lemma py_eq_refl [simp]: "py_eq a a"
  by (cases a) (auto simp: py_eq_def)

lemma py_eq_sym: "py_eq a b = py_eq b a"
  by (cases a; cases b) (auto simp: py_eq_def)

lemma py_eq_trans: "py_eq a b \<Longrightarrow> py_eq b c \<Longrightarrow> py_eq a c"
  by (cases a; cases b; cases c) (auto simp: py_eq_def)

lemma py_eq_canonical:
  assumes "canonical a" "canonical b" "\<And>x. a \<noteq> CBool x" "\<And>x. b \<noteq> CBool x"
  shows "py_eq a b \<longleftrightarrow> a = b"
  using assms by (cases a; cases b) (auto simp: py_eq_def integral_def)

text \<open>Each arithmetic operator computes the rational operation, whatever the representation.\<close>

lemma py_arith_as_rat:
  assumes "\<And>i j. of_int (fi i j) = fr (of_int i) (of_int j)"
    and "as_rat a = Some p" "as_rat b = Some q"
  shows "\<exists>v. py_arith fi fr a b = Inr v \<and> as_rat v = Some (fr p q)"
proof (cases "as_int a = None \<or> as_int b = None")
  case True
  with assms(2,3) show ?thesis by (auto simp: py_arith_def split: option.split)
next
  case False
  then obtain i j where ij: "as_int a = Some i" "as_int b = Some j" by auto
  with assms(2,3) have "p = of_int i" "q = of_int j" by (auto dest: as_int_as_rat)
  with ij assms(1) show ?thesis by (simp add: py_arith_def)
qed

lemma py_arith_TypeErr:
  "as_rat a = None \<or> as_rat b = None \<Longrightarrow> py_arith fi fr a b = Inl TypeErr"
  by (cases a; cases b) (auto simp: py_arith_def)

lemma py_add_as_rat:
  "as_rat a = Some p \<Longrightarrow> as_rat b = Some q \<Longrightarrow> \<exists>v. py_add a b = Inr v \<and> as_rat v = Some (p + q)"
  unfolding py_add_def by (rule py_arith_as_rat) auto

lemma py_sub_as_rat:
  "as_rat a = Some p \<Longrightarrow> as_rat b = Some q \<Longrightarrow> \<exists>v. py_sub a b = Inr v \<and> as_rat v = Some (p - q)"
  unfolding py_sub_def by (rule py_arith_as_rat) auto

lemma py_mul_as_rat:
  "as_rat a = Some p \<Longrightarrow> as_rat b = Some q \<Longrightarrow> \<exists>v. py_mul a b = Inr v \<and> as_rat v = Some (p * q)"
  unfolding py_mul_def by (rule py_arith_as_rat) auto


section \<open>Results of interpreted functions\<close>

text \<open>
  What the callable behind an interpreted function may return: one of the constants
  above or a (finite) \<open>float\<close>, which denotes a rational.
\<close>

datatype raw = RConst const | RFloat rat

datatype if_return_type = IfBool | IfInt | IfReal | IfObject

datatype ifun = IFun nat

type_synonym ifenv = "ifun \<Rightarrow> const list \<Rightarrow> raw res"

text \<open>\<open>int(r)\<close> truncates towards zero.\<close>

definition py_trunc :: "rat \<Rightarrow> int" where
  "py_trunc r = (if r < 0 then \<lceil>r\<rceil> else \<lfloor>r\<rfloor>)"

fun raw_rat :: "raw \<Rightarrow> rat option" where
  "raw_rat (RConst c) = as_rat c"
| "raw_rat (RFloat r) = Some r"

fun raw_truthy :: "raw \<Rightarrow> bool" where
  "raw_truthy (RConst c) = truthy c"
| "raw_truthy (RFloat r) = (r \<noteq> 0)"

fun coerce_result :: "if_return_type \<Rightarrow> raw \<Rightarrow> const res" where
  "coerce_result IfBool r = Inr (CBool (raw_truthy r))"
| "coerce_result IfInt r =
     (case raw_rat r of None \<Rightarrow> Inl TypeErr | Some q \<Rightarrow> Inr (CInt (py_trunc q)))"
| "coerce_result IfReal r =
     (case raw_rat r of None \<Rightarrow> Inl TypeErr | Some q \<Rightarrow> Inr (canonical_rational q))"
| "coerce_result IfObject r =
     (case r of RConst (CObj x) \<Rightarrow> Inr (CObj x) | _ \<Rightarrow> Inl AssertErr)"

text \<open>\<open>InterpretedFunctionNode.call\<close>.\<close>

definition if_call :: "ifenv \<Rightarrow> ifun \<Rightarrow> if_return_type \<Rightarrow> const list \<Rightarrow> const res" where
  "if_call ifs f rt args = rbind (ifs f args) (coerce_result rt)"

fun has_return_type :: "if_return_type \<Rightarrow> const \<Rightarrow> bool" where
  "has_return_type IfBool c = (\<exists>b. c = CBool b)"
| "has_return_type IfInt c = (\<exists>i. c = CInt i)"
| "has_return_type IfReal c = ((\<exists>i. c = CInt i) \<or> (\<exists>r. c = CFrac r))"
| "has_return_type IfObject c = (\<exists>x. c = CObj x)"

lemma coerce_result_type:
  "coerce_result rt r = Inr v \<Longrightarrow> has_return_type rt v \<and> canonical v"
proof (cases rt)
  case IfReal
  assume "coerce_result rt r = Inr v"
  with IfReal obtain q where "v = canonical_rational q" by (auto split: option.splits)
  with IfReal show ?thesis by (auto simp: canonical_rational_def)
qed (auto split: option.splits raw.splits const.splits)

lemma if_call_type:
  "if_call ifs f rt args = Inr v \<Longrightarrow> has_return_type rt v \<and> canonical v"
  by (auto simp: if_call_def rbind_eq_Inr dest: coerce_result_type)

end
