(* ===== verification/Expressions.thy ===== *)
theory Expressions
  imports Values
begin

text \<open>
  Expressions of \<open>src/tamerlite/core/search_space.py\<close>: a postorder tuple of nodes whose
  operands are indices of earlier nodes, with \<open>shift_expression\<close>, \<open>split_expression\<close>,
  \<open>extract_sub_expression\<close>, \<open>get_fluents\<close>, \<open>is_object_typed_operand\<close> and the
  stack-less evaluator \<open>evaluate\<close>.  The specification they are proved against is
  \<open>Expression_Trees\<close>.
\<close>

section \<open>Nodes\<close>

datatype node =
    NConst const
  | NFluent fluent
  | NOp string "int list"
  | NIf ifun if_return_type "int list"

type_synonym expression = "node list"

definition make_operator_node :: "string \<Rightarrow> int list \<Rightarrow> node" where
  "make_operator_node k ops = NOp k ops"

definition make_interpreted_function_node ::
    "ifun \<Rightarrow> if_return_type \<Rightarrow> int list \<Rightarrow> node" where
  "make_interpreted_function_node f rt ops = NIf f rt ops"

definition make_bool_constant_node :: "bool \<Rightarrow> node" where
  "make_bool_constant_node v = NConst (CBool v)"

definition make_int_constant_node :: "int \<Rightarrow> node" where
  "make_int_constant_node v = NConst (CInt v)"

text \<open>\<open>Fraction(numerator=n, denominator=d)\<close> raises when \<open>d\<close> is 0.\<close>

definition make_rational_constant_node :: "int \<Rightarrow> int \<Rightarrow> node res" where
  "make_rational_constant_node n d =
     (if d = 0 then Inl ZeroDivErr
      else Inr (NConst (canonical_rational (of_int n / of_int d))))"

definition make_object_node :: "obj \<Rightarrow> node" where
  "make_object_node x = NConst (CObj x)"

definition make_fluent_node :: "fluent \<Rightarrow> node" where
  "make_fluent_node f = NFluent f"

fun node_operands :: "node \<Rightarrow> int list" where
  "node_operands (NOp _ ops) = ops"
| "node_operands (NIf _ _ ops) = ops"
| "node_operands _ = []"

text \<open>\<open>==\<close> of two nodes: constants by Python's equality, the others by their fields.\<close>

fun node_eq :: "node \<Rightarrow> node \<Rightarrow> bool" where
  "node_eq (NConst a) (NConst b) = py_eq a b"
| "node_eq m n = (m = n)"


section \<open>Rewriting expressions\<close>

fun shift_node :: "int \<Rightarrow> node \<Rightarrow> node" where
  "shift_node k (NOp kind ops) = NOp kind (map (\<lambda>o'. o' + k) ops)"
| "shift_node k (NIf f rt ops) = NIf f rt (map (\<lambda>o'. o' + k) ops)"
| "shift_node k n = n"

definition shift_expression :: "expression \<Rightarrow> int \<Rightarrow> expression" where
  "shift_expression e k = map (shift_node k) e"

text \<open>The loop of \<open>split_expression\<close>: one slice per operand of the root conjunction.\<close>

fun split_operands :: "expression \<Rightarrow> int \<Rightarrow> int list \<Rightarrow> expression list" where
  "split_operands e l [] = []"
| "split_operands e l (i # is) =
     shift_expression (py_slice e l (i + 1)) (- l) # split_operands e (i + 1) is"

definition split_expression :: "expression \<Rightarrow> expression list res" where
  "split_expression e = rbind (py_last e) (\<lambda>root. case root of
     NOp k ops \<Rightarrow> if k \<noteq> ''and'' then Inr [e] else Inr (split_operands e 0 ops)
   | _ \<Rightarrow> Inr [e])"

text \<open>The walk to the first node of the sub-expression rooted at \<open>i\<close>.\<close>

definition sub_start_step :: "expression \<Rightarrow> int \<Rightarrow> int res res + int" where
  "sub_start_step e i = (case py_nth e i of
     Inl err \<Rightarrow> Inl (Inl err)
   | Inr n \<Rightarrow> (case node_operands n of [] \<Rightarrow> Inl (Inr (Inr i)) | o' # _ \<Rightarrow> Inr o'))"

definition sub_start :: "expression \<Rightarrow> int \<Rightarrow> int res" where
  "sub_start e idx = rbind (run_loop (sub_start_step e) idx) id"

definition extract_sub_expression :: "expression \<Rightarrow> int \<Rightarrow> expression res" where
  "extract_sub_expression e idx =
     rbind (sub_start e idx) (\<lambda>i. Inr (shift_expression (py_slice e i (idx + 1)) (- i)))"

fun node_fluents :: "node \<Rightarrow> fluent list" where
  "node_fluents (NFluent f) = [f]"
| "node_fluents _ = []"

definition get_fluents :: "expression \<Rightarrow> fluent list" where
  "get_fluents e = concat (map node_fluents e)"

fun is_if_node :: "node \<Rightarrow> bool" where
  "is_if_node (NIf _ _ _) = True"
| "is_if_node _ = False"

definition has_interpreted_function :: "expression \<Rightarrow> bool" where
  "has_interpreted_function e = (\<exists>n \<in> set e. is_if_node n)"

fun is_object_typed_operand :: "node \<Rightarrow> fluent_domain list \<Rightarrow> bool res" where
  "is_object_typed_operand (NConst (CObj _)) ds = Inr True"
| "is_object_typed_operand (NFluent f) ds =
     rbind (py_nth ds (int (fl_idx f))) (\<lambda>d. Inr (fd_kind d = KObject))"
| "is_object_typed_operand (NIf _ rt _) ds = Inr (rt = IfObject)"
| "is_object_typed_operand _ ds = Inr False"


section \<open>Evaluation\<close>

text \<open>
  \<open>evaluate\<close> appends one value per node to \<open>res\<close>; an operator reads the values of its
  operands there.  A conjunction or disjunction stops reading operands at the first
  that decides it; an operator of unknown kind appends nothing.
\<close>

definition operand :: "int list \<Rightarrow> int \<Rightarrow> 'a list \<Rightarrow> 'a res" where
  "operand ops k vs = rbind (py_nth ops k) (py_nth vs)"

fun eval_and :: "int list \<Rightarrow> const list \<Rightarrow> bool res" where
  "eval_and [] vs = Inr True"
| "eval_and (i # is) vs =
     rbind (py_nth vs i) (\<lambda>v. if \<not> truthy v then Inr False else eval_and is vs)"

fun eval_or :: "int list \<Rightarrow> const list \<Rightarrow> bool res" where
  "eval_or [] vs = Inr False"
| "eval_or (i # is) vs =
     rbind (py_nth vs i) (\<lambda>v. if truthy v then Inr True else eval_or is vs)"

text \<open>The \<open>iter\<close>/\<open>next\<close> loops of \<open>+\<close> and \<open>*\<close>.\<close>

fun eval_fold ::
    "(const \<Rightarrow> const \<Rightarrow> const res) \<Rightarrow> int list \<Rightarrow> const list \<Rightarrow> const res" where
  "eval_fold f [] vs = Inl StopIterErr"
| "eval_fold f (i # is) vs =
     rbind (py_nth vs i) (rfold (\<lambda>j v. rbind (py_nth vs j) (f v)) is)"

definition eval_binary ::
    "(const \<Rightarrow> const \<Rightarrow> const res) \<Rightarrow> int list \<Rightarrow> const list \<Rightarrow> const res" where
  "eval_binary f ops vs =
     rbind (operand ops 0 vs) (\<lambda>a. rbind (operand ops 1 vs) (\<lambda>b. f a b))"

definition eval_operator :: "string \<Rightarrow> int list \<Rightarrow> const list \<Rightarrow> const list res" where
  "eval_operator k ops vs =
    (if k = ''and'' then rbind (eval_and ops vs) (\<lambda>b. Inr (vs @ [CBool b]))
     else if k = ''or'' then rbind (eval_or ops vs) (\<lambda>b. Inr (vs @ [CBool b]))
     else if k = ''not'' then rbind (operand ops 0 vs) (\<lambda>v. Inr (vs @ [CBool (\<not> truthy v)]))
     else if k = ''=='' then
       rbind (eval_binary (\<lambda>a b. Inr (CBool (py_eq a b))) ops vs) (\<lambda>v. Inr (vs @ [v]))
     else if k = ''<='' then
       rbind (eval_binary (\<lambda>a b. rbind (py_compare (\<le>) a b) (\<lambda>r. Inr (CBool r))) ops vs)
         (\<lambda>v. Inr (vs @ [v]))
     else if k = ''<'' then
       rbind (eval_binary (\<lambda>a b. rbind (py_compare (<) a b) (\<lambda>r. Inr (CBool r))) ops vs)
         (\<lambda>v. Inr (vs @ [v]))
     else if k = ''+'' then rbind (eval_fold py_add ops vs) (\<lambda>v. Inr (vs @ [normalize_num v]))
     else if k = ''-'' then rbind (eval_binary py_sub ops vs) (\<lambda>v. Inr (vs @ [normalize_num v]))
     else if k = ''*'' then rbind (eval_fold py_mul ops vs) (\<lambda>v. Inr (vs @ [normalize_num v]))
     else if k = ''/'' then
       rbind (eval_binary py_fraction ops vs) (\<lambda>v. Inr (vs @ [normalize_num v]))
     else Inr vs)"

fun eval_node :: "ifenv \<Rightarrow> const list \<Rightarrow> node \<Rightarrow> const list \<Rightarrow> const list res" where
  "eval_node ifs asg (NConst c) vs = Inr (vs @ [c])"
| "eval_node ifs asg (NFluent f) vs =
     rbind (py_nth asg (int (fl_idx f))) (\<lambda>v. Inr (vs @ [v]))"
| "eval_node ifs asg (NIf f rt ops) vs =
     rbind (rmap (py_nth vs) ops) (\<lambda>args. rbind (if_call ifs f rt args) (\<lambda>v. Inr (vs @ [v])))"
| "eval_node ifs asg (NOp k ops) vs = eval_operator k ops vs"

definition evaluate :: "ifenv \<Rightarrow> expression \<Rightarrow> const list \<Rightarrow> const res" where
  "evaluate ifs e asg = rbind (rfold (eval_node ifs asg) e []) py_last"


section \<open>Elementary facts\<close>

lemma length_shift_expression [simp]: "length (shift_expression e k) = length e"
  by (simp add: shift_expression_def)

lemma shift_node_add [simp]: "shift_node j (shift_node k n) = shift_node (k + j) n"
  by (cases n) (auto simp: algebra_simps)

lemma shift_node_0 [simp]: "shift_node 0 n = n"
  by (cases n) auto

lemma shift_expression_0 [simp]: "shift_expression e 0 = e"
  by (induction e) (auto simp: shift_expression_def)

lemma shift_expression_add [simp]:
  "shift_expression (shift_expression e k) j = shift_expression e (k + j)"
  by (simp add: shift_expression_def)

lemma shift_expression_append [simp]:
  "shift_expression (e @ e') k = shift_expression e k @ shift_expression e' k"
  by (simp add: shift_expression_def)

lemma node_fluents_shift [simp]: "node_fluents (shift_node k n) = node_fluents n"
  by (cases n) auto

lemma is_if_node_shift [simp]: "is_if_node (shift_node k n) = is_if_node n"
  by (cases n) auto

lemma get_fluents_shift [simp]: "get_fluents (shift_expression e k) = get_fluents e"
  by (simp add: get_fluents_def shift_expression_def comp_def)

lemma has_interpreted_function_shift [simp]:
  "has_interpreted_function (shift_expression e k) = has_interpreted_function e"
  by (auto simp: has_interpreted_function_def shift_expression_def)

lemma get_fluents_append [simp]: "get_fluents (e @ e') = get_fluents e @ get_fluents e'"
  by (simp add: get_fluents_def)

lemma get_fluents_Nil [simp]: "get_fluents [] = []"
  by (simp add: get_fluents_def)

lemma get_fluents_Cons [simp]: "get_fluents (n # e) = node_fluents n @ get_fluents e"
  by (simp add: get_fluents_def)

text \<open>Evaluation reads only the fluents of the expression.\<close>

lemma eval_node_agree:
  assumes "\<And>f. f \<in> set (node_fluents n) \<Longrightarrow>
    py_nth asg (int (fl_idx f)) = py_nth asg' (int (fl_idx f))"
  shows "eval_node ifs asg n vs = eval_node ifs asg' n vs"
  using assms by (cases n) auto

lemma evaluate_agree:
  assumes "\<And>f. f \<in> set (get_fluents e) \<Longrightarrow>
    py_nth asg (int (fl_idx f)) = py_nth asg' (int (fl_idx f))"
  shows "evaluate ifs e asg = evaluate ifs e asg'"
proof -
  have "rfold (eval_node ifs asg) e [] = rfold (eval_node ifs asg') e []"
    by (rule rfold_cong) (use assms in \<open>auto simp: get_fluents_def intro!: eval_node_agree\<close>)
  then show ?thesis by (simp add: evaluate_def)
qed

end
