(* ===== verification/Search_State.thy ===== *)
theory Search_State
  imports Expressions
begin

text \<open>
  The data of a search: timings, effects and events, the multiset of active conditions,
  the search \<open>State\<close> and the two memoizing checkers of event interference
  (\<open>src/tamerlite/core/search_space.py\<close>).  \<open>MultiSet\<close> is proved to implement finite
  multisets (locale \<open>condition_bag\<close>), and the caches of \<open>MutexChecker\<close> and
  \<open>PrecedenceChecker\<close> to be transparent.
\<close>

section \<open>Events\<close>

record timing =
  tm_start :: bool
  tm_delay :: rat

definition is_from_start :: "timing \<Rightarrow> bool" where
  "is_from_start t = tm_start t"

definition is_from_end :: "timing \<Rightarrow> bool" where
  "is_from_end t = (\<not> tm_start t)"

record effect =
  eff_fluent :: fluent
  eff_value :: expression

record event =
  ev_action :: action
  ev_pos :: nat
  ev_conditions :: expression
  ev_start_conditions :: "expression list"
  ev_end_conditions :: "expression list"
  ev_effects :: "effect list"

type_synonym timed_event = "timing \<times> event"

text \<open>
  The time points of a temporal network: the two plan points, the start and end of an
  action instance, and the events, each tagged with the instance number.
\<close>

datatype tp =
    StartPlan
  | EndPlan
  | ActionTP action bool nat
  | EventTP action nat nat

text \<open>An entry of a path: action, position of the event and instance number.\<close>

type_synonym path_entry = "action \<times> nat \<times> nat"

fun entry_tp :: "path_entry \<Rightarrow> tp" where
  "entry_tp (a, pos, i) = EventTP a pos i"


section \<open>The multiset of active conditions\<close>

text \<open>A dictionary from the elements to their number of occurrences.\<close>

type_synonym 'a multi_set = "('a, nat) dict"

definition ms_empty :: "'a multi_set" where
  "ms_empty = []"

definition ms_contains :: "'a \<Rightarrow> 'a multi_set \<Rightarrow> bool" where
  "ms_contains e m \<longleftrightarrow> dict_get m e \<noteq> None"

definition ms_iter :: "'a multi_set \<Rightarrow> 'a list" where
  "ms_iter m = map fst m"

definition ms_clone :: "'a multi_set \<Rightarrow> 'a multi_set" where
  "ms_clone m = m"

definition ms_add :: "'a \<Rightarrow> 'a multi_set \<Rightarrow> 'a multi_set" where
  "ms_add e m =
     (let m = (case dict_get m e of None \<Rightarrow> dict_set e 0 m | Some _ \<Rightarrow> m)
      in dict_set e (Suc (the (dict_get m e))) m)"

definition ms_remove :: "'a \<Rightarrow> 'a multi_set \<Rightarrow> 'a multi_set res" where
  "ms_remove e m = rbind (dict_lookup m e) (\<lambda>c.
     Inr (if c - 1 = 0 then dict_del e m else dict_set e (c - 1) m))"

definition ms_wf :: "'a multi_set \<Rightarrow> bool" where
  "ms_wf m \<longleftrightarrow> dict_wf m \<and> (\<forall>e c. dict_get m e = Some c \<longrightarrow> 0 < c)"

definition ms_count :: "'a multi_set \<Rightarrow> 'a \<Rightarrow> nat" where
  "ms_count m e = (case dict_get m e of None \<Rightarrow> 0 | Some c \<Rightarrow> c)"

definition ms_abs :: "'a multi_set \<Rightarrow> 'a multiset" where
  "ms_abs m = mset (concat (map (\<lambda>(e, c). replicate c e) m))"

text \<open>The interface the search space uses, over its abstraction to multisets.\<close>

locale condition_bag =
  fixes empty :: 'b
    and add :: "'a \<Rightarrow> 'b \<Rightarrow> 'b"
    and remove :: "'a \<Rightarrow> 'b \<Rightarrow> 'b res"
    and members :: "'b \<Rightarrow> 'a list"
    and abs :: "'b \<Rightarrow> 'a multiset"
    and invar :: "'b \<Rightarrow> bool"
  assumes abs_empty: "abs empty = {#}"
    and invar_empty: "invar empty"
    and abs_add: "invar m \<Longrightarrow> abs (add e m) = add_mset e (abs m)"
    and invar_add: "invar m \<Longrightarrow> invar (add e m)"
    and remove_present: "invar m \<Longrightarrow> e \<in># abs m \<Longrightarrow>
          \<exists>m'. remove e m = Inr m' \<and> abs m' = abs m - {#e#} \<and> invar m'"
    and remove_absent: "invar m \<Longrightarrow> e \<notin># abs m \<Longrightarrow> remove e m = Inl KeyErr"
    and members_abs: "invar m \<Longrightarrow> set (members m) = set_mset (abs m)"
begin

lemma remove_Inr_iff:
  assumes "invar m"
  shows "(\<exists>m'. remove e m = Inr m') \<longleftrightarrow> e \<in># abs m"
  using assms remove_present remove_absent by (metis sum.distinct(1))

lemma remove_InrD:
  assumes "invar m" "remove e m = Inr m'"
  shows "abs m' = abs m - {#e#}" "invar m'"
  using assms remove_present [OF assms(1)] remove_Inr_iff [OF assms(1)] by force+

text \<open>The loops over end and start conditions in \<open>_expand_event\<close>.\<close>

lemma remove_all:
  "invar m \<Longrightarrow> rfold remove es m = Inr m' \<Longrightarrow> invar m' \<and> abs m' = abs m - mset es"
proof (induction es arbitrary: m)
  case (Cons e es)
  then obtain m1 where m1: "remove e m = Inr m1" "rfold remove es m1 = Inr m'"
    by (auto simp: rbind_eq_Inr)
  from remove_InrD [OF Cons.prems(1) m1(1)] Cons.IH [OF _ m1(2)] show ?case by simp
qed simp

lemma remove_all_returns:
  "invar m \<Longrightarrow> mset es \<subseteq># abs m \<Longrightarrow> \<exists>m'. rfold remove es m = Inr m'"
proof (induction es arbitrary: m)
  case (Cons e es)
  then have "e \<in># abs m" by (simp add: insert_subset_eq_iff)
  with Cons.prems(1) obtain m1 where "remove e m = Inr m1" "abs m1 = abs m - {#e#}" "invar m1"
    using remove_present by blast
  with Cons show ?case by (simp add: insert_subset_eq_iff)
qed simp

lemma add_all: "invar m \<Longrightarrow> invar (fold add es m) \<and> abs (fold add es m) = abs m + mset es"
  by (induction es arbitrary: m) (auto simp: abs_add invar_add)

text \<open>Conditions added together and removed together leave the multiset as it was.\<close>

lemma add_remove_all:
  assumes "invar m"
  shows "\<exists>m'. rfold remove es (fold add es m) = Inr m' \<and> abs m' = abs m"
  using add_all [OF assms, of es] remove_all_returns [of "fold add es m" es]
    remove_all [of "fold add es m" es] by fastforce

end

lemma count_concat_replicate:
  "distinct (map fst m) \<Longrightarrow>
     count (mset (concat (map (\<lambda>(e, c). replicate c e) m))) x =
       (case map_of m x of None \<Rightarrow> 0 | Some c \<Rightarrow> c)"
proof (induction m)
  case (Cons p m)
  obtain e c where p: "p = (e, c)" by fastforce
  have "map_of m e = None" using Cons.prems p by (simp add: map_of_eq_None_iff)
  with Cons p show ?case by auto
qed simp

lemma count_ms_abs: "ms_wf m \<Longrightarrow> count (ms_abs m) x = ms_count m x"
  by (simp add: ms_abs_def ms_wf_def dict_wf_def count_concat_replicate ms_count_def)

lemma ms_wf_empty [simp]: "ms_wf ms_empty"
  by (simp add: ms_wf_def ms_empty_def)

lemma ms_wf_add [simp]: "ms_wf m \<Longrightarrow> ms_wf (ms_add e m)"
  by (auto simp: ms_wf_def ms_add_def dict_get_set split: option.split if_splits)

lemma ms_count_add: "ms_count (ms_add e m) x = ms_count m x + (if x = e then 1 else 0)"
  by (auto simp: ms_count_def ms_add_def dict_get_set split: option.split)

lemma ms_mem_iff: "ms_wf m \<Longrightarrow> e \<in># ms_abs m \<longleftrightarrow> dict_get m e \<noteq> None"
  by (auto simp: count_ms_abs ms_count_def ms_wf_def simp flip: count_greater_zero_iff
      split: option.split)

lemma ms_remove_present:
  assumes wf: "ms_wf m" and c: "dict_get m e = Some c"
  shows "\<exists>m'. ms_remove e m = Inr m' \<and> ms_wf m' \<and>
    (\<forall>x. ms_count m' x = ms_count m x - (if x = e then 1 else 0))"
proof -
  define m' where "m' = (if c - 1 = 0 then dict_del e m else dict_set e (c - 1) m)"
  have "ms_remove e m = Inr m'"
    by (simp add: ms_remove_def dict_lookup_def c m'_def)
  moreover have "ms_wf m'"
    using wf by (auto simp: ms_wf_def m'_def dict_get_set dict_get_del split: if_splits)
  moreover have "ms_count m' x = ms_count m x - (if x = e then 1 else 0)" for x
    using wf c by (auto simp: ms_count_def m'_def dict_get_set dict_get_del ms_wf_def)
  ultimately show ?thesis by blast
qed

interpretation active_conditions: condition_bag ms_empty ms_add ms_remove ms_iter ms_abs ms_wf
proof (unfold_locales, goal_cases)
  case 1 show ?case by (simp add: ms_abs_def ms_empty_def)
next
  case 2 show ?case by simp
next
  case 3 then show ?case by (auto simp: multiset_eq_iff count_ms_abs ms_count_add)
next
  case 4 then show ?case by simp
next
  case (5 m e)
  then obtain c where "dict_get m e = Some c" by (auto simp: ms_mem_iff)
  from ms_remove_present [OF 5(1) this] 5(1) show ?case
    by (auto simp: multiset_eq_iff count_ms_abs)
next
  case (6 m e)
  then show ?case by (auto simp: ms_mem_iff ms_remove_def dict_lookup_def)
next
  case (7 m)
  then have "set (map fst m) = dom (dict_get m)" by (simp add: dom_map_of_conv_image_fst)
  with 7 show ?case by (auto simp: ms_iter_def ms_mem_iff)
qed


section \<open>Search states\<close>

record 'n state =
  st_assignments :: "const list"
  st_tn :: "'n option"
  st_todo :: "(action, nat \<times> nat) dict"
  st_active :: "expression multi_set"
  st_g :: nat
  st_path :: "path_entry list"
  st_hcache :: "(string, rat option) dict"

definition mk_state ::
    "const list \<Rightarrow> 'n option \<Rightarrow> (action, nat \<times> nat) dict \<Rightarrow> expression multi_set \<Rightarrow> nat \<Rightarrow>
     path_entry list \<Rightarrow> 'n state" where
  "mk_state asg tn todo act g path = \<lparr>st_assignments = asg, st_tn = tn, st_todo = todo,
     st_active = act, st_g = g, st_path = path, st_hcache = []\<rparr>"

definition get_value :: "'n state \<Rightarrow> fluent \<Rightarrow> const res" where
  "get_value s f = py_nth (st_assignments s) (int (fl_idx f))"

text \<open>
  \<open>State.clone\<close>: the network is copied (a value here) or left out, the heuristic cache
  starts empty.
\<close>

definition clone :: "'n state \<Rightarrow> bool \<Rightarrow> 'n state" where
  "clone s with_tn = mk_state (st_assignments s) (if with_tn then st_tn s else None) (st_todo s)
     (ms_clone (st_active s)) (st_g s) (st_path s)"

text \<open>\<open>State.__eq__\<close>: never on a temporal problem, else equality of the values.\<close>

definition assignments_eq :: "const list \<Rightarrow> const list \<Rightarrow> bool" where
  "assignments_eq a b \<longleftrightarrow> list_all2 py_eq a b"

definition state_eq :: "'n state \<Rightarrow> 'n state \<Rightarrow> bool" where
  "state_eq s t = (if st_tn s = None then assignments_eq (st_assignments s) (st_assignments t) else False)"

lemma assignments_eq_refl [simp]: "assignments_eq a a"
  by (simp add: assignments_eq_def list_all2_refl)

lemma assignments_eq_sym: "assignments_eq a b \<Longrightarrow> assignments_eq b a"
  by (auto simp: assignments_eq_def list_all2_conv_all_nth py_eq_sym)

lemma assignments_eq_trans: "assignments_eq a b \<Longrightarrow> assignments_eq b c \<Longrightarrow> assignments_eq a c"
  using list_all2_trans [of py_eq py_eq py_eq a b c] py_eq_trans
  unfolding assignments_eq_def by blast

lemma clone_fields [simp]:
  "st_assignments (clone s b) = st_assignments s"
  "st_tn (clone s b) = (if b then st_tn s else None)"
  "st_todo (clone s b) = st_todo s"
  "st_active (clone s b) = st_active s"
  "st_g (clone s b) = st_g s"
  "st_path (clone s b) = st_path s"
  "st_hcache (clone s b) = []"
  by (simp_all add: clone_def mk_state_def ms_clone_def)


section \<open>Interference between events\<close>

record event_fluents =
  ef_reads :: "fluent set"
  ef_writes :: "fluent set"
  ef_read_writes :: "fluent set"
  ef_start_reads :: "fluent set"
  ef_end_reads :: "fluent set"

type_synonym event_ref = "action \<times> nat"

type_synonym pair_cache = "(event_ref \<times> event_ref, bool) dict"

definition isdisjoint :: "'a set \<Rightarrow> 'a set \<Rightarrow> bool" where
  "isdisjoint A B \<longleftrightarrow> A \<inter> B = {}"

definition fluents_of :: "event_fluents list list \<Rightarrow> event_ref \<Rightarrow> event_fluents res" where
  "fluents_of efs r = rbind (py_nth efs (int (act_idx (fst r)))) (\<lambda>row. py_nth row (int (snd r)))"

definition mutex_fluents :: "event_fluents \<Rightarrow> event_fluents \<Rightarrow> bool" where
  "mutex_fluents a b =
     (\<not> (isdisjoint (ef_reads b) (ef_writes a) \<and> isdisjoint (ef_read_writes a) (ef_writes b)))"

definition precedence_fluents :: "event_fluents \<Rightarrow> event_fluents \<Rightarrow> bool" where
  "precedence_fluents a b =
     (\<not> (isdisjoint (ef_writes a) (ef_start_reads b) \<and> isdisjoint (ef_writes b) (ef_end_reads a)))"

text \<open>What the checkers compute, without their caches.\<close>

definition pair_check ::
    "(event_fluents \<Rightarrow> event_fluents \<Rightarrow> bool) \<Rightarrow> event_fluents list list \<Rightarrow> event_ref \<Rightarrow> event_ref \<Rightarrow>
     bool res" where
  "pair_check f efs p q =
     (if fst p = fst q then Inr True
      else rbind (fluents_of efs p) (\<lambda>a. rbind (fluents_of efs q) (\<lambda>b. Inr (f a b))))"

definition mutex :: "event_fluents list list \<Rightarrow> event_ref \<Rightarrow> event_ref \<Rightarrow> bool res" where
  "mutex = pair_check mutex_fluents"

definition precedence :: "event_fluents list list \<Rightarrow> event_ref \<Rightarrow> event_ref \<Rightarrow> bool res" where
  "precedence = pair_check precedence_fluents"

text \<open>\<open>MutexChecker.__contains__\<close> and \<open>PrecedenceChecker.__contains__\<close>, with the cache.\<close>

definition cached_check ::
    "(event_fluents \<Rightarrow> event_fluents \<Rightarrow> bool) \<Rightarrow> event_fluents list list \<Rightarrow> pair_cache \<Rightarrow>
     event_ref \<Rightarrow> event_ref \<Rightarrow> (bool \<times> pair_cache) res" where
  "cached_check f efs cache p q =
     (if fst p = fst q then Inr (True, cache)
      else (case dict_get cache (p, q) of
        Some b \<Rightarrow> Inr (b, cache)
      | None \<Rightarrow> rbind (fluents_of efs p) (\<lambda>a. rbind (fluents_of efs q) (\<lambda>b.
          Inr (f a b, dict_set (p, q) (f a b) cache)))))"

definition mutex_contains ::
    "event_fluents list list \<Rightarrow> pair_cache \<Rightarrow> event_ref \<Rightarrow> event_ref \<Rightarrow> (bool \<times> pair_cache) res" where
  "mutex_contains = cached_check mutex_fluents"

definition precedence_contains ::
    "event_fluents list list \<Rightarrow> pair_cache \<Rightarrow> event_ref \<Rightarrow> event_ref \<Rightarrow> (bool \<times> pair_cache) res" where
  "precedence_contains = cached_check precedence_fluents"

text \<open>A cache holds only answers the checker would give without it.\<close>

definition cache_ok ::
    "(event_fluents \<Rightarrow> event_fluents \<Rightarrow> bool) \<Rightarrow> event_fluents list list \<Rightarrow> pair_cache \<Rightarrow> bool" where
  "cache_ok f efs cache \<longleftrightarrow> (\<forall>p q b. dict_get cache (p, q) = Some b \<longrightarrow> pair_check f efs p q = Inr b)"

lemma cache_ok_empty [simp]: "cache_ok f efs []"
  by (simp add: cache_ok_def)

lemma cache_okD: "cache_ok f efs cache \<Longrightarrow> dict_get cache (p, q) = Some b \<Longrightarrow> pair_check f efs p q = Inr b"
  unfolding cache_ok_def by blast

lemma cached_check_transparent:
  assumes "cache_ok f efs cache"
  shows "(\<exists>cache'. cached_check f efs cache p q =
      rbind (pair_check f efs p q) (\<lambda>b. Inr (b, cache')) \<and> cache_ok f efs cache')"
proof (cases "fst p = fst q")
  case True
  then show ?thesis
    using assms by (intro exI [of _ cache]) (simp add: cached_check_def pair_check_def)
next
  case new: False
  show ?thesis
  proof (cases "dict_get cache (p, q)")
    case (Some b)
    with assms have "pair_check f efs p q = Inr b" unfolding cache_ok_def by blast
    with new Some assms show ?thesis by (intro exI [of _ cache]) (simp add: cached_check_def)
  next
    case None
    show ?thesis
    proof (cases "pair_check f efs p q")
      case (Inl e)
      with new None assms show ?thesis
        by (auto simp: cached_check_def pair_check_def rbind_eq_Inl intro!: exI [of _ cache])
    next
      case (Inr b)
      have "cache_ok f efs (dict_set (p, q) b cache)"
        unfolding cache_ok_def
      proof (intro allI impI)
        fix p' q' b' assume "dict_get (dict_set (p, q) b cache) (p', q') = Some b'"
        then show "pair_check f efs p' q' = Inr b'"
          using cache_okD [OF assms, of p' q'] Inr by (auto simp: dict_get_set split: if_splits)
      qed
      moreover have "cached_check f efs cache p q = Inr (b, dict_set (p, q) b cache)"
        using new None Inr by (auto simp: cached_check_def pair_check_def rbind_eq_Inr)
      ultimately show ?thesis using Inr by auto
    qed
  qed
qed

text \<open>Mutual exclusion does not depend on the order of the two events.\<close>

definition event_fluents_wf :: "event_fluents list list \<Rightarrow> bool" where
  "event_fluents_wf efs \<longleftrightarrow>
     (\<forall>row \<in> set efs. \<forall>ef \<in> set row. ef_read_writes ef = ef_reads ef \<union> ef_writes ef)"

lemma mutex_fluents_sym:
  assumes "ef_read_writes a = ef_reads a \<union> ef_writes a" "ef_read_writes b = ef_reads b \<union> ef_writes b"
  shows "mutex_fluents a b = mutex_fluents b a"
  using assms by (auto simp: mutex_fluents_def isdisjoint_def)

lemma fluents_of_wf:
  assumes "event_fluents_wf efs" "fluents_of efs r = Inr ef"
  shows "ef_read_writes ef = ef_reads ef \<union> ef_writes ef"
  using assms by (auto simp: fluents_of_def rbind_eq_Inr event_fluents_wf_def dest!: py_nth_Inr_mem)

lemma mutex_sym:
  assumes wf: "event_fluents_wf efs" and m: "mutex efs p q = Inr b"
  shows "mutex efs q p = Inr b"
proof (cases "fst p = fst q")
  case True
  with m show ?thesis by (simp add: mutex_def pair_check_def)
next
  case False
  then obtain x y where xy: "fluents_of efs p = Inr x" "fluents_of efs q = Inr y"
    "b = mutex_fluents x y"
    using m by (auto simp: mutex_def pair_check_def rbind_eq_Inr)
  have "mutex_fluents x y = mutex_fluents y x"
    by (intro mutex_fluents_sym fluents_of_wf [OF wf xy(1)] fluents_of_wf [OF wf xy(2)])
  with xy False show ?thesis by (auto simp: mutex_def pair_check_def)
qed

end
