(* ===== verification/Stn.thy ===== *)
theory Stn
  imports Tamer_Prelude
begin

text \<open>
  Simple temporal networks.  The planner only adds difference constraints
  \<open>t x - t y \<le> b\<close> to a network, asks whether it is consistent and reads a model.
  The Python core uses unified_planning's \<open>DeltaSimpleTemporalNetwork\<close> for this, the
  Rust core \<open>DeltaSTN\<close> of \<open>crates/rustamer-base/src/stn.rs\<close>, which is modelled here at
  exact rationals.  The locale \<open>temporal_network\<close> is the contract the search space
  relies on; \<open>DeltaSTN\<close> with tolerance 0 is proved to satisfy it: the incremental
  propagation \<open>inc_check\<close> always terminates, decides consistency, and keeps the
  earliest schedule in \<open>distances\<close>.
\<close>

section \<open>Constraints and schedules\<close>

type_synonym 't constraint = "'t \<times> 't \<times> rat"

definition schedules :: "('t \<Rightarrow> rat) \<Rightarrow> 't constraint set \<Rightarrow> bool" where
  "schedules \<tau> C \<longleftrightarrow> (\<forall>(x, y, b) \<in> C. \<tau> x - \<tau> y \<le> b)"

definition consistent :: "'t constraint set \<Rightarrow> bool" where
  "consistent C \<longleftrightarrow> (\<exists>\<tau>. schedules \<tau> C)"

definition cnodes :: "'t constraint set \<Rightarrow> 't set" where
  "cnodes C = (\<Union>(x, y, b) \<in> C. {x, y})"

text \<open>The earliest schedule: no non-negative schedule puts any time point before it.\<close>

definition earliest :: "('t \<Rightarrow> rat) \<Rightarrow> 't constraint set \<Rightarrow> bool" where
  "earliest \<tau> C \<longleftrightarrow> schedules \<tau> C \<and> (\<forall>v. 0 \<le> \<tau> v) \<and>
     (\<forall>\<sigma>. schedules \<sigma> C \<longrightarrow> (\<forall>v. 0 \<le> \<sigma> v) \<longrightarrow> (\<forall>v. \<tau> v \<le> \<sigma> v))"

lemma schedules_empty [simp]: "schedules \<tau> {}"
  by (simp add: schedules_def)

lemma schedules_insert [simp]:
  "schedules \<tau> (insert (x, y, b) C) \<longleftrightarrow> \<tau> x - \<tau> y \<le> b \<and> schedules \<tau> C"
  by (auto simp: schedules_def)

lemma schedules_Un [simp]: "schedules \<tau> (C \<union> D) \<longleftrightarrow> schedules \<tau> C \<and> schedules \<tau> D"
  by (simp add: schedules_def ball_Un)

lemma schedules_mono: "schedules \<tau> D \<Longrightarrow> C \<subseteq> D \<Longrightarrow> schedules \<tau> C"
  by (auto simp: schedules_def)

lemma schedules_memD: "schedules \<tau> C \<Longrightarrow> (x, y, b) \<in> C \<Longrightarrow> \<tau> x - \<tau> y \<le> b"
  by (auto simp: schedules_def)

lemma cnodes_insert [simp]: "cnodes (insert (x, y, b) C) = insert x (insert y (cnodes C))"
  by (auto simp: cnodes_def)

lemma cnodes_empty [simp]: "cnodes {} = {}"
  by (simp add: cnodes_def)

lemma cnodes_mono: "C \<subseteq> D \<Longrightarrow> cnodes C \<subseteq> cnodes D"
  by (auto simp: cnodes_def)

lemma cnodes_mem: "(x, y, b) \<in> C \<Longrightarrow> x \<in> cnodes C \<and> y \<in> cnodes C"
  by (force simp: cnodes_def)


section \<open>The contract of a temporal network\<close>

text \<open>
  \<open>carries n C\<close> says that exactly the constraints \<open>C\<close> were added to the network \<open>n\<close>.
\<close>

locale temporal_network =
  fixes empty :: 'n
    and add :: "'t \<Rightarrow> 't \<Rightarrow> rat \<Rightarrow> 'n \<Rightarrow> 'n res"
    and insert_interval :: "'t \<Rightarrow> 't \<Rightarrow> rat \<Rightarrow> rat \<Rightarrow> 'n \<Rightarrow> 'n res"
    and check :: "'n \<Rightarrow> bool"
    and distance :: "'n \<Rightarrow> 't \<Rightarrow> rat option"
    and carries :: "'n \<Rightarrow> 't constraint set \<Rightarrow> bool"
  assumes carries_empty: "carries empty {}"
    and carries_add: "carries n C \<Longrightarrow> \<exists>n'. add x y b n = Inr n' \<and> carries n' (insert (x, y, b) C)"
    and carries_interval: "carries n C \<Longrightarrow> \<exists>n'. insert_interval x y l u n = Inr n' \<and>
          carries n' (insert (y, x, u) (insert (x, y, - l) C))"
    and check_consistent: "carries n C \<Longrightarrow> check n \<longleftrightarrow> consistent C"
    and distance_earliest: "carries n C \<Longrightarrow> check n \<Longrightarrow>
          \<exists>\<tau>. earliest \<tau> C \<and> (\<forall>v \<in> cnodes C. distance n v = Some (- \<tau> v))"
begin

lemma add_carries:
  assumes "carries n C" "add x y b n = Inr n'"
  shows "carries n' (insert (x, y, b) C)"
  using carries_add [OF assms(1), of x y b] assms(2) by auto

lemma interval_carries:
  assumes "carries n C" "insert_interval x y l u n = Inr n'"
  shows "carries n' (insert (y, x, u) (insert (x, y, - l) C))"
  using carries_interval [OF assms(1), of x y l u] assms(2) by auto

text \<open>Adding constraints can only lose consistency.\<close>

lemma check_add_mono:
  assumes "carries n C" "add x y b n = Inr n'" "check n'"
  shows "check n"
  using assms check_consistent add_carries [OF assms(1,2)]
  by (auto simp: consistent_def)

text \<open>The negated distance of a time point is a lower bound in every schedule.\<close>

lemma distance_lower_bound:
  assumes "carries n C" "check n" "v \<in> cnodes C" "schedules \<sigma> C" "\<And>u. 0 \<le> \<sigma> u"
  shows "\<exists>d. distance n v = Some d \<and> - d \<le> \<sigma> v"
proof -
  from distance_earliest [OF assms(1,2)] obtain \<tau> where
    "earliest \<tau> C" "\<forall>v \<in> cnodes C. distance n v = Some (- \<tau> v)" by blast
  with assms show ?thesis by (auto simp: earliest_def)
qed

end


section \<open>DeltaSTN\<close>

record 't stn =
  stn_constraints :: "('t, ('t \<times> rat) list) dict"
  stn_distances :: "('t, rat) dict"
  stn_is_sat :: bool
  stn_tolerance :: rat

definition stn_new :: "rat \<Rightarrow> 't stn" where
  "stn_new tol =
     \<lparr>stn_constraints = [], stn_distances = [], stn_is_sat = True, stn_tolerance = tol\<rparr>"

definition stn_touch :: "'t \<Rightarrow> 't stn \<Rightarrow> 't stn" where
  "stn_touch x n = (case dict_get (stn_distances n) x of
     Some _ \<Rightarrow> n
   | None \<Rightarrow> n\<lparr>stn_distances := dict_set x 0 (stn_distances n),
              stn_constraints := dict_set x [] (stn_constraints n)\<rparr>)"

text \<open>Only the first neighbour with the right target is looked at: the newest edge.\<close>

fun is_subsumed :: "rat \<Rightarrow> ('t \<times> rat) list \<Rightarrow> 't \<Rightarrow> rat \<Rightarrow> bool" where
  "is_subsumed tol [] y b = False"
| "is_subsumed tol ((v, w) # ns) y b =
     (if v = y then w \<le> b + tol else is_subsumed tol ns y b)"

definition equals_with_tolerance :: "rat \<Rightarrow> rat \<Rightarrow> rat \<Rightarrow> bool" where
  "equals_with_tolerance tol b1 b2 \<longleftrightarrow> b1 - b2 \<le> tol \<and> b1 - b2 \<ge> - tol"

text \<open>
  The inner loop of \<open>inc_check\<close>, over the neighbours of \<open>c\<close>; the Boolean is false when
  it leaves with a cycle.  (An absent key, on which Rust panics, is \<open>KeyErr\<close>.)
\<close>

fun relax :: "rat \<Rightarrow> 't \<Rightarrow> rat \<Rightarrow> 't \<Rightarrow> ('t \<times> rat) list \<Rightarrow> ('t, rat) dict \<Rightarrow> 't list \<Rightarrow>
    (bool \<times> ('t, rat) dict \<times> 't list) res" where
  "relax tol y b c [] d q = Inr (True, d, q)"
| "relax tol y b c ((v, w) # ns) d q =
     rbind (dict_lookup d c) (\<lambda>dc. rbind (dict_lookup d v) (\<lambda>dv.
       let val = dc + w in
       if val < dv - tol then
         (if v = y \<and> equals_with_tolerance tol w b then Inr (False, d, q)
          else relax tol y b c ns (dict_set v val d) (q @ [v]))
       else relax tol y b c ns d q))"

definition inc_check_step ::
    "rat \<Rightarrow> ('t, ('t \<times> rat) list) dict \<Rightarrow> 't \<Rightarrow> rat \<Rightarrow> ('t, rat) dict \<times> 't list \<Rightarrow>
     (bool \<times> ('t, rat) dict) res + ('t, rat) dict \<times> 't list" where
  "inc_check_step tol cs y b s = (case s of (d, q) \<Rightarrow> (case q of
     [] \<Rightarrow> Inl (Inr (True, d))
   | c # q' \<Rightarrow>
       (case rbind (dict_lookup cs c) (\<lambda>ns. relax tol y b c ns d q') of
          Inl e \<Rightarrow> Inl (Inl e)
        | Inr (ok, d', q'') \<Rightarrow> if ok then Inr (d', q'') else Inl (Inr (False, d')))))"

definition inc_check :: "'t stn \<Rightarrow> 't \<Rightarrow> 't \<Rightarrow> rat \<Rightarrow> (bool \<times> ('t, rat) dict) res" where
  "inc_check n x y b =
     (let d = stn_distances n; tol = stn_tolerance n in
      rbind (dict_lookup d x) (\<lambda>dx. rbind (dict_lookup d y) (\<lambda>dy.
        if dx + b < dy - tol
        then run_loop (inc_check_step tol (stn_constraints n) y b) (dict_set y (dx + b) d, [y])
        else Inr (True, d))))"

definition stn_add :: "'t \<Rightarrow> 't \<Rightarrow> rat \<Rightarrow> 't stn \<Rightarrow> 't stn res" where
  "stn_add x y b n =
     (if stn_is_sat n then
        (let n1 = stn_touch y (stn_touch x n) in
         rbind (dict_lookup (stn_constraints n1) x) (\<lambda>old.
           let n2 = (if is_subsumed (stn_tolerance n1) old y b then n1
                     else n1\<lparr>stn_constraints := dict_set x ((y, b) # old) (stn_constraints n1)\<rparr>)
           in rbind (inc_check n2 x y b) (\<lambda>(ok, d).
                Inr (n2\<lparr>stn_distances := d, stn_is_sat := ok\<rparr>))))
      else Inr n)"

definition stn_check :: "'t stn \<Rightarrow> bool" where
  "stn_check n = stn_is_sat n"

definition stn_get_model_value :: "'t stn \<Rightarrow> 't \<Rightarrow> rat option" where
  "stn_get_model_value n x = map_option (\<lambda>v. v * - 1) (dict_get (stn_distances n) x)"

text \<open>An interval constraint \<open>l \<le> t y - t x \<le> u\<close>, as the search space adds it.\<close>

definition stn_add_interval :: "'t \<Rightarrow> 't \<Rightarrow> rat \<Rightarrow> rat \<Rightarrow> 't stn \<Rightarrow> 't stn res" where
  "stn_add_interval x y l u n = rbind (stn_add x y (- l) n) (stn_add y x u)"


section \<open>One propagation\<close>

definition stn_dist :: "('t, rat) dict \<Rightarrow> 't \<Rightarrow> rat" where
  "stn_dist d v = (case dict_get d v of None \<Rightarrow> 0 | Some r \<Rightarrow> r)"

lemma stn_dist_set [simp]: "stn_dist (dict_set v r d) = (stn_dist d)(v := r)"
  by (auto simp: stn_dist_def dict_get_set)

lemma dict_lookup_stn_dist: "v \<in> dom (dict_get d) \<Longrightarrow> dict_lookup d v = Inr (stn_dist d v)"
  by (auto simp: stn_dist_def dict_lookup_def)

lemma dom_dict_set [simp]: "dom (dict_get (dict_set v r d)) = insert v (dom (dict_get d))"
  by (auto simp: dict_get_set split: if_splits)

text \<open>
  The setting of one propagation: a potential \<open>D0\<close> of the old edges \<open>E\<close>, a new edge
  \<open>(x, y, b)\<close> that \<open>D0\<close> violates, and a common denominator \<open>N\<close>.
\<close>

definition grid :: "rat \<Rightarrow> rat \<Rightarrow> bool" where
  "grid N r \<longleftrightarrow> r * N \<in> \<int>"

lemma grid_add: "grid N a \<Longrightarrow> grid N b \<Longrightarrow> grid N (a + b)"
  by (simp add: grid_def ring_distribs)

lemma grid_diff: "grid N a \<Longrightarrow> grid N b \<Longrightarrow> grid N (a - b)"
  by (simp add: grid_def ring_distribs)

definition setting :: "'t set \<Rightarrow> 't constraint set \<Rightarrow> 't \<Rightarrow> 't \<Rightarrow> rat \<Rightarrow> ('t \<Rightarrow> rat) \<Rightarrow> rat \<Rightarrow> bool" where
  "setting V E x y b D0 N \<longleftrightarrow>
     finite V \<and> cnodes E \<subseteq> V \<and> x \<in> V \<and> y \<in> V \<and>
     (\<forall>(u, v, w) \<in> E. D0 v \<le> D0 u + w) \<and> D0 x + b < D0 y \<and>
     0 < N \<and> (\<forall>v. grid N (D0 v)) \<and> grid N b \<and> (\<forall>(u, v, w) \<in> E. grid N w)"

definition gap :: "'t \<Rightarrow> 't \<Rightarrow> rat \<Rightarrow> ('t \<Rightarrow> rat) \<Rightarrow> rat" where
  "gap x y b D0 = D0 y - (D0 x + b)"

text \<open>
  The invariant of the propagation with distances \<open>D\<close>: \<open>Q\<close> are the queued nodes and
  the one being expanded, \<open>pend\<close> the edges still to be looked at.
\<close>

definition bounded_inv :: "'t \<Rightarrow> 't \<Rightarrow> rat \<Rightarrow> ('t \<Rightarrow> rat) \<Rightarrow> rat \<Rightarrow> ('t \<Rightarrow> rat) \<Rightarrow> bool" where
  "bounded_inv x y b D0 N D \<longleftrightarrow>
     D y = D0 x + b \<and> (\<forall>v. D0 v - gap x y b D0 \<le> D v) \<and> (\<forall>v. D v \<le> D0 v) \<and> (\<forall>v. grid N (D v))"

definition relaxed_inv :: "'t constraint set \<Rightarrow> ('t \<Rightarrow> rat) \<Rightarrow> 't set \<Rightarrow> 't constraint set \<Rightarrow> bool" where
  "relaxed_inv E D q pend \<longleftrightarrow>
     (\<forall>(u, v, w) \<in> E. u \<in> q \<or> (u, v, w) \<in> pend \<or> D v \<le> D u + w)"

definition walk_inv :: "'t constraint set \<Rightarrow> 't \<Rightarrow> ('t \<Rightarrow> rat) \<Rightarrow> 't set \<Rightarrow> bool" where
  "walk_inv E y D Q \<longleftrightarrow>
     (\<forall>\<sigma>. schedules \<sigma> E \<longrightarrow> (\<forall>v \<in> Q. D y + \<sigma> y - \<sigma> v \<le> D v) \<and>
        ((\<forall>v. 0 \<le> \<sigma> v) \<longrightarrow> (\<forall>v. - \<sigma> v \<le> D v)))"

definition energy :: "'t set \<Rightarrow> 't \<Rightarrow> 't \<Rightarrow> rat \<Rightarrow> ('t \<Rightarrow> rat) \<Rightarrow> rat \<Rightarrow> ('t \<Rightarrow> rat) \<Rightarrow> nat" where
  "energy V x y b D0 N D = (\<Sum>v \<in> V. nat \<lfloor>(D v - (D0 v - gap x y b D0)) * N\<rfloor>)"

lemma energy_drop:
  assumes "setting V E x y b D0 N" "bounded_inv x y b D0 N D" "v \<in> V" "r < D v"
    "grid N r" "D0 v - gap x y b D0 \<le> r"
  shows "Suc (energy V x y b D0 N (D(v := r))) \<le> energy V x y b D0 N D"
proof -
  let ?L = "\<lambda>u. D0 u - gap x y b D0"
  let ?f = "\<lambda>D u. nat \<lfloor>(D u - ?L u) * N\<rfloor>"
  have fin: "finite V" and N: "0 < N" and L: "grid N (?L v)"
    using assms(1) by (auto simp: setting_def gap_def intro!: grid_diff grid_add)
  have gr: "grid N (r - ?L v)" "grid N (D v - ?L v)"
    using assms(2,5) L by (auto simp: bounded_inv_def intro!: grid_diff)
  then obtain i j where ij: "(r - ?L v) * N = of_int i" "(D v - ?L v) * N = of_int j"
    by (auto simp: grid_def elim!: Ints_cases)
  have "(r - ?L v) * N < (D v - ?L v) * N"
    using assms(4) N by (simp add: mult_less_cancel_right)
  moreover have "0 \<le> (r - ?L v) * N"
    using assms(6) N by simp
  ultimately have "0 \<le> i" "i < j" unfolding ij by simp_all
  then have "Suc (?f (D(v := r)) v) \<le> ?f D v" using ij by simp
  moreover have "(\<Sum>u \<in> V - {v}. ?f (D(v := r)) u) = (\<Sum>u \<in> V - {v}. ?f D u)"
    by (rule sum.cong) auto
  ultimately show ?thesis
    unfolding energy_def using fin assms(3) by (simp add: sum.remove [of V v])
qed


text \<open>What one pass over the neighbours of a node establishes.\<close>

definition relax_post ::
    "'t set \<Rightarrow> 't constraint set \<Rightarrow> 't \<Rightarrow> 't \<Rightarrow> rat \<Rightarrow> ('t \<Rightarrow> rat) \<Rightarrow> rat \<Rightarrow> 't \<Rightarrow>
     ('t, rat) dict \<Rightarrow> 't list \<Rightarrow> bool \<Rightarrow> ('t, rat) dict \<Rightarrow> 't list \<Rightarrow> bool" where
  "relax_post V E x y b D0 N c d q ok d' q' \<longleftrightarrow>
     dom (dict_get d') = V \<and> set q' \<subseteq> V \<and> bounded_inv x y b D0 N (stn_dist d') \<and>
     energy V x y b D0 N (stn_dist d') + length q' \<le> energy V x y b D0 N (stn_dist d) + length q \<and>
     walk_inv (insert (x, y, b) E) y (stn_dist d') (insert c (set q')) \<and>
     (ok \<longrightarrow> relaxed_inv (insert (x, y, b) E) (stn_dist d') (set q') {}) \<and>
     (\<not> ok \<longrightarrow> \<not> consistent (insert (x, y, b) E))"

lemma relax_post_mono:
  assumes "relax_post V E x y b D0 N c d1 q1 ok d' q'"
    and "energy V x y b D0 N (stn_dist d1) + length q1 \<le> energy V x y b D0 N (stn_dist d) + length q"
  shows "relax_post V E x y b D0 N c d q ok d' q'"
  using assms by (auto simp: relax_post_def)

lemma old_edge_lower:
  assumes "setting V E x y b D0 N" "bounded_inv x y b D0 N D" "(c, v, w) \<in> E"
  shows "D0 v - gap x y b D0 \<le> D c + w"
proof -
  have "D0 v \<le> D0 c + w" using assms(1,3) by (auto simp: setting_def)
  moreover have "D0 c - gap x y b D0 \<le> D c" using assms(2) by (auto simp: bounded_inv_def)
  ultimately show ?thesis by linarith
qed

lemma target_not_improved:
  assumes "setting V E x y b D0 N" "bounded_inv x y b D0 N D" "(c, y, w) \<in> E"
  shows "D y \<le> D c + w"
  using old_edge_lower [OF assms] assms(2) by (simp add: bounded_inv_def gap_def)

lemma walk_inv_cycle:
  assumes "walk_inv E y D Q" "c \<in> Q" "(c, y, w) \<in> E" "D c + w < D y"
  shows "\<not> consistent E"
proof
  assume "consistent E"
  then obtain \<sigma> where \<sigma>: "schedules \<sigma> E" by (auto simp: consistent_def)
  with assms(1,2) have "D y + \<sigma> y - \<sigma> c \<le> D c" by (auto simp: walk_inv_def)
  moreover have "\<sigma> c - \<sigma> y \<le> w" using \<sigma> assms(3) by (rule schedules_memD)
  ultimately show False using assms(4) by linarith
qed

lemma walk_inv_update:
  assumes "walk_inv E y D Q" "c \<in> Q" "(c, v, w) \<in> E" "v \<noteq> y"
  shows "walk_inv E y (D(v := D c + w)) (insert v Q)"
  unfolding walk_inv_def
proof (intro allI impI conjI ballI)
  fix \<sigma> u
  assume \<sigma>: "schedules \<sigma> E" and u: "u \<in> insert v Q"
  have w: "\<sigma> c - \<sigma> v \<le> w" using \<sigma> assms(3) by (rule schedules_memD)
  have "\<forall>u \<in> Q. D y + \<sigma> y - \<sigma> u \<le> D u" using assms(1) \<sigma> by (auto simp: walk_inv_def)
  then have "u \<in> Q \<longrightarrow> D y + \<sigma> y - \<sigma> u \<le> D u" and "D y + \<sigma> y - \<sigma> c \<le> D c"
    using assms(2) by auto
  with u w assms(4) show "(D(v := D c + w)) y + \<sigma> y - \<sigma> u \<le> (D(v := D c + w)) u"
    by auto
next
  fix \<sigma> u
  assume \<sigma>: "schedules \<sigma> E" and pos: "\<forall>v. 0 \<le> \<sigma> v"
  have w: "\<sigma> c - \<sigma> v \<le> w" using \<sigma> assms(3) by (rule schedules_memD)
  have "\<forall>u. - \<sigma> u \<le> D u" using assms(1) \<sigma> pos by (auto simp: walk_inv_def)
  with w show "- \<sigma> u \<le> (D(v := D c + w)) u" by (auto dest!: spec [where x = c])
qed

lemma relaxed_inv_update:
  assumes "relaxed_inv E D q pend" "r \<le> D v"
  shows "relaxed_inv E (D(v := r)) (insert v q) pend"
proof -
  have "u \<in> insert v q \<or> (u, u', w) \<in> pend \<or> (D(v := r)) u' \<le> (D(v := r)) u + w"
    if "(u, u', w) \<in> E" for u u' w
    using assms that by (auto simp: relaxed_inv_def dest!: bspec [OF _ that])
  then show ?thesis by (auto simp: relaxed_inv_def)
qed

lemma relax_propagates:
  assumes S: "setting V E x y b D0 N"
    and "bounded_inv x y b D0 N (stn_dist d)" "dom (dict_get d) = V" "c \<in> V" "set q \<subseteq> V"
    and "\<And>v w. (v, w) \<in> set ns \<Longrightarrow> (c, v, w) \<in> insert (x, y, b) E"
    and "relaxed_inv (insert (x, y, b) E) (stn_dist d) (set q) {(c, v, w) | v w. (v, w) \<in> set ns}"
    and "walk_inv (insert (x, y, b) E) y (stn_dist d) (insert c (set q))"
  shows "\<exists>ok d' q'. relax 0 y b c ns d q = Inr (ok, d', q') \<and>
    relax_post V E x y b D0 N c d q ok d' q'"
  using assms(2-)
proof (induction ns arbitrary: d q)
  case Nil
  then show ?case by (auto simp: relax_post_def intro!: exI [of _ True])
next
  case (Cons e ns)
  obtain v w where e: "e = (v, w)" by fastforce
  let ?E = "insert (x, y, b) E" and ?D = "stn_dist d"
  have edge: "(c, v, w) \<in> ?E" using Cons.prems(5) e by simp
  have vV: "v \<in> V" using edge S by (auto simp: setting_def dest: cnodes_mem)
  have grid_val: "grid N (?D c + w)"
    using edge S Cons.prems(1) by (auto simp: setting_def bounded_inv_def intro!: grid_add)
  have look: "dict_lookup d c = Inr (?D c)" "dict_lookup d v = Inr (?D v)"
    by (rule dict_lookup_stn_dist, use vV Cons.prems(2,3) in simp)+
  show ?case
  proof (cases "?D c + w < ?D v")
    case False
    have "relaxed_inv ?E ?D (set q) {(c, v, w) | v w. (v, w) \<in> set ns}"
      using Cons.prems(6) False e by (force simp: relaxed_inv_def)
    with Cons.IH [OF Cons.prems(1-4) _ this Cons.prems(7)] Cons.prems(5) False e
    show ?thesis by (simp add: look)
  next
    case True
    show ?thesis
    proof (cases "v = y")
      case v: True
      have "(c, v, w) \<notin> E"
        using target_not_improved [OF S Cons.prems(1)] True v by force
      then have "w = b" using edge by simp
      moreover have "\<not> consistent ?E"
        using walk_inv_cycle [OF Cons.prems(7) _ _ True [unfolded v]] edge v by simp
      moreover have "relax 0 y b c (e # ns) d q = Inr (False, d, q)"
        using True look unfolding e v \<open>w = b\<close> by (simp only: relax.simps rbind_simps)
          (simp add: equals_with_tolerance_def)
      ultimately show ?thesis
        using Cons.prems(1-4,7) by (auto simp: relax_post_def intro!: exI [of _ False])
    next
      case v: False
      let ?d = "dict_set v (?D c + w) d" and ?q = "q @ [v]"
      have old: "(c, v, w) \<in> E" using edge v by simp
      note low = old_edge_lower [OF S Cons.prems(1) old]
      have b': "bounded_inv x y b D0 N (stn_dist ?d)"
      proof -
        have "?D c + w \<le> D0 v"
          using Cons.prems(1) True by (auto simp: bounded_inv_def intro: less_imp_le less_le_trans)
        then show ?thesis using Cons.prems(1) v low grid_val by (auto simp: bounded_inv_def)
      qed
      have r': "relaxed_inv ?E (stn_dist ?d) (set ?q) {(c, v, w) | v w. (v, w) \<in> set ns}"
      proof -
        have "relaxed_inv ?E (stn_dist ?d) (set ?q) {(c, v, w) | v w. (v, w) \<in> set (e # ns)}"
          using relaxed_inv_update [OF Cons.prems(6), of "?D c + w" v] True by simp
        with e v show ?thesis by (force simp: relaxed_inv_def)
      qed
      have w': "walk_inv ?E y (stn_dist ?d) (insert c (set ?q))"
        using walk_inv_update [OF Cons.prems(7) _ edge v] by (simp add: insert_commute)
      have en: "Suc (energy V x y b D0 N (stn_dist ?d)) \<le> energy V x y b D0 N ?D"
        using energy_drop [OF S Cons.prems(1) vV True grid_val low] by simp
      have "\<exists>ok d' q'. relax 0 y b c ns ?d ?q = Inr (ok, d', q') \<and>
          relax_post V E x y b D0 N c ?d ?q ok d' q'"
        by (rule Cons.IH [OF b' _ _ _ _ r' w']) (use Cons.prems vV in auto)
      then obtain ok d' q' where
        r: "relax 0 y b c ns ?d ?q = Inr (ok, d', q')"
        and post: "relax_post V E x y b D0 N c ?d ?q ok d' q'" by blast
      have "relax 0 y b c (e # ns) d q = relax 0 y b c ns ?d ?q"
        using True v look unfolding e by (simp only: relax.simps rbind_simps) simp
      with r relax_post_mono [OF post] en show ?thesis by (simp only: r) simp
    qed
  qed
qed



section \<open>The propagation loop\<close>

definition stn_edges :: "('t, ('t \<times> rat) list) dict \<Rightarrow> 't constraint set" where
  "stn_edges cs = {(u, v, w). \<exists>ns. dict_get cs u = Some ns \<and> (v, w) \<in> set ns}"

lemma walk_inv_subset: "walk_inv E y D Q \<Longrightarrow> R \<subseteq> Q \<Longrightarrow> walk_inv E y D R"
  unfolding walk_inv_def by blast

lemma relaxed_inv_expand:
  assumes "relaxed_inv (stn_edges cs) D (insert c q) {}" "dict_get cs c = Some ns"
  shows "relaxed_inv (stn_edges cs) D q {(c, v, w) | v w. (v, w) \<in> set ns}"
  using assms by (fastforce simp: relaxed_inv_def stn_edges_def)

lemma inc_check_loop:
  fixes d0 :: "('t, rat) dict"
  assumes S: "setting V E x y b (stn_dist d0) N"
    and dom: "dom (dict_get d0) = V" "dom (dict_get cs) = V"
    and E: "stn_edges cs = insert (x, y, b) E"
    and low: "\<And>\<sigma>. schedules \<sigma> E \<Longrightarrow> \<forall>v. 0 \<le> \<sigma> v \<Longrightarrow> \<forall>v. - \<sigma> v \<le> stn_dist d0 v"
  shows "\<exists>ok d. run_loop (inc_check_step 0 cs y b) (dict_set y (stn_dist d0 x + b) d0, [y])
        = Inr (ok, d) \<and> dom (dict_get d) = V \<and>
      (\<forall>v. stn_dist d v \<le> stn_dist d0 v) \<and>
      (ok \<longrightarrow> relaxed_inv (stn_edges cs) (stn_dist d) {} {} \<and>
        (\<forall>\<sigma>. schedules \<sigma> (stn_edges cs) \<longrightarrow> (\<forall>v. 0 \<le> \<sigma> v) \<longrightarrow> (\<forall>v. - \<sigma> v \<le> stn_dist d v))) \<and>
      (\<not> ok \<longrightarrow> \<not> consistent (stn_edges cs))"
proof -
  let ?D0 = "stn_dist d0"
  define I where "I = (\<lambda>(d, q). dom (dict_get d) = V \<and> set q \<subseteq> V \<and>
    bounded_inv x y b ?D0 N (stn_dist d) \<and> relaxed_inv (stn_edges cs) (stn_dist d) (set q) {} \<and>
    walk_inv (stn_edges cs) y (stn_dist d) (set q))"
  let ?m = "\<lambda>(d, q). energy V x y b ?D0 N (stn_dist d) + length q"
  let ?s0 = "(dict_set y (?D0 x + b) d0, [y])"
  have init: "I ?s0"
  proof -
    have "bounded_inv x y b ?D0 N (?D0(y := ?D0 x + b))"
      using S by (auto simp: setting_def bounded_inv_def gap_def intro: grid_add)
    moreover have "u = y \<or> (?D0(y := ?D0 x + b)) v \<le> (?D0(y := ?D0 x + b)) u + w"
      if "(u, v, w) \<in> stn_edges cs" for u v w
    proof -
      from S that have "?D0 x + b < ?D0 y" "(u, v, w) = (x, y, b) \<or> ?D0 v \<le> ?D0 u + w"
        by (auto simp: setting_def E)
      then show ?thesis by auto
    qed
    then have "relaxed_inv (stn_edges cs) (?D0(y := ?D0 x + b)) {y} {}"
      by (auto simp: relaxed_inv_def)
    moreover have "- \<sigma> y \<le> ?D0 x + b" if "schedules \<sigma> (stn_edges cs)" "\<forall>v. 0 \<le> \<sigma> v" for \<sigma>
    proof -
      have "- \<sigma> x \<le> ?D0 x" "\<sigma> x - \<sigma> y \<le> b" using that low by (auto simp: E)
      then show ?thesis by linarith
    qed
    then have "walk_inv (stn_edges cs) y (?D0(y := ?D0 x + b)) {y}"
      using low by (auto simp: walk_inv_def E)
    ultimately show ?thesis using S dom by (auto simp: I_def setting_def)
  qed
  have step: "\<exists>ok d' q'. relax 0 y b c ns d q = Inr (ok, d', q') \<and>
      relax_post V E x y b ?D0 N c d q ok d' q'"
    if "I (d, c # q)" "dict_get cs c = Some ns" for d c q ns
  proof -
    note I = that(1) and ns = that(2)
    show ?thesis
    proof (rule relax_propagates [OF S])
      show "bounded_inv x y b ?D0 N (stn_dist d)" "dom (dict_get d) = V" "c \<in> V" "set q \<subseteq> V"
        using I by (auto simp: I_def)
      show "walk_inv (insert (x, y, b) E) y (stn_dist d) (insert c (set q))"
        using I by (simp add: I_def E)
      show "relaxed_inv (insert (x, y, b) E) (stn_dist d) (set q) {(c, v, w) |v w. (v, w) \<in> set ns}"
        using relaxed_inv_expand [of cs "stn_dist d" c "set q" ns] I ns by (simp add: I_def E)
      show "(c, v, w) \<in> insert (x, y, b) E" if "(v, w) \<in> set ns" for v w
        using that ns unfolding E [symmetric] by (auto simp: stn_edges_def)
    qed
  qed
  have look: "\<exists>ns. dict_get cs c = Some ns" if "I (d, c # q)" for d c q
    using that dom by (auto simp: I_def)
  have next': "I s' \<and> ?m s' < ?m s" if "I s" "inc_check_step 0 cs y b s = Inr s'" for s s'
  proof -
    note stp = that(2)
    obtain d c q where s: "s = (d, c # q)"
      using stp by (cases s; cases "snd s") (auto simp: inc_check_step_def)
    with that(1) obtain ns ok d' q' where
      ns: "dict_get cs c = Some ns" and r: "relax 0 y b c ns d q = Inr (ok, d', q')"
      and post: "relax_post V E x y b ?D0 N c d q ok d' q'"
      using look step by blast
    have "dict_lookup cs c = Inr ns" using ns by (simp only: dict_lookup_Inr)
    with that(2) s r have s': "ok" "s' = (d', q')"
      by (auto simp: inc_check_step_def split: if_splits)
    with post s show ?thesis
      by (auto simp: I_def relax_post_def E intro: walk_inv_subset)
  qed
  have noerr: "\<exists>ok d'. r0 = Inr (ok, d') \<and> dom (dict_get d') = V \<and> bounded_inv x y b ?D0 N (stn_dist d') \<and>
      (ok \<longrightarrow> relaxed_inv (stn_edges cs) (stn_dist d') {} {} \<and> walk_inv (stn_edges cs) y (stn_dist d') {}) \<and>
      (\<not> ok \<longrightarrow> \<not> consistent (stn_edges cs))"
    if "I s" "inc_check_step 0 cs y b s = Inl r0" for s r0
  proof (cases "snd s")
    case Nil
    with that show ?thesis
      by (cases s) (auto simp: inc_check_step_def I_def)
  next
    case (Cons c q)
    then obtain d where s: "s = (d, c # q)" by (cases s) auto
    with that(1) obtain ns ok d' q' where
      ns: "dict_get cs c = Some ns" and r: "relax 0 y b c ns d q = Inr (ok, d', q')"
      and post: "relax_post V E x y b ?D0 N c d q ok d' q'"
      using look step by blast
    have "dict_lookup cs c = Inr ns" using ns by (simp only: dict_lookup_Inr)
    with that(2) s r have "\<not> ok" "r0 = Inr (False, d')"
      by (auto simp: inc_check_step_def split: if_splits)
    with post show ?thesis by (auto simp: relax_post_def E)
  qed
  have "run_loop (inc_check_step 0 cs y b) ?s0 \<noteq> Inl NoReturn"
    by (rule run_loop_returns [where I = I and m = ?m, OF init next']) (use noerr in blast)+
  then obtain s where "I s" "inc_check_step 0 cs y b s = Inl (run_loop (inc_check_step 0 cs y b) ?s0)"
    by (rule run_loop_invariant [where I = I, OF refl _ init]) (use next' in blast)+
  from noerr [OF this] show ?thesis
    by (auto simp: bounded_inv_def walk_inv_def)
qed



section \<open>Adding a constraint\<close>

text \<open>Finitely many rationals lie on a common grid.\<close>

lemma common_grid: "finite R \<Longrightarrow> \<exists>n :: int. 0 < n \<and> (\<forall>r \<in> R. grid (of_int n) r)"
proof (induction R rule: finite_induct)
  case empty
  show ?case by (rule exI [of _ 1]) simp
next
  case (insert r R)
  then obtain n :: int where n: "0 < n" "\<forall>r \<in> R. r * of_int n \<in> \<int>" by (auto simp: grid_def)
  obtain p q where pq: "quotient_of r = (p, q)" by fastforce
  have q: "0 < q" using quotient_of_denom_pos [OF pq] .
  then have "r * of_int q = of_int p" using quotient_of_div [OF pq] by simp
  then have "r * of_int (q * n) = of_int (p * n)" by (simp flip: mult.assoc)
  have "s * of_int (q * n) \<in> \<int>" if "s \<in> R" for s
  proof -
    have "s * of_int (q * n) = (s * of_int n) * of_int q" by simp
    then show ?thesis using n(2) that by (metis Ints_mult Ints_of_int)
  qed
  moreover have "r * of_int (q * n) \<in> \<int>"
    unfolding \<open>r * of_int (q * n) = of_int (p * n)\<close> by (rule Ints_of_int)
  moreover have "0 < q * n" using n(1) q by simp
  ultimately show ?case unfolding grid_def by blast
qed

text \<open>
  What the fields of a consistent network say of the constraints \<open>C\<close> added to it: every
  stored edge was added, every added constraint is implied by a stored edge, and
  \<open>distances\<close> is a potential no schedule undercuts.
\<close>

definition stn_inv :: "'t stn \<Rightarrow> 't set \<Rightarrow> 't constraint set \<Rightarrow> bool" where
  "stn_inv n V C \<longleftrightarrow>
     dom (dict_get (stn_distances n)) = V \<and> dom (dict_get (stn_constraints n)) = V \<and>
     stn_edges (stn_constraints n) \<subseteq> C \<and> cnodes C \<subseteq> V \<and>
     finite (stn_edges (stn_constraints n)) \<and>
     (\<forall>x y b. (x, y, b) \<in> C \<longrightarrow> (\<exists>w \<le> b. (x, y, w) \<in> stn_edges (stn_constraints n))) \<and>
     (\<forall>u v w. (u, v, w) \<in> stn_edges (stn_constraints n) \<longrightarrow>
        stn_dist (stn_distances n) v \<le> stn_dist (stn_distances n) u + w) \<and>
     (\<forall>v. stn_dist (stn_distances n) v \<le> 0) \<and>
     (\<forall>\<sigma>. schedules \<sigma> C \<longrightarrow> (\<forall>v. 0 \<le> \<sigma> v) \<longrightarrow> (\<forall>v. - \<sigma> v \<le> stn_dist (stn_distances n) v))"

definition stn_meets :: "'t stn \<Rightarrow> 't constraint set \<Rightarrow> bool" where
  "stn_meets n C \<longleftrightarrow> stn_tolerance n = 0 \<and>
     (if stn_is_sat n then stn_inv n (cnodes C) C else \<not> consistent C)"

lemma stn_inv_cover:
  "stn_inv n V C \<Longrightarrow> (x, y, b) \<in> C \<Longrightarrow> \<exists>w \<le> b. (x, y, w) \<in> stn_edges (stn_constraints n)"
  by (simp add: stn_inv_def)

lemma stn_inv_potential:
  "stn_inv n V C \<Longrightarrow> (u, v, w) \<in> stn_edges (stn_constraints n) \<Longrightarrow>
     stn_dist (stn_distances n) v \<le> stn_dist (stn_distances n) u + w"
  by (simp add: stn_inv_def)

lemma stn_inv_nodes: "stn_inv n V C \<Longrightarrow> cnodes (stn_edges (stn_constraints n)) \<subseteq> V"
  using cnodes_mono [of "stn_edges (stn_constraints n)" C] by (auto simp: stn_inv_def)

lemma stn_edges_add:
  "dict_get cs x = Some ns \<Longrightarrow> stn_edges (dict_set x ((y, b) # ns) cs) = insert (x, y, b) (stn_edges cs)"
  by (force simp: stn_edges_def dict_get_set split: if_splits)

lemma stn_edges_Nil [simp]: "stn_edges [] = {}"
  by (auto simp: stn_edges_def)

lemma stn_edges_touch:
  "dict_get cs x = None \<Longrightarrow> stn_edges (dict_set x [] cs) = stn_edges cs"
  by (force simp: stn_edges_def dict_get_set split: if_splits)

lemma stn_dist_touch: "dict_get d x = None \<Longrightarrow> stn_dist (dict_set x 0 d) = stn_dist d"
  by (auto simp: stn_dist_def)

lemma stn_touch_inv:
  assumes "stn_inv n V C"
  shows "stn_inv (stn_touch x n) (insert x V) C"
proof (cases "dict_get (stn_distances n) x")
  case None
  moreover from this assms have "dict_get (stn_constraints n) x = None"
    by (auto simp: stn_inv_def)
  ultimately show ?thesis
    using assms by (auto simp: stn_inv_def stn_touch_def stn_edges_touch stn_dist_touch
        simp del: stn_dist_set)
next
  case (Some r)
  then have "insert x V = V" using assms by (auto simp: stn_inv_def)
  with Some assms show ?thesis by (simp add: stn_touch_def)
qed

lemma stn_touch_fields [simp]:
  "stn_is_sat (stn_touch x n) = stn_is_sat n"
  "stn_tolerance (stn_touch x n) = stn_tolerance n"
  by (auto simp: stn_touch_def split: option.split)

lemma is_subsumed_edge: "is_subsumed tol ns y b \<Longrightarrow> \<exists>w. (y, w) \<in> set ns \<and> w \<le> b + tol"
  by (induction tol ns y b rule: is_subsumed.induct) (auto split: if_splits)

lemma schedules_edges:
  assumes "stn_inv n V C"
  shows "schedules \<sigma> (stn_edges (stn_constraints n)) \<longleftrightarrow> schedules \<sigma> C"
proof
  assume *: "schedules \<sigma> (stn_edges (stn_constraints n))"
  have "\<sigma> x - \<sigma> y \<le> b" if "(x, y, b) \<in> C" for x y b
  proof -
    from stn_inv_cover [OF assms that]
    obtain w where "w \<le> b" "(x, y, w) \<in> stn_edges (stn_constraints n)" by blast
    with schedules_memD [OF *, of x y w] show ?thesis by linarith
  qed
  then show "schedules \<sigma> C" by (auto simp: schedules_def)
next
  have "stn_edges (stn_constraints n) \<subseteq> C" using assms by (simp add: stn_inv_def)
  moreover assume "schedules \<sigma> C"
  ultimately show "schedules \<sigma> (stn_edges (stn_constraints n))"
    by (metis schedules_mono)
qed

lemma stn_inv_earliest:
  assumes "stn_inv n V C"
  shows "earliest (\<lambda>v. - stn_dist (stn_distances n) v) C"
proof -
  let ?D = "stn_dist (stn_distances n)"
  have "schedules (\<lambda>v. - ?D v) (stn_edges (stn_constraints n))"
    using stn_inv_potential [OF assms] by (auto simp: schedules_def algebra_simps)
  then have "schedules (\<lambda>v. - ?D v) C" using schedules_edges [OF assms] by blast
  with assms show ?thesis
    by (auto simp: earliest_def stn_inv_def minus_le_iff)
qed

text \<open>
  One call of \<open>inc_check\<close> on a network whose newest edge is \<open>(x, y, b)\<close>: it returns, and
  either restores the invariant or has found a negative cycle.
\<close>

lemma inc_check_correct:
  assumes inv: "stn_inv n V C" and xy: "x \<in> V" "y \<in> V" and tol: "stn_tolerance n = 0"
    and cs: "dom (dict_get cs) = V"
      "stn_edges cs = insert (x, y, b) (stn_edges (stn_constraints n))"
  shows "\<exists>ok d. inc_check (n\<lparr>stn_constraints := cs\<rparr>) x y b = Inr (ok, d) \<and>
    (if ok then stn_inv (n\<lparr>stn_constraints := cs, stn_distances := d, stn_is_sat := ok\<rparr>) V
        (insert (x, y, b) C)
     else \<not> consistent (insert (x, y, b) C))"
proof -
  let ?d = "stn_distances n" and ?E = "stn_edges (stn_constraints n)" and ?C = "insert (x, y, b) C"
  let ?D = "stn_dist ?d" and ?n = "n\<lparr>stn_constraints := cs\<rparr>"
  have sched: "schedules \<sigma> (stn_edges cs) \<longleftrightarrow> schedules \<sigma> ?C" for \<sigma>
    using schedules_edges [OF inv] by (simp add: cs)
  have look: "dict_lookup ?d x = Inr (?D x)" "dict_lookup ?d y = Inr (?D y)"
    using inv xy by (auto simp only: stn_inv_def intro: dict_lookup_stn_dist)
  have cover: "\<exists>w \<le> b'. (u, v, w) \<in> stn_edges cs" if "(u, v, b') \<in> ?C" for u v b'
    using that stn_inv_cover [OF inv, of u v b'] by (auto simp: cs)
  have basic: "finite (stn_edges cs)" "stn_edges cs \<subseteq> ?C" "cnodes ?C \<subseteq> V"
    using inv xy by (auto simp: cs stn_inv_def)
  show ?thesis
  proof (cases "?D x + b < ?D y")
    case False
    then have "inc_check ?n x y b = Inr (True, ?d)"
      using tol by (simp add: inc_check_def look)
    moreover have "stn_inv (n\<lparr>stn_constraints := cs, stn_distances := ?d, stn_is_sat := True\<rparr>) V ?C"
      using inv False cs basic cover by (auto simp: stn_inv_def)
    ultimately show ?thesis by auto
  next
    case True
    have "finite V" using inv by (auto simp: stn_inv_def finite_dom_map_of)
    have "finite (insert b ((\<lambda>(u, v, w). w) ` ?E \<union> insert 0 (?D ` V)))"
      using inv \<open>finite V\<close> by (simp add: stn_inv_def)
    then obtain m :: int where m: "0 < m"
      and g: "\<forall>r \<in> insert b ((\<lambda>(u, v, w). w) ` ?E \<union> insert 0 (?D ` V)). grid (of_int m) r"
      using common_grid by blast
    have "grid (of_int m) (?D v)" for v
    proof (cases "v \<in> V")
      case False
      then have "?D v = 0" using inv by (auto simp: stn_inv_def stn_dist_def split: option.split)
      then show ?thesis using g by simp
    qed (use g in auto)
    moreover have "grid (of_int m) w" if "(u, v, w) \<in> ?E" for u v w
    proof -
      have "w \<in> (\<lambda>(u, v, w). w) ` ?E" using that by force
      then show ?thesis using g by blast
    qed
    ultimately have S: "setting V ?E x y b ?D (of_int m)"
      using xy True g m \<open>finite V\<close>
      by (auto simp: setting_def stn_inv_nodes [OF inv] stn_inv_potential [OF inv])
    have dom: "dom (dict_get ?d) = V" using inv by (simp add: stn_inv_def)
    have low: "\<forall>v. - \<sigma> v \<le> ?D v" if "schedules \<sigma> ?E" "\<forall>v. 0 \<le> \<sigma> v" for \<sigma>
      using that inv schedules_edges [OF inv] by (simp add: stn_inv_def)
    obtain ok d where run: "run_loop (inc_check_step 0 cs y b) (dict_set y (?D x + b) ?d, [y]) = Inr (ok, d)"
      and d: "dom (dict_get d) = V" "\<forall>v. stn_dist d v \<le> ?D v"
      and ok: "ok \<longrightarrow> relaxed_inv (stn_edges cs) (stn_dist d) {} {} \<and>
        (\<forall>\<sigma>. schedules \<sigma> (stn_edges cs) \<longrightarrow> (\<forall>v. 0 \<le> \<sigma> v) \<longrightarrow> (\<forall>v. - \<sigma> v \<le> stn_dist d v))"
      and bad: "\<not> ok \<longrightarrow> \<not> consistent (stn_edges cs)"
      using inc_check_loop [OF S dom cs low] by blast
    have "inc_check ?n x y b = Inr (ok, d)"
      using tol True run by (simp add: inc_check_def look)
    moreover have "stn_inv (n\<lparr>stn_constraints := cs, stn_distances := d, stn_is_sat := ok\<rparr>) V ?C" if ok
    proof -
      have "\<forall>v. stn_dist d v \<le> 0" using d(2) inv by (auto simp: stn_inv_def intro: order_trans)
      with ok that d basic cover cs(1) sched show ?thesis
        by (auto simp: stn_inv_def relaxed_inv_def simp del: schedules_insert)
    qed
    moreover have "\<not> consistent ?C" if "\<not> ok"
      using bad that sched by (auto simp: consistent_def simp del: schedules_insert)
    ultimately show ?thesis by auto
  qed
qed


lemma stn_add_meets:
  assumes "stn_meets n C"
  shows "\<exists>n'. stn_add x y b n = Inr n' \<and> stn_meets n' (insert (x, y, b) C)"
proof (cases "stn_is_sat n")
  case False
  with assms show ?thesis
    by (auto simp: stn_add_def stn_meets_def consistent_def)
next
  case True
  let ?n1 = "stn_touch y (stn_touch x n)" and ?V = "insert x (insert y (cnodes C))"
  let ?C = "insert (x, y, b) C"
  have tol: "stn_tolerance n = 0" and "stn_inv n (cnodes C) C"
    using assms True by (auto simp: stn_meets_def)
  then have "stn_inv ?n1 (insert y (insert x (cnodes C))) C"
    by (intro stn_touch_inv)
  then have inv: "stn_inv ?n1 ?V C" by (simp only: insert_commute)
  then have "x \<in> dom (dict_get (stn_constraints ?n1))" by (simp add: stn_inv_def)
  then obtain old where old: "dict_get (stn_constraints ?n1) x = Some old" by auto
  have look: "dict_lookup (stn_constraints ?n1) x = Inr old"
    unfolding dict_lookup_Inr by (rule old)
  let ?cs = "dict_set x ((y, b) # old) (stn_constraints ?n1)"
  show ?thesis
  proof (cases "is_subsumed 0 old y b")
    case sub: True
    then obtain w where "(x, y, w) \<in> stn_edges (stn_constraints ?n1)" and w: "w \<le> b"
      using is_subsumed_edge [OF sub] old by (auto simp: stn_edges_def)
    from stn_inv_potential [OF inv this(1)] w
    have le: "\<not> stn_dist (stn_distances ?n1) x + b < stn_dist (stn_distances ?n1) y" by linarith
    have "dict_lookup (stn_distances ?n1) x = Inr (stn_dist (stn_distances ?n1) x)"
      "dict_lookup (stn_distances ?n1) y = Inr (stn_dist (stn_distances ?n1) y)"
      using inv by (auto simp only: stn_inv_def intro!: dict_lookup_stn_dist)
    then have "inc_check ?n1 x y b = Inr (True, stn_distances ?n1)"
      using tol le by (simp only: inc_check_def Let_def rbind_simps stn_touch_fields) simp
    then have "stn_add x y b n = Inr (?n1\<lparr>stn_distances := stn_distances ?n1, stn_is_sat := True\<rparr>)"
      using True tol sub by (simp add: stn_add_def look)
    moreover have "stn_inv (?n1\<lparr>stn_distances := stn_distances ?n1, stn_is_sat := True\<rparr>) ?V ?C"
      using inv \<open>(x, y, w) \<in> stn_edges (stn_constraints ?n1)\<close> w by (auto simp: stn_inv_def)
    ultimately show ?thesis using tol by (auto simp: stn_meets_def)
  next
    case False
    have cs: "dom (dict_get ?cs) = ?V"
      "stn_edges ?cs = insert (x, y, b) (stn_edges (stn_constraints ?n1))"
      using inv old by (auto simp: stn_inv_def stn_edges_add simp del: stn_dist_set)
    obtain ok d where check: "inc_check (?n1\<lparr>stn_constraints := ?cs\<rparr>) x y b = Inr (ok, d)"
      and res: "if ok then stn_inv (?n1\<lparr>stn_constraints := ?cs, stn_distances := d, stn_is_sat := ok\<rparr>) ?V ?C
        else \<not> consistent ?C"
      using inc_check_correct [OF inv _ _ _ cs] tol by auto
    have "stn_add x y b n = Inr (?n1\<lparr>stn_constraints := ?cs, stn_distances := d, stn_is_sat := ok\<rparr>)"
      using True tol False check by (simp add: stn_add_def Let_def look)
    with res tol show ?thesis by (auto simp: stn_meets_def)
  qed
qed

text \<open>The distances stay a dictionary: no key is entered twice.\<close>

lemma relax_wf: "relax tol y b c ns d q = Inr (ok, d', q') \<Longrightarrow> dict_wf d \<Longrightarrow> dict_wf d'"
  by (induction ns arbitrary: d q) (auto simp: rbind_eq_Inr Let_def split: if_splits)

lemma inc_check_wf:
  assumes "inc_check n x y b = Inr (ok, d)" "dict_wf (stn_distances n)"
  shows "dict_wf d"
proof -
  from assms(1) obtain dx dy where run: "(if dx + b < dy - stn_tolerance n
        then run_loop (inc_check_step (stn_tolerance n) (stn_constraints n) y b)
          (dict_set y (dx + b) (stn_distances n), [y])
        else Inr (True, stn_distances n)) = Inr (ok, d)"
    by (auto simp: inc_check_def Let_def rbind_eq_Inr)
  show ?thesis
  proof (cases "dx + b < dy - stn_tolerance n")
    case True
    with run have loop: "run_loop (inc_check_step (stn_tolerance n) (stn_constraints n) y b)
        (dict_set y (dx + b) (stn_distances n), [y]) = Inr (ok, d)" by simp
    show ?thesis
      by (rule run_loop_invariant [where I = "\<lambda>s. dict_wf (fst s)", OF loop])
        (use assms(2) in \<open>auto simp: inc_check_step_def split: prod.splits list.splits sum.splits if_splits
          elim!: relax_wf simp: rbind_eq_Inr\<close>)
  qed (use run assms(2) in simp)
qed

lemma stn_add_wf:
  assumes "stn_add x y b n = Inr n'" "dict_wf (stn_distances n)"
  shows "dict_wf (stn_distances n')"
proof -
  have "dict_wf (stn_distances (stn_touch v m))" if "dict_wf (stn_distances m)" for v and m :: "'a stn"
    using that by (simp add: stn_touch_def split: option.split)
  with assms show ?thesis
    by (auto simp: stn_add_def Let_def rbind_eq_Inr split: if_splits elim!: inc_check_wf)
qed

definition stn_carries :: "'t stn \<Rightarrow> 't constraint set \<Rightarrow> bool" where
  "stn_carries n C \<longleftrightarrow> stn_meets n C \<and> dict_wf (stn_distances n)"

lemma stn_add_correct:
  assumes "stn_carries n C"
  shows "\<exists>n'. stn_add x y b n = Inr n' \<and> stn_carries n' (insert (x, y, b) C)"
  using stn_add_meets [of n C x y b] stn_add_wf [of x y b n] assms by (auto simp: stn_carries_def)

lemma stn_carries_new: "stn_carries (stn_new 0) {}"
  by (auto simp: stn_carries_def stn_meets_def stn_new_def stn_inv_def stn_dist_def)

lemma stn_check_correct: "stn_carries n C \<Longrightarrow> stn_check n \<longleftrightarrow> consistent C"
  using stn_inv_earliest [of n "cnodes C" C]
  by (auto simp: stn_carries_def stn_meets_def stn_check_def consistent_def earliest_def split: if_splits)

lemma stn_interval_correct:
  assumes "stn_carries n C"
  shows "\<exists>n'. stn_add_interval x y l u n = Inr n' \<and>
    stn_carries n' (insert (y, x, u) (insert (x, y, - l) C))"
proof -
  obtain m where m: "stn_add x y (- l) n = Inr m" "stn_carries m (insert (x, y, - l) C)"
    using stn_add_correct [OF assms] by blast
  from stn_add_correct [OF m(2), of y x u] m(1) show ?thesis
    by (auto simp: stn_add_interval_def)
qed

definition stn_distance :: "'t stn \<Rightarrow> 't \<Rightarrow> rat option" where
  "stn_distance n x = dict_get (stn_distances n) x"

interpretation delta_stn: temporal_network "stn_new 0" stn_add stn_add_interval stn_check
  stn_distance stn_carries
proof (unfold_locales, goal_cases)
  case 1 show ?case by (rule stn_carries_new)
next
  case 2 then show ?case by (rule stn_add_correct)
next
  case 3 then show ?case by (rule stn_interval_correct)
next
  case 4 then show ?case by (rule stn_check_correct)
next
  case (5 n C)
  then have inv: "stn_inv n (cnodes C) C" by (simp add: stn_carries_def stn_meets_def stn_check_def)
  have "stn_distance n v = Some (stn_dist (stn_distances n) v)" if "v \<in> cnodes C" for v
    using that inv by (auto simp: stn_inv_def stn_distance_def stn_dist_def split: option.split)
  with stn_inv_earliest [OF inv] show ?case by force
qed

end
