(* ===== verification/Search_Space.thy ===== *)
theory Search_Space
  imports Search_State Stn
begin

text \<open>
  The search space (\<open>SearchSpace\<close> of \<open>src/tamerlite/core/search_space.py\<close>): its
  construction, the initial state, the successor function with its compression of safe
  actions and its symmetry breaking, and the goal tests.

  The temporal network is unified_planning's \<open>DeltaSimpleTemporalNetwork\<close>, a parameter of
  every definition (the record \<open>tn_ops\<close>); what the code relies on is the locale
  \<open>temporal_network\<close>.  The instance counter of the Python object is threaded as a natural
  number.
\<close>

section \<open>The object and its constructor\<close>

record 'n tn_ops =
  tn_empty :: 'n
  tn_add :: "tp \<Rightarrow> tp \<Rightarrow> rat \<Rightarrow> 'n \<Rightarrow> 'n res"
  tn_interval :: "tp \<Rightarrow> tp \<Rightarrow> rat \<Rightarrow> rat \<Rightarrow> 'n \<Rightarrow> 'n res"
  tn_check :: "'n \<Rightarrow> bool"
  tn_distances :: "'n \<Rightarrow> (tp, rat) dict"

text \<open>The network of the Rust core, at tolerance 0, as such a parameter.\<close>

definition delta_stn_ops :: "tp stn tn_ops" where
  "delta_stn_ops = \<lparr>tn_empty = stn_new 0, tn_add = stn_add, tn_interval = stn_add_interval,
     tn_check = stn_check, tn_distances = stn_distances\<rparr>"

text \<open>Bounds of a duration and whether each is strict.\<close>

type_synonym duration = "expression \<times> expression \<times> bool \<times> bool"

record sspace =
  sp_durations :: "duration option list"
  sp_timed :: "action option"
  sp_events :: "(action, timed_event list) dict"
  sp_relevant :: "action list"
  sp_comp_safe :: "bool list option"
  sp_action_objects :: "obj list list option"
  sp_prev_actions :: "action set list option"
  sp_initial :: "const list option"
  sp_goal :: "expression option"
  sp_deadline :: "rat option"
  sp_epsilon :: rat
  sp_temporal :: bool
  sp_eisc :: "expression list list list"
  sp_event_fluents :: "event_fluents list list"

definition default_epsilon :: rat where
  "default_epsilon = 1 / 100"

definition expr_fluents :: "expression \<Rightarrow> fluent set" where
  "expr_fluents e = set (get_fluents e)"

definition event_writes :: "event \<Rightarrow> fluent set" where
  "event_writes e = eff_fluent ` set (ev_effects e)"

definition event_reads :: "duration option \<Rightarrow> nat \<Rightarrow> event \<Rightarrow> fluent set" where
  "event_reads d i e =
     expr_fluents (ev_conditions e) \<union> (\<Union>eff \<in> set (ev_effects e). expr_fluents (eff_value eff)) \<union>
     (if i = 0 then (case d of None \<Rightarrow> {} | Some (l, u, _, _) \<Rightarrow> expr_fluents l \<union> expr_fluents u)
      else {})"

definition event_info :: "duration option \<Rightarrow> nat \<Rightarrow> event \<Rightarrow> event_fluents" where
  "event_info d i e =
     \<lparr>ef_reads = event_reads d i e,
      ef_writes = event_writes e,
      ef_read_writes = event_reads d i e \<union> event_writes e,
      ef_start_reads = (\<Union>c \<in> set (ev_start_conditions e). expr_fluents c),
      ef_end_reads = (\<Union>c \<in> set (ev_end_conditions e). expr_fluents c)\<rparr>"

text \<open>The start conditions the event's own effects cannot change.\<close>

definition effect_independent :: "event \<Rightarrow> expression list" where
  "effect_independent e =
     filter (\<lambda>c. \<forall>f \<in> set (get_fluents c). f \<notin> event_writes e) (ev_start_conditions e)"

definition indexed :: "'a list \<Rightarrow> (nat \<times> 'a) list" where
  "indexed xs = zip [0..<length xs] xs"

text \<open>One round of the constructor's loop over the events: it fills the rows of one action.\<close>

definition append_row :: "nat \<Rightarrow> 'a list \<Rightarrow> 'a list list \<Rightarrow> 'a list list res" where
  "append_row i xs rows = rbind (py_nth rows (int i)) (\<lambda>row. py_update rows (int i) (row @ xs))"

definition collect_events ::
    "duration option list \<Rightarrow> action \<times> timed_event list \<Rightarrow>
     event_fluents list list \<times> expression list list list \<Rightarrow>
     (event_fluents list list \<times> expression list list list) res" where
  "collect_events ds ale acc = (case ale of (a, le) \<Rightarrow>
     rbind (py_nth ds (int (act_idx a))) (\<lambda>d.
     rbind (append_row (act_idx a) (map (\<lambda>(i, _, e). event_info d i e) (indexed le)) (fst acc)) (\<lambda>efs.
     rbind (append_row (act_idx a) (map (\<lambda>(_, _, e). effect_independent e) (indexed le)) (snd acc)) (\<lambda>eisc.
     Inr (efs, eisc)))))"

definition mk_search_space ::
    "duration option list \<Rightarrow> (action, timed_event list) dict \<Rightarrow> action list \<Rightarrow> bool list option \<Rightarrow>
     obj list list option \<Rightarrow> action set list option \<Rightarrow> const list option \<Rightarrow> expression option \<Rightarrow>
     action list option \<Rightarrow> rat option \<Rightarrow> rat option \<Rightarrow> action option \<Rightarrow> sspace res" where
  "mk_search_space ds evs acts safe objs prev init goal relevant deadline eps timed =
     (let rel = (case relevant of Some r \<Rightarrow> r | None \<Rightarrow> acts) in
      if \<exists>a \<in> set rel. dict_get evs a = None then Inl ValueErr
      else rbind (rfold (collect_events ds) evs
               (replicate (length acts) [], replicate (length acts) [])) (\<lambda>(efs, eisc).
        Inr \<lparr>sp_durations = ds, sp_timed = timed, sp_events = evs, sp_relevant = rel,
          sp_comp_safe = safe, sp_action_objects = objs, sp_prev_actions = prev,
          sp_initial = init, sp_goal = goal, sp_deadline = deadline,
          sp_epsilon = (case eps of None \<Rightarrow> default_epsilon | Some q \<Rightarrow> q),
          sp_temporal = (\<exists>d \<in> set ds. d \<noteq> None), sp_eisc = eisc, sp_event_fluents = efs\<rparr>))"


section \<open>Firing an event\<close>

definition holds :: "ifenv \<Rightarrow> const list \<Rightarrow> expression \<Rightarrow> bool res" where
  "holds ifs asg c = rbind (evaluate ifs c asg) (\<lambda>v. Inr (truthy v))"

definition eisc_hold :: "ifenv \<Rightarrow> sspace \<Rightarrow> action \<Rightarrow> nat \<Rightarrow> 'n state \<Rightarrow> bool res" where
  "eisc_hold ifs sp a i s =
     rbind (py_nth (sp_eisc sp) (int (act_idx a))) (\<lambda>rows.
     rbind (py_nth rows (int i)) (rall (holds ifs (st_assignments s))))"

text \<open>
  An action being opened: the action, its instance, its events and whether its start is
  pinned to the start of the plan.
\<close>

type_synonym pending = "action \<times> nat \<times> timed_event list \<times> bool"

definition as_number :: "const \<Rightarrow> rat res" where
  "as_number c = (case as_rat c of Some q \<Rightarrow> Inr q | None \<Rightarrow> Inl AssertErr)"

definition duration_bounds ::
    "ifenv \<Rightarrow> sspace \<Rightarrow> const list \<Rightarrow> duration option \<Rightarrow> (rat \<times> rat) res" where
  "duration_bounds ifs sp asg d = (case d of
     None \<Rightarrow> Inr (0, 0)
   | Some (l, u, lstrict, ustrict) \<Rightarrow>
       rbind (rbind (evaluate ifs l asg) as_number) (\<lambda>lo.
       rbind (rbind (evaluate ifs u asg) as_number) (\<lambda>hi.
         Inr (lo + (if lstrict then sp_epsilon sp else 0),
              hi - (if ustrict then sp_epsilon sp else 0)))))"

definition event_interval ::
    "'n tn_ops \<Rightarrow> tp \<Rightarrow> tp \<Rightarrow> nat \<times> timed_event \<Rightarrow> 'n \<Rightarrow> 'n res" where
  "event_interval T start fin ite n = (case ite of (eid, t, e) \<Rightarrow>
     tn_interval T (if is_from_start t then start else fin)
       (EventTP (ev_action e) (ev_pos e) eid) (tm_delay t) (tm_delay t) n)"

definition add_opening_constraints ::
    "'n tn_ops \<Rightarrow> ifenv \<Rightarrow> sspace \<Rightarrow> 'n state \<Rightarrow> pending \<Rightarrow> 'n \<Rightarrow> 'n res" where
  "add_opening_constraints T ifs sp s p n = (case p of (a, iid, evs, pin) \<Rightarrow>
     let start = ActionTP a True iid; fin = ActionTP a False iid in
     rbind (py_nth (sp_durations sp) (int (act_idx a))) (\<lambda>d.
     rbind (duration_bounds ifs sp (st_assignments s) d) (\<lambda>(lower, upper).
     rbind (tn_interval T start fin lower upper n) (\<lambda>n1.
     rbind (if pin then tn_interval T StartPlan start 0 0 n1 else tn_add T StartPlan start 0 n1) (\<lambda>n2.
     rbind (tn_add T fin EndPlan (- sp_epsilon sp) n2) (\<lambda>n3.
     rfold (event_interval T start fin)
       (map (\<lambda>(k, te). (iid + 1 + k, te)) (indexed evs)) n3))))))"

text \<open>
  The edges from the past events, newest first: the scan stops at the first interfering
  event, and of the others only the immediate predecessor gets an edge.
\<close>

fun past_edges ::
    "'n tn_ops \<Rightarrow> sspace \<Rightarrow> event_ref \<Rightarrow> tp \<Rightarrow> bool \<Rightarrow> path_entry list \<Rightarrow> 'n \<Rightarrow> 'n res" where
  "past_edges T sp r t pred [] n = Inr n"
| "past_edges T sp r t pred ((a, pos, i) # rest) n =
     rbind (mutex (sp_event_fluents sp) r (a, pos)) (\<lambda>m.
       if m then tn_add T (EventTP a pos i) t (- sp_epsilon sp) n
       else rbind (if pred then tn_add T (EventTP a pos i) t 0 n else Inr n)
              (past_edges T sp r t False rest))"

definition todo_edge ::
    "'n tn_ops \<Rightarrow> sspace \<Rightarrow> event_ref \<Rightarrow> tp \<Rightarrow> action \<times> nat \<times> nat \<Rightarrow> nat \<Rightarrow> 'n \<Rightarrow> 'n res" where
  "todo_edge T sp r t ai j n = (case ai of (a, i, eid) \<Rightarrow>
     rbind (mutex (sp_event_fluents sp) r (a, i + j)) (\<lambda>m.
       tn_add T t (EventTP a (i + j) (eid + j)) (if m then - sp_epsilon sp else 0) n))"

definition todo_edges ::
    "'n tn_ops \<Rightarrow> sspace \<Rightarrow> event_ref \<Rightarrow> tp \<Rightarrow> (action, nat \<times> nat) dict \<Rightarrow> 'n \<Rightarrow> 'n res" where
  "todo_edges T sp r t = rfold (\<lambda>(a, i, eid) n.
     rbind (dict_lookup (sp_events sp) a) (\<lambda>evs.
       rfold (todo_edge T sp r t (a, i, eid)) [0..<length (drop i evs)] n))"

definition apply_effect :: "ifenv \<Rightarrow> const list \<Rightarrow> effect \<Rightarrow> const list \<Rightarrow> const list res" where
  "apply_effect ifs old eff asg = rbind (evaluate ifs (eff_value eff) old) (\<lambda>v.
     py_update asg (int (fl_idx (eff_fluent eff))) v)"

definition update_network ::
    "'n tn_ops \<Rightarrow> ifenv \<Rightarrow> sspace \<Rightarrow> 'n state \<Rightarrow> 'n state \<Rightarrow> event \<Rightarrow> nat \<Rightarrow> nat \<Rightarrow> pending option \<Rightarrow>
     'n res" where
  "update_network T ifs sp s new e index eid pend =
     (let t = EventTP (ev_action e) (ev_pos e) eid; r = (ev_action e, index) in
      rbind (case st_tn new of Some n \<Rightarrow> Inr n
             | None \<Rightarrow> (case st_tn s of None \<Rightarrow> Inl AssertErr | Some n \<Rightarrow> Inr n)) (\<lambda>n0.
      rbind (case pend of None \<Rightarrow> Inr n0 | Some p \<Rightarrow> add_opening_constraints T ifs sp s p n0) (\<lambda>n1.
      rbind (past_edges T sp r t True (rev (st_path s)) n1) (\<lambda>n2.
      todo_edges T sp r t (st_todo new) n2))))"

definition expand_event ::
    "'n tn_ops \<Rightarrow> ifenv \<Rightarrow> sspace \<Rightarrow> 'n state \<Rightarrow> 'n state \<Rightarrow> event \<Rightarrow> nat \<Rightarrow> nat \<Rightarrow> pending option \<Rightarrow>
     'n state option res" where
  "expand_event T ifs sp s new e index eid pend =
     (let path = st_path new @ [(ev_action e, ev_pos e, eid)] in
      rbind (rfold ms_remove (ev_end_conditions e) (st_active new)) (\<lambda>act0.
      let act = fold ms_add (ev_start_conditions e) act0 in
      rbind (rfold (apply_effect ifs (st_assignments s)) (ev_effects e) (st_assignments new)) (\<lambda>asg.
      let new1 = new\<lparr>st_path := path, st_active := act, st_assignments := asg\<rparr> in
      rbind (if ev_effects e \<noteq> [] then rall (holds ifs asg) (ms_iter act) else Inr True) (\<lambda>ok.
      if \<not> ok then Inr None
      else if \<not> sp_temporal sp then Inr (Some new1)
      else rbind (update_network T ifs sp s new1 e index eid pend) (\<lambda>n.
        Inr (if tn_check T n then Some (new1\<lparr>st_tn := Some n\<rparr>) else None))))))"


section \<open>Opening an action\<close>

text \<open>The instance counter comes back with the result.\<close>

definition open_action ::
    "'n tn_ops \<Rightarrow> ifenv \<Rightarrow> sspace \<Rightarrow> 'n state \<Rightarrow> 'n state \<Rightarrow> action \<Rightarrow> timed_event list \<Rightarrow> bool \<Rightarrow> nat \<Rightarrow>
     ('n state option \<times> nat) res" where
  "open_action T ifs sp s new a evs pin c =
     rbind (py_nth evs 0) (\<lambda>te.
       if sp_temporal sp then
         let new1 = (if length evs > 1 then new\<lparr>st_todo := dict_set a (1, c + 2) (st_todo new)\<rparr>
                     else new)
         in rbind (expand_event T ifs sp s new1 (snd te) 0 (c + 1) (Some (a, c, evs, pin)))
              (\<lambda>r. Inr (r, c + 1 + length evs))
       else rbind (expand_event T ifs sp s new (snd te) 0 c None) (\<lambda>r. Inr (r, c)))"

definition symmetry_allows_opening :: "sspace \<Rightarrow> 'n state \<Rightarrow> action \<Rightarrow> bool res" where
  "symmetry_allows_opening sp s a =
     (case (sp_action_objects sp, sp_prev_actions sp) of
        (Some objs, Some prevs) \<Rightarrow>
          rbind (py_nth objs (int (act_idx a))) (rall (\<lambda>ob.
            rbind (py_nth prevs (int (obj_idx ob))) (\<lambda>prev.
              Inr (prev = {} \<or> a \<in> prev \<or> (\<exists>p \<in> set (st_path s). fst p \<in> prev)))))
      | _ \<Rightarrow> Inr True)"

definition open_timed_action ::
    "'n tn_ops \<Rightarrow> ifenv \<Rightarrow> sspace \<Rightarrow> 'n state \<Rightarrow> nat \<Rightarrow> ('n state option \<times> nat) res" where
  "open_timed_action T ifs sp s c =
     (case sp_timed sp of None \<Rightarrow> Inl AssertErr | Some a \<Rightarrow>
      rbind (dict_lookup (sp_events sp) a) (\<lambda>evs.
      rbind (py_nth evs 0) (\<lambda>te.
      rbind (holds ifs (st_assignments s) (ev_conditions (snd te))) (\<lambda>b.
      rbind (if b then eisc_hold ifs sp a 0 s else Inr False) (\<lambda>ok.
      if ok then open_action T ifs sp s (clone s False) a evs True c else Inr (None, c))))))"

definition initial_state ::
    "'n tn_ops \<Rightarrow> ifenv \<Rightarrow> sspace \<Rightarrow> const list option \<Rightarrow> nat \<Rightarrow> ('n state option \<times> nat) res" where
  "initial_state T ifs sp init c =
     rbind (if sp_temporal sp then
              (case sp_deadline sp of
                 None \<Rightarrow> Inr (Some (tn_empty T))
               | Some d \<Rightarrow> rbind (tn_interval T StartPlan EndPlan d d (tn_empty T)) (\<lambda>n. Inr (Some n)))
            else Inr None) (\<lambda>tn.
     rbind (case init of Some x \<Rightarrow> Inr x
            | None \<Rightarrow> (case sp_initial sp of Some x \<Rightarrow> Inr x | None \<Rightarrow> Inl AssertErr)) (\<lambda>asg.
     let s = mk_state asg tn [] ms_empty 0 [] in
     if sp_timed sp = None then Inr (Some s, c) else open_timed_action T ifs sp s c))"


section \<open>Successors\<close>

text \<open>The remaining events of a compression-safe action, fired at once.\<close>

fun compress ::
    "'n tn_ops \<Rightarrow> ifenv \<Rightarrow> sspace \<Rightarrow> action \<Rightarrow> (nat \<times> timed_event) list \<Rightarrow> nat \<Rightarrow> 'n state \<Rightarrow>
     'n state option res" where
  "compress T ifs sp a [] eid new = Inr (Some new)"
| "compress T ifs sp a ((index, _, e) # rest) eid new =
     rbind (eisc_hold ifs sp a index new) (\<lambda>ok.
     if \<not> ok then Inr None
     else rbind (expand_event T ifs sp (clone new False) (new\<lparr>st_g := st_g new + 1\<rparr>) e index eid None)
       (\<lambda>r. case r of None \<Rightarrow> Inr None
              | Some new' \<Rightarrow> compress T ifs sp a rest (eid + 1) new'))"

definition continue_action ::
    "'n tn_ops \<Rightarrow> ifenv \<Rightarrow> sspace \<Rightarrow> 'n state \<Rightarrow> action \<Rightarrow> timed_event list \<Rightarrow> nat \<Rightarrow> nat \<Rightarrow>
     'n state option res" where
  "continue_action T ifs sp s a evs index eid =
     rbind (py_nth evs (int index)) (\<lambda>te.
     rbind (holds ifs (st_assignments s) (ev_conditions (snd te))) (\<lambda>b.
     rbind (if b then eisc_hold ifs sp a index s else Inr False) (\<lambda>ok.
     if \<not> ok then Inr None
     else let new = (clone s False)\<lparr>st_g := st_g s + 1\<rparr>;
              new1 = new\<lparr>st_todo :=
                (if index + 1 \<ge> length evs then dict_del a (st_todo new)
                 else dict_set a (index + 1, eid + 1) (st_todo new))\<rparr>
          in expand_event T ifs sp s new1 (snd te) index eid None)))"

definition compression_applies :: "sspace \<Rightarrow> action \<Rightarrow> bool \<Rightarrow> bool res" where
  "compression_applies sp a enabled =
     (case sp_comp_safe sp of
        Some safe \<Rightarrow> if enabled then py_nth safe (int (act_idx a)) else Inr False
      | None \<Rightarrow> Inr False)"

definition start_action ::
    "'n tn_ops \<Rightarrow> ifenv \<Rightarrow> sspace \<Rightarrow> 'n state \<Rightarrow> action \<Rightarrow> timed_event list \<Rightarrow> bool \<Rightarrow> nat \<Rightarrow>
     ('n state option \<times> nat) res" where
  "start_action T ifs sp s a evs enabled c =
     rbind (symmetry_allows_opening sp s a) (\<lambda>sym.
     if \<not> sym then Inr (None, c)
     else rbind (py_nth evs 0) (\<lambda>te.
     rbind (holds ifs (st_assignments s) (ev_conditions (snd te))) (\<lambda>b.
     rbind (if b then eisc_hold ifs sp a 0 s else Inr False) (\<lambda>ok.
     if \<not> ok then Inr (None, c)
     else rbind (open_action T ifs sp s ((clone s False)\<lparr>st_g := st_g s + 1\<rparr>) a evs False c) (\<lambda>(r, c').
     rbind (compression_applies sp a enabled) (\<lambda>safe.
     case r of None \<Rightarrow> Inr (None, c')
     | Some new \<Rightarrow>
         if safe \<and> length evs > 1 then
           rbind (dict_lookup (st_todo new) a) (\<lambda>(_, eid).
           rbind (compress T ifs sp a (drop 1 (indexed evs)) eid
                    (new\<lparr>st_todo := dict_del a (st_todo new)\<rparr>)) (\<lambda>r'. Inr (r', c')))
         else Inr (Some new, c')))))))"

definition get_successor_state_with_compression ::
    "'n tn_ops \<Rightarrow> ifenv \<Rightarrow> sspace \<Rightarrow> 'n state \<Rightarrow> action \<Rightarrow> bool \<Rightarrow> nat \<Rightarrow>
     ('n state option \<times> nat) res" where
  "get_successor_state_with_compression T ifs sp s a enabled c =
     rbind (dict_lookup (sp_events sp) a) (\<lambda>evs.
     case dict_get (st_todo s) a of
       Some (index, eid) \<Rightarrow>
         rbind (continue_action T ifs sp s a evs index eid) (\<lambda>r. Inr (r, c))
     | None \<Rightarrow>
         if sp_timed sp = Some a then Inr (None, c)
         else start_action T ifs sp s a evs enabled c)"

definition get_successor_state ::
    "'n tn_ops \<Rightarrow> ifenv \<Rightarrow> sspace \<Rightarrow> 'n state \<Rightarrow> action \<Rightarrow> nat \<Rightarrow> ('n state option \<times> nat) res" where
  "get_successor_state T ifs sp s a c = get_successor_state_with_compression T ifs sp s a True c"

text \<open>The generator of successors, run to its end.\<close>

definition get_successor_states ::
    "'n tn_ops \<Rightarrow> ifenv \<Rightarrow> sspace \<Rightarrow> 'n state \<Rightarrow> nat \<Rightarrow> ('n state list \<times> nat) res" where
  "get_successor_states T ifs sp s c = rfold (\<lambda>a (acc, c).
     rbind (get_successor_state T ifs sp s a c) (\<lambda>(r, c').
       Inr (case r of None \<Rightarrow> acc | Some s' \<Rightarrow> acc @ [s'], c'))) (sp_relevant sp) ([], c)"


section \<open>Goals and makespan\<close>

definition the_goal :: "sspace \<Rightarrow> expression option \<Rightarrow> expression res" where
  "the_goal sp goal = (case goal of Some g \<Rightarrow> Inr g
     | None \<Rightarrow> (case sp_goal sp of Some g \<Rightarrow> Inr g | None \<Rightarrow> Inl AssertErr))"

definition goal_reached :: "ifenv \<Rightarrow> sspace \<Rightarrow> 'n state \<Rightarrow> expression option \<Rightarrow> bool res" where
  "goal_reached ifs sp s goal =
     (if st_todo s \<noteq> [] then Inr False
      else rbind (the_goal sp goal) (\<lambda>g. rbind (evaluate ifs g (st_assignments s)) (\<lambda>v.
        case v of CBool b \<Rightarrow> Inr b | _ \<Rightarrow> Inl AssertErr)))"

definition subgoals_sat :: "ifenv \<Rightarrow> sspace \<Rightarrow> 'n state \<Rightarrow> expression option \<Rightarrow> expression set res" where
  "subgoals_sat ifs sp s goal =
     rbind (the_goal sp goal) (\<lambda>g. rbind (split_expression g) (\<lambda>goals.
     rfold (\<lambda>g acc. rbind (holds ifs (st_assignments s) g) (\<lambda>b.
       Inr (if b then insert g acc else acc))) goals {}))"

definition makespan :: "'n tn_ops \<Rightarrow> 'n state \<Rightarrow> rat res" where
  "makespan T s = (case st_tn s of None \<Rightarrow> Inl AssertErr | Some n \<Rightarrow>
     if st_path s = [] then Inr 0
     else rbind (dict_lookup (tn_distances T n) (entry_tp (last (st_path s)))) (\<lambda>d. Inr (- d)))"

end
