(* ===== verification/Search_Space_Facts.thy ===== *)
theory Search_Space_Facts
  imports Search_Space
begin

text \<open>
  Facts about the search space that do not depend on the temporal network: what the
  constructor records about every event, the shape of a successor, and the invariant
  that all active conditions hold in every state the search space returns.
\<close>

section \<open>The constructor\<close>

text \<open>What the constructor is promised to have recorded about the events.\<close>

definition space_ok :: "sspace \<Rightarrow> bool" where
  "space_ok sp \<longleftrightarrow> (\<forall>a evs. dict_get (sp_events sp) a = Some evs \<longrightarrow>
     act_idx a < length (sp_durations sp) \<and>
     act_idx a < length (sp_eisc sp) \<and> act_idx a < length (sp_event_fluents sp) \<and>
     sp_eisc sp ! act_idx a = map (\<lambda>(i, t, e). effect_independent e) (indexed evs) \<and>
     sp_event_fluents sp ! act_idx a =
       map (\<lambda>(i, t, e). event_info (sp_durations sp ! act_idx a) i e) (indexed evs))"

lemma length_indexed [simp]: "length (indexed xs) = length xs"
  by (simp add: indexed_def)

lemma nth_indexed [simp]: "i < length xs \<Longrightarrow> indexed xs ! i = (i, xs ! i)"
  by (simp add: indexed_def)

lemma append_row_Inr:
  "append_row i xs rows = Inr rows' \<longleftrightarrow> i < length rows \<and> rows' = rows[i := rows ! i @ xs]"
  by (auto simp: append_row_def rbind_eq_Inr py_nth_int_iff py_update_int_iff)

lemma collect_events_rows:
  assumes "rfold (collect_events ds) evs (efs, eisc) = Inr (efs', eisc')"
    and "distinct (map fst evs)" "length eisc = length efs"
  shows "length efs' = length efs \<and> length eisc' = length efs \<and>
    (\<forall>i < length efs.
       efs' ! i = efs ! i @ (case dict_get evs (Action i) of None \<Rightarrow> []
          | Some le \<Rightarrow> map (\<lambda>(k, t, e). event_info (ds ! i) k e) (indexed le)) \<and>
       eisc' ! i = eisc ! i @ (case dict_get evs (Action i) of None \<Rightarrow> []
          | Some le \<Rightarrow> map (\<lambda>(k, t, e). effect_independent e) (indexed le))) \<and>
    (\<forall>a \<in> fst ` set evs. act_idx a < length efs \<and> act_idx a < length ds)"
  using assms
proof (induction evs arbitrary: efs eisc)
  case (Cons p evs)
  obtain a le where p: "p = (a, le)" by fastforce
  from Cons.prems(1) p obtain efs1 eisc1 where
    step: "collect_events ds (a, le) (efs, eisc) = Inr (efs1, eisc1)"
    and rest: "rfold (collect_events ds) evs (efs1, eisc1) = Inr (efs', eisc')"
    by (auto simp: rbind_eq_Inr)
  from step have one: "act_idx a < length ds" "act_idx a < length efs" "act_idx a < length eisc"
    "efs1 = efs[act_idx a := efs ! act_idx a @
       map (\<lambda>(k, t, e). event_info (ds ! act_idx a) k e) (indexed le)]"
    "eisc1 = eisc[act_idx a := eisc ! act_idx a @
       map (\<lambda>(k, t, e). effect_independent e) (indexed le)]"
    by (auto simp: collect_events_def rbind_eq_Inr append_row_Inr py_nth_int_iff)
  have fresh: "dict_get evs a = None" using Cons.prems(2) p by (simp add: map_of_eq_None_iff)
  have IH: "length efs' = length efs1 \<and> length eisc' = length efs1 \<and>
    (\<forall>i < length efs1.
       efs' ! i = efs1 ! i @ (case dict_get evs (Action i) of None \<Rightarrow> []
          | Some le \<Rightarrow> map (\<lambda>(k, t, e). event_info (ds ! i) k e) (indexed le)) \<and>
       eisc' ! i = eisc1 ! i @ (case dict_get evs (Action i) of None \<Rightarrow> []
          | Some le \<Rightarrow> map (\<lambda>(k, t, e). effect_independent e) (indexed le))) \<and>
    (\<forall>a \<in> fst ` set evs. act_idx a < length efs1 \<and> act_idx a < length ds)"
    using Cons.IH [OF rest] Cons.prems one by simp
  show ?case
  proof (intro conjI allI impI)
    fix i assume i: "i < length efs"
    have "Action i = a \<longleftrightarrow> i = act_idx a" by (cases a) auto
    with IH i one fresh Cons.prems(3) p show
      "efs' ! i = efs ! i @ (case dict_get (p # evs) (Action i) of None \<Rightarrow> []
          | Some le \<Rightarrow> map (\<lambda>(k, t, e). event_info (ds ! i) k e) (indexed le))"
      "eisc' ! i = eisc ! i @ (case dict_get (p # evs) (Action i) of None \<Rightarrow> []
          | Some le \<Rightarrow> map (\<lambda>(k, t, e). effect_independent e) (indexed le))"
      by (auto simp: nth_list_update)
  qed (use IH one p in auto)
qed simp

lemma mk_search_space_ok:
  assumes "mk_search_space ds evs acts safe objs prev init goal rel dl eps timed = Inr sp"
    and "dict_wf evs"
  shows "space_ok sp"
proof -
  let ?e = "replicate (length acts) []"
  obtain efs eisc where fold: "rfold (collect_events ds) evs (?e, ?e) = Inr (efs, eisc)"
    and sp: "sp_durations sp = ds" "sp_events sp = evs" "sp_eisc sp = eisc" "sp_event_fluents sp = efs"
    using assms(1) by (auto simp: mk_search_space_def Let_def rbind_eq_Inr split: if_splits)
  have rows: "length efs = length acts" "length eisc = length acts"
    "\<And>i. i < length acts \<Longrightarrow> efs ! i = (case dict_get evs (Action i) of None \<Rightarrow> []
          | Some le \<Rightarrow> map (\<lambda>(k, t, e). event_info (ds ! i) k e) (indexed le))"
    "\<And>i. i < length acts \<Longrightarrow> eisc ! i = (case dict_get evs (Action i) of None \<Rightarrow> []
          | Some le \<Rightarrow> map (\<lambda>(k, t, e). effect_independent e) (indexed le))"
    "\<And>a. a \<in> fst ` set evs \<Longrightarrow> act_idx a < length acts \<and> act_idx a < length ds"
    using collect_events_rows [OF fold] assms(2) by (auto simp: dict_wf_def)
  show ?thesis
    unfolding space_ok_def sp
  proof (intro allI impI)
    fix a le assume a: "dict_get evs a = Some le"
    then have "a \<in> fst ` set evs" by (auto dest: map_of_SomeD intro: rev_image_eqI)
    with rows(5) have "act_idx a < length acts" "act_idx a < length ds" by auto
    moreover have "Action (act_idx a) = a" by simp
    ultimately show "act_idx a < length ds \<and> act_idx a < length eisc \<and> act_idx a < length efs \<and>
        eisc ! act_idx a = map (\<lambda>(i, t, e). effect_independent e) (indexed le) \<and>
        efs ! act_idx a = map (\<lambda>(i, t, e). event_info (ds ! act_idx a) i e) (indexed le)"
      using rows(1,2) rows(3,4) [of "act_idx a"] a by simp
  qed
qed

lemma space_okD:
  assumes "space_ok sp" "dict_get (sp_events sp) a = Some evs"
  shows "act_idx a < length (sp_eisc sp)"
    and "sp_eisc sp ! act_idx a = map (\<lambda>(i, t, e). effect_independent e) (indexed evs)"
    and "act_idx a < length (sp_event_fluents sp)"
    and "sp_event_fluents sp ! act_idx a =
      map (\<lambda>(i, t, e). event_info (sp_durations sp ! act_idx a) i e) (indexed evs)"
  using assms unfolding space_ok_def by blast+

lemma effect_independent_no_effects: "ev_effects e = [] \<Longrightarrow> effect_independent e = ev_start_conditions e"
  by (simp add: effect_independent_def event_writes_def)

lemma eisc_hold_no_effects:
  assumes "space_ok sp" "dict_get (sp_events sp) a = Some evs" "i < length evs"
    and "eisc_hold ifs sp a i s = Inr True" "ev_effects (snd (evs ! i)) = []"
  shows "\<forall>c \<in> set (ev_start_conditions (snd (evs ! i))). holds ifs (st_assignments s) c = Inr True"
  using assms(3-5) space_okD(1,2) [OF assms(1,2)]
  by (auto simp: eisc_hold_def rall_True_iff split_beta effect_independent_no_effects)


section \<open>Firing an event\<close>

lemma expand_event_SomeD:
  assumes "expand_event T ifs sp s new e index eid pend = Inr (Some s')"
  obtains act0 asg where
    "rfold ms_remove (ev_end_conditions e) (st_active new) = Inr act0"
    "rfold (apply_effect ifs (st_assignments s)) (ev_effects e) (st_assignments new) = Inr asg"
    "ev_effects e \<noteq> [] \<longrightarrow> rall (holds ifs asg) (ms_iter (fold ms_add (ev_start_conditions e) act0)) = Inr True"
    "st_path s' = st_path new @ [(ev_action e, ev_pos e, eid)]"
    "st_active s' = fold ms_add (ev_start_conditions e) act0"
    "st_assignments s' = asg" "st_todo s' = st_todo new" "st_g s' = st_g new"
    "st_hcache s' = st_hcache new"
    "\<not> sp_temporal sp \<longrightarrow> st_tn s' = st_tn new"
    "sp_temporal sp \<longrightarrow> (\<exists>n. st_tn s' = Some n \<and> tn_check T n \<and>
       update_network T ifs sp s (new\<lparr>st_path := st_path s', st_active := st_active s',
         st_assignments := asg\<rparr>) e index eid pend = Inr n)"
  using assms
  by (auto simp: expand_event_def Let_def rbind_eq_Inr split: if_splits)

definition actives_hold :: "ifenv \<Rightarrow> 'n state \<Rightarrow> bool" where
  "actives_hold ifs s \<longleftrightarrow> ms_wf (st_active s) \<and>
     (\<forall>c \<in> set (ms_iter (st_active s)). holds ifs (st_assignments s) c = Inr True)"

lemma expand_event_actives:
  assumes "expand_event T ifs sp s new e index eid pend = Inr (Some s')"
    and "actives_hold ifs s" "st_active new = st_active s" "st_assignments new = st_assignments s"
    and "ev_effects e = [] \<Longrightarrow>
      \<forall>c \<in> set (ev_start_conditions e). holds ifs (st_assignments s) c = Inr True"
  shows "actives_hold ifs s'"
proof -
  from assms(1) obtain act0 asg where
    rem: "rfold ms_remove (ev_end_conditions e) (st_active new) = Inr act0"
    and eff: "rfold (apply_effect ifs (st_assignments s)) (ev_effects e) (st_assignments new) = Inr asg"
    and chk: "ev_effects e \<noteq> [] \<longrightarrow>
      rall (holds ifs asg) (ms_iter (fold ms_add (ev_start_conditions e) act0)) = Inr True"
    and s': "st_active s' = fold ms_add (ev_start_conditions e) act0" "st_assignments s' = asg"
    by (rule expand_event_SomeD)
  have wf0: "ms_wf (st_active new)" using assms(2,3) by (simp add: actives_hold_def)
  have act0: "ms_wf act0" "ms_abs act0 = ms_abs (st_active s) - mset (ev_end_conditions e)"
    using active_conditions.remove_all [OF wf0 rem] assms(3) by auto
  have act: "ms_wf (st_active s')"
    "ms_abs (st_active s') = ms_abs act0 + mset (ev_start_conditions e)"
    using active_conditions.add_all [OF act0(1)] s' by auto
  have "holds ifs (st_assignments s') c = Inr True" if c: "c \<in> set (ms_iter (st_active s'))" for c
  proof (cases "ev_effects e = []")
    case False
    with chk s' c show ?thesis by (simp add: rall_True_iff)
  next
    case True
    with eff s' assms(4) have same: "st_assignments s' = st_assignments s" by simp
    from c act have "c \<in># ms_abs act0 \<or> c \<in> set (ev_start_conditions e)"
      by (simp add: active_conditions.members_abs)
    then show ?thesis
    proof
      assume "c \<in># ms_abs act0"
      then have "c \<in># ms_abs (st_active s)" using act0(2) by (auto dest: in_diffD)
      then have "c \<in> set (ms_iter (st_active s))"
        using assms(2) by (simp add: actives_hold_def active_conditions.members_abs)
      with assms(2) same show ?thesis by (simp add: actives_hold_def)
    qed (use assms(5) True same in auto)
  qed
  with act(1) show ?thesis by (simp add: actives_hold_def)
qed

lemma actives_hold_clone [simp]: "actives_hold ifs (clone s b) = actives_hold ifs s"
  by (simp add: actives_hold_def)

lemma actives_hold_update [simp]:
  "actives_hold ifs (s\<lparr>st_g := k\<rparr>) = actives_hold ifs s"
  "actives_hold ifs (s\<lparr>st_todo := d\<rparr>) = actives_hold ifs s"
  by (simp_all add: actives_hold_def)


section \<open>The shape of a successor\<close>

text \<open>
  Every successor comes from the parent by firing one event, or several of a compressed
  action.  A property of states that firing an event keeps, and that does not depend on
  the pending events and the counters of a state, is kept by every successor.
\<close>

definition fires ::
    "'n tn_ops \<Rightarrow> ifenv \<Rightarrow> sspace \<Rightarrow> 'n state \<Rightarrow> 'n state \<Rightarrow> action \<Rightarrow> nat \<Rightarrow> nat \<Rightarrow> pending option \<Rightarrow>
     'n state \<Rightarrow> bool" where
  "fires T ifs sp s new a index eid pend s' \<longleftrightarrow> (\<exists>evs.
     dict_get (sp_events sp) a = Some evs \<and> index < length evs \<and>
     st_assignments new = st_assignments s \<and> st_active new = st_active s \<and>
     st_path new = st_path s \<and> st_hcache new = [] \<and>
     eisc_hold ifs sp a index s = Inr True \<and>
     expand_event T ifs sp s new (snd (evs ! index)) index eid pend = Inr (Some s'))"

lemma firesE:
  assumes "fires T ifs sp s new a index eid pend s'"
  obtains evs where "dict_get (sp_events sp) a = Some evs" "index < length evs"
    "st_assignments new = st_assignments s" "st_active new = st_active s"
    "st_path new = st_path s" "st_hcache new = []" "eisc_hold ifs sp a index s = Inr True"
    "expand_event T ifs sp s new (snd (evs ! index)) index eid pend = Inr (Some s')"
  using assms by (auto simp: fires_def)

lemma fires_actives:
  assumes "space_ok sp" "fires T ifs sp s new a index eid pend s'" "actives_hold ifs s"
  shows "actives_hold ifs s'"
proof -
  from assms(2) obtain evs where evs: "dict_get (sp_events sp) a = Some evs" "index < length evs"
    and new: "st_assignments new = st_assignments s" "st_active new = st_active s"
    and ok: "eisc_hold ifs sp a index s = Inr True"
    and ex: "expand_event T ifs sp s new (snd (evs ! index)) index eid pend = Inr (Some s')"
    by (rule firesE)
  show ?thesis
    by (rule expand_event_actives [OF ex assms(3) new(2) new(1)
          eisc_hold_no_effects [OF assms(1) evs ok]])
qed

lemma continue_actionD:
  assumes "continue_action T ifs sp s a evs index eid = Inr (Some s')"
    and "dict_get (sp_events sp) a = Some evs"
  shows "holds ifs (st_assignments s) (ev_conditions (snd (evs ! index))) = Inr True \<and>
    fires T ifs sp s ((clone s False)\<lparr>st_g := st_g s + 1, st_todo :=
      (if index + 1 \<ge> length evs then dict_del a (st_todo s)
       else dict_set a (index + 1, eid + 1) (st_todo s))\<rparr>) a index eid None s'"
  using assms
  by (auto simp: continue_action_def Let_def rbind_eq_Inr py_nth_int_iff fires_def split: if_splits)

lemma open_actionD:
  assumes "open_action T ifs sp s new a evs pin c = Inr (Some s', c')"
    and "dict_get (sp_events sp) a = Some evs" "eisc_hold ifs sp a 0 s = Inr True"
    and "st_assignments new = st_assignments s" "st_active new = st_active s"
    "st_path new = st_path s" "st_hcache new = []"
  shows "c' = (if sp_temporal sp then c + 1 + length evs else c) \<and>
    fires T ifs sp s
      (if sp_temporal sp \<and> length evs > 1 then new\<lparr>st_todo := dict_set a (1, c + 2) (st_todo new)\<rparr> else new)
      a 0 (if sp_temporal sp then c + 1 else c)
      (if sp_temporal sp then Some (a, c, evs, pin) else None) s'"
proof -
  from assms(1) obtain te where te: "py_nth evs 0 = Inr te"
    by (auto simp: open_action_def rbind_eq_Inr)
  have "evs \<noteq> []" "te = evs ! 0"
    using te py_nth_int_iff [of evs 0 te] by auto
  with assms te show ?thesis
    by (auto simp: open_action_def Let_def rbind_eq_Inr fires_def split: if_splits)
qed

lemma start_actionD:
  assumes "start_action T ifs sp s a evs enabled c = Inr (Some s', c')"
    and "dict_get (sp_events sp) a = Some evs"
  obtains s1 where
    "symmetry_allows_opening sp s a = Inr True"
    "holds ifs (st_assignments s) (ev_conditions (snd (evs ! 0))) = Inr True"
    "eisc_hold ifs sp a 0 s = Inr True"
    "open_action T ifs sp s ((clone s False)\<lparr>st_g := st_g s + 1\<rparr>) a evs False c = Inr (Some s1, c')"
    "s' = s1 \<or> (\<exists>i eid. length evs > 1 \<and> dict_get (st_todo s1) a = Some (i, eid) \<and>
       compress T ifs sp a (drop 1 (indexed evs)) eid (s1\<lparr>st_todo := dict_del a (st_todo s1)\<rparr>) = Inr (Some s') \<and>
       compression_applies sp a enabled = Inr True)"
proof -
  from assms(1) obtain te where te: "py_nth evs 0 = Inr te"
    by (auto simp: start_action_def rbind_eq_Inr split: if_splits)
  then have "evs ! 0 = te" using py_nth_int_iff [of evs 0 te] by auto
  with assms(1) te show thesis
    by (auto simp: start_action_def rbind_eq_Inr split: if_splits option.splits
        intro!: that)
qed

text \<open>The invariant may speak of the events still to be fired and of the next instance number.\<close>

lemma compress_invariant:
  assumes "compress T ifs sp a ies eid new = Inr (Some s')" "I ies eid new"
    and "dict_get (sp_events sp) a = Some evs" "\<forall>p \<in> set ies. fst p < length evs \<and> snd p = evs ! fst p"
    and step: "\<And>i te rest eid s s'. I ((i, te) # rest) eid s \<Longrightarrow>
      fires T ifs sp (clone s False) (s\<lparr>st_g := st_g s + 1\<rparr>) a i eid None s' \<Longrightarrow> I rest (eid + 1) s'"
    and hc: "\<And>ies eid s. I ies eid s \<Longrightarrow> st_hcache s = []"
  shows "I [] (eid + length ies) s'"
  using assms(1,2,4)
proof (induction ies arbitrary: eid new)
  case (Cons p ies)
  obtain i t e where p: "p = (i, t, e)" by (cases p) auto
  with Cons.prems(3) have e: "i < length evs" "evs ! i = (t, e)" by auto
  from Cons.prems(1) p obtain s1 where
    ok: "eisc_hold ifs sp a i new = Inr True"
    and ex: "expand_event T ifs sp (clone new False) (new\<lparr>st_g := st_g new + 1\<rparr>) e i eid None = Inr (Some s1)"
    and rest: "compress T ifs sp a ies (eid + 1) s1 = Inr (Some s')"
    by (auto simp: rbind_eq_Inr split: if_splits option.splits)
  have "fires T ifs sp (clone new False) (new\<lparr>st_g := st_g new + 1\<rparr>) a i eid None s1"
    unfolding fires_def
    using assms(3) e ok ex hc [OF Cons.prems(2)] by (auto simp: eisc_hold_def)
  from step [OF Cons.prems(2) [unfolded p] this] have "I ies (eid + 1) s1" .
  from Cons.IH [OF rest this] Cons.prems(3) show ?case by simp
qed simp

lemma indexed_drop1: "\<forall>p \<in> set (drop 1 (indexed xs)). fst p < length xs \<and> snd p = xs ! fst p"
  by (auto simp: indexed_def in_set_zip dest!: in_set_dropD)

text \<open>The three ways to a successor, and what each of them fires.\<close>

lemma successor_cases [consumes 1, case_names continue started compressed]:
  assumes "get_successor_state_with_compression T ifs sp s a enabled c = Inr (Some s', c')"
  obtains
    (continue) evs index eid where "dict_get (sp_events sp) a = Some evs"
      "dict_get (st_todo s) a = Some (index, eid)" "c' = c"
      "holds ifs (st_assignments s) (ev_conditions (snd (evs ! index))) = Inr True"
      "fires T ifs sp s ((clone s False)\<lparr>st_g := st_g s + 1, st_todo :=
        (if index + 1 \<ge> length evs then dict_del a (st_todo s)
         else dict_set a (index + 1, eid + 1) (st_todo s))\<rparr>) a index eid None s'"
  | (started) evs where "dict_get (sp_events sp) a = Some evs" "dict_get (st_todo s) a = None"
      "symmetry_allows_opening sp s a = Inr True"
      "holds ifs (st_assignments s) (ev_conditions (snd (evs ! 0))) = Inr True"
      "sp_timed sp \<noteq> Some a" "c' = (if sp_temporal sp then c + 1 + length evs else c)"
      "fires T ifs sp s ((clone s False)\<lparr>st_g := st_g s + 1, st_todo :=
        (if sp_temporal sp \<and> length evs > 1 then dict_set a (1, c + 2) (st_todo s) else st_todo s)\<rparr>)
        a 0 (if sp_temporal sp then c + 1 else c)
        (if sp_temporal sp then Some (a, c, evs, False) else None) s'"
  | (compressed) evs s1 i eid where "dict_get (sp_events sp) a = Some evs"
      "dict_get (st_todo s) a = None" "symmetry_allows_opening sp s a = Inr True"
      "holds ifs (st_assignments s) (ev_conditions (snd (evs ! 0))) = Inr True"
      "sp_timed sp \<noteq> Some a" "c' = (if sp_temporal sp then c + 1 + length evs else c)"
      "fires T ifs sp s ((clone s False)\<lparr>st_g := st_g s + 1, st_todo :=
        (if sp_temporal sp \<and> length evs > 1 then dict_set a (1, c + 2) (st_todo s) else st_todo s)\<rparr>)
        a 0 (if sp_temporal sp then c + 1 else c)
        (if sp_temporal sp then Some (a, c, evs, False) else None) s1"
      "length evs > 1" "dict_get (st_todo s1) a = Some (i, eid)"
      "compress T ifs sp a (drop 1 (indexed evs)) eid (s1\<lparr>st_todo := dict_del a (st_todo s1)\<rparr>) = Inr (Some s')"
      "compression_applies sp a enabled = Inr True"
proof -
  from assms obtain evs where evs: "dict_get (sp_events sp) a = Some evs"
    by (auto simp: get_successor_state_with_compression_def rbind_eq_Inr)
  show thesis
  proof (cases "dict_get (st_todo s) a")
    case (Some ie)
    obtain index eid where ie: "ie = (index, eid)" by fastforce
    from assms Some ie evs have
      "continue_action T ifs sp s a evs index eid = Inr (Some s')" "c' = c"
      by (auto simp: get_successor_state_with_compression_def rbind_eq_Inr)
    with continue_actionD [OF this(1) evs] evs Some ie show thesis by (intro continue) auto
  next
    case None
    from assms None evs have timed: "sp_timed sp \<noteq> Some a"
      and st: "start_action T ifs sp s a evs enabled c = Inr (Some s', c')"
      by (auto simp: get_successor_state_with_compression_def rbind_eq_Inr split: if_splits)
    from st evs obtain s1 where
      sym: "symmetry_allows_opening sp s a = Inr True"
      and cond: "holds ifs (st_assignments s) (ev_conditions (snd (evs ! 0))) = Inr True"
      and eisc: "eisc_hold ifs sp a 0 s = Inr True"
      and opened: "open_action T ifs sp s ((clone s False)\<lparr>st_g := st_g s + 1\<rparr>) a evs False c = Inr (Some s1, c')"
      and last: "s' = s1 \<or> (\<exists>i eid. length evs > 1 \<and> dict_get (st_todo s1) a = Some (i, eid) \<and>
         compress T ifs sp a (drop 1 (indexed evs)) eid (s1\<lparr>st_todo := dict_del a (st_todo s1)\<rparr>) = Inr (Some s') \<and>
       compression_applies sp a enabled = Inr True)"
      by (rule start_actionD)
    have "c' = (if sp_temporal sp then c + 1 + length evs else c) \<and>
      fires T ifs sp s ((clone s False)\<lparr>st_g := st_g s + 1, st_todo :=
        (if sp_temporal sp \<and> length evs > 1 then dict_set a (1, c + 2) (st_todo s) else st_todo s)\<rparr>)
        a 0 (if sp_temporal sp then c + 1 else c)
        (if sp_temporal sp then Some (a, c, evs, False) else None) s1"
      using open_actionD [OF opened evs eisc]
      by (auto simp: clone_def mk_state_def ms_clone_def split: if_splits)
    with last sym cond timed evs None show thesis by (auto intro: started compressed)
  qed
qed


section \<open>Active conditions hold\<close>

lemma fires_hcache: "fires T ifs sp s new a index eid pend s' \<Longrightarrow> st_hcache s' = []"
  by (auto elim!: firesE expand_event_SomeD)

lemma compress_actives:
  assumes "space_ok sp" "dict_get (sp_events sp) a = Some evs"
    and "compress T ifs sp a (drop 1 (indexed evs)) eid s = Inr (Some s')"
    and "actives_hold ifs s" "st_hcache s = []"
  shows "actives_hold ifs s'"
proof -
  have "(\<lambda>_ _ s. actives_hold ifs s \<and> st_hcache s = []) [] (eid + length (drop 1 (indexed evs))) s'"
  proof (rule compress_invariant [OF assms(3)])
    fix i eid s s' assume "actives_hold ifs s \<and> st_hcache s = []"
      and "fires T ifs sp (clone s False) (s\<lparr>st_g := st_g s + 1\<rparr>) a i eid None s'"
    then show "actives_hold ifs s' \<and> st_hcache s' = []"
      using fires_actives [OF assms(1)] fires_hcache by fastforce
  qed (use assms indexed_drop1 [of evs] in auto)
  then show ?thesis by simp
qed

lemma successor_actives_hold:
  assumes "space_ok sp" "actives_hold ifs s"
    and "get_successor_state_with_compression T ifs sp s a enabled c = Inr (Some s', c')"
  shows "actives_hold ifs s'"
  using assms(3)
proof (cases rule: successor_cases)
  case (continue evs index eid)
  from fires_actives [OF assms(1) continue(5) assms(2)] show ?thesis .
next
  case (started evs)
  from fires_actives [OF assms(1) started(7) assms(2)] show ?thesis .
next
  case (compressed evs s1 i eid)
  have "actives_hold ifs (s1\<lparr>st_todo := dict_del a (st_todo s1)\<rparr>)"
    using fires_actives [OF assms(1) compressed(7) assms(2)] by simp
  with compress_actives [OF assms(1) compressed(1) compressed(10)] fires_hcache [OF compressed(7)]
  show ?thesis by simp
qed

lemma initial_stateD:
  assumes "initial_state T ifs sp init c = Inr (Some s, c')"
  obtains (plain) asg tn where "sp_timed sp = None" "s = mk_state asg tn [] ms_empty 0 []" "c' = c"
      "if sp_temporal sp then (\<exists>n. tn = Some n \<and> (case sp_deadline sp of None \<Rightarrow> n = tn_empty T
         | Some d \<Rightarrow> tn_interval T StartPlan EndPlan d d (tn_empty T) = Inr n)) else tn = None"
      "case init of Some x \<Rightarrow> asg = x | None \<Rightarrow> sp_initial sp = Some asg"
  | (timed) asg tn a evs where "sp_timed sp = Some a" "dict_get (sp_events sp) a = Some evs"
      "if sp_temporal sp then (\<exists>n. tn = Some n \<and> (case sp_deadline sp of None \<Rightarrow> n = tn_empty T
         | Some d \<Rightarrow> tn_interval T StartPlan EndPlan d d (tn_empty T) = Inr n)) else tn = None"
      "case init of Some x \<Rightarrow> asg = x | None \<Rightarrow> sp_initial sp = Some asg"
      "holds ifs asg (ev_conditions (snd (evs ! 0))) = Inr True"
      "c' = (if sp_temporal sp then c + 1 + length evs else c)"
      "fires T ifs sp (mk_state asg tn [] ms_empty 0 []) (mk_state asg None
         (if sp_temporal sp \<and> length evs > 1 then [(a, (1, c + 2))] else []) ms_empty 0 [])
         a 0 (if sp_temporal sp then c + 1 else c)
         (if sp_temporal sp then Some (a, c, evs, True) else None) s"
proof -
  from assms obtain asg tn where
    tn: "if sp_temporal sp then (\<exists>n. tn = Some n \<and> (case sp_deadline sp of None \<Rightarrow> n = tn_empty T
         | Some d \<Rightarrow> tn_interval T StartPlan EndPlan d d (tn_empty T) = Inr n)) else tn = None"
    and asg: "case init of Some x \<Rightarrow> asg = x | None \<Rightarrow> sp_initial sp = Some asg"
    and s: "(if sp_timed sp = None then Inr (Some (mk_state asg tn [] ms_empty 0 []), c)
        else open_timed_action T ifs sp (mk_state asg tn [] ms_empty 0 []) c) = Inr (Some s, c')"
    by (auto simp: initial_state_def Let_def rbind_eq_Inr split: if_splits option.splits)
  show thesis
  proof (cases "sp_timed sp")
    case None
    with s tn asg show thesis by (intro plain [of asg tn]) auto
  next
    case (Some a)
    with s obtain evs te where evs: "dict_get (sp_events sp) a = Some evs" "py_nth evs 0 = Inr te"
      and cond: "holds ifs asg (ev_conditions (snd te)) = Inr True"
      and eisc: "eisc_hold ifs sp a 0 (mk_state asg tn [] ms_empty 0 []) = Inr True"
      and opened: "open_action T ifs sp (mk_state asg tn [] ms_empty 0 [])
        (clone (mk_state asg tn [] ms_empty 0 []) False) a evs True c = Inr (Some s, c')"
      by (auto simp: open_timed_action_def rbind_eq_Inr mk_state_def split: if_splits)
    have te: "evs ! 0 = te" using evs(2) py_nth_int_iff [of evs 0 te] by auto
    show thesis
      using open_actionD [OF opened evs(1) eisc] Some evs te cond tn asg
      by (intro timed [of a evs tn asg]) (auto simp: clone_def mk_state_def ms_clone_def split: if_splits)
  qed
qed

lemma initial_actives_hold:
  assumes "space_ok sp" "initial_state T ifs sp init c = Inr (Some s, c')"
  shows "actives_hold ifs s"
proof -
  have empty: "actives_hold ifs (mk_state asg tn todo ms_empty g p)" for asg todo g p and tn :: "'a option"
    by (simp add: actives_hold_def mk_state_def) (simp add: ms_iter_def ms_empty_def)
  from assms(2) show ?thesis
  proof (cases rule: initial_stateD)
    case plain
    with empty show ?thesis by simp
  next
    case timed
    from fires_actives [OF assms(1) timed(7) empty] show ?thesis .
  qed
qed

end
