(* ===== verification/Temporal_Space.thy ===== *)
theory Temporal_Space
  imports Search_Space_Facts
begin

text \<open>
  What the search space keeps true of the temporal network of its states, for any network
  that meets the contract \<open>temporal_network\<close>: it is consistent, in every schedule the
  events of the path come in the order of the path, two interfering ones at least
  \<open>epsilon\<close> apart, and all pending events after them, and the instance numbers never make
  two time points collide.
\<close>

locale network_space =
  temporal_network "tn_empty T" "tn_add T" "tn_interval T" "tn_check T"
    "\<lambda>n. dict_get (tn_distances T n)" carries
  for T :: "'n tn_ops" and carries :: "'n \<Rightarrow> tp constraint set \<Rightarrow> bool"

interpretation rustamer_network: network_space delta_stn_ops stn_carries
proof -
  have "(stn_distance :: tp stn \<Rightarrow> _) = (\<lambda>n. dict_get (stn_distances n))" by (simp add: stn_distance_def fun_eq_iff)
  then have "temporal_network (stn_new 0) stn_add stn_add_interval stn_check
      (\<lambda>n. dict_get (stn_distances n)) (stn_carries :: tp stn \<Rightarrow> _)"
    using delta_stn.temporal_network_axioms by simp
  then show "network_space delta_stn_ops stn_carries"
    by (simp add: network_space_def delta_stn_ops_def)
qed


section \<open>What is kept\<close>

text \<open>The events as the encoder names them: by their action and their position.\<close>

definition events_named :: "sspace \<Rightarrow> bool" where
  "events_named sp \<longleftrightarrow> (\<forall>a evs i. dict_get (sp_events sp) a = Some evs \<longrightarrow> i < length evs \<longrightarrow>
     ev_action (snd (evs ! i)) = a \<and> ev_pos (snd (evs ! i)) = i)"

lemma events_namedD:
  assumes "events_named sp" "dict_get (sp_events sp) a = Some evs" "i < length evs"
  shows "ev_action (snd (evs ! i)) = a" "ev_pos (snd (evs ! i)) = i"
  using assms unfolding events_named_def by blast+

fun entry_ref :: "path_entry \<Rightarrow> event_ref" where
  "entry_ref (a, pos, i) = (a, pos)"

text \<open>Order and separation of the path in a schedule; \<open>later\<close> relates one event to an older one.\<close>

definition later :: "sspace \<Rightarrow> (tp \<Rightarrow> rat) \<Rightarrow> event_ref \<Rightarrow> tp \<Rightarrow> path_entry \<Rightarrow> bool" where
  "later sp \<tau> r t p \<longleftrightarrow> \<tau> (entry_tp p) \<le> \<tau> t \<and>
     (mutex (sp_event_fluents sp) r (entry_ref p) = Inr True \<longrightarrow> \<tau> (entry_tp p) + sp_epsilon sp \<le> \<tau> t)"

definition path_ordered :: "sspace \<Rightarrow> (tp \<Rightarrow> rat) \<Rightarrow> path_entry list \<Rightarrow> bool" where
  "path_ordered sp \<tau> path \<longleftrightarrow> (\<forall>i j. i < j \<longrightarrow> j < length path \<longrightarrow>
     later sp \<tau> (entry_ref (path ! j)) (entry_tp (path ! j)) (path ! i))"

text \<open>The time points of the events that are still pending.\<close>

definition pending_tps :: "sspace \<Rightarrow> (action, nat \<times> nat) dict \<Rightarrow> tp set" where
  "pending_tps sp todo = (\<Union>(a, i, eid) \<in> set todo. case dict_get (sp_events sp) a of None \<Rightarrow> {}
     | Some evs \<Rightarrow> (\<lambda>j. EventTP a (i + j) (eid + j)) ` {0..<length (drop i evs)})"

text \<open>Instance numbers: below the counter, those of actions (\<open>A\<close>) apart from those of events.\<close>

text \<open>The event at \<open>t\<close> comes before a time point, and epsilon before an interfering event.\<close>

definition before :: "sspace \<Rightarrow> (tp \<Rightarrow> rat) \<Rightarrow> event_ref \<Rightarrow> tp \<Rightarrow> tp \<Rightarrow> bool" where
  "before sp \<tau> r t v \<longleftrightarrow> \<tau> t \<le> \<tau> v \<and> (\<forall>a pos i. v = EventTP a pos i \<longrightarrow>
     mutex (sp_event_fluents sp) r (a, pos) = Inr True \<longrightarrow> \<tau> t + sp_epsilon sp \<le> \<tau> v)"

lemma beforeD: "before sp \<tau> r t v \<Longrightarrow> \<tau> t \<le> \<tau> v"
  by (simp add: before_def)

fun numbered :: "nat set \<Rightarrow> nat \<Rightarrow> tp \<Rightarrow> bool" where
  "numbered A c (ActionTP a b i) = (i \<in> A \<and> i < c)"
| "numbered A c (EventTP a pos i) = (i \<notin> A \<and> i < c)"
| "numbered A c _ = True"

definition deadline_edges :: "sspace \<Rightarrow> tp constraint set" where
  "deadline_edges sp = (case sp_deadline sp of None \<Rightarrow> {}
     | Some d \<Rightarrow> {(EndPlan, StartPlan, d), (StartPlan, EndPlan, - d)})"

definition path_kept :: "sspace \<Rightarrow> tp constraint set \<Rightarrow> path_entry list \<Rightarrow> (action, nat \<times> nat) dict \<Rightarrow> bool" where
  "path_kept sp C path todo \<longleftrightarrow> deadline_edges sp \<subseteq> C \<and> entry_tp ` set path \<subseteq> cnodes C \<and>
     (\<forall>\<tau>. schedules \<tau> C \<longrightarrow> path_ordered sp \<tau> path \<and>
        (\<forall>p \<in> set path. \<forall>v \<in> pending_tps sp todo. \<tau> (entry_tp p) \<le> \<tau> v))"

lemma path_ordered_snoc:
  "path_ordered sp \<tau> (path @ [p]) \<longleftrightarrow>
     path_ordered sp \<tau> path \<and> (\<forall>q \<in> set path. later sp \<tau> (entry_ref p) (entry_tp p) q)"
proof
  assume ord: "path_ordered sp \<tau> (path @ [p])"
  have "later sp \<tau> (entry_ref p) (entry_tp p) (path ! i)" if "i < length path" for i
    using ord [unfolded path_ordered_def, rule_format, of i "length path"] that
    by (simp add: nth_append)
  moreover have "path_ordered sp \<tau> path"
    unfolding path_ordered_def
  proof (intro allI impI)
    fix i j assume "i < j" "j < length path"
    with ord [unfolded path_ordered_def, rule_format, of i j]
    show "later sp \<tau> (entry_ref (path ! j)) (entry_tp (path ! j)) (path ! i)"
      by (simp add: nth_append)
  qed
  ultimately show "path_ordered sp \<tau> path \<and> (\<forall>q \<in> set path. later sp \<tau> (entry_ref p) (entry_tp p) q)"
    by (simp add: all_set_conv_all_nth)
next
  assume both: "path_ordered sp \<tau> path \<and> (\<forall>q \<in> set path. later sp \<tau> (entry_ref p) (entry_tp p) q)"
  show "path_ordered sp \<tau> (path @ [p])"
    unfolding path_ordered_def
  proof (intro allI impI)
    fix i j assume ij: "i < j" "j < length (path @ [p])"
    show "later sp \<tau> (entry_ref ((path @ [p]) ! j)) (entry_tp ((path @ [p]) ! j)) ((path @ [p]) ! i)"
    proof (cases "j < length path")
      case True
      with both [THEN conjunct1, unfolded path_ordered_def, rule_format, of i j] ij
      show ?thesis by (simp add: nth_append)
    next
      case False
      with ij have "j = length path" "i < length path" by auto
      with both [THEN conjunct2] show ?thesis by (simp add: nth_append)
    qed
  qed
qed

lemma path_ordered_last:
  assumes "path_ordered sp \<tau> path" "q \<in> set path" "path \<noteq> []"
  shows "\<tau> (entry_tp q) \<le> \<tau> (entry_tp (last path))"
  using assms by (cases path rule: rev_cases) (auto simp: path_ordered_snoc later_def)

lemma path_ordered_butlast: "path_ordered sp \<tau> (path @ [p]) \<Longrightarrow> path_ordered sp \<tau> path"
  by (simp add: path_ordered_snoc)


section \<open>The edges of a new event\<close>

context network_space
begin

lemma past_edges_order:
  assumes "past_edges T sp r t pred ps n = Inr n'" "carries n C"
  shows "\<exists>C'. carries n' C' \<and> C \<subseteq> C' \<and>
    cnodes C' \<subseteq> cnodes C \<union> (if ps = [] then {} else insert t (entry_tp ` set ps)) \<and>
    (\<forall>\<tau>. schedules \<tau> C' \<longrightarrow> 0 \<le> sp_epsilon sp \<longrightarrow> path_ordered sp \<tau> (rev ps) \<longrightarrow>
       (\<not> pred \<longrightarrow> (\<forall>p \<in> set ps. \<tau> (entry_tp p) \<le> \<tau> t)) \<longrightarrow> (\<forall>p \<in> set ps. later sp \<tau> r t p)) \<and>
    (pred \<longrightarrow> ps \<noteq> [] \<longrightarrow> t \<in> cnodes C')"
  using assms
proof (induction ps arbitrary: pred n C)
  case Nil
  then show ?case by (intro exI [of _ C]) auto
next
  case (Cons p ps)
  obtain a pos i where p: "p = (a, pos, i)" by (cases p) auto
  from Cons.prems(1) p obtain m where m: "mutex (sp_event_fluents sp) r (a, pos) = Inr m"
    by (auto simp: rbind_eq_Inr)
  have older: "\<tau> (entry_tp q) \<le> \<tau> (entry_tp p)"
    if "path_ordered sp \<tau> (rev (p # ps))" "q \<in> set ps" for \<tau> q
    using that by (auto simp: path_ordered_snoc later_def)
  show ?case
  proof (cases m)
    case True
    with Cons.prems p m have "tn_add T (entry_tp p) t (- sp_epsilon sp) n = Inr n'" by simp
    note C' = add_carries [OF Cons.prems(2) this]
    have "later sp \<tau> r t q"
      if "\<tau> (entry_tp p) - \<tau> t \<le> - sp_epsilon sp" "0 \<le> sp_epsilon sp"
        "path_ordered sp \<tau> (rev (p # ps))" "q \<in> set (p # ps)" for \<tau> q
      using that older [OF that(3), of q] by (auto simp: later_def)
    with C' show ?thesis
      by (intro exI [of _ "insert (entry_tp p, t, - sp_epsilon sp) C"]) auto
  next
    case False
    define C1 where "C1 = (if pred then insert (entry_tp p, t, 0) C else C)"
    from Cons.prems p m False obtain n1 where
      n1: "(if pred then tn_add T (EventTP a pos i) t 0 n else Inr n) = Inr n1"
      and rest: "past_edges T sp r t False ps n1 = Inr n'"
      by (auto simp: rbind_eq_Inr)
    have C1: "carries n1 C1"
      using n1 Cons.prems(2) add_carries p by (auto simp: C1_def split: if_splits)
    from Cons.IH [OF rest C1] obtain C' where C': "carries n' C'" "C1 \<subseteq> C'"
      "cnodes C' \<subseteq> cnodes C1 \<union> (if ps = [] then {} else insert t (entry_tp ` set ps))"
      "\<And>\<tau>. schedules \<tau> C' \<Longrightarrow> 0 \<le> sp_epsilon sp \<Longrightarrow> path_ordered sp \<tau> (rev ps) \<Longrightarrow>
        \<forall>p \<in> set ps. \<tau> (entry_tp p) \<le> \<tau> t \<Longrightarrow> \<forall>p \<in> set ps. later sp \<tau> r t p"
      by auto
    have "\<forall>q \<in> set (p # ps). later sp \<tau> r t q"
      if \<tau>: "schedules \<tau> C'" "0 \<le> sp_epsilon sp" "path_ordered sp \<tau> (rev (p # ps))"
        "\<not> pred \<longrightarrow> (\<forall>p \<in> set (p # ps). \<tau> (entry_tp p) \<le> \<tau> t)" for \<tau>
    proof -
      have first: "\<tau> (entry_tp p) \<le> \<tau> t"
        using schedules_mono [OF \<tau>(1) C'(2)] \<tau>(4) by (auto simp: C1_def split: if_splits)
      then have "\<forall>q \<in> set ps. \<tau> (entry_tp q) \<le> \<tau> t"
        using older [OF \<tau>(3)] by force
      moreover have "path_ordered sp \<tau> (rev ps)" using \<tau>(3) by (auto dest: path_ordered_butlast)
      ultimately have "\<forall>q \<in> set ps. later sp \<tau> r t q" using C'(4) \<tau>(1,2) by blast
      with first m False p show ?thesis by (auto simp: later_def)
    qed
    moreover have "cnodes C' \<subseteq> cnodes C \<union> insert t (entry_tp ` set (p # ps))"
      using C'(3) by (auto simp: C1_def split: if_splits)
    moreover have "pred \<longrightarrow> t \<in> cnodes C'"
      using cnodes_mono [OF C'(2)] by (auto simp: C1_def)
    moreover have "C \<subseteq> C'" using C'(2) by (auto simp: C1_def split: if_splits)
    ultimately show ?thesis using C'(1) by (intro exI [of _ C']) auto
  qed
qed

lemma todo_edge_row:
  assumes "rfold (todo_edge T sp r t (a, i, eid)) js n = Inr n'" "carries n C"
  shows "\<exists>C'. carries n' C' \<and> C \<subseteq> C' \<and>
    cnodes C' \<subseteq> cnodes C \<union> insert t ((\<lambda>j. EventTP a (i + j) (eid + j)) ` set js) \<and>
    (\<forall>\<tau>. schedules \<tau> C' \<longrightarrow> 0 \<le> sp_epsilon sp \<longrightarrow> (\<forall>j \<in> set js. before sp \<tau> r t (EventTP a (i + j) (eid + j))))"
  using assms
proof (induction js arbitrary: n C)
  case Nil
  then show ?case by (intro exI [of _ C]) auto
next
  case (Cons j js)
  from Cons.prems(1) obtain n1 where step: "todo_edge T sp r t (a, i, eid) j n = Inr n1"
    and rest: "rfold (todo_edge T sp r t (a, i, eid)) js n1 = Inr n'"
    by (auto simp: rbind_eq_Inr)
  from step obtain m where m: "mutex (sp_event_fluents sp) r (a, i + j) = Inr m" and
    n1: "tn_add T t (EventTP a (i + j) (eid + j)) (if m then - sp_epsilon sp else 0) n = Inr n1"
    by (auto simp: rbind_eq_Inr todo_edge_def)
  note C1 = add_carries [OF Cons.prems(2) n1]
  from Cons.IH [OF rest C1] obtain C' where C': "carries n' C'"
    "insert (t, EventTP a (i + j) (eid + j), if m then - sp_epsilon sp else 0) C \<subseteq> C'"
    "cnodes C' \<subseteq> cnodes (insert (t, EventTP a (i + j) (eid + j), if m then - sp_epsilon sp else 0) C) \<union>
       insert t ((\<lambda>j. EventTP a (i + j) (eid + j)) ` set js)"
    "\<forall>\<tau>. schedules \<tau> C' \<longrightarrow> 0 \<le> sp_epsilon sp \<longrightarrow> (\<forall>j \<in> set js. before sp \<tau> r t (EventTP a (i + j) (eid + j)))"
    by blast
  have "before sp \<tau> r t (EventTP a (i + j) (eid + j))" if "schedules \<tau> C'" "0 \<le> sp_epsilon sp" for \<tau>
    using schedules_mono [OF that(1) C'(2)] that(2) m by (auto simp: before_def split: if_splits)
  with C' show ?case by (intro exI [of _ C']) auto
qed

lemma todo_edges_order:
  assumes "todo_edges T sp r t todo n = Inr n'" "carries n C"
  shows "\<exists>C'. carries n' C' \<and> C \<subseteq> C' \<and> cnodes C' \<subseteq> cnodes C \<union> insert t (pending_tps sp todo) \<and>
    (\<forall>\<tau>. schedules \<tau> C' \<longrightarrow> 0 \<le> sp_epsilon sp \<longrightarrow> (\<forall>v \<in> pending_tps sp todo. before sp \<tau> r t v))"
  using assms
proof (induction todo arbitrary: n C)
  case Nil
  then show ?case by (intro exI [of _ C]) (auto simp: todo_edges_def pending_tps_def)
next
  case (Cons p todo)
  obtain a i eid where p: "p = (a, i, eid)" by (cases p) auto
  from Cons.prems(1) p obtain evs n1 where evs: "dict_get (sp_events sp) a = Some evs"
    and row: "rfold (todo_edge T sp r t (a, i, eid)) [0..<length (drop i evs)] n = Inr n1"
    and rest: "todo_edges T sp r t todo n1 = Inr n'"
    unfolding todo_edges_def by (auto simp: rbind_eq_Inr)
  let ?new = "(\<lambda>j. EventTP a (i + j) (eid + j)) ` set [0..<length (drop i evs)]"
  have pend: "pending_tps sp (p # todo) = ?new \<union> pending_tps sp todo"
    using evs p by (simp add: pending_tps_def)
  from todo_edge_row [OF row Cons.prems(2)] obtain C1 where C1: "carries n1 C1" "C \<subseteq> C1"
    "cnodes C1 \<subseteq> cnodes C \<union> insert t ?new"
    "\<And>\<tau>. schedules \<tau> C1 \<Longrightarrow> 0 \<le> sp_epsilon sp \<Longrightarrow> \<forall>v \<in> ?new. before sp \<tau> r t v"
    by auto
  from Cons.IH [OF rest C1(1)] obtain C' where C': "carries n' C'" "C1 \<subseteq> C'"
    "cnodes C' \<subseteq> cnodes C1 \<union> insert t (pending_tps sp todo)"
    "\<And>\<tau>. schedules \<tau> C' \<Longrightarrow> 0 \<le> sp_epsilon sp \<Longrightarrow> \<forall>v \<in> pending_tps sp todo. before sp \<tau> r t v"
    by blast
  have "\<forall>v \<in> pending_tps sp (p # todo). before sp \<tau> r t v"
    if "schedules \<tau> C'" "0 \<le> sp_epsilon sp" for \<tau>
    using C1(4) [OF schedules_mono [OF that(1) C'(2)] that(2)] C'(4) [OF that] pend by blast
  moreover have "cnodes C' \<subseteq> cnodes C \<union> insert t (pending_tps sp (p # todo))"
    using C1(3) C'(3) pend by blast
  ultimately show ?case using C1(2) C'(1,2) by blast
qed

end


section \<open>The edges of an opened action\<close>

definition anchor_edges :: "tp \<Rightarrow> tp \<Rightarrow> nat \<times> timed_event \<Rightarrow> tp constraint set" where
  "anchor_edges start fin ite = (case ite of (eid, t, e) \<Rightarrow>
     let ev = EventTP (ev_action e) (ev_pos e) eid; anchor = (if is_from_start t then start else fin)
     in {(ev, anchor, tm_delay t), (anchor, ev, - tm_delay t)})"

definition opening_edges :: "sspace \<Rightarrow> rat \<times> rat \<Rightarrow> pending \<Rightarrow> tp constraint set" where
  "opening_edges sp bounds p = (case (p, bounds) of ((a, iid, evs, pin), (lower, upper)) \<Rightarrow>
     let start = ActionTP a True iid; fin = ActionTP a False iid in
     {(fin, start, upper), (start, fin, - lower), (StartPlan, start, 0), (fin, EndPlan, - sp_epsilon sp)} \<union>
     (if pin then {(start, StartPlan, 0)} else {}) \<union>
     (\<Union>ite \<in> set (map (\<lambda>(k, te). (iid + 1 + k, te)) (indexed evs)). anchor_edges start fin ite))"

context network_space
begin

lemma event_intervals_carry:
  assumes "rfold (event_interval T start fin) ites n = Inr n'" "carries n C"
  shows "carries n' (C \<union> (\<Union>ite \<in> set ites. anchor_edges start fin ite))"
  using assms
proof (induction ites arbitrary: n C)
  case (Cons ite ites)
  then obtain n1 where n1: "event_interval T start fin ite n = Inr n1"
    and rest: "rfold (event_interval T start fin) ites n1 = Inr n'"
    by (auto simp: rbind_eq_Inr)
  obtain eid t e where ite: "ite = (eid, t, e)" by (cases ite) auto
  have "carries n1 (C \<union> anchor_edges start fin ite)"
    using n1 Cons.prems(2) interval_carries
    by (fastforce simp: event_interval_def anchor_edges_def ite Let_def split: if_splits)
  from Cons.IH [OF rest this] show ?case by (simp add: Un_assoc)
qed simp

lemma opening_constraints_carry:
  assumes "add_opening_constraints T ifs sp s (a, iid, evs, pin) n = Inr n'" "carries n C"
  shows "\<exists>bounds. duration_bounds ifs sp (st_assignments s) (sp_durations sp ! act_idx a) = Inr bounds \<and>
    carries n' (C \<union> opening_edges sp bounds (a, iid, evs, pin))"
proof -
  let ?start = "ActionTP a True iid" and ?fin = "ActionTP a False iid"
  from assms(1) obtain lower upper n1 n2 n3 where
    b: "duration_bounds ifs sp (st_assignments s) (sp_durations sp ! act_idx a) = Inr (lower, upper)"
    and n1: "tn_interval T ?start ?fin lower upper n = Inr n1"
    and n2: "(if pin then tn_interval T StartPlan ?start 0 0 n1 else tn_add T StartPlan ?start 0 n1) = Inr n2"
    and n3: "tn_add T ?fin EndPlan (- sp_epsilon sp) n2 = Inr n3"
    and n': "rfold (event_interval T ?start ?fin)
      (map (\<lambda>(k, te). (iid + 1 + k, te)) (indexed evs)) n3 = Inr n'"
    by (auto simp: add_opening_constraints_def Let_def rbind_eq_Inr py_nth_int_iff)
  let ?C1 = "insert (?fin, ?start, upper) (insert (?start, ?fin, - lower) C)"
  let ?C2 = "(if pin then {(?start, StartPlan, 0)} else {}) \<union> insert (StartPlan, ?start, 0) ?C1"
  have "carries n1 ?C1" by (rule interval_carries [OF assms(2) n1])
  then have "carries n2 ?C2"
    using n2 interval_carries [of n1 ?C1 StartPlan ?start 0 0 n2]
      add_carries [of n1 ?C1 StartPlan ?start 0 n2]
    by (simp add: insert_commute split: if_splits)
  then have "carries n3 (insert (?fin, EndPlan, - sp_epsilon sp) ?C2)"
    by (rule add_carries) (rule n3)
  from event_intervals_carry [OF n' this]
  have "carries n' (C \<union> opening_edges sp (lower, upper) (a, iid, evs, pin))"
    by (simp add: opening_edges_def Let_def insert_commute Un_commute Un_left_commute Un_assoc)
  with b show ?thesis by blast
qed

end

lemma opening_nodes:
  assumes "events_named sp" "dict_get (sp_events sp) a = Some evs"
  shows "cnodes (opening_edges sp bounds (a, iid, evs, pin)) \<subseteq>
    {StartPlan, EndPlan, ActionTP a True iid, ActionTP a False iid} \<union>
    (\<lambda>k. EventTP a k (iid + 1 + k)) ` {0..<length evs}"
proof -
  have "cnodes (anchor_edges start fin (iid + 1 + k, evs ! k)) \<subseteq> {start, fin, EventTP a k (iid + 1 + k)}"
    if "k < length evs" for k start fin
    using events_namedD [OF assms that] by (cases "evs ! k") (auto simp: anchor_edges_def Let_def)
  then show ?thesis
    by (cases bounds)
      (fastforce simp: opening_edges_def Let_def cnodes_def indexed_def in_set_zip split: if_splits)
qed


section \<open>Every successor keeps the network in order\<close>

definition network_kept ::
    "('n \<Rightarrow> tp constraint set \<Rightarrow> bool) \<Rightarrow> sspace \<Rightarrow> nat set \<Rightarrow> nat \<Rightarrow> 'n \<Rightarrow> path_entry list \<Rightarrow>
     (action, nat \<times> nat) dict \<Rightarrow> bool" where
  "network_kept carries sp A c n path todo \<longleftrightarrow> A \<subseteq> {..<c} \<and>
     (\<exists>C. carries n C \<and> path_kept sp C path todo \<and> (\<forall>v \<in> cnodes C. numbered A c v)) \<and>
     (\<forall>v \<in> pending_tps sp todo. numbered A c v) \<and> dict_wf todo \<and> (todo \<noteq> [] \<longrightarrow> path \<noteq> [])"

definition network_at ::
    "('n \<Rightarrow> tp constraint set \<Rightarrow> bool) \<Rightarrow> sspace \<Rightarrow> nat set \<Rightarrow> nat \<Rightarrow> 'n \<Rightarrow> tp constraint set \<Rightarrow>
     path_entry list \<Rightarrow> (action, nat \<times> nat) dict \<Rightarrow> bool" where
  "network_at carries sp A c n C path todo \<longleftrightarrow> A \<subseteq> {..<c} \<and>
     carries n C \<and> path_kept sp C path todo \<and> (\<forall>v \<in> cnodes C. numbered A c v) \<and>
     (\<forall>v \<in> pending_tps sp todo. numbered A c v) \<and> dict_wf todo \<and> (todo \<noteq> [] \<longrightarrow> path \<noteq> [])"

lemma network_kept_at: "network_kept carries sp A c n path todo \<longleftrightarrow> (\<exists>C. network_at carries sp A c n C path todo)"
  by (auto simp: network_kept_def network_at_def)

lemma path_kept_no_todo: "path_kept sp C path todo \<Longrightarrow> path_kept sp C path []"
  by (simp add: path_kept_def pending_tps_def)

lemma path_kept_mono:
  assumes "path_kept sp C path todo" "C \<subseteq> C'"
  shows "path_kept sp C' path todo"
  using assms schedules_mono [OF _ assms(2)] cnodes_mono [OF assms(2)]
  unfolding path_kept_def by blast

context network_space
begin

lemma fire_kept:
  assumes eps: "0 \<le> sp_epsilon sp"
    and past: "past_edges T sp (entry_ref p) (entry_tp p) True (rev path) n1 = Inr n2"
    and todo: "todo_edges T sp (entry_ref p) (entry_tp p) todo n2 = Inr n3"
    and C: "carries n1 C" "path_kept sp C path []" "\<forall>v \<in> cnodes C. numbered A c v"
    and num: "numbered A c (entry_tp p)" "\<forall>v \<in> pending_tps sp todo. numbered A c v"
    and known: "entry_tp p \<in> cnodes C \<or> path \<noteq> []"
  shows "\<exists>C'. carries n3 C' \<and> C \<subseteq> C' \<and> path_kept sp C' (path @ [p]) todo \<and>
    (\<forall>v \<in> cnodes C'. numbered A c v) \<and>
    (\<forall>\<tau>. schedules \<tau> C' \<longrightarrow> (\<forall>v \<in> pending_tps sp todo. before sp \<tau> (entry_ref p) (entry_tp p) v))"
proof -
  have path_nodes: "entry_tp ` set path \<subseteq> cnodes C" using C(2) by (simp add: path_kept_def)
  from past_edges_order [OF past C(1)] obtain C2 where C2: "carries n2 C2" "C \<subseteq> C2"
    "cnodes C2 \<subseteq> cnodes C \<union> insert (entry_tp p) (entry_tp ` set path)"
    "\<And>\<tau>. schedules \<tau> C2 \<Longrightarrow> path_ordered sp \<tau> path \<Longrightarrow>
      \<forall>q \<in> set path. later sp \<tau> (entry_ref p) (entry_tp p) q"
    "path \<noteq> [] \<longrightarrow> entry_tp p \<in> cnodes C2"
    using eps by (auto split: if_splits)
  from todo_edges_order [OF todo C2(1)] eps obtain C3 where C3: "carries n3 C3" "C2 \<subseteq> C3"
    "cnodes C3 \<subseteq> cnodes C2 \<union> insert (entry_tp p) (pending_tps sp todo)"
    "\<And>\<tau>. schedules \<tau> C3 \<Longrightarrow> \<forall>v \<in> pending_tps sp todo. before sp \<tau> (entry_ref p) (entry_tp p) v"
    by blast
  have "path_kept sp C3 (path @ [p]) todo"
    unfolding path_kept_def
  proof (intro conjI allI impI)
    show "deadline_edges sp \<subseteq> C3" using C(2) C2(2) C3(2) by (auto simp: path_kept_def)
    show "entry_tp ` set (path @ [p]) \<subseteq> cnodes C3"
      using path_nodes known C2(5) cnodes_mono [OF C2(2)] cnodes_mono [OF C3(2)] by auto
  next
    fix \<tau> assume \<tau>: "schedules \<tau> C3"
    then have "schedules \<tau> C2" "schedules \<tau> C"
      using schedules_mono C2(2) C3(2) by blast+
    then have ord: "path_ordered sp \<tau> path" and new: "\<forall>q \<in> set path. later sp \<tau> (entry_ref p) (entry_tp p) q"
      using C(2) C2(4) by (auto simp: path_kept_def)
    show "path_ordered sp \<tau> (path @ [p])" using ord new by (simp add: path_ordered_snoc)
    have "\<tau> (entry_tp q) \<le> \<tau> v" if "q \<in> set (path @ [p])" "v \<in> pending_tps sp todo" for q v
    proof -
      have "\<tau> (entry_tp q) \<le> \<tau> (entry_tp p)" using new that(1) by (auto simp: later_def)
      with C3(4) [OF \<tau>] that(2) beforeD show ?thesis by fastforce
    qed
    then show "\<forall>q \<in> set (path @ [p]). \<forall>v \<in> pending_tps sp todo. \<tau> (entry_tp q) \<le> \<tau> v" by blast
  qed
  moreover have "\<forall>v \<in> cnodes C3. numbered A c v"
    using C3(3) C2(3) C(3) num path_nodes by blast
  ultimately show ?thesis using C3(1,4) C2(2) C3(2) by blast
qed

lemma numbered_mono: "numbered A c v \<Longrightarrow> c \<le> c' \<Longrightarrow> numbered (insert c A) (c' + 1) v"
  by (cases v) auto

lemma network_kept_mono:
  "network_kept carries sp A c n path todo \<Longrightarrow> c \<le> c' \<Longrightarrow> network_kept carries sp A c' n path todo"
proof -
  have "numbered A c v \<Longrightarrow> c \<le> c' \<Longrightarrow> numbered A c' v" for v by (cases v) auto
  then show "network_kept carries sp A c n path todo \<Longrightarrow> c \<le> c' \<Longrightarrow> ?thesis"
    unfolding network_kept_def by fastforce
qed

text \<open>Firing the next event of an action that is already open.\<close>

lemma fires_at:
  assumes eps: "0 \<le> sp_epsilon sp" and temporal: "sp_temporal sp" and named: "events_named sp"
    and fires: "fires T ifs sp s new a index eid None s'"
    and base: "(case st_tn new of Some n \<Rightarrow> Some n | None \<Rightarrow> st_tn s) = Some n"
    and kept: "network_at carries sp A c n C (st_path s) todo"
    and path: "st_path s \<noteq> []"
    and num: "eid \<notin> A" "eid < c" "\<forall>v \<in> pending_tps sp (st_todo new). numbered A c v"
    and wf: "dict_wf (st_todo new)"
  shows "\<exists>n' C'. st_tn s' = Some n' \<and> tn_check T n' \<and> st_todo s' = st_todo new \<and>
    st_path s' = st_path s @ [(a, index, eid)] \<and> C \<subseteq> C' \<and>
    network_at carries sp A c n' C' (st_path s') (st_todo s') \<and>
    (\<forall>\<tau>. schedules \<tau> C' \<longrightarrow> (\<forall>v \<in> pending_tps sp (st_todo s'). before sp \<tau> (a, index) (EventTP a index eid) v))"
proof -
  from fires obtain evs where evs: "dict_get (sp_events sp) a = Some evs" "index < length evs"
    and new: "st_path new = st_path s"
    and ex: "expand_event T ifs sp s new (snd (evs ! index)) index eid None = Inr (Some s')"
    by (rule firesE)
  note name = events_namedD [OF named evs]
  from ex obtain n' where s': "st_tn s' = Some n'" "tn_check T n'" "st_todo s' = st_todo new"
    "st_path s' = st_path s @ [(a, index, eid)]"
    and net: "update_network T ifs sp s (new\<lparr>st_path := st_path s', st_active := st_active s',
      st_assignments := st_assignments s'\<rparr>) (snd (evs ! index)) index eid None = Inr n'"
    by (rule expand_event_SomeD) (use temporal name new in auto)
  from net base obtain n2 where
    past: "past_edges T sp (a, index) (EventTP a index eid) True (rev (st_path s)) n = Inr n2"
    and todo: "todo_edges T sp (a, index) (EventTP a index eid) (st_todo new) n2 = Inr n'"
    using name by (auto simp: update_network_def Let_def rbind_eq_Inr split: option.splits)
  from kept have C: "carries n C" "path_kept sp C (st_path s) []" "\<forall>v \<in> cnodes C. numbered A c v"
    and A: "A \<subseteq> {..<c}"
    unfolding network_at_def using path_kept_no_todo by blast+
  have "\<exists>C'. carries n' C' \<and> C \<subseteq> C' \<and> path_kept sp C' (st_path s @ [(a, index, eid)]) (st_todo new) \<and>
    (\<forall>v \<in> cnodes C'. numbered A c v) \<and>
    (\<forall>\<tau>. schedules \<tau> C' \<longrightarrow> (\<forall>v \<in> pending_tps sp (st_todo new). before sp \<tau> (a, index) (EventTP a index eid) v))"
    using fire_kept [of sp "(a, index, eid)", OF eps _ _ C _ num(3)] past todo num path by simp
  then obtain C' where "carries n' C'" "C \<subseteq> C'" "path_kept sp C' (st_path s @ [(a, index, eid)]) (st_todo new)"
    "\<forall>v \<in> cnodes C'. numbered A c v"
    "\<forall>\<tau>. schedules \<tau> C' \<longrightarrow> (\<forall>v \<in> pending_tps sp (st_todo new). before sp \<tau> (a, index) (EventTP a index eid) v)"
    by blast
  with s' A num(3) wf show ?thesis by (intro exI [of _ n'] exI [of _ C']) (auto simp: network_at_def)
qed

lemma fires_kept:
  assumes eps: "0 \<le> sp_epsilon sp" and temporal: "sp_temporal sp" and named: "events_named sp"
    and fires: "fires T ifs sp s new a index eid None s'"
    and base: "(case st_tn new of Some n \<Rightarrow> Some n | None \<Rightarrow> st_tn s) = Some n"
    and kept: "network_kept carries sp A c n (st_path s) todo"
    and path: "st_path s \<noteq> []"
    and num: "eid \<notin> A" "eid < c" "\<forall>v \<in> pending_tps sp (st_todo new). numbered A c v"
    and wf: "dict_wf (st_todo new)"
  shows "\<exists>n'. st_tn s' = Some n' \<and> tn_check T n' \<and> st_todo s' = st_todo new \<and>
    st_path s' = st_path s @ [(a, index, eid)] \<and> network_kept carries sp A c n' (st_path s') (st_todo s')"
proof -
  from kept obtain C where "network_at carries sp A c n C (st_path s) todo"
    unfolding network_kept_at by blast
  from fires_at [OF eps temporal named fires base this path num wf] show ?thesis
    unfolding network_kept_at by blast
qed

text \<open>Opening an action, with the instance numbers from \<open>c\<close> on.\<close>

lemma fires_opening_at:
  assumes eps: "0 \<le> sp_epsilon sp" and temporal: "sp_temporal sp" and named: "events_named sp"
    and evs: "dict_get (sp_events sp) a = Some evs"
    and fires: "fires T ifs sp s new a 0 (c + 1) (Some (a, c, evs, pin)) s'"
    and base: "st_tn new = None" "st_tn s = Some n"
    and kept: "network_at carries sp A c n C (st_path s) (st_todo s)"
    and todo_new: "st_todo new = (if length evs > 1 then dict_set a (1, c + 2) (st_todo s) else st_todo s)"
    and closed: "dict_get (st_todo s) a = None"
  shows "\<exists>n' C' bounds. st_tn s' = Some n' \<and> tn_check T n' \<and> st_todo s' = st_todo new \<and>
    st_path s' = st_path s @ [(a, 0, c + 1)] \<and>
    duration_bounds ifs sp (st_assignments s) (sp_durations sp ! act_idx a) = Inr bounds \<and>
    C \<union> opening_edges sp bounds (a, c, evs, pin) \<subseteq> C' \<and>
    network_at carries sp (insert c A) (c + 1 + length evs) n' C' (st_path s') (st_todo s') \<and>
    (\<forall>\<tau>. schedules \<tau> C' \<longrightarrow> (\<forall>v \<in> pending_tps sp (st_todo s'). before sp \<tau> (a, 0) (EventTP a 0 (c + 1)) v))"
proof -
  from fires evs have ne: "0 < length evs"
    and new: "st_path new = st_path s"
    and ex: "expand_event T ifs sp s new (snd (evs ! 0)) 0 (c + 1) (Some (a, c, evs, pin)) = Inr (Some s')"
    by (auto elim: firesE)
  note name = events_namedD [OF named evs ne]
  from ex obtain n' where s': "st_tn s' = Some n'" "tn_check T n'" "st_todo s' = st_todo new"
    "st_path s' = st_path s @ [(a, 0, c + 1)]"
    and net: "update_network T ifs sp s (new\<lparr>st_path := st_path s', st_active := st_active s',
      st_assignments := st_assignments s'\<rparr>) (snd (evs ! 0)) 0 (c + 1) (Some (a, c, evs, pin)) = Inr n'"
    by (rule expand_event_SomeD) (use temporal name new in auto)
  from net base obtain n1 n2 where
    opened: "add_opening_constraints T ifs sp s (a, c, evs, pin) n = Inr n1"
    and past: "past_edges T sp (a, 0) (EventTP a 0 (c + 1)) True (rev (st_path s)) n1 = Inr n2"
    and todo: "todo_edges T sp (a, 0) (EventTP a 0 (c + 1)) (st_todo new) n2 = Inr n'"
    using name by (auto simp: update_network_def Let_def rbind_eq_Inr)
  let ?A = "insert c A" and ?c = "c + 1 + length evs"
  from kept have C: "carries n C" "path_kept sp C (st_path s) []" "\<forall>v \<in> cnodes C. numbered A c v"
    and A: "A \<subseteq> {..<c}" and pend: "\<forall>v \<in> pending_tps sp (st_todo s). numbered A c v"
    and wf: "dict_wf (st_todo s)"
    unfolding network_at_def using path_kept_no_todo by blast+
  from opening_constraints_carry [OF opened C(1)] obtain bounds where
    bounds: "duration_bounds ifs sp (st_assignments s) (sp_durations sp ! act_idx a) = Inr bounds" and
    C1: "carries n1 (C \<union> opening_edges sp bounds (a, c, evs, pin))" by blast
  let ?C1 = "C \<union> opening_edges sp bounds (a, c, evs, pin)"
  have up: "numbered A c v \<Longrightarrow> numbered ?A ?c v" for v by (cases v) auto
  have fresh: "numbered ?A ?c (EventTP a k (c + 1 + k))" if "k < length evs" for k
    using that A by auto
  have num1: "\<forall>v \<in> cnodes ?C1. numbered ?A ?c v"
  proof
    fix v assume "v \<in> cnodes ?C1"
    then have "v \<in> cnodes C \<or> v \<in> cnodes (opening_edges sp bounds (a, c, evs, pin))"
      by (auto simp: cnodes_def)
    then consider "v \<in> cnodes C" | "v \<in> {StartPlan, EndPlan, ActionTP a True c, ActionTP a False c}"
      | k where "k < length evs" "v = EventTP a k (c + 1 + k)"
      using opening_nodes [OF named evs] by fastforce
    then show "numbered ?A ?c v" using C(3) up fresh by cases auto
  qed
  have num2: "\<forall>v \<in> pending_tps sp (st_todo new). numbered ?A ?c v"
  proof
    fix v assume "v \<in> pending_tps sp (st_todo new)"
    moreover have "set (dict_set a (1, c + 2) (st_todo s)) = insert (a, 1, c + 2) (set (st_todo s))"
      using closed by (rule set_dict_set_new)
    ultimately consider "v \<in> pending_tps sp (st_todo s)"
      | j where "j < length (drop 1 evs)" "v = EventTP a (1 + j) (c + 2 + j)"
      using evs by (auto simp: todo_new pending_tps_def split: if_splits)
    then show "numbered ?A ?c v"
    proof cases
      case 1 with pend up show ?thesis by blast
    next
      case (2 j) with fresh [of "1 + j"] show ?thesis by auto
    qed
  qed
  have known: "EventTP a 0 (c + 1) \<in> cnodes ?C1"
  proof -
    have "(0, evs ! 0) \<in> set (indexed evs)" 
      using nth_mem [of 0 "indexed evs"] ne by simp
    moreover have "EventTP a 0 (c + 1) \<in> cnodes (anchor_edges st fn (c + 1 + 0, evs ! 0))" for st fn
      using name by (cases "evs ! 0") (auto simp: anchor_edges_def Let_def)
    ultimately have "EventTP a 0 (c + 1) \<in> cnodes (opening_edges sp bounds (a, c, evs, pin))"
      by (cases bounds) (force simp: opening_edges_def Let_def cnodes_def)
    then show ?thesis by (auto simp: cnodes_def)
  qed
  have "\<exists>C'. carries n' C' \<and> ?C1 \<subseteq> C' \<and> path_kept sp C' (st_path s @ [(a, 0, c + 1)]) (st_todo new) \<and>
    (\<forall>v \<in> cnodes C'. numbered ?A ?c v) \<and>
    (\<forall>\<tau>. schedules \<tau> C' \<longrightarrow> (\<forall>v \<in> pending_tps sp (st_todo new). before sp \<tau> (a, 0) (EventTP a 0 (c + 1)) v))"
    using fire_kept [of sp "(a, 0, c + 1)", OF eps _ _ C1 path_kept_mono [OF C(2)] num1 _ num2]
      past todo fresh [OF ne] known by simp
  then obtain C' where "carries n' C'" "?C1 \<subseteq> C'" "path_kept sp C' (st_path s @ [(a, 0, c + 1)]) (st_todo new)"
    "\<forall>v \<in> cnodes C'. numbered ?A ?c v"
    "\<forall>\<tau>. schedules \<tau> C' \<longrightarrow> (\<forall>v \<in> pending_tps sp (st_todo new). before sp \<tau> (a, 0) (EventTP a 0 (c + 1)) v)"
    by blast
  moreover have "dict_wf (st_todo new)" using wf by (simp add: todo_new)
  ultimately show ?thesis using s' A num2 bounds
    by (intro exI [of _ n'] exI [of _ C'] exI [of _ bounds]) (auto simp: network_at_def)
qed

lemma fires_opening_kept:
  assumes eps: "0 \<le> sp_epsilon sp" and temporal: "sp_temporal sp" and named: "events_named sp"
    and evs: "dict_get (sp_events sp) a = Some evs"
    and fires: "fires T ifs sp s new a 0 (c + 1) (Some (a, c, evs, pin)) s'"
    and base: "st_tn new = None" "st_tn s = Some n"
    and kept: "network_kept carries sp A c n (st_path s) (st_todo s)"
    and todo_new: "st_todo new = (if length evs > 1 then dict_set a (1, c + 2) (st_todo s) else st_todo s)"
    and closed: "dict_get (st_todo s) a = None"
  shows "\<exists>n'. st_tn s' = Some n' \<and> tn_check T n' \<and> st_todo s' = st_todo new \<and>
    st_path s' = st_path s @ [(a, 0, c + 1)] \<and>
    network_kept carries sp (insert c A) (c + 1 + length evs) n' (st_path s') (st_todo s')"
proof -
  from kept obtain C where "network_at carries sp A c n C (st_path s) (st_todo s)"
    unfolding network_kept_at by blast
  from fires_opening_at [OF eps temporal named evs fires base this todo_new closed] show ?thesis
    unfolding network_kept_at by blast
qed

end


section \<open>States\<close>

definition state_kept ::
    "'n tn_ops \<Rightarrow> ('n \<Rightarrow> tp constraint set \<Rightarrow> bool) \<Rightarrow> sspace \<Rightarrow> nat set \<Rightarrow> nat \<Rightarrow> 'n state \<Rightarrow> bool" where
  "state_kept T carries sp A c s \<longleftrightarrow> (\<exists>n. st_tn s = Some n \<and> tn_check T n \<and>
     network_kept carries sp A c n (st_path s) (st_todo s))"

lemma pending_tps_mono: "set d \<subseteq> set d' \<Longrightarrow> pending_tps sp d \<subseteq> pending_tps sp d'"
  by (auto simp: pending_tps_def)

text \<open>The pending time points after the first of them has been fired.\<close>

lemma pending_tps_advance:
  assumes "dict_wf todo" "dict_get todo a = Some (index, eid)" "dict_get (sp_events sp) a = Some evs"
    and "index < length evs"
  shows "pending_tps sp (if index + 1 \<ge> length evs then dict_del a todo
      else dict_set a (index + 1, eid + 1) todo) \<subseteq> pending_tps sp todo"
    and "EventTP a index eid \<in> pending_tps sp todo"
proof -
  have mem: "(a, index, eid) \<in> set todo" using assms(2) by (rule map_of_SomeD)
  then have tps: "EventTP a (index + j) (eid + j) \<in> pending_tps sp todo" if "j < length evs - index" for j
    using assms(3) that by (force simp: pending_tps_def)
  from tps [of 0] assms(4) show "EventTP a index eid \<in> pending_tps sp todo" by simp
  show "pending_tps sp (if index + 1 \<ge> length evs then dict_del a todo
      else dict_set a (index + 1, eid + 1) todo) \<subseteq> pending_tps sp todo"
  proof (cases "index + 1 \<ge> length evs")
    case True
    have "pending_tps sp (dict_del a todo) \<subseteq> pending_tps sp todo"
      by (rule pending_tps_mono) (auto simp: set_dict_del)
    with True show ?thesis by simp
  next
    case False
    have "pending_tps sp (dict_set a (index + 1, eid + 1) todo) \<subseteq>
      (\<lambda>j. EventTP a (index + 1 + j) (eid + 1 + j)) ` {0..<length (drop (index + 1) evs)} \<union>
      pending_tps sp todo"
      using assms(3) by (auto simp: pending_tps_def set_dict_set [OF assms(1)])
    moreover have "EventTP a (index + 1 + j) (eid + 1 + j) \<in> pending_tps sp todo"
      if "j < length (drop (index + 1) evs)" for j
      using tps [of "1 + j"] that by simp
    ultimately show ?thesis using False by auto
  qed
qed

lemma path_kept_fewer:
  assumes "path_kept sp C path todo" "pending_tps sp todo' \<subseteq> pending_tps sp todo"
  shows "path_kept sp C path todo'"
  using assms unfolding path_kept_def by blast

lemma network_kept_fewer:
  assumes "network_kept carries sp A c n path todo" "pending_tps sp todo' \<subseteq> pending_tps sp todo"
    and "dict_wf todo'" "todo' \<noteq> [] \<longrightarrow> path \<noteq> []"
  shows "network_kept carries sp A c n path todo'"
  using assms path_kept_fewer [OF _ assms(2)] unfolding network_kept_def by blast

context network_space
begin

lemma compress_kept:
  assumes eps: "0 \<le> sp_epsilon sp" and temporal: "sp_temporal sp" and named: "events_named sp"
    and evs: "dict_get (sp_events sp) a = Some evs"
    and run: "compress T ifs sp a (drop 1 (indexed evs)) eid s = Inr (Some s')"
    and kept: "state_kept T carries sp A c s" "st_path s \<noteq> []" "st_hcache s = []"
    and ids: "\<forall>i \<in> A. i < eid" "eid + (length evs - 1) \<le> c"
  shows "state_kept T carries sp A c s'"
proof -
  define I where "I ies k t \<longleftrightarrow> state_kept T carries sp A c t \<and> st_path t \<noteq> [] \<and> st_hcache t = [] \<and>
    (\<forall>i \<in> A. i < k) \<and> k + length ies \<le> c" for ies :: "(nat \<times> timed_event) list" and k and t :: "'n state"
  have "I [] (eid + length (drop 1 (indexed evs))) s'"
  proof (rule compress_invariant [OF run _ evs indexed_drop1])
    show "I (drop 1 (indexed evs)) eid s" using kept ids by (simp add: I_def)
  next
    fix i te rest k t t'
    assume I: "I ((i, te) # rest) k t"
      and f: "fires T ifs sp (clone t False) (t\<lparr>st_g := st_g t + 1\<rparr>) a i k None t'"
    from I obtain n where n: "st_tn t = Some n" "network_kept carries sp A c n (st_path t) (st_todo t)"
      and ids: "k \<notin> A" "k < c" and path: "st_path t \<noteq> []"
      by (auto simp: I_def state_kept_def)
    have "\<exists>n'. st_tn t' = Some n' \<and> tn_check T n' \<and> st_todo t' = st_todo (t\<lparr>st_g := st_g t + 1\<rparr>) \<and>
      st_path t' = st_path (clone t False) @ [(a, i, k)] \<and>
      network_kept carries sp A c n' (st_path t') (st_todo t')"
      by (rule fires_kept [OF eps temporal named f])
        (use n ids path in \<open>auto simp: network_kept_def\<close>)
    with I fires_hcache [OF f] show "I rest (k + 1) t'"
      by (auto simp: I_def state_kept_def)
  qed (simp add: I_def)
  then show ?thesis by (simp add: I_def)
qed

lemma successor_kept:
  assumes eps: "0 \<le> sp_epsilon sp" and temporal: "sp_temporal sp" and named: "events_named sp"
    and kept: "state_kept T carries sp A c s"
    and succ: "get_successor_state_with_compression T ifs sp s a enabled c = Inr (Some s', c')"
  shows "c \<le> c' \<and> (\<exists>A'. state_kept T carries sp A' c' s')"
proof -
  from kept obtain n where n: "st_tn s = Some n" "network_kept carries sp A c n (st_path s) (st_todo s)"
    by (auto simp: state_kept_def)
  have wf: "dict_wf (st_todo s)" and pend: "\<forall>v \<in> pending_tps sp (st_todo s). numbered A c v"
    and ne: "st_todo s \<noteq> [] \<Longrightarrow> st_path s \<noteq> []" and A: "A \<subseteq> {..<c}"
    using n(2) by (auto simp: network_kept_def)
  from succ show ?thesis
  proof (cases rule: successor_cases)
    case (continue evs index eid)
    have len: "index < length evs" using continue(1,5) by (auto elim: firesE)
    note adv = pending_tps_advance [OF wf continue(2,1) len]
    have "numbered A c (EventTP a index eid)" using pend adv(2) by blast
    then have ids: "eid \<notin> A" "eid < c" by auto
    have "st_path s \<noteq> []" using ne continue(2) by (cases "st_todo s") auto
    moreover have "\<forall>v \<in> pending_tps sp (if index + 1 \<ge> length evs then dict_del a (st_todo s)
        else dict_set a (index + 1, eid + 1) (st_todo s)). numbered A c v"
      using adv(1) pend by blast
    moreover have "dict_wf (if index + 1 \<ge> length evs then dict_del a (st_todo s)
        else dict_set a (index + 1, eid + 1) (st_todo s))"
      using wf by (cases "index + 1 \<ge> length evs") simp_all
    ultimately have "\<exists>n'. st_tn s' = Some n' \<and> tn_check T n' \<and>
      network_kept carries sp A c n' (st_path s') (st_todo s')"
      using fires_kept [OF eps temporal named continue(5) _ n(2) _ ids] n(1) by fastforce
    with continue(3) show ?thesis by (auto simp: state_kept_def)
  next
    case (started evs)
    define new where "new = (clone s False)\<lparr>st_g := st_g s + 1, st_todo :=
      (if length evs > 1 then dict_set a (1, c + 2) (st_todo s) else st_todo s)\<rparr>"
    have new: "st_tn new = None"
      "st_todo new = (if length evs > 1 then dict_set a (1, c + 2) (st_todo s) else st_todo s)"
      by (simp_all add: new_def)
    have f: "fires T ifs sp s new a 0 (c + 1) (Some (a, c, evs, False)) s'"
      using started(7) temporal by (simp add: new_def)
    have "\<exists>n'. st_tn s' = Some n' \<and> tn_check T n' \<and>
      network_kept carries sp (insert c A) (c + 1 + length evs) n' (st_path s') (st_todo s')"
      using fires_opening_kept [OF eps temporal named started(1) f new(1) n new(2) started(2)]
      by blast
    with started(6) temporal show ?thesis by (auto simp: state_kept_def)
  next
    case (compressed evs s1 i eid)
    let ?s1 = "s1\<lparr>st_todo := dict_del a (st_todo s1)\<rparr>"
    define new where "new = (clone s False)\<lparr>st_g := st_g s + 1, st_todo := dict_set a (1, c + 2) (st_todo s)\<rparr>"
    have new: "st_tn new = None" "st_todo new = dict_set a (1, c + 2) (st_todo s)"
      by (simp_all add: new_def)
    have f: "fires T ifs sp s new a 0 (c + 1) (Some (a, c, evs, False)) s1"
      using compressed(7,8) temporal by (simp add: new_def)
    have s1: "\<exists>n'. st_tn s1 = Some n' \<and> tn_check T n' \<and>
      st_todo s1 = dict_set a (1, c + 2) (st_todo s) \<and> st_path s1 = st_path s @ [(a, 0, c + 1)] \<and>
      network_kept carries sp (insert c A) (c + 1 + length evs) n' (st_path s1) (st_todo s1)"
      using fires_opening_kept [OF eps temporal named compressed(1) f new(1) n _ compressed(2)]
        new(2) compressed(8) by simp
    have eid: "eid = c + 2" using s1 compressed(9) by (auto simp: dict_get_set)
    have sub: "pending_tps sp (dict_del a (st_todo s1)) \<subseteq> pending_tps sp (st_todo s1)"
      by (rule pending_tps_mono) (auto simp: set_dict_del)
    have "state_kept T carries sp (insert c A) (c + 1 + length evs) ?s1"
    proof -
      from s1 obtain n' where n': "st_tn s1 = Some n'" "tn_check T n'"
        "network_kept carries sp (insert c A) (c + 1 + length evs) n' (st_path s1) (st_todo s1)"
        by blast
      from n'(3) have "dict_wf (st_todo s1)" by (simp add: network_kept_def)
      then have "network_kept carries sp (insert c A) (c + 1 + length evs) n' (st_path s1) (dict_del a (st_todo s1))"
        using network_kept_fewer [OF n'(3) sub] s1 by auto
      with n' show ?thesis by (simp add: state_kept_def)
    qed
    then have "state_kept T carries sp (insert c A) (c + 1 + length evs) s'"
      using compress_kept [OF eps temporal named compressed(1,10)] s1 eid A
        fires_hcache [OF compressed(7)] compressed(8) by fastforce
    with compressed(6) temporal show ?thesis by auto
  qed
qed

end


section \<open>Reachable states\<close>

text \<open>
  The states a search can hold: initial states, successors computed at any later value of
  the counter, and states whose heuristic cache has been filled.
\<close>

inductive reachable :: "'n tn_ops \<Rightarrow> ifenv \<Rightarrow> sspace \<Rightarrow> nat \<Rightarrow> 'n state \<Rightarrow> bool"
  for T :: "'n tn_ops" and ifs :: ifenv and sp :: sspace where
  reach_initial: "initial_state T ifs sp init c = Inr (Some s, c') \<Longrightarrow> reachable T ifs sp c' s"
| reach_successor: "reachable T ifs sp c s \<Longrightarrow> c \<le> c1 \<Longrightarrow>
    get_successor_state_with_compression T ifs sp s a enabled c1 = Inr (Some s', c') \<Longrightarrow>
    reachable T ifs sp c' s'"
| reach_cache: "reachable T ifs sp c s \<Longrightarrow> reachable T ifs sp c (s\<lparr>st_hcache := h\<rparr>)"

lemma reachable_actives_hold:
  assumes "space_ok sp" "reachable T ifs sp c s"
  shows "actives_hold ifs s"
  using assms(2)
proof induction
  case (reach_cache c s h)
  then show ?case by (simp add: actives_hold_def)
qed (use assms(1) successor_actives_hold initial_actives_hold in blast)+

text \<open>A classical state has no network and nothing pending.\<close>

lemma fires_classical:
  assumes "fires T ifs sp s new a index eid pend s'" "\<not> sp_temporal sp"
  shows "st_tn s' = st_tn new \<and> st_todo s' = st_todo new"
  using assms by (auto elim!: firesE expand_event_SomeD)

lemma reachable_classical:
  assumes "reachable T ifs sp c s" "\<not> sp_temporal sp"
  shows "st_tn s = None \<and> st_todo s = []"
  using assms(1)
proof induction
  case (reach_initial init c s c')
  then show ?case
    by (cases rule: initial_stateD)
      (use assms(2) fires_classical in \<open>fastforce simp: mk_state_def\<close>)+
next
  case (reach_successor c s c1 a enabled s' c')
  from reach_successor(3) show ?case
  proof (cases rule: successor_cases)
    case (started evs)
    with fires_classical [OF started(7) assms(2)] reach_successor assms(2) show ?thesis by simp
  next
    case (compressed evs s1 i eid)
    with fires_classical [OF compressed(7) assms(2)] reach_successor assms(2) show ?thesis by simp
  qed (use reach_successor in simp)
qed simp

text \<open>The path and the depth grow together.\<close>

lemma fires_path:
  assumes "events_named sp" "fires T ifs sp s new a index eid pend s'"
  shows "st_path s' = st_path s @ [(a, index, eid)] \<and> st_g s' = st_g new"
proof -
  from assms(2) obtain evs where evs: "dict_get (sp_events sp) a = Some evs" "index < length evs"
    "st_path new = st_path s"
    and ex: "expand_event T ifs sp s new (snd (evs ! index)) index eid pend = Inr (Some s')"
    by (rule firesE)
  from ex show ?thesis
    by (rule expand_event_SomeD) (use events_namedD [OF assms(1) evs(1,2)] evs(3) in auto)
qed

lemma compress_path:
  assumes "events_named sp" "dict_get (sp_events sp) a = Some evs"
    and "compress T ifs sp a (drop 1 (indexed evs)) eid s = Inr (Some s')" "st_hcache s = []"
  shows "\<exists>es. st_path s' = st_path s @ es \<and> st_g s' = st_g s + length es \<and> (\<forall>p \<in> set es. fst p = a)"
proof -
  define I where "I ies k t \<longleftrightarrow> st_hcache t = [] \<and>
      (\<exists>es. st_path t = st_path s @ es \<and> st_g t = st_g s + length es \<and> (\<forall>p \<in> set es. fst p = a))"
    for ies :: "(nat \<times> timed_event) list" and k :: nat and t :: "'a state"
  have "I [] (eid + length (drop 1 (indexed evs))) s'"
  proof (rule compress_invariant [OF assms(3) _ assms(2) indexed_drop1])
    fix i te rest k t t'
    assume I: "I ((i, te) # rest) k t"
      and f: "fires T ifs sp (clone t False) (t\<lparr>st_g := st_g t + 1\<rparr>) a i k None t'"
    from I obtain es where "st_path t = st_path s @ es" "st_g t = st_g s + length es" "\<forall>p \<in> set es. fst p = a"
      by (auto simp: I_def)
    with fires_path [OF assms(1) f] fires_hcache [OF f] show "I rest (k + 1) t'"
      by (auto simp: I_def)
  qed (use assms(4) in \<open>auto simp: I_def\<close>)
  then show ?thesis by (simp add: I_def)
qed

lemma successor_path:
  assumes "events_named sp"
    and "get_successor_state_with_compression T ifs sp s a enabled c = Inr (Some s', c')"
  shows "\<exists>es. es \<noteq> [] \<and> st_path s' = st_path s @ es \<and> st_g s' = st_g s + length es \<and>
    (\<forall>p \<in> set es. fst p = a)"
  using assms(2)
proof (cases rule: successor_cases)
  case (continue evs index eid)
  from fires_path [OF assms(1) continue(5)] show ?thesis by auto
next
  case (started evs)
  from fires_path [OF assms(1) started(7)] show ?thesis by auto
next
  case (compressed evs s1 i eid)
  obtain es where "st_path s' = st_path s1 @ es" "st_g s' = st_g s1 + length es" "\<forall>p \<in> set es. fst p = a"
    using compress_path [OF assms(1) compressed(1) compressed(10)] fires_hcache [OF compressed(7)] by auto
  with fires_path [OF assms(1) compressed(7)] show ?thesis by auto
qed

lemma reachable_depth:
  assumes "events_named sp" "reachable T ifs sp c s"
  shows "length (st_path s) = st_g s + (if sp_timed sp = None then 0 else 1)"
  using assms(2)
proof induction
  case (reach_initial init c s c')
  then show ?case
  proof (cases rule: initial_stateD)
    case (timed asg tn a evs)
    with fires_path [OF assms(1) timed(7)] show ?thesis by (simp add: mk_state_def)
  qed (simp add: mk_state_def)
next
  case (reach_successor c s c1 a enabled s' c')
  with successor_path [OF assms(1) reach_successor(3)] show ?case by auto
qed simp

context network_space
begin

lemma initial_kept:
  assumes eps: "0 \<le> sp_epsilon sp" and temporal: "sp_temporal sp" and named: "events_named sp"
    and init: "initial_state T ifs sp init c = Inr (Some s, c')"
    and deadline: "\<forall>d. sp_deadline sp = Some d \<longrightarrow> 0 \<le> d"
  shows "\<exists>A. state_kept T carries sp A c' s"
proof -
  have start: "network_kept carries sp {} c n [] [] \<and> tn_check T n"
    if "case sp_deadline sp of None \<Rightarrow> n = tn_empty T
         | Some d \<Rightarrow> tn_interval T StartPlan EndPlan d d (tn_empty T) = Inr n" for n
  proof -
    have C: "carries n (deadline_edges sp)"
      using that carries_empty interval_carries [OF carries_empty]
      by (auto simp: deadline_edges_def split: option.splits)
    have "schedules (\<lambda>v. if v = EndPlan then (case sp_deadline sp of None \<Rightarrow> 0 | Some d \<Rightarrow> d) else 0) (deadline_edges sp)"
      by (auto simp: deadline_edges_def schedules_def split: option.split)
    then have "tn_check T n" using check_consistent [OF C] by (auto simp: consistent_def)
    moreover have "path_kept sp (deadline_edges sp) [] []"
      by (simp add: path_kept_def path_ordered_def)
    moreover have "\<forall>v \<in> cnodes (deadline_edges sp). numbered {} c v"
      by (auto simp: deadline_edges_def split: option.split)
    ultimately show ?thesis using C by (auto simp: network_kept_def pending_tps_def)
  qed
  from init show ?thesis
  proof (cases rule: initial_stateD)
    case (plain asg tn)
    with start temporal show ?thesis by (auto simp: state_kept_def mk_state_def intro!: exI [of _ "{}"])
  next
    case (timed asg tn a evs)
    then obtain n where n: "tn = Some n" "network_kept carries sp {} c n [] []"
      using start temporal by auto
    define new where "new = (mk_state asg None (if length evs > 1 then [(a, (1, c + 2))] else []) ms_empty 0 [] :: 'n state)"
    have f: "fires T ifs sp (mk_state asg tn [] ms_empty 0 []) new a 0 (c + 1) (Some (a, c, evs, True)) s"
      using timed(7) temporal by (simp add: new_def)
    have "\<exists>n'. st_tn s = Some n' \<and> tn_check T n' \<and>
        network_kept carries sp (insert c {}) (c + 1 + length evs) n' (st_path s) (st_todo s)"
    proof -
      let ?s0 = "mk_state asg tn [] ms_empty 0 [] :: 'n state"
      have todo: "st_todo new = (if length evs > 1 then dict_set a (1, c + 2) (st_todo ?s0) else st_todo ?s0)"
        by (simp add: new_def mk_state_def)
      show ?thesis
        using fires_opening_kept [OF eps temporal named timed(2) f _ _ _ todo, of n "{}"] n
        by (simp add: mk_state_def new_def del: One_nat_def) blast
    qed
    with timed(6) temporal show ?thesis by (auto simp: state_kept_def)
  qed
qed

lemma state_kept_mono: "state_kept T carries sp A c s \<Longrightarrow> c \<le> c' \<Longrightarrow> state_kept T carries sp A c' s"
  unfolding state_kept_def using network_kept_mono by blast

lemma reachable_kept:
  assumes "0 \<le> sp_epsilon sp" "sp_temporal sp" "events_named sp" "reachable T ifs sp c s"
    and "\<forall>d. sp_deadline sp = Some d \<longrightarrow> 0 \<le> d"
  shows "\<exists>A. state_kept T carries sp A c s"
  using assms(4)
proof induction
  case (reach_initial init c s c')
  from initial_kept [OF assms(1-3) this assms(5)] show ?case .
next
  case (reach_successor c s c1 a enabled s' c')
  then obtain A where "state_kept T carries sp A c1 s" using state_kept_mono by blast
  from successor_kept [OF assms(1-3) this reach_successor(3)] show ?case by blast
qed (simp add: state_kept_def)

lemma reachable_network:
  assumes "0 \<le> sp_epsilon sp" "sp_temporal sp" "events_named sp" "reachable T ifs sp c s"
    and "\<forall>d. sp_deadline sp = Some d \<longrightarrow> 0 \<le> d"
  obtains n C A where "st_tn s = Some n" "carries n C" "tn_check T n" "consistent C"
    "path_kept sp C (st_path s) (st_todo s)" "\<forall>v \<in> cnodes C. numbered A c v"
proof -
  from reachable_kept [OF assms] obtain A n C where "st_tn s = Some n" "carries n C" "tn_check T n"
    "path_kept sp C (st_path s) (st_todo s)" "\<forall>v \<in> cnodes C. numbered A c v"
    by (auto simp: state_kept_def network_kept_def)
  with check_consistent that show thesis by blast
qed

end

text \<open>
  Python compares time points as tuples, where \<open>True == 1\<close> and \<open>False == 0\<close>: the start of an action
  instance would be the same key as an event at position 1 with the same number.
\<close>

datatype tp_key = KPlan bool | KPoint nat nat nat

fun py_key :: "tp \<Rightarrow> tp_key" where
  "py_key StartPlan = KPlan True"
| "py_key EndPlan = KPlan False"
| "py_key (ActionTP a b i) = KPoint (act_idx a) (if b then 1 else 0) i"
| "py_key (EventTP a pos i) = KPoint (act_idx a) pos i"

lemma numbered_keys:
  assumes "\<forall>v \<in> V. numbered A c v"
  shows "inj_on py_key V"
proof (rule inj_onI)
  fix v w assume "v \<in> V" "w \<in> V" and eq: "py_key v = py_key w"
  with assms have "numbered A c v" "numbered A c w" by blast+
  with eq show "v = w"
    by (cases v; cases w) (auto split: if_splits intro: action.expand)
qed

end
