(* ===== verification/Dedup.thy ===== *)
theory Dedup
  imports Temporal_Space
begin

text \<open>
  The interface \<open>SearchSpaceABC\<close> every search works on, and the visited-state stores of
  \<open>src/tamerlite/core/search.py\<close>: the policy and the rule, the keys, \<open>VisitedStates\<close> and
  the Bloom-filter store of the memory-bounded searches.
\<close>

section \<open>The search space as the searches see it\<close>

record 'n problem_space =
  ss_temporal :: bool
  ss_has_deadline :: bool
  ss_epsilon :: rat
  ss_timed :: "action option"
  ss_makespan :: "'n state \<Rightarrow> rat res"
  ss_initial :: "nat \<Rightarrow> ('n state option \<times> nat) res"
  ss_relevant :: "action list"
  ss_successor :: "'n state \<Rightarrow> action \<Rightarrow> nat \<Rightarrow> ('n state option \<times> nat) res"
  ss_goal :: "'n state \<Rightarrow> bool res"

definition search_space_of :: "'n tn_ops \<Rightarrow> ifenv \<Rightarrow> sspace \<Rightarrow> 'n problem_space" where
  "search_space_of T ifs sp =
     \<lparr>ss_temporal = sp_temporal sp, ss_has_deadline = (sp_deadline sp \<noteq> None),
      ss_epsilon = sp_epsilon sp, ss_timed = sp_timed sp, ss_makespan = makespan T,
      ss_initial = initial_state T ifs sp None, ss_relevant = sp_relevant sp,
      ss_successor = get_successor_state T ifs sp, ss_goal = (\<lambda>s. goal_reached ifs sp s None)\<rparr>"


section \<open>Policy and rule\<close>

datatype dedup_rule = Equal | Dominance

datatype dedup_policy = DedupAll | DedupTodoEmpty | DedupDominance

definition policy_of :: "'n problem_space \<Rightarrow> bool \<Rightarrow> dedup_policy" where
  "policy_of S weak =
     (if \<not> ss_temporal S \<or> weak then DedupAll
      else if ss_has_deadline S then DedupDominance else DedupTodoEmpty)"

definition in_todo :: "action option \<Rightarrow> (action, nat \<times> nat) dict \<Rightarrow> bool" where
  "in_todo timed todo = (case timed of None \<Rightarrow> False | Some a \<Rightarrow> dict_get todo a \<noteq> None)"

definition dedup_rule_of :: "dedup_policy \<Rightarrow> 'n state \<Rightarrow> action option \<Rightarrow> dedup_rule option" where
  "dedup_rule_of pol s timed =
     (if pol = DedupAll then Some Equal
      else if st_todo s = [] then Some (if pol = DedupDominance then Dominance else Equal)
      else if length (st_todo s) = 1 \<and> in_todo timed (st_todo s) then Some Dominance
      else None)"


section \<open>Keys\<close>

text \<open>\<open>WeakEqState.__eq__\<close>, with its loop over the actions in progress of the first state.\<close>

fun todo_matches :: "(action, nat \<times> nat) dict \<Rightarrow> (action, nat \<times> nat) dict \<Rightarrow> bool" where
  "todo_matches [] oth = True"
| "todo_matches ((a, idx, eid) # rest) oth =
     (case dict_get oth a of None \<Rightarrow> False
      | Some (idx', _) \<Rightarrow> if idx' \<noteq> idx then False else todo_matches rest oth)"

definition weak_eq :: "'n state \<Rightarrow> 'n state \<Rightarrow> bool" where
  "weak_eq s t =
     (if length (st_todo s) \<noteq> length (st_todo t) then False
      else if \<not> assignments_eq (st_assignments s) (st_assignments t) then False
      else todo_matches (st_todo s) (st_todo t))"

text \<open>Equality of the keys \<open>state_representation\<close> gives to two states.\<close>

definition repr_eq :: "'n problem_space \<Rightarrow> 'n state \<Rightarrow> 'n state \<Rightarrow> bool" where
  "repr_eq S s t = (if ss_temporal S then weak_eq s t else state_eq s t)"

definition makespan_dominates :: "rat \<Rightarrow> rat \<Rightarrow> rat \<Rightarrow> bool" where
  "makespan_dominates recorded new eps \<longleftrightarrow> recorded + eps \<le> new"


section \<open>VisitedStates\<close>

record 'n visited =
  vs_policy :: dedup_policy
  vs_seen :: "'n state list"
  vs_makespans :: "('n state \<times> rat) list"

definition visited_new :: "'n problem_space \<Rightarrow> bool \<Rightarrow> 'n visited" where
  "visited_new S weak = \<lparr>vs_policy = policy_of S weak, vs_seen = [], vs_makespans = []\<rparr>"

definition seen_mem :: "'n problem_space \<Rightarrow> 'n state \<Rightarrow> 'n state list \<Rightarrow> bool" where
  "seen_mem S s xs \<longleftrightarrow> (\<exists>t \<in> set xs. repr_eq S t s)"

fun key_get :: "'n problem_space \<Rightarrow> ('n state \<times> rat) list \<Rightarrow> 'n state \<Rightarrow> rat option" where
  "key_get S [] s = None"
| "key_get S ((t, m) # d) s = (if repr_eq S t s then Some m else key_get S d s)"

fun key_set :: "'n problem_space \<Rightarrow> 'n state \<Rightarrow> rat \<Rightarrow> ('n state \<times> rat) list \<Rightarrow> ('n state \<times> rat) list" where
  "key_set S s m [] = [(s, m)]"
| "key_set S s m ((t, m') # d) = (if repr_eq S t s then (t, m) # d else (t, m') # key_set S s m d)"

definition visited_is_redundant :: "'n problem_space \<Rightarrow> 'n visited \<Rightarrow> 'n state \<Rightarrow> bool res" where
  "visited_is_redundant S v s =
     (case dedup_rule_of (vs_policy v) s (ss_timed S) of
        None \<Rightarrow> Inr False
      | Some Equal \<Rightarrow> Inr (seen_mem S s (vs_seen v))
      | Some Dominance \<Rightarrow>
          (case key_get S (vs_makespans v) s of
             None \<Rightarrow> Inr False
           | Some recorded \<Rightarrow> rbind (ss_makespan S s) (\<lambda>m.
               Inr (makespan_dominates recorded m (ss_epsilon S)))))"

definition visited_insert :: "'n problem_space \<Rightarrow> 'n state \<Rightarrow> 'n visited \<Rightarrow> (bool \<times> 'n visited) res" where
  "visited_insert S s v =
     (case dedup_rule_of (vs_policy v) s (ss_timed S) of
        None \<Rightarrow> Inr (True, v)
      | Some Equal \<Rightarrow>
          Inr (if seen_mem S s (vs_seen v) then (False, v)
               else (True, v\<lparr>vs_seen := vs_seen v @ [s]\<rparr>))
      | Some Dominance \<Rightarrow> rbind (ss_makespan S s) (\<lambda>m.
          Inr (case key_get S (vs_makespans v) s of
             None \<Rightarrow> (True, v\<lparr>vs_makespans := key_set S s m (vs_makespans v)\<rparr>)
           | Some recorded \<Rightarrow>
               if makespan_dominates recorded m (ss_epsilon S) then (False, v)
               else if recorded \<le> m then (True, v)
               else (True, v\<lparr>vs_makespans := key_set S s m (vs_makespans v)\<rparr>))))"

definition visited_clear :: "'n visited \<Rightarrow> 'n visited" where
  "visited_clear v = v\<lparr>vs_seen := [], vs_makespans := []\<rparr>"

text \<open>The operations a search is handed (\<open>_Dedup\<close>).\<close>

record ('n, 'd) dedup_ops =
  dd_new :: 'd
  dd_insert :: "'n state \<Rightarrow> 'd \<Rightarrow> (bool \<times> 'd) res"

definition visited_states :: "'n problem_space \<Rightarrow> bool \<Rightarrow> ('n, 'n visited) dedup_ops" where
  "visited_states S weak = \<lparr>dd_new = visited_new S weak, dd_insert = visited_insert S\<rparr>"


section \<open>The Bloom-filter store\<close>

text \<open>The key: the values joined by bars, then the pending index of each open action.\<close>

fun nat_digits :: "nat \<Rightarrow> string" where
  "nat_digits n =
     (if n < 10 then [char_of (48 + n)] else nat_digits (n div 10) @ [char_of (48 + n mod 10)])"

declare nat_digits.simps [simp del]

definition int_str :: "int \<Rightarrow> string" where
  "int_str i = (if i < 0 then CHR ''-'' # nat_digits (nat (- i)) else nat_digits (nat i))"

fun value_str :: "const \<Rightarrow> string" where
  "value_str (CBool b) = (if b then ''1'' else ''0'')"
| "value_str (CInt i) = int_str i"
| "value_str (CFrac r) = (case quotient_of r of (p, q) \<Rightarrow>
     if q = 1 then int_str p else int_str p @ ''/'' @ int_str q)"
| "value_str (CObj ob) = nat_digits (obj_idx ob)"

fun join :: "string \<Rightarrow> string list \<Rightarrow> string" where
  "join sep [] = []"
| "join sep [x] = x"
| "join sep (x # y # ys) = x @ sep @ join sep (y # ys)"

definition todo_str :: "action \<times> nat \<times> nat \<Rightarrow> string" where
  "todo_str p = (case p of (a, i, _) \<Rightarrow> nat_digits (act_idx a) @ '':'' @ nat_digits i)"

definition bloom_key :: "'n state \<Rightarrow> string" where
  "bloom_key s = join ''|'' (map value_str (st_assignments s)) @ ''#'' @
     join '','' (map todo_str (sort_key fst (st_todo s)))"

text \<open>\<open>BloomFilter\<close> of the package bloom-filter2, a parameter.\<close>

record 'f bloom =
  bf_new :: 'f
  bf_mem :: "string \<Rightarrow> 'f \<Rightarrow> bool"
  bf_add :: "string \<Rightarrow> 'f \<Rightarrow> 'f"

record 'f bloom_dedup =
  bd_policy :: dedup_policy
  bd_filter :: "'f option"

definition bloom_new :: "'f bloom \<Rightarrow> 'n problem_space \<Rightarrow> bool \<Rightarrow> 'f bloom_dedup" where
  "bloom_new B S weak = (let pol = policy_of S weak in
     \<lparr>bd_policy = pol, bd_filter = (if pol \<noteq> DedupDominance then Some (bf_new B) else None)\<rparr>)"

definition bloom_insert ::
    "'f bloom \<Rightarrow> 'n problem_space \<Rightarrow> 'n state \<Rightarrow> 'f bloom_dedup \<Rightarrow> (bool \<times> 'f bloom_dedup) res" where
  "bloom_insert B S s d =
     (case bd_filter d of
        None \<Rightarrow> Inr (True, d)
      | Some f \<Rightarrow>
          if dedup_rule_of (bd_policy d) s (ss_timed S) \<noteq> Some Equal then Inr (True, d)
          else if bf_mem B (bloom_key s) f then Inr (False, d)
          else Inr (True, d\<lparr>bd_filter := Some (bf_add B (bloom_key s) f)\<rparr>))"

definition bloom_states :: "'f bloom \<Rightarrow> 'n problem_space \<Rightarrow> bool \<Rightarrow> ('n, 'f bloom_dedup) dedup_ops" where
  "bloom_states B S weak = \<lparr>dd_new = bloom_new B S weak, dd_insert = bloom_insert B S\<rparr>"

end
