(* ===== verification/Open_Lists.thy ===== *)
theory Open_Lists
  imports Search_State "HOL-Library.Product_Lexorder"
begin

text \<open>
  The open lists of the searches: \<open>_PriorityQueue\<close>, a list kept by Python's \<open>heapq\<close>, and
  \<open>_BoundedPriorityQueue\<close>, which keeps the smallest items of a third-party min-max heap
  (\<open>src/tamerlite/core/search.py\<close>).  The algorithms of \<open>heapq\<close> are written out, because with
  items that tie, as in the multi-queue search, the order of expansion depends on them.
  The locale \<open>open_list\<close> is the contract of the searches' open list.
\<close>

section \<open>Comparison of items\<close>

locale item_order =
  fixes lt :: "'a \<Rightarrow> 'a \<Rightarrow> bool"
  assumes lt_asym: "lt x y \<Longrightarrow> \<not> lt y x"
    and lt_neg_trans: "\<not> lt x y \<Longrightarrow> \<not> lt y z \<Longrightarrow> \<not> lt x z"
begin

lemma lt_irrefl [simp]: "\<not> lt x x"
  using lt_asym by blast

lemma lt_trans: "lt x y \<Longrightarrow> lt y z \<Longrightarrow> lt x z"
  using lt_asym lt_neg_trans by blast

end


section \<open>heapq\<close>

definition parent :: "nat \<Rightarrow> nat" where
  "parent i = (i - 1) div 2"

text \<open>\<open>_siftdown\<close> with \<open>startpos\<close> 0: the hole at \<open>pos\<close> moves up while its parent is larger.\<close>

fun siftdown :: "('a \<Rightarrow> 'a \<Rightarrow> bool) \<Rightarrow> 'a \<Rightarrow> 'a list \<Rightarrow> nat \<Rightarrow> 'a list" where
  "siftdown lt x h pos =
     (if 0 < pos \<and> lt x (h ! ((pos - 1) div 2))
      then siftdown lt x (h[pos := h ! ((pos - 1) div 2)]) ((pos - 1) div 2)
      else h[pos := x])"

declare siftdown.simps [simp del]

text \<open>The first loop of \<open>_siftup\<close>: the hole moves down to a leaf, along the smaller children.\<close>

function sink :: "('a \<Rightarrow> 'a \<Rightarrow> bool) \<Rightarrow> 'a list \<Rightarrow> nat \<Rightarrow> 'a list \<times> nat" where
  "sink lt h pos =
     (if 2 * pos + 1 < length h then
        let c = (if 2 * pos + 2 < length h \<and> \<not> lt (h ! (2 * pos + 1)) (h ! (2 * pos + 2))
                 then 2 * pos + 2 else 2 * pos + 1)
        in sink lt (h[pos := h ! c]) c
      else (h, pos))"
  by pat_completeness auto
termination
  by (relation "measure (\<lambda>(lt, h, pos). length h - pos)") (auto simp: Let_def)

declare sink.simps [simp del]

definition heappush :: "('a \<Rightarrow> 'a \<Rightarrow> bool) \<Rightarrow> 'a \<Rightarrow> 'a list \<Rightarrow> 'a list" where
  "heappush lt x h = siftdown lt x (h @ [x]) (length h)"

definition heappop :: "('a \<Rightarrow> 'a \<Rightarrow> bool) \<Rightarrow> 'a list \<Rightarrow> ('a \<times> 'a list) res" where
  "heappop lt h =
     (if h = [] then Inl IndexErr
      else let x = last h; h' = butlast h in
        if h' = [] then Inr (x, h')
        else case sink lt h' 0 of (g, pos) \<Rightarrow> Inr (h' ! 0, siftdown lt x g pos))"

text \<open>
  A heap with a hole at \<open>pos\<close>: the order holds everywhere the hole is not involved, and
  between the children of the hole and its parent.
\<close>

definition holed :: "('a \<Rightarrow> 'a \<Rightarrow> bool) \<Rightarrow> 'a list \<Rightarrow> nat \<Rightarrow> bool" where
  "holed lt h pos \<longleftrightarrow> (\<forall>i. 0 < i \<longrightarrow> i < length h \<longrightarrow>
     (i \<noteq> pos \<longrightarrow> parent i \<noteq> pos \<longrightarrow> \<not> lt (h ! i) (h ! parent i)) \<and>
     (parent i = pos \<longrightarrow> 0 < pos \<longrightarrow> \<not> lt (h ! i) (h ! parent pos)))"

definition heap :: "('a \<Rightarrow> 'a \<Rightarrow> bool) \<Rightarrow> 'a list \<Rightarrow> bool" where
  "heap lt h \<longleftrightarrow> (\<forall>i. 0 < i \<longrightarrow> i < length h \<longrightarrow> \<not> lt (h ! i) (h ! parent i))"

lemma parent_less: "0 < i \<Longrightarrow> parent i < i"
  unfolding parent_def by linarith

lemma parent_children: "parent i = p \<Longrightarrow> 0 < i \<Longrightarrow> i = 2 * p + 1 \<or> i = 2 * p + 2"
  unfolding parent_def by linarith

lemma parent_child [simp]: "parent (2 * p + 1) = p" "parent (2 * p + 2) = p" "parent (Suc (2 * p)) = p"
  "parent (Suc (Suc (2 * p))) = p"
  by (simp_all add: parent_def)

lemma mset_hole_move:
  assumes "i < length h" "j < length h" "i \<noteq> j"
  shows "mset ((h[i := h ! j])[j := x]) = mset (h[i := x])"
proof -
  have "(h[i := h ! j])[j := x] = (h[i := x])[i := (h[i := x]) ! j, j := (h[i := x]) ! i]"
    using assms by (simp add: list_update_swap)
  moreover have "mset \<dots> = mset (h[i := x])"
    using assms by (intro mset_swap) simp_all
  ultimately show ?thesis by simp
qed

context item_order
begin

lemma holedD:
  assumes "holed lt h pos" "0 < i" "i < length h"
  shows "i \<noteq> pos \<Longrightarrow> parent i \<noteq> pos \<Longrightarrow> \<not> lt (h ! i) (h ! parent i)"
    and "parent i = pos \<Longrightarrow> 0 < pos \<Longrightarrow> \<not> lt (h ! i) (h ! parent pos)"
  using assms unfolding holed_def by blast+

lemma siftdown_heap:
  assumes "holed lt h pos" "pos < length h"
    and "\<forall>i. 0 < i \<longrightarrow> i < length h \<longrightarrow> parent i = pos \<longrightarrow> \<not> lt (h ! i) x"
  shows "heap lt (siftdown lt x h pos) \<and> mset (siftdown lt x h pos) = mset (h[pos := x])"
  using assms
proof (induction pos arbitrary: h rule: less_induct)
  case (less pos)
  let ?p = "parent pos"
  show ?case
  proof (cases "0 < pos \<and> lt x (h ! ?p)")
    case False
    have "heap lt (h[pos := x])"
      unfolding heap_def
    proof (intro allI impI)
      fix i assume i: "0 < i" "i < length (h[pos := x])"
      consider "i = pos" | "i \<noteq> pos" "parent i = pos" | "i \<noteq> pos" "parent i \<noteq> pos" by blast
      then show "\<not> lt (h[pos := x] ! i) (h[pos := x] ! parent i)"
      proof cases
        case 1
        with False i parent_less [of i] show ?thesis by simp
      next
        case 2
        with less.prems(2,3) i show ?thesis by simp
      next
        case 3
        with holedD(1) [OF less.prems(1), of i] i show ?thesis by simp
      qed
    qed
    moreover have "siftdown lt x h pos = h[pos := x]"
      using False by (subst siftdown.simps) (auto simp: parent_def)
    ultimately show ?thesis by simp
  next
    case True
    then have pos: "0 < pos" "?p < pos" using parent_less by auto
    let ?h = "h[pos := h ! ?p]"
    have len: "?p < length h" using pos less.prems(2) by simp
    have "holed lt ?h ?p"
      unfolding holed_def
    proof (intro allI impI conjI)
      fix i assume i: "0 < i" "i < length ?h"
      { assume ne: "i \<noteq> ?p" "parent i \<noteq> ?p"
        then have "i \<noteq> pos" by auto
        with i ne less.prems(1,2) pos show "\<not> lt (?h ! i) (?h ! parent i)"
          using holedD [OF less.prems(1) i(1)] by (cases "parent i = pos") auto }
      { assume child: "parent i = ?p" and "0 < ?p"
        then have up: "\<not> lt (h ! ?p) (h ! parent ?p)"
          using holedD(1) [OF less.prems(1), of ?p] pos len parent_less [of ?p] by auto
        show "\<not> lt (?h ! i) (?h ! parent ?p)"
        proof (cases "i = pos")
          case True
          with up less.prems(2) pos \<open>0 < ?p\<close> parent_less [of ?p] show ?thesis by simp
        next
          case False
          with child i pos have "\<not> lt (h ! i) (h ! ?p)"
            using holedD(1) [OF less.prems(1) i(1)] by auto
          with up lt_neg_trans False pos \<open>0 < ?p\<close> parent_less [of ?p] show ?thesis by auto
        qed }
    qed
    moreover have "\<not> lt (?h ! i) x" if i: "0 < i" "i < length ?h" "parent i = ?p" for i
    proof (cases "i = pos")
      case True
      with \<open>0 < pos \<and> lt x (h ! ?p)\<close> lt_asym less.prems(2) show ?thesis by auto
    next
      case False
      with i pos have "\<not> lt (h ! i) (h ! ?p)"
        using holedD(1) [OF less.prems(1) i(1)] by auto
      with True lt_trans False show ?thesis by auto
    qed
    ultimately have "heap lt (siftdown lt x ?h ?p) \<and> mset (siftdown lt x ?h ?p) = mset (?h[?p := x])"
      using less.IH [OF pos(2), of ?h] len by auto
    moreover have "siftdown lt x h pos = siftdown lt x ?h ?p"
      using True by (subst siftdown.simps) (simp add: parent_def)
    moreover have "mset (?h[?p := x]) = mset (h[pos := x])"
      using less.prems(2) len pos by (intro mset_hole_move) auto
    ultimately show ?thesis by simp
  qed
qed

lemma sink_holed:
  assumes "holed lt h pos" "pos < length h" "sink lt h pos = (g, q)"
  shows "holed lt g q \<and> q < length g \<and> length g = length h \<and> length g \<le> 2 * q + 1 \<and>
    (\<forall>x. mset (g[q := x]) = mset (h[pos := x]))"
  using assms
proof (induction "length h - pos" arbitrary: h pos rule: less_induct)
  case less
  show ?case
  proof (cases "2 * pos + 1 < length h")
    case False
    with less.prems show ?thesis by (simp add: sink.simps [of lt h pos])
  next
    case True
    define c where "c = (if 2 * pos + 2 < length h \<and> \<not> lt (h ! (2 * pos + 1)) (h ! (2 * pos + 2))
                 then 2 * pos + 2 else 2 * pos + 1)"
    have c: "c < length h" "parent c = pos" "pos < c" "0 < c" using True by (auto simp: c_def)
    let ?h = "h[pos := h ! c]"
    have run: "sink lt ?h c = (g, q)"
      using less.prems(3) True by (simp add: sink.simps [of lt h pos] c_def Let_def)
    have smaller: "\<not> lt (h ! i) (h ! c)" if "0 < i" "i < length h" "parent i = pos" for i
      using parent_children [OF that(3,1)] that(2) lt_asym by (auto simp: c_def)
    have "holed lt ?h c"
      unfolding holed_def
    proof (intro allI impI conjI)
      fix i assume i: "0 < i" "i < length ?h"
      { assume ne: "i \<noteq> c" "parent i \<noteq> c"
        show "\<not> lt (?h ! i) (?h ! parent i)"
        proof (cases "parent i = pos")
          case True
          with smaller i parent_less [OF i(1)] less.prems(2) show ?thesis by auto
        next
          case False
          show ?thesis
          proof (cases "i = pos")
            case True
            with holedD(2) [OF less.prems(1) c(4) c(1,2)] i parent_less [OF i(1)] show ?thesis by simp
          next
            case ne_pos: False
            with False holedD(1) [OF less.prems(1) i(1)] i show ?thesis by simp
          qed
        qed }
      { assume "parent i = c" "0 < c"
        then have "i \<noteq> pos" "\<not> lt (h ! i) (h ! c)"
          using holedD(1) [OF less.prems(1) i(1)] i c parent_less [OF i(1)] by auto
        with c less.prems(2) show "\<not> lt (?h ! i) (?h ! parent c)" by simp }
    qed
    moreover have "length ?h - c < length h - pos" using c less.prems(2) by simp
    ultimately have
      "holed lt g q \<and> q < length g \<and> length g = length h \<and> length g \<le> 2 * q + 1 \<and>
        (\<forall>x. mset (g[q := x]) = mset (?h[c := x]))"
      using less.hyps [of ?h c] run c less.prems(2) by auto
    moreover have "mset (?h[c := x]) = mset (h[pos := x])" for x
      using c less.prems(2) by (intro mset_hole_move) auto
    ultimately show ?thesis by simp
  qed
qed

lemma heap_min: "heap lt h \<Longrightarrow> i < length h \<Longrightarrow> \<not> lt (h ! i) (h ! 0)"
proof (induction i rule: less_induct)
  case (less i)
  show ?case
  proof (cases "i = 0")
    case False
    with less parent_less [of i] have "\<not> lt (h ! i) (h ! parent i)" "\<not> lt (h ! parent i) (h ! 0)"
      by (auto simp: heap_def)
    with lt_neg_trans show ?thesis by blast
  qed simp
qed

lemma heappush_heap:
  assumes "heap lt h"
  shows "heap lt (heappush lt x h)" "mset (heappush lt x h) = add_mset x (mset h)"
proof -
  have "holed lt (h @ [x]) (length h)"
    unfolding holed_def
  proof (intro allI impI conjI)
    fix i assume i: "0 < i" "i < length (h @ [x])"
    { assume "i \<noteq> length h" "parent i \<noteq> length h"
      with i assms parent_less [OF i(1)] show "\<not> lt ((h @ [x]) ! i) ((h @ [x]) ! parent i)"
        by (simp add: heap_def nth_append) }
    { assume "parent i = length h"
      with i parent_less [OF i(1)] show "\<not> lt ((h @ [x]) ! i) ((h @ [x]) ! parent (length h))"
        by simp }
  qed
  moreover have "\<forall>i. 0 < i \<longrightarrow> i < length (h @ [x]) \<longrightarrow> parent i = length h \<longrightarrow> \<not> lt ((h @ [x]) ! i) x"
  proof (intro allI impI)
    fix i assume i: "0 < i" "i < length (h @ [x])" "parent i = length h"
    with parent_less [OF i(1)] show "\<not> lt ((h @ [x]) ! i) x" by simp
  qed
  ultimately have "heap lt (heappush lt x h) \<and> mset (heappush lt x h) = mset ((h @ [x])[length h := x])"
    unfolding heappush_def by (intro siftdown_heap) auto
  then show "heap lt (heappush lt x h)" "mset (heappush lt x h) = add_mset x (mset h)"
    by simp_all
qed

lemma heap_butlast: "heap lt h \<Longrightarrow> heap lt (butlast h)"
  unfolding heap_def
proof (intro allI impI)
  fix i assume h: "\<forall>i>0. i < length h \<longrightarrow> \<not> lt (h ! i) (h ! parent i)"
    and i: "0 < i" "i < length (butlast h)"
  from i parent_less [of i] have "i < length h" "parent i < length (butlast h)" by auto
  with h i show "\<not> lt (butlast h ! i) (butlast h ! parent i)" by (simp add: nth_butlast)
qed

lemma heap_holed_root: "heap lt h \<Longrightarrow> holed lt h 0"
  by (auto simp: heap_def holed_def)

lemma heappop_heap:
  assumes "heap lt h" "h \<noteq> []"
  obtains x h' where "heappop lt h = Inr (x, h')" "heap lt h'" "add_mset x (mset h') = mset h"
    "\<forall>y \<in> set h. \<not> lt y x"
proof -
  have min: "\<forall>y \<in> set h. \<not> lt y (h ! 0)"
    using heap_min [OF assms(1)] by (auto simp: in_set_conv_nth)
  obtain b x where h: "h = b @ [x]" using assms(2) by (cases h rule: rev_cases) auto
  show thesis
  proof (cases b)
    case Nil
    with h min show thesis
      by (intro that [of x "[]"]) (auto simp: heappop_def Let_def heap_def)
  next
    case (Cons y ys)
    obtain g q where run: "sink lt b 0 = (g, q)" by fastforce
    have "heap lt b" using heap_butlast [OF assms(1)] h by simp
    then have "holed lt b 0" by (rule heap_holed_root)
    from sink_holed [OF this _ run] Cons
    have g: "holed lt g q" "q < length g" "length g \<le> 2 * q + 1" "mset (g[q := x]) = mset (b[0 := x])"
      by auto
    have "\<not> lt (g ! i) x" if "0 < i" "i < length g" "parent i = q" for i
      using parent_children [OF that(3,1)] that(2) g(3) by auto
    with siftdown_heap [OF g(1,2), of x] g(4) have sift: "heap lt (siftdown lt x g q)"
      "mset (siftdown lt x g q) = mset (b[0 := x])" by auto
    have "heappop lt h = Inr (y, siftdown lt x g q)"
      using run Cons h by (simp add: heappop_def Let_def)
    with sift Cons h min show thesis
      by (intro that [of y "siftdown lt x g q"]) auto
  qed
qed

end


section \<open>The contract of an open list\<close>

text \<open>
  A bounded open list may drop items when pushed to; \<open>full_open_list\<close> never does.
\<close>

locale open_list =
  fixes lt :: "'a \<Rightarrow> 'a \<Rightarrow> bool"
    and empty :: 'q
    and push :: "'a \<Rightarrow> 'q \<Rightarrow> 'q res"
    and pop :: "'q \<Rightarrow> ('a \<times> 'q) res"
    and len :: "'q \<Rightarrow> nat"
    and contents :: "'q \<Rightarrow> 'a multiset"
    and invar :: "'q \<Rightarrow> bool"
  assumes invar_empty: "invar empty" and contents_empty: "contents empty = {#}"
    and len_contents: "invar q \<Longrightarrow> len q = size (contents q)"
    and push_contents: "invar q \<Longrightarrow>
          \<exists>q'. push x q = Inr q' \<and> invar q' \<and> contents q' \<subseteq># add_mset x (contents q)"
    and pop_min: "invar q \<Longrightarrow> contents q \<noteq> {#} \<Longrightarrow>
          \<exists>x q'. pop q = Inr (x, q') \<and> invar q' \<and> add_mset x (contents q') = contents q \<and>
            (\<forall>y \<in># contents q. \<not> lt y x)"
begin

lemma pushD:
  assumes "invar q" "push x q = Inr q'"
  shows "invar q' \<and> contents q' \<subseteq># add_mset x (contents q)"
  using push_contents [OF assms(1), of x] assms(2) by auto

lemma push_set:
  assumes "invar q" "push x q = Inr q'"
  shows "set_mset (contents q') \<subseteq> insert x (set_mset (contents q))"
  using pushD [OF assms] set_mset_mono by fastforce

lemma popD:
  assumes "invar q" "len q \<noteq> 0" "pop q = Inr (x, q')"
  shows "invar q' \<and> add_mset x (contents q') = contents q \<and> (\<forall>y \<in># contents q. \<not> lt y x)"
proof -
  have "contents q \<noteq> {#}" using assms(2) len_contents [OF assms(1)] by auto
  from pop_min [OF assms(1) this] assms(3) show ?thesis by auto
qed

lemma pop_returns: "invar q \<Longrightarrow> len q \<noteq> 0 \<Longrightarrow> \<exists>x q'. pop q = Inr (x, q')"
  using pop_min len_contents by fastforce

end

locale full_open_list = open_list +
  assumes push_keeps: "invar q \<Longrightarrow> push x q = Inr q' \<Longrightarrow> contents q' = add_mset x (contents q)"

text \<open>The operations a search is handed, and what they do over a history of pushes and pops.\<close>

record ('a, 'q) open_ops =
  ol_empty :: 'q
  ol_push :: "'a \<Rightarrow> 'q \<Rightarrow> 'q res"
  ol_pop :: "'q \<Rightarrow> ('a \<times> 'q) res"
  ol_len :: "'q \<Rightarrow> nat"

text \<open>A history of an open list: pushes (\<open>Some\<close>) and pops (\<open>None\<close>), with the items popped.\<close>

definition queue_op ::
    "('a, 'q) open_ops \<Rightarrow> 'a option \<Rightarrow> 'q \<times> 'a list \<Rightarrow> ('q \<times> 'a list) res" where
  "queue_op Q x qo = (case qo of (q, popped) \<Rightarrow> (case x of
     Some i \<Rightarrow> rbind (ol_push Q i q) (\<lambda>q'. Inr (q', popped))
   | None \<Rightarrow> rbind (ol_pop Q q) (\<lambda>(i, q'). Inr (q', popped @ [i]))))"

definition queue_run ::
    "('a, 'q) open_ops \<Rightarrow> 'a option list \<Rightarrow> ('q \<times> 'a list) res" where
  "queue_run Q ops = rfold (queue_op Q) ops (ol_empty Q, [])"

definition pushed :: "'a option list \<Rightarrow> 'a multiset" where
  "pushed ops = mset (List.map_filter id ops)"

lemma pushed_simps [simp]:
  "pushed [] = {#}" "pushed (ops @ [None]) = pushed ops" "pushed (ops @ [Some x]) = add_mset x (pushed ops)"
  by (simp_all add: pushed_def List.map_filter_def)

text \<open>
  After a history the list holds what was pushed and not popped, a push succeeds, and a pop
  gives out an item with the least key of all it holds.
\<close>

definition least_first ::
    "('a, 'q) open_ops \<Rightarrow> ('q \<Rightarrow> 'a multiset) \<Rightarrow> ('a \<Rightarrow> 'k :: linorder) \<Rightarrow> 'a option list \<Rightarrow> 'q \<Rightarrow> 'a list \<Rightarrow> bool" where
  "least_first Q contents key ops q popped \<longleftrightarrow> contents q + mset popped = pushed ops \<and>
     (\<forall>x. \<exists>q'. ol_push Q x q = Inr q') \<and> ol_len Q q = size (contents q) \<and>
     (contents q \<noteq> {#} \<longrightarrow> (\<exists>x q'. ol_pop Q q = Inr (x, q') \<and> add_mset x (contents q') = contents q \<and>
        (\<forall>y \<in># contents q. key x \<le> key y)))"

definition pq_push :: "('a \<Rightarrow> 'a \<Rightarrow> bool) \<Rightarrow> 'a \<Rightarrow> 'a list \<Rightarrow> 'a list res" where
  "pq_push lt x h = Inr (heappush lt x h)"

definition priority_queue :: "('a \<Rightarrow> 'a \<Rightarrow> bool) \<Rightarrow> ('a, 'a list) open_ops" where
  "priority_queue lt =
     \<lparr>ol_empty = [], ol_push = pq_push lt, ol_pop = heappop lt, ol_len = length\<rparr>"

context full_open_list
begin

lemma queue_run_holds:
  assumes Q: "Q = \<lparr>ol_empty = empty, ol_push = push, ol_pop = pop, ol_len = len\<rparr>"
    and none: "\<forall>q x q'. contents q = {#} \<longrightarrow> pop q \<noteq> Inr (x, q')"
    and run: "queue_run Q ops = Inr (q, popped)"
  shows "invar q \<and> contents q + mset popped = pushed ops"
  using run
proof (induction ops arbitrary: q popped rule: rev_induct)
  case Nil
  with Q show ?case using invar_empty contents_empty by (auto simp: queue_run_def)
next
  case (snoc x ops)
  from snoc.prems obtain q1 p1 where before: "queue_run Q ops = Inr (q1, p1)"
    and step: "queue_op Q x (q1, p1) = Inr (q, popped)"
    by (auto simp: queue_run_def rfold_append rbind_eq_Inr)
  from snoc.IH [OF before] have ih: "invar q1" "contents q1 + mset p1 = pushed ops" by auto
  show ?case
  proof (cases x)
    case None
    with step Q obtain i where i: "pop q1 = Inr (i, q)" "popped = p1 @ [i]"
      by (auto simp: queue_op_def rbind_eq_Inr)
    with none have "contents q1 \<noteq> {#}" by blast
    with pop_min [OF ih(1)] i(1) have q: "invar q" "contents q1 = add_mset i (contents q)" by auto
    from ih(2) show ?thesis by (simp add: q None i(2))
  next
    case (Some i)
    with step Q have "push i q1 = Inr q" "popped = p1" by (auto simp: queue_op_def rbind_eq_Inr)
    with push_contents [OF ih(1), of i] push_keeps [OF ih(1), of i] ih(2) Some show ?thesis by auto
  qed
qed

lemma history_least_first:
  fixes key :: "'a \<Rightarrow> 'k :: linorder"
  assumes Q: "Q = \<lparr>ol_empty = empty, ol_push = push, ol_pop = pop, ol_len = len\<rparr>"
    and none: "\<forall>q x q'. contents q = {#} \<longrightarrow> pop q \<noteq> Inr (x, q')"
    and key: "\<And>x y. key x < key y \<Longrightarrow> lt x y"
    and run: "queue_run Q ops = Inr (q, popped)"
  shows "least_first Q contents key ops q popped"
proof -
  from queue_run_holds [OF Q none run] have q: "invar q" "contents q + mset popped = pushed ops" by auto
  have "\<exists>x q'. pop q = Inr (x, q') \<and> add_mset x (contents q') = contents q \<and> (\<forall>y \<in># contents q. key x \<le> key y)"
    if "contents q \<noteq> {#}"
    using pop_min [OF q(1) that] key by (metis not_le)
  with q len_contents push_contents show ?thesis by (fastforce simp: least_first_def Q)
qed

end

context item_order
begin

lemma priority_queue_full:
  "full_open_list lt [] (pq_push lt) (heappop lt) length mset (heap lt)"
proof (unfold_locales, goal_cases)
  case (5 q)
  then show ?case by (auto elim!: heappop_heap [of q])
qed (use heappush_heap in \<open>auto simp: heap_def pq_push_def\<close>)

end


section \<open>The bounded queue\<close>

text \<open>\<open>MinMaxHeap\<close> of the package min-max-heap, a parameter.\<close>

record ('a, 'h) minmax =
  mm_empty :: 'h
  mm_size :: "'h \<Rightarrow> nat"
  mm_push :: "'a \<Rightarrow> 'h \<Rightarrow> 'h"
  mm_max :: "'h \<Rightarrow> 'a res"
  mm_pop_max :: "'h \<Rightarrow> ('a \<times> 'h) res"
  mm_pop_min :: "'h \<Rightarrow> ('a \<times> 'h) res"

text \<open>Its documented behaviour, over the multiset of the items it holds.\<close>

definition minmax_laws ::
    "('a \<Rightarrow> 'a \<Rightarrow> bool) \<Rightarrow> ('a, 'h) minmax \<Rightarrow> ('h \<Rightarrow> 'a multiset) \<Rightarrow> ('h \<Rightarrow> bool) \<Rightarrow> bool" where
  "minmax_laws lt M items good \<longleftrightarrow>
     good (mm_empty M) \<and> items (mm_empty M) = {#} \<and>
     (\<forall>h. good h \<longrightarrow> mm_size M h = size (items h) \<and>
        (\<forall>x. good (mm_push M x h) \<and> items (mm_push M x h) = add_mset x (items h)) \<and>
        (items h \<noteq> {#} \<longrightarrow>
           (\<exists>m h'. mm_max M h = Inr m \<and> mm_pop_max M h = Inr (m, h') \<and> good h' \<and>
              add_mset m (items h') = items h \<and> (\<forall>y \<in># items h. \<not> lt m y)) \<and>
           (\<exists>m h'. mm_pop_min M h = Inr (m, h') \<and> good h' \<and>
              add_mset m (items h') = items h \<and> (\<forall>y \<in># items h. \<not> lt y m))))"

definition bounded_push ::
    "('a \<Rightarrow> 'a \<Rightarrow> bool) \<Rightarrow> ('a, 'h) minmax \<Rightarrow> nat \<Rightarrow> 'a \<Rightarrow> 'h \<Rightarrow> 'h res" where
  "bounded_push lt M bound x h =
     (if mm_size M h < bound then Inr (mm_push M x h)
      else rbind (mm_max M h) (\<lambda>m.
        if lt x m then rbind (mm_pop_max M h) (\<lambda>(_, h'). Inr (mm_push M x h')) else Inr h))"

text \<open>\<open>_BoundedPriorityQueue.__init__\<close>: the bound must be positive.\<close>

definition bounded_queue ::
    "('a \<Rightarrow> 'a \<Rightarrow> bool) \<Rightarrow> ('a, 'h) minmax \<Rightarrow> nat \<Rightarrow> ('a, 'h) open_ops res" where
  "bounded_queue lt M bound = rbind (rassert (0 < bound)) (\<lambda>_.
     Inr \<lparr>ol_empty = mm_empty M, ol_push = bounded_push lt M bound, ol_pop = mm_pop_min M,
          ol_len = mm_size M\<rparr>)"

definition queue_bound :: nat where
  "queue_bound = 400000"

lemma minmax_lawsD:
  assumes "minmax_laws lt M items good"
  shows "good (mm_empty M)" "items (mm_empty M) = {#}"
    and "good h \<Longrightarrow> mm_size M h = size (items h)"
    and "good h \<Longrightarrow> good (mm_push M x h)" "good h \<Longrightarrow> items (mm_push M x h) = add_mset x (items h)"
    and "good h \<Longrightarrow> items h \<noteq> {#} \<Longrightarrow> \<exists>m h'. mm_max M h = Inr m \<and> mm_pop_max M h = Inr (m, h') \<and> good h' \<and>
              add_mset m (items h') = items h \<and> (\<forall>y \<in># items h. \<not> lt m y)"
    and "good h \<Longrightarrow> items h \<noteq> {#} \<Longrightarrow> \<exists>m h'. mm_pop_min M h = Inr (m, h') \<and> good h' \<and>
              add_mset m (items h') = items h \<and> (\<forall>y \<in># items h. \<not> lt y m)"
  using assms unfolding minmax_laws_def by blast+

text \<open>
  A push keeps the queue within its bound, and what it leaves out is no smaller than any
  item that stays.
\<close>

lemma bounded_push_spec:
  assumes laws: "minmax_laws lt M items good" and good: "good h" and size: "size (items h) \<le> bound"
    and bound: "0 < bound" and ord: "item_order lt"
  shows "\<exists>h' dropped. bounded_push lt M bound x h = Inr h' \<and> good h' \<and> size (items h') \<le> bound \<and>
    items h' + dropped = add_mset x (items h) \<and> (\<forall>d \<in># dropped. \<forall>y \<in># items h'. \<not> lt d y)"
proof (cases "size (items h) < bound")
  case True
  with minmax_lawsD [OF laws] good show ?thesis
    by (intro exI [of _ "mm_push M x h"] exI [of _ "{#}"]) (simp add: bounded_push_def)
next
  case False
  with size have full: "size (items h) = bound" by simp
  with bound have "items h \<noteq> {#}" by auto
  from minmax_lawsD(6) [OF laws good this] obtain m h1 where
    m: "mm_max M h = Inr m" "mm_pop_max M h = Inr (m, h1)" "good h1"
    "add_mset m (items h1) = items h" "\<forall>y \<in># items h. \<not> lt m y" by blast
  have size1: "size (items h) = Suc (size (items h1))" unfolding m(4) [symmetric] by simp
  show ?thesis
  proof (cases "lt x m")
    case True
    have "\<not> lt m x" using ord True by (simp add: item_order.lt_asym)
    moreover have "\<not> lt m y" if "y \<in># items h1" for y
      using m(5) that unfolding m(4) [symmetric] by simp
    moreover have "bounded_push lt M bound x h = Inr (mm_push M x h1)"
      using True full m minmax_lawsD(3) [OF laws good] by (simp add: bounded_push_def)
    moreover have items1: "good (mm_push M x h1)" "items (mm_push M x h1) = add_mset x (items h1)"
      using minmax_lawsD(4,5) [OF laws m(3)] by auto
    moreover have "items (mm_push M x h1) + {#m#} = add_mset x (items h)"
      unfolding items1(2) m(4) [symmetric] by simp
    ultimately show ?thesis
      using size1 full by (intro exI [of _ "mm_push M x h1"] exI [of _ "{#m#}"]) auto
  next
    case False
    have "\<not> lt x y" if "y \<in># items h" for y
      using item_order.lt_neg_trans [OF ord False, of y] m(5) that by blast
    moreover have "bounded_push lt M bound x h = Inr h"
      using False full m minmax_lawsD(3) [OF laws good] by (simp add: bounded_push_def)
    ultimately show ?thesis
      using good full by (intro exI [of _ h] exI [of _ "{#x#}"]) simp
  qed
qed

lemma bounded_open_list:
  assumes laws: "minmax_laws lt M items good" and bound: "0 < bound" and ord: "item_order lt"
  shows "open_list lt (mm_empty M) (bounded_push lt M bound) (mm_pop_min M) (mm_size M) items
    (\<lambda>h. good h \<and> size (items h) \<le> bound)"
proof (unfold_locales, goal_cases)
  case (4 q x)
  then obtain h' dropped where "bounded_push lt M bound x q = Inr h'" "good h'"
    "size (items h') \<le> bound" "items h' + dropped = add_mset x (items q)"
    using bounded_push_spec [OF laws _ _ bound ord] by blast
  moreover from this have "items h' \<subseteq># add_mset x (items q)"
    by (metis mset_subset_eq_add_left)
  ultimately show ?case by blast
next
  case (5 q)
  then obtain m h' where m: "mm_pop_min M q = Inr (m, h')" "good h'"
    "add_mset m (items h') = items q" "\<forall>y \<in># items q. \<not> lt y m"
    using minmax_lawsD(7) [OF laws] by blast
  from m(3) have "size (items q) = Suc (size (items h'))" by (metis size_add_mset)
  with m 5 show ?case by auto
qed (use minmax_lawsD [OF laws] in auto)


section \<open>Items\<close>

record 'n pitem =
  pi_heuristic :: rat
  pi_state :: "'n state"
  pi_idx :: nat

definition pitem_lt :: "'n pitem \<Rightarrow> 'n pitem \<Rightarrow> bool" where
  "pitem_lt a b \<longleftrightarrow>
     (let ta = length (st_todo (pi_state a)); tb = length (st_todo (pi_state b)) in
      pi_heuristic a < pi_heuristic b \<or> (pi_heuristic a = pi_heuristic b \<and>
        (ta < tb \<or> (ta = tb \<and> pi_idx a < pi_idx b))))"

record 'n novitem =
  ni_novelty :: nat
  ni_h :: rat
  ni_g_key :: int
  ni_idx :: nat
  ni_state :: "'n state"
  ni_partition :: int

definition novitem_lt :: "'n novitem \<Rightarrow> 'n novitem \<Rightarrow> bool" where
  "novitem_lt a b \<longleftrightarrow>
     (let ta = length (st_todo (ni_state a)); tb = length (st_todo (ni_state b)) in
      ni_novelty a < ni_novelty b \<or> (ni_novelty a = ni_novelty b \<and>
       (ni_h a < ni_h b \<or> (ni_h a = ni_h b \<and>
        (ni_g_key a < ni_g_key b \<or> (ni_g_key a = ni_g_key b \<and>
         (ta < tb \<or> (ta = tb \<and> ni_idx a < ni_idx b))))))))"

interpretation pitems: item_order pitem_lt
  by unfold_locales (auto simp: pitem_lt_def Let_def)

interpretation novitems: item_order novitem_lt
  by unfold_locales (auto simp: novitem_lt_def Let_def)

interpretation pqueue: full_open_list pitem_lt "[]" "pq_push pitem_lt" "heappop pitem_lt" length mset
  "heap pitem_lt"
  by (rule pitems.priority_queue_full)

interpretation novqueue: full_open_list novitem_lt "[]" "pq_push novitem_lt" "heappop novitem_lt" length mset
  "heap novitem_lt"
  by (rule novitems.priority_queue_full)

text \<open>
  The orders of the two kinds of items, as the tuples they are compared by.
\<close>

definition pitem_key :: "'n pitem \<Rightarrow> rat \<times> nat \<times> nat" where
  "pitem_key a = (pi_heuristic a, length (st_todo (pi_state a)), pi_idx a)"

definition novitem_key :: "'n novitem \<Rightarrow> nat \<times> rat \<times> int \<times> nat \<times> nat" where
  "novitem_key a = (ni_novelty a, ni_h a, ni_g_key a, length (st_todo (ni_state a)), ni_idx a)"

lemma pitem_history:
  "queue_run (priority_queue pitem_lt) ops = Inr (q, popped) \<Longrightarrow>
    least_first (priority_queue pitem_lt) mset pitem_key ops q popped"
  by (erule pqueue.history_least_first [rotated 3])
    (auto simp: priority_queue_def heappop_def pitem_key_def pitem_lt_def Let_def less_prod_def)

lemma novitem_history:
  "queue_run (priority_queue novitem_lt) ops = Inr (q, popped) \<Longrightarrow>
    least_first (priority_queue novitem_lt) mset novitem_key ops q popped"
  by (erule novqueue.history_least_first [rotated 3])
    (auto simp: priority_queue_def heappop_def novitem_key_def novitem_lt_def Let_def less_prod_def)

end
