(* ===== verification/Doubles.thy ===== *)
theory Doubles
  imports Tamer_Prelude "HOL-Library.Log_Nat"
begin

text \<open>
  Python's floats.  A finite float is the rational number it stands for; what an operation returns
  is the double nearest to the exact result, of two equally near ones that with the even
  significand.  The exponent has no upper bound: results beyond the range of a double
  (about 1.8e308) are not modelled.
\<close>

section \<open>Rounding\<close>

definition round_even :: "rat \<Rightarrow> int" where
  "round_even x = (let n = \<lfloor>x\<rfloor>; d = x - of_int n in
     if d < 1 / 2 \<or> (d = 1 / 2 \<and> even n) then n else n + 1)"

text \<open>The distance of neighbouring doubles at \<open>x\<close>: 2 to the power of what leaves a significand of 53 bits.\<close>

definition double_exponent :: "rat \<Rightarrow> int" where
  "double_exponent x = (case quotient_of x of (p, q) \<Rightarrow>
     let e = bitlen \<bar>p\<bar> - bitlen q - 53 in
     max (- 1074) (if \<bar>x\<bar> < 2 powi (e + 53) then e else e + 1))"

definition to_float :: "rat \<Rightarrow> rat" where
  "to_float x = (let u = 2 powi (double_exponent x) in of_int (round_even (x / u)) * u)"

text \<open>As it is computed, from the numerator and the denominator.\<close>

definition round_quotient :: "int \<Rightarrow> int \<Rightarrow> rat" where
  "round_quotient p q = (let e = bitlen \<bar>p\<bar> - bitlen q - 53;
     u = 2 powi (max (- 1074) (if of_int \<bar>p\<bar> / of_int q < (2 :: rat) powi (e + 53) then e else e + 1))
     in of_int (round_even (of_int p / (of_int q * u))) * u)"

lemma to_float_code [code]: "to_float x = (case quotient_of x of (p, q) \<Rightarrow> round_quotient p q)"
proof -
  obtain p q where pq: "quotient_of x = (p, q)" by (cases "quotient_of x")
  then have x: "x = of_int p / of_int q" and q: "0 < q"
    by (rule quotient_of_div) (rule quotient_of_denom_pos [OF pq])
  from q have "\<bar>x\<bar> = of_int \<bar>p\<bar> / of_int q" unfolding x by simp
  then show ?thesis
    by (simp add: pq to_float_def double_exponent_def round_quotient_def Let_def) (simp add: x)
qed

definition float_add :: "rat \<Rightarrow> rat \<Rightarrow> rat" where
  "float_add x y = to_float (to_float x + to_float y)"

definition float_mul :: "rat \<Rightarrow> rat \<Rightarrow> rat" where
  "float_mul x y = to_float (to_float x * to_float y)"

definition float_div :: "rat \<Rightarrow> rat \<Rightarrow> rat" where
  "float_div x y = to_float (to_float x / to_float y)"

section \<open>Facts\<close>

lemma round_even_of_int [simp]: "round_even (of_int n) = n"
  by (simp add: round_even_def)

lemma round_even_nonneg: "0 \<le> x \<Longrightarrow> 0 \<le> round_even x"
  by (auto simp: round_even_def Let_def intro: add_nonneg_nonneg)

text \<open>The result is within half a unit of the exact one.\<close>

lemma round_even_error: "\<bar>of_int (round_even x) - x\<bar> \<le> 1 / 2"
proof -
  have "of_int \<lfloor>x\<rfloor> \<le> x" "x < of_int \<lfloor>x\<rfloor> + 1" by (rule of_int_floor_le) (rule floor_correct [THEN conjunct2, simplified])
  then show ?thesis by (auto simp: round_even_def Let_def abs_le_iff)
qed

lemma to_float_error: "\<bar>to_float x - x\<bar> \<le> 2 powi (double_exponent x) / 2"
proof -
  let ?u = "2 powi (double_exponent x) :: rat"
  have u: "0 < ?u" by (simp add: zero_less_power_int)
  have "to_float x - x = (of_int (round_even (x / ?u)) - x / ?u) * ?u"
    using u by (simp add: to_float_def Let_def left_diff_distrib)
  then have "\<bar>to_float x - x\<bar> = \<bar>of_int (round_even (x / ?u)) - x / ?u\<bar> * ?u"
    using u by (simp add: abs_mult)
  also have "\<dots> \<le> 1 / 2 * ?u" by (intro mult_right_mono round_even_error) (use u in simp)
  finally show ?thesis by simp
qed

lemma to_float_0 [simp]: "to_float 0 = 0"
  by (simp add: to_float_def Let_def round_even_def)

lemma to_float_nonneg: "0 \<le> x \<Longrightarrow> 0 \<le> to_float x"
  unfolding to_float_def Let_def
  by (intro mult_nonneg_nonneg of_int_nonneg round_even_nonneg divide_nonneg_nonneg) (simp_all add: zero_le_power_int)

lemma round_even_nonpos: "x \<le> 0 \<Longrightarrow> round_even x \<le> 0"
proof -
  assume x: "x \<le> 0"
  then have fl: "\<lfloor>x\<rfloor> \<le> 0" by (simp add: floor_le_iff)
  show ?thesis
  proof (cases "\<lfloor>x\<rfloor> = 0")
    case True
    with x have "x = 0" using of_int_floor_le [of x] by simp
    then show ?thesis by (simp add: round_even_def)
  qed (use fl in \<open>auto simp: round_even_def Let_def\<close>)
qed

lemma to_float_nonpos: "x \<le> 0 \<Longrightarrow> to_float x \<le> 0"
  unfolding to_float_def Let_def
  proof (rule mult_nonpos_nonneg)
  assume "x \<le> 0"
  then have "x / 2 powi (double_exponent x) \<le> 0" by (intro divide_nonpos_nonneg) (simp_all add: zero_le_power_int)
  then show "of_int (round_even (x / 2 powi (double_exponent x))) \<le> (0 :: rat)"
    using round_even_nonpos by (simp add: of_int_le_0_iff)
qed (simp add: zero_le_power_int)

text \<open>Quotients of numbers of opposite signs.\<close>

lemma float_div_nonneg:
  assumes "x \<le> 0" "y \<le> 0"
  shows "0 \<le> float_div x y"
  unfolding float_div_def
  by (intro to_float_nonneg divide_nonpos_nonpos to_float_nonpos assms)

text \<open>Integers of at most 53 bits are exact.\<close>

lemma to_float_of_int:
  assumes "\<bar>n\<bar> < 2 ^ 53"
  shows "to_float (of_int n) = of_int n"
proof -
  let ?e = "double_exponent (of_int n)"
  have q: "quotient_of (of_int n) = (n, 1)"
    by (simp add: of_int_rat quotient_of_Fract normalize_stable)
  have "bitlen \<bar>n\<bar> \<le> 53"
    using assms bitlen_le_iff_power [of "\<bar>n\<bar>" 53] by simp
  moreover have "bitlen 1 = 1" by code_simp
  ultimately have "?e \<le> 0" by (auto simp: double_exponent_def q Let_def)
  then have u: "(2 :: rat) powi ?e = inverse (2 ^ nat (- ?e))"
    by (simp add: power_int_def power_one_over inverse_eq_divide)
  have "of_int n / 2 powi ?e = (of_int (n * 2 ^ nat (- ?e)) :: rat)"
    unfolding u by (simp add: divide_inverse)
  then have "round_even (of_int n / 2 powi ?e) = n * 2 ^ nat (- ?e)" by (simp only: round_even_of_int)
  then have "to_float (of_int n) = of_int (n * 2 ^ nat (- ?e)) * inverse (2 ^ nat (- ?e))"
    unfolding to_float_def Let_def u [symmetric] by simp
  then show ?thesis by (simp add: mult.assoc)
qed

end
