(* ===== verification/Search.thy ===== *)
theory Search
  imports Dedup Open_Lists Doubles
begin

text \<open>
  The searches of \<open>src/tamerlite/core/search.py\<close>: breadth- and depth-first search,
  enforced hill climbing, and the priority-queue search that weighted A*, A*, greedy
  best-first and novelty search instantiate, with their memory-bounded variants.

  The clock is a parameter: \<open>out k\<close> says whether the timeout has passed at the \<open>k\<close>-th time
  it is looked at.  A heuristic is a function of the state; values of Python's \<open>float\<close> are
  rationals.  A result is the plan, the number of expanded states and the depth of the
  goal, as in the dictionary the code returns.
\<close>

section \<open>Common parts\<close>

type_synonym search_result = "action list option \<times> nat \<times> nat option"

definition check_expansion_limit :: "nat \<Rightarrow> nat option \<Rightarrow> unit res" where
  "check_expansion_limit expanded limit = (case limit of
     None \<Rightarrow> Inr ()
   | Some m \<Rightarrow> if m \<le> expanded then Inl (ExpansionLimit m) else Inr ())"

definition extract_path :: "'n state \<Rightarrow> action list" where
  "extract_path s = map fst (st_path s)"

definition found :: "'n state \<Rightarrow> nat \<Rightarrow> search_result" where
  "found s expanded = (Some (extract_path s), expanded, Some (st_g s))"

definition not_found :: "nat \<Rightarrow> search_result" where
  "not_found expanded = (None, expanded, None)"

text \<open>The check at the head of a round: clock, then limit.\<close>

definition may_expand :: "(nat \<Rightarrow> bool) \<Rightarrow> nat option \<Rightarrow> nat \<Rightarrow> nat \<Rightarrow> unit res" where
  "may_expand out limit tick expanded =
     (if out tick then Inl Timeout else check_expansion_limit expanded limit)"

text \<open>The loop over the generator of successors; the counter is that of the search space.\<close>

definition over_successors ::
    "'n problem_space \<Rightarrow> 'n state \<Rightarrow> ('n state \<Rightarrow> 'a \<Rightarrow> ('r + 'a) res) \<Rightarrow> 'a \<Rightarrow> nat \<Rightarrow>
     ('r + ('a \<times> nat)) res" where
  "over_successors S s body acc c = rloop (\<lambda>a (acc, c).
     rbind (ss_successor S s a c) (\<lambda>(r, c').
       case r of None \<Rightarrow> Inr (Inr (acc, c'))
       | Some s' \<Rightarrow> rbind (body s' acc) (\<lambda>x.
           case x of Inl res \<Rightarrow> Inr (Inl res) | Inr acc' \<Rightarrow> Inr (Inr (acc', c')))))
     (ss_relevant S) (acc, c)"

text \<open>The goal test of the state that is being expanded, and of a generated one.\<close>

definition goal_at_expansion :: "'n problem_space \<Rightarrow> bool \<Rightarrow> 'n state \<Rightarrow> bool res" where
  "goal_at_expansion S early s = (if \<not> early then ss_goal S s else Inr False)"

definition goal_at_generation :: "'n problem_space \<Rightarrow> bool \<Rightarrow> 'n state \<Rightarrow> bool res" where
  "goal_at_generation S early s = (if early then ss_goal S s else Inr False)"


section \<open>Breadth-first and depth-first search\<close>

record 'n basic =
  ba_open :: "'n state list"
  ba_expanded :: nat
  ba_generated :: nat
  ba_counter :: nat

definition basic_successor ::
    "'n problem_space \<Rightarrow> bool \<Rightarrow> nat \<Rightarrow> 'n state \<Rightarrow> 'n state list \<times> nat \<Rightarrow>
     (search_result + 'n state list \<times> nat) res" where
  "basic_successor S early expanded s acc =
     rbind (goal_at_generation S early s) (\<lambda>g.
       if g then Inr (Inl (found s expanded))
       else Inr (Inr (fst acc @ [s], snd acc + 1)))"

definition basic_round ::
    "'n problem_space \<Rightarrow> bool \<Rightarrow> (nat \<Rightarrow> bool) \<Rightarrow> nat option \<Rightarrow> bool \<Rightarrow> 'n basic \<Rightarrow>
     (search_result + 'n basic) res" where
  "basic_round S bfs out limit early b =
     (if ba_open b = [] then Inr (Inl (not_found (ba_expanded b)))
      else rbind (may_expand out limit (ba_expanded b) (ba_expanded b)) (\<lambda>_.
        let s = (if bfs then hd (ba_open b) else last (ba_open b));
            rest = (if bfs then tl (ba_open b) else butlast (ba_open b));
            n = ba_expanded b + 1
        in rbind (goal_at_expansion S early s) (\<lambda>g.
          if g then Inr (Inl (found s n))
          else rbind (over_successors S s (basic_successor S early n) (rest, ba_generated b) (ba_counter b))
            (\<lambda>x. case x of Inl res \<Rightarrow> Inr (Inl res)
             | Inr ((open', gen), c) \<Rightarrow>
                 Inr (Inr \<lparr>ba_open = open', ba_expanded = n, ba_generated = gen, ba_counter = c\<rparr>)))))"

definition basic_search ::
    "'n problem_space \<Rightarrow> bool \<Rightarrow> (nat \<Rightarrow> bool) \<Rightarrow> nat option \<Rightarrow> bool \<Rightarrow> nat \<Rightarrow> search_result res" where
  "basic_search S bfs out limit early c =
     rbind (ss_initial S c) (\<lambda>(init, c). case init of
       None \<Rightarrow> Inr (not_found 0)
     | Some s \<Rightarrow> rbind (goal_at_generation S early s) (\<lambda>g.
         if g then Inr (found s 0)
         else run_rounds (basic_round S bfs out limit early)
           \<lparr>ba_open = [s], ba_expanded = 0, ba_generated = 1, ba_counter = c\<rparr>))"

definition bfs_search ::
    "'n problem_space \<Rightarrow> (nat \<Rightarrow> bool) \<Rightarrow> nat option \<Rightarrow> bool \<Rightarrow> nat \<Rightarrow> search_result res" where
  "bfs_search S = basic_search S True"

definition dfs_search ::
    "'n problem_space \<Rightarrow> (nat \<Rightarrow> bool) \<Rightarrow> nat option \<Rightarrow> bool \<Rightarrow> nat \<Rightarrow> search_result res" where
  "dfs_search S = basic_search S False"


section \<open>Heuristics, as the searches use them\<close>

record 'n heuristic =
  he_name :: string
  he_caches :: bool
  he_value :: "'n state \<Rightarrow> rat option res"

text \<open>\<open>Heuristic.eval\<close>: the state comes back with its cache.\<close>

definition heuristic_eval :: "'n heuristic \<Rightarrow> 'n state \<Rightarrow> (rat option \<times> 'n state) res" where
  "heuristic_eval H s =
     (case (if he_caches H then dict_get (st_hcache s) (he_name H) else None) of
        Some h \<Rightarrow> Inr (h, s)
      | None \<Rightarrow> rbind (he_value H s) (\<lambda>h.
          Inr (h, if he_caches H then s\<lparr>st_hcache := dict_set (he_name H) h (st_hcache s)\<rparr> else s)))"


section \<open>Enforced hill climbing\<close>

record 'n ehc =
  eh_open :: "'n state list"
  eh_best :: rat
  eh_closed :: "'n visited"
  eh_expanded :: nat
  eh_generated :: nat
  eh_counter :: nat

definition ehc_successor ::
    "'n problem_space \<Rightarrow> bool \<Rightarrow> nat \<Rightarrow> 'n visited \<Rightarrow> 'n state \<Rightarrow> 'n state list \<Rightarrow>
     (search_result + 'n state list) res" where
  "ehc_successor S early expanded clos s cands =
     rbind (goal_at_generation S early s) (\<lambda>g.
       if g then Inr (Inl (found s expanded))
       else rbind (visited_is_redundant S clos s) (\<lambda>red.
         Inr (Inr (if red then cands else cands @ [s]))))"

text \<open>The loop over the evaluated candidates: \<open>Inl\<close> leaves it at an improving one.\<close>

definition ehc_candidate :: "'n heuristic \<Rightarrow> 'n state \<Rightarrow> 'n ehc \<Rightarrow> ('n ehc + 'n ehc) res" where
  "ehc_candidate H s e =
     rbind (heuristic_eval H s) (\<lambda>(h, s').
       let e1 = e\<lparr>eh_generated := eh_generated e + 1\<rparr> in
       Inr (case h of
         None \<Rightarrow> Inr e1
       | Some v \<Rightarrow>
           if v < eh_best e
           then Inl (e1\<lparr>eh_best := v, eh_closed := visited_clear (eh_closed e), eh_open := [s']\<rparr>)
           else Inr (e1\<lparr>eh_open := eh_open e @ [s']\<rparr>)))"

definition ehc_round ::
    "'n problem_space \<Rightarrow> 'n heuristic \<Rightarrow> (nat \<Rightarrow> bool) \<Rightarrow> nat option \<Rightarrow> bool \<Rightarrow> 'n ehc \<Rightarrow>
     (search_result + 'n ehc) res" where
  "ehc_round S H out limit early e =
     (case eh_open e of [] \<Rightarrow> Inr (Inl (not_found (eh_expanded e)))
      | s # rest \<Rightarrow> rbind (may_expand out limit (eh_expanded e) (eh_expanded e)) (\<lambda>_.
        let n = eh_expanded e + 1 in
        rbind (visited_insert S s (eh_closed e)) (\<lambda>(_, clos).
        rbind (goal_at_expansion S early s) (\<lambda>g.
          if g then Inr (Inl (found s n))
          else rbind (over_successors S s (ehc_successor S early n clos) [] (eh_counter e))
            (\<lambda>x. case x of Inl res \<Rightarrow> Inr (Inl res)
             | Inr (cands, c) \<Rightarrow>
                 rbind (rloop (ehc_candidate H) cands
                   (e\<lparr>eh_open := rest, eh_closed := clos, eh_expanded := n, eh_counter := c\<rparr>))
                 (\<lambda>y. Inr (Inr (case y of Inl e' \<Rightarrow> e' | Inr e' \<Rightarrow> e'))))))))"

definition ehc_search ::
    "'n problem_space \<Rightarrow> 'n heuristic \<Rightarrow> (nat \<Rightarrow> bool) \<Rightarrow> nat option \<Rightarrow> bool \<Rightarrow> bool \<Rightarrow> nat \<Rightarrow>
     search_result res" where
  "ehc_search S H out limit early weak c =
     rbind (ss_initial S c) (\<lambda>(init, c). case init of
       None \<Rightarrow> Inr (not_found 0)
     | Some s \<Rightarrow> rbind (goal_at_generation S early s) (\<lambda>g.
         if g then Inr (found s 0)
         else rbind (heuristic_eval H s) (\<lambda>(h, s'). case h of
             None \<Rightarrow> Inr (not_found 0)
           | Some best \<Rightarrow> run_rounds (ehc_round S H out limit early)
               \<lparr>eh_open = [s'], eh_best = best, eh_closed = visited_new S weak, eh_expanded = 0,
                eh_generated = 1, eh_counter = c\<rparr>)))"


section \<open>Priority-queue search\<close>

text \<open>How a search makes its items; \<open>'x\<close> is what it keeps besides (the novelty tables).\<close>

record ('n, 'i, 'x) item_ops =
  it_state :: "'i \<Rightarrow> 'n state"
  it_root :: "'n state \<Rightarrow> rat \<Rightarrow> 'x \<Rightarrow> ('i \<times> 'x) res"
  it_child :: "'i \<Rightarrow> 'n state \<Rightarrow> rat \<Rightarrow> nat \<Rightarrow> 'x \<Rightarrow> ('i \<times> 'x) res"
  it_begin :: "'x \<Rightarrow> 'x"

record ('q, 'd, 'x) prio =
  pr_open :: 'q
  pr_dedup :: 'd
  pr_aux :: 'x
  pr_expanded :: nat
  pr_generated :: nat
  pr_counter :: nat

definition prio_successor ::
    "'n problem_space \<Rightarrow> ('n, 'd) dedup_ops \<Rightarrow> bool \<Rightarrow> nat \<Rightarrow> 'n state \<Rightarrow> 'n state list \<times> 'd \<Rightarrow>
     (search_result + 'n state list \<times> 'd) res" where
  "prio_successor S D early expanded s acc =
     rbind (goal_at_generation S early s) (\<lambda>g.
       if g then Inr (Inl (found s expanded))
       else rbind (dd_insert D s (snd acc)) (\<lambda>(new, d).
         Inr (Inr (if new then fst acc @ [s] else fst acc, d))))"

definition prio_candidate ::
    "'n heuristic \<Rightarrow> ('i, 'q) open_ops \<Rightarrow> ('n, 'i, 'x) item_ops \<Rightarrow> 'i \<Rightarrow> 'n state \<Rightarrow> 'q \<times> 'x \<times> nat \<Rightarrow>
     ('q \<times> 'x \<times> nat) res" where
  "prio_candidate H Q I item s acc = (case acc of (q, x, gen) \<Rightarrow>
     rbind (heuristic_eval H s) (\<lambda>(h, s'). case h of
       None \<Rightarrow> Inr (q, x, gen + 1)
     | Some v \<Rightarrow> rbind (it_child I item s' v gen x) (\<lambda>(child, x').
         rbind (ol_push Q child q) (\<lambda>q'. Inr (q', x', gen + 1)))))"

definition prio_round ::
    "'n problem_space \<Rightarrow> 'n heuristic \<Rightarrow> ('i, 'q) open_ops \<Rightarrow> ('n, 'd) dedup_ops \<Rightarrow>
     ('n, 'i, 'x) item_ops \<Rightarrow> (nat \<Rightarrow> bool) \<Rightarrow> nat option \<Rightarrow> bool \<Rightarrow> ('q, 'd, 'x) prio \<Rightarrow>
     (search_result + ('q, 'd, 'x) prio) res" where
  "prio_round S H Q D I out limit early p =
     (if ol_len Q (pr_open p) = 0 then Inr (Inl (not_found (pr_expanded p)))
      else rbind (may_expand out limit (pr_expanded p) (pr_expanded p)) (\<lambda>_.
        rbind (ol_pop Q (pr_open p)) (\<lambda>(item, q).
        let s = it_state I item; n = pr_expanded p + 1 in
        rbind (goal_at_expansion S early s) (\<lambda>g.
          if g then Inr (Inl (found s n))
          else rbind (over_successors S s (prio_successor S D early n) ([], pr_dedup p) (pr_counter p))
            (\<lambda>y. case y of Inl res \<Rightarrow> Inr (Inl res)
             | Inr ((cands, d), c) \<Rightarrow>
                 rbind (rfold (prio_candidate H Q I item) cands (q, it_begin I (pr_aux p), pr_generated p))
                   (\<lambda>(q', x, gen). Inr (Inr \<lparr>pr_open = q', pr_dedup = d, pr_aux = x, pr_expanded = n,
                      pr_generated = gen, pr_counter = c\<rparr>)))))))"

definition priority_search ::
    "'n problem_space \<Rightarrow> 'n heuristic \<Rightarrow> ('i, 'q) open_ops \<Rightarrow> ('n, 'd) dedup_ops \<Rightarrow>
     ('n, 'i, 'x) item_ops \<Rightarrow> (nat \<Rightarrow> bool) \<Rightarrow> nat option \<Rightarrow> bool \<Rightarrow> 'x \<Rightarrow> nat \<Rightarrow> search_result res" where
  "priority_search S H Q D I out limit early x c =
     rbind (ss_initial S c) (\<lambda>(init, c). case init of
       None \<Rightarrow> Inr (not_found 0)
     | Some s \<Rightarrow> rbind (dd_insert D s (dd_new D)) (\<lambda>(_, d).
         rbind (goal_at_generation S early s) (\<lambda>g.
         if g then Inr (found s 0)
         else rbind (heuristic_eval H s) (\<lambda>(h, s'). case h of
             None \<Rightarrow> Inr (not_found 0)
           | Some v \<Rightarrow> rbind (it_root I s' v x) (\<lambda>(root, x').
               rbind (ol_push Q root (ol_empty Q)) (\<lambda>q.
               run_rounds (prio_round S H Q D I out limit early)
                 \<lparr>pr_open = q, pr_dedup = d, pr_aux = x', pr_expanded = 0, pr_generated = 1,
                  pr_counter = c\<rparr>))))))"


section \<open>Weighted A*, A* and greedy best-first search\<close>

text \<open>\<open>(1 - weight) * g + weight * h\<close>, in floats.\<close>

definition weighted_value :: "rat \<Rightarrow> nat \<Rightarrow> rat \<Rightarrow> rat" where
  "weighted_value weight g h =
     float_add (float_mul (float_add 1 (- weight)) (of_nat g)) (float_mul weight h)"

definition wastar_items :: "rat \<Rightarrow> ('n, 'n pitem, unit) item_ops" where
  "wastar_items weight =
     \<lparr>it_state = pi_state,
      it_root = (\<lambda>s h x. Inr (\<lparr>pi_heuristic = h, pi_state = s, pi_idx = 0\<rparr>, x)),
      it_child = (\<lambda>item s h i x. Inr (\<lparr>pi_heuristic = weighted_value weight (st_g s) h,
        pi_state = s, pi_idx = i\<rparr>, x)),
      it_begin = (\<lambda>x. x)\<rparr>"

definition wastar_search ::
    "'n problem_space \<Rightarrow> 'n heuristic \<Rightarrow> rat \<Rightarrow> (nat \<Rightarrow> bool) \<Rightarrow> nat option \<Rightarrow> bool \<Rightarrow> bool \<Rightarrow> nat \<Rightarrow>
     search_result res" where
  "wastar_search S H weight out limit early weak c =
     priority_search S H (priority_queue pitem_lt) (visited_states S weak) (wastar_items weight)
       out limit early () c"

definition astar_search ::
    "'n problem_space \<Rightarrow> 'n heuristic \<Rightarrow> (nat \<Rightarrow> bool) \<Rightarrow> nat option \<Rightarrow> bool \<Rightarrow> bool \<Rightarrow> nat \<Rightarrow>
     search_result res" where
  "astar_search S H = wastar_search S H (1 / 2)"

definition gbfs_search ::
    "'n problem_space \<Rightarrow> 'n heuristic \<Rightarrow> (nat \<Rightarrow> bool) \<Rightarrow> nat option \<Rightarrow> bool \<Rightarrow> bool \<Rightarrow> nat \<Rightarrow>
     search_result res" where
  "gbfs_search S H = wastar_search S H 1"

definition wastar_search_memory_bounded ::
    "('n pitem, 'h) minmax \<Rightarrow> 'f bloom \<Rightarrow> 'n problem_space \<Rightarrow> 'n heuristic \<Rightarrow> rat \<Rightarrow> (nat \<Rightarrow> bool) \<Rightarrow>
     nat option \<Rightarrow> bool \<Rightarrow> bool \<Rightarrow> nat \<Rightarrow> search_result res" where
  "wastar_search_memory_bounded M B S H weight out limit early weak c =
     rbind (bounded_queue pitem_lt M queue_bound) (\<lambda>Q.
       priority_search S H Q (bloom_states B S weak) (wastar_items weight) out limit early () c)"

definition astar_search_memory_bounded ::
    "('n pitem, 'h) minmax \<Rightarrow> 'f bloom \<Rightarrow> 'n problem_space \<Rightarrow> 'n heuristic \<Rightarrow> (nat \<Rightarrow> bool) \<Rightarrow>
     nat option \<Rightarrow> bool \<Rightarrow> bool \<Rightarrow> nat \<Rightarrow> search_result res" where
  "astar_search_memory_bounded M B S H = wastar_search_memory_bounded M B S H (1 / 2)"

definition gbfs_search_memory_bounded ::
    "('n pitem, 'h) minmax \<Rightarrow> 'f bloom \<Rightarrow> 'n problem_space \<Rightarrow> 'n heuristic \<Rightarrow> (nat \<Rightarrow> bool) \<Rightarrow>
     nat option \<Rightarrow> bool \<Rightarrow> bool \<Rightarrow> nat \<Rightarrow> search_result res" where
  "gbfs_search_memory_bounded M B S H = wastar_search_memory_bounded M B S H 1"


section \<open>Novelty search\<close>

text \<open>The operations of \<open>NumericNovelty\<close> the search calls; \<open>'x\<close> are its tables.\<close>

record ('n, 'x) novelty_ops =
  nv_start :: "rat \<Rightarrow> 'x \<Rightarrow> (int \<times> 'x) res"
  nv_partition_of :: "rat \<Rightarrow> 'x \<Rightarrow> int res"
  nv_eval :: "'n state \<Rightarrow> int \<Rightarrow> ('n state \<times> int) option \<Rightarrow> 'x \<Rightarrow> (nat \<times> 'x) res"
  nv_begin_expansion :: "'x \<Rightarrow> 'x"

definition nov_g_key :: "bool \<Rightarrow> nat \<Rightarrow> int" where
  "nov_g_key prefer_higher_g g = (if prefer_higher_g then - int g else int g)"

definition novbfs_items :: "('n, 'x) novelty_ops \<Rightarrow> bool \<Rightarrow> ('n, 'n novitem, 'x) item_ops" where
  "novbfs_items N hg =
     \<lparr>it_state = ni_state,
      it_root = (\<lambda>s h x. rbind (nv_start N h x) (\<lambda>(part, x1).
        rbind (nv_eval N s part None x1) (\<lambda>(_, x2).
          Inr (\<lparr>ni_novelty = 1, ni_h = h, ni_g_key = nov_g_key hg (st_g s), ni_idx = 0,
            ni_state = s, ni_partition = part\<rparr>, x2)))),
      it_child = (\<lambda>item s h i x. rbind (nv_partition_of N h x) (\<lambda>part.
        rbind (nv_eval N s part (Some (ni_state item, ni_partition item)) x) (\<lambda>(nov, x').
          Inr (\<lparr>ni_novelty = nov, ni_h = h, ni_g_key = nov_g_key hg (st_g s), ni_idx = i,
            ni_state = s, ni_partition = part\<rparr>, x')))),
      it_begin = nv_begin_expansion N\<rparr>"

definition novbfs_search ::
    "'n problem_space \<Rightarrow> 'n heuristic \<Rightarrow> ('n, 'x) novelty_ops \<Rightarrow> 'x \<Rightarrow> bool \<Rightarrow> (nat \<Rightarrow> bool) \<Rightarrow> nat option \<Rightarrow>
     bool \<Rightarrow> bool \<Rightarrow> nat \<Rightarrow> search_result res" where
  "novbfs_search S H N x hg out limit early weak c =
     priority_search S H (priority_queue novitem_lt) (visited_states S weak) (novbfs_items N hg)
       out limit early x c"

definition novbfs_search_memory_bounded ::
    "('n novitem, 'h) minmax \<Rightarrow> 'f bloom \<Rightarrow> 'n problem_space \<Rightarrow> 'n heuristic \<Rightarrow> ('n, 'x) novelty_ops \<Rightarrow>
     'x \<Rightarrow> bool \<Rightarrow> (nat \<Rightarrow> bool) \<Rightarrow> nat option \<Rightarrow> bool \<Rightarrow> bool \<Rightarrow> nat \<Rightarrow> search_result res" where
  "novbfs_search_memory_bounded M B S H N x hg out limit early weak c =
     rbind (bounded_queue novitem_lt M queue_bound) (\<lambda>Q.
       priority_search S H Q (bloom_states B S weak) (novbfs_items N hg) out limit early x c)"

end
