(* ===== verification/Dedup_Facts.thy ===== *)
theory Dedup_Facts
  imports Dedup
begin

text \<open>
  The keys of the visited-state store are compared by an equivalence, and the store
  answers exactly what its history of insertions says.
\<close>

section \<open>Equality of keys\<close>

definition keyed :: "'n problem_space \<Rightarrow> 'n state \<Rightarrow> bool" where
  "keyed S s \<longleftrightarrow> dict_wf (st_todo s) \<and> (\<not> ss_temporal S \<longrightarrow> st_tn s = None)"

definition pending_index :: "'n state \<Rightarrow> action \<Rightarrow> nat option" where
  "pending_index s a = map_option fst (dict_get (st_todo s) a)"

lemma todo_matches_iff:
  "todo_matches d e \<longleftrightarrow> (\<forall>(a, i, eid) \<in> set d. map_option fst (dict_get e a) = Some i)"
proof (induction d)
  case (Cons p d)
  obtain a i eid where "p = (a, i, eid)" by (cases p) auto
  with Cons show ?case by (cases "dict_get e a") (auto split: if_splits)
qed simp

lemma weak_eq_iff:
  assumes "dict_wf (st_todo s)" "dict_wf (st_todo t)"
  shows "weak_eq s t \<longleftrightarrow> assignments_eq (st_assignments s) (st_assignments t) \<and>
    pending_index s = pending_index t"
proof -
  let ?ks = "fst ` set (st_todo s)" and ?kt = "fst ` set (st_todo t)"
  have card: "card ?ks = length (st_todo s)" "card ?kt = length (st_todo t)"
    using assms distinct_card [of "map fst (st_todo s)"] distinct_card [of "map fst (st_todo t)"]
    by (simp_all add: dict_wf_def)
  have dom: "a \<in> ?ks \<longleftrightarrow> pending_index s a \<noteq> None" "a \<in> ?kt \<longleftrightarrow> pending_index t a \<noteq> None" for a
    by (auto simp: pending_index_def map_of_eq_None_iff)
  have matches: "todo_matches (st_todo s) (st_todo t) \<longleftrightarrow> (\<forall>a \<in> ?ks. pending_index t a = pending_index s a)"
  proof -
    have "pending_index s a = Some i" if "(a, i, eid) \<in> set (st_todo s)" for a i eid
      using that dict_get_mem [OF assms(1)] by (force simp: pending_index_def)
    then show ?thesis
      by (fastforce simp: todo_matches_iff pending_index_def [of t])
  qed
  show ?thesis
  proof
    assume eq: "weak_eq s t"
    then have len: "length (st_todo s) = length (st_todo t)"
      and m: "\<forall>a \<in> ?ks. pending_index t a = pending_index s a"
      and asg: "assignments_eq (st_assignments s) (st_assignments t)"
      using matches by (auto simp: weak_eq_def split: if_splits)
    have "?ks \<subseteq> ?kt"
    proof
      fix a assume "a \<in> ?ks"
      with m dom [of a] show "a \<in> ?kt" by auto
    qed
    then have "?ks = ?kt" using card len by (intro card_subset_eq) auto
    then have "pending_index s a = pending_index t a" for a
      using m dom [of a] by (cases "a \<in> ?ks") auto
    with asg show "assignments_eq (st_assignments s) (st_assignments t) \<and> pending_index s = pending_index t"
      by auto
  next
    assume eq: "assignments_eq (st_assignments s) (st_assignments t) \<and> pending_index s = pending_index t"
    then have "?ks = ?kt" by (intro set_eqI) (simp add: dom)
    with card have "length (st_todo s) = length (st_todo t)" by simp
    with eq matches show "weak_eq s t" by (simp add: weak_eq_def)
  qed
qed

lemma repr_eq_iff:
  assumes "keyed S s" "keyed S t"
  shows "repr_eq S s t \<longleftrightarrow> assignments_eq (st_assignments s) (st_assignments t) \<and>
    (ss_temporal S \<longrightarrow> pending_index s = pending_index t)"
  using assms weak_eq_iff [of s t] by (auto simp: repr_eq_def keyed_def state_eq_def)

lemma repr_eq_refl: "keyed S s \<Longrightarrow> repr_eq S s s"
  by (simp add: repr_eq_iff)

lemma repr_eq_sym: "keyed S s \<Longrightarrow> keyed S t \<Longrightarrow> repr_eq S s t \<Longrightarrow> repr_eq S t s"
  by (auto simp: repr_eq_iff intro: assignments_eq_sym)

lemma repr_eq_trans:
  "keyed S s \<Longrightarrow> keyed S t \<Longrightarrow> keyed S u \<Longrightarrow> repr_eq S s t \<Longrightarrow> repr_eq S t u \<Longrightarrow> repr_eq S s u"
  using assignments_eq_trans by (auto simp: repr_eq_iff)

text \<open>States with the same key fall under the same rule.\<close>

lemma pending_index_todo:
  assumes "dict_wf (st_todo s)" "dict_wf (st_todo t)" "pending_index s = pending_index t"
  shows "length (st_todo s) = length (st_todo t)" "in_todo x (st_todo s) = in_todo x (st_todo t)"
proof -
  have mem: "dict_get (st_todo s) a \<noteq> None \<longleftrightarrow> dict_get (st_todo t) a \<noteq> None" for a
    using fun_cong [OF assms(3), of a] 
    by (cases "dict_get (st_todo s) a"; cases "dict_get (st_todo t) a") (auto simp: pending_index_def)
  then have "set (map fst (st_todo s)) = set (map fst (st_todo t))"
    by (auto simp: map_of_eq_None_iff)
  then show "length (st_todo s) = length (st_todo t)"
    using assms(1,2) distinct_card unfolding dict_wf_def by (metis length_map)
  show "in_todo x (st_todo s) = in_todo x (st_todo t)"
    using mem by (auto simp: in_todo_def split: option.split)
qed

lemma rule_same_key:
  assumes "keyed S s" "keyed S t" "repr_eq S s t" "ss_temporal S \<or> pol = DedupAll"
  shows "dedup_rule_of pol s x = dedup_rule_of pol t x"
proof (cases "pol = DedupAll")
  case False
  with assms have "pending_index s = pending_index t" by (simp add: repr_eq_iff)
  with assms(1,2) pending_index_todo [of s t] have "length (st_todo s) = length (st_todo t)"
    "in_todo x (st_todo s) = in_todo x (st_todo t)" by (auto simp: keyed_def)
  moreover from this(1) have "st_todo s = [] \<longleftrightarrow> st_todo t = []" by auto
  ultimately show ?thesis by (simp add: dedup_rule_of_def)
qed (simp add: dedup_rule_of_def)


section \<open>The store answers for its history\<close>

text \<open>
  \<open>redundant_spec S pol hist s\<close>: some state of the history makes \<open>s\<close> redundant.
\<close>

definition redundant_spec :: "'n problem_space \<Rightarrow> dedup_policy \<Rightarrow> 'n state list \<Rightarrow> 'n state \<Rightarrow> bool" where
  "redundant_spec S pol hist s \<longleftrightarrow>
     (case dedup_rule_of pol s (ss_timed S) of
        None \<Rightarrow> False
      | Some Equal \<Rightarrow> (\<exists>t \<in> set hist. repr_eq S t s)
      | Some Dominance \<Rightarrow> (\<exists>t \<in> set hist. \<exists>m m'. repr_eq S t s \<and> ss_makespan S t = Inr m \<and>
          ss_makespan S s = Inr m' \<and> m + ss_epsilon S \<le> m'))"

text \<open>The smallest makespan of the states of a history with the key of \<open>u\<close>.\<close>

definition best_of :: "'n problem_space \<Rightarrow> 'n state list \<Rightarrow> 'n state \<Rightarrow> rat option \<Rightarrow> bool" where
  "best_of S hist u om \<longleftrightarrow> (case om of
     None \<Rightarrow> \<not> (\<exists>t \<in> set hist. repr_eq S t u)
   | Some m \<Rightarrow> (\<exists>t \<in> set hist. repr_eq S t u \<and> ss_makespan S t = Inr m) \<and>
       (\<forall>t \<in> set hist. repr_eq S t u \<longrightarrow> (\<exists>m'. ss_makespan S t = Inr m' \<and> m \<le> m')))"

text \<open>What the store holds after the insertions \<open>hist\<close>, seen through the keys.\<close>

definition store_of :: "'n problem_space \<Rightarrow> 'n visited \<Rightarrow> 'n state list \<Rightarrow> bool" where
  "store_of S v hist \<longleftrightarrow>
     (\<forall>t \<in> set hist. keyed S t) \<and> set (vs_seen v) \<subseteq> set hist \<and> fst ` set (vs_makespans v) \<subseteq> set hist \<and>
     (ss_temporal S \<or> vs_policy v = DedupAll) \<and>
     (\<forall>u. keyed S u \<longrightarrow> dedup_rule_of (vs_policy v) u (ss_timed S) = Some Equal \<longrightarrow>
        seen_mem S u (vs_seen v) = (\<exists>t \<in> set hist. repr_eq S t u)) \<and>
     (\<forall>u. keyed S u \<longrightarrow> dedup_rule_of (vs_policy v) u (ss_timed S) = Some Dominance \<longrightarrow>
        best_of S hist u (key_get S (vs_makespans v) u))"

lemma best_of_other: "\<not> repr_eq S s u \<Longrightarrow> best_of S (hist @ [s]) u om = best_of S hist u om"
  by (auto simp: best_of_def split: option.split)

lemma best_of_worse:
  "best_of S hist u (Some m) \<Longrightarrow> ss_makespan S s = Inr m' \<Longrightarrow> m \<le> m' \<Longrightarrow>
     best_of S (hist @ [s]) u (Some m)"
  by (auto simp: best_of_def)

lemma best_of_better:
  assumes "best_of S hist u om" "ss_makespan S s = Inr m'" "repr_eq S s u"
    and "\<forall>m. om = Some m \<longrightarrow> m' \<le> m"
  shows "best_of S (hist @ [s]) u (Some m')"
  using assms by (fastforce simp: best_of_def split: option.splits)

lemma key_get_set:
  assumes "keyed S s" "keyed S u" "\<forall>p \<in> set d. keyed S (fst p)"
  shows "key_get S (key_set S s m d) u = (if repr_eq S s u then Some m else key_get S d u)"
  using assms(3)
proof (induction d)
  case (Cons p d)
  obtain t m' where p: "p = (t, m')" by fastforce
  with Cons.prems have "keyed S t" by simp
  with assms(1,2) have "repr_eq S t s \<Longrightarrow> repr_eq S t u = repr_eq S s u"
    "\<not> repr_eq S t s \<Longrightarrow> repr_eq S s u \<Longrightarrow> \<not> repr_eq S t u"
    using repr_eq_trans repr_eq_sym by blast+
  with p Cons show ?case by auto
qed simp

lemma key_set_fst: "fst ` set (key_set S s m d) \<subseteq> insert s (fst ` set d)"
  by (induction S s m d rule: key_set.induct) auto

lemma key_get_cong:
  assumes "keyed S s" "keyed S u" "repr_eq S s u" "\<forall>p \<in> set d. keyed S (fst p)"
  shows "key_get S d u = key_get S d s"
  using assms(4)
proof (induction d)
  case (Cons p d)
  obtain t m where p: "p = (t, m)" by fastforce
  with Cons.prems have "keyed S t" by simp
  with assms have "repr_eq S t u = repr_eq S t s"
    using repr_eq_trans repr_eq_sym by blast
  with p Cons show ?case by auto
qed simp

lemma store_of_new:
  "store_of S (visited_new S weak) []"
  by (auto simp: store_of_def visited_new_def policy_of_def seen_mem_def best_of_def)

text \<open>Recording \<open>s\<close> in the store under its rule.\<close>

lemma store_of_snoc:
  assumes store: "store_of S v hist" and keyed: "keyed S s"
    and same: "vs_policy v' = vs_policy v"
    and sub: "set (vs_seen v') \<subseteq> insert s (set (vs_seen v))"
      "fst ` set (vs_makespans v') \<subseteq> insert s (fst ` set (vs_makespans v))"
    and equal: "\<And>u. keyed S u \<Longrightarrow> dedup_rule_of (vs_policy v) u (ss_timed S) = Some Equal \<Longrightarrow>
      seen_mem S u (vs_seen v') = (repr_eq S s u \<or> seen_mem S u (vs_seen v))"
    and dom: "\<And>u. keyed S u \<Longrightarrow> dedup_rule_of (vs_policy v) u (ss_timed S) = Some Dominance \<Longrightarrow>
      best_of S (hist @ [s]) u (key_get S (vs_makespans v') u)"
  shows "store_of S v' (hist @ [s])"
proof -
  have "fst ` set (vs_makespans v') \<subseteq> set (hist @ [s])" "set (vs_seen v') \<subseteq> set (hist @ [s])"
  proof -
    have "set (vs_seen v) \<subseteq> set hist" "fst ` set (vs_makespans v) \<subseteq> set hist"
      using store by (simp_all add: store_of_def)
    with sub have "fst ` set (vs_makespans v') \<subseteq> insert s (set hist)" "set (vs_seen v') \<subseteq> insert s (set hist)"
      by (meson insert_mono subset_trans)+
    then show "fst ` set (vs_makespans v') \<subseteq> set (hist @ [s])" "set (vs_seen v') \<subseteq> set (hist @ [s])"
      by simp_all
  qed
  with assms show ?thesis unfolding store_of_def by auto
qed

lemma visited_insert_spec:
  assumes store: "store_of S v hist" and keyed: "keyed S s" and eps: "0 \<le> ss_epsilon S"
    and ins: "visited_insert S s v = Inr (b, v')"
  shows "store_of S v' (hist @ [s]) \<and> (b \<longleftrightarrow> \<not> redundant_spec S (vs_policy v) hist s) \<and>
    vs_policy v' = vs_policy v"
proof -
  let ?rule = "dedup_rule_of (vs_policy v) s (ss_timed S)"
  have hist: "\<forall>t \<in> set hist. keyed S t" and pol: "ss_temporal S \<or> vs_policy v = DedupAll"
    and sub: "set (vs_seen v) \<subseteq> set hist" "fst ` set (vs_makespans v) \<subseteq> set hist"
    using store by (auto simp: store_of_def)
  have keys: "\<forall>p \<in> set (vs_makespans v). keyed S (fst p)" using hist sub by blast
  have seen: "seen_mem S u (vs_seen v) = (\<exists>t \<in> set hist. repr_eq S t u)"
    if "keyed S u" "dedup_rule_of (vs_policy v) u (ss_timed S) = Some Equal" for u
    using store that by (simp add: store_of_def)
  have best: "best_of S hist u (key_get S (vs_makespans v) u)"
    if "keyed S u" "dedup_rule_of (vs_policy v) u (ss_timed S) = Some Dominance" for u
    using store that by (simp add: store_of_def)
  have other: "\<not> repr_eq S s u" if "keyed S u" "dedup_rule_of (vs_policy v) u (ss_timed S) \<noteq> ?rule" for u
    using rule_same_key [OF keyed that(1) _ pol] that(2) by metis
  have dom_other: "best_of S (hist @ [s]) u (key_get S (vs_makespans v) u)"
    if "?rule \<noteq> Some Dominance" "keyed S u" "dedup_rule_of (vs_policy v) u (ss_timed S) = Some Dominance" for u
    using best [OF that(2,3)] best_of_other [OF other [OF that(2)]] that by simp
  show ?thesis
  proof (cases ?rule)
    case None
    with ins have b: "b" "v' = v" by (auto simp: visited_insert_def)
    have "store_of S v (hist @ [s])"
      by (rule store_of_snoc [OF store keyed]) (use None other dom_other in auto)
    with b None show ?thesis by (simp add: redundant_spec_def)
  next
    case rule: (Some r)
    show ?thesis
    proof (cases r)
      case Equal
      have dom: "best_of S (hist @ [s]) u (key_get S (vs_makespans v) u)"
        if "keyed S u" "dedup_rule_of (vs_policy v) u (ss_timed S) = Some Dominance" for u
        using dom_other that rule Equal by simp
      show ?thesis
      proof (cases "seen_mem S s (vs_seen v)")
        case True
        with ins rule Equal have b: "\<not> b" "v' = v" by (auto simp: visited_insert_def)
        from True obtain t where t: "t \<in> set (vs_seen v)" "repr_eq S t s" by (auto simp: seen_mem_def)
        then have t_hist: "t \<in> set hist" "keyed S t" using sub hist by auto
        have "seen_mem S u (vs_seen v)" if "keyed S u" "repr_eq S s u" for u
          using repr_eq_trans [OF t_hist(2) keyed that(1) t(2) that(2)] t(1) by (auto simp: seen_mem_def)
        then have "store_of S v (hist @ [s])"
          by (intro store_of_snoc [OF store keyed]) (use dom in auto)
        with b t t_hist rule Equal show ?thesis by (auto simp: redundant_spec_def)
      next
        case False
        with ins rule Equal have b: "b" "v' = v\<lparr>vs_seen := vs_seen v @ [s]\<rparr>"
          by (auto simp: visited_insert_def)
        have "store_of S v' (hist @ [s])"
          by (rule store_of_snoc [OF store keyed]) (use dom b in \<open>auto simp: seen_mem_def\<close>)
        with b False seen [OF keyed] rule Equal show ?thesis by (auto simp: redundant_spec_def)
      qed
    next
      case Dominance
      from ins rule Dominance obtain m where m: "ss_makespan S s = Inr m"
        by (auto simp: visited_insert_def rbind_eq_Inr)
      let ?old = "key_get S (vs_makespans v) s"
      have old: "best_of S hist s ?old" using best keyed rule Dominance by simp
      have redundant: "redundant_spec S (vs_policy v) hist s \<longleftrightarrow> (\<exists>r. ?old = Some r \<and> r + ss_epsilon S \<le> m)"
      proof (cases ?old)
        case None
        with old rule Dominance show ?thesis by (auto simp: redundant_spec_def best_of_def)
      next
        case (Some r)
        then obtain t where t: "t \<in> set hist" "repr_eq S t s" "ss_makespan S t = Inr r"
          "\<forall>t \<in> set hist. repr_eq S t s \<longrightarrow> (\<exists>m'. ss_makespan S t = Inr m' \<and> r \<le> m')"
          using old by (auto simp: best_of_def)
        have "r + ss_epsilon S \<le> m" if "t' \<in> set hist" "repr_eq S t' s" "ss_makespan S t' = Inr m1"
          "m1 + ss_epsilon S \<le> m" for t' m1
        proof -
          from t(4) that(1,2,3) have "r \<le> m1" by fastforce
          with that(4) show ?thesis by simp
        qed
        with t(1-3) Some rule Dominance m show ?thesis
          by (auto simp: redundant_spec_def)
      qed
      have equal: "seen_mem S u (vs_seen v) = (repr_eq S s u \<or> seen_mem S u (vs_seen v))"
        if "keyed S u" "dedup_rule_of (vs_policy v) u (ss_timed S) = Some Equal" for u
        using that rule Dominance other by fastforce
      have kept: "best_of S (hist @ [s]) u (key_get S (vs_makespans v) u)"
        if u: "keyed S u" "dedup_rule_of (vs_policy v) u (ss_timed S) = Some Dominance"
        and r: "?old = Some r" "r \<le> m" for u r
      proof (cases "repr_eq S s u")
        case True
        with key_get_cong [OF keyed u(1) True keys] r best [OF u] best_of_worse m show ?thesis
          by fastforce
      qed (use best [OF u] best_of_other in fastforce)
      have better: "best_of S (hist @ [s]) u (key_get S (key_set S s m (vs_makespans v)) u)"
        if u: "keyed S u" "dedup_rule_of (vs_policy v) u (ss_timed S) = Some Dominance"
        and r: "\<forall>r. ?old = Some r \<longrightarrow> m \<le> r" for u
      proof (cases "repr_eq S s u")
        case True
        with key_get_cong [OF keyed u(1) True keys] r best [OF u] best_of_better [OF _ m True]
          key_get_set [OF keyed u(1) keys] show ?thesis by fastforce
      qed (use best [OF u] best_of_other key_get_set [OF keyed u(1) keys] in fastforce)
      consider (prune) r where "?old = Some r" "r + ss_epsilon S \<le> m" "\<not> b" "v' = v"
        | (keep) r where "?old = Some r" "r \<le> m" "\<not> r + ss_epsilon S \<le> m" "b" "v' = v"
        | (recorded) "\<forall>r. ?old = Some r \<longrightarrow> m \<le> r \<and> \<not> r + ss_epsilon S \<le> m" "b"
            "v' = v\<lparr>vs_makespans := key_set S s m (vs_makespans v)\<rparr>"
        using ins rule Dominance m
        by (auto simp: visited_insert_def makespan_dominates_def split: option.splits if_splits)
      then show ?thesis
      proof cases
        case prune
        with eps have "r \<le> m" by simp
        then have "store_of S v (hist @ [s])"
          by (intro store_of_snoc [OF store keyed]) (use equal kept prune(1) in auto)
        with prune redundant show ?thesis by auto
      next
        case keep
        have "store_of S v (hist @ [s])"
          by (rule store_of_snoc [OF store keyed]) (use equal kept keep in auto)
        with keep redundant show ?thesis by auto
      next
        case recorded
        have "store_of S v' (hist @ [s])"
          by (rule store_of_snoc [OF store keyed])
            (use equal better recorded key_set_fst [of S s m "vs_makespans v"] in auto)
        with recorded redundant show ?thesis by auto
      qed
    qed
  qed
qed

lemma visited_is_redundant_spec:
  assumes store: "store_of S v hist" and keyed: "keyed S s"
    and red: "visited_is_redundant S v s = Inr b"
    and ms: "ss_makespan S s = Inr m"
  shows "b \<longleftrightarrow> redundant_spec S (vs_policy v) hist s"
proof (cases "dedup_rule_of (vs_policy v) s (ss_timed S) = Some Dominance")
  case True
  with store keyed have "best_of S hist s (key_get S (vs_makespans v) s)" by (simp add: store_of_def)
  with True red ms show ?thesis
    by (fastforce simp: visited_is_redundant_def redundant_spec_def best_of_def makespan_dominates_def
        split: option.splits)
next
  case False
  with store keyed red show ?thesis
    by (auto simp: visited_is_redundant_def redundant_spec_def store_of_def
        split: option.splits dedup_rule.splits)
qed

text \<open>A run of insertions into a new store.\<close>

definition visited_run :: "'n problem_space \<Rightarrow> bool \<Rightarrow> 'n state list \<Rightarrow> 'n visited res" where
  "visited_run S weak hist =
     rfold (\<lambda>s v. rbind (visited_insert S s v) (\<lambda>(_, v'). Inr v')) hist (visited_new S weak)"

lemma visited_run_store:
  assumes "visited_run S weak hist = Inr v" "\<forall>s \<in> set hist. keyed S s" "0 \<le> ss_epsilon S"
  shows "store_of S v hist \<and> vs_policy v = policy_of S weak"
  using assms
proof (induction hist arbitrary: v rule: rev_induct)
  case Nil
  then show ?case by (auto simp: visited_run_def store_of_new) (simp add: visited_new_def)
next
  case (snoc s hist)
  then obtain v0 b where v0: "visited_run S weak hist = Inr v0" "visited_insert S s v0 = Inr (b, v)"
    by (auto simp: visited_run_def rfold_append rbind_eq_Inr)
  from snoc.IH [OF v0(1)] snoc.prems have "store_of S v0 hist" "vs_policy v0 = policy_of S weak" by auto
  with visited_insert_spec [OF this(1) _ snoc.prems(3) v0(2)] snoc.prems show ?case by auto
qed

end
