(* ===== verification/Search_Facts.thy ===== *)
theory Search_Facts
  imports Search Dedup_Facts
begin

text \<open>
  What every search of \<open>search.py\<close> guarantees: a plan it returns leads from the initial
  state to a goal, it never expands more states than its limit, and under a limit it
  always returns.
\<close>

section \<open>States a search can meet\<close>

inductive explored :: "'n problem_space \<Rightarrow> nat \<Rightarrow> 'n state \<Rightarrow> bool" for S :: "'n problem_space" where
  explored_initial: "ss_initial S c = Inr (Some s, c') \<Longrightarrow> explored S c' s"
| explored_successor: "explored S c s \<Longrightarrow> c \<le> c1 \<Longrightarrow> a \<in> set (ss_relevant S) \<Longrightarrow>
    ss_successor S s a c1 = Inr (Some s', c') \<Longrightarrow> explored S c' s'"
| explored_cache: "explored S c s \<Longrightarrow> explored S c (s\<lparr>st_hcache := h\<rparr>)"

text \<open>The counter of a search space never goes back.\<close>

definition counter_mono :: "'n problem_space \<Rightarrow> bool" where
  "counter_mono S \<longleftrightarrow> (\<forall>s a c r c'. ss_successor S s a c = Inr (r, c') \<longrightarrow> c \<le> c')"

definition known :: "'n problem_space \<Rightarrow> nat \<Rightarrow> 'n state \<Rightarrow> bool" where
  "known S c s \<longleftrightarrow> (\<exists>c0 \<le> c. explored S c0 s)"

lemma known_mono: "known S c s \<Longrightarrow> c \<le> c' \<Longrightarrow> known S c' s"
  unfolding known_def using order_trans by blast

lemma known_initial: "ss_initial S c = Inr (Some s, c') \<Longrightarrow> known S c' s"
  unfolding known_def using explored_initial by blast

lemma known_successor:
  assumes "known S c s" "a \<in> set (ss_relevant S)" "ss_successor S s a c = Inr (Some s', c')"
  shows "known S c' s'"
  using assms explored_successor unfolding known_def by blast

lemma heuristic_eval_known:
  assumes "heuristic_eval H s = Inr (h, s')"
  shows "s' = s \<or> (\<exists>d. s' = s\<lparr>st_hcache := d\<rparr>)"
  using assms by (auto simp: heuristic_eval_def rbind_eq_Inr split: option.splits if_splits)

lemma known_heuristic_eval: "heuristic_eval H s = Inr (h, s') \<Longrightarrow> known S c s \<Longrightarrow> known S c s'"
  using heuristic_eval_known explored_cache unfolding known_def by blast

text \<open>
  The loop over the successors of a known state, with an invariant \<open>J\<close> of the accumulator.
\<close>

lemma over_successors_result:
  assumes run: "over_successors S s body acc c = Inr x"
    and mono: "counter_mono S" and s: "known S c s" and J: "J c acc"
    and J_mono: "\<And>c acc c'. J c acc \<Longrightarrow> c \<le> c' \<Longrightarrow> J c' acc"
    and step: "\<And>s' acc acc' c. known S c s' \<Longrightarrow> J c acc \<Longrightarrow> body s' acc = Inr (Inr acc') \<Longrightarrow> J c acc'"
    and exit: "\<And>s' acc r c. known S c s' \<Longrightarrow> J c acc \<Longrightarrow> body s' acc = Inr (Inl r) \<Longrightarrow> Q r"
  shows "case x of Inl r \<Rightarrow> Q r | Inr (acc', c') \<Rightarrow> J c' acc' \<and> c \<le> c'"
proof -
  have "case x of Inl r \<Rightarrow> Q r | Inr p \<Rightarrow> (case p of (acc', c') \<Rightarrow> J c' acc' \<and> c \<le> c')"
  proof (rule rloop_result [OF run [unfolded over_successors_def]])
    show "case (acc, c) of (acc', c') \<Rightarrow> J c' acc' \<and> c \<le> c'" using J by simp
  next
    fix a p p'
    assume a: "a \<in> set (ss_relevant S)" and inv: "case p of (acc', c') \<Rightarrow> J c' acc' \<and> c \<le> c'"
      and st: "(case p of (acc, c) \<Rightarrow> rbind (ss_successor S s a c) (\<lambda>(r, c').
        case r of None \<Rightarrow> Inr (Inr (acc, c'))
        | Some s' \<Rightarrow> rbind (body s' acc) (\<lambda>x. case x of Inl res \<Rightarrow> Inr (Inl res)
            | Inr acc' \<Rightarrow> Inr (Inr (acc', c'))))) = Inr (Inr p')"
    obtain acc1 c1 where p: "p = (acc1, c1)" by fastforce
    from st p obtain r c2 where succ: "ss_successor S s a c1 = Inr (r, c2)"
      and rest: "(case r of None \<Rightarrow> Inr (Inr (acc1, c2))
        | Some s' \<Rightarrow> rbind (body s' acc1) (\<lambda>x. case x of Inl res \<Rightarrow> Inr (Inl res)
            | Inr acc' \<Rightarrow> Inr (Inr (acc', c2)))) = Inr (Inr p')"
      by (auto simp: rbind_eq_Inr)
    have c12: "c1 \<le> c2" using mono succ by (auto simp: counter_mono_def)
    from inv p have J1: "J c1 acc1" and c1: "c \<le> c1" by auto
    show "case p' of (acc', c') \<Rightarrow> J c' acc' \<and> c \<le> c'"
    proof (cases r)
      case None
      with rest J_mono [OF J1 c12] c1 c12 show ?thesis by auto
    next
      case (Some s')
      from rest Some obtain y where y: "body s' acc1 = Inr y" by (auto simp: rbind_eq_Inr)
      with rest Some obtain acc' where "y = Inr acc'" "p' = (acc', c2)" by (cases y) auto
      with y have "body s' acc1 = Inr (Inr acc')" "p' = (acc', c2)" by auto
      moreover have "known S c2 s'"
        by (rule known_successor [OF known_mono [OF s c1] a]) (use succ Some in simp)
      ultimately show ?thesis using step J_mono [OF J1 c12] c1 c12 by auto
    qed
  next
    fix a p r
    assume a: "a \<in> set (ss_relevant S)" and inv: "case p of (acc', c') \<Rightarrow> J c' acc' \<and> c \<le> c'"
      and st: "(case p of (acc, c) \<Rightarrow> rbind (ss_successor S s a c) (\<lambda>(r, c').
        case r of None \<Rightarrow> Inr (Inr (acc, c'))
        | Some s' \<Rightarrow> rbind (body s' acc) (\<lambda>x. case x of Inl res \<Rightarrow> Inr (Inl res)
            | Inr acc' \<Rightarrow> Inr (Inr (acc', c'))))) = Inr (Inl r)"
    obtain acc1 c1 where p: "p = (acc1, c1)" by fastforce
    from st p obtain s' c2 y where succ: "ss_successor S s a c1 = Inr (Some s', c2)"
      and y: "body s' acc1 = Inr y"
      and out: "(case y of Inl res \<Rightarrow> Inr (Inl res) | Inr acc' \<Rightarrow> Inr (Inr (acc', c2))) = (Inr (Inl r) :: _ res)"
      by (auto simp: rbind_eq_Inr split: option.splits)
    from y out have body: "body s' acc1 = Inr (Inl r)" by (cases y) auto
    have c12: "c1 \<le> c2" using mono succ by (auto simp: counter_mono_def)
    from inv p have J1: "J c1 acc1" and c1: "c \<le> c1" by auto
    have "known S c2 s'" by (rule known_successor [OF known_mono [OF s c1] a succ])
    from exit [OF this J_mono [OF J1 c12] body] show "Q r" .
  qed
  then show ?thesis by (simp split: sum.splits prod.splits)
qed


section \<open>Results\<close>

text \<open>A result is sound: a plan is the path of a goal state the search met.\<close>

definition sound_result :: "'n problem_space \<Rightarrow> search_result \<Rightarrow> bool" where
  "sound_result S r \<longleftrightarrow> (\<forall>plan. fst r = Some plan \<longrightarrow> (\<exists>c s. explored S c s \<and> ss_goal S s = Inr True \<and>
     plan = extract_path s \<and> snd (snd r) = Some (st_g s)))"

definition within_limit :: "nat option \<Rightarrow> nat \<Rightarrow> bool" where
  "within_limit limit n \<longleftrightarrow> (case limit of None \<Rightarrow> True | Some m \<Rightarrow> n \<le> m)"

lemma not_found_sound [simp]: "sound_result S (not_found n)"
  by (simp add: sound_result_def not_found_def)

lemma found_sound: "known S c s \<Longrightarrow> ss_goal S s = Inr True \<Longrightarrow> sound_result S (found s n)"
  unfolding sound_result_def found_def known_def by auto

lemma not_found_expanded [simp]: "fst (snd (not_found n)) = n"
  by (simp add: not_found_def)

lemma found_expanded [simp]: "fst (snd (found s n)) = n"
  by (simp add: found_def)

lemma may_expandD:
  "may_expand out limit tick n = Inr u \<Longrightarrow> \<not> out tick \<and> within_limit limit (n + 1)"
  by (auto simp: may_expand_def check_expansion_limit_def within_limit_def split: if_splits option.splits)

lemma goal_at_expansionD: "goal_at_expansion S early s = Inr True \<Longrightarrow> ss_goal S s = Inr True"
  by (auto simp: goal_at_expansion_def split: if_splits)

lemma goal_at_generationD: "goal_at_generation S early s = Inr True \<Longrightarrow> ss_goal S s = Inr True"
  by (auto simp: goal_at_generation_def split: if_splits)

lemmas goal_tests = goal_at_expansionD goal_at_generationD

definition good_result :: "'n problem_space \<Rightarrow> nat option \<Rightarrow> search_result \<Rightarrow> bool" where
  "good_result S limit r \<longleftrightarrow> sound_result S r \<and> within_limit limit (fst (snd r))"

lemma good_found: "known S c s \<Longrightarrow> ss_goal S s = Inr True \<Longrightarrow> within_limit limit n \<Longrightarrow> good_result S limit (found s n)"
  by (simp add: good_result_def found_sound)

lemma good_not_found: "within_limit limit n \<Longrightarrow> good_result S limit (not_found n)"
  by (simp add: good_result_def)

lemma within_limit_0 [simp]: "within_limit limit 0"
  by (simp add: within_limit_def split: option.split)


section \<open>Breadth-first and depth-first search\<close>

definition basic_inv :: "'n problem_space \<Rightarrow> nat option \<Rightarrow> 'n basic \<Rightarrow> bool" where
  "basic_inv S limit b \<longleftrightarrow> (\<forall>s \<in> set (ba_open b). known S (ba_counter b) s) \<and> within_limit limit (ba_expanded b)"

lemma basic_round_result:
  assumes mono: "counter_mono S" and inv: "basic_inv S limit b"
    and run: "basic_round S bfs out limit early b = Inr x"
  shows "case x of Inl r \<Rightarrow> good_result S limit r
    | Inr b' \<Rightarrow> basic_inv S limit b' \<and> ba_expanded b' = ba_expanded b + 1"
proof (cases "ba_open b = []")
  case True
  with run inv show ?thesis by (auto simp: basic_round_def basic_inv_def good_not_found)
next
  case False
  define s where "s = (if bfs then hd (ba_open b) else last (ba_open b))"
  define rest where "rest = (if bfs then tl (ba_open b) else butlast (ba_open b))"
  define n where "n = ba_expanded b + 1"
  have mem: "s \<in> set (ba_open b)" "set rest \<subseteq> set (ba_open b)"
    using False by (auto simp: s_def rest_def dest: in_set_butlastD list.set_sel(2))
  then have s: "known S (ba_counter b) s" and old: "\<forall>t \<in> set rest. known S (ba_counter b) t"
    using inv by (auto simp: basic_inv_def)
  from run False obtain u g where u: "may_expand out limit (ba_expanded b) (ba_expanded b) = Inr u"
    and g: "goal_at_expansion S early s = Inr g"
    and nxt: "(if g then Inr (Inl (found s n))
          else rbind (over_successors S s (basic_successor S early n) (rest, ba_generated b) (ba_counter b))
            (\<lambda>x. case x of Inl res \<Rightarrow> Inr (Inl res)
             | Inr ((open', gen), c) \<Rightarrow>
                 Inr (Inr \<lparr>ba_open = open', ba_expanded = n, ba_generated = gen, ba_counter = c\<rparr>))) = Inr x"
    unfolding basic_round_def s_def rest_def n_def Let_def by (auto simp: rbind_eq_Inr)
  have lim: "within_limit limit n" using may_expandD [OF u] by (simp add: n_def)
  show ?thesis
  proof (cases g)
    case True
    with g have "ss_goal S s = Inr True" by (auto dest: goal_at_expansionD)
    with True nxt good_found [OF s _ lim] show ?thesis by auto
  next
    case False
    with nxt obtain y where
      y: "over_successors S s (basic_successor S early n) (rest, ba_generated b) (ba_counter b) = Inr y"
      and x: "(case y of Inl res \<Rightarrow> Inr (Inl res) | Inr ((open', gen), c) \<Rightarrow>
        Inr (Inr \<lparr>ba_open = open', ba_expanded = n, ba_generated = gen, ba_counter = c\<rparr>)) = (Inr x :: _ res)"
      by (auto simp: rbind_eq_Inr)
    have "case y of Inl r \<Rightarrow> good_result S limit r
      | Inr (acc', c') \<Rightarrow> (\<forall>t \<in> set (fst acc'). known S c' t) \<and> ba_counter b \<le> c'"
    proof (rule over_successors_result [OF y mono s, where J = "\<lambda>c acc. \<forall>t \<in> set (fst acc). known S c t"])
      show "\<forall>t \<in> set (fst (rest, ba_generated b)). known S (ba_counter b) t" using old by simp
    next
      fix c acc c' assume "\<forall>t \<in> set (fst acc). known S c t" "c \<le> c'"
      then show "\<forall>t \<in> set (fst acc). known S c' t" using known_mono by blast
    next
      fix s' acc acc' c assume "known S c s'" "\<forall>t \<in> set (fst acc). known S c t"
        "basic_successor S early n s' acc = Inr (Inr acc')"
      then show "\<forall>t \<in> set (fst acc'). known S c t"
        by (auto simp: basic_successor_def rbind_eq_Inr split: if_splits)
    next
      fix s' acc r c assume "known S c s'" "basic_successor S early n s' acc = Inr (Inl r)"
      then show "good_result S limit r"
        using lim by (auto simp: basic_successor_def rbind_eq_Inr split: if_splits
            intro: good_found goal_tests)
    qed
    with x lim show ?thesis by (auto simp: basic_inv_def n_def split: sum.splits prod.splits)
  qed
qed

lemma basic_search_good:
  assumes mono: "counter_mono S" and run: "basic_search S bfs out limit early c = Inr r"
  shows "good_result S limit r"
proof -
  from run obtain init c1 where init: "ss_initial S c = Inr (init, c1)"
    and rest: "(case init of None \<Rightarrow> Inr (not_found 0)
     | Some s \<Rightarrow> rbind (goal_at_generation S early s) (\<lambda>g.
         if g then Inr (found s 0)
         else run_rounds (basic_round S bfs out limit early)
           \<lparr>ba_open = [s], ba_expanded = 0, ba_generated = 1, ba_counter = c1\<rparr>)) = Inr r"
    by (auto simp: basic_search_def rbind_eq_Inr)
  show ?thesis
  proof (cases init)
    case None
    with rest show ?thesis by (auto intro: good_not_found)
  next
    case (Some s)
    with init have s: "known S c1 s" by (auto intro: known_initial)
    from rest Some obtain g where g: "goal_at_generation S early s = Inr g"
      and rest: "(if g then Inr (found s 0)
         else run_rounds (basic_round S bfs out limit early)
           \<lparr>ba_open = [s], ba_expanded = 0, ba_generated = 1, ba_counter = c1\<rparr>) = Inr r"
      by (auto simp: rbind_eq_Inr)
    show ?thesis
    proof (cases g)
      case True
      with g have "ss_goal S s = Inr True" by (auto dest: goal_at_generationD)
      with True rest good_found [OF s] show ?thesis by auto
    next
      case False
      with rest have loop: "run_rounds (basic_round S bfs out limit early)
           \<lparr>ba_open = [s], ba_expanded = 0, ba_generated = 1, ba_counter = c1\<rparr> = Inr r" by simp
      show ?thesis
      proof (rule run_rounds_result [OF loop, where I = "basic_inv S limit"])
        show "basic_inv S limit \<lparr>ba_open = [s], ba_expanded = 0, ba_generated = 1, ba_counter = c1\<rparr>"
          using s by (simp add: basic_inv_def)
      next
        fix b b' assume "basic_inv S limit b" "basic_round S bfs out limit early b = Inr (Inr b')"
        from basic_round_result [OF mono this] show "basic_inv S limit b'" by simp
      next
        fix b assume "basic_inv S limit b" "basic_round S bfs out limit early b = Inr (Inl r)"
        from basic_round_result [OF mono this] show ?thesis by simp
      qed
    qed
  qed
qed


section \<open>Priority-queue search\<close>

definition items_carry :: "('n, 'i, 'x) item_ops \<Rightarrow> bool" where
  "items_carry I \<longleftrightarrow>
     (\<forall>s h x i x'. it_root I s h x = Inr (i, x') \<longrightarrow> it_state I i = s) \<and>
     (\<forall>p s h k x i x'. it_child I p s h k x = Inr (i, x') \<longrightarrow> it_state I i = s)"

lemma items_carryD:
  assumes "items_carry I"
  shows "it_root I s h x = Inr (i, x') \<Longrightarrow> it_state I i = s"
    and "it_child I p s h k x = Inr (i, x') \<Longrightarrow> it_state I i = s"
  using assms unfolding items_carry_def by blast+

lemma wastar_items_carry: "items_carry (wastar_items weight)"
  by (auto simp: items_carry_def wastar_items_def)

lemma novbfs_items_carry: "items_carry (novbfs_items N hg)"
  by (auto simp: items_carry_def novbfs_items_def rbind_eq_Inr)

definition prio_inv ::
    "'n problem_space \<Rightarrow> ('n, 'i, 'x) item_ops \<Rightarrow> ('q \<Rightarrow> 'i multiset) \<Rightarrow> ('q \<Rightarrow> bool) \<Rightarrow> nat option \<Rightarrow>
     ('q, 'd, 'x) prio \<Rightarrow> bool" where
  "prio_inv S I contents invar limit p \<longleftrightarrow> invar (pr_open p) \<and>
     (\<forall>i \<in># contents (pr_open p). known S (pr_counter p) (it_state I i)) \<and>
     within_limit limit (pr_expanded p)"

lemma prio_candidate_known:
  assumes ol: "open_list lt (ol_empty Q) (ol_push Q) (ol_pop Q) (ol_len Q) contents invar"
    and carry: "items_carry I"
    and run: "prio_candidate H Q I item s (q, x, gen) = Inr (q', x', gen')"
    and s: "known S c s" and q: "invar q" "\<forall>i \<in># contents q. known S c (it_state I i)"
  shows "invar q' \<and> (\<forall>i \<in># contents q'. known S c (it_state I i))"
proof -
  from run obtain h s' where h: "heuristic_eval H s = Inr (h, s')"
    and rest: "(case h of None \<Rightarrow> Inr (q, x, gen + 1)
     | Some v \<Rightarrow> rbind (it_child I item s' v gen x) (\<lambda>(child, x').
         rbind (ol_push Q child q) (\<lambda>q'. Inr (q', x', gen + 1)))) = Inr (q', x', gen')"
    by (auto simp: prio_candidate_def rbind_eq_Inr)
  have s': "known S c s'" by (rule known_heuristic_eval [OF h s])
  show ?thesis
  proof (cases h)
    case None
    with rest q show ?thesis by auto
  next
    case (Some v)
    with rest obtain child where child: "it_child I item s' v gen x = Inr (child, x')"
      and push: "ol_push Q child q = Inr q'"
      by (auto simp: rbind_eq_Inr)
    have "it_state I child = s'" by (rule items_carryD(2) [OF carry child])
    with open_list.pushD [OF ol q(1) push] open_list.push_set [OF ol q(1) push] s' q(2)
    show ?thesis by auto
  qed
qed

lemma prio_round_result:
  assumes ol: "open_list lt (ol_empty Q) (ol_push Q) (ol_pop Q) (ol_len Q) contents invar"
    and carry: "items_carry I" and mono: "counter_mono S" and inv: "prio_inv S I contents invar limit p"
    and run: "prio_round S H Q D I out limit early p = Inr r"
  shows "case r of Inl res \<Rightarrow> good_result S limit res
    | Inr p' \<Rightarrow> prio_inv S I contents invar limit p' \<and> pr_expanded p' = pr_expanded p + 1"
proof (cases "ol_len Q (pr_open p) = 0")
  case True
  with run inv show ?thesis by (auto simp: prio_round_def prio_inv_def good_not_found)
next
  case False
  define n where "n = pr_expanded p + 1"
  from run False obtain u item q g where u: "may_expand out limit (pr_expanded p) (pr_expanded p) = Inr u"
    and pop: "ol_pop Q (pr_open p) = Inr (item, q)"
    and g: "goal_at_expansion S early (it_state I item) = Inr g"
    and nxt: "(if g then Inr (Inl (found (it_state I item) n))
          else rbind (over_successors S (it_state I item) (prio_successor S D early n) ([], pr_dedup p) (pr_counter p))
            (\<lambda>y. case y of Inl res \<Rightarrow> Inr (Inl res)
             | Inr ((cands, d), c) \<Rightarrow>
                 rbind (rfold (prio_candidate H Q I item) cands (q, it_begin I (pr_aux p), pr_generated p))
                   (\<lambda>(q', x, gen). Inr (Inr \<lparr>pr_open = q', pr_dedup = d, pr_aux = x, pr_expanded = n,
                      pr_generated = gen, pr_counter = c\<rparr>)))) = Inr r"
    unfolding prio_round_def n_def Let_def by (auto simp: rbind_eq_Inr)
  have lim: "within_limit limit n" using may_expandD [OF u] by (simp add: n_def)
  have invar: "invar (pr_open p)" using inv by (simp add: prio_inv_def)
  from open_list.popD [OF ol invar False pop] have q: "invar q" "add_mset item (contents q) = contents (pr_open p)"
    by auto
  have all: "known S (pr_counter p) (it_state I i)" if "i \<in># add_mset item (contents q)" for i
    using inv that unfolding q(2) prio_inv_def by blast
  then have s: "known S (pr_counter p) (it_state I item)" by simp
  show ?thesis
  proof (cases g)
    case True
    with g have "ss_goal S (it_state I item) = Inr True" by (auto dest: goal_at_expansionD)
    with True nxt good_found [OF s _ lim] show ?thesis by auto
  next
    case False
    with nxt obtain y where y: "over_successors S (it_state I item) (prio_successor S D early n)
        ([], pr_dedup p) (pr_counter p) = Inr y"
      and r: "(case y of Inl res \<Rightarrow> Inr (Inl res)
             | Inr ((cands, d), c) \<Rightarrow>
                 rbind (rfold (prio_candidate H Q I item) cands (q, it_begin I (pr_aux p), pr_generated p))
                   (\<lambda>(q', x, gen). Inr (Inr \<lparr>pr_open = q', pr_dedup = d, pr_aux = x, pr_expanded = n,
                      pr_generated = gen, pr_counter = c\<rparr>))) = Inr r"
      by (auto simp: rbind_eq_Inr)
    have cands: "case y of Inl r \<Rightarrow> good_result S limit r
      | Inr (acc', c') \<Rightarrow> (\<forall>t \<in> set (fst acc'). known S c' t) \<and> pr_counter p \<le> c'"
    proof (rule over_successors_result [OF y mono s, where J = "\<lambda>c acc. \<forall>t \<in> set (fst acc). known S c t"])
      fix c acc c' assume "\<forall>t \<in> set (fst acc). known S c t" "c \<le> c'"
      then show "\<forall>t \<in> set (fst acc). known S c' t" using known_mono by blast
    next
      fix s' acc acc' c assume "known S c s'" "\<forall>t \<in> set (fst acc). known S c t"
        "prio_successor S D early n s' acc = Inr (Inr acc')"
      then show "\<forall>t \<in> set (fst acc'). known S c t"
        by (auto simp: prio_successor_def rbind_eq_Inr split: if_splits)
    next
      fix s' acc r c assume s': "known S c s'" and "prio_successor S D early n s' acc = Inr (Inl r)"
      then have "r = found s' n" "ss_goal S s' = Inr True"
        by (auto simp: prio_successor_def rbind_eq_Inr split: if_splits intro: goal_at_generationD)
      with good_found [OF s' _ lim] show "good_result S limit r" by simp
    qed simp
    show ?thesis
    proof (cases y)
      case (Inl res)
      with r cands show ?thesis by auto
    next
      case (Inr z)
      then obtain cs d c where z: "y = Inr ((cs, d), c)" by (cases z) auto
      with cands have cs: "\<forall>t \<in> set cs. known S c t" and c: "pr_counter p \<le> c" by auto
      from r z obtain q' x gen where
        fold: "rfold (prio_candidate H Q I item) cs (q, it_begin I (pr_aux p), pr_generated p) = Inr (q', x, gen)"
        and r': "r = Inr \<lparr>pr_open = q', pr_dedup = d, pr_aux = x, pr_expanded = n, pr_generated = gen, pr_counter = c\<rparr>"
        by (auto simp: rbind_eq_Inr)
      have "invar (fst (q', x, gen)) \<and> (\<forall>i \<in># contents (fst (q', x, gen)). known S c (it_state I i))"
      proof (rule rfold_invariant [OF fold])
        show "invar (fst (q, it_begin I (pr_aux p), pr_generated p)) \<and>
          (\<forall>i \<in># contents (fst (q, it_begin I (pr_aux p), pr_generated p)). known S c (it_state I i))"
          using q(1) all known_mono [OF _ c] by auto
      next
        fix t acc acc' assume t: "t \<in> set cs"
          and "invar (fst acc) \<and> (\<forall>i \<in># contents (fst acc). known S c (it_state I i))"
          and "prio_candidate H Q I item t acc = Inr acc'"
        with cs prio_candidate_known [OF ol carry, of H item t "fst acc" "fst (snd acc)" "snd (snd acc)"
            "fst acc'" "fst (snd acc')" "snd (snd acc')" S c]
        show "invar (fst acc') \<and> (\<forall>i \<in># contents (fst acc'). known S c (it_state I i))" by auto
      qed
      with r' lim show ?thesis by (simp add: prio_inv_def n_def)
    qed
  qed
qed

lemma priority_search_good:
  assumes ol: "open_list lt (ol_empty Q) (ol_push Q) (ol_pop Q) (ol_len Q) contents invar"
    and carry: "items_carry I" and mono: "counter_mono S"
    and run: "priority_search S H Q D I out limit early x c = Inr r"
  shows "good_result S limit r"
proof -
  from run obtain init c1 where init: "ss_initial S c = Inr (init, c1)"
    by (auto simp: priority_search_def rbind_eq_Inr)
  show ?thesis
  proof (cases init)
    case None
    with run init show ?thesis by (auto simp: priority_search_def intro: good_not_found)
  next
    case (Some s)
    with init have s: "known S c1 s" by (auto intro: known_initial)
    from run init Some obtain b d g where "dd_insert D s (dd_new D) = Inr (b, d)"
      and g: "goal_at_generation S early s = Inr g"
      and nxt: "(if g then Inr (found s 0)
         else rbind (heuristic_eval H s) (\<lambda>(h, s'). case h of
             None \<Rightarrow> Inr (not_found 0)
           | Some v \<Rightarrow> rbind (it_root I s' v x) (\<lambda>(root, x').
               rbind (ol_push Q root (ol_empty Q)) (\<lambda>q.
               run_rounds (prio_round S H Q D I out limit early)
                 \<lparr>pr_open = q, pr_dedup = d, pr_aux = x', pr_expanded = 0, pr_generated = 1,
                  pr_counter = c1\<rparr>)))) = Inr r"
      by (auto simp: priority_search_def rbind_eq_Inr)
    show ?thesis
    proof (cases g)
      case True
      with g have "ss_goal S s = Inr True" by (auto dest: goal_at_generationD)
      with True nxt good_found [OF s] show ?thesis by auto
    next
      case False
      with nxt obtain h s' where h: "heuristic_eval H s = Inr (h, s')"
        by (auto simp: rbind_eq_Inr)
      have s': "known S c1 s'" by (rule known_heuristic_eval [OF h s])
      show ?thesis
      proof (cases h)
        case None
        with nxt False h show ?thesis by (auto intro: good_not_found)
      next
        case (Some v)
        with nxt False h obtain root x' q where root: "it_root I s' v x = Inr (root, x')"
          and push: "ol_push Q root (ol_empty Q) = Inr q"
          and loop: "run_rounds (prio_round S H Q D I out limit early)
                 \<lparr>pr_open = q, pr_dedup = d, pr_aux = x', pr_expanded = 0, pr_generated = 1,
                  pr_counter = c1\<rparr> = Inr r"
          by (auto simp: rbind_eq_Inr)
        have "it_state I root = s'" by (rule items_carryD(1) [OF carry root])
        moreover have e: "invar (ol_empty Q)" "contents (ol_empty Q) = {#}"
          using ol by (auto simp: open_list_def)
        ultimately have start: "prio_inv S I contents invar limit
            \<lparr>pr_open = q, pr_dedup = d, pr_aux = x', pr_expanded = 0, pr_generated = 1, pr_counter = c1\<rparr>"
          using open_list.pushD [OF ol e(1) push] open_list.push_set [OF ol e(1) push] s'
          by (auto simp: prio_inv_def)
        show ?thesis
        proof (rule run_rounds_result [OF loop, where I = "prio_inv S I contents invar limit"])
          fix p p' assume "prio_inv S I contents invar limit p"
            "prio_round S H Q D I out limit early p = Inr (Inr p')"
          from prio_round_result [OF ol carry mono this] show "prio_inv S I contents invar limit p'" by simp
        next
          fix p assume "prio_inv S I contents invar limit p"
            "prio_round S H Q D I out limit early p = Inr (Inl r)"
          from prio_round_result [OF ol carry mono this] show ?thesis by simp
        qed (rule start)
      qed
    qed
  qed
qed


section \<open>Enforced hill climbing\<close>

definition ehc_inv :: "'n problem_space \<Rightarrow> nat option \<Rightarrow> 'n ehc \<Rightarrow> bool" where
  "ehc_inv S limit e \<longleftrightarrow> (\<forall>s \<in> set (eh_open e). known S (eh_counter e) s) \<and> within_limit limit (eh_expanded e)"

lemma ehc_candidate_inv:
  assumes "ehc_candidate H s e = Inr y" "known S (eh_counter e) s" "ehc_inv S limit e"
  shows "case y of Inl e' \<Rightarrow> ehc_inv S limit e' \<and> eh_expanded e' = eh_expanded e \<and> eh_counter e' = eh_counter e
    | Inr e' \<Rightarrow> ehc_inv S limit e' \<and> eh_expanded e' = eh_expanded e \<and> eh_counter e' = eh_counter e"
proof -
  from assms(1) obtain h s' where h: "heuristic_eval H s = Inr (h, s')"
    and y: "y = (let e1 = e\<lparr>eh_generated := eh_generated e + 1\<rparr> in
       (case h of
         None \<Rightarrow> Inr e1
       | Some v \<Rightarrow>
           if v < eh_best e
           then Inl (e1\<lparr>eh_best := v, eh_closed := visited_clear (eh_closed e), eh_open := [s']\<rparr>)
           else Inr (e1\<lparr>eh_open := eh_open e @ [s']\<rparr>)))"
    by (auto simp: ehc_candidate_def rbind_eq_Inr Let_def)
  have "known S (eh_counter e) s'" by (rule known_heuristic_eval [OF h assms(2)])
  with y assms(3) show ?thesis by (auto simp: ehc_inv_def Let_def split: option.split)
qed

lemma ehc_round_result:
  assumes mono: "counter_mono S" and inv: "ehc_inv S limit e"
    and run: "ehc_round S H out limit early e = Inr r"
  shows "case r of Inl res \<Rightarrow> good_result S limit res
    | Inr e' \<Rightarrow> ehc_inv S limit e' \<and> eh_expanded e' = eh_expanded e + 1"
proof (cases "eh_open e")
  case Nil
  with run inv show ?thesis by (auto simp: ehc_round_def ehc_inv_def good_not_found)
next
  case (Cons s rest)
  define n where "n = eh_expanded e + 1"
  have s: "known S (eh_counter e) s" and old: "\<forall>t \<in> set rest. known S (eh_counter e) t"
    using inv Cons by (auto simp: ehc_inv_def)
  from run Cons obtain u b clos g where u: "may_expand out limit (eh_expanded e) (eh_expanded e) = Inr u"
    and "visited_insert S s (eh_closed e) = Inr (b, clos)"
    and g: "goal_at_expansion S early s = Inr g"
    and nxt: "(if g then Inr (Inl (found s n))
          else rbind (over_successors S s (ehc_successor S early n clos) [] (eh_counter e))
            (\<lambda>x. case x of Inl res \<Rightarrow> Inr (Inl res)
             | Inr (cands, c) \<Rightarrow>
                 rbind (rloop (ehc_candidate H) cands
                   (e\<lparr>eh_open := rest, eh_closed := clos, eh_expanded := n, eh_counter := c\<rparr>))
                 (\<lambda>y. Inr (Inr (case y of Inl e' \<Rightarrow> e' | Inr e' \<Rightarrow> e'))))) = Inr r"
    unfolding ehc_round_def n_def Let_def by (auto simp: rbind_eq_Inr)
  have lim: "within_limit limit n" using may_expandD [OF u] by (simp add: n_def)
  show ?thesis
  proof (cases g)
    case True
    with g have "ss_goal S s = Inr True" by (auto dest: goal_at_expansionD)
    with True nxt good_found [OF s _ lim] show ?thesis by auto
  next
    case False
    with nxt obtain y where y: "over_successors S s (ehc_successor S early n clos) [] (eh_counter e) = Inr y"
      and r: "(case y of Inl res \<Rightarrow> Inr (Inl res)
             | Inr (cands, c) \<Rightarrow>
                 rbind (rloop (ehc_candidate H) cands
                   (e\<lparr>eh_open := rest, eh_closed := clos, eh_expanded := n, eh_counter := c\<rparr>))
                 (\<lambda>y. Inr (Inr (case y of Inl e' \<Rightarrow> e' | Inr e' \<Rightarrow> e')))) = Inr r"
      by (auto simp: rbind_eq_Inr)
    have cands: "case y of Inl r \<Rightarrow> good_result S limit r
      | Inr (acc', c') \<Rightarrow> (\<forall>t \<in> set acc'. known S c' t) \<and> eh_counter e \<le> c'"
    proof (rule over_successors_result [OF y mono s, where J = "\<lambda>c acc. \<forall>t \<in> set acc. known S c t"])
      fix c acc c' assume "\<forall>t \<in> set acc. known S c t" "c \<le> c'"
      then show "\<forall>t \<in> set acc. known S c' t" using known_mono by blast
    next
      fix s' acc acc' c assume "known S c s'" "\<forall>t \<in> set acc. known S c t"
        "ehc_successor S early n clos s' acc = Inr (Inr acc')"
      then show "\<forall>t \<in> set acc'. known S c t"
        by (auto simp: ehc_successor_def rbind_eq_Inr split: if_splits)
    next
      fix s' acc r c assume s': "known S c s'" and "ehc_successor S early n clos s' acc = Inr (Inl r)"
      then have "r = found s' n" "ss_goal S s' = Inr True"
        by (auto simp: ehc_successor_def rbind_eq_Inr split: if_splits intro: goal_at_generationD)
      with good_found [OF s' _ lim] show "good_result S limit r" by simp
    qed simp
    show ?thesis
    proof (cases y)
      case (Inl res)
      with r cands show ?thesis by auto
    next
      case (Inr z)
      then obtain cs c where z: "y = Inr (cs, c)" by (cases z) auto
      with cands have cs: "\<forall>t \<in> set cs. known S c t" and c: "eh_counter e \<le> c" by auto
      let ?e = "e\<lparr>eh_open := rest, eh_closed := clos, eh_expanded := n, eh_counter := c\<rparr>"
      from r z obtain w where fold: "rloop (ehc_candidate H) cs ?e = Inr w"
        and r': "r = Inr (case w of Inl e' \<Rightarrow> e' | Inr e' \<Rightarrow> e')"
        by (auto simp: rbind_eq_Inr)
      define K where "K e' \<longleftrightarrow> ehc_inv S limit e' \<and> eh_expanded e' = n \<and> eh_counter e' = c" for e'
      have "case w of Inl e' \<Rightarrow> K e' | Inr e' \<Rightarrow> K e'"
      proof (rule rloop_result [OF fold, where I = K and Q = K])
        show "K ?e" using old known_mono [OF _ c] lim by (auto simp: K_def ehc_inv_def)
      next
        fix t e1 e2 assume "t \<in> set cs" "K e1" "ehc_candidate H t e1 = Inr (Inr e2)"
        with ehc_candidate_inv [of H t e1 "Inr e2" S limit] cs show "K e2" by (auto simp: K_def)
      next
        fix t e1 e2 assume "t \<in> set cs" "K e1" "ehc_candidate H t e1 = Inr (Inl e2)"
        with ehc_candidate_inv [of H t e1 "Inl e2" S limit] cs show "K e2" by (auto simp: K_def)
      qed
      with r' show ?thesis by (auto simp: K_def n_def split: sum.splits)
    qed
  qed
qed

lemma ehc_search_good:
  assumes mono: "counter_mono S" and run: "ehc_search S H out limit early weak c = Inr r"
  shows "good_result S limit r"
proof -
  from run obtain init c1 where init: "ss_initial S c = Inr (init, c1)"
    by (auto simp: ehc_search_def rbind_eq_Inr)
  show ?thesis
  proof (cases init)
    case None
    with run init show ?thesis by (auto simp: ehc_search_def intro: good_not_found)
  next
    case (Some s)
    with init have s: "known S c1 s" by (auto intro: known_initial)
    from run init Some obtain g where g: "goal_at_generation S early s = Inr g"
      and nxt: "(if g then Inr (found s 0)
         else rbind (heuristic_eval H s) (\<lambda>(h, s'). case h of
             None \<Rightarrow> Inr (not_found 0)
           | Some best \<Rightarrow> run_rounds (ehc_round S H out limit early)
               \<lparr>eh_open = [s'], eh_best = best, eh_closed = visited_new S weak, eh_expanded = 0,
                eh_generated = 1, eh_counter = c1\<rparr>)) = Inr r"
      by (auto simp: ehc_search_def rbind_eq_Inr)
    show ?thesis
    proof (cases g)
      case True
      with g have "ss_goal S s = Inr True" by (auto dest: goal_at_generationD)
      with True nxt good_found [OF s] show ?thesis by auto
    next
      case False
      with nxt obtain h s' where h: "heuristic_eval H s = Inr (h, s')"
        by (auto simp: rbind_eq_Inr)
      have s': "known S c1 s'" by (rule known_heuristic_eval [OF h s])
      show ?thesis
      proof (cases h)
        case None
        with nxt False h show ?thesis by (auto intro: good_not_found)
      next
        case (Some best)
        with nxt False h have loop: "run_rounds (ehc_round S H out limit early)
               \<lparr>eh_open = [s'], eh_best = best, eh_closed = visited_new S weak, eh_expanded = 0,
                eh_generated = 1, eh_counter = c1\<rparr> = Inr r" by simp
        show ?thesis
        proof (rule run_rounds_result [OF loop, where I = "ehc_inv S limit"])
          fix e e' assume "ehc_inv S limit e" "ehc_round S H out limit early e = Inr (Inr e')"
          from ehc_round_result [OF mono this] show "ehc_inv S limit e'" by simp
        next
          fix e assume "ehc_inv S limit e" "ehc_round S H out limit early e = Inr (Inl r)"
          from ehc_round_result [OF mono this] show ?thesis by simp
        qed (use s' in \<open>simp add: ehc_inv_def\<close>)
      qed
    qed
  qed
qed


section \<open>The instances\<close>

lemma wastar_search_good:
  "counter_mono S \<Longrightarrow> wastar_search S H w out limit early weak c = Inr r \<Longrightarrow> good_result S limit r"
  unfolding wastar_search_def
  by (rule priority_search_good [of pitem_lt _ mset "heap pitem_lt", OF _ wastar_items_carry])
    (simp_all add: priority_queue_def pqueue.open_list_axioms)

lemma novbfs_search_good:
  "counter_mono S \<Longrightarrow> novbfs_search S H N x hg out limit early weak c = Inr r \<Longrightarrow> good_result S limit r"
  unfolding novbfs_search_def
  by (rule priority_search_good [of novitem_lt _ mset "heap novitem_lt", OF _ novbfs_items_carry])
    (simp_all add: priority_queue_def novqueue.open_list_axioms)

lemma wastar_memory_bounded_good:
  assumes "minmax_laws pitem_lt M items good" "counter_mono S"
    and "wastar_search_memory_bounded M B S H w out limit early weak c = Inr r"
  shows "good_result S limit r"
proof -
  have "0 < queue_bound" by (simp add: queue_bound_def)
  note ol = bounded_open_list [OF assms(1) this pitems.item_order_axioms]
  from assms(3) show ?thesis
    unfolding wastar_search_memory_bounded_def bounded_queue_def
    by (intro priority_search_good [OF _ wastar_items_carry assms(2)])
      (use ol in \<open>auto simp: queue_bound_def\<close>)
qed

lemma novbfs_memory_bounded_good:
  assumes "minmax_laws novitem_lt M items good" "counter_mono S"
    and "novbfs_search_memory_bounded M B S H N x hg out limit early weak c = Inr r"
  shows "good_result S limit r"
proof -
  have "0 < queue_bound" by (simp add: queue_bound_def)
  note ol = bounded_open_list [OF assms(1) this novitems.item_order_axioms]
  from assms(3) show ?thesis
    unfolding novbfs_search_memory_bounded_def bounded_queue_def
    by (intro priority_search_good [OF _ novbfs_items_carry assms(2)])
      (use ol in \<open>auto simp: queue_bound_def\<close>)
qed

end
