(* ===== verification/Search_Returns.thy ===== *)
theory Search_Returns
  imports Search_Facts
begin

text \<open>
  Every search returns when it has a limit, and the errors it can end with: those of the
  operations it calls, \<open>TimeoutError\<close> when the clock says so, and
  \<open>ExpansionLimitReached\<close> for its own limit.
\<close>

section \<open>Operations that return\<close>

text \<open>
  The operations of the search space end with a value or an ordinary error on every state
  the search can meet; nothing is said of other states.
\<close>

definition space_returns :: "'n problem_space \<Rightarrow> bool" where
  "space_returns S \<longleftrightarrow> counter_mono S \<and> (\<forall>c. errs ordinary (ss_initial S c)) \<and>
     (\<forall>s a c. known S c s \<longrightarrow> errs ordinary (ss_successor S s a c)) \<and> (\<forall>s. errs ordinary (ss_goal S s)) \<and>
     (\<forall>s. errs ordinary (ss_makespan S s))"

definition heuristic_returns :: "'n heuristic \<Rightarrow> bool" where
  "heuristic_returns H \<longleftrightarrow> (\<forall>s. errs ordinary (he_value H s))"

definition search_error :: "(nat \<Rightarrow> bool) \<Rightarrow> nat option \<Rightarrow> py_error \<Rightarrow> bool" where
  "search_error out limit e \<longleftrightarrow> ordinary e \<or> (e = Timeout \<and> (\<exists>k. out k)) \<or>
     (\<exists>m. limit = Some m \<and> e = ExpansionLimit m)"

lemma ordinary_search_error: "ordinary e \<Longrightarrow> search_error out limit e"
  by (simp add: search_error_def)

lemma search_error_NoReturn [simp]: "\<not> search_error out limit NoReturn"
  by (simp add: search_error_def)

lemma errs_search: "errs ordinary m \<Longrightarrow> errs (search_error out limit) m"
  by (erule errs_mono) (rule ordinary_search_error)

lemma space_returnsD:
  assumes "space_returns S"
  shows "counter_mono S" "errs ordinary (ss_initial S c)"
    "known S c s \<Longrightarrow> errs ordinary (ss_successor S s a c)"
    "errs ordinary (ss_goal S s)" "errs ordinary (ss_makespan S s)"
  using assms by (simp_all add: space_returns_def)

lemma errs_may_expand: "errs (search_error out limit) (may_expand out limit t n)"
  by (auto simp: may_expand_def check_expansion_limit_def search_error_def split: option.split)

lemma errs_goal_tests:
  assumes "space_returns S"
  shows "errs ordinary (goal_at_expansion S early s)" "errs ordinary (goal_at_generation S early s)"
  using space_returnsD(4) [OF assms] by (simp_all add: goal_at_expansion_def goal_at_generation_def)

lemma errs_over_successors:
  assumes S: "space_returns S" and s: "known S c s" and body: "\<And>s acc. errs ordinary (body s acc)"
  shows "errs ordinary (over_successors S s body acc c)"
  unfolding over_successors_def
proof (rule rloop_errs [where I = "\<lambda>p. c \<le> snd p"])
  fix a and p :: "'b \<times> nat" assume "c \<le> snd p"
  then have "known S (snd p) s" by (rule known_mono [OF s])
  then show "errs ordinary (case p of (acc, c) \<Rightarrow> rbind (ss_successor S s a c) (\<lambda>(r, c').
       case r of None \<Rightarrow> Inr (Inr (acc, c'))
       | Some s' \<Rightarrow> rbind (body s' acc) (\<lambda>x.
           case x of Inl res \<Rightarrow> Inr (Inl res) | Inr acc' \<Rightarrow> Inr (Inr (acc', c')))))"
    by (auto intro!: errs_intro space_returnsD(3) [OF S] body)
next
  fix a and p p' :: "'b \<times> nat" assume "c \<le> snd p" and run: "(case p of (acc, c) \<Rightarrow> rbind (ss_successor S s a c) (\<lambda>(r, c').
       case r of None \<Rightarrow> Inr (Inr (acc, c'))
       | Some s' \<Rightarrow> rbind (body s' acc) (\<lambda>x.
           case x of Inl res \<Rightarrow> Inr (Inl res) | Inr acc' \<Rightarrow> Inr (Inr (acc', c'))))) = Inr (Inr p')"
  from run obtain r where "ss_successor S s a (snd p) = Inr (r, snd p')"
    by (cases p) (auto simp: rbind_eq_Inr handed_on_iff split: option.splits)
  with space_returnsD(1) [OF S] \<open>c \<le> snd p\<close> show "c \<le> snd p'" unfolding counter_mono_def by (meson order_trans)
qed simp

lemma errs_heuristic_eval: "heuristic_returns H \<Longrightarrow> errs ordinary (heuristic_eval H s)"
  unfolding heuristic_eval_def heuristic_returns_def by (intro errs_intro) auto

lemma errs_visited:
  assumes "space_returns S"
  shows "errs ordinary (visited_insert S s v)" "errs ordinary (visited_is_redundant S v s)"
  using space_returnsD(5) [OF assms]
  by (auto simp: visited_insert_def visited_is_redundant_def split: option.split dedup_rule.split
      intro!: errs_intro)

lemma errs_bloom: "errs ordinary (bloom_insert B S s d)"
  by (simp add: bloom_insert_def split: option.split)


section \<open>Breadth-first and depth-first search\<close>

lemma basic_round_progress:
  assumes "basic_round S bfs out (Some m) early b = Inr (Inr b')"
  shows "m - ba_expanded b' < m - ba_expanded b"
proof -
  from assms have "may_expand out (Some m) (ba_expanded b) (ba_expanded b) = Inr ()"
    "ba_expanded b' = ba_expanded b + 1"
    by (auto simp: basic_round_def Let_def rbind_eq_Inr handed_on_iff split: if_splits)
  with may_expandD [OF this(1)] show ?thesis by (auto simp: within_limit_def)
qed

lemma basic_round_errs:
  assumes S: "space_returns S" and inv: "basic_inv S limit b"
  shows "errs (search_error out (Some m)) (basic_round S bfs out (Some m) early b)"
proof (cases "ba_open b = []")
  case False
  have succ: "errs ordinary (basic_successor S early n s acc)" for n s acc
    unfolding basic_successor_def by (intro errs_intro errs_goal_tests [OF S])
  have "known S (ba_counter b) (if bfs then hd (ba_open b) else last (ba_open b))"
    using inv False by (auto simp: basic_inv_def)
  with False show ?thesis
    unfolding basic_round_def Let_def
    by (simp only: if_False, intro errs_intro errs_may_expand errs_goal_tests [THEN errs_search, OF S]
        errs_over_successors [THEN errs_search, OF S] succ)
qed (simp add: basic_round_def)

lemma basic_search_errs:
  assumes S: "space_returns S"
  shows "errs (search_error out (Some m)) (basic_search S bfs out (Some m) early c)"
proof -
  have loop: "errs (search_error out (Some m)) (run_rounds (basic_round S bfs out (Some m) early) b)"
    if "basic_inv S (Some m) b" for b
  proof (rule run_rounds_errs [where I = "basic_inv S (Some m)" and m = "\<lambda>b. m - ba_expanded b"])
    show "errs (search_error out (Some m)) (basic_round S bfs out (Some m) early b)"
      if "basic_inv S (Some m) b" for b
      using that by (rule basic_round_errs [OF S])
    show "basic_inv S (Some m) b' \<and> m - ba_expanded b' < m - ba_expanded b"
      if "basic_inv S (Some m) b" "basic_round S bfs out (Some m) early b = Inr (Inr b')" for b b'
      using basic_round_result [OF space_returnsD(1) [OF S] that] basic_round_progress [OF that(2)] by simp
  qed (use that in simp_all)
  show ?thesis
    unfolding basic_search_def
    by (intro errs_intro space_returnsD(2) [THEN errs_search, OF S]
        errs_goal_tests [THEN errs_search, OF S] loop) (auto simp: basic_inv_def intro: known_initial)
qed


section \<open>Enforced hill climbing\<close>

lemma ehc_candidate_expanded:
  "ehc_candidate H s e = Inr y \<Longrightarrow>
     (case y of Inl e' \<Rightarrow> eh_expanded e' = eh_expanded e | Inr e' \<Rightarrow> eh_expanded e' = eh_expanded e)"
  by (auto simp: ehc_candidate_def Let_def rbind_eq_Inr split: option.splits)

lemma ehc_candidates_expanded:
  assumes "rloop (ehc_candidate H) cands e = Inr y"
  shows "eh_expanded (case y of Inl e' \<Rightarrow> e' | Inr e' \<Rightarrow> e') = eh_expanded e"
proof -
  have "case y of Inl e' \<Rightarrow> eh_expanded e' = eh_expanded e | Inr e' \<Rightarrow> eh_expanded e' = eh_expanded e"
    by (rule rloop_result [OF assms, where I = "\<lambda>e'. eh_expanded e' = eh_expanded e"])
      (auto dest: ehc_candidate_expanded)
  then show ?thesis by (auto split: sum.splits)
qed

lemma ehc_round_progress:
  assumes "ehc_round S H out (Some m) early e = Inr (Inr e')"
  shows "m - eh_expanded e' < m - eh_expanded e"
proof -
  from assms have "may_expand out (Some m) (eh_expanded e) (eh_expanded e) = Inr ()"
    "eh_expanded e' = eh_expanded e + 1"
    by (auto simp: ehc_round_def Let_def rbind_eq_Inr handed_on_iff split: list.splits if_splits
        dest!: ehc_candidates_expanded)
  with may_expandD [OF this(1)] show ?thesis by (auto simp: within_limit_def)
qed

lemma ehc_round_errs:
  assumes S: "space_returns S" and H: "heuristic_returns H" and inv: "ehc_inv S limit e"
  shows "errs (search_error out (Some m)) (ehc_round S H out (Some m) early e)"
proof (cases "eh_open e")
  case (Cons s rest)
  have succ: "errs ordinary (ehc_successor S early n clos s acc)" for n clos s acc
    unfolding ehc_successor_def by (intro errs_intro errs_goal_tests errs_visited S)
  have cand: "errs ordinary (ehc_candidate H s e)" for s e
    unfolding ehc_candidate_def Let_def by (intro errs_intro errs_heuristic_eval H)
  have "known S (eh_counter e) s" using inv Cons by (simp add: ehc_inv_def)
  with Cons show ?thesis
    unfolding ehc_round_def Let_def
    by (simp only: list.case, intro errs_intro errs_may_expand errs_goal_tests [THEN errs_search, OF S]
      errs_visited [THEN errs_search, OF S] errs_search [OF cand]
      errs_over_successors [THEN errs_search, OF S] succ)
qed (simp add: ehc_round_def)

lemma ehc_search_errs:
  assumes S: "space_returns S" and H: "heuristic_returns H"
  shows "errs (search_error out (Some m)) (ehc_search S H out (Some m) early weak c)"
proof -
  have loop: "errs (search_error out (Some m)) (run_rounds (ehc_round S H out (Some m) early) e)"
    if "ehc_inv S (Some m) e" for e
  proof (rule run_rounds_errs [where I = "ehc_inv S (Some m)" and m = "\<lambda>e. m - eh_expanded e"])
    show "errs (search_error out (Some m)) (ehc_round S H out (Some m) early e)"
      if "ehc_inv S (Some m) e" for e
      using that by (rule ehc_round_errs [OF S H])
    show "ehc_inv S (Some m) e' \<and> m - eh_expanded e' < m - eh_expanded e"
      if "ehc_inv S (Some m) e" "ehc_round S H out (Some m) early e = Inr (Inr e')" for e e'
      using ehc_round_result [OF space_returnsD(1) [OF S] that] ehc_round_progress [OF that(2)] by simp
  qed (use that in simp_all)
  show ?thesis
    unfolding ehc_search_def
    by (intro errs_intro space_returnsD(2) [THEN errs_search, OF S]
        errs_goal_tests [THEN errs_search, OF S] errs_heuristic_eval [THEN errs_search, OF H] loop)
      (auto simp: ehc_inv_def intro: known_initial known_heuristic_eval)
qed


section \<open>Priority-queue search\<close>

definition items_return :: "('n, 'i, 'x) item_ops \<Rightarrow> bool" where
  "items_return I \<longleftrightarrow> (\<forall>s h x. errs ordinary (it_root I s h x)) \<and> (\<forall>i s h k x. errs ordinary (it_child I i s h k x))"

definition open_returns :: "('i, 'q) open_ops \<Rightarrow> bool" where
  "open_returns Q \<longleftrightarrow> (\<forall>i q. errs ordinary (ol_push Q i q)) \<and> (\<forall>q. errs ordinary (ol_pop Q q))"

definition dedup_returns :: "('n, 'd) dedup_ops \<Rightarrow> bool" where
  "dedup_returns D \<longleftrightarrow> (\<forall>s d. errs ordinary (dd_insert D s d))"

lemma prio_round_progress:
  assumes "prio_round S H Q D I out (Some m) early p = Inr (Inr p')"
  shows "m - pr_expanded p' < m - pr_expanded p"
proof -
  from assms have "may_expand out (Some m) (pr_expanded p) (pr_expanded p) = Inr ()"
    "pr_expanded p' = pr_expanded p + 1"
    by (auto simp: prio_round_def Let_def rbind_eq_Inr handed_on_iff split: if_splits)
  with may_expandD [OF this(1)] show ?thesis by (auto simp: within_limit_def)
qed

lemma prio_round_errs:
  assumes S: "space_returns S" and H: "heuristic_returns H" and I: "items_return I"
    and Q: "open_returns Q" and D: "dedup_returns D"
    and ol: "open_list lt (ol_empty Q) (ol_push Q) (ol_pop Q) (ol_len Q) contents invar"
    and inv: "prio_inv S I contents invar limit p"
  shows "errs (search_error out (Some m)) (prio_round S H Q D I out (Some m) early p)"
proof (cases "ol_len Q (pr_open p) = 0")
  case False
  have dd: "errs ordinary (dd_insert D s d)" for s d using D by (simp add: dedup_returns_def)
  have it: "errs ordinary (it_child I i s h k x)" for i s h k x
    using I by (simp add: items_return_def)
  have oq: "errs ordinary (ol_push Q i q)" "errs ordinary (ol_pop Q q)" for i q
    using Q by (simp_all add: open_returns_def)
  have succ: "errs ordinary (prio_successor S D early n s acc)" for n s acc
    unfolding prio_successor_def by (intro errs_intro errs_goal_tests S dd)
  have cand: "errs ordinary (prio_candidate H Q I i s acc)" for i s acc
    unfolding prio_candidate_def by (intro errs_intro errs_heuristic_eval H it oq)
  have known: "known S (pr_counter p) (it_state I item)" if "ol_pop Q (pr_open p) = Inr (item, q)" for item q
  proof -
    have "item \<in># contents (pr_open p)"
      using open_list.popD [OF ol _ False that] inv by (metis prio_inv_def union_single_eq_member)
    with inv show ?thesis by (simp add: prio_inv_def)
  qed
  from False show ?thesis
    unfolding prio_round_def Let_def
    by (simp only: if_False, intro errs_intro errs_may_expand errs_goal_tests [THEN errs_search, OF S]
        errs_search [OF oq(2)] errs_search [OF cand] errs_over_successors [THEN errs_search, OF S] succ)
      (rule known, simp)
qed (simp add: prio_round_def)

lemma priority_search_errs:
  assumes S: "space_returns S" and H: "heuristic_returns H" and I: "items_return I"
    and Q: "open_returns Q" and D: "dedup_returns D" and carry: "items_carry I"
    and ol: "open_list lt (ol_empty Q) (ol_push Q) (ol_pop Q) (ol_len Q) contents invar"
  shows "errs (search_error out (Some m)) (priority_search S H Q D I out (Some m) early x c)"
proof -
  let ?inv = "prio_inv S I contents invar (Some m)"
  have simple: "errs ordinary (dd_insert D s d)" "errs ordinary (it_root I s h x)"
    "errs ordinary (ol_push Q i q)" for s d h x i q
    using D I Q by (simp_all add: dedup_returns_def items_return_def open_returns_def)
  have loop: "errs (search_error out (Some m)) (run_rounds (prio_round S H Q D I out (Some m) early) p)"
    if "?inv p" for p
  proof (rule run_rounds_errs [where I = ?inv and m = "\<lambda>p. m - pr_expanded p"])
    show "errs (search_error out (Some m)) (prio_round S H Q D I out (Some m) early p)" if "?inv p" for p
      using that by (rule prio_round_errs [OF S H I Q D ol])
    show "?inv p' \<and> m - pr_expanded p' < m - pr_expanded p"
      if "?inv p" "prio_round S H Q D I out (Some m) early p = Inr (Inr p')" for p p'
      using prio_round_result [OF ol carry space_returnsD(1) [OF S] that] prio_round_progress [OF that(2)]
      by simp
  qed (use that in simp_all)
  have start: "?inv \<lparr>pr_open = q, pr_dedup = d, pr_aux = x', pr_expanded = 0, pr_generated = 1, pr_counter = c1\<rparr>"
    if "ss_initial S c = Inr (Some s, c1)" "heuristic_eval H s = Inr (h, s')"
      "it_root I s' v x = Inr (root, x')" "ol_push Q root (ol_empty Q) = Inr q" for s c1 h s' v root x' q d
  proof -
    have "it_state I root = s'" by (rule items_carryD(1) [OF carry that(3)])
    moreover have "known S c1 s'" by (rule known_heuristic_eval [OF that(2) known_initial [OF that(1)]])
    moreover have e: "invar (ol_empty Q)" "contents (ol_empty Q) = {#}" using ol by (auto simp: open_list_def)
    ultimately show ?thesis
      using open_list.pushD [OF ol e(1) that(4)] open_list.push_set [OF ol e(1) that(4)]
      by (auto simp: prio_inv_def)
  qed
  show ?thesis
    unfolding priority_search_def
    by (intro errs_intro space_returnsD(2) [THEN errs_search, OF S] errs_search [OF simple(1)]
        errs_search [OF simple(2)] errs_search [OF simple(3)]
        errs_goal_tests [THEN errs_search, OF S] errs_heuristic_eval [THEN errs_search, OF H]
        loop start) auto
qed

lemma priority_queue_returns: "open_returns (priority_queue lt)"
  by (auto simp: open_returns_def priority_queue_def pq_push_def heappop_def Let_def intro!: errs_intro)

lemma visited_states_returns: "space_returns S \<Longrightarrow> dedup_returns (visited_states S weak)"
  by (simp add: dedup_returns_def visited_states_def errs_visited)

lemma wastar_search_errs:
  assumes "space_returns S" "heuristic_returns H"
  shows "errs (search_error out (Some m)) (wastar_search S H w out (Some m) early weak c)"
  unfolding wastar_search_def
  by (rule priority_search_errs [of _ _ _ _ _ pitem_lt mset "heap pitem_lt",
        OF assms _ priority_queue_returns visited_states_returns [OF assms(1)] wastar_items_carry])
    (simp_all add: items_return_def wastar_items_def priority_queue_def pqueue.open_list_axioms)

definition novelty_returns :: "('n, 'x) novelty_ops \<Rightarrow> bool" where
  "novelty_returns N \<longleftrightarrow> (\<forall>h x. errs ordinary (nv_start N h x)) \<and> (\<forall>h x. errs ordinary (nv_partition_of N h x)) \<and>
     (\<forall>s p par x. errs ordinary (nv_eval N s p par x))"

lemma novbfs_search_errs:
  assumes "space_returns S" "heuristic_returns H" "novelty_returns N"
  shows "errs (search_error out (Some m)) (novbfs_search S H N x hg out (Some m) early weak c)"
proof -
  have "items_return (novbfs_items N hg)"
    using assms(3) by (auto simp: items_return_def novbfs_items_def novelty_returns_def intro!: errs_intro)
  then show ?thesis
    unfolding novbfs_search_def
    by (rule priority_search_errs [of _ _ _ _ _ novitem_lt mset "heap novitem_lt",
          OF assms(1,2) _ priority_queue_returns visited_states_returns [OF assms(1)] novbfs_items_carry])
      (simp add: priority_queue_def novqueue.open_list_axioms)
qed

end
