(* ===== verification/Space_Returns.thy ===== *)
theory Space_Returns
  imports Temporal_Space
begin

text \<open>
  The operations of the search space on the states it can reach end with a value or with an
  ordinary error of the interpreter: the loop of the network, which could run forever on
  a network that carries no constraint set, is only ever called on one that does.
\<close>

section \<open>Evaluation\<close>

definition ifs_return :: "ifenv \<Rightarrow> bool" where
  "ifs_return ifs \<longleftrightarrow> (\<forall>f args. errs ordinary (ifs f args))"

lemma errs_eval_and: "errs ordinary (eval_and ops vs)"
  by (induction ops) (auto intro!: errs_intro)

lemma errs_eval_or: "errs ordinary (eval_or ops vs)"
  by (induction ops) (auto intro!: errs_intro)

lemma errs_operand: "errs ordinary (operand ops k vs)"
  unfolding operand_def by (intro errs_intro)

lemma errs_eval_binary: "(\<And>a b. errs ordinary (f a b)) \<Longrightarrow> errs ordinary (eval_binary f ops vs)"
  unfolding eval_binary_def by (intro errs_intro errs_operand)

lemma errs_eval_fold: "(\<And>a b. errs ordinary (f a b)) \<Longrightarrow> errs ordinary (eval_fold f ops vs)"
  by (cases ops) (auto intro!: errs_intro)

lemma errs_py_ops:
  "errs ordinary (py_add a b)" "errs ordinary (py_sub a b)" "errs ordinary (py_mul a b)"
  "errs ordinary (py_fraction a b)" "errs ordinary (py_compare le a b)"
  by (auto simp: py_add_def py_sub_def py_mul_def py_arith_def py_fraction_def py_compare_def
      split: option.split)

lemma errs_evaluate:
  assumes "ifs_return ifs"
  shows "errs ordinary (evaluate ifs e asg)"
proof -
  have "errs ordinary (coerce_result rt r)" for rt r
    by (cases rt; cases r) (auto simp: rassert_def split: option.split const.split)
  then have call: "errs ordinary (if_call ifs f rt args)" for f rt args
    using assms unfolding if_call_def ifs_return_def by (intro errs_intro) auto
  have op: "errs ordinary (eval_operator k ops vs)" for k ops vs
    unfolding eval_operator_def
    by (intro errs_intro errs_eval_and errs_eval_or errs_operand errs_eval_binary errs_eval_fold errs_py_ops)
  have "errs ordinary (eval_node ifs asg n vs)" for n vs
    by (cases n) (auto intro!: errs_intro call op)
  then show ?thesis unfolding evaluate_def by (intro errs_intro)
qed


lemma errs_holds: "ifs_return ifs \<Longrightarrow> errs ordinary (holds ifs asg c)"
  unfolding holds_def by (intro errs_intro errs_evaluate)

lemma errs_eisc_hold: "ifs_return ifs \<Longrightarrow> errs ordinary (eisc_hold ifs sp a i s)"
  unfolding eisc_hold_def by (intro errs_intro errs_holds)

lemma errs_duration_bounds: "ifs_return ifs \<Longrightarrow> errs ordinary (duration_bounds ifs sp asg d)"
  unfolding duration_bounds_def as_number_def
  by (intro errs_intro errs_evaluate) simp_all

lemma errs_fluents_of: "errs ordinary (fluents_of efs r)"
  unfolding fluents_of_def by (intro errs_intro)

lemma errs_mutex: "errs ordinary (mutex efs p q)"
  unfolding mutex_def pair_check_def by (intro errs_intro errs_fluents_of)


section \<open>Networks that carry their constraints\<close>

definition carried :: "('n \<Rightarrow> tp constraint set \<Rightarrow> bool) \<Rightarrow> 'n \<Rightarrow> bool" where
  "carried carries n \<longleftrightarrow> (\<exists>C. carries n C)"

text \<open>A computation on networks that ends with a carrying network or an ordinary error.\<close>

definition keeps :: "('n \<Rightarrow> tp constraint set \<Rightarrow> bool) \<Rightarrow> 'n res \<Rightarrow> bool" where
  "keeps carries m \<longleftrightarrow> errs ordinary m \<and> (\<forall>n. m = Inr n \<longrightarrow> carried carries n)"

definition net_ok :: "('n \<Rightarrow> tp constraint set \<Rightarrow> bool) \<Rightarrow> 'n state \<Rightarrow> bool" where
  "net_ok carries s \<longleftrightarrow> (\<forall>n. st_tn s = Some n \<longrightarrow> carried carries n)"

lemma net_ok_simps [simp]:
  "net_ok carries (s\<lparr>st_g := k\<rparr>) = net_ok carries s" "net_ok carries (s\<lparr>st_todo := d\<rparr>) = net_ok carries s"
  "net_ok carries (s\<lparr>st_hcache := h\<rparr>) = net_ok carries s" "net_ok carries (clone s False)"
  "net_ok carries (s\<lparr>st_path := p, st_active := act, st_assignments := asg\<rparr>) = net_ok carries s"
  by (simp_all add: net_ok_def)

named_theorems keeps_intro \<open>computations that keep a network carrying, construct by construct\<close>

lemma keeps_Inr [keeps_intro]: "carried carries n \<Longrightarrow> keeps carries (Inr n)"
  by (simp add: keeps_def)

lemma keeps_bind:
  "keeps carries m \<Longrightarrow> (\<And>n. carried carries n \<Longrightarrow> keeps carries (f n)) \<Longrightarrow> keeps carries (rbind m f)"
  by (cases m) (auto simp: keeps_def)

lemma keeps_bind_errs:
  "errs ordinary m \<Longrightarrow> (\<And>x. keeps carries (f x)) \<Longrightarrow> keeps carries (rbind m f)"
  by (cases m) (auto simp: keeps_def errs_def)

lemma keeps_if [keeps_intro]:
  "keeps carries m \<Longrightarrow> keeps carries m' \<Longrightarrow> keeps carries (if b then m else m')"
  by simp

lemma keeps_rfold [keeps_intro]:
  "carried carries n \<Longrightarrow> (\<And>x n. carried carries n \<Longrightarrow> keeps carries (f x n)) \<Longrightarrow> keeps carries (rfold f xs n)"
  by (induction xs arbitrary: n) (auto intro: keeps_Inr keeps_bind)

context network_space
begin

lemma keeps_add [keeps_intro]: "carried carries n \<Longrightarrow> keeps carries (tn_add T x y b n)"
  unfolding carried_def by (erule exE, drule carries_add [of _ _ x y b]) (auto simp: keeps_def carried_def)

lemma keeps_interval [keeps_intro]: "carried carries n \<Longrightarrow> keeps carries (tn_interval T x y l u n)"
  unfolding carried_def by (erule exE, drule carries_interval [of _ _ x y l u]) (auto simp: keeps_def carried_def)

lemma keeps_opening:
  assumes "ifs_return ifs" "carried carries n"
  shows "keeps carries (add_opening_constraints T ifs sp s p n)"
  unfolding add_opening_constraints_def Let_def split_beta event_interval_def
  by (intro keeps_bind_errs [OF errs_py_nth] keeps_bind_errs [OF errs_duration_bounds [OF assms(1)]]
      keeps_bind keeps_intro assms(2))

lemma keeps_past_edges:
  "carried carries n \<Longrightarrow> keeps carries (past_edges T sp r t pred ps n)"
proof (induction ps arbitrary: pred n)
  case (Cons p ps)
  obtain a pos i where p: "p = (a, pos, i)" by (cases p)
  show ?case
    unfolding p past_edges.simps
    by (intro keeps_bind_errs [OF errs_mutex] keeps_bind keeps_intro Cons)
qed (simp add: keeps_Inr)

lemma keeps_todo_edges: "carried carries n \<Longrightarrow> keeps carries (todo_edges T sp r t todo n)"
  unfolding todo_edges_def todo_edge_def split_beta
  by (intro keeps_intro keeps_bind_errs [OF errs_dict_lookup] keeps_bind_errs [OF errs_mutex])

lemma keeps_update_network:
  assumes "ifs_return ifs" "net_ok carries s" "net_ok carries new"
  shows "keeps carries (update_network T ifs sp s new e index eid pend)"
proof -
  have "keeps carries (case st_tn new of Some n \<Rightarrow> Inr n
      | None \<Rightarrow> (case st_tn s of None \<Rightarrow> Inl AssertErr | Some n \<Rightarrow> Inr n))"
    using assms(2,3) by (auto simp: net_ok_def keeps_def split: option.split)
  moreover have "keeps carries (case pend of None \<Rightarrow> Inr n | Some p \<Rightarrow> add_opening_constraints T ifs sp s p n)"
    if "carried carries n" for n
    using that keeps_opening [OF assms(1)] by (auto simp: keeps_Inr split: option.split)
  ultimately show ?thesis
    unfolding update_network_def Let_def
    by (intro keeps_bind keeps_past_edges keeps_todo_edges)
qed


section \<open>Firing events\<close>

lemma errs_expand_event:
  assumes "ifs_return ifs" "net_ok carries s" "net_ok carries new"
  shows "errs ordinary (expand_event T ifs sp s new e index eid pend)"
proof -
  have rem: "errs ordinary (ms_remove c m)" for c m unfolding ms_remove_def by (intro errs_intro)
  have eff: "errs ordinary (apply_effect ifs old eff asg)" for old eff asg
    unfolding apply_effect_def by (intro errs_intro errs_evaluate assms)
  have net: "errs ordinary (update_network T ifs sp s (new\<lparr>st_path := p, st_active := act, st_assignments := asg\<rparr>)
      e index eid pend)" for p act asg
  proof -
    have "net_ok carries (new\<lparr>st_path := p, st_active := act, st_assignments := asg\<rparr>)" using assms(3) by simp
    from keeps_update_network [OF assms(1,2) this] show ?thesis by (simp add: keeps_def)
  qed
  show ?thesis
    unfolding expand_event_def Let_def by (intro errs_intro rem eff net errs_holds [OF assms(1)])
qed

lemma expand_event_net_ok:
  assumes "expand_event T ifs sp s new e index eid pend = Inr (Some s')"
    and "ifs_return ifs" "net_ok carries s" "net_ok carries new"
  shows "net_ok carries s'"
  using assms(1)
proof (rule expand_event_SomeD)
  fix act0 asg
  assume classical: "\<not> sp_temporal sp \<longrightarrow> st_tn s' = st_tn new"
    and temporal: "sp_temporal sp \<longrightarrow> (\<exists>n. st_tn s' = Some n \<and> tn_check T n \<and>
       update_network T ifs sp s (new\<lparr>st_path := st_path s', st_active := st_active s',
         st_assignments := asg\<rparr>) e index eid pend = Inr n)"
  show ?thesis
  proof (cases "sp_temporal sp")
    case True
    with temporal obtain n where n: "st_tn s' = Some n" and run: "update_network T ifs sp s
        (new\<lparr>st_path := st_path s', st_active := st_active s', st_assignments := asg\<rparr>) e index eid pend = Inr n"
      by blast
    have "net_ok carries (new\<lparr>st_path := st_path s', st_active := st_active s', st_assignments := asg\<rparr>)"
      using assms(4) by simp
    from keeps_update_network [OF assms(2,3) this] run n show ?thesis by (simp add: keeps_def net_ok_def)
  qed (use classical assms(4) in \<open>simp add: net_ok_def\<close>)
qed

lemma fires_net_ok:
  assumes "fires T ifs sp s new a index eid pend s'" "ifs_return ifs" "net_ok carries s" "net_ok carries new"
  shows "net_ok carries s'"
  using assms(1) by (rule firesE) (erule expand_event_net_ok [OF _ assms(2-)])

lemma errs_open_action:
  assumes "ifs_return ifs" "net_ok carries s" "net_ok carries new"
  shows "errs ordinary (open_action T ifs sp s new a evs pin c)"
  unfolding open_action_def Let_def
  by (intro errs_intro errs_expand_event assms) (use assms(3) in simp_all)

lemma errs_compress:
  assumes "ifs_return ifs"
  shows "net_ok carries new \<Longrightarrow> errs ordinary (compress T ifs sp a ies eid new)"
proof (induction ies arbitrary: eid new)
  case (Cons p ies)
  obtain i t e where p: "p = (i, t, e)" by (cases p)
  have new: "net_ok carries (new\<lparr>st_g := st_g new + 1\<rparr>)" "net_ok carries (clone new False)"
    using Cons.prems by simp_all
  show ?case
    unfolding p compress.simps
    by (intro errs_intro errs_eisc_hold errs_expand_event Cons.IH assms new)
      (auto intro: expand_event_net_ok [OF _ assms new(2,1)])
qed simp

lemma compress_net_ok:
  assumes "ifs_return ifs"
  shows "compress T ifs sp a ies eid new = Inr (Some s') \<Longrightarrow> net_ok carries new \<Longrightarrow> net_ok carries s'"
proof (induction ies arbitrary: eid new)
  case (Cons p ies)
  obtain i t e where p: "p = (i, t, e)" by (cases p)
  have new: "net_ok carries (new\<lparr>st_g := st_g new + 1\<rparr>)" "net_ok carries (clone new False)"
    using Cons.prems by simp_all
  from Cons.prems(1) obtain new' where
    ex: "expand_event T ifs sp (clone new False) (new\<lparr>st_g := st_g new + 1\<rparr>) e i eid None = Inr (Some new')"
    and rest: "compress T ifs sp a ies (eid + 1) new' = Inr (Some s')"
    by (auto simp: p rbind_eq_Inr split: if_splits option.splits)
  from Cons.IH [OF rest expand_event_net_ok [OF ex assms new(2,1)]] show ?case .
qed simp

lemma errs_symmetry: "errs ordinary (symmetry_allows_opening sp s a)"
  unfolding symmetry_allows_opening_def by (intro errs_intro)

lemma open_action_net_ok:
  assumes "open_action T ifs sp s new a evs pin c = Inr (Some s', c')"
    and "ifs_return ifs" "net_ok carries s" "net_ok carries new"
  shows "net_ok carries s'"
  using assms(1,4)
  by (auto simp: open_action_def Let_def rbind_eq_Inr split: if_splits
      intro: expand_event_net_ok [OF _ assms(2,3)])

lemma errs_successor:
  assumes "ifs_return ifs" "net_ok carries s"
  shows "errs ordinary (get_successor_state_with_compression T ifs sp s a enabled c)"
proof -
  have "errs ordinary (compression_applies sp a enabled)"
    unfolding compression_applies_def by (intro errs_intro)
  moreover have "net_ok carries (new\<lparr>st_todo := d\<rparr>)"
    if "open_action T ifs sp s ((clone s False)\<lparr>st_g := st_g s + 1\<rparr>) a evs False c = Inr (Some new, c')"
    for evs new c' d
    using open_action_net_ok [OF that assms] by simp
  ultimately show ?thesis
    unfolding get_successor_state_with_compression_def continue_action_def start_action_def Let_def
    by (intro errs_intro errs_symmetry errs_holds errs_eisc_hold errs_open_action errs_compress
        errs_expand_event assms) auto
qed

lemma successor_net_ok:
  assumes "get_successor_state_with_compression T ifs sp s a enabled c = Inr (Some s', c')"
    and "ifs_return ifs" "net_ok carries s"
  shows "net_ok carries s'"
  using assms(1)
proof (cases rule: successor_cases)
  case (compressed evs s1 i eid)
  from fires_net_ok [OF compressed(7) assms(2,3)] have "net_ok carries s1" by simp
  with compress_net_ok [OF assms(2) compressed(10)] show ?thesis by simp
qed (use fires_net_ok assms(2,3) in fastforce)+

lemma errs_initial_state:
  assumes "ifs_return ifs"
  shows "errs ordinary (initial_state T ifs sp init c)"
proof -
  have empty: "carried carries (tn_empty T)" using carries_empty by (auto simp: carried_def)
  have tn: "errs ordinary (if sp_temporal sp then
              (case sp_deadline sp of
                 None \<Rightarrow> Inr (Some (tn_empty T))
               | Some d \<Rightarrow> rbind (tn_interval T StartPlan EndPlan d d (tn_empty T)) (\<lambda>n. Inr (Some n)))
            else Inr None)"
    using keeps_interval [OF empty] by (auto simp: keeps_def intro!: errs_intro)
  have ok: "net_ok carries (mk_state asg tn [] ms_empty 0 [])"
    if "(if sp_temporal sp then
              (case sp_deadline sp of
                 None \<Rightarrow> Inr (Some (tn_empty T))
               | Some d \<Rightarrow> rbind (tn_interval T StartPlan EndPlan d d (tn_empty T)) (\<lambda>n. Inr (Some n)))
            else Inr None) = Inr tn" for asg tn
    using that empty keeps_interval [OF empty]
    by (auto simp: net_ok_def mk_state_def keeps_def rbind_eq_Inr split: if_splits option.splits)
  show ?thesis
    unfolding initial_state_def open_timed_action_def Let_def
    by (intro errs_intro tn errs_holds errs_eisc_hold errs_open_action ok assms) (simp_all add: ok)
qed

lemma initial_net_ok:
  assumes "initial_state T ifs sp init c = Inr (Some s, c')" "ifs_return ifs"
  shows "net_ok carries s"
proof -
  have empty: "carried carries (tn_empty T)" using carries_empty by (auto simp: carried_def)
  have ok: "net_ok carries (mk_state asg tn [] ms_empty 0 [])"
    if "if sp_temporal sp then (\<exists>n. tn = Some n \<and> (case sp_deadline sp of None \<Rightarrow> n = tn_empty T
         | Some d \<Rightarrow> tn_interval T StartPlan EndPlan d d (tn_empty T) = Inr n)) else tn = None" for asg tn
    using that empty keeps_interval [OF empty]
    by (auto simp: net_ok_def mk_state_def keeps_def split: if_splits option.splits)
  from assms(1) show ?thesis
  proof (cases rule: initial_stateD)
    case (plain asg tn)
    with ok show ?thesis by blast
  next
    case (timed asg tn a evs)
    have ok': "net_ok carries (mk_state asg None d ms_empty 0 [])" for d by (simp add: net_ok_def mk_state_def)
    from fires_net_ok [OF timed(7) assms(2) ok [OF timed(3)] ok'] show ?thesis
.
  qed
qed

lemma reachable_net_ok:
  assumes "reachable T ifs sp c s" "ifs_return ifs"
  shows "net_ok carries s"
  using assms(1)
  by induction (use assms(2) initial_net_ok successor_net_ok in \<open>auto simp del: net_ok_def\<close>)

end

end
