(* ===== verification/Planning.thy ===== *)
theory Planning
  imports Search_Returns Space_Returns
begin

text \<open>
  The searches on the search space of \<open>search_space.py\<close>: its counter never goes back, the
  states they meet are reachable, and its operations return when the interpreted
  functions and the temporal network do.
\<close>

section \<open>Reachable states\<close>

lemma start_action_counter:
  "start_action T ifs sp s a evs enabled c = Inr (r, c') \<Longrightarrow> c \<le> c'"
  by (auto simp: start_action_def open_action_def Let_def rbind_eq_Inr
      split: if_splits option.splits)

lemma successor_counter:
  "get_successor_state_with_compression T ifs sp s a enabled c = Inr (r, c') \<Longrightarrow> c \<le> c'"
  by (auto simp: get_successor_state_with_compression_def rbind_eq_Inr
      split: option.splits if_splits dest: start_action_counter)

lemma search_space_counter_mono: "counter_mono (search_space_of T ifs sp)"
  by (auto simp: counter_mono_def search_space_of_def get_successor_state_def dest: successor_counter)

lemma explored_reachable: "explored (search_space_of T ifs sp) c s \<Longrightarrow> reachable T ifs sp c s"
proof (induction rule: explored.induct)
  case (explored_initial c s c')
  then show ?case by (auto simp: search_space_of_def intro: reach_initial)
next
  case (explored_successor c s c1 a s' c')
  then show ?case
    by (auto simp: search_space_of_def get_successor_state_def intro: reach_successor)
next
  case (explored_cache c s h)
  then show ?case by (auto intro: reach_cache)
qed

text \<open>What a plan of a search is: the actions along the path of a reachable goal state.\<close>

definition plan_of_space :: "'n tn_ops \<Rightarrow> ifenv \<Rightarrow> sspace \<Rightarrow> action list \<Rightarrow> bool" where
  "plan_of_space T ifs sp plan \<longleftrightarrow> (\<exists>c s. reachable T ifs sp c s \<and> st_todo s = [] \<and>
     (\<exists>g. sp_goal sp = Some g \<and> evaluate ifs g (st_assignments s) = Inr (CBool True)) \<and>
     plan = map fst (st_path s))"

lemma goal_reachedD:
  assumes "goal_reached ifs sp s None = Inr True"
  shows "st_todo s = [] \<and> (\<exists>g. sp_goal sp = Some g \<and> evaluate ifs g (st_assignments s) = Inr (CBool True))"
proof -
  from assms obtain g v where todo: "st_todo s = []" and g: "sp_goal sp = Some g"
    and v: "evaluate ifs g (st_assignments s) = Inr v"
    and b: "(case v of CBool b \<Rightarrow> Inr b | _ \<Rightarrow> Inl AssertErr) = Inr True"
    by (auto simp: goal_reached_def the_goal_def rbind_eq_Inr split: if_splits option.splits)
  from b have "v = CBool True" by (cases v) auto
  with todo g v show ?thesis by auto
qed

lemma good_result_plan:
  assumes "good_result (search_space_of T ifs sp) limit (Some plan, n, d)"
  shows "plan_of_space T ifs sp plan"
proof -
  from assms obtain c s where "explored (search_space_of T ifs sp) c s"
    "ss_goal (search_space_of T ifs sp) s = Inr True" "plan = extract_path s"
    by (auto simp: good_result_def sound_result_def)
  moreover from this have "reachable T ifs sp c s" by (intro explored_reachable)
  ultimately show ?thesis
    using goal_reachedD [of ifs sp s]
    by (auto simp: plan_of_space_def search_space_of_def extract_path_def)
qed


lemma good_plan:
  assumes "good_result (search_space_of T ifs sp) limit (Some plan, n, d)"
  shows "plan_of_space T ifs sp plan \<and> within_limit limit n"
  using good_result_plan [OF assms] assms by (simp add: good_result_def)

lemma search_returned:
  assumes "errs (search_error out (Some m)) x"
  shows "x \<noteq> Inl NoReturn \<and>
    (\<forall>e. x = Inl e \<longrightarrow> ordinary e \<or> (e = Timeout \<and> (\<exists>k. out k)) \<or> e = ExpansionLimit m)"
  using errsD [OF assms] unfolding search_error_def by (metis ordinary_simps(9) option.inject py_error.distinct(1) search_error_NoReturn search_error_def)


section \<open>The operations return\<close>

context network_space
begin

lemma search_space_returns:
  assumes "ifs_return ifs"
  shows "space_returns (search_space_of T ifs sp)"
proof -
  have "errs ordinary (goal_reached ifs sp s None)" for s :: "'n state"
    unfolding goal_reached_def the_goal_def
    by (intro errs_intro errs_evaluate assms) (auto split: const.split)
  moreover have "errs ordinary (makespan T s)" for s
    unfolding makespan_def by (intro errs_intro) simp_all
  moreover have "errs ordinary (get_successor_state_with_compression T ifs sp s a True c)"
    if "known (search_space_of T ifs sp) c s" for s a c
  proof -
    from that have "net_ok carries s"
      using explored_reachable reachable_net_ok [OF _ assms] unfolding known_def by blast
    then show ?thesis by (rule errs_successor [OF assms])
  qed
  ultimately show ?thesis
    using errs_initial_state [OF assms] search_space_counter_mono [of T ifs sp]
    by (simp add: space_returns_def search_space_of_def get_successor_state_def)
qed

end

end
