(* ===== verification/Expression_Trees.thy ===== *)
theory Expression_Trees
  imports Expressions
begin

text \<open>
  The specification of expressions: syntax trees with a recursive semantics, and the
  proof that the postorder tuples of \<open>search_space.py\<close> implement them.  \<open>flatten\<close> is
  the layout the \<open>Converter\<close> produces; \<open>evaluate\<close>, \<open>split_expression\<close> and
  \<open>extract_sub_expression\<close> are refined against it.
\<close>

section \<open>Trees and their layout\<close>

datatype etree =
    TConst const
  | TFluent fluent
  | TOp string "etree list"
  | TIf ifun if_return_type "etree list"

definition op_kinds :: "string list" where
  "op_kinds = [''and'', ''or'', ''not'', ''=='', ''<='', ''<'', ''+'', ''-'', ''*'', ''/'']"

fun tsize :: "etree \<Rightarrow> nat" where
  "tsize (TConst _) = 1"
| "tsize (TFluent _) = 1"
| "tsize (TOp _ ts) = Suc (sum_list (map tsize ts))"
| "tsize (TIf _ _ ts) = Suc (sum_list (map tsize ts))"

text \<open>The indices of the roots of consecutive children laid out from \<open>off\<close> on.\<close>

fun roots :: "nat \<Rightarrow> etree list \<Rightarrow> int list" where
  "roots off [] = []"
| "roots off (t # ts) = int (off + tsize t - 1) # roots (off + tsize t) ts"

fun flat :: "nat \<Rightarrow> etree \<Rightarrow> expression"
  and flats :: "nat \<Rightarrow> etree list \<Rightarrow> expression" where
  "flat off (TConst c) = [NConst c]"
| "flat off (TFluent f) = [NFluent f]"
| "flat off (TOp k ts) = flats off ts @ [NOp k (roots off ts)]"
| "flat off (TIf f rt ts) = flats off ts @ [NIf f rt (roots off ts)]"
| "flats off [] = []"
| "flats off (t # ts) = flat off t @ flats (off + tsize t) ts"

definition flatten :: "etree \<Rightarrow> expression" where
  "flatten t = flat 0 t"

fun wf_tree :: "etree \<Rightarrow> bool" where
  "wf_tree (TConst _) = True"
| "wf_tree (TFluent _) = True"
| "wf_tree (TOp k ts) = (k \<in> set op_kinds \<and> list_all wf_tree ts)"
| "wf_tree (TIf _ _ ts) = list_all wf_tree ts"

fun tree_fluents :: "etree \<Rightarrow> fluent list" where
  "tree_fluents (TConst _) = []"
| "tree_fluents (TFluent f) = [f]"
| "tree_fluents (TOp _ ts) = concat (map tree_fluents ts)"
| "tree_fluents (TIf _ _ ts) = concat (map tree_fluents ts)"

lemma tsize_pos [simp]: "0 < tsize t"
  by (cases t) auto

lemma tsize_ge_1: "Suc 0 \<le> tsize t"
  by (simp add: Suc_leI)

lemma length_flat [simp]:
  "length (flat off t) = tsize t"
  "length (flats off ts) = sum_list (map tsize ts)"
  by (induction off t and off ts rule: flat_flats.induct) auto

lemma length_flatten [simp]: "length (flatten t) = tsize t"
  by (simp add: flatten_def)

lemma flat_not_Nil [simp]: "flat off t \<noteq> []"
  by (cases t) auto

lemma length_roots [simp]: "length (roots off ts) = length ts"
  by (induction off ts rule: roots.induct) auto

lemma roots_shift: "map (\<lambda>o'. o' + int k) (roots off ts) = roots (off + k) ts"
proof (induction off ts rule: roots.induct)
  case (2 off t ts)
  then show ?case
    using tsize_ge_1 [of t] by (simp add: of_nat_diff algebra_simps)
qed simp

lemma roots_unshift: "map (\<lambda>o'. o' - int k) (roots (off + k) ts) = roots off ts"
  by (simp flip: roots_shift) (simp add: comp_def)

lemma shift_flat:
  "shift_expression (flat off t) (int k) = flat (off + k) t"
  "shift_expression (flats off ts) (int k) = flats (off + k) ts"
proof (induction off t and off ts rule: flat_flats.induct)
  case (3 off kd ts)
  then show ?case by (simp add: shift_expression_def flip: roots_shift)
next
  case (4 off f rt ts)
  then show ?case by (simp add: shift_expression_def flip: roots_shift)
next
  case (6 off t ts)
  then show ?case by (simp add: ac_simps)
qed (simp_all add: shift_expression_def)

lemma unshift_flat: "shift_expression (flat (off + k) t) (- int k) = flat off t"
  by (simp flip: shift_flat(1))

lemma get_fluents_flat:
  "get_fluents (flat off t) = tree_fluents t"
  "get_fluents (flats off ts) = concat (map tree_fluents ts)"
  by (induction off t and off ts rule: flat_flats.induct) auto

lemma roots_range:
  "i \<in> set (roots off ts) \<Longrightarrow> int off \<le> i \<and> i < int (off + sum_list (map tsize ts))"
proof (induction off ts rule: roots.induct)
  case (2 off t ts)
  then show ?case using tsize_ge_1 [of t] by (auto simp: of_nat_diff)
qed simp


section \<open>Semantics of trees\<close>

fun op_fold :: "(const \<Rightarrow> const \<Rightarrow> const res) \<Rightarrow> const list \<Rightarrow> const res" where
  "op_fold f [] = Inl StopIterErr"
| "op_fold f (v # vs) = rfold (\<lambda>w v. f v w) vs v"

fun op_unary :: "(const \<Rightarrow> const) \<Rightarrow> const list \<Rightarrow> const res" where
  "op_unary f [] = Inl IndexErr"
| "op_unary f (v # vs) = Inr (f v)"

fun op_binary :: "(const \<Rightarrow> const \<Rightarrow> const res) \<Rightarrow> const list \<Rightarrow> const res" where
  "op_binary f (a # b # vs) = f a b"
| "op_binary f _ = Inl IndexErr"

definition op_apply :: "string \<Rightarrow> const list \<Rightarrow> const res" where
  "op_apply k vs =
    (if k = ''and'' then Inr (CBool (list_all truthy vs))
     else if k = ''or'' then Inr (CBool (list_ex truthy vs))
     else if k = ''not'' then op_unary (\<lambda>v. CBool (\<not> truthy v)) vs
     else if k = ''=='' then op_binary (\<lambda>a b. Inr (CBool (py_eq a b))) vs
     else if k = ''<='' then op_binary (\<lambda>a b. rbind (py_compare (\<le>) a b) (\<lambda>r. Inr (CBool r))) vs
     else if k = ''<'' then op_binary (\<lambda>a b. rbind (py_compare (<) a b) (\<lambda>r. Inr (CBool r))) vs
     else if k = ''+'' then rbind (op_fold py_add vs) (\<lambda>v. Inr (normalize_num v))
     else if k = ''-'' then rbind (op_binary py_sub vs) (\<lambda>v. Inr (normalize_num v))
     else if k = ''*'' then rbind (op_fold py_mul vs) (\<lambda>v. Inr (normalize_num v))
     else rbind (op_binary py_fraction vs) (\<lambda>v. Inr (normalize_num v)))"

fun teval :: "ifenv \<Rightarrow> const list \<Rightarrow> etree \<Rightarrow> const res" where
  "teval ifs asg (TConst c) = Inr c"
| "teval ifs asg (TFluent f) = py_nth asg (int (fl_idx f))"
| "teval ifs asg (TOp k ts) = rbind (rmap (teval ifs asg) ts) (op_apply k)"
| "teval ifs asg (TIf f rt ts) = rbind (rmap (teval ifs asg) ts) (if_call ifs f rt)"


section \<open>Operators on in-range operands\<close>

definition in_range :: "int list \<Rightarrow> 'a list \<Rightarrow> bool" where
  "in_range ops vs \<longleftrightarrow> (\<forall>i \<in> set ops. 0 \<le> i \<and> i < int (length vs))"

definition reads :: "int list \<Rightarrow> 'a list \<Rightarrow> 'a list" where
  "reads ops vs = map (\<lambda>i. vs ! nat i) ops"

lemma in_range_simps [simp]:
  "in_range [] vs"
  "in_range (i # ops) vs \<longleftrightarrow> 0 \<le> i \<and> i < int (length vs) \<and> in_range ops vs"
  by (auto simp: in_range_def)

lemma reads_simps [simp]:
  "reads [] vs = []"
  "reads (i # ops) vs = vs ! nat i # reads ops vs"
  by (auto simp: reads_def)

lemma eval_and_reads: "in_range ops vs \<Longrightarrow> eval_and ops vs = Inr (list_all truthy (reads ops vs))"
  by (induction ops) (auto simp: py_nth_in_range)

lemma eval_or_reads: "in_range ops vs \<Longrightarrow> eval_or ops vs = Inr (list_ex truthy (reads ops vs))"
  by (induction ops) (auto simp: py_nth_in_range)

lemma rfold_reads:
  "in_range ops vs \<Longrightarrow> rfold (\<lambda>j v. rbind (py_nth vs j) (f v)) ops v =
     rfold (\<lambda>w v. f v w) (reads ops vs) v"
proof (induction ops arbitrary: v)
  case (Cons i ops)
  then show ?case by (cases "f v (vs ! nat i)") (auto simp: py_nth_in_range)
qed simp

lemma eval_fold_reads: "in_range ops vs \<Longrightarrow> eval_fold f ops vs = op_fold f (reads ops vs)"
  by (cases ops) (auto simp: py_nth_in_range rfold_reads)

lemma operand_0_reads:
  "in_range ops vs \<Longrightarrow> operand ops 0 vs = (case reads ops vs of [] \<Rightarrow> Inl IndexErr | v # _ \<Rightarrow> Inr v)"
  by (cases ops) (auto simp: operand_def py_nth_def)

lemma eval_binary_reads:
  assumes "in_range ops vs"
  shows "eval_binary f ops vs = op_binary f (reads ops vs)"
proof (cases ops)
  case (Cons i js)
  with assms show ?thesis
    by (cases js) (auto simp: eval_binary_def operand_def py_nth_def)
qed (simp add: eval_binary_def operand_def py_nth_def)

lemma eval_operator_reads:
  assumes "in_range ops vs" "k \<in> set op_kinds"
  shows "eval_operator k ops vs = rbind (op_apply k (reads ops vs)) (\<lambda>v. Inr (vs @ [v]))"
  using assms
  by (auto simp: eval_operator_def op_apply_def op_kinds_def eval_and_reads eval_or_reads
      operand_0_reads eval_binary_reads eval_fold_reads rbind_assoc split: list.split)

lemma rmap_py_nth_reads: "in_range ops vs \<Longrightarrow> rmap (py_nth vs) ops = Inr (reads ops vs)"
  by (induction ops) (auto simp: py_nth_in_range)


section \<open>Evaluation refines the tree semantics\<close>

definition evals_to :: "'a res \<Rightarrow> 'b list res \<Rightarrow> ('a \<Rightarrow> 'b list \<Rightarrow> bool) \<Rightarrow> bool" where
  "evals_to m r P \<longleftrightarrow> (case m of Inl e \<Rightarrow> r = Inl e | Inr v \<Rightarrow> \<exists>ws. r = Inr ws \<and> P v ws)"

lemma evals_to_Inl [simp]: "evals_to (Inl e) r P \<longleftrightarrow> r = Inl e"
  by (simp add: evals_to_def)

lemma evals_to_Inr [simp]: "evals_to (Inr v) r P \<longleftrightarrow> (\<exists>ws. r = Inr ws \<and> P v ws)"
  by (simp add: evals_to_def)

lemma reads_append: "in_range ops vs \<Longrightarrow> reads ops (vs @ ws) = reads ops vs"
  by (induction ops) (auto simp: nth_append nat_less_iff)

lemma in_range_append: "in_range ops vs \<Longrightarrow> in_range ops (vs @ ws)"
  by (auto simp: in_range_def)

lemma flat_evaluates:
  "wf_tree t \<Longrightarrow> length vs = off \<Longrightarrow>
     evals_to (teval ifs asg t) (rfold (eval_node ifs asg) (flat off t) vs)
       (\<lambda>v us. \<exists>ws. us = vs @ ws @ [v] \<and> Suc (length ws) = tsize t)"
  "list_all wf_tree ts \<Longrightarrow> length vs = off \<Longrightarrow>
     evals_to (rmap (teval ifs asg) ts) (rfold (eval_node ifs asg) (flats off ts) vs)
       (\<lambda>xs us. \<exists>ws. us = vs @ ws \<and> length ws = sum_list (map tsize ts) \<and>
          in_range (roots off ts) us \<and> reads (roots off ts) us = xs)"
proof (induction off t and off ts arbitrary: vs and vs rule: flat_flats.induct)
  case (1 off c)
  then show ?case by simp
next
  case (2 off f)
  then show ?case by (cases "py_nth asg (int (fl_idx f))") auto
next
  case (3 off k ts)
  then have k: "k \<in> set op_kinds" and ts: "list_all wf_tree ts" by auto
  show ?case
  proof (cases "rmap (teval ifs asg) ts")
    case (Inl e)
    with "3.IH" [OF ts "3.prems"(2)] show ?thesis by (simp add: rfold_append)
  next
    case (Inr xs)
    with "3.IH" [OF ts "3.prems"(2)] obtain ws where
      ws: "rfold (eval_node ifs asg) (flats off ts) vs = Inr (vs @ ws)"
        "length ws = sum_list (map tsize ts)" "in_range (roots off ts) (vs @ ws)"
        "reads (roots off ts) (vs @ ws) = xs" by auto
    then show ?thesis
      by (cases "op_apply k xs") (auto simp: rfold_append Inr eval_operator_reads [OF ws(3) k])
  qed
next
  case (4 off f rt ts)
  then have ts: "list_all wf_tree ts" by auto
  show ?case
  proof (cases "rmap (teval ifs asg) ts")
    case (Inl e)
    with "4.IH" [OF ts "4.prems"(2)] show ?thesis by (simp add: rfold_append)
  next
    case (Inr xs)
    with "4.IH" [OF ts "4.prems"(2)] obtain ws where
      ws: "rfold (eval_node ifs asg) (flats off ts) vs = Inr (vs @ ws)"
        "length ws = sum_list (map tsize ts)" "in_range (roots off ts) (vs @ ws)"
        "reads (roots off ts) (vs @ ws) = xs" by auto
    then show ?thesis
      by (cases "if_call ifs f rt xs") (auto simp: rfold_append Inr rmap_py_nth_reads [OF ws(3)])
  qed
next
  case (5 off)
  then show ?case by simp
next
  case (6 off t ts)
  then have t: "wf_tree t" and ts: "list_all wf_tree ts" by auto
  show ?case
  proof (cases "teval ifs asg t")
    case (Inl e)
    with "6.IH"(1) [OF t "6.prems"(2)] show ?thesis by (simp add: rfold_append)
  next
    case (Inr v)
    with "6.IH"(1) [OF t "6.prems"(2)] obtain ws where
      ws: "rfold (eval_node ifs asg) (flat off t) vs = Inr (vs @ ws @ [v])"
        "Suc (length ws) = tsize t" by auto
    let ?us = "vs @ ws @ [v]"
    have len: "length ?us = off + tsize t" using ws "6.prems" by simp
    show ?thesis
    proof (cases "rmap (teval ifs asg) ts")
      case (Inl e)
      with "6.IH"(2) [OF ts len] ws show ?thesis by (simp add: rfold_append Inr)
    next
      case xs: (Inr xs)
      with "6.IH"(2) [OF ts len] obtain zs where
        zs: "rfold (eval_node ifs asg) (flats (off + tsize t) ts) ?us = Inr (?us @ zs)"
          "length zs = sum_list (map tsize ts)" "in_range (roots (off + tsize t) ts) (?us @ zs)"
          "reads (roots (off + tsize t) ts) (?us @ zs) = xs" by auto
      have "nat (int (off + tsize t - 1)) = length (vs @ ws)"
        using ws "6.prems" by simp
      then have "(?us @ zs) ! nat (int (off + tsize t - 1)) = v"
        by (simp add: nth_append del: nat_int)
      with zs ws "6.prems" show ?thesis
        by (auto simp: rfold_append Inr xs intro: exI [of _ "ws @ [v] @ zs"])
    qed
  qed
qed

theorem evaluate_flatten:
  assumes "wf_tree t"
  shows "evaluate ifs (flatten t) asg = teval ifs asg t"
  using flat_evaluates(1) [OF assms, of "[]" 0 ifs asg]
  by (cases "teval ifs asg t") (auto simp: evaluate_def flatten_def simp flip: append_assoc)


section \<open>Sub-expressions\<close>

lemma sub_start_step_flat:
  assumes "e = pre @ flat (length pre) t @ post"
  shows "run_loop (sub_start_step e) (int (length pre + tsize t) - 1) = Inr (Inr (int (length pre)))"
  using assms
proof (induction "tsize t" arbitrary: t post rule: less_induct)
  case less
  let ?i = "int (length pre + tsize t) - 1"
  have leaf: ?case if n: "py_nth e ?i = Inr n" and "node_operands n = []" and "tsize t = 1" for n
    using that by (simp add: run_loop_exit sub_start_step_def)
  have last: "py_nth e ?i = Inr n" if "flat (length pre) t = es @ [n]" for es n
  proof -
    have "?i = int (length (pre @ es))" using arg_cong [OF that, of length] by simp
    then show ?thesis using that less.prems by (simp only: py_nth_int_iff) simp
  qed
  have node: ?case
    if es: "flat (length pre) t = flats (length pre) ts @ [n]"
      and ops: "node_operands n = roots (length pre) ts" and sz: "tsize t = Suc (sum_list (map tsize ts))"
    for ts n
  proof (cases ts)
    case Nil
    with that show ?thesis by (intro leaf [OF last]) auto
  next
    case (Cons u us)
    have "sub_start_step e ?i = Inr (int (length pre + tsize u) - 1)"
      using last [OF es] ops Cons tsize_ge_1 [of u] by (simp add: sub_start_step_def of_nat_diff)
    then have "run_loop (sub_start_step e) ?i =
        run_loop (sub_start_step e) (int (length pre + tsize u) - 1)"
      by (rule run_loop_next)
    also have "\<dots> = Inr (Inr (int (length pre)))"
      by (rule less.hyps [where post = "flats (length pre + tsize u) us @ [n] @ post"])
        (use less.prems es sz Cons in auto)
    finally show ?thesis .
  qed
  show ?case
  proof (cases t)
    case (TConst c)
    then show ?thesis by (intro leaf [OF last]) auto
  next
    case (TFluent f)
    then show ?thesis by (intro leaf [OF last]) auto
  next
    case (TOp k ts)
    then show ?thesis by (intro node [of ts "NOp k (roots (length pre) ts)"]) auto
  next
    case (TIf f rt ts)
    then show ?thesis by (intro node [of ts "NIf f rt (roots (length pre) ts)"]) auto
  qed
qed

theorem extract_sub_expression_flat:
  "extract_sub_expression (pre @ flat (length pre) t @ post) (int (length pre + tsize t) - 1) =
     Inr (flatten t)"
proof -
  let ?e = "pre @ flat (length pre) t @ post"
  have slice: "py_slice ?e (int (length pre)) (int (length pre + tsize t)) = flat (length pre) t"
    using py_slice_middle [of pre "flat (length pre) t" post] by simp
  have start: "sub_start ?e (int (length pre + tsize t) - 1) = Inr (int (length pre))"
    by (simp only: sub_start_def sub_start_step_flat [OF refl]) simp
  show ?thesis
    using unshift_flat [of 0 "length pre" t] slice
    by (simp only: extract_sub_expression_def start flatten_def) simp
qed

lemma split_operands_flats:
  "split_operands (pre @ flats (length pre) ts @ post) (int (length pre)) (roots (length pre) ts) =
     map flatten ts"
proof (induction ts arbitrary: pre)
  case (Cons t ts)
  let ?e = "pre @ flats (length pre) (t # ts) @ post"
  let ?pre = "pre @ flat (length pre) t"
  have r: "int (length pre + tsize t - 1) + 1 = int (length ?pre)"
    using tsize_ge_1 [of t] by (simp add: of_nat_diff)
  have e: "?e = ?pre @ flats (length ?pre) ts @ post" by simp
  have "py_slice ?e (int (length pre)) (int (length ?pre)) = flat (length pre) t"
    using py_slice_middle [of pre "flat (length pre) t"] by simp
  then have "shift_expression (py_slice ?e (int (length pre)) (int (length ?pre))) (- int (length pre))
      = flatten t"
    using unshift_flat [of 0 "length pre" t] by (simp add: flatten_def)
  moreover have "split_operands ?e (int (length ?pre)) (roots (length ?pre) ts) = map flatten ts"
    unfolding e by (rule Cons.IH)
  ultimately show ?case by (simp only: roots.simps split_operands.simps r) simp
qed simp

theorem split_expression_flatten:
  "split_expression (flatten t) =
     Inr (case t of TOp k ts \<Rightarrow> if k = ''and'' then map flatten ts else [flatten t] | _ \<Rightarrow> [flatten t])"
proof (cases t)
  case (TOp k ts)
  then show ?thesis
    using split_operands_flats [of "[]" ts "[NOp k (roots 0 ts)]"]
    by (cases "k = ''and''") (simp_all add: split_expression_def flatten_def)
qed (simp_all add: split_expression_def flatten_def py_last_eq)

end
