(* ===== verification/Converter.thy ===== *)
theory Converter
  imports Expression_Trees
begin

text \<open>
  The walkers of \<open>src/tamerlite/converter.py\<close>: each builds the postorder tuple of an
  operator from the tuples of its arguments.  The expression nodes themselves
  (\<open>FNode\<close>) belong to unified_planning; what a walker asks of one is an argument of its
  definition.  \<open>converted\<close> is the set of tuples the walkers can build, and
  \<open>converted_flatten\<close> shows each is the layout of a syntax tree.
\<close>

section \<open>Operators\<close>

text \<open>
  The loop shared by \<open>walk_and\<close>, \<open>walk_or\<close>, \<open>walk_plus\<close>, \<open>walk_times\<close> and
  \<open>walk_interpreted_function_exp\<close>: append each argument shifted past the previous ones
  and record the index of its root.
\<close>

fun nary_loop ::
    "expression \<Rightarrow> int \<Rightarrow> int list \<Rightarrow> expression list \<Rightarrow> expression \<times> int list" where
  "nary_loop res offset ops [] = (res, ops)"
| "nary_loop res offset ops (a # as) =
     nary_loop (res @ shift_expression a (offset + 1)) (offset + int (length a))
       (ops @ [offset + int (length a)]) as"

definition nary_args :: "expression \<Rightarrow> expression list \<Rightarrow> expression \<times> int list" where
  "nary_args a as = nary_loop a (int (length a) - 1) [int (length a) - 1] as"

definition nary_node :: "(int list \<Rightarrow> node) \<Rightarrow> expression \<Rightarrow> expression list \<Rightarrow> expression" where
  "nary_node mk a as = (case nary_args a as of (res, ops) \<Rightarrow> res @ [mk ops])"

fun walk_and :: "expression list \<Rightarrow> expression" where
  "walk_and [] = [make_bool_constant_node True]"
| "walk_and [a] = a"
| "walk_and (a # as) = nary_node (make_operator_node ''and'') a as"

fun walk_or :: "expression list \<Rightarrow> expression" where
  "walk_or [] = [make_bool_constant_node False]"
| "walk_or [a] = a"
| "walk_or (a # as) = nary_node (make_operator_node ''or'') a as"

fun walk_not :: "expression list \<Rightarrow> expression res" where
  "walk_not [a] = Inr (a @ [make_operator_node ''not'' [int (length a) - 1]])"
| "walk_not _ = Inl AssertErr"

fun walk_plus :: "expression list \<Rightarrow> expression res" where
  "walk_plus (a # b # as) = Inr (nary_node (make_operator_node ''+'') a (b # as))"
| "walk_plus _ = Inl AssertErr"

fun walk_times :: "expression list \<Rightarrow> expression res" where
  "walk_times (a # b # as) = Inr (nary_node (make_operator_node ''*'') a (b # as))"
| "walk_times _ = Inl AssertErr"

text \<open>The body shared by the binary walkers.\<close>

definition binary_node :: "string \<Rightarrow> expression \<Rightarrow> expression \<Rightarrow> expression" where
  "binary_node k a b =
     a @ shift_expression b (int (length a)) @
     [make_operator_node k [int (length a) - 1, int (length a) + int (length b) - 1]]"

fun walk_minus :: "expression list \<Rightarrow> expression res" where
  "walk_minus [a, b] = Inr (binary_node ''-'' a b)"
| "walk_minus _ = Inl AssertErr"

fun walk_div :: "expression list \<Rightarrow> expression res" where
  "walk_div [a, b] = Inr (binary_node ''/'' a b)"
| "walk_div _ = Inl AssertErr"

fun walk_le :: "expression list \<Rightarrow> expression res" where
  "walk_le [a, b] = Inr (binary_node ''<='' a b)"
| "walk_le _ = Inl AssertErr"

fun walk_lt :: "expression list \<Rightarrow> expression res" where
  "walk_lt [a, b] = Inr (binary_node ''<'' a b)"
| "walk_lt _ = Inl AssertErr"

text \<open>
  \<open>walk_equals\<close> puts a non-static fluent first.  \<open>fl0\<close>: argument 0 is a fluent
  expression, \<open>static0\<close>: of a static fluent, \<open>fl1\<close>: argument 1 is a fluent expression.
\<close>

fun walk_equals :: "bool \<Rightarrow> bool \<Rightarrow> bool \<Rightarrow> expression list \<Rightarrow> expression res" where
  "walk_equals fl0 static0 fl1 [a, b] =
     Inr (if (\<not> fl0 \<or> static0) \<and> fl1 then binary_node ''=='' b a else binary_node ''=='' a b)"
| "walk_equals _ _ _ _ = Inl AssertErr"


section \<open>Leaves\<close>

text \<open>
  A fluent expression is looked up by its text.  \<open>ifuns\<close> and \<open>nested\<close> say whether its
  arguments contain interpreted functions or other fluents
  (\<open>_unresolvable_fluent_error\<close>).
\<close>

definition unresolvable_fluent_error :: "bool \<Rightarrow> bool \<Rightarrow> py_error" where
  "unresolvable_fluent_error ifuns nested =
     (if ifuns then Unsupported else if nested then Unsupported else AssertErr)"

definition walk_fluent_exp ::
    "(string, fluent) dict \<Rightarrow> string \<Rightarrow> bool \<Rightarrow> bool \<Rightarrow> expression res" where
  "walk_fluent_exp ids name ifuns nested = (case dict_get ids name of
     Some f \<Rightarrow> Inr [make_fluent_node f]
   | None \<Rightarrow> Inl (unresolvable_fluent_error ifuns nested))"

text \<open>What a constant \<open>FNode\<close> can be, with the numerator and denominator of a real.\<close>

datatype up_constant = UBool bool | UInt int | UReal int int | UObject string | UNotConstant

fun convert_constant :: "(string, obj) dict \<Rightarrow> up_constant \<Rightarrow> node res" where
  "convert_constant ids (UBool b) = Inr (make_bool_constant_node b)"
| "convert_constant ids (UInt i) = Inr (make_int_constant_node i)"
| "convert_constant ids (UReal n d) = make_rational_constant_node n d"
| "convert_constant ids (UObject name) =
     rbind (dict_lookup ids name) (\<lambda>x. Inr (make_object_node x))"
| "convert_constant ids UNotConstant = Inl AssertErr"

definition walk_constant :: "(string, obj) dict \<Rightarrow> up_constant \<Rightarrow> expression res" where
  "walk_constant ids c = rbind (convert_constant ids c) (\<lambda>n. Inr [n])"

text \<open>
  An interpreted-function call, given the wrapper \<open>f\<close> of its callable and the tag of
  its return type (\<open>None\<close>: no type the code supports).
\<close>

definition walk_interpreted_function_exp ::
    "ifun \<Rightarrow> if_return_type option \<Rightarrow> expression list \<Rightarrow> expression res" where
  "walk_interpreted_function_exp f rt args = (case rt of
     None \<Rightarrow> Inl Unsupported
   | Some t \<Rightarrow> Inr (case args of
       [] \<Rightarrow> [make_interpreted_function_node f t []]
     | a # as \<Rightarrow> nary_node (make_interpreted_function_node f t) a as))"


section \<open>What the walkers build\<close>

inductive converted :: "expression \<Rightarrow> etree \<Rightarrow> bool" where
  conv_constant: "walk_constant ids c = Inr [NConst v] \<Longrightarrow> converted [NConst v] (TConst v)"
| conv_fluent: "walk_fluent_exp ids name ifuns nested = Inr [NFluent f] \<Longrightarrow>
    converted [NFluent f] (TFluent f)"
| conv_and_none: "converted (walk_and []) (TConst (CBool True))"
| conv_and_one: "converted a t \<Longrightarrow> converted (walk_and [a]) t"
| conv_and_many: "2 \<le> length as \<Longrightarrow> list_all2 converted as ts \<Longrightarrow>
    converted (walk_and as) (TOp ''and'' ts)"
| conv_or_none: "converted (walk_or []) (TConst (CBool False))"
| conv_or_one: "converted a t \<Longrightarrow> converted (walk_or [a]) t"
| conv_or_many: "2 \<le> length as \<Longrightarrow> list_all2 converted as ts \<Longrightarrow>
    converted (walk_or as) (TOp ''or'' ts)"
| conv_not: "list_all2 converted as ts \<Longrightarrow> walk_not as = Inr e \<Longrightarrow> converted e (TOp ''not'' ts)"
| conv_plus: "list_all2 converted as ts \<Longrightarrow> walk_plus as = Inr e \<Longrightarrow> converted e (TOp ''+'' ts)"
| conv_times: "list_all2 converted as ts \<Longrightarrow> walk_times as = Inr e \<Longrightarrow> converted e (TOp ''*'' ts)"
| conv_minus: "list_all2 converted as ts \<Longrightarrow> walk_minus as = Inr e \<Longrightarrow> converted e (TOp ''-'' ts)"
| conv_div: "list_all2 converted as ts \<Longrightarrow> walk_div as = Inr e \<Longrightarrow> converted e (TOp ''/'' ts)"
| conv_le: "list_all2 converted as ts \<Longrightarrow> walk_le as = Inr e \<Longrightarrow> converted e (TOp ''<='' ts)"
| conv_lt: "list_all2 converted as ts \<Longrightarrow> walk_lt as = Inr e \<Longrightarrow> converted e (TOp ''<'' ts)"
| conv_equals: "converted a t \<Longrightarrow> converted b u \<Longrightarrow> walk_equals fl0 static0 fl1 [a, b] = Inr e \<Longrightarrow>
    converted e (TOp ''=='' (if (\<not> fl0 \<or> static0) \<and> fl1 then [u, t] else [t, u]))"
| conv_interpreted: "list_all2 converted as ts \<Longrightarrow>
    walk_interpreted_function_exp f (Some rt) as = Inr e \<Longrightarrow> converted e (TIf f rt ts)"

lemma flats_snoc: "flats off (ts @ [t]) = flats off ts @ flat (off + sum_list (map tsize ts)) t"
  by (induction ts arbitrary: off) (auto simp: add.assoc)

lemma roots_snoc:
  "roots off (ts @ [t]) = roots off ts @ [int (off + sum_list (map tsize ts) + tsize t - 1)]"
  by (induction ts arbitrary: off) (auto simp: add.assoc)

lemma nary_loop_flatten:
  assumes "ts \<noteq> []"
  shows "nary_loop (flats 0 ts) (int (sum_list (map tsize ts)) - 1) (roots 0 ts) (map flatten us) =
    (flats 0 (ts @ us), roots 0 (ts @ us))"
  using assms
proof (induction us arbitrary: ts)
  case (Cons u us)
  let ?n = "sum_list (map tsize ts)"
  have "shift_expression (flatten u) (int ?n) = flat ?n u"
    using shift_flat(1) [of 0 u ?n] by (simp add: flatten_def)
  moreover have "int ?n - 1 + int (tsize u) = int (?n + tsize u - 1)"
    using tsize_ge_1 [of u] by (simp add: of_nat_diff)
  ultimately show ?case
    using Cons.IH [of "ts @ [u]"] tsize_ge_1 [of u]
    by (simp add: flats_snoc roots_snoc of_nat_diff algebra_simps)
qed simp

lemma nary_node_flatten:
  "nary_node mk (flatten t) (map flatten ts) = flats 0 (t # ts) @ [mk (roots 0 (t # ts))]"
  using nary_loop_flatten [of "[t]" ts] tsize_ge_1 [of t]
  by (simp add: nary_node_def nary_args_def flatten_def of_nat_diff)

lemma nary_operator_flatten:
  "nary_node (make_operator_node k) (flatten t) (map flatten ts) = flatten (TOp k (t # ts))"
  by (subst nary_node_flatten) (simp add: flatten_def make_operator_node_def)

lemmas nary_operator_flatten2 = nary_operator_flatten [where ts = "u # us" for u us, simplified]

lemma nary_function_flatten:
  "nary_node (make_interpreted_function_node f rt) (flatten t) (map flatten ts) =
     flatten (TIf f rt (t # ts))"
  by (subst nary_node_flatten) (simp add: flatten_def make_interpreted_function_node_def)

lemma flatten_TIf_Nil: "flatten (TIf f rt []) = [NIf f rt []]"
  by (simp add: flatten_def)

lemma binary_node_flatten:
  "binary_node k (flatten t) (flatten u) = flatten (TOp k [t, u])"
proof -
  have "shift_expression (flatten u) (int (tsize t)) = flat (tsize t) u"
    using shift_flat(1) [of 0 u "tsize t"] by (simp add: flatten_def)
  then show ?thesis
    using tsize_ge_1 [of t] tsize_ge_1 [of u]
    by (simp add: binary_node_def flatten_def make_operator_node_def of_nat_diff)
qed

lemma walk_and_flatten:
  "2 \<le> length ts \<Longrightarrow> walk_and (map flatten ts) = flatten (TOp ''and'' ts)"
  by (cases ts rule: list_cases2) (simp_all add: nary_operator_flatten2)

lemma walk_or_flatten:
  "2 \<le> length ts \<Longrightarrow> walk_or (map flatten ts) = flatten (TOp ''or'' ts)"
  by (cases ts rule: list_cases2) (simp_all add: nary_operator_flatten2)

lemma list_all2_flatten:
  "list_all2 (\<lambda>e t. converted e t \<and> e = flatten t \<and> wf_tree t) es ts \<Longrightarrow>
     es = map flatten ts \<and> list_all wf_tree ts"
  by (induction rule: list_all2_induct) auto

theorem converted_flatten: "converted e t \<Longrightarrow> e = flatten t \<and> wf_tree t"
proof (induction rule: converted.induct)
  case (conv_constant ids c v)
  then show ?case by (simp add: flatten_def)
next
  case (conv_fluent ids name ifuns nested f)
  then show ?case by (simp add: flatten_def)
next
  case conv_and_none
  then show ?case by (simp add: flatten_def make_bool_constant_node_def)
next
  case conv_or_none
  then show ?case by (simp add: flatten_def make_bool_constant_node_def)
next
  case (conv_and_many as ts)
  with list_all2_flatten [of as ts] walk_and_flatten [of ts] show ?case
    by (auto simp: op_kinds_def dest: list_all2_lengthD)
next
  case (conv_or_many as ts)
  with list_all2_flatten [of as ts] walk_or_flatten [of ts] show ?case
    by (auto simp: op_kinds_def dest: list_all2_lengthD)
next
  case (conv_not as ts e)
  from list_all2_flatten [OF conv_not(1)] conv_not(2) show ?case
    by (cases ts rule: list_cases3) (auto simp: flatten_def make_operator_node_def op_kinds_def
        of_nat_diff tsize_ge_1)
next
  case (conv_plus as ts e)
  from list_all2_flatten [OF conv_plus(1)] conv_plus(2) show ?case
    by (cases ts rule: list_cases2) (auto simp: op_kinds_def nary_operator_flatten2)
next
  case (conv_times as ts e)
  from list_all2_flatten [OF conv_times(1)] conv_times(2) show ?case
    by (cases ts rule: list_cases2) (auto simp: op_kinds_def nary_operator_flatten2)
next
  case (conv_minus as ts e)
  from list_all2_flatten [OF conv_minus(1)] conv_minus(2) show ?case
    by (cases ts rule: list_cases3) (auto simp: op_kinds_def binary_node_flatten)
next
  case (conv_div as ts e)
  from list_all2_flatten [OF conv_div(1)] conv_div(2) show ?case
    by (cases ts rule: list_cases3) (auto simp: op_kinds_def binary_node_flatten)
next
  case (conv_le as ts e)
  from list_all2_flatten [OF conv_le(1)] conv_le(2) show ?case
    by (cases ts rule: list_cases3) (auto simp: op_kinds_def binary_node_flatten)
next
  case (conv_lt as ts e)
  from list_all2_flatten [OF conv_lt(1)] conv_lt(2) show ?case
    by (cases ts rule: list_cases3) (auto simp: op_kinds_def binary_node_flatten)
next
  case (conv_equals a t b u fl0 static0 fl1 e)
  then show ?case by (auto simp: op_kinds_def binary_node_flatten split: if_splits)
next
  case (conv_interpreted as ts f rt e)
  from list_all2_flatten [OF conv_interpreted(1)] conv_interpreted(2) show ?case
    by (cases ts) (auto simp: walk_interpreted_function_exp_def nary_function_flatten
        flatten_TIf_Nil make_interpreted_function_node_def)
qed simp_all

end
