(* ===== verification/Plan_Builder.thy ===== *)
theory Plan_Builder
  imports Space_Returns "HOL-Library.Product_Lexorder"
begin

text \<open>
  \<open>SearchSpace.build_plan\<close>: the path of a goal state is replayed against a second network that
  holds only the constraints a plan needs, and the earliest schedule of that network gives
  the start and the duration of every action.
\<close>

section \<open>The network of the plan\<close>

type_synonym plan_entry = "rat option \<times> action \<times> rat option"

record 'n plan_loop =
  pl_tn :: 'n
  pl_todo :: "(action, nat \<times> nat) dict"
  pl_path :: "(event \<times> nat) list"
  pl_counter :: nat

definition plan_bounds :: "ifenv \<Rightarrow> sspace \<Rightarrow> const list \<Rightarrow> duration option \<Rightarrow> (rat \<times> rat) res" where
  "plan_bounds ifs sp asg d = (case d of
     None \<Rightarrow> Inr (0, 0)
   | Some (l, u, lstrict, ustrict) \<Rightarrow>
       rbind (evaluate ifs l asg) (\<lambda>lower.
       rbind (evaluate ifs u asg) (\<lambda>upper.
       rbind (as_number lower) (\<lambda>lo.
       rbind (as_number upper) (\<lambda>hi.
         Inr (- lo - (if lstrict then sp_epsilon sp else 0),
              hi - (if ustrict then sp_epsilon sp else 0))))))) "

definition plan_anchor :: "'n tn_ops \<Rightarrow> tp \<Rightarrow> tp \<Rightarrow> nat \<times> timed_event \<Rightarrow> 'n \<Rightarrow> 'n res" where
  "plan_anchor T start fin ite n = (case ite of (eid, t, e) \<Rightarrow>
     let ev = EventTP (ev_action e) (ev_pos e) eid; anchor = (if is_from_start t then start else fin)
     in rbind (tn_add T anchor ev (- tm_delay t) n) (tn_add T ev anchor (tm_delay t)))"

text \<open>The network comes back with the number of the first event and the next free number.\<close>

definition add_action_to_plan_network ::
    "'n tn_ops \<Rightarrow> ifenv \<Rightarrow> sspace \<Rightarrow> 'n \<Rightarrow> const list \<Rightarrow> action \<Rightarrow> nat \<Rightarrow> ('n \<times> nat \<times> nat) res" where
  "add_action_to_plan_network T ifs sp n asg a k =
     (let start = ActionTP a True k; fin = ActionTP a False k in
      rbind (py_nth (sp_durations sp) (int (act_idx a))) (\<lambda>d.
      rbind (plan_bounds ifs sp asg d) (\<lambda>(lb, ub).
      rbind (tn_add T start fin lb n) (\<lambda>n1.
      rbind (tn_add T fin start ub n1) (\<lambda>n2.
      rbind (dict_lookup (sp_events sp) a) (\<lambda>evs.
      rbind (rfold (plan_anchor T start fin) (map (\<lambda>(j, te). (k + 1 + j, te)) (indexed evs)) n2) (\<lambda>n3.
      Inr (n3, k + 1, k + 1 + length evs))))))))"

definition event_id :: "event \<Rightarrow> event_ref" where
  "event_id e = (ev_action e, ev_pos e)"

definition event_tp :: "event \<Rightarrow> nat \<Rightarrow> tp" where
  "event_tp e i = EventTP (ev_action e) (ev_pos e) i"

text \<open>The edge from one event of the path to the event \<open>e\<close>.\<close>

definition plan_past_edge :: "'n tn_ops \<Rightarrow> sspace \<Rightarrow> event \<Rightarrow> nat \<Rightarrow> event \<times> nat \<Rightarrow> 'n \<Rightarrow> 'n res" where
  "plan_past_edge T sp e i p n = (case p of (e2, i2) \<Rightarrow>
     rbind (mutex (sp_event_fluents sp) (event_id e) (event_id e2)) (\<lambda>m.
     if m then tn_add T (event_tp e2 i2) (event_tp e i) (- sp_epsilon sp) n
     else rbind (precedence (sp_event_fluents sp) (event_id e2) (event_id e)) (\<lambda>before.
       if before then tn_add T (event_tp e2 i2) (event_tp e i) 0 n else Inr n)))"

definition plan_todo_edge :: "'n tn_ops \<Rightarrow> sspace \<Rightarrow> event \<Rightarrow> nat \<Rightarrow> nat \<times> timed_event \<Rightarrow> 'n \<Rightarrow> 'n res" where
  "plan_todo_edge T sp e i p n = (case p of (i2, _, e2) \<Rightarrow>
     rbind (mutex (sp_event_fluents sp) (event_id e) (event_id e2)) (\<lambda>m.
     if m then tn_add T (event_tp e i) (event_tp e2 i2) (- sp_epsilon sp) n else Inr n))"

definition plan_todo_edges ::
    "'n tn_ops \<Rightarrow> sspace \<Rightarrow> event \<Rightarrow> nat \<Rightarrow> (action, nat \<times> nat) dict \<Rightarrow> 'n \<Rightarrow> 'n res" where
  "plan_todo_edges T sp e i = rfold (\<lambda>(a, j, id0) n.
     rbind (dict_lookup (sp_events sp) a) (\<lambda>evs.
       rfold (plan_todo_edge T sp e i) (map (\<lambda>(k, te). (id0 + k, te)) (indexed (drop j evs))) n))"

text \<open>The edges of one event, and the event on the path.\<close>

definition plan_event ::
    "'n tn_ops \<Rightarrow> sspace \<Rightarrow> event \<Rightarrow> nat \<Rightarrow> (action, nat \<times> nat) dict \<Rightarrow> 'n plan_loop \<Rightarrow> 'n plan_loop res" where
  "plan_event T sp e i todo p =
     rbind (rfold (plan_past_edge T sp e i) (pl_path p) (pl_tn p)) (\<lambda>n1.
     rbind (plan_todo_edges T sp e i todo n1) (\<lambda>n2.
     Inr (p\<lparr>pl_tn := n2, pl_path := pl_path p @ [(e, i)]\<rparr>)))"


section \<open>The replay\<close>

definition plan_continue ::
    "'n tn_ops \<Rightarrow> sspace \<Rightarrow> action \<Rightarrow> timed_event list \<Rightarrow> nat \<Rightarrow> nat \<Rightarrow> 'n plan_loop \<Rightarrow> 'n plan_loop res" where
  "plan_continue T sp a evs index i p =
     (let todo = (if index + 1 \<ge> length evs then dict_del a (pl_todo p)
                  else dict_set a (index + 1, i + 1) (pl_todo p)) in
      rbind (py_nth evs (int index)) (\<lambda>te.
        plan_event T sp (snd te) i todo (p\<lparr>pl_todo := todo\<rparr>)))"

definition plan_open ::
    "'n tn_ops \<Rightarrow> ifenv \<Rightarrow> sspace \<Rightarrow> const list \<Rightarrow> action \<Rightarrow> timed_event list \<Rightarrow> 'n plan_loop \<Rightarrow> 'n plan_loop res" where
  "plan_open T ifs sp asg a evs p =
     rbind (add_action_to_plan_network T ifs sp (pl_tn p) asg a (pl_counter p)) (\<lambda>(n1, i, k).
     rbind (if sp_timed sp \<noteq> None then tn_add T StartPlan (ActionTP a True (pl_counter p)) 0 n1 else Inr n1) (\<lambda>n2.
     rbind (py_nth evs 0) (\<lambda>te.
     rbind (plan_event T sp (snd te) i (pl_todo p) (p\<lparr>pl_tn := n2, pl_counter := k\<rparr>)) (\<lambda>p'.
     Inr (if length evs > 1 then p'\<lparr>pl_todo := dict_set a (1, i + 1) (pl_todo p')\<rparr> else p')))))"

definition plan_round ::
    "'n tn_ops \<Rightarrow> ifenv \<Rightarrow> sspace \<Rightarrow> action \<Rightarrow> 'n plan_loop \<times> 'n state \<times> nat \<Rightarrow>
     ('n plan_loop \<times> 'n state \<times> nat) res" where
  "plan_round T ifs sp a psc = (case psc of (p, s, c) \<Rightarrow>
     rbind (dict_lookup (sp_events sp) a) (\<lambda>evs.
     rbind (case dict_get (pl_todo p) a of
              Some (index, i) \<Rightarrow> plan_continue T sp a evs index i p
            | None \<Rightarrow> plan_open T ifs sp (st_assignments s) a evs p) (\<lambda>p'.
     rbind (get_successor_state_with_compression T ifs sp s a False c) (\<lambda>(r, c').
     case r of None \<Rightarrow> Inl AssertErr | Some s' \<Rightarrow> Inr (p', s', c')))))"

text \<open>The timed action, which the initial state has already opened, is replayed first.\<close>

definition plan_timed ::
    "'n tn_ops \<Rightarrow> ifenv \<Rightarrow> sspace \<Rightarrow> const list \<Rightarrow> action \<Rightarrow> 'n plan_loop \<Rightarrow> 'n plan_loop res" where
  "plan_timed T ifs sp asg a p =
     rbind (add_action_to_plan_network T ifs sp (pl_tn p) asg a (pl_counter p)) (\<lambda>(n1, i, k).
     let start = ActionTP a True (pl_counter p) in
     rbind (tn_add T StartPlan start 0 n1) (\<lambda>n2.
     rbind (tn_add T start StartPlan 0 n2) (\<lambda>n3.
     rbind (dict_lookup (sp_events sp) a) (\<lambda>evs.
     rbind (py_nth evs 0) (\<lambda>te.
     Inr \<lparr>pl_tn = n3, pl_todo = (if length evs > 1 then dict_set a (1, i + 1) (pl_todo p) else pl_todo p),
          pl_path = pl_path p @ [(snd te, i)], pl_counter = k\<rparr>)))))"

definition plan_replay ::
    "'n tn_ops \<Rightarrow> ifenv \<Rightarrow> sspace \<Rightarrow> action list \<Rightarrow> nat \<Rightarrow> ('n plan_loop \<times> 'n state \<times> nat) res" where
  "plan_replay T ifs sp path c =
     rbind (initial_state T ifs sp None c) (\<lambda>(r, c1). case r of None \<Rightarrow> Inl AssertErr | Some s \<Rightarrow>
     let p0 = \<lparr>pl_tn = tn_empty T, pl_todo = [], pl_path = [], pl_counter = 0\<rparr> in
     (case sp_timed sp of
        None \<Rightarrow> rfold (plan_round T ifs sp) path (p0, s, c1)
      | Some a \<Rightarrow> (case path of
            [] \<Rightarrow> Inl AssertErr
          | b # rest \<Rightarrow> if b \<noteq> a then Inl AssertErr
              else rbind (plan_timed T ifs sp (st_assignments s) a p0) (\<lambda>p.
                rfold (plan_round T ifs sp) rest (p, s, c1)))))"


section \<open>The plan\<close>

fun start_of :: "action option \<Rightarrow> tp \<times> rat \<Rightarrow> (action \<times> nat) option" where
  "start_of timed (ActionTP a True i, d) = (if timed = Some a then None else Some (a, i))"
| "start_of timed _ = None"

definition plan_entry ::
    "(tp, rat) dict \<Rightarrow> action option \<Rightarrow> rat \<Rightarrow> action \<times> nat \<Rightarrow> plan_entry res" where
  "plan_entry dm timed origin ai = (case ai of (a, i) \<Rightarrow>
     rbind (dict_lookup dm (ActionTP a True i)) (\<lambda>ds.
     rbind (dict_lookup dm (ActionTP a False i)) (\<lambda>de.
     let st = - ds - origin; et = - de - origin in
     Inr (Some st, a, if et - st = 0 then None else Some (et - st)))))"

text \<open>
  Python compares the entries as tuples: two entries of one action at one start whose
  durations are a number and \<open>None\<close> cannot be compared, and a sort has to compare them.
\<close>

definition entry_key :: "plan_entry \<Rightarrow> rat \<times> nat \<times> rat" where
  "entry_key e = (case e of (st, a, d) \<Rightarrow>
     (case st of None \<Rightarrow> 0 | Some q \<Rightarrow> q, act_idx a, case d of None \<Rightarrow> 0 | Some q \<Rightarrow> q))"

definition comparable :: "plan_entry \<Rightarrow> plan_entry \<Rightarrow> bool" where
  "comparable x y = (case (x, y) of ((st, a, d), (st', a', d')) \<Rightarrow>
     st = st' \<and> a = a' \<longrightarrow> (d = None) = (d' = None))"

definition sort_plan :: "plan_entry list \<Rightarrow> plan_entry list res" where
  "sort_plan es = (if \<forall>x \<in> set es. \<forall>y \<in> set es. comparable x y then Inr (sort_key entry_key es)
     else Inl TypeErr)"

definition plan_of_network :: "'n tn_ops \<Rightarrow> sspace \<Rightarrow> 'n \<Rightarrow> plan_entry list res" where
  "plan_of_network T sp n =
     (let ds = tn_distances T n in
      rbind (if sp_timed sp = None then Inr 0
             else rbind (dict_lookup ds StartPlan) (\<lambda>d. Inr (- d))) (\<lambda>origin.
      rbind (rmap (plan_entry ds (sp_timed sp) origin)
               (List.map_filter (start_of (sp_timed sp)) ds)) sort_plan))"

definition build_plan ::
    "'n tn_ops \<Rightarrow> ifenv \<Rightarrow> sspace \<Rightarrow> action list \<Rightarrow> nat \<Rightarrow> (plan_entry list \<times> nat) res" where
  "build_plan T ifs sp path c =
     (if \<not> sp_temporal sp then Inr (map (\<lambda>a. (None, a, None)) path, c)
      else rbind (plan_replay T ifs sp path c) (\<lambda>(p, s, c').
        rbind (plan_of_network T sp (pl_tn p)) (\<lambda>plan. Inr (plan, c'))))"

end
