(* ===== verification/Plan_Facts.thy ===== *)
theory Plan_Facts
  imports Plan_Builder
begin

text \<open>
  The plan \<open>build_plan\<close> returns is the earliest schedule of constraints that the network of the
  replayed state implies, so that network is consistent and the plan keeps the durations,
  the delays of the events and the order of the events that interfere.
\<close>

section \<open>What the network of the plan carries\<close>

definition plan_opening_edges :: "rat \<times> rat \<Rightarrow> action \<Rightarrow> nat \<Rightarrow> timed_event list \<Rightarrow> tp constraint set" where
  "plan_opening_edges bounds a k evs = (case bounds of (lb, ub) \<Rightarrow>
     {(ActionTP a True k, ActionTP a False k, lb), (ActionTP a False k, ActionTP a True k, ub)} \<union>
     (\<Union>p \<in> set (map (\<lambda>(j, te). (k + 1 + j, te)) (indexed evs)).
        anchor_edges (ActionTP a True k) (ActionTP a False k) p))"

definition past_edge_set :: "sspace \<Rightarrow> event \<times> nat \<Rightarrow> event \<times> nat \<Rightarrow> tp constraint set" where
  "past_edge_set sp q p = (case (q, p) of ((e, i), (e2, i2)) \<Rightarrow>
     if mutex (sp_event_fluents sp) (event_id e) (event_id e2) = Inr True
     then {(event_tp e2 i2, event_tp e i, - sp_epsilon sp)}
     else if precedence (sp_event_fluents sp) (event_id e2) (event_id e) = Inr True
     then {(event_tp e2 i2, event_tp e i, 0)} else {})"

definition ahead_edge_set :: "sspace \<Rightarrow> event \<times> nat \<Rightarrow> nat \<times> timed_event \<Rightarrow> tp constraint set" where
  "ahead_edge_set sp q p = (case (q, p) of ((e, i), (i2, _, e2)) \<Rightarrow>
     if mutex (sp_event_fluents sp) (event_id e) (event_id e2) = Inr True
     then {(event_tp e i, event_tp e2 i2, - sp_epsilon sp)} else {})"

text \<open>The numbered events an action in progress still has to fire.\<close>

definition ahead :: "sspace \<Rightarrow> action \<times> nat \<times> nat \<Rightarrow> (nat \<times> timed_event) set" where
  "ahead sp p = (case p of (a, j, id0) \<Rightarrow> (case dict_get (sp_events sp) a of None \<Rightarrow> {}
     | Some evs \<Rightarrow> set (map (\<lambda>(k, te). (id0 + k, te)) (indexed (drop j evs)))))"

context network_space
begin

lemma carries_rfold:
  assumes "rfold f xs n = Inr n'" "carries n C"
    and "\<And>x n n' C. x \<in> set xs \<Longrightarrow> f x n = Inr n' \<Longrightarrow> carries n C \<Longrightarrow> carries n' (C \<union> E x)"
  shows "carries n' (C \<union> (\<Union>x \<in> set xs. E x))"
  using assms
proof (induction xs arbitrary: n C)
  case (Cons x xs)
  from Cons.prems(1) obtain n1 where n1: "f x n = Inr n1" "rfold f xs n1 = Inr n'" by (auto simp: rbind_eq_Inr)
  have "carries n1 (C \<union> E x)" using Cons.prems(3) [OF _ n1(1) Cons.prems(2)] by simp
  from Cons.IH [OF n1(2) this] Cons.prems(3) show ?case by (simp add: Un_assoc)
qed simp

lemma plan_anchor_carries:
  assumes "plan_anchor T start fin ite n = Inr n'" "carries n C"
  shows "carries n' (C \<union> anchor_edges start fin ite)"
proof -
  obtain eid t e where ite: "ite = (eid, t, e)" by (cases ite) auto
  let ?a = "if is_from_start t then start else fin" and ?ev = "EventTP (ev_action e) (ev_pos e) eid"
  from assms(1) obtain n1 where n1: "tn_add T ?a ?ev (- tm_delay t) n = Inr n1"
    and n': "tn_add T ?ev ?a (tm_delay t) n1 = Inr n'"
    by (auto simp: plan_anchor_def ite Let_def rbind_eq_Inr)
  from add_carries [OF add_carries [OF assms(2) n1] n'] show ?thesis
    by (simp add: anchor_edges_def ite Let_def)
qed

lemma add_action_carries:
  assumes "add_action_to_plan_network T ifs sp n asg a k = Inr (n', i, k')" "carries n C"
  obtains evs lb ub where "dict_get (sp_events sp) a = Some evs"
    "plan_bounds ifs sp asg (sp_durations sp ! act_idx a) = Inr (lb, ub)"
    "i = k + 1" "k' = k + 1 + length evs" "carries n' (C \<union> plan_opening_edges (lb, ub) a k evs)"
proof -
  let ?start = "ActionTP a True k" and ?fin = "ActionTP a False k"
  from assms(1) obtain lb ub n1 n2 evs where
    b: "plan_bounds ifs sp asg (sp_durations sp ! act_idx a) = Inr (lb, ub)"
    and n1: "tn_add T ?start ?fin lb n = Inr n1" and n2: "tn_add T ?fin ?start ub n1 = Inr n2"
    and evs: "dict_get (sp_events sp) a = Some evs"
    and n': "rfold (plan_anchor T ?start ?fin) (map (\<lambda>(j, te). (k + 1 + j, te)) (indexed evs)) n2 = Inr n'"
    and k: "i = k + 1" "k' = k + 1 + length evs"
    by (auto simp: add_action_to_plan_network_def Let_def rbind_eq_Inr py_nth_int_iff)
  have "carries n2 (insert (?fin, ?start, ub) (insert (?start, ?fin, lb) C))"
    by (rule add_carries [OF add_carries [OF assms(2) n1] n2])
  from carries_rfold [OF n' this, of "anchor_edges ?start ?fin"] plan_anchor_carries
  have "carries n' (insert (?fin, ?start, ub) (insert (?start, ?fin, lb) C) \<union>
     (\<Union>p \<in> set (map (\<lambda>(j, te). (k + 1 + j, te)) (indexed evs)). anchor_edges ?start ?fin p))" by blast
  also have "insert (?fin, ?start, ub) (insert (?start, ?fin, lb) C) \<union>
     (\<Union>p \<in> set (map (\<lambda>(j, te). (k + 1 + j, te)) (indexed evs)). anchor_edges ?start ?fin p) =
     C \<union> plan_opening_edges (lb, ub) a k evs"
    by (auto simp: plan_opening_edges_def)
  finally show thesis using that evs b k by blast
qed

lemma plan_past_edge_carries:
  "plan_past_edge T sp e i p n = Inr n' \<Longrightarrow> carries n C \<Longrightarrow> carries n' (C \<union> past_edge_set sp (e, i) p)"
  by (auto simp: plan_past_edge_def past_edge_set_def rbind_eq_Inr split: prod.splits if_splits dest: add_carries)

lemma plan_todo_edge_carries:
  "plan_todo_edge T sp e i p n = Inr n' \<Longrightarrow> carries n C \<Longrightarrow> carries n' (C \<union> ahead_edge_set sp (e, i) p)"
  by (auto simp: plan_todo_edge_def ahead_edge_set_def rbind_eq_Inr split: prod.splits if_splits dest: add_carries)

lemma plan_event_carries:
  assumes "plan_event T sp e i todo p = Inr p'" "carries (pl_tn p) C"
  shows "pl_todo p' = pl_todo p \<and> pl_counter p' = pl_counter p \<and> pl_path p' = pl_path p @ [(e, i)] \<and>
    carries (pl_tn p') (C \<union> (\<Union>q \<in> set (pl_path p). past_edge_set sp (e, i) q) \<union>
      (\<Union>q \<in> set todo. \<Union>r \<in> ahead sp q. ahead_edge_set sp (e, i) r))"
proof -
  from assms(1) obtain n1 n2 where past: "rfold (plan_past_edge T sp e i) (pl_path p) (pl_tn p) = Inr n1"
    and todo: "plan_todo_edges T sp e i todo n1 = Inr n2"
    and p': "p' = p\<lparr>pl_tn := n2, pl_path := pl_path p @ [(e, i)]\<rparr>"
    by (auto simp: plan_event_def rbind_eq_Inr)
  have n1: "carries n1 (C \<union> (\<Union>q \<in> set (pl_path p). past_edge_set sp (e, i) q))"
    by (rule carries_rfold [OF past assms(2) plan_past_edge_carries])
  have row: "carries n' (C \<union> (\<Union>r \<in> ahead sp q. ahead_edge_set sp (e, i) r))"
    if "(\<lambda>(a, j, id0) n. rbind (dict_lookup (sp_events sp) a) (\<lambda>evs.
       rfold (plan_todo_edge T sp e i) (map (\<lambda>(k, te). (id0 + k, te)) (indexed (drop j evs))) n)) q n = Inr n'"
      and "carries n C" for q n n' C
  proof -
    obtain a j id0 where q: "q = (a, j, id0)" by (cases q)
    with that(1) obtain evs where evs: "dict_get (sp_events sp) a = Some evs"
      and f: "rfold (plan_todo_edge T sp e i) (map (\<lambda>(k, te). (id0 + k, te)) (indexed (drop j evs))) n = Inr n'"
      by (auto simp: rbind_eq_Inr)
    have "carries n' (C \<union> (\<Union>r \<in> set (map (\<lambda>(k, te). (id0 + k, te)) (indexed (drop j evs))). ahead_edge_set sp (e, i) r))"
      by (rule carries_rfold [OF f that(2) plan_todo_edge_carries])
    then show ?thesis by (simp only: ahead_def q evs prod.case option.case)
  qed
  have "carries n2 (C \<union> (\<Union>q \<in> set (pl_path p). past_edge_set sp (e, i) q) \<union>
      (\<Union>q \<in> set todo. \<Union>r \<in> ahead sp q. ahead_edge_set sp (e, i) r))"
    by (rule carries_rfold [OF todo [unfolded plan_todo_edges_def] n1]) (erule row, assumption)
  with p' show ?thesis by simp
qed

end


section \<open>The search network implies it\<close>

text \<open>The replay numbers its time points from zero, the search space from its counter.\<close>

fun shift_tp :: "nat \<Rightarrow> tp \<Rightarrow> tp" where
  "shift_tp k (ActionTP a b i) = ActionTP a b (i + k)"
| "shift_tp k (EventTP a pos i) = EventTP a pos (i + k)"
| "shift_tp k StartPlan = StartPlan"
| "shift_tp k EndPlan = EndPlan"

lemma schedules_UN: "schedules \<tau> (\<Union>x \<in> X. f x) \<longleftrightarrow> (\<forall>x \<in> X. schedules \<tau> (f x))"
  by (auto simp: schedules_def)

lemma plan_bounds_duration:
  "plan_bounds ifs sp asg d = Inr (lb, ub) \<Longrightarrow> duration_bounds ifs sp asg d = Inr (- lb, ub)"
  by (auto simp: plan_bounds_def duration_bounds_def rbind_eq_Inr split: option.splits)

lemma anchor_shift:
  "(x, y, b) \<in> anchor_edges start fin (i, te) \<Longrightarrow>
     (shift_tp k x, shift_tp k y, b) \<in> anchor_edges (shift_tp k start) (shift_tp k fin) (i + k, te)"
  by (cases te) (auto simp: anchor_edges_def Let_def split: if_splits)

lemma opening_shift:
  assumes "(x, y, b) \<in> plan_opening_edges (lb, ub) a i evs"
  shows "(shift_tp k x, shift_tp k y, b) \<in> opening_edges sp (- lb, ub) (a, i + k, evs, pin)"
proof -
  consider "x = ActionTP a True i" "y = ActionTP a False i" "b = lb"
    | "x = ActionTP a False i" "y = ActionTP a True i" "b = ub"
    | j te where "(j, te) \<in> set (indexed evs)"
        "(x, y, b) \<in> anchor_edges (ActionTP a True i) (ActionTP a False i) (i + 1 + j, te)"
    using assms unfolding plan_opening_edges_def by auto
  then show ?thesis
  proof cases
    case (3 j te)
    have "(shift_tp k x, shift_tp k y, b) \<in>
        anchor_edges (ActionTP a True (i + k)) (ActionTP a False (i + k)) (i + k + 1 + j, te)"
      using anchor_shift [OF 3(2), of k] by (simp add: add.commute add.left_commute)
    moreover have "(i + k + 1 + j, te) \<in> set (map (\<lambda>(j, te). (i + k + 1 + j, te)) (indexed evs))"
      using 3(1) by force
    ultimately show ?thesis unfolding opening_edges_def Let_def prod.case by blast
  qed (simp_all add: opening_edges_def Let_def)
qed

lemma schedules_shift:
  "(\<And>x y b. (x, y, b) \<in> E \<Longrightarrow> \<tau> (shift_tp k x) - \<tau> (shift_tp k y) \<le> b) \<Longrightarrow> schedules (\<tau> \<circ> shift_tp k) E"
  by (auto simp: schedules_def)

lemma opening_implied:
  assumes "schedules \<tau> C" "opening_edges sp (- lb, ub) (a, i + k, evs, pin) \<subseteq> C"
  shows "schedules (\<tau> \<circ> shift_tp k) (plan_opening_edges (lb, ub) a i evs)"
proof (rule schedules_shift)
  fix x y b assume "(x, y, b) \<in> plan_opening_edges (lb, ub) a i evs"
  from opening_shift [OF this] assms(2) have "(shift_tp k x, shift_tp k y, b) \<in> C" by blast
  with assms(1) show "\<tau> (shift_tp k x) - \<tau> (shift_tp k y) \<le> b" by (rule schedules_memD)
qed

definition searched_entry :: "nat \<Rightarrow> event \<times> nat \<Rightarrow> path_entry" where
  "searched_entry k p = (case p of (e, i) \<Rightarrow> (ev_action e, ev_pos e, i + k))"

lemma entry_of_searched [simp]:
  "entry_tp (searched_entry k (e, i)) = shift_tp k (event_tp e i)"
  "entry_ref (searched_entry k (e, i)) = event_id e"
  by (simp_all add: searched_entry_def event_tp_def event_id_def)

lemma past_implied:
  assumes "0 \<le> sp_epsilon sp"
    and "path_ordered sp \<tau> (map (searched_entry k) ps @ [searched_entry k q])" "p \<in> set ps"
  shows "schedules (\<tau> \<circ> shift_tp k) (past_edge_set sp q p)"
proof -
  obtain e i e2 i2 where qp: "q = (e, i)" "p = (e2, i2)" by (cases q, cases p)
  have "later sp \<tau> (event_id e) (shift_tp k (event_tp e i)) (searched_entry k p)"
    using assms(2,3) by (auto simp: path_ordered_snoc qp)
  with assms(1) show ?thesis
    by (auto simp: later_def past_edge_set_def qp schedules_def split: if_splits)
qed

lemma ahead_pending:
  assumes "events_named sp" "r \<in> ahead sp (a, j, id0)"
  obtains i2 t e2 where "r = (i2, t, e2)"
    "event_tp e2 (i2 + k) \<in> pending_tps sp [(a, j, id0 + k)]" "event_tp e2 (i2 + k) = shift_tp k (event_tp e2 i2)"
proof -
  from assms(2) obtain evs m te where evs: "dict_get (sp_events sp) a = Some evs"
    and m: "(m, te) \<in> set (indexed (drop j evs))" and r: "r = (id0 + m, te)"
    by (auto simp: ahead_def split: option.splits)
  then have len: "m < length (drop j evs)" "te = evs ! (j + m)"
    by (auto simp: indexed_def in_set_zip)
  obtain t e2 where te: "te = (t, e2)" by (cases te)
  have "ev_action e2 = a" "ev_pos e2 = j + m"
    using events_namedD [OF assms(1) evs, of "j + m"] len(1) unfolding len(2) [symmetric] te by auto
  then have "event_tp e2 (id0 + m + k) \<in> pending_tps sp [(a, j, id0 + k)]"
    using evs len by (force simp: pending_tps_def event_tp_def)
  with that [of "id0 + m" t e2] r te show thesis by (simp add: event_tp_def)
qed

lemma ahead_implied:
  assumes "events_named sp" "0 \<le> sp_epsilon sp"
    and "\<forall>v \<in> pending_tps sp (map (\<lambda>(a, j, i). (a, j, i + k)) todo).
      before sp \<tau> (event_id e) (shift_tp k (event_tp e i)) v"
    and "q \<in> set todo" "r \<in> ahead sp q"
  shows "schedules (\<tau> \<circ> shift_tp k) (ahead_edge_set sp (e, i) r)"
proof -
  obtain a j id0 where q: "q = (a, j, id0)" by (cases q)
  from assms(5) q obtain i2 t e2 where r: "r = (i2, t, e2)"
    and pend: "event_tp e2 (i2 + k) \<in> pending_tps sp [(a, j, id0 + k)]"
    and eq: "event_tp e2 (i2 + k) = shift_tp k (event_tp e2 i2)"
    using ahead_pending [OF assms(1)] by metis
  have "pending_tps sp [(a, j, id0 + k)] \<subseteq> pending_tps sp (map (\<lambda>(a, j, i). (a, j, i + k)) todo)"
    using assms(4) q by (intro pending_tps_mono) force
  with pend assms(3) have "before sp \<tau> (event_id e) (shift_tp k (event_tp e i)) (event_tp e2 (i2 + k))" by blast
  then show ?thesis
    by (auto simp: ahead_edge_set_def r before_def schedules_def eq [symmetric] event_id_def event_tp_def)
qed


section \<open>One step of the replay in the search space\<close>

lemma successor_uncompressed:
  assumes "get_successor_state_with_compression T ifs sp s a False c = Inr (Some s', c')"
    and "sp_temporal sp"
  obtains (continue) evs index eid where "dict_get (sp_events sp) a = Some evs"
      "dict_get (st_todo s) a = Some (index, eid)" "c' = c"
      "fires T ifs sp s ((clone s False)\<lparr>st_g := st_g s + 1, st_todo :=
        (if index + 1 \<ge> length evs then dict_del a (st_todo s)
         else dict_set a (index + 1, eid + 1) (st_todo s))\<rparr>) a index eid None s'"
  | (opened) evs where "dict_get (sp_events sp) a = Some evs" "dict_get (st_todo s) a = None"
      "sp_timed sp \<noteq> Some a" "c' = c + 1 + length evs"
      "fires T ifs sp s ((clone s False)\<lparr>st_g := st_g s + 1, st_todo :=
        (if length evs > 1 then dict_set a (1, c + 2) (st_todo s) else st_todo s)\<rparr>)
        a 0 (c + 1) (Some (a, c, evs, False)) s'"
proof (cases "dict_get (st_todo s) a")
  case (Some p)
  obtain index eid where p: "p = (index, eid)" by (cases p)
  from assms(1) Some p obtain evs where evs: "dict_get (sp_events sp) a = Some evs"
    and go: "continue_action T ifs sp s a evs index eid = Inr (Some s')" and c: "c' = c"
    by (auto simp: get_successor_state_with_compression_def rbind_eq_Inr)
  from continue [OF evs _ c conjunct2 [OF continue_actionD [OF go evs]]] Some p show thesis by simp
next
  case None
  from assms(1) None obtain evs where evs: "dict_get (sp_events sp) a = Some evs"
    and timed: "sp_timed sp \<noteq> Some a" and go: "start_action T ifs sp s a evs False c = Inr (Some s', c')"
    by (auto simp: get_successor_state_with_compression_def rbind_eq_Inr split: if_splits)
  from go have eisc: "eisc_hold ifs sp a 0 s = Inr True"
    and op: "open_action T ifs sp s ((clone s False)\<lparr>st_g := st_g s + 1\<rparr>) a evs False c = Inr (Some s', c')"
    by (auto simp: start_action_def rbind_eq_Inr compression_applies_def split: if_splits option.splits)
  have new: "(clone s False)\<lparr>st_g := st_g s + 1\<rparr> = (clone s False)\<lparr>st_g := st_g s + 1, st_todo := st_todo s\<rparr>"
    by (simp add: clone_def mk_state_def)
  let ?new = "(clone s False)\<lparr>st_g := st_g s + 1\<rparr>"
  have "c' = c + 1 + length evs \<and> fires T ifs sp s
      (if length evs > 1 then ?new\<lparr>st_todo := dict_set a (1, c + 2) (st_todo ?new)\<rparr> else ?new)
      a 0 (c + 1) (Some (a, c, evs, False)) s'"
    using open_actionD [OF op evs eisc] assms(2) by simp
  then have "c' = c + 1 + length evs" "fires T ifs sp s ((clone s False)\<lparr>st_g := st_g s + 1, st_todo :=
        (if length evs > 1 then dict_set a (1, c + 2) (st_todo s) else st_todo s)\<rparr>)
        a 0 (c + 1) (Some (a, c, evs, False)) s'"
    by (cases "1 < length evs"; simp del: One_nat_def add_2_eq_Suc' add: new [symmetric])+
  with opened [OF evs None timed] show thesis by blast
qed

context network_space
begin

lemma replay_step:
  assumes eps: "0 \<le> sp_epsilon sp" and temporal: "sp_temporal sp" and named: "events_named sp"
    and n: "st_tn s = Some n" and at: "network_at carries sp A c n C (st_path s) (st_todo s)"
    and succ: "get_successor_state_with_compression T ifs sp s a False c = Inr (Some s', c')"
  obtains (continue) evs index eid n' C' where "dict_get (sp_events sp) a = Some evs" "index < length evs"
      "dict_get (st_todo s) a = Some (index, eid)" "c' = c"
      "st_tn s' = Some n'" "tn_check T n'" "C \<subseteq> C'" "st_path s' = st_path s @ [(a, index, eid)]"
      "st_todo s' = (if index + 1 \<ge> length evs then dict_del a (st_todo s)
         else dict_set a (index + 1, eid + 1) (st_todo s))"
      "network_at carries sp A c n' C' (st_path s') (st_todo s')"
      "\<And>\<tau>. schedules \<tau> C' \<Longrightarrow> \<forall>v \<in> pending_tps sp (st_todo s'). before sp \<tau> (a, index) (EventTP a index eid) v"
  | (opened) evs n' C' bounds where "dict_get (sp_events sp) a = Some evs" "0 < length evs"
      "dict_get (st_todo s) a = None" "sp_timed sp \<noteq> Some a" "c' = c + 1 + length evs"
      "st_tn s' = Some n'" "tn_check T n'" "C \<subseteq> C'" "st_path s' = st_path s @ [(a, 0, c + 1)]"
      "duration_bounds ifs sp (st_assignments s) (sp_durations sp ! act_idx a) = Inr bounds"
      "opening_edges sp bounds (a, c, evs, False) \<subseteq> C'"
      "st_todo s' = (if length evs > 1 then dict_set a (1, c + 2) (st_todo s) else st_todo s)"
      "network_at carries sp (insert c A) c' n' C' (st_path s') (st_todo s')"
      "\<And>\<tau>. schedules \<tau> C' \<Longrightarrow> \<forall>v \<in> pending_tps sp (st_todo s'). before sp \<tau> (a, 0) (EventTP a 0 (c + 1)) v"
  using succ temporal
proof (cases rule: successor_uncompressed)
  case cont: (continue evs index eid)
  have wf: "dict_wf (st_todo s)" and pend: "\<forall>v \<in> pending_tps sp (st_todo s). numbered A c v"
    and ne: "st_todo s \<noteq> [] \<Longrightarrow> st_path s \<noteq> []"
    using at by (auto simp: network_at_def)
  have len: "index < length evs" using cont(1,4) by (auto elim: firesE)
  note adv = pending_tps_advance [OF wf cont(2,1) len]
  let ?todo = "if index + 1 \<ge> length evs then dict_del a (st_todo s)
        else dict_set a (index + 1, eid + 1) (st_todo s)"
  have "numbered A c (EventTP a index eid)" using pend adv(2) by blast
  then have ids: "eid \<notin> A" "eid < c" by auto
  have path: "st_path s \<noteq> []" using ne cont(2) by (cases "st_todo s") auto
  have pend': "\<forall>v \<in> pending_tps sp ?todo. numbered A c v" using adv(1) pend by blast
  have wf': "dict_wf ?todo" using wf by simp
  obtain n' C' where "st_tn s' = Some n'" "tn_check T n'" "C \<subseteq> C'" "st_todo s' = ?todo"
    "st_path s' = st_path s @ [(a, index, eid)]" "network_at carries sp A c n' C' (st_path s') (st_todo s')"
    "\<forall>\<tau>. schedules \<tau> C' \<longrightarrow> (\<forall>v \<in> pending_tps sp (st_todo s'). before sp \<tau> (a, index) (EventTP a index eid) v)"
    using fires_at [OF eps temporal named cont(4) _ at path ids _ _] n pend' wf' by auto
  with continue [OF cont(1) len cont(2,3)] show thesis by blast
next
  case op: (opened evs)
  have len: "0 < length evs" using op(1,5) by (auto elim: firesE)
  let ?new = "(clone s False)\<lparr>st_g := st_g s + 1, st_todo :=
        (if length evs > 1 then dict_set a (1, c + 2) (st_todo s) else st_todo s)\<rparr>"
  obtain n' C' bounds where f: "st_tn s' = Some n'" "tn_check T n'" "st_todo s' = st_todo ?new"
    "st_path s' = st_path s @ [(a, 0, c + 1)]"
    "duration_bounds ifs sp (st_assignments s) (sp_durations sp ! act_idx a) = Inr bounds"
    "C \<union> opening_edges sp bounds (a, c, evs, False) \<subseteq> C'"
    "network_at carries sp (insert c A) (c + 1 + length evs) n' C' (st_path s') (st_todo s')"
    "\<forall>\<tau>. schedules \<tau> C' \<longrightarrow> (\<forall>v \<in> pending_tps sp (st_todo s'). before sp \<tau> (a, 0) (EventTP a 0 (c + 1)) v)"
    using fires_opening_at [OF eps temporal named op(1,5) _ n at _ op(2)] by auto
  from f(6) have C: "C \<subseteq> C'" "opening_edges sp bounds (a, c, evs, False) \<subseteq> C'" by auto
  from f(3) have todo: "st_todo s' = (if length evs > 1 then dict_set a (1, c + 2) (st_todo s) else st_todo s)" by simp
  show thesis
    by (rule opened [OF op(1) len op(2,3,4) f(1,2) C(1) f(4,5) C(2) todo])
      (use f(7,8) op(4) in blast)+
qed

end


section \<open>The replay as a whole\<close>

text \<open>An instance of an action: the action, its number and the bounds of its duration.\<close>

type_synonym inst = "action \<times> nat \<times> rat \<times> rat"

definition inst_key :: "inst \<Rightarrow> action \<times> nat" where
  "inst_key x = (case x of (a, i, _, _) \<Rightarrow> (a, i))"

definition inst_edges :: "sspace \<Rightarrow> inst \<Rightarrow> tp constraint set" where
  "inst_edges sp x = (case x of (a, i, lo, hi) \<Rightarrow> (case dict_get (sp_events sp) a of
     None \<Rightarrow> {} | Some evs \<Rightarrow> plan_opening_edges (- lo, hi) a i evs))"

text \<open>The bounds are those of the action in the state in which it was opened.\<close>

definition inst_bounded :: "'n tn_ops \<Rightarrow> ifenv \<Rightarrow> sspace \<Rightarrow> inst \<Rightarrow> bool" where
  "inst_bounded T ifs sp x \<longleftrightarrow> (case x of (a, i, lo, hi) \<Rightarrow> dict_get (sp_events sp) a \<noteq> None \<and> (\<exists>asg.
     duration_bounds ifs sp asg (sp_durations sp ! act_idx a) = Inr (lo, hi) \<and>
     (\<exists>c s. reachable T ifs sp c s \<and> st_assignments s = asg)))"

text \<open>An event carries the number of its instance plus its position plus one.\<close>

definition event_numbered :: "inst list \<Rightarrow> action \<Rightarrow> nat \<Rightarrow> nat \<Rightarrow> bool" where
  "event_numbered insts a pos i \<longleftrightarrow> (\<exists>k. (a, k) \<in> inst_key ` set insts \<and> i = k + 1 + pos)"

lemma event_numbered_mono: "event_numbered xs a pos i \<Longrightarrow> event_numbered (xs @ ys) a pos i"
  by (auto simp: event_numbered_def)

lemma event_numbered_Suc: "event_numbered xs a pos i \<Longrightarrow> event_numbered xs a (pos + 1) (i + 1)"
  by (auto simp: event_numbered_def)

definition plan_numbered :: "inst list \<Rightarrow> 'n plan_loop \<Rightarrow> bool" where
  "plan_numbered insts p \<longleftrightarrow>
     (\<forall>q \<in> set (pl_path p). event_numbered insts (ev_action (fst q)) (ev_pos (fst q)) (snd q)) \<and>
     (\<forall>a j i. dict_get (pl_todo p) a = Some (j, i) \<longrightarrow> event_numbered insts a j i)"

lemma plan_numbered_step:
  assumes "plan_numbered insts p" "event_numbered (insts @ new) (ev_action e) (ev_pos e) i"
    and "pl_path p' = pl_path p @ [(e, i)]"
    and "\<And>a j i. dict_get (pl_todo p') a = Some (j, i) \<Longrightarrow>
      dict_get (pl_todo p) a = Some (j, i) \<or> event_numbered (insts @ new) a j i"
  shows "plan_numbered (insts @ new) p'"
proof -
  have "event_numbered (insts @ new) (ev_action (fst q)) (ev_pos (fst q)) (snd q)" if "q \<in> set (pl_path p')" for q
    using that assms(2,3) assms(1) [unfolded plan_numbered_def] by (auto intro: event_numbered_mono)
  moreover have "event_numbered (insts @ new) a j i" if "dict_get (pl_todo p') a = Some (j, i)" for a j i
    using assms(4) [OF that] assms(1) [unfolded plan_numbered_def] by (auto intro: event_numbered_mono)
  ultimately show ?thesis by (simp add: plan_numbered_def)
qed

definition path_edges :: "sspace \<Rightarrow> (event \<times> nat) list \<Rightarrow> tp constraint set" where
  "path_edges sp ps = (\<Union>j \<in> {..<length ps}. \<Union>i \<in> {..<j}. past_edge_set sp (ps ! j) (ps ! i))"

lemma path_edges_Nil [simp]: "path_edges sp [] = {}"
  by (simp add: path_edges_def)

lemma path_edges_snoc: "path_edges sp (ps @ [q]) = path_edges sp ps \<union> (\<Union>p \<in> set ps. past_edge_set sp q p)"
proof -
  have "path_edges sp (ps @ [q]) =
      (\<Union>j \<in> {..<length ps}. \<Union>i \<in> {..<j}. past_edge_set sp ((ps @ [q]) ! j) ((ps @ [q]) ! i)) \<union>
      (\<Union>i \<in> {..<length ps}. past_edge_set sp q ((ps @ [q]) ! i))"
    by (auto simp: path_edges_def lessThan_Suc)
  also have "(\<Union>j \<in> {..<length ps}. \<Union>i \<in> {..<j}. past_edge_set sp ((ps @ [q]) ! j) ((ps @ [q]) ! i)) = path_edges sp ps"
    unfolding path_edges_def by (intro SUP_cong refl) (simp add: nth_append)
  also have "(\<Union>i \<in> {..<length ps}. past_edge_set sp q ((ps @ [q]) ! i)) = (\<Union>i \<in> {..<length ps}. past_edge_set sp q (ps ! i))"
    by (intro SUP_cong refl) (simp add: nth_append)
  also have "\<dots> = (\<Union>p \<in> set ps. past_edge_set sp q p)" by (force simp: in_set_conv_nth)
  finally show ?thesis .
qed

text \<open>
  When there is a timed action no instance starts before the plan does, and the first
  instance, the timed action's own, starts with it.
\<close>

definition start_edges :: "sspace \<Rightarrow> inst list \<Rightarrow> tp constraint set" where
  "start_edges sp insts = (case sp_timed sp of None \<Rightarrow> {}
     | Some a \<Rightarrow> insert (ActionTP a True 0, StartPlan, 0)
         ((\<lambda>x. (StartPlan, ActionTP (fst x) True (fst (snd x)), 0)) ` set insts))"

definition plan_edges :: "sspace \<Rightarrow> inst list \<Rightarrow> (event \<times> nat) list \<Rightarrow> tp constraint set" where
  "plan_edges sp insts es = (\<Union>x \<in> set insts. inst_edges sp x) \<union> start_edges sp insts \<union> path_edges sp es"

lemma start_edges_snoc:
  "start_edges sp (insts @ [x]) = start_edges sp insts \<union>
     (if sp_timed sp \<noteq> None then {(StartPlan, ActionTP (fst x) True (fst (snd x)), 0)} else {})"
  by (auto simp: start_edges_def split: option.split)

text \<open>
  The edges an event of the path got to events still ahead of it: those are still ahead, or
  they have joined the path since.
\<close>

definition ahead_edges :: "sspace \<Rightarrow> (event \<times> nat) list \<Rightarrow> (action, nat \<times> nat) dict \<Rightarrow> tp constraint set" where
  "ahead_edges sp es todo = {x. \<exists>i r. i < length es \<and> x \<in> ahead_edge_set sp (es ! i) r \<and>
     ((\<exists>q \<in> set todo. r \<in> ahead sp q) \<or> (\<exists>j < length es. i < j \<and> es ! j = (snd (snd r), fst r)))}"

lemma ahead_edges_step:
  assumes "\<And>q r. q \<in> set todo \<Longrightarrow> r \<in> ahead sp q \<Longrightarrow>
    (\<exists>q' \<in> set todo'. r \<in> ahead sp q') \<or> (snd (snd r), fst r) = ei"
  shows "ahead_edges sp es todo \<subseteq> ahead_edges sp (es @ [ei]) todo'"
proof
  fix x assume "x \<in> ahead_edges sp es todo"
  then obtain i r where i: "i < length es" "x \<in> ahead_edge_set sp (es ! i) r"
    and r: "(\<exists>q \<in> set todo. r \<in> ahead sp q) \<or> (\<exists>j < length es. i < j \<and> es ! j = (snd (snd r), fst r))"
    unfolding ahead_edges_def by blast
  have "(\<exists>q' \<in> set todo'. r \<in> ahead sp q') \<or>
      (\<exists>j < length (es @ [ei]). i < j \<and> (es @ [ei]) ! j = (snd (snd r), fst r))"
    using r
  proof
    assume "\<exists>j < length es. i < j \<and> es ! j = (snd (snd r), fst r)"
    then obtain j where "j < length es" "i < j" "es ! j = (snd (snd r), fst r)" by blast
    then show ?thesis by (intro disjI2 exI [of _ j]) (simp add: nth_append)
  next
    assume "\<exists>q \<in> set todo. r \<in> ahead sp q"
    with assms have "(\<exists>q' \<in> set todo'. r \<in> ahead sp q') \<or> (snd (snd r), fst r) = ei" by blast
    moreover have "\<exists>j < length (es @ [ei]). i < j \<and> (es @ [ei]) ! j = ei" using i(1) by (intro exI [of _ "length es"]) simp
    ultimately show ?thesis by metis
  qed
  with i show "x \<in> ahead_edges sp (es @ [ei]) todo'"
    unfolding ahead_edges_def by (intro CollectI exI [of _ i] exI [of _ r]) (simp add: nth_append)
qed

lemma ahead_edges_new:
  "(\<Union>q \<in> set todo. \<Union>r \<in> ahead sp q. ahead_edge_set sp ei r) \<subseteq> ahead_edges sp (es @ [ei]) todo"
  unfolding ahead_edges_def by (force intro: exI [of _ "length es"])

lemma ahead_continue:
  assumes "dict_get (sp_events sp) a = Some evs" "index < length evs" "r \<in> ahead sp (a, index, i)"
  shows "(snd (snd r), fst r) = (snd (evs ! index), i) \<or> index + 1 < length evs \<and> r \<in> ahead sp (a, index + 1, i + 1)"
proof -
  from assms obtain k where k: "k < length evs - index" "r = (i + k, evs ! (index + k))"
    by (auto simp: ahead_def indexed_def set_zip)
  show ?thesis
  proof (cases k)
    case (Suc k')
    with k have "r = (i + 1 + k', drop (index + 1) evs ! k')" "k' < length evs - (index + 1)" by auto
    then have "r \<in> ahead sp (a, index + 1, i + 1)"
      using assms(1) by (force simp: ahead_def indexed_def set_zip)
    with k Suc show ?thesis by simp
  qed (use k in simp)
qed

definition timed_fixed :: "ifenv \<Rightarrow> sspace \<Rightarrow> bool" where
  "timed_fixed ifs sp \<longleftrightarrow> (\<forall>a asg asg' x y. sp_timed sp = Some a \<and>
     duration_bounds ifs sp asg (sp_durations sp ! act_idx a) = Inr x \<and>
     duration_bounds ifs sp asg' (sp_durations sp ! act_idx a) = Inr y \<longrightarrow> x = y)"

definition shifted :: "nat \<Rightarrow> (action, nat \<times> nat) dict \<Rightarrow> (action, nat \<times> nat) dict" where
  "shifted k d = map (\<lambda>(a, j, i). (a, j, i + k)) d"

lemma shifted_simps [simp]:
  "shifted k [] = []"
  "dict_get (shifted k d) a = map_option (\<lambda>(j, i). (j, i + k)) (dict_get d a)"
  "shifted k (dict_set a (j, i) d) = dict_set a (j, i + k) (shifted k d)"
  "shifted k (dict_del a d) = dict_del a (shifted k d)"
  by (induction d) (auto simp: shifted_def)

lemma plan_opening_start: "ActionTP a True i \<in> cnodes (plan_opening_edges b a i evs)"
  by (cases b) (simp add: plan_opening_edges_def cnodes_def)

lemma anchor_points: "ActionTP a b i \<in> cnodes (anchor_edges start fin p) \<Longrightarrow> ActionTP a b i \<in> {start, fin}"
  by (cases p) (auto simp: anchor_edges_def Let_def split: if_splits)

lemma cnodes_Un [simp]: "cnodes (A \<union> B) = cnodes A \<union> cnodes B"
  by (auto simp: cnodes_def)

lemma cnodes_UN [simp]: "cnodes (\<Union>x \<in> X. f x) = (\<Union>x \<in> X. cnodes (f x))"
  by (auto simp: cnodes_def)

lemma plan_opening_points:
  "ActionTP a' b i' \<in> cnodes (plan_opening_edges bs a i evs) \<Longrightarrow> (a', i') = (a, i)"
  by (cases bs) (auto simp: plan_opening_edges_def dest!: anchor_points)

lemma event_edge_points:
  "ActionTP a b i \<notin> cnodes (past_edge_set sp q p)" "ActionTP a b i \<notin> cnodes (ahead_edge_set sp q r)"
  by (auto simp: past_edge_set_def ahead_edge_set_def event_tp_def split: prod.splits if_splits)

definition plan_kept ::
    "'n tn_ops \<Rightarrow> ('n \<Rightarrow> tp constraint set \<Rightarrow> bool) \<Rightarrow> ifenv \<Rightarrow> sspace \<Rightarrow> nat \<Rightarrow> inst list \<Rightarrow>
     'n plan_loop \<Rightarrow> 'n state \<Rightarrow> nat \<Rightarrow> bool" where
  "plan_kept T carries ifs sp k insts p s c \<longleftrightarrow>
     reachable T ifs sp c s \<and> c = k + pl_counter p \<and> st_todo s = shifted k (pl_todo p) \<and>
     st_path s = map (searched_entry k) (pl_path p) \<and> dict_wf (pl_todo p) \<and>
     plan_numbered insts p \<and> distinct (map inst_key insts) \<and> (\<forall>x \<in> set insts. snd (inst_key x) < pl_counter p \<and> inst_bounded T ifs sp x) \<and>
     (\<exists>n A C Cp. st_tn s = Some n \<and> tn_check T n \<and> network_at carries sp A c n C (st_path s) (st_todo s) \<and>
        carries (pl_tn p) Cp \<and> (\<forall>\<tau>. schedules \<tau> C \<longrightarrow> schedules (\<tau> \<circ> shift_tp k) Cp) \<and>
        plan_edges sp insts (pl_path p) \<subseteq> Cp \<and>
        Cp \<subseteq> plan_edges sp insts (pl_path p) \<union> ahead_edges sp (pl_path p) (pl_todo p) \<and>
        (\<forall>a b i. ActionTP a b i \<in> cnodes Cp \<longrightarrow> (a, i) \<in> inst_key ` set insts))"

context network_space
begin

text \<open>The edges of one event are implied by the network of the successor.\<close>

lemma event_implied:
  assumes eps: "0 \<le> sp_epsilon sp" and named: "events_named sp"
    and at: "network_at carries sp A c n C' (map (searched_entry k) ps @ [searched_entry k (e, i)]) (shifted k todo')"
    and ahead: "\<And>\<tau>. schedules \<tau> C' \<Longrightarrow> \<forall>v \<in> pending_tps sp (shifted k todo').
      before sp \<tau> (event_id e) (shift_tp k (event_tp e i)) v"
    and todo: "set todo \<subseteq> set todo'" and \<tau>: "schedules \<tau> C'"
  shows "schedules (\<tau> \<circ> shift_tp k) ((\<Union>q \<in> set ps. past_edge_set sp (e, i) q) \<union>
    (\<Union>q \<in> set todo. \<Union>r \<in> ahead sp q. ahead_edge_set sp (e, i) r))"
proof -
  have ord: "path_ordered sp \<tau> (map (searched_entry k) ps @ [searched_entry k (e, i)])"
    using at \<tau> by (simp add: network_at_def path_kept_def)
  have "schedules (\<tau> \<circ> shift_tp k) (past_edge_set sp (e, i) q)" if "q \<in> set ps" for q
    by (rule past_implied [OF eps ord that])
  moreover have "schedules (\<tau> \<circ> shift_tp k) (ahead_edge_set sp (e, i) r)"
    if "q \<in> set todo" "r \<in> ahead sp q" for q r
    using ahead_implied [OF named eps ahead [OF \<tau>, unfolded shifted_def] _ that(2)] that(1) todo by blast
  ultimately show ?thesis unfolding schedules_Un schedules_UN by blast
qed

lemma plan_round_kept:
  assumes eps: "0 \<le> sp_epsilon sp" and temporal: "sp_temporal sp" and named: "events_named sp"
    and kept: "plan_kept T carries ifs sp k insts p s c"
    and run: "plan_round T ifs sp a (p, s, c) = Inr (p', s', c')"
  shows "\<exists>new. plan_kept T carries ifs sp k (insts @ new) p' s' c' \<and>
    map (\<lambda>q. ev_action (fst q)) (pl_path p') = map (\<lambda>q. ev_action (fst q)) (pl_path p) @ [a]"
proof -
  from kept obtain n A C Cp where reach: "reachable T ifs sp c s" and c: "c = k + pl_counter p"
    and todo: "st_todo s = shifted k (pl_todo p)" and path: "st_path s = map (searched_entry k) (pl_path p)"
    and wf: "dict_wf (pl_todo p)" and numbered: "plan_numbered insts p"
    and insts: "distinct (map inst_key insts)" "\<forall>x \<in> set insts. snd (inst_key x) < pl_counter p \<and> inst_bounded T ifs sp x"
    and n: "st_tn s = Some n" and at: "network_at carries sp A c n C (st_path s) (st_todo s)"
    and Cp: "carries (pl_tn p) Cp" "\<forall>\<tau>. schedules \<tau> C \<longrightarrow> schedules (\<tau> \<circ> shift_tp k) Cp"
      "plan_edges sp insts (pl_path p) \<subseteq> Cp"
      "Cp \<subseteq> plan_edges sp insts (pl_path p) \<union> ahead_edges sp (pl_path p) (pl_todo p)"
      "\<forall>a b i. ActionTP a b i \<in> cnodes Cp \<longrightarrow> (a, i) \<in> inst_key ` set insts"
    unfolding plan_kept_def by blast
  from run obtain evs r p1 c1 where evs: "dict_get (sp_events sp) a = Some evs"
    and p1: "(case dict_get (pl_todo p) a of Some (index, i) \<Rightarrow> plan_continue T sp a evs index i p
            | None \<Rightarrow> plan_open T ifs sp (st_assignments s) a evs p) = Inr p1"
    and r: "get_successor_state_with_compression T ifs sp s a False c = Inr (r, c1)"
    and out: "(case r of None \<Rightarrow> Inl AssertErr | Some s' \<Rightarrow> Inr (p1, s', c1)) = Inr (p', s', c')"
    by (auto simp: plan_round_def rbind_eq_Inr)
  from out have "r = Some s'" "p1 = p'" "c1 = c'" by (auto split: option.splits)
  with p1 r have p': "(case dict_get (pl_todo p) a of Some (index, i) \<Rightarrow> plan_continue T sp a evs index i p
            | None \<Rightarrow> plan_open T ifs sp (st_assignments s) a evs p) = Inr p'"
    and succ: "get_successor_state_with_compression T ifs sp s a False c = Inr (Some s', c')" by auto
  have reach': "reachable T ifs sp c' s'" by (rule reach_successor [OF reach order_refl succ])
  from eps temporal named n at succ show ?thesis
  proof (cases rule: replay_step)
    case (continue evs' index eid n' C')
    then obtain i where i: "dict_get (pl_todo p) a = Some (index, i)" "eid = i + k"
      unfolding todo by auto
    let ?todo = "if index + 1 \<ge> length evs then dict_del a (pl_todo p) else dict_set a (index + 1, i + 1) (pl_todo p)"
    have evs': "evs' = evs" "index < length evs" using continue(1,2) evs by auto
    define e where "e = snd (evs ! index)"
    have id: "event_id e = (a, index)" "event_tp e i = EventTP a index i"
      using events_namedD [OF named evs evs'(2)] by (simp_all add: e_def event_id_def event_tp_def)
    have ev: "plan_event T sp e i ?todo (p\<lparr>pl_todo := ?todo\<rparr>) = Inr p'"
      using p' i evs'(2) by (simp add: plan_continue_def Let_def py_nth_int e_def del: One_nat_def)
    from plan_event_carries [OF ev] Cp(1) have fields: "pl_todo p' = ?todo" "pl_counter p' = pl_counter p"
      "pl_path p' = pl_path p @ [(e, i)]"
      and Cp': "carries (pl_tn p') (Cp \<union> (\<Union>q \<in> set (pl_path p). past_edge_set sp (e, i) q) \<union>
        (\<Union>q \<in> set ?todo. \<Union>r \<in> ahead sp q. ahead_edge_set sp (e, i) r))"
      by (simp_all del: One_nat_def)
    let ?Cp = "Cp \<union> (\<Union>q \<in> set (pl_path p). past_edge_set sp (e, i) q) \<union>
        (\<Union>q \<in> set ?todo. \<Union>r \<in> ahead sp q. ahead_edge_set sp (e, i) r)"
    have path': "st_path s' = map (searched_entry k) (pl_path p) @ [searched_entry k (e, i)]"
      using continue(8) path i(2) id by (simp add: searched_entry_def event_id_def)
    have todo': "st_todo s' = shifted k ?todo"
      using continue(9) todo i(2) evs'(1) by simp
    have impl: "schedules (\<tau> \<circ> shift_tp k) ?Cp" if \<tau>: "schedules \<tau> C'" for \<tau>
    proof -
      have "schedules (\<tau> \<circ> shift_tp k) Cp" using Cp(2) schedules_mono [OF \<tau> continue(7)] by blast
      moreover have "schedules (\<tau> \<circ> shift_tp k) ((\<Union>q \<in> set (pl_path p). past_edge_set sp (e, i) q) \<union>
          (\<Union>q \<in> set ?todo. \<Union>r \<in> ahead sp q. ahead_edge_set sp (e, i) r))"
      proof (rule event_implied [OF eps named _ _ order_refl \<tau>])
        show "network_at carries sp A c n' C' (map (searched_entry k) (pl_path p) @ [searched_entry k (e, i)])
            (shifted k ?todo)" using continue(10) path' todo' by simp
        show "\<forall>v \<in> pending_tps sp (shifted k ?todo). before sp \<tau> (event_id e) (shift_tp k (event_tp e i)) v"
          if "schedules \<tau> C'" for \<tau>
          using continue(11) [OF that] unfolding todo' id i(2) by simp
      qed
      ultimately show ?thesis by (simp only: schedules_Un Un_assoc)
    qed
    have ahead_new: "(\<exists>q' \<in> set ?todo. r \<in> ahead sp q') \<or> (snd (snd r), fst r) = (e, i)"
      if "q \<in> set (pl_todo p)" "r \<in> ahead sp q" for q r
    proof (cases "fst q = a")
      case True
      then obtain ji where "q = (a, ji)" by (cases q) simp
      with that(1) have "dict_get (pl_todo p) a = Some ji" by (simp add: dict_get_mem [OF wf])
      with i(1) \<open>q = (a, ji)\<close> have "q = (a, index, i)" by simp
      with ahead_continue [OF evs evs'(2), of r i] that(2) e_def show ?thesis
        by (auto simp: set_dict_set [OF wf])
    next
      case False
      with that(1) have "q \<in> set ?todo" by (simp add: set_dict_set [OF wf] set_dict_del)
      with that(2) show ?thesis by blast
    qed
    have upper: "?Cp \<subseteq> plan_edges sp insts (pl_path p') \<union> ahead_edges sp (pl_path p') (pl_todo p')"
    proof -
      have "ahead_edges sp (pl_path p) (pl_todo p) \<subseteq> ahead_edges sp (pl_path p') (pl_todo p')"
        unfolding fields by (rule ahead_edges_step) (rule ahead_new)
      moreover have "(\<Union>q \<in> set ?todo. \<Union>r \<in> ahead sp q. ahead_edge_set sp (e, i) r) \<subseteq>
          ahead_edges sp (pl_path p') (pl_todo p')" unfolding fields by (rule ahead_edges_new)
      moreover have "plan_edges sp insts (pl_path p') =
          plan_edges sp insts (pl_path p) \<union> (\<Union>q \<in> set (pl_path p). past_edge_set sp (e, i) q)"
        unfolding plan_edges_def fields(3) path_edges_snoc by blast
      ultimately show ?thesis using Cp(4) by blast
    qed
    have "plan_kept T carries ifs sp k (insts @ []) p' s' c'"
      unfolding plan_kept_def
    proof (intro conjI)
      show "\<exists>n A C Cp. st_tn s' = Some n \<and> tn_check T n \<and> network_at carries sp A c' n C (st_path s') (st_todo s') \<and>
        carries (pl_tn p') Cp \<and> (\<forall>\<tau>. schedules \<tau> C \<longrightarrow> schedules (\<tau> \<circ> shift_tp k) Cp) \<and>
        plan_edges sp (insts @ []) (pl_path p') \<subseteq> Cp \<and>
        Cp \<subseteq> plan_edges sp (insts @ []) (pl_path p') \<union> ahead_edges sp (pl_path p') (pl_todo p') \<and>
        (\<forall>a b i. ActionTP a b i \<in> cnodes Cp \<longrightarrow> (a, i) \<in> inst_key ` set (insts @ []))"
      proof (intro exI conjI)
        show "plan_edges sp (insts @ []) (pl_path p') \<subseteq> ?Cp"
          using Cp(3) by (auto simp: plan_edges_def fields(3) path_edges_snoc)
        show "?Cp \<subseteq> plan_edges sp (insts @ []) (pl_path p') \<union> ahead_edges sp (pl_path p') (pl_todo p')"
          using upper by simp
        show "\<forall>a b i. ActionTP a b i \<in> cnodes ?Cp \<longrightarrow> (a, i) \<in> inst_key ` set (insts @ [])"
          using Cp(5) by (simp add: event_edge_points)
      qed (use continue(4,5,6,10) Cp' impl in blast)+
      show "dict_wf (pl_todo p')" using wf fields(1) by simp
      show "plan_numbered (insts @ []) p'"
      proof (rule plan_numbered_step [OF numbered _ fields(3)])
        have "event_numbered insts a index i" using numbered i(1) by (simp add: plan_numbered_def)
        with id show "event_numbered (insts @ []) (ev_action e) (ev_pos e) i" by (simp add: event_id_def)
        from \<open>event_numbered insts a index i\<close> have "event_numbered insts a (index + 1) (i + 1)"
          by (rule event_numbered_Suc)
        then show "dict_get (pl_todo p) a' = Some (j, i') \<or> event_numbered (insts @ []) a' j i'"
          if "dict_get (pl_todo p') a' = Some (j, i')" for a' j i'
          using that unfolding fields(1) by (cases "a' = a") (auto simp: dict_get_set dict_get_del split: if_splits)
      qed
    qed (use reach' c continue(4) fields path' todo' insts in simp_all)
    with fields(3) id show ?thesis by (intro exI [of _ "[]"]) (auto simp: event_id_def)
  next
    case (opened evs' n' C' bounds)
    then have closed: "dict_get (pl_todo p) a = None" unfolding todo by simp
    have evs': "evs' = evs" "0 < length evs" using opened(1,2) evs by auto
    let ?k = "pl_counter p"
    define e where "e = snd (evs ! 0)"
    have id: "event_id e = (a, 0)" "event_tp e i = EventTP a 0 i" for i
      using events_namedD [OF named evs evs'(2)] by (simp_all add: e_def event_id_def event_tp_def)
    from p' closed obtain n1 i k1 n2 q where
      add: "add_action_to_plan_network T ifs sp (pl_tn p) (st_assignments s) a ?k = Inr (n1, i, k1)"
      and n2: "(if sp_timed sp \<noteq> None then tn_add T StartPlan (ActionTP a True ?k) 0 n1 else Inr n1) = Inr n2"
      and ev: "plan_event T sp e i (pl_todo p) (p\<lparr>pl_tn := n2, pl_counter := k1\<rparr>) = Inr q"
      and q: "p' = (if length evs > 1 then q\<lparr>pl_todo := dict_set a (1, i + 1) (pl_todo q)\<rparr> else q)"
      by (auto simp: plan_open_def rbind_eq_Inr py_nth_int_iff [of _ 0, simplified] e_def simp del: One_nat_def)
    obtain evs2 lb ub where evs2: "dict_get (sp_events sp) a = Some evs2"
      and pb: "plan_bounds ifs sp (st_assignments s) (sp_durations sp ! act_idx a) = Inr (lb, ub)"
      and i2: "i = ?k + 1" "k1 = ?k + 1 + length evs2"
        "carries n1 (Cp \<union> plan_opening_edges (lb, ub) a ?k evs2)"
      by (rule add_action_carries [OF add Cp(1)])
    with evs have i: "i = ?k + 1" "k1 = ?k + 1 + length evs"
      and n1: "carries n1 (Cp \<union> plan_opening_edges (lb, ub) a ?k evs)" by simp_all
    have bounds: "bounds = (- lb, ub)" using plan_bounds_duration [OF pb] opened(10) by simp
    let ?P = "if sp_timed sp \<noteq> None then {(StartPlan, ActionTP a True ?k, 0)} else {}"
    have "carries n2 (Cp \<union> plan_opening_edges (lb, ub) a ?k evs \<union> ?P)"
      using n2 n1 add_carries [OF n1] by (auto split: if_splits)
    from plan_event_carries [OF ev, of "Cp \<union> plan_opening_edges (lb, ub) a ?k evs \<union> ?P"] this
    have fields: "pl_todo q = pl_todo p" "pl_counter q = k1" "pl_path q = pl_path p @ [(e, i)]"
      and Cq: "carries (pl_tn q) (Cp \<union> plan_opening_edges (lb, ub) a ?k evs \<union> ?P \<union>
        (\<Union>q \<in> set (pl_path p). past_edge_set sp (e, i) q) \<union>
        (\<Union>q \<in> set (pl_todo p). \<Union>r \<in> ahead sp q. ahead_edge_set sp (e, i) r))"
      by simp_all
    let ?ev = "(\<Union>q \<in> set (pl_path p). past_edge_set sp (e, i) q) \<union>
        (\<Union>q \<in> set (pl_todo p). \<Union>r \<in> ahead sp q. ahead_edge_set sp (e, i) r)"
    let ?Cp = "Cp \<union> plan_opening_edges (lb, ub) a ?k evs \<union> ?P \<union> ?ev"
    have Cp': "carries (pl_tn p') ?Cp" using Cq q by (simp add: Un_assoc)
    define todo2 where "todo2 = (if length evs > 1 then dict_set a (1, i + 1) (pl_todo p) else pl_todo p)"
    have fields': "pl_todo p' = todo2" "pl_counter p' = k1" "pl_path p' = pl_path p @ [(e, i)]"
      using fields q by (simp_all add: todo2_def)
    have path': "st_path s' = map (searched_entry k) (pl_path p) @ [searched_entry k (e, i)]"
      using opened(9) path i(1) c id by (simp add: searched_entry_def event_id_def)
    have todo': "st_todo s' = shifted k todo2"
    proof -
      have "c + 2 = i + 1 + k" using i(1) c by simp
      then show ?thesis using opened(12) todo evs'(1)
        by (cases "length evs > 1") (simp_all only: todo2_def shifted_simps if_True if_False)
    qed
    have sub: "set (pl_todo p) \<subseteq> set todo2"
      using set_dict_set_new [OF closed] by (auto simp: todo2_def)
    have open_sub: "opening_edges sp (- lb, ub) (a, ?k + k, evs, False) \<subseteq> C'"
      using opened(11) bounds evs'(1) c by (simp add: add.commute)
    have impl: "schedules (\<tau> \<circ> shift_tp k) ?Cp" if \<tau>: "schedules \<tau> C'" for \<tau>
    proof -
      have "schedules (\<tau> \<circ> shift_tp k) Cp" using Cp(2) schedules_mono [OF \<tau> opened(8)] by blast
      moreover have "schedules (\<tau> \<circ> shift_tp k) (plan_opening_edges (lb, ub) a ?k evs)"
        by (rule opening_implied [OF \<tau> open_sub])
      moreover have "schedules (\<tau> \<circ> shift_tp k) ?P"
      proof -
        have "(StartPlan, ActionTP a True (?k + k), 0) \<in> C'"
          using open_sub by (auto simp: opening_edges_def Let_def)
        from schedules_memD [OF \<tau> this] show ?thesis by simp
      qed
      moreover have "schedules (\<tau> \<circ> shift_tp k) ?ev"
      proof (rule event_implied [OF eps named _ _ sub \<tau>])
        show "network_at carries sp (insert c A) c' n' C' (map (searched_entry k) (pl_path p) @ [searched_entry k (e, i)])
            (shifted k todo2)" using opened(13) path' todo' by simp
        show "\<forall>v \<in> pending_tps sp (shifted k todo2). before sp \<tau> (event_id e) (shift_tp k (event_tp e i)) v"
          if "schedules \<tau> C'" for \<tau>
          using opened(14) [OF that] i(1) c unfolding todo' id by (simp add: add.commute)
      qed
      ultimately show ?thesis by (simp only: schedules_Un)
    qed
    let ?x = "(a, ?k, - lb, ub)"
    have x: "inst_key ?x = (a, ?k)" "inst_edges sp ?x = plan_opening_edges (lb, ub) a ?k evs"
      "inst_bounded T ifs sp ?x"
      using evs opened(10) bounds reach by (auto simp: inst_key_def inst_edges_def inst_bounded_def)
    have fresh: "(a, ?k) \<notin> inst_key ` set insts"
    proof
      assume "(a, ?k) \<in> inst_key ` set insts"
      then obtain y where "y \<in> set insts" "inst_key y = (a, ?k)" by (metis imageE)
      with insts(2) show False by (metis less_irrefl snd_conv)
    qed
    have pts: "(a', i') \<in> inst_key ` set (insts @ [?x])" if "ActionTP a' b i' \<in> cnodes ?Cp" for a' b i'
    proof -
      from that event_edge_points have "ActionTP a' b i' \<in> cnodes Cp \<or> (a', i') = (a, ?k)"
        by (auto simp: cnodes_empty dest!: plan_opening_points split: if_splits)
      with Cp(5) x(1) show ?thesis by (auto simp: image_iff)
    qed
    have grown: "plan_edges sp (insts @ [?x]) (pl_path p') = plan_edges sp insts (pl_path p) \<union>
        plan_opening_edges (lb, ub) a ?k evs \<union> ?P \<union> (\<Union>q \<in> set (pl_path p). past_edge_set sp (e, i) q)"
      unfolding plan_edges_def fields'(3) path_edges_snoc start_edges_snoc
      by (simp only: set_append set_simps UN_Un UN_insert UN_empty x(2) fst_conv snd_conv Un_empty_right) blast
    have ahead_grown: "\<exists>q' \<in> set todo2. r \<in> ahead sp q'" if "q \<in> set (pl_todo p)" "r \<in> ahead sp q" for q r
      using that sub by blast
    have upper: "?Cp \<subseteq> plan_edges sp (insts @ [?x]) (pl_path p') \<union> ahead_edges sp (pl_path p') (pl_todo p')"
    proof -
      have "ahead_edges sp (pl_path p) (pl_todo p) \<subseteq> ahead_edges sp (pl_path p') (pl_todo p')"
        unfolding fields' by (rule ahead_edges_step) (intro disjI1 ahead_grown)
      with Cp(4) have "Cp \<subseteq> plan_edges sp insts (pl_path p) \<union> ahead_edges sp (pl_path p') (pl_todo p')"
        by (rule order_trans [OF _ Un_mono [OF order_refl]])
      moreover have "(\<Union>q \<in> set (pl_todo p). \<Union>r \<in> ahead sp q. ahead_edge_set sp (e, i) r) \<subseteq>
          ahead_edges sp (pl_path p') (pl_todo p')"
        unfolding fields' by (rule order_trans [OF UN_mono [OF sub order_refl] ahead_edges_new])
      ultimately show ?thesis unfolding grown by (intro Un_least) (auto simp only: Un_iff subset_iff)
    qed
    have "plan_kept T carries ifs sp k (insts @ [?x]) p' s' c'"
      unfolding plan_kept_def
    proof (intro conjI)
      show "\<exists>n A C Cp. st_tn s' = Some n \<and> tn_check T n \<and> network_at carries sp A c' n C (st_path s') (st_todo s') \<and>
        carries (pl_tn p') Cp \<and> (\<forall>\<tau>. schedules \<tau> C \<longrightarrow> schedules (\<tau> \<circ> shift_tp k) Cp) \<and>
        plan_edges sp (insts @ [?x]) (pl_path p') \<subseteq> Cp \<and>
        Cp \<subseteq> plan_edges sp (insts @ [?x]) (pl_path p') \<union> ahead_edges sp (pl_path p') (pl_todo p') \<and>
        (\<forall>a b i. ActionTP a b i \<in> cnodes Cp \<longrightarrow> (a, i) \<in> inst_key ` set (insts @ [?x]))"
      proof (intro exI conjI)
        show "plan_edges sp (insts @ [?x]) (pl_path p') \<subseteq> ?Cp" using Cp(3) unfolding grown by blast
        show "?Cp \<subseteq> plan_edges sp (insts @ [?x]) (pl_path p') \<union> ahead_edges sp (pl_path p') (pl_todo p')"
          by (rule upper)
      qed (use opened(6,7,13) Cp' impl pts in blast)+
      show "dict_wf (pl_todo p')" using wf by (simp add: fields'(1) todo2_def)
      show "c' = k + pl_counter p'" using opened(5) c i(2) evs'(1) fields'(2) by simp
      show "\<forall>x \<in> set (insts @ [?x]). snd (inst_key x) < pl_counter p' \<and> inst_bounded T ifs sp x"
        using insts(2) x i(2) fields'(2) by fastforce
      have new: "event_numbered (insts @ [?x]) a 0 (?k + 1)" using x(1) by (auto simp: event_numbered_def)
      show "plan_numbered (insts @ [?x]) p'"
      proof (rule plan_numbered_step [OF numbered _ fields'(3)])
        show "event_numbered (insts @ [?x]) (ev_action e) (ev_pos e) i"
          using new id i(1) by (simp add: event_id_def)
        show "dict_get (pl_todo p) a' = Some (j, i') \<or> event_numbered (insts @ [?x]) a' j i'"
          if "dict_get (pl_todo p') a' = Some (j, i')" for a' j i'
          using that event_numbered_Suc [OF new] i(1) unfolding fields'(1) todo2_def
          by (cases "a' = a") (auto simp: dict_get_set split: if_splits)
      qed
    qed (use reach' fields' path' todo' insts(1) fresh x(1) in simp_all)
    with fields'(3) id show ?thesis by (intro exI [of _ "[?x]"]) (auto simp: event_id_def)
  qed
qed

text \<open>The initial states.\<close>

lemma initial_network:
  assumes "case sp_deadline sp of None \<Rightarrow> n = tn_empty T
       | Some d \<Rightarrow> tn_interval T StartPlan EndPlan d d (tn_empty T) = Inr n"
    and "\<forall>d. sp_deadline sp = Some d \<longrightarrow> 0 \<le> d"
  shows "tn_check T n \<and> network_at carries sp {} c n (deadline_edges sp) [] []"
proof -
  have C: "carries n (deadline_edges sp)"
    using assms(1) carries_empty interval_carries [OF carries_empty]
    by (auto simp: deadline_edges_def split: option.splits)
  have "schedules (\<lambda>v. if v = EndPlan then (case sp_deadline sp of None \<Rightarrow> 0 | Some d \<Rightarrow> d) else 0) (deadline_edges sp)"
    by (auto simp: deadline_edges_def schedules_def split: option.split)
  then have "tn_check T n" using check_consistent [OF C] by (auto simp: consistent_def)
  moreover have "path_kept sp (deadline_edges sp) [] []"
    by (simp add: path_kept_def path_ordered_def)
  moreover have "\<forall>v \<in> cnodes (deadline_edges sp). numbered {} c v"
    by (auto simp: deadline_edges_def split: option.split)
  ultimately show ?thesis using C by (simp add: network_at_def pending_tps_def)
qed

lemma initial_at:
  assumes eps: "0 \<le> sp_epsilon sp" and temporal: "sp_temporal sp" and named: "events_named sp"
    and init: "initial_state T ifs sp init c = Inr (Some s, c')"
    and deadline: "\<forall>d. sp_deadline sp = Some d \<longrightarrow> 0 \<le> d"
  obtains (plain) n C where "sp_timed sp = None" "c' = c" "st_tn s = Some n" "tn_check T n"
      "st_path s = []" "st_todo s = []" "network_at carries sp {} c n C [] []"
  | (timed) a evs n C bounds asg where "sp_timed sp = Some a" "dict_get (sp_events sp) a = Some evs"
      "0 < length evs" "c' = c + 1 + length evs" "st_tn s = Some n" "tn_check T n" "st_path s = [(a, 0, c + 1)]"
      "st_todo s = (if length evs > 1 then [(a, 1, c + 2)] else [])"
      "duration_bounds ifs sp asg (sp_durations sp ! act_idx a) = Inr bounds"
      "opening_edges sp bounds (a, c, evs, True) \<subseteq> C"
      "network_at carries sp {c} c' n C (st_path s) (st_todo s)"
  using init
proof (cases rule: initial_stateD)
  case p: (plain asg tn)
  with temporal obtain n where n: "tn = Some n" "case sp_deadline sp of None \<Rightarrow> n = tn_empty T
       | Some d \<Rightarrow> tn_interval T StartPlan EndPlan d d (tn_empty T) = Inr n" by auto
  from plain [of n "deadline_edges sp"] initial_network [OF n(2) deadline] p n(1)
  show thesis by (simp add: mk_state_def)
next
  case t: (timed asg tn a evs)
  with temporal obtain n where n: "tn = Some n" "case sp_deadline sp of None \<Rightarrow> n = tn_empty T
       | Some d \<Rightarrow> tn_interval T StartPlan EndPlan d d (tn_empty T) = Inr n" by auto
  let ?s0 = "mk_state asg tn [] ms_empty 0 [] :: 'n state"
  let ?new = "mk_state asg None (if length evs > 1 then [(a, (1, c + 2))] else []) ms_empty 0 [] :: 'n state"
  have f: "fires T ifs sp ?s0 ?new a 0 (c + 1) (Some (a, c, evs, True)) s"
    using t(7) temporal by simp
  have len: "0 < length evs" using f t(2) by (auto elim: firesE)
  have s0: "st_path ?s0 = []" "st_todo ?s0 = []" "st_tn ?s0 = Some n" "st_assignments ?s0 = asg"
    "st_tn ?new = None" "st_todo ?new = (if length evs > 1 then dict_set a (1, c + 2) (st_todo ?s0) else st_todo ?s0)"
    using n by (simp_all add: mk_state_def)
  have at: "network_at carries sp {} c n (deadline_edges sp) (st_path ?s0) (st_todo ?s0)"
    using initial_network [OF n(2) deadline] s0 by simp
  obtain n' C' bounds where r: "st_tn s = Some n'" "tn_check T n'" "st_todo s = st_todo ?new"
    "st_path s = st_path ?s0 @ [(a, 0, c + 1)]"
    "duration_bounds ifs sp (st_assignments ?s0) (sp_durations sp ! act_idx a) = Inr bounds"
    "deadline_edges sp \<union> opening_edges sp bounds (a, c, evs, True) \<subseteq> C'"
    "network_at carries sp (insert c {}) (c + 1 + length evs) n' C' (st_path s) (st_todo s)"
    using fires_opening_at [OF eps temporal named t(2) f s0(5,3) at s0(6)] s0(2) by auto
  have todo: "st_todo s = (if length evs > 1 then [(a, 1, c + 2)] else [])" using r(3) by (simp add: mk_state_def)
  have c': "c' = c + 1 + length evs" using t(6) temporal by simp
  from r(6) have sub: "opening_edges sp bounds (a, c, evs, True) \<subseteq> C'" by simp
  show thesis
    by (rule timed [OF t(1,2) len c' r(1,2) _ todo r(5) sub]) (use r(4,7) s0(1) c' in simp_all)
qed

text \<open>
  The replay opens the timed action in the initial state, the search before its first event:
  the bounds of its duration, which the encoder takes from the times of the timed effects,
  are the same in both.
\<close>

lemma plan_timed_kept:
  assumes named: "events_named sp" and timed: "sp_timed sp = Some a"
    and fixed: "timed_fixed ifs sp"
    and evs: "dict_get (sp_events sp) a = Some evs" "0 < length evs"
    and s: "reachable T ifs sp c' s" "c' = c + 1 + length evs" "st_tn s = Some n" "tn_check T n"
      "st_path s = [(a, 0, c + 1)]" "st_todo s = (if length evs > 1 then [(a, 1, c + 2)] else [])"
    and bounds: "duration_bounds ifs sp asg (sp_durations sp ! act_idx a) = Inr bounds"
    and C: "opening_edges sp bounds (a, c, evs, True) \<subseteq> C"
      "network_at carries sp {c} c' n C (st_path s) (st_todo s)"
    and run: "plan_timed T ifs sp (st_assignments s) a
       \<lparr>pl_tn = tn_empty T, pl_todo = [], pl_path = [], pl_counter = 0\<rparr> = Inr p"
  shows "\<exists>insts. plan_kept T carries ifs sp c insts p s c' \<and> map (\<lambda>q. ev_action (fst q)) (pl_path p) = [a]"
proof -
  let ?p0 = "\<lparr>pl_tn = tn_empty T, pl_todo = [], pl_path = [], pl_counter = 0\<rparr> :: 'n plan_loop"
  define e where "e = snd (evs ! 0)"
  have id: "event_id e = (a, 0)" "ev_action e = a" "ev_pos e = 0"
    using events_namedD [OF named evs] by (simp_all add: e_def event_id_def)
  from run obtain n1 i k n2 n3 where
    add: "add_action_to_plan_network T ifs sp (tn_empty T) (st_assignments s) a 0 = Inr (n1, i, k)"
    and n2: "tn_add T StartPlan (ActionTP a True 0) 0 n1 = Inr n2"
    and n3: "tn_add T (ActionTP a True 0) StartPlan 0 n2 = Inr n3"
    and p: "p = \<lparr>pl_tn = n3, pl_todo = (if length evs > 1 then dict_set a (1, i + 1) [] else []),
          pl_path = [(e, i)], pl_counter = k\<rparr>"
    using evs by (auto simp: plan_timed_def Let_def rbind_eq_Inr e_def py_nth_int_iff [of _ 0, simplified]
        simp del: One_nat_def)
  obtain evs2 lb ub where evs2: "dict_get (sp_events sp) a = Some evs2"
    and pb: "plan_bounds ifs sp (st_assignments s) (sp_durations sp ! act_idx a) = Inr (lb, ub)"
    and i2: "i = 0 + 1" "k = 0 + 1 + length evs2"
      "carries n1 ({} \<union> plan_opening_edges (lb, ub) a 0 evs2)"
    by (rule add_action_carries [OF add carries_empty])
  with evs have i: "i = 1" "k = 1 + length evs" and n1: "carries n1 (plan_opening_edges (lb, ub) a 0 evs)"
    by simp_all
  have db: "duration_bounds ifs sp (st_assignments s) (sp_durations sp ! act_idx a) = Inr (- lb, ub)"
    by (rule plan_bounds_duration [OF pb])
  from fixed timed bounds db have b: "bounds = (- lb, ub)" unfolding timed_fixed_def by blast
  let ?P = "{(StartPlan, ActionTP a True 0, 0), (ActionTP a True 0, StartPlan, 0)}"
  let ?Cp = "plan_opening_edges (lb, ub) a 0 evs \<union> ?P"
  have "carries n3 (insert (ActionTP a True 0, StartPlan, 0)
      (insert (StartPlan, ActionTP a True 0, 0) (plan_opening_edges (lb, ub) a 0 evs)))"
    by (rule add_carries [OF add_carries [OF n1 n2] n3])
  then have Cp: "carries (pl_tn p) ?Cp" using p by (simp add: insert_commute)
  have open_sub: "opening_edges sp (- lb, ub) (a, 0 + c, evs, True) \<subseteq> C" using C(1) b by simp
  have impl: "schedules (\<tau> \<circ> shift_tp c) ?Cp" if \<tau>: "schedules \<tau> C" for \<tau>
  proof -
    have "(StartPlan, ActionTP a True c, 0) \<in> C" "(ActionTP a True c, StartPlan, 0) \<in> C"
      using open_sub by (auto simp: opening_edges_def Let_def)
    from schedules_memD [OF \<tau> this(1)] schedules_memD [OF \<tau> this(2)]
    have "schedules (\<tau> \<circ> shift_tp c) ?P" by (simp add: schedules_def)
    with opening_implied [OF \<tau> open_sub] show ?thesis by (simp only: schedules_Un)
  qed
  let ?x = "(a, 0, - lb, ub)"
  have x: "inst_key ?x = (a, 0)" "inst_edges sp ?x = plan_opening_edges (lb, ub) a 0 evs"
    "inst_bounded T ifs sp ?x"
    using evs db s(1) by (auto simp: inst_key_def inst_edges_def inst_bounded_def)
  have pts: "(a', i') \<in> inst_key ` set [?x]" if "ActionTP a' d i' \<in> cnodes ?Cp" for a' d i'
    using that x(1) by (auto dest!: plan_opening_points)
  have exact: "plan_edges sp [?x] (pl_path p) = ?Cp"
    using path_edges_snoc [of sp "[]"] p x(2) timed by (auto simp: plan_edges_def start_edges_def)
  have "plan_kept T carries ifs sp c [?x] p s c'"
    unfolding plan_kept_def
  proof (intro conjI)
    show "\<exists>n A C Cp. st_tn s = Some n \<and> tn_check T n \<and> network_at carries sp A c' n C (st_path s) (st_todo s) \<and>
        carries (pl_tn p) Cp \<and> (\<forall>\<tau>. schedules \<tau> C \<longrightarrow> schedules (\<tau> \<circ> shift_tp c) Cp) \<and>
        plan_edges sp [?x] (pl_path p) \<subseteq> Cp \<and>
        Cp \<subseteq> plan_edges sp [?x] (pl_path p) \<union> ahead_edges sp (pl_path p) (pl_todo p) \<and>
        (\<forall>a b i. ActionTP a b i \<in> cnodes Cp \<longrightarrow> (a, i) \<in> inst_key ` set [?x])"
    proof (intro exI conjI)
      show "plan_edges sp [?x] (pl_path p) \<subseteq> ?Cp" using exact by simp
      show "?Cp \<subseteq> plan_edges sp [?x] (pl_path p) \<union> ahead_edges sp (pl_path p) (pl_todo p)"
        unfolding exact by blast
    qed (use s(3,4) C(2) Cp impl pts in blast)+
    show "st_todo s = shifted c (pl_todo p)"
      using s(6) p i by (auto simp: shifted_def)
    show "st_path s = map (searched_entry c) (pl_path p)"
      using s(5) p i id by (simp add: searched_entry_def)
    show "dict_wf (pl_todo p)" using p by (simp add: dict_wf_def)
    show "plan_numbered [?x] p"
      using p i id x(1) by (auto simp: plan_numbered_def event_numbered_def split: if_splits)
  qed (use s(1,2) p i x in simp_all)
  with p id show ?thesis by (intro exI [of _ "[?x]"]) simp
qed

lemma plan_rounds_kept:
  assumes eps: "0 \<le> sp_epsilon sp" and temporal: "sp_temporal sp" and named: "events_named sp"
    and kept: "plan_kept T carries ifs sp k insts p s c"
    and run: "rfold (plan_round T ifs sp) as (p, s, c) = Inr (p', s', c')"
  shows "\<exists>insts'. plan_kept T carries ifs sp k insts' p' s' c' \<and>
    map (\<lambda>q. ev_action (fst q)) (pl_path p') = map (\<lambda>q. ev_action (fst q)) (pl_path p) @ as"
  using kept run
proof (induction "as" arbitrary: p s c insts)
  case (Cons a as)
  from Cons.prems(2) obtain p1 s1 c1 where one: "plan_round T ifs sp a (p, s, c) = Inr (p1, s1, c1)"
    and rest: "rfold (plan_round T ifs sp) as (p1, s1, c1) = Inr (p', s', c')" by (auto simp: rbind_eq_Inr)
  from plan_round_kept [OF eps temporal named Cons.prems(1) one] obtain new where
    new: "plan_kept T carries ifs sp k (insts @ new) p1 s1 c1"
    "map (\<lambda>q. ev_action (fst q)) (pl_path p1) = map (\<lambda>q. ev_action (fst q)) (pl_path p) @ [a]" by blast
  from Cons.IH [OF new(1) rest] new(2) show ?case by simp
qed auto

lemma plan_replay_kept:
  assumes eps: "0 \<le> sp_epsilon sp" and temporal: "sp_temporal sp" and named: "events_named sp"
    and deadline: "\<forall>d. sp_deadline sp = Some d \<longrightarrow> 0 \<le> d" and fixed: "timed_fixed ifs sp"
    and run: "plan_replay T ifs sp path c = Inr (p, s, c')"
  shows "\<exists>insts. plan_kept T carries ifs sp c insts p s c' \<and> map (\<lambda>q. ev_action (fst q)) (pl_path p) = path"
proof -
  let ?p0 = "\<lparr>pl_tn = tn_empty T, pl_todo = [], pl_path = [], pl_counter = 0\<rparr> :: 'n plan_loop"
  from run obtain s0 c0 where init: "initial_state T ifs sp None c = Inr (Some s0, c0)"
    and rest: "(case sp_timed sp of
        None \<Rightarrow> rfold (plan_round T ifs sp) path (?p0, s0, c0)
      | Some a \<Rightarrow> (case path of
            [] \<Rightarrow> Inl AssertErr
          | b # rest \<Rightarrow> if b \<noteq> a then Inl AssertErr
              else rbind (plan_timed T ifs sp (st_assignments s0) a ?p0) (\<lambda>p.
                rfold (plan_round T ifs sp) rest (p, s0, c0)))) = Inr (p, s, c')"
    by (auto simp: plan_replay_def rbind_eq_Inr Let_def split: option.splits)
  have reach: "reachable T ifs sp c0 s0" by (rule reach_initial [OF init])
  from eps temporal named init deadline show ?thesis
  proof (cases rule: initial_at)
    case (plain n C)
    have "plan_kept T carries ifs sp c [] ?p0 s0 c0"
      unfolding plan_kept_def
    proof (intro conjI)
      show "\<exists>n A C Cp. st_tn s0 = Some n \<and> tn_check T n \<and> network_at carries sp A c0 n C (st_path s0) (st_todo s0) \<and>
        carries (pl_tn ?p0) Cp \<and> (\<forall>\<tau>. schedules \<tau> C \<longrightarrow> schedules (\<tau> \<circ> shift_tp c) Cp) \<and>
        plan_edges sp [] (pl_path ?p0) \<subseteq> Cp \<and>
        Cp \<subseteq> plan_edges sp [] (pl_path ?p0) \<union> ahead_edges sp (pl_path ?p0) (pl_todo ?p0) \<and>
        (\<forall>a b i. ActionTP a b i \<in> cnodes Cp \<longrightarrow> (a, i) \<in> inst_key ` set [])"
        using plain carries_empty
        by (intro exI [of _ n] exI [of _ "{}"] exI [of _ C])
          (simp add: schedules_def cnodes_empty plan_edges_def start_edges_def)
    qed (use plain reach in \<open>simp_all add: shifted_def plan_numbered_def dict_wf_def\<close>)
    moreover have "rfold (plan_round T ifs sp) path (?p0, s0, c0) = Inr (p, s, c')"
      using rest plain(1) by simp
    ultimately obtain insts where "plan_kept T carries ifs sp c insts p s c'"
      "map (\<lambda>q. ev_action (fst q)) (pl_path p) = map (\<lambda>q. ev_action (fst q)) (pl_path ?p0) @ path"
      using plan_rounds_kept [OF eps temporal named] by blast
    then show ?thesis by (intro exI [of _ insts]) simp
  next
    case (timed a evs n C bounds asg)
    from rest [unfolded timed(1) option.case] obtain as where path: "path = a # as"
      and go: "rbind (plan_timed T ifs sp (st_assignments s0) a ?p0) (\<lambda>p.
        rfold (plan_round T ifs sp) as (p, s0, c0)) = Inr (p, s, c')"
      by (cases path) (simp_all split: if_splits)
    from go obtain p1 where p1: "plan_timed T ifs sp (st_assignments s0) a ?p0 = Inr p1"
      and go: "rfold (plan_round T ifs sp) as (p1, s0, c0) = Inr (p, s, c')"
      unfolding rbind_eq_Inr by blast
    from plan_timed_kept [OF named timed(1) fixed timed(2,3) reach timed(4-8) timed(9-11) p1]
    obtain insts where "plan_kept T carries ifs sp c insts p1 s0 c0"
      "map (\<lambda>q. ev_action (fst q)) (pl_path p1) = [a]" by (elim exE conjE)
    moreover from plan_rounds_kept [OF eps temporal named this(1) go] obtain insts' where
      "plan_kept T carries ifs sp c insts' p s c'"
      "map (\<lambda>q. ev_action (fst q)) (pl_path p) = map (\<lambda>q. ev_action (fst q)) (pl_path p1) @ as" by blast
    ultimately show ?thesis using path by (intro exI [of _ insts']) simp
  qed
qed

end

end
