(* ===== verification/Plan_Result.thy ===== *)
theory Plan_Result
  imports Plan_Facts
begin

text \<open>
  From the network of the replay to the plan: the entries are the instances of the actions at
  the earliest schedule of the network.
\<close>

section \<open>What a schedule of the plan keeps\<close>

text \<open>An instance lasts as long as its bounds allow and its events happen at their delays.\<close>

definition inst_kept :: "sspace \<Rightarrow> (tp \<Rightarrow> rat) \<Rightarrow> inst \<Rightarrow> bool" where
  "inst_kept sp \<tau> x \<longleftrightarrow> (case x of (a, k, lo, hi) \<Rightarrow>
     lo \<le> \<tau> (ActionTP a False k) - \<tau> (ActionTP a True k) \<and>
     \<tau> (ActionTP a False k) - \<tau> (ActionTP a True k) \<le> hi \<and>
     (\<exists>evs. dict_get (sp_events sp) a = Some evs \<and> (\<forall>j < length evs.
        \<tau> (EventTP a j (k + 1 + j)) =
          \<tau> (ActionTP a (is_from_start (fst (evs ! j))) k) + tm_delay (fst (evs ! j)))))"

text \<open>Two events of the path that interfere are at least epsilon apart, in the order of the path.\<close>

definition path_timed :: "sspace \<Rightarrow> (tp \<Rightarrow> rat) \<Rightarrow> (event \<times> nat) list \<Rightarrow> bool" where
  "path_timed sp \<tau> es \<longleftrightarrow> (\<forall>j < length es. \<forall>i < j. case (es ! i, es ! j) of ((e2, i2), (e, i1)) \<Rightarrow>
     (mutex (sp_event_fluents sp) (event_id e) (event_id e2) = Inr True \<longrightarrow>
        \<tau> (event_tp e2 i2) + sp_epsilon sp \<le> \<tau> (event_tp e i1)) \<and>
     (precedence (sp_event_fluents sp) (event_id e2) (event_id e) = Inr True \<longrightarrow>
        \<tau> (event_tp e2 i2) \<le> \<tau> (event_tp e i1)))"

definition entry_at :: "(tp \<Rightarrow> rat) \<Rightarrow> rat \<Rightarrow> inst \<Rightarrow> plan_entry" where
  "entry_at \<tau> origin x = (case x of (a, k, _, _) \<Rightarrow>
     let st = \<tau> (ActionTP a True k) - origin; et = \<tau> (ActionTP a False k) - origin in
     (Some st, a, if et - st = 0 then None else Some (et - st)))"

lemma inst_keptI:
  assumes named: "events_named sp" and bounded: "inst_bounded T ifs sp x"
    and \<tau>: "schedules \<tau> C" and sub: "inst_edges sp x \<subseteq> C"
  shows "inst_kept sp \<tau> x"
proof -
  obtain a k lo hi where x: "x = (a, k, lo, hi)" by (cases x)
  with bounded obtain evs where evs: "dict_get (sp_events sp) a = Some evs"
    by (auto simp: inst_bounded_def)
  with sub x have sub: "plan_opening_edges (- lo, hi) a k evs \<subseteq> C" by (simp add: inst_edges_def)
  let ?s = "ActionTP a True k" and ?f = "ActionTP a False k"
  have dur: "(?s, ?f, - lo) \<in> C" "(?f, ?s, hi) \<in> C" using sub by (auto simp: plan_opening_edges_def)
  have "\<tau> (EventTP a j (k + 1 + j)) =
      \<tau> (ActionTP a (is_from_start (fst (evs ! j))) k) + tm_delay (fst (evs ! j))" if j: "j < length evs" for j
  proof -
    obtain t e where te: "evs ! j = (t, e)" by (cases "evs ! j")
    with events_namedD [OF named evs j] have e: "ev_action e = a" "ev_pos e = j" by simp_all
    have "(j, t, e) \<in> set (indexed evs)" using j te by (force simp: indexed_def set_zip)
    then have "anchor_edges ?s ?f (k + 1 + j, t, e) \<subseteq> C" using sub by (force simp: plan_opening_edges_def)
    then have "(if is_from_start t then ?s else ?f, EventTP a j (k + 1 + j), - tm_delay t) \<in> C"
      "(EventTP a j (k + 1 + j), if is_from_start t then ?s else ?f, tm_delay t) \<in> C"
      by (auto simp: anchor_edges_def Let_def e)
    from schedules_memD [OF \<tau> this(1)] schedules_memD [OF \<tau> this(2)] te show ?thesis
      by (simp split: if_splits)
  qed
  with schedules_memD [OF \<tau> dur(1)] schedules_memD [OF \<tau> dur(2)] evs x show ?thesis
    by (simp add: inst_kept_def)
qed

lemma path_timedI:
  assumes eps: "0 \<le> sp_epsilon sp" and \<tau>: "schedules \<tau> C" and sub: "path_edges sp es \<subseteq> C"
  shows "path_timed sp \<tau> es"
  unfolding path_timed_def
proof (intro allI impI)
  fix i j assume ij: "j < length es" "i < j"
  obtain e2 i2 e i1 where es: "es ! i = (e2, i2)" "es ! j = (e, i1)"
    by (cases "es ! i", cases "es ! j")
  have "past_edge_set sp (e, i1) (e2, i2) \<subseteq> path_edges sp es"
    using ij es unfolding path_edges_def by force
  with sub have "past_edge_set sp (e, i1) (e2, i2) \<subseteq> C" by blast
  with \<tau> have "schedules \<tau> (past_edge_set sp (e, i1) (e2, i2))" by (rule schedules_mono)
  then show "case (es ! i, es ! j) of ((e2, i2), (e, i1)) \<Rightarrow>
     (mutex (sp_event_fluents sp) (event_id e) (event_id e2) = Inr True \<longrightarrow>
        \<tau> (event_tp e2 i2) + sp_epsilon sp \<le> \<tau> (event_tp e i1)) \<and>
     (precedence (sp_event_fluents sp) (event_id e2) (event_id e) = Inr True \<longrightarrow>
        \<tau> (event_tp e2 i2) \<le> \<tau> (event_tp e i1))"
    using eps by (auto simp: es past_edge_set_def schedules_def split: if_splits)
qed


text \<open>When there is a timed action the plan starts with it.\<close>

definition starts_kept :: "sspace \<Rightarrow> (tp \<Rightarrow> rat) \<Rightarrow> inst list \<Rightarrow> bool" where
  "starts_kept sp \<tau> insts \<longleftrightarrow> (case sp_timed sp of None \<Rightarrow> True
     | Some a \<Rightarrow> \<tau> (ActionTP a True 0) \<le> \<tau> StartPlan \<and>
         (\<forall>x \<in> set insts. \<tau> StartPlan \<le> \<tau> (ActionTP (fst x) True (fst (snd x)))))"

text \<open>The times that instances and the events of a path may have.\<close>

definition plan_schedule :: "sspace \<Rightarrow> inst list \<Rightarrow> (event \<times> nat) list \<Rightarrow> (tp \<Rightarrow> rat) \<Rightarrow> bool" where
  "plan_schedule sp insts es \<tau> \<longleftrightarrow> (\<forall>v. 0 \<le> \<tau> v) \<and> (\<forall>x \<in> set insts. inst_kept sp \<tau> x) \<and>
     path_timed sp \<tau> es \<and> starts_kept sp \<tau> insts"

lemma starts_kept_iff: "starts_kept sp \<tau> insts \<longleftrightarrow> schedules \<tau> (start_edges sp insts)"
  by (force simp: starts_kept_def start_edges_def schedules_def split: option.split)

lemma inst_kept_schedules:
  assumes named: "events_named sp" and kept: "inst_kept sp \<tau> x"
  shows "schedules \<tau> (inst_edges sp x)"
proof -
  obtain a k lo hi where x: "x = (a, k, lo, hi)" by (cases x)
  from kept x obtain evs where evs: "dict_get (sp_events sp) a = Some evs"
    and dur: "lo \<le> \<tau> (ActionTP a False k) - \<tau> (ActionTP a True k)"
      "\<tau> (ActionTP a False k) - \<tau> (ActionTP a True k) \<le> hi"
    and at: "\<forall>j < length evs. \<tau> (EventTP a j (k + 1 + j)) =
      \<tau> (ActionTP a (is_from_start (fst (evs ! j))) k) + tm_delay (fst (evs ! j))"
    by (auto simp: inst_kept_def)
  have "schedules \<tau> (anchor_edges (ActionTP a True k) (ActionTP a False k) (k + 1 + j, te))"
    if "(j, te) \<in> set (indexed evs)" for j te
  proof -
    from that have j: "j < length evs" "te = evs ! j" by (auto simp: indexed_def set_zip)
    obtain t e where te: "te = (t, e)" by (cases te)
    with events_namedD [OF named evs j(1)] j(2) have e: "ev_action e = a" "ev_pos e = j"
      by (metis snd_conv)+
    from at j te have "\<tau> (EventTP a j (k + 1 + j)) = \<tau> (ActionTP a (is_from_start t) k) + tm_delay t"
      by (metis fst_conv)
    then show ?thesis by (simp add: te anchor_edges_def Let_def e split: if_splits)
  qed
  with dur show ?thesis
    by (auto simp: x inst_edges_def evs plan_opening_edges_def schedules_UN)
qed

lemma path_timed_schedules:
  assumes "path_timed sp \<tau> es"
  shows "schedules \<tau> (path_edges sp es)"
proof -
  have "schedules \<tau> (past_edge_set sp (es ! j) (es ! i))" if "j < length es" "i < j" for i j
    using assms [unfolded path_timed_def, rule_format, OF that]
    by (cases "es ! i"; cases "es ! j") (auto simp: past_edge_set_def)
  then show ?thesis by (simp add: path_edges_def schedules_UN)
qed

text \<open>
  What an event got to the events ahead of it when it joined the path, these get to it when
  they join, so a path that leaves no event ahead has no other edges.
\<close>

lemma ahead_edges_complete:
  assumes wf: "event_fluents_wf (sp_event_fluents sp)"
  shows "ahead_edges sp es [] \<subseteq> path_edges sp es"
proof
  fix x assume "x \<in> ahead_edges sp es []"
  then obtain i r j where ij: "j < length es" "i < j" "x \<in> ahead_edge_set sp (es ! i) r"
    "es ! j = (snd (snd r), fst r)" unfolding ahead_edges_def by auto
  obtain e1 i1 where ei: "es ! i = (e1, i1)" by (cases "es ! i")
  obtain i2 t e2 where r: "r = (i2, t, e2)" by (cases r) auto
  from ij(3) ei r have m: "mutex (sp_event_fluents sp) (event_id e1) (event_id e2) = Inr True"
    "x = (event_tp e1 i1, event_tp e2 i2, - sp_epsilon sp)"
    by (auto simp: ahead_edge_set_def split: if_splits)
  from mutex_sym [OF wf m(1)] m(2) ij(4) ei r have "x \<in> past_edge_set sp (es ! j) (es ! i)"
    by (simp add: past_edge_set_def)
  with ij(1,2) show "x \<in> path_edges sp es" unfolding path_edges_def by blast
qed

lemma plan_edges_schedules:
  assumes "events_named sp" "plan_schedule sp insts es \<tau>"
  shows "schedules \<tau> (plan_edges sp insts es)"
  using assms inst_kept_schedules path_timed_schedules
  by (simp add: plan_edges_def plan_schedule_def starts_kept_iff schedules_UN)


section \<open>The entries\<close>

lemma start_of_Some:
  "start_of timed p = Some (a, i) \<longleftrightarrow> fst p = ActionTP a True i \<and> timed \<noteq> Some a"
  by (cases "(timed, p)" rule: start_of.cases) auto

lemma map_filter_distinct:
  assumes "dict_wf ds" "\<And>p q y. f p = Some y \<Longrightarrow> f q = Some y \<Longrightarrow> fst p = fst q"
  shows "distinct (List.map_filter f ds)"
  using assms(1)
proof (induction ds)
  case (Cons p ds)
  have "f p = Some y \<Longrightarrow> y \<notin> set (List.map_filter f ds)" for y
  proof
    assume p: "f p = Some y" and "y \<in> set (List.map_filter f ds)"
    then obtain q where "q \<in> set ds" "f q = Some y" by (auto simp: List.map_filter_def)
    with assms(2) [OF p] Cons.prems show False by (auto simp: dict_wf_def)
  qed
  with Cons show ?case by (auto simp: List.map_filter_simps dict_wf_def split: option.split)
qed (simp add: List.map_filter_simps)

lemma starts_distinct: "dict_wf ds \<Longrightarrow> distinct (List.map_filter (start_of timed) ds)"
  by (rule map_filter_distinct) (auto simp: start_of_Some)

lemma starts_set:
  assumes "dict_wf ds"
  shows "set (List.map_filter (start_of timed) ds) =
    {(a, i). ActionTP a True i \<in> dom (dict_get ds) \<and> timed \<noteq> Some a}"
proof -
  have "(a, i) \<in> set (List.map_filter (start_of timed) ds) \<longleftrightarrow>
      (\<exists>d. (ActionTP a True i, d) \<in> set ds) \<and> timed \<noteq> Some a" for a i
    unfolding List.map_filter_def set_map set_filter comp_apply
    using start_of_Some [of timed _ a i] by (fastforce simp: image_iff)
  then show ?thesis using dict_get_mem [OF assms] by auto
qed

lemma sort_plan_Inr:
  "sort_plan es = Inr ps \<Longrightarrow> mset ps = mset es \<and> sorted (map entry_key ps)"
  by (auto simp: sort_plan_def split: if_splits)

text \<open>A network whose distances are a dictionary over exactly its time points.\<close>

locale plan_network = network_space T carries
  for T :: "'n tn_ops" and carries :: "'n \<Rightarrow> tp constraint set \<Rightarrow> bool" +
  assumes distances_points: "carries n C \<Longrightarrow> tn_check T n \<Longrightarrow>
    dict_wf (tn_distances T n) \<and> dom (dict_get (tn_distances T n)) = cnodes C"
begin

lemma plan_entries:
  assumes C: "carries n C" "tn_check T n"
    and keys: "distinct (map inst_key insts)" "\<forall>x \<in> set insts. inst_bounded T ifs sp x \<and> inst_edges sp x \<subseteq> C"
      "\<forall>a b i. ActionTP a b i \<in> cnodes C \<longrightarrow> (a, i) \<in> inst_key ` set insts"
    and plan: "plan_of_network T sp n = Inr plan"
  shows "\<exists>\<tau>. earliest \<tau> C \<and> sorted (map entry_key plan) \<and>
    mset plan = mset (map (entry_at \<tau> (if sp_timed sp = None then 0 else \<tau> StartPlan))
      (filter (\<lambda>x. sp_timed sp \<noteq> Some (fst x)) insts))"
proof -
  let ?ds = "tn_distances T n" and ?t = "sp_timed sp"
  from distance_earliest [OF C] obtain \<tau> where \<tau>: "earliest \<tau> C" "\<forall>v \<in> cnodes C. dict_get ?ds v = Some (- \<tau> v)"
    by blast
  from distances_points [OF C] have ds: "dict_wf ?ds" "dom (dict_get ?ds) = cnodes C" by auto
  have at: "d = - \<tau> v" if "dict_get ?ds v = Some d" for v d
    using that ds(2) \<tau>(2) by (metis domI option.inject)
  from plan obtain origin es where
    o: "(if ?t = None then Inr 0 else rbind (dict_lookup ?ds StartPlan) (\<lambda>d. Inr (- d))) = Inr origin"
    and es: "rmap (plan_entry ?ds ?t origin) (List.map_filter (start_of ?t) ?ds) = Inr es"
    and sp: "sort_plan es = Inr plan"
    by (auto simp: plan_of_network_def Let_def rbind_eq_Inr)
  have origin: "origin = (if ?t = None then 0 else \<tau> StartPlan)"
    using o at [of StartPlan] by (auto simp: rbind_eq_Inr split: if_splits)
  let ?ins = "filter (\<lambda>x. ?t \<noteq> Some (fst x)) insts"
  let ?entry = "\<lambda>(a, i). entry_at \<tau> origin (a, i, 0, 0)"
  have entry: "y = ?entry ai" if "plan_entry ?ds ?t origin ai = Inr y" for ai y
  proof -
    obtain a i where ai: "ai = (a, i)" by (cases ai)
    from that obtain ds de where d: "dict_get ?ds (ActionTP a True i) = Some ds"
      "dict_get ?ds (ActionTP a False i) = Some de"
      and y: "y = (let st = - ds - origin; et = - de - origin in (Some st, a, if et - st = 0 then None else Some (et - st)))"
      unfolding plan_entry_def ai prod.case rbind_eq_Inr dict_lookup_Inr Let_def by blast
    from at [OF d(1)] at [OF d(2)] y show ?thesis by (simp add: ai entry_at_def)
  qed
  then have es: "es = map ?entry (List.map_filter (start_of ?t) ?ds)"
    using es by (intro nth_equalityI) (auto simp: rmap_Inr_iff)
  have start: "ActionTP a True i \<in> cnodes C" if "(a, i) \<in> inst_key ` set insts" for a i
  proof -
    from that obtain lo hi where x: "(a, i, lo, hi) \<in> set insts" by (auto simp: inst_key_def)
    with keys(2) obtain evs where "dict_get (sp_events sp) a = Some evs" "inst_edges sp (a, i, lo, hi) \<subseteq> C"
      by (fastforce simp: inst_bounded_def)
    then have "plan_opening_edges (- lo, hi) a i evs \<subseteq> C" by (simp add: inst_edges_def)
    with plan_opening_start [of a i "(- lo, hi)" evs] cnodes_mono show ?thesis by blast
  qed
  have "set (List.map_filter (start_of ?t) ?ds) = set (map inst_key ?ins)"
  proof -
    have "ActionTP a True i \<in> cnodes C \<longleftrightarrow> (a, i) \<in> inst_key ` set insts" for a i
      using keys(3) start by blast
    then show ?thesis
      unfolding starts_set [OF ds(1)] ds(2) by (force simp: inst_key_def image_iff)
  qed
  moreover have "distinct (map inst_key ?ins)" using keys(1) by (rule distinct_map_filter)
  ultimately have "mset (List.map_filter (start_of ?t) ?ds) = mset (map inst_key ?ins)"
    using starts_distinct [OF ds(1)] by (metis set_eq_iff_mset_eq_distinct)
  then have "mset es = image_mset ?entry (mset (map inst_key ?ins))" by (simp only: es mset_map)
  also have "\<dots> = mset (map (entry_at \<tau> origin) ?ins)"
  proof -
    have "?entry \<circ> inst_key = entry_at \<tau> origin"
      by (rule ext) (auto simp: inst_key_def entry_at_def split: prod.split)
    then show ?thesis by (simp only: mset_map [symmetric] map_map)
  qed
  finally show ?thesis using sort_plan_Inr [OF sp] \<tau>(1) origin by auto
qed

text \<open>
  The times are a schedule of the instances and of the path; when no action is left open, as
  in a goal state, they are the earliest one.
\<close>

lemma build_plan_kept:
  assumes eps: "0 \<le> sp_epsilon sp" and temporal: "sp_temporal sp" and named: "events_named sp"
    and wf: "event_fluents_wf (sp_event_fluents sp)"
    and deadline: "\<forall>d. sp_deadline sp = Some d \<longrightarrow> 0 \<le> d" and fixed: "timed_fixed ifs sp"
    and run: "build_plan T ifs sp path c = Inr (plan, c')"
  shows "\<exists>p s \<tau> insts es. plan_replay T ifs sp path c = Inr (p, s, c') \<and>
    map (\<lambda>q. ev_action (fst q)) es = path \<and>
    (\<forall>q \<in> set es. event_numbered insts (ev_action (fst q)) (ev_pos (fst q)) (snd q)) \<and>
    distinct (map inst_key insts) \<and> (\<forall>x \<in> set insts. inst_bounded T ifs sp x) \<and>
    plan_schedule sp insts es \<tau> \<and>
    (st_todo s = [] \<longrightarrow> (\<forall>\<sigma>. plan_schedule sp insts es \<sigma> \<longrightarrow> (\<forall>v. \<tau> v \<le> \<sigma> v))) \<and>
    sorted (map entry_key plan) \<and>
    mset plan = mset (map (entry_at \<tau> (if sp_timed sp = None then 0 else \<tau> StartPlan))
      (filter (\<lambda>x. sp_timed sp \<noteq> Some (fst x)) insts))"
proof -
  from run temporal obtain p s where replay: "plan_replay T ifs sp path c = Inr (p, s, c')"
    and plan: "plan_of_network T sp (pl_tn p) = Inr plan"
    by (auto simp: build_plan_def rbind_eq_Inr)
  from plan_replay_kept [OF eps temporal named deadline fixed replay] obtain insts where
    kept: "plan_kept T carries ifs sp c insts p s c'"
    and path: "map (\<lambda>q. ev_action (fst q)) (pl_path p) = path" by (elim exE conjE)
  from kept obtain n A C Cp where nums: "plan_numbered insts p" and keys: "distinct (map inst_key insts)"
    and todo: "st_todo s = shifted c (pl_todo p)"
    and bounded: "\<forall>x \<in> set insts. inst_bounded T ifs sp x"
    and n: "tn_check T n" "network_at carries sp A c' n C (st_path s) (st_todo s)"
    and Cp: "carries (pl_tn p) Cp" "\<forall>\<tau>. schedules \<tau> C \<longrightarrow> schedules (\<tau> \<circ> shift_tp c) Cp"
      "plan_edges sp insts (pl_path p) \<subseteq> Cp"
      "Cp \<subseteq> plan_edges sp insts (pl_path p) \<union> ahead_edges sp (pl_path p) (pl_todo p)"
      "\<forall>a b i. ActionTP a b i \<in> cnodes Cp \<longrightarrow> (a, i) \<in> inst_key ` set insts"
    unfolding plan_kept_def by blast
  from nums have num: "\<forall>q \<in> set (pl_path p). event_numbered insts (ev_action (fst q)) (ev_pos (fst q)) (snd q)"
    by (simp add: plan_numbered_def)
  from Cp(3) have sub: "\<forall>x \<in> set insts. inst_edges sp x \<subseteq> Cp" "start_edges sp insts \<subseteq> Cp"
    "path_edges sp (pl_path p) \<subseteq> Cp" by (auto simp: plan_edges_def)
  from n check_consistent have "consistent C" by (auto simp: network_at_def)
  with Cp(2) have "consistent Cp" by (auto simp: consistent_def)
  with check_consistent [OF Cp(1)] have check: "tn_check T (pl_tn p)" by simp
  from plan_entries [OF Cp(1) check keys _ Cp(5) plan] bounded sub(1) obtain \<tau> where
    \<tau>: "earliest \<tau> Cp" and res: "sorted (map entry_key plan)"
      "mset plan = mset (map (entry_at \<tau> (if sp_timed sp = None then 0 else \<tau> StartPlan))
        (filter (\<lambda>x. sp_timed sp \<noteq> Some (fst x)) insts))" by blast
  from \<tau> have sched: "schedules \<tau> Cp" and pos: "\<forall>v. 0 \<le> \<tau> v" by (simp_all add: earliest_def)
  have "inst_kept sp \<tau> x" if "x \<in> set insts" for x
    using that bounded sub(1) inst_keptI [OF named _ sched] by blast
  then have schedule: "plan_schedule sp insts (pl_path p) \<tau>"
    using pos path_timedI [OF eps sched sub(3)] schedules_mono [OF sched sub(2)]
    by (simp add: plan_schedule_def starts_kept_iff)
  have least: "st_todo s = [] \<longrightarrow> (\<forall>\<sigma>. plan_schedule sp insts (pl_path p) \<sigma> \<longrightarrow> (\<forall>v. \<tau> v \<le> \<sigma> v))"
  proof (intro impI)
    assume "st_todo s = []"
    with todo have "pl_todo p = []" by (simp add: shifted_def)
    with Cp(4) ahead_edges_complete [OF wf] have "Cp \<subseteq> plan_edges sp insts (pl_path p)"
      by (fastforce simp: plan_edges_def)
    then have "schedules \<sigma> Cp \<and> (\<forall>v. 0 \<le> \<sigma> v)" if "plan_schedule sp insts (pl_path p) \<sigma>" for \<sigma>
      using schedules_mono [OF plan_edges_schedules [OF named that]] that by (simp add: plan_schedule_def)
    with \<tau> show "\<forall>\<sigma>. plan_schedule sp insts (pl_path p) \<sigma> \<longrightarrow> (\<forall>v. \<tau> v \<le> \<sigma> v)"
      unfolding earliest_def by blast
  qed
  show ?thesis
    by (intro exI [of _ p] exI [of _ s] exI [of _ \<tau>] exI [of _ insts] exI [of _ "pl_path p"] conjI)
      (fact replay path num keys bounded schedule least res)+
qed

end

interpretation rustamer_plan: plan_network delta_stn_ops stn_carries
proof unfold_locales
  fix n :: "tp stn" and C assume "stn_carries n C" "tn_check delta_stn_ops n"
  then have "stn_inv n (cnodes C) C" "dict_wf (stn_distances n)"
    by (auto simp: stn_carries_def stn_meets_def stn_check_def delta_stn_ops_def)
  then show "dict_wf (tn_distances delta_stn_ops n) \<and> dom (dict_get (tn_distances delta_stn_ops n)) = cnodes C"
    by (auto simp: stn_inv_def delta_stn_ops_def)
qed

end
