(* ===== verification/Expression_Types.thy ===== *)
theory Expression_Types
  imports Expression_Trees
begin

text \<open>
  Types of expression trees.  The nodes of \<open>search_space.py\<close> carry no types; the planning
  problems they come from are typed with booleans, numbers and objects.  \<open>tree_ty\<close> infers the
  type of a tree from those of its fluents, and a typed tree evaluates to a canonical value of
  its type or fails by a division by zero or in an interpreted function.
\<close>

section \<open>Type inference\<close>

datatype ty = TyBool | TyNum | TyObj

fun const_ty :: "const \<Rightarrow> ty option" where
  "const_ty (CBool b) = Some TyBool"
| "const_ty (CInt i) = Some TyNum"
| "const_ty (CFrac r) = (if integral r then None else Some TyNum)"
| "const_ty (CObj x) = Some TyObj"

fun return_ty :: "if_return_type \<Rightarrow> ty" where
  "return_ty IfBool = TyBool"
| "return_ty IfInt = TyNum"
| "return_ty IfReal = TyNum"
| "return_ty IfObject = TyObj"

fun kind_ty :: "fluent_kind \<Rightarrow> ty" where
  "kind_ty KBool = TyBool"
| "kind_ty KInt = TyNum"
| "kind_ty KReal = TyNum"
| "kind_ty KObject = TyObj"

definition op_ty :: "string \<Rightarrow> ty list \<Rightarrow> ty option" where
  "op_ty k tys =
    (if k = ''and'' \<or> k = ''or'' then (if \<forall>ty \<in> set tys. ty = TyBool then Some TyBool else None)
     else if k = ''not'' then (if tys = [TyBool] then Some TyBool else None)
     else if k = ''=='' then (case tys of [a, b] \<Rightarrow> if a = b then Some TyBool else None | _ \<Rightarrow> None)
     else if k = ''<='' \<or> k = ''<'' then (if tys = [TyNum, TyNum] then Some TyBool else None)
     else if k = ''-'' \<or> k = ''/'' then (if tys = [TyNum, TyNum] then Some TyNum else None)
     else if k = ''+'' \<or> k = ''*'' then
       (if 2 \<le> length tys \<and> (\<forall>ty \<in> set tys. ty = TyNum) then Some TyNum else None)
     else None)"

fun sequence_option :: "'a option list \<Rightarrow> 'a list option" where
  "sequence_option [] = Some []"
| "sequence_option (None # xs) = None"
| "sequence_option (Some x # xs) = map_option ((#) x) (sequence_option xs)"

fun tree_ty :: "(fluent \<Rightarrow> ty) \<Rightarrow> etree \<Rightarrow> ty option" where
  "tree_ty G (TConst c) = const_ty c"
| "tree_ty G (TFluent f) = Some (G f)"
| "tree_ty G (TOp k ts) = Option.bind (sequence_option (map (tree_ty G) ts)) (op_ty k)"
| "tree_ty G (TIf f rt ts) = map_option (\<lambda>_. return_ty rt) (sequence_option (map (tree_ty G) ts))"

text \<open>An assignment gives every fluent a canonical value of its type.\<close>

definition typed_assignment :: "(fluent \<Rightarrow> ty) \<Rightarrow> const list \<Rightarrow> bool" where
  "typed_assignment G asg \<longleftrightarrow> (\<forall>i < length asg. const_ty (asg ! i) = Some (G (Fluent i)))"

definition fluents_declared :: "'a list \<Rightarrow> etree \<Rightarrow> bool" where
  "fluents_declared xs t \<longleftrightarrow> (\<forall>f \<in> set (tree_fluents t). fl_idx f < length xs)"


section \<open>Typed trees\<close>

lemma sequence_option_Some:
  "sequence_option xs = Some ys \<longleftrightarrow> list_all2 (\<lambda>x y. x = Some y) xs ys"
  by (induction xs arbitrary: ys rule: sequence_option.induct) (auto simp: list_all2_Cons1)

lemma op_ty_kinds: "op_ty k tys = Some ty \<Longrightarrow> k \<in> set op_kinds"
  by (auto simp: op_ty_def op_kinds_def split: if_splits)

lemma op_ty_simps:
  "op_ty ''and'' tys = (if \<forall>ty \<in> set tys. ty = TyBool then Some TyBool else None)"
  "op_ty ''or'' tys = (if \<forall>ty \<in> set tys. ty = TyBool then Some TyBool else None)"
  "op_ty ''not'' tys = (if tys = [TyBool] then Some TyBool else None)"
  "op_ty ''=='' tys = (case tys of [a, b] \<Rightarrow> if a = b then Some TyBool else None | _ \<Rightarrow> None)"
  "op_ty ''<='' tys = (if tys = [TyNum, TyNum] then Some TyBool else None)"
  "op_ty ''<'' tys = (if tys = [TyNum, TyNum] then Some TyBool else None)"
  "op_ty ''-'' tys = (if tys = [TyNum, TyNum] then Some TyNum else None)"
  "op_ty ''/'' tys = (if tys = [TyNum, TyNum] then Some TyNum else None)"
  "op_ty ''+'' tys = (if 2 \<le> length tys \<and> (\<forall>ty \<in> set tys. ty = TyNum) then Some TyNum else None)"
  "op_ty ''*'' tys = (if 2 \<le> length tys \<and> (\<forall>ty \<in> set tys. ty = TyNum) then Some TyNum else None)"
  by (simp_all add: op_ty_def)

lemma op_ty_cases [consumes 1, case_names junction negation equality comparison binary nary]:
  assumes "op_ty k tys = Some ty"
  obtains "k = ''and'' \<or> k = ''or''" "\<forall>t \<in> set tys. t = TyBool" "ty = TyBool"
    | "k = ''not''" "tys = [TyBool]" "ty = TyBool"
    | a where "k = ''==''" "tys = [a, a]" "ty = TyBool"
    | "k = ''<='' \<or> k = ''<''" "tys = [TyNum, TyNum]" "ty = TyBool"
    | "k = ''-'' \<or> k = ''/''" "tys = [TyNum, TyNum]" "ty = TyNum"
    | "k = ''+'' \<or> k = ''*''" "2 \<le> length tys" "\<forall>t \<in> set tys. t = TyNum" "ty = TyNum"
proof -
  note cases = that
  from op_ty_kinds [OF assms] have "k = ''and'' \<or> k = ''or'' \<or> k = ''not'' \<or> k = ''=='' \<or> k = ''<='' \<or> k = ''<'' \<or>
      k = ''+'' \<or> k = ''-'' \<or> k = ''*'' \<or> k = ''/''"
    by (simp only: op_kinds_def list.set insert_iff empty_iff simp_thms)
  then show thesis
  proof (elim disjE)
    assume k: "k = ''==''"
    with assms obtain a where "tys = [a, a]" "ty = TyBool"
      by (auto simp: op_ty_simps split: list.splits if_splits)
    with k cases(3) show thesis by blast
  qed (use assms cases in \<open>simp_all add: op_ty_simps split: if_splits\<close>)
qed

lemma typed_operands:
  assumes "list_all2 (\<lambda>x y. x = Some y) (map (tree_ty G) ts) tys"
  shows "list_all2 (\<lambda>t ty. tree_ty G t = Some ty) ts tys"
  using assms by (simp add: list_all2_map1)

lemma tree_ty_OpE:
  assumes "tree_ty G (TOp k ts) = Some ty"
  obtains tys where "list_all2 (\<lambda>t ty. tree_ty G t = Some ty) ts tys" "op_ty k tys = Some ty"
  using assms by (auto simp: bind_eq_Some_conv sequence_option_Some list_all2_map1)

lemma tree_ty_IfE:
  assumes "tree_ty G (TIf f rt ts) = Some ty"
  obtains tys where "list_all2 (\<lambda>t ty. tree_ty G t = Some ty) ts tys" "ty = return_ty rt"
  using assms by (auto simp: sequence_option_Some list_all2_map1)

lemma typed_operand: "list_all2 P ts tys \<Longrightarrow> t \<in> set ts \<Longrightarrow> \<exists>ty. P t ty"
  by (induction rule: list_all2_induct) auto

lemma tree_ty_wf: "tree_ty G t = Some ty \<Longrightarrow> wf_tree t"
proof (induction t arbitrary: ty)
  case (TOp k ts)
  then show ?case
    by (elim tree_ty_OpE) (auto simp: list_all_iff dest: op_ty_kinds typed_operand)
next
  case (TIf f rt ts)
  then show ?case
    by (elim tree_ty_IfE) (auto simp: list_all_iff dest: typed_operand)
qed auto

lemma return_ty_const: "has_return_type rt c \<Longrightarrow> canonical c \<Longrightarrow> const_ty c = Some (return_ty rt)"
  by (cases rt; cases c) auto

lemma const_ty_num: "const_ty c = Some TyNum \<Longrightarrow> as_rat c \<noteq> None \<and> canonical c"
  by (cases c) auto

lemma const_ty_bool: "const_ty c = Some TyBool \<longleftrightarrow> (\<exists>b. c = CBool b)"
  by (cases c) auto

lemma const_ty_canonical: "const_ty (canonical_rational r) = Some TyNum"
  by (auto simp: canonical_rational_def)


section \<open>The operators on typed operands\<close>

definition pure_num :: "const \<Rightarrow> bool" where
  "pure_num v \<longleftrightarrow> as_rat v \<noteq> None \<and> (\<forall>b. v \<noteq> CBool b)"

lemma pure_numI: "const_ty v = Some TyNum \<Longrightarrow> pure_num v"
  by (cases v) (auto simp: pure_num_def)

lemma py_arith_num:
  "as_rat a \<noteq> None \<Longrightarrow> as_rat b \<noteq> None \<Longrightarrow> \<exists>v. py_arith fi fr a b = Inr v \<and> pure_num v"
  by (cases a; cases b) (auto simp: py_arith_def pure_num_def)

lemma normalize_type: "pure_num v \<Longrightarrow> const_ty (normalize_num v) = Some TyNum"
  by (cases v) (auto simp: const_ty_canonical pure_num_def)

lemma fold_arith_num:
  assumes "pure_num a" "\<forall>v \<in> set vs. pure_num v"
  shows "\<exists>v. rfold (\<lambda>w v. py_arith fi fr v w) vs a = Inr v \<and> pure_num v"
  using assms
proof (induction vs arbitrary: a)
  case (Cons w vs)
  from Cons.prems have "as_rat a \<noteq> None" "as_rat w \<noteq> None" by (auto simp: pure_num_def)
  from py_arith_num [OF this] obtain v where v: "py_arith fi fr a w = Inr v" "pure_num v" by blast
  from Cons.IH [OF v(2)] Cons.prems v(1) show ?case by simp
qed simp

lemma op_fold_num:
  assumes "\<forall>v \<in> set vs. pure_num v" "vs \<noteq> []"
  shows "\<exists>v. op_fold (py_arith fi fr) vs = Inr v \<and> pure_num v"
proof (cases vs)
  case (Cons a ws)
  with assms fold_arith_num [of a ws fi fr] show ?thesis by simp
qed (use assms in simp)

lemma py_fraction_type:
  assumes "pure_num a" "pure_num b"
  shows "py_fraction a b = Inl ZeroDivErr \<or> (\<exists>v. py_fraction a b = Inr v \<and> pure_num v)"
  using assms by (auto simp: py_fraction_def pure_num_def split: option.splits)

text \<open>A result of the type, or a division by zero.\<close>

definition sound_at :: "ty \<Rightarrow> const res \<Rightarrow> bool" where
  "sound_at ty r = (case r of Inr v \<Rightarrow> const_ty v = Some ty | Inl e \<Rightarrow> e = ZeroDivErr)"

lemma sound_at_simps [simp]:
  "sound_at ty (Inr v) \<longleftrightarrow> const_ty v = Some ty"
  "sound_at ty (Inl e) \<longleftrightarrow> e = ZeroDivErr"
  by (simp_all add: sound_at_def)

lemma sound_normalized:
  "m = Inl ZeroDivErr \<or> (\<exists>v. m = Inr v \<and> pure_num v) \<Longrightarrow> sound_at TyNum (rbind m (\<lambda>v. Inr (normalize_num v)))"
  by (auto simp: normalize_type)

lemma typed_pair:
  assumes "list_all2 (\<lambda>v ty. const_ty v = Some ty) vs [ty1, ty2]"
  obtains a b where "vs = [a, b]" "const_ty a = Some ty1" "const_ty b = Some ty2"
  using assms by (auto simp: list_all2_Cons2)

lemma typed_nums:
  assumes "list_all2 (\<lambda>v ty. const_ty v = Some ty) vs tys" "\<forall>ty \<in> set tys. ty = TyNum"
  shows "\<forall>v \<in> set vs. pure_num v"
  using assms by (induction rule: list_all2_induct) (auto intro: pure_numI)

lemma compare_type:
  "pure_num a \<Longrightarrow> pure_num b \<Longrightarrow> \<exists>r. py_compare f a b = Inr r"
  by (auto simp: pure_num_def py_compare_def)

lemma op_apply_type:
  assumes vs: "list_all2 (\<lambda>v ty. const_ty v = Some ty) vs tys" and ty: "op_ty k tys = Some ty"
  shows "sound_at ty (op_apply k vs)"
  using ty
proof (cases rule: op_ty_cases)
  case junction
  then show ?thesis by (auto simp: op_apply_def)
next
  case negation
  with vs show ?thesis by (auto simp: op_apply_def list_all2_Cons2)
next
  case equality
  with vs show ?thesis by (auto simp: op_apply_def list_all2_Cons2)
next
  case comparison
  from vs [unfolded comparison(2)] obtain a b where ab: "vs = [a, b]" "pure_num a" "pure_num b"
    by (elim typed_pair) (auto intro: pure_numI)
  obtain r where "py_compare (\<le>) a b = Inr r" using compare_type [OF ab(2,3)] by blast
  moreover obtain r' where "py_compare (<) a b = Inr r'" using compare_type [OF ab(2,3)] by blast
  ultimately show ?thesis using comparison ab(1) by (auto simp: op_apply_def)
next
  case binary
  from vs [unfolded binary(2)] obtain a b where ab: "vs = [a, b]" "pure_num a" "pure_num b"
    by (elim typed_pair) (auto intro: pure_numI)
  then obtain v where "py_sub a b = Inr v" "pure_num v"
    using py_arith_num [of a b "(-)" "(-)"] by (auto simp: py_sub_def pure_num_def)
  moreover have "sound_at TyNum (rbind (py_fraction a b) (\<lambda>v. Inr (normalize_num v)))"
    by (rule sound_normalized [OF py_fraction_type [OF ab(2,3)]])
  ultimately show ?thesis using binary ab(1) by (auto simp: op_apply_def normalize_type)
next
  case nary
  have nums: "\<forall>v \<in> set vs. pure_num v" "vs \<noteq> []"
    using typed_nums [OF vs nary(3)] vs nary(2) by (auto dest: list_all2_lengthD)
  obtain v where "op_fold py_add vs = Inr v" "pure_num v"
    using op_fold_num [OF nums] by (auto simp: py_add_def)
  moreover obtain w where "op_fold py_mul vs = Inr w" "pure_num w"
    using op_fold_num [OF nums] by (auto simp: py_mul_def)
  ultimately show ?thesis using nary by (auto simp: op_apply_def normalize_type)
qed


section \<open>Type soundness\<close>

text \<open>An error a typed tree can end with: a division by zero, or one an interpreted function raises.\<close>

definition type_error_free :: "ifenv \<Rightarrow> py_error \<Rightarrow> bool" where
  "type_error_free ifs e \<longleftrightarrow> e = ZeroDivErr \<or> (\<exists>f rt args. if_call ifs f rt args = Inl e)"

lemma typed_fluent:
  "typed_assignment G asg \<Longrightarrow> fl_idx f < length asg \<Longrightarrow>
     \<exists>v. py_nth asg (int (fl_idx f)) = Inr v \<and> const_ty v = Some (G f)"
  by (cases f) (auto simp: typed_assignment_def)

lemma rmap_typed:
  assumes "list_all2 (\<lambda>t ty. tree_ty G t = Some ty) ts tys"
    and "\<And>t ty. t \<in> set ts \<Longrightarrow> tree_ty G t = Some ty \<Longrightarrow>
      (case ev t of Inr v \<Rightarrow> const_ty v = Some ty | Inl e \<Rightarrow> P e)"
  shows "case rmap ev ts of Inr vs \<Rightarrow> list_all2 (\<lambda>v ty. const_ty v = Some ty) vs tys | Inl e \<Rightarrow> P e"
  using assms
proof (induction rule: list_all2_induct)
  case (Cons t ts ty tys)
  from Cons.prems [of t ty] Cons.hyps(1) have t: "case ev t of Inr v \<Rightarrow> const_ty v = Some ty | Inl e \<Rightarrow> P e"
    by simp
  have "case rmap ev ts of Inr vs \<Rightarrow> list_all2 (\<lambda>v ty. const_ty v = Some ty) vs tys | Inl e \<Rightarrow> P e"
    using Cons.IH Cons.prems by simp
  with t show ?case by (cases "ev t"; cases "rmap ev ts") simp_all
qed simp

lemma teval_typed_fluents:
  assumes "tree_ty G t = Some ty"
    and "\<forall>f \<in> set (tree_fluents t). \<exists>v. py_nth asg (int (fl_idx f)) = Inr v \<and> const_ty v = Some (G f)"
  shows "case teval ifs asg t of Inr v \<Rightarrow> const_ty v = Some ty | Inl e \<Rightarrow> type_error_free ifs e"
  using assms
proof (induction t arbitrary: ty)
  case (TConst c)
  then show ?case by simp
next
  case (TFluent f)
  then show ?case by auto
next
  case (TOp k ts)
  from TOp.prems(1) obtain tys where tys: "list_all2 (\<lambda>t ty. tree_ty G t = Some ty) ts tys"
    and ty: "op_ty k tys = Some ty" by (rule tree_ty_OpE)
  have "case rmap (teval ifs asg) ts of Inr vs \<Rightarrow> list_all2 (\<lambda>v ty. const_ty v = Some ty) vs tys
      | Inl e \<Rightarrow> type_error_free ifs e"
    by (rule rmap_typed [OF tys]) (use TOp in simp)
  then show ?case
  proof (cases "rmap (teval ifs asg) ts")
    case (Inr vs)
    with \<open>case rmap _ _ of Inr vs \<Rightarrow> _ vs | Inl e \<Rightarrow> _ e\<close> op_apply_type [OF _ ty, of vs] show ?thesis
      by (cases "op_apply k vs") (auto simp: type_error_free_def)
  qed simp
next
  case (TIf f rt ts)
  from TIf.prems(1) obtain tys where tys: "list_all2 (\<lambda>t ty. tree_ty G t = Some ty) ts tys"
    and ty: "ty = return_ty rt" by (rule tree_ty_IfE)
  have "case rmap (teval ifs asg) ts of Inr vs \<Rightarrow> list_all2 (\<lambda>v ty. const_ty v = Some ty) vs tys
      | Inl e \<Rightarrow> type_error_free ifs e"
    by (rule rmap_typed [OF tys]) (use TIf in simp)
  then show ?case
  proof (cases "rmap (teval ifs asg) ts")
    case (Inr vs)
    then show ?thesis using ty if_call_type [of ifs f rt vs]
      by (cases "if_call ifs f rt vs") (auto simp: type_error_free_def return_ty_const)
  qed simp
qed

lemma teval_typed:
  assumes "typed_assignment G asg" "tree_ty G t = Some ty" "fluents_declared asg t"
  shows "case teval ifs asg t of Inr v \<Rightarrow> const_ty v = Some ty | Inl e \<Rightarrow> type_error_free ifs e"
  using assms typed_fluent [OF assms(1)] by (intro teval_typed_fluents) (auto simp: fluents_declared_def)

end
