(* ===== verification/Typed_Space.thy ===== *)
theory Typed_Space
  imports Expression_Types Search_Space_Facts
begin

text \<open>
  Types in the search space: when every effect of a space assigns a value of the type of its
  fluent, the assignments of its states stay typed.
\<close>

definition typed_values :: "(fluent \<Rightarrow> ty) \<Rightarrow> nat \<Rightarrow> const list \<Rightarrow> bool" where
  "typed_values G n asg \<longleftrightarrow> length asg = n \<and> typed_assignment G asg"

definition typed_effect :: "(fluent \<Rightarrow> ty) \<Rightarrow> nat \<Rightarrow> effect \<Rightarrow> bool" where
  "typed_effect G n eff \<longleftrightarrow> fl_idx (eff_fluent eff) < n \<and>
     (\<exists>t. eff_value eff = flatten t \<and> tree_ty G t = Some (G (eff_fluent eff)) \<and>
        (\<forall>f \<in> set (tree_fluents t). fl_idx f < n))"

definition typed_space :: "(fluent \<Rightarrow> ty) \<Rightarrow> nat \<Rightarrow> sspace \<Rightarrow> bool" where
  "typed_space G n sp \<longleftrightarrow> (\<forall>a evs. dict_get (sp_events sp) a = Some evs \<longrightarrow>
     (\<forall>te \<in> set evs. \<forall>eff \<in> set (ev_effects (snd te)). typed_effect G n eff))"

lemma evaluate_typed:
  assumes "typed_values G n asg" "tree_ty G t = Some ty" "\<forall>f \<in> set (tree_fluents t). fl_idx f < n"
  shows "case evaluate ifs (flatten t) asg of Inr v \<Rightarrow> const_ty v = Some ty | Inl e \<Rightarrow> type_error_free ifs e"
  using teval_typed [of G asg t ty ifs] evaluate_flatten [OF tree_ty_wf [OF assms(2)], of ifs asg] assms
  by (simp add: typed_values_def fluents_declared_def)

lemma apply_effect_typed:
  assumes "typed_values G n old" "typed_effect G n eff" "typed_values G n asg"
    and "apply_effect ifs old eff asg = Inr asg'"
  shows "typed_values G n asg'"
proof -
  from assms(2) obtain t where t: "eff_value eff = flatten t" "tree_ty G t = Some (G (eff_fluent eff))"
    "\<forall>f \<in> set (tree_fluents t). fl_idx f < n" and i: "fl_idx (eff_fluent eff) < n"
    by (auto simp: typed_effect_def)
  from assms(4) obtain v where v: "evaluate ifs (flatten t) old = Inr v"
    and asg': "py_update asg (int (fl_idx (eff_fluent eff))) v = Inr asg'"
    by (auto simp: apply_effect_def rbind_eq_Inr t(1))
  from evaluate_typed [OF assms(1) t(2,3), of ifs] v have "const_ty v = Some (G (eff_fluent eff))" by simp
  then show ?thesis
    using asg' assms(3) i by (cases "eff_fluent eff") (auto simp: typed_values_def typed_assignment_def nth_list_update)
qed

lemma expand_event_typed:
  assumes "expand_event T ifs sp s new e index eid pend = Inr (Some s')"
    and "\<forall>eff \<in> set (ev_effects e). typed_effect G n eff"
    and "typed_values G n (st_assignments s)" "typed_values G n (st_assignments new)"
  shows "typed_values G n (st_assignments s')"
proof -
  from assms(1) obtain act0 asg where
    eff: "rfold (apply_effect ifs (st_assignments s)) (ev_effects e) (st_assignments new) = Inr asg"
    and s': "st_assignments s' = asg" by (rule expand_event_SomeD)
  have "typed_values G n asg"
    by (rule rfold_invariant [where I = "typed_values G n", OF eff assms(4)])
      (use assms(2) apply_effect_typed [OF assms(3)] in blast)
  with s' show ?thesis by simp
qed

lemma fires_typed:
  assumes "typed_space G n sp" "fires T ifs sp s new a index eid pend s'" "typed_values G n (st_assignments s)"
  shows "typed_values G n (st_assignments s')"
proof -
  from assms(2) obtain evs where evs: "dict_get (sp_events sp) a = Some evs" "index < length evs"
    and new: "st_assignments new = st_assignments s"
    and ex: "expand_event T ifs sp s new (snd (evs ! index)) index eid pend = Inr (Some s')"
    by (rule firesE)
  have "\<forall>eff \<in> set (ev_effects (snd (evs ! index))). typed_effect G n eff"
    using assms(1) evs nth_mem [OF evs(2)] unfolding typed_space_def by blast
  from expand_event_typed [OF ex this assms(3)] new assms(3) show ?thesis by simp
qed

lemma compress_typed:
  assumes "typed_space G n sp" "dict_get (sp_events sp) a = Some evs"
    and "compress T ifs sp a (drop 1 (indexed evs)) eid s = Inr (Some s')"
    and "typed_values G n (st_assignments s)" "st_hcache s = []"
  shows "typed_values G n (st_assignments s')"
proof -
  have "(\<lambda>_ _ s. typed_values G n (st_assignments s) \<and> st_hcache s = []) [] (eid + length (drop 1 (indexed evs))) s'"
  proof (rule compress_invariant [OF assms(3)])
    fix i eid s s' assume "typed_values G n (st_assignments s) \<and> st_hcache s = []"
      and "fires T ifs sp (clone s False) (s\<lparr>st_g := st_g s + 1\<rparr>) a i eid None s'"
    then show "typed_values G n (st_assignments s') \<and> st_hcache s' = []"
      using fires_typed [OF assms(1)] fires_hcache by fastforce
  qed (use assms indexed_drop1 [of evs] in auto)
  then show ?thesis by simp
qed

lemma successor_typed:
  assumes "typed_space G n sp" "typed_values G n (st_assignments s)"
    and "get_successor_state_with_compression T ifs sp s a enabled c = Inr (Some s', c')"
  shows "typed_values G n (st_assignments s')"
  using assms(3)
proof (cases rule: successor_cases)
  case (continue evs index eid)
  from fires_typed [OF assms(1) continue(5) assms(2)] show ?thesis .
next
  case (started evs)
  from fires_typed [OF assms(1) started(7) assms(2)] show ?thesis .
next
  case (compressed evs s1 i eid)
  from fires_typed [OF assms(1) compressed(7) assms(2)]
  have "typed_values G n (st_assignments (s1\<lparr>st_todo := dict_del a (st_todo s1)\<rparr>))" by simp
  with compress_typed [OF assms(1) compressed(1) compressed(10)] fires_hcache [OF compressed(7)]
  show ?thesis by simp
qed

lemma initial_typed:
  assumes "typed_space G n sp" "initial_state T ifs sp init c = Inr (Some s, c')"
    and "\<forall>asg. init = Some asg \<or> (init = None \<and> sp_initial sp = Some asg) \<longrightarrow> typed_values G n asg"
  shows "typed_values G n (st_assignments s)"
  using assms(2)
proof (cases rule: initial_stateD)
  case (plain asg tn)
  with assms(3) show ?thesis by (cases init) (auto simp: mk_state_def)
next
  case (timed asg tn a evs)
  have "typed_values G n asg" using timed(4) assms(3) by (cases init) auto
  then have "typed_values G n (st_assignments (mk_state asg tn [] ms_empty 0 []))" by (simp add: mk_state_def)
  from fires_typed [OF assms(1) timed(7) this] show ?thesis .
qed

end
