(* ===== verification/Simplify.thy ===== *)
theory Simplify
  imports Expressions
begin

text \<open>
  The function \<open>simplify\<close> of \<open>src/tamerlite/core/search_space.py\<close>: a pass over the array that
  folds the nodes whose operands are known, writing one node per node of the expression, and a
  depth-first walk that lays out anew what the root still reaches.
\<close>

section \<open>Folding one node\<close>

text \<open>
  Conjunctions and disjunctions: a constant operand equal to \<open>d\<close> decides the operator, the
  other one is dropped.  The result is \<open>None\<close> when an operand decides.
\<close>

fun open_operands :: "bool \<Rightarrow> expression \<Rightarrow> int list \<Rightarrow> int list \<Rightarrow> int list option res" where
  "open_operands d res [] ops = Inr (Some ops)"
| "open_operands d res (i # is) ops =
     rbind (py_nth res i) (\<lambda>n. case n of
       NConst (CBool b) \<Rightarrow> if b = d then Inr None else open_operands d res is ops
     | _ \<Rightarrow> open_operands d res is (ops @ [i]))"

definition simplify_junction :: "string \<Rightarrow> bool \<Rightarrow> int list \<Rightarrow> expression \<Rightarrow> expression res" where
  "simplify_junction k d ops res =
     rbind (open_operands d res ops []) (\<lambda>r. case r of
       None \<Rightarrow> Inr (res @ [NConst (CBool d)])
     | Some [] \<Rightarrow> Inr (res @ [NConst (CBool (\<not> d))])
     | Some [i] \<Rightarrow> rbind (py_nth res i) (\<lambda>n. Inr (res @ [n]))
     | Some is \<Rightarrow> Inr (res @ [NOp k is]))"

definition simplify_not :: "int list \<Rightarrow> expression \<Rightarrow> expression res" where
  "simplify_not ops res = rbind (operand ops 0 res) (\<lambda>v. case v of
     NConst (CBool b) \<Rightarrow> Inr (res @ [NConst (CBool (\<not> b))])
   | _ \<Rightarrow> Inr (res @ [NOp ''not'' ops]))"

fun number_of :: "node \<Rightarrow> const option" where
  "number_of (NConst c) = (if is_num c then Some c else None)"
| "number_of _ = None"

definition simplify_equals :: "int list \<Rightarrow> expression \<Rightarrow> expression res" where
  "simplify_equals ops res =
     rbind (operand ops 0 res) (\<lambda>v1. rbind (operand ops 1 res) (\<lambda>v2.
       if node_eq v1 v2 \<or> (number_of v1 \<noteq> None \<and> number_of v2 \<noteq> None)
       then Inr (res @ [NConst (CBool (node_eq v1 v2))])
       else Inr (res @ [NOp ''=='' ops])))"

definition simplify_binary ::
    "string \<Rightarrow> (const \<Rightarrow> const \<Rightarrow> const res) \<Rightarrow> int list \<Rightarrow> expression \<Rightarrow> expression res" where
  "simplify_binary k f ops res =
     rbind (operand ops 0 res) (\<lambda>v1. rbind (operand ops 1 res) (\<lambda>v2.
       case (number_of v1, number_of v2) of
         (Some a, Some b) \<Rightarrow> rbind (f a b) (\<lambda>r. Inr (res @ [NConst (normalize_num r)]))
       | _ \<Rightarrow> Inr (res @ [NOp k ops])))"

text \<open>
  Sums and products: the constant operands are combined in the slot of the first, which is
  overwritten, and the others are dropped.
\<close>

definition fold_operand ::
    "(const \<Rightarrow> const \<Rightarrow> const res) \<Rightarrow> expression \<Rightarrow> int \<Rightarrow> const \<times> int option \<times> int list \<Rightarrow>
     (const \<times> int option \<times> int list) res" where
  "fold_operand f res i acc = (case acc of (v, first, ops) \<Rightarrow>
     rbind (py_nth res i) (\<lambda>v1. case number_of v1 of
       None \<Rightarrow> Inr (v, first, ops @ [i])
     | Some c \<Rightarrow> rbind (f v c) (\<lambda>v'.
         if first = None then Inr (v', Some i, ops @ [i]) else Inr (v', first, ops))))"

definition simplify_nary ::
    "string \<Rightarrow> (const \<Rightarrow> const \<Rightarrow> const res) \<Rightarrow> int \<Rightarrow> int list \<Rightarrow> expression \<Rightarrow> expression res" where
  "simplify_nary k f start ops res =
     rbind (rfold (fold_operand f res) ops (CInt start, None, [])) (\<lambda>(v, first, is). case first of
       None \<Rightarrow> Inr (res @ [NOp k ops])
     | Some j \<Rightarrow>
         if length is = 1 then Inr (res @ [NConst (normalize_num v)])
         else rbind (py_update res j (NConst (normalize_num v))) (\<lambda>res'. Inr (res' @ [NOp k is])))"

definition simplify_operator :: "string \<Rightarrow> int list \<Rightarrow> expression \<Rightarrow> expression res" where
  "simplify_operator k ops res =
    (if k = ''and'' then simplify_junction k False ops res
     else if k = ''or'' then simplify_junction k True ops res
     else if k = ''not'' then simplify_not ops res
     else if k = ''=='' then simplify_equals ops res
     else if k = ''<='' then
       simplify_binary k (\<lambda>a b. rbind (py_compare (\<le>) a b) (\<lambda>r. Inr (CBool r))) ops res
     else if k = ''<'' then
       simplify_binary k (\<lambda>a b. rbind (py_compare (<) a b) (\<lambda>r. Inr (CBool r))) ops res
     else if k = ''-'' then simplify_binary k py_sub ops res
     else if k = ''/'' then simplify_binary k py_fraction ops res
     else if k = ''+'' then simplify_nary k py_add 0 ops res
     else if k = ''*'' then simplify_nary k py_mul 1 ops res
     else Inr res)"

fun const_of :: "node \<Rightarrow> const option" where
  "const_of (NConst c) = Some c"
| "const_of _ = None"

definition simplify_call ::
    "ifenv \<Rightarrow> bool \<Rightarrow> ifun \<Rightarrow> if_return_type \<Rightarrow> int list \<Rightarrow> expression \<Rightarrow> expression res" where
  "simplify_call ifs call f rt ops res =
     rbind (rmap (py_nth res) ops) (\<lambda>vs.
       if call \<and> (\<forall>v \<in> set vs. const_of v \<noteq> None)
       then rbind (if_call ifs f rt (map (the \<circ> const_of) vs)) (\<lambda>v. Inr (res @ [NConst v]))
       else Inr (res @ [NIf f rt ops]))"

fun simplify_node ::
    "ifenv \<Rightarrow> (fluent, const) dict \<Rightarrow> bool \<Rightarrow> node \<Rightarrow> expression \<Rightarrow> expression res" where
  "simplify_node ifs asg call (NConst c) res = Inr (res @ [NConst (normalize_num c)])"
| "simplify_node ifs asg call (NFluent f) res =
     Inr (res @ [case dict_get asg f of None \<Rightarrow> NFluent f | Some v \<Rightarrow> NConst v])"
| "simplify_node ifs asg call (NIf f rt ops) res = simplify_call ifs call f rt ops res"
| "simplify_node ifs asg call (NOp k ops) res = simplify_operator k ops res"


section \<open>Keeping what the root reaches\<close>

text \<open>
  The two stacks have their top at the head; \<open>rb_out\<close> is the new array.  An inner node is met
  twice, before its operands and after them.
\<close>

record rebuild =
  rb_stack :: "(int \<times> bool) list"
  rb_operands :: "int list"
  rb_out :: expression

fun with_operands :: "node \<Rightarrow> int list \<Rightarrow> node" where
  "with_operands (NOp k _) ops = NOp k ops"
| "with_operands (NIf f rt _) ops = NIf f rt ops"
| "with_operands n _ = n"

fun is_leaf_node :: "node \<Rightarrow> bool" where
  "is_leaf_node (NConst _) = True"
| "is_leaf_node (NFluent _) = True"
| "is_leaf_node _ = False"

definition rebuild_round :: "expression \<Rightarrow> rebuild \<Rightarrow> (expression + rebuild) res" where
  "rebuild_round res r = (case rb_stack r of
     [] \<Rightarrow> Inr (Inl (rb_out r))
   | (idx, processed) # stack \<Rightarrow>
       rbind (py_nth res idx) (\<lambda>e.
       let top = int (length (rb_out r)); n = length (node_operands e) in
       if is_leaf_node e then
         Inr (Inr \<lparr>rb_stack = stack, rb_operands = top # rb_operands r, rb_out = rb_out r @ [e]\<rparr>)
       else if processed then
         if length (rb_operands r) < n then Inl IndexErr
         else Inr (Inr \<lparr>rb_stack = stack, rb_operands = top # drop n (rb_operands r),
                rb_out = rb_out r @ [with_operands e (rev (take n (rb_operands r)))]\<rparr>)
       else Inr (Inr (r\<lparr>rb_stack := map (\<lambda>i. (i, False)) (node_operands e) @ (idx, True) # stack\<rparr>))))"

definition rebuild_from :: "expression \<Rightarrow> int \<Rightarrow> expression res" where
  "rebuild_from res i =
     run_rounds (rebuild_round res) \<lparr>rb_stack = [(i, False)], rb_operands = [], rb_out = []\<rparr>"

definition simplify ::
    "ifenv \<Rightarrow> expression \<Rightarrow> (fluent, const) dict \<Rightarrow> bool \<Rightarrow> expression res" where
  "simplify ifs e asg call =
     rbind (rfold (simplify_node ifs asg call) e []) (\<lambda>res. rebuild_from res (int (length res) - 1))"

end
