(* ===== verification/Tree_Positions.thy ===== *)
theory Tree_Positions
  imports Expression_Trees
begin

text \<open>
  Where the sub-trees of a flattened tree lie in the array: their first index, their root, and
  the roots the operand indices of their parent point to.
\<close>

definition occurs :: "expression \<Rightarrow> nat \<times> etree \<Rightarrow> bool" where
  "occurs e p = (case p of (pos, t) \<Rightarrow> \<exists>pre post. e = pre @ flat pos t @ post \<and> length pre = pos)"

definition root_index :: "nat \<times> etree \<Rightarrow> int" where
  "root_index p = (case p of (pos, t) \<Rightarrow> int (pos + tsize t) - 1)"

fun placed :: "nat \<Rightarrow> etree list \<Rightarrow> (nat \<times> etree) list" where
  "placed pos [] = []"
| "placed pos (t # ts) = (pos, t) # placed (pos + tsize t) ts"

fun root_node :: "nat \<Rightarrow> etree \<Rightarrow> node" where
  "root_node pos (TConst c) = NConst c"
| "root_node pos (TFluent f) = NFluent f"
| "root_node pos (TOp k ts) = NOp k (roots pos ts)"
| "root_node pos (TIf f rt ts) = NIf f rt (roots pos ts)"

fun subtrees :: "etree \<Rightarrow> etree list" where
  "subtrees (TOp k ts) = ts"
| "subtrees (TIf f rt ts) = ts"
| "subtrees t = []"

lemma roots_placed: "roots pos ts = map root_index (placed pos ts)"
proof (induction ts arbitrary: pos)
  case (Cons t ts)
  then show ?case using tsize_ge_1 [of t] by (simp add: root_index_def of_nat_diff)
qed simp

lemma snd_placed [simp]: "map snd (placed pos ts) = ts"
  by (induction ts arbitrary: pos) auto

lemma flat_root: "flat pos t = flats pos (subtrees t) @ [root_node pos t]"
  by (cases t) auto

lemma tsize_subtrees: "tsize t = Suc (sum_list (map tsize (subtrees t)))"
  by (cases t) auto

lemma length_flats [simp]: "length (flats pos ts) = sum_list (map tsize ts)"
  by (induction ts arbitrary: pos) auto

lemma placed_occurs:
  assumes "e = pre @ flats (length pre) ts @ post"
  shows "\<forall>p \<in> set (placed (length pre) ts). occurs e p"
  using assms
proof (induction ts arbitrary: pre)
  case (Cons t ts)
  let ?pre = "pre @ flat (length pre) t"
  have "e = ?pre @ flats (length ?pre) ts @ post" using Cons.prems by simp
  from Cons.IH [OF this] have "\<forall>p \<in> set (placed (length pre + tsize t) ts). occurs e p" by simp
  moreover have "occurs e (length pre, t)"
    unfolding occurs_def prod.case
    by (intro exI [of _ pre] exI [of _ "flats (length pre + tsize t) ts @ post"]) (use Cons.prems in simp)
  ultimately show ?case by simp
qed simp

lemma occurs_subtrees:
  assumes "occurs e (pos, t)"
  shows "\<forall>p \<in> set (placed pos (subtrees t)). occurs e p"
proof -
  from assms obtain pre post where "e = pre @ flat pos t @ post" "length pre = pos" by (auto simp: occurs_def)
  then have "e = pre @ flats (length pre) (subtrees t) @ (root_node pos t # post)" by (simp add: flat_root)
  from placed_occurs [OF this] \<open>length pre = pos\<close> show ?thesis by simp
qed

lemma occurs_root:
  assumes "occurs e (pos, t)"
  shows "py_nth e (root_index (pos, t)) = Inr (root_node pos t)"
proof -
  from assms obtain pre post where e: "e = pre @ flat pos t @ post" "length pre = pos" by (auto simp: occurs_def)
  let ?pre = "pre @ flats pos (subtrees t)"
  have "root_index (pos, t) = int (length ?pre)"
    using e(2) tsize_subtrees [of t] by (simp add: root_index_def)
  moreover have "e = ?pre @ [root_node pos t] @ post" using e(1) by (simp add: flat_root)
  moreover have "(?pre @ root_node pos t # post) ! length ?pre = root_node pos t" by (rule nth_append_length)
  then have "py_nth (?pre @ [root_node pos t] @ post) (int (length ?pre)) = Inr (root_node pos t)"
    unfolding py_nth_int_iff by simp
  ultimately show ?thesis by (simp only:)
qed

lemma occurs_extract:
  assumes "occurs e (pos, t)"
  shows "extract_sub_expression e (root_index (pos, t)) = Inr (flatten t)"
proof -
  from assms obtain pre post where e: "e = pre @ flat pos t @ post" "length pre = pos" by (auto simp: occurs_def)
  then show ?thesis using extract_sub_expression_flat [of pre t post] by (simp add: root_index_def)
qed

lemma occurs_flatten: "occurs (flatten t) (0, t)"
  by (simp add: occurs_def flatten_def)

end
