(* ===== verification/Simplify_Facts.thy ===== *)
theory Simplify_Facts
  imports Simplify Expression_Types Tree_Positions
begin

text \<open>
  \<open>simplify\<close> against the folding of trees: on the layout of a tree it returns the layout of the
  folded tree, and folding a typed tree keeps its value.
\<close>

section \<open>Folding trees\<close>

fun bool_tree :: "etree \<Rightarrow> bool option" where
  "bool_tree (TConst (CBool b)) = Some b"
| "bool_tree _ = None"

fun num_tree :: "etree \<Rightarrow> const option" where
  "num_tree (TConst c) = (if is_num c then Some c else None)"
| "num_tree _ = None"

fun const_tree :: "etree \<Rightarrow> const option" where
  "const_tree (TConst c) = Some c"
| "const_tree _ = None"

definition fold_junction :: "string \<Rightarrow> bool \<Rightarrow> etree list \<Rightarrow> etree" where
  "fold_junction k d us =
     (if \<exists>u \<in> set us. bool_tree u = Some d then TConst (CBool d)
      else case filter (\<lambda>u. bool_tree u = None) us of
          [] \<Rightarrow> TConst (CBool (\<not> d))
        | [u] \<Rightarrow> u
        | us' \<Rightarrow> TOp k us')"

fun fold_not :: "etree list \<Rightarrow> etree res" where
  "fold_not (u # us) = Inr (case bool_tree u of Some b \<Rightarrow> TConst (CBool (\<not> b)) | None \<Rightarrow> TOp ''not'' (u # us))"
| "fold_not [] = Inl IndexErr"

text \<open>Trees whose nodes compare equal wherever they are laid out.\<close>

fun same_leaf :: "etree \<Rightarrow> etree \<Rightarrow> bool" where
  "same_leaf (TConst a) (TConst b) = py_eq a b"
| "same_leaf (TFluent f) (TFluent g) = (f = g)"
| "same_leaf (TIf f rt []) (TIf g rt' []) = (f = g \<and> rt = rt')"
| "same_leaf _ _ = False"

fun fold_equals :: "etree list \<Rightarrow> etree res" where
  "fold_equals (u # v # us) =
     Inr (if same_leaf u v \<or> (num_tree u \<noteq> None \<and> num_tree v \<noteq> None)
          then TConst (CBool (same_leaf u v)) else TOp ''=='' (u # v # us))"
| "fold_equals _ = Inl IndexErr"

fun fold_binary :: "string \<Rightarrow> (const \<Rightarrow> const \<Rightarrow> const res) \<Rightarrow> etree list \<Rightarrow> etree res" where
  "fold_binary k f (u # v # us) = (case (num_tree u, num_tree v) of
       (Some a, Some b) \<Rightarrow> rbind (f a b) (\<lambda>r. Inr (TConst (normalize_num r)))
     | _ \<Rightarrow> Inr (TOp k (u # v # us)))"
| "fold_binary k f _ = Inl IndexErr"

text \<open>The total in the place of the first constant, the other constants dropped.\<close>

fun place_total :: "const \<Rightarrow> etree list \<Rightarrow> etree list" where
  "place_total v [] = []"
| "place_total v (u # us) =
     (if num_tree u = None then u # place_total v us
      else TConst v # filter (\<lambda>u. num_tree u = None) us)"

definition fold_nary ::
    "string \<Rightarrow> (const \<Rightarrow> const \<Rightarrow> const res) \<Rightarrow> int \<Rightarrow> etree list \<Rightarrow> etree res" where
  "fold_nary k f start us =
     rbind (rfold (\<lambda>c v. f v c) (List.map_filter num_tree us) (CInt start)) (\<lambda>v.
       Inr (if \<forall>u \<in> set us. num_tree u = None then TOp k us
            else case place_total (normalize_num v) us of [u] \<Rightarrow> u | us' \<Rightarrow> TOp k us'))"

definition fold_op :: "string \<Rightarrow> etree list \<Rightarrow> etree res" where
  "fold_op k us =
    (if k = ''and'' then Inr (fold_junction k False us)
     else if k = ''or'' then Inr (fold_junction k True us)
     else if k = ''not'' then fold_not us
     else if k = ''=='' then fold_equals us
     else if k = ''<='' then fold_binary k (\<lambda>a b. rbind (py_compare (\<le>) a b) (\<lambda>r. Inr (CBool r))) us
     else if k = ''<'' then fold_binary k (\<lambda>a b. rbind (py_compare (<) a b) (\<lambda>r. Inr (CBool r))) us
     else if k = ''-'' then fold_binary k py_sub us
     else if k = ''/'' then fold_binary k py_fraction us
     else if k = ''+'' then fold_nary k py_add 0 us
     else fold_nary k py_mul 1 us)"

definition fold_call :: "ifenv \<Rightarrow> bool \<Rightarrow> ifun \<Rightarrow> if_return_type \<Rightarrow> etree list \<Rightarrow> etree res" where
  "fold_call ifs call f rt us =
     (if call \<and> (\<forall>u \<in> set us. const_tree u \<noteq> None)
      then rbind (if_call ifs f rt (map (the \<circ> const_tree) us)) (\<lambda>v. Inr (TConst v))
      else Inr (TIf f rt us))"

fun fold_tree :: "ifenv \<Rightarrow> (fluent, const) dict \<Rightarrow> bool \<Rightarrow> etree \<Rightarrow> etree res" where
  "fold_tree ifs asg call (TConst c) = Inr (TConst (normalize_num c))"
| "fold_tree ifs asg call (TFluent f) =
     Inr (case dict_get asg f of None \<Rightarrow> TFluent f | Some v \<Rightarrow> TConst v)"
| "fold_tree ifs asg call (TOp k ts) = rbind (rmap (fold_tree ifs asg call) ts) (fold_op k)"
| "fold_tree ifs asg call (TIf f rt ts) = rbind (rmap (fold_tree ifs asg call) ts) (fold_call ifs call f rt)"

text \<open>Operators with the number of operands the converter gives them.\<close>

definition arity_ok :: "string \<Rightarrow> nat \<Rightarrow> bool" where
  "arity_ok k n \<longleftrightarrow>
    (if k = ''and'' \<or> k = ''or'' then True else if k = ''not'' then n = 1
     else if k = ''+'' \<or> k = ''*'' then 1 \<le> n else n = 2)"

fun arities :: "etree \<Rightarrow> bool" where
  "arities (TOp k ts) = (arity_ok k (length ts) \<and> k \<in> set op_kinds \<and> list_all arities ts)"
| "arities (TIf f rt ts) = list_all arities ts"
| "arities _ = True"


section \<open>A tree that lives in an array\<close>

fun node_at :: "etree \<Rightarrow> int list \<Rightarrow> node" where
  "node_at (TConst c) _ = NConst c"
| "node_at (TFluent f) _ = NFluent f"
| "node_at (TOp k ts) ops = NOp k ops"
| "node_at (TIf f rt ts) ops = NIf f rt ops"

text \<open>The tree \<open>u\<close> has its root at \<open>i\<close> and all its nodes between \<open>lo\<close> and \<open>hi\<close>.\<close>

inductive denotes :: "nat \<Rightarrow> nat \<Rightarrow> expression \<Rightarrow> int \<Rightarrow> etree \<Rightarrow> bool" for lo hi res where
  denotesI: "int lo \<le> i \<Longrightarrow> i < int hi \<Longrightarrow> hi \<le> length res \<Longrightarrow> res ! nat i = node_at u ops \<Longrightarrow>
    list_all2 (denotes lo hi res) ops (subtrees u) \<Longrightarrow> denotes lo hi res i u"

inductive_cases denotesE: "denotes lo hi res i u"

lemma denotes_mono:
  assumes "denotes lo hi res i u" "lo' \<le> lo" "hi \<le> hi'" "hi' \<le> length res'"
    and "\<And>j. lo \<le> j \<Longrightarrow> j < hi \<Longrightarrow> res' ! j = res ! j"
  shows "denotes lo' hi' res' i u"
  using assms(1)
proof (induction rule: denotes.induct)
  case (denotesI i u ops)
  show ?case
  proof (rule denotes.denotesI)
    show "res' ! nat i = node_at u ops" using denotesI(1,2,4) assms(5) [of "nat i"] by simp
    show "list_all2 (denotes lo' hi' res') ops (subtrees u)"
      using denotesI(5) by (rule list_all2_mono) simp
  qed (use denotesI assms(2-4) in auto)
qed

text \<open>The folded children of one node, each in the slots of the child it comes from.\<close>

fun child_slots :: "nat \<Rightarrow> expression \<Rightarrow> etree list \<Rightarrow> etree list \<Rightarrow> bool" where
  "child_slots off res [] [] = True"
| "child_slots off res (t # ts) (u # us) =
     (denotes off (off + tsize t) res (int (off + tsize t - 1)) u \<and> child_slots (off + tsize t) res ts us)"
| "child_slots off res _ _ = False"

lemma child_slots_mono:
  assumes "child_slots off res ts us" "\<And>j. off \<le> j \<Longrightarrow> j < off + sum_list (map tsize ts) \<Longrightarrow> res' ! j = res ! j"
    and "off + sum_list (map tsize ts) \<le> length res'"
  shows "child_slots off res' ts us"
  using assms
proof (induction off res ts us rule: child_slots.induct)
  case (2 off res t ts u us)
  have "denotes off (off + tsize t) res' (int (off + tsize t - 1)) u"
    using 2(2-4) by (elim child_slots.simps(2) [THEN iffD1, THEN conjE] denotes_mono) auto
  moreover have "child_slots (off + tsize t) res' ts us"
    by (rule "2.IH") (use 2(2-4) in auto)
  ultimately show ?case by simp
qed auto

lemma child_slots_length: "child_slots off res ts us \<Longrightarrow> length us = length ts"
  by (induction off res ts us rule: child_slots.induct) auto

text \<open>All of them together, between the bounds of the whole.\<close>

lemma child_slots_denotes:
  assumes "child_slots off res ts us" "lo \<le> off" "off + sum_list (map tsize ts) \<le> hi" "hi \<le> length res"
  shows "list_all2 (denotes lo hi res) (roots off ts) us"
  using assms
proof (induction off res ts us rule: child_slots.induct)
  case (2 off res t ts u us)
  then show ?case by (auto elim!: denotes_mono)
qed auto


lemma denotes_node:
  assumes "denotes lo hi res i u"
  obtains ops where "py_nth res i = Inr (node_at u ops)" "list_all2 (denotes lo hi res) ops (subtrees u)"
  using assms by (elim denotesE) (auto simp: py_nth_in_range)

lemma denotes_range: "denotes lo hi res i u \<Longrightarrow> int lo \<le> i \<and> i < int hi"
  by (auto elim: denotesE)

lemma denotes_snoc:
  assumes "list_all2 (denotes off (length res) res) ops (subtrees u)" "off \<le> length res"
  shows "denotes off (Suc (length res)) (res @ [node_at u ops]) (int (length res)) u"
proof (rule denotesI)
  show "list_all2 (denotes off (Suc (length res)) (res @ [node_at u ops])) ops (subtrees u)"
    using assms(1) by (rule list_all2_mono) (auto elim!: denotes_mono simp: nth_append)
qed (use assms(2) in \<open>auto simp: nth_append\<close>)

text \<open>What one step of the pass leaves: one more slot, which denotes \<open>u\<close>.\<close>

definition placed_next :: "nat \<Rightarrow> expression \<Rightarrow> etree \<Rightarrow> expression \<Rightarrow> bool" where
  "placed_next off res u res' \<longleftrightarrow> length res' = Suc (length res) \<and> take off res' = take off res \<and>
     denotes off (Suc (length res)) res' (int (length res)) u"

lemma placed_nextI:
  assumes "list_all2 (denotes off (length res) res) ops (subtrees u)" "off \<le> length res"
  shows "placed_next off res u (res @ [node_at u ops])"
  using denotes_snoc [OF assms] assms(2) by (simp add: placed_next_def)

lemmas placed_const = placed_nextI [where u = "TConst c" and ops = "[]" for c, simplified]

definition kept :: "('b \<Rightarrow> bool) \<Rightarrow> 'a list \<Rightarrow> 'b list \<Rightarrow> 'a list" where
  "kept p is us = map fst (filter (\<lambda>(i, u). p u) (zip is us))"

lemma kept_simps [simp]:
  "kept p [] us = []"
  "kept p (i # is) (u # us) = (if p u then i # kept p is us else kept p is us)"
  by (simp_all add: kept_def)

lemma list_all2_kept: "list_all2 D is us \<Longrightarrow> list_all2 D (kept p is us) (filter p us)"
  by (induction rule: list_all2_induct) auto


section \<open>The pass, operator by operator\<close>

lemma open_operands_denotes:
  assumes "list_all2 (denotes lo hi res) ops us"
  shows "open_operands d res ops acc = Inr (if \<exists>u \<in> set us. bool_tree u = Some d then None
    else Some (acc @ kept (\<lambda>u. bool_tree u = None) ops us))"
  using assms
proof (induction arbitrary: acc rule: list_all2_induct)
  case (Cons i ops u us)
  from Cons.hyps(1) obtain js where "py_nth res i = Inr (node_at u js)" by (rule denotes_node)
  with Cons.IH show ?case
    by (cases u rule: bool_tree.cases) (auto split: const.split)
qed simp

lemma simplify_junction_denotes:
  assumes ops: "list_all2 (denotes off (length res) res) ops us" and off: "off \<le> length res"
  shows "\<exists>res'. simplify_junction k d ops res = Inr res' \<and> placed_next off res (fold_junction k d us) res'"
proof (cases "\<exists>u \<in> set us. bool_tree u = Some d")
  case True
  with open_operands_denotes [OF ops] placed_const [OF off] show ?thesis
    by (auto simp: simplify_junction_def fold_junction_def)
next
  case False
  let ?is = "kept (\<lambda>u. bool_tree u = None) ops us" and ?us = "filter (\<lambda>u. bool_tree u = None) us"
  have r: "open_operands d res ops [] = Inr (Some ?is)" "fold_junction k d us =
      (case ?us of [] \<Rightarrow> TConst (CBool (\<not> d)) | [u] \<Rightarrow> u | us' \<Rightarrow> TOp k us')"
    using open_operands_denotes [OF ops] False by (simp_all add: fold_junction_def del: if_image_distrib)
  note D = list_all2_kept [OF ops, of "\<lambda>u. bool_tree u = None"]
  show ?thesis
  proof (cases ?us rule: list_cases2)
    case Nil
    with D have "?is = []" by simp
    with Nil r placed_const [OF off] show ?thesis by (simp add: simplify_junction_def)
  next
    case (one u)
    with D obtain i where i: "?is = [i]" "denotes off (length res) res i u" by (auto simp: list_all2_Cons2)
    from i(2) obtain js where "py_nth res i = Inr (node_at u js)"
      "list_all2 (denotes off (length res) res) js (subtrees u)" by (rule denotes_node)
    with i(1) one r placed_nextI [OF _ off] show ?thesis by (simp add: simplify_junction_def)
  next
    case (more u v vs)
    with D obtain i j js where is_: "?is = i # j # js" by (auto simp: list_all2_Cons2)
    have "placed_next off res (TOp k ?us) (res @ [node_at (TOp k ?us) ?is])"
      by (rule placed_nextI [OF _ off]) (use D in simp)
    with is_ more r show ?thesis by (simp add: simplify_junction_def)
  qed
qed

lemma operand_simps [simp]:
  "operand (i # is) 0 vs = py_nth vs i"
  "operand (i # j # is) 1 vs = py_nth vs j"
  by (simp_all add: operand_def py_nth_def)

lemma simplify_not_denotes:
  assumes "list_all2 (denotes off (length res) res) ops us" "off \<le> length res" "us \<noteq> []"
  shows "\<exists>u res'. fold_not us = Inr u \<and> simplify_not ops res = Inr res' \<and> placed_next off res u res'"
proof -
  from assms(1,3) obtain i js u us' where ops: "ops = i # js" "us = u # us'" "denotes off (length res) res i u"
    by (cases us) (auto simp: list_all2_Cons2)
  from ops(3) obtain ks where n: "py_nth res i = Inr (node_at u ks)" by (rule denotes_node)
  have "placed_next off res (TOp ''not'' us) (res @ [NOp ''not'' ops])"
    using placed_nextI [OF _ assms(2), of ops "TOp ''not'' us"] assms(1) by simp
  with ops n placed_const [OF assms(2)] show ?thesis
    by (cases u rule: bool_tree.cases) (auto simp: simplify_not_def)
qed

lemma node_at_number: "number_of (node_at u js) = num_tree u"
  by (cases u) auto

lemma simplify_binary_denotes:
  assumes "list_all2 (denotes off (length res) res) ops us" "off \<le> length res" "length us = 2"
  shows "evals_to (fold_binary k f us) (simplify_binary k f ops res) (placed_next off res)"
proof -
  from assms(1,3) obtain i j u v where ops: "ops = [i, j]" "us = [u, v]"
      "denotes off (length res) res i u" "denotes off (length res) res j v"
    by (cases us rule: list_cases3) (auto simp: list_all2_Cons2)
  from ops(3) obtain js where n: "py_nth res i = Inr (node_at u js)" by (rule denotes_node)
  from ops(4) obtain ks where m: "py_nth res j = Inr (node_at v ks)" by (rule denotes_node)
  have "placed_next off res (TOp k us) (res @ [NOp k ops])"
    using placed_nextI [OF _ assms(2), of ops "TOp k us"] assms(1) by simp
  moreover have "evals_to (rbind (f a b) (\<lambda>r. Inr (TConst (normalize_num r))))
      (rbind (f a b) (\<lambda>r. Inr (res @ [NConst (normalize_num r)]))) (placed_next off res)" for a b
    using placed_const [OF assms(2)] by (cases "f a b") simp_all
  ultimately show ?thesis using ops n m
    by (auto simp: simplify_binary_def node_at_number split: option.split)
qed

text \<open>Folded operators keep an operand, so that two of them differ in their operands.\<close>

fun has_operands :: "etree \<Rightarrow> bool" where
  "has_operands (TOp k us) = (us \<noteq> [])"
| "has_operands _ = True"

lemma disjoint_operands:
  assumes "list_all2 (denotes lo mid res) is us" "list_all2 (denotes mid hi res) js vs" "us \<noteq> []"
  shows "is \<noteq> js"
  using assms by (cases us; cases vs) (auto simp: list_all2_Cons2 dest!: denotes_range)

lemma same_leaf_leaf: "same_leaf u v \<Longrightarrow> subtrees u = []"
  by (cases "(u, v)" rule: same_leaf.cases) auto

lemma same_leaf_nodes:
  assumes "list_all2 (denotes lo mid res) is (subtrees u)" "list_all2 (denotes mid hi res) js (subtrees v)"
    and "has_operands u"
  shows "node_eq (node_at u is) (node_at v js) = same_leaf u v"
proof (cases "subtrees u = []")
  case True
  with assms(1,3) show ?thesis
    by (cases "subtrees v"; cases u; cases v) (use assms(2) in \<open>auto simp: list_all2_Cons2\<close>)
next
  case False
  from disjoint_operands [OF assms(1,2) this] have "node_at u is \<noteq> node_at v js"
    using False by (cases u; cases v) auto
  moreover have "\<not> same_leaf u v" using same_leaf_leaf False by blast
  ultimately show ?thesis using False by (cases u; cases v) auto
qed

lemma simplify_equals_denotes:
  assumes slots: "child_slots off res ts us" and len: "length res = off + sum_list (map tsize ts)"
    and "length us = 2" "\<forall>u \<in> set us. has_operands u"
  shows "\<exists>u res'. fold_equals us = Inr u \<and> simplify_equals (roots off ts) res = Inr res' \<and> placed_next off res u res'"
proof -
  obtain t1 t2 u v where ts: "ts = [t1, t2]" "us = [u, v]"
    using child_slots_length [OF slots] assms(3)
    by (cases ts rule: list_cases3; cases us rule: list_cases3) auto
  let ?m = "off + tsize t1" let ?ops = "roots off ts"
  from slots ts have u: "denotes off ?m res (int (?m - 1)) u" and v: "denotes ?m (?m + tsize t2) res (int (?m + tsize t2 - 1)) v"
    by auto
  from u obtain js where n: "py_nth res (int (?m - 1)) = Inr (node_at u js)" "list_all2 (denotes off ?m res) js (subtrees u)"
    by (rule denotes_node)
  from v obtain ks where m: "py_nth res (int (?m + tsize t2 - 1)) = Inr (node_at v ks)"
      "list_all2 (denotes ?m (?m + tsize t2) res) ks (subtrees v)" by (rule denotes_node)
  have eq: "node_eq (node_at u js) (node_at v ks) = same_leaf u v"
    using same_leaf_nodes [OF n(2) m(2)] assms(4) ts by simp
  have "list_all2 (denotes off (length res) res) ?ops us"
    by (rule child_slots_denotes [OF slots]) (use len in auto)
  then have "placed_next off res (TOp ''=='' us) (res @ [NOp ''=='' ?ops])"
    using placed_nextI [of off res ?ops "TOp ''=='' us"] len by simp
  with ts n(1) m(1) eq len placed_const [of off res] show ?thesis
    by (cases "same_leaf u v"; cases "num_tree u"; cases "num_tree v")
      (simp_all add: simplify_equals_def node_at_number)
qed

text \<open>Overwriting the slot of one child with a constant.\<close>

lemma denotes_const: "lo \<le> i \<Longrightarrow> i < hi \<Longrightarrow> hi \<le> length res \<Longrightarrow> res ! i = NConst c \<Longrightarrow> denotes lo hi res (int i) (TConst c)"
  by (rule denotesI [where ops = "[]"]) auto

lemma child_slots_bound: "child_slots off res ts us \<Longrightarrow> ts \<noteq> [] \<Longrightarrow> off + sum_list (map tsize ts) \<le> length res"
proof (induction off res ts us rule: child_slots.induct)
  case (2 off res t ts u us)
  then show ?case by (cases ts) (auto elim: denotesE)
qed auto

lemma child_slots_update:
  assumes "child_slots off res ts us" "m < length us"
  shows "\<exists>i. roots off ts ! m = int i \<and> off \<le> i \<and> i < length res \<and>
    child_slots off (res[i := NConst c]) ts (us[m := TConst c])"
  using assms
proof (induction off res ts us arbitrary: m rule: child_slots.induct)
  case (2 off res t ts u us)
  from "2.prems"(1) have u: "denotes off (off + tsize t) res (int (off + tsize t - 1)) u"
    and us: "child_slots (off + tsize t) res ts us" by auto
  have len: "off + tsize t + sum_list (map tsize ts) \<le> length res"
    using child_slots_bound [OF "2.prems"(1)] by simp
  show ?case
  proof (cases m)
    case 0
    let ?i = "off + tsize t - 1" let ?res = "res[?i := NConst c]"
    have "denotes off (off + tsize t) ?res (int ?i) (TConst c)"
      by (rule denotes_const) (use len tsize_ge_1 [of t] in auto)
    moreover have "child_slots (off + tsize t) ?res ts us"
      by (rule child_slots_mono [OF us]) (use len tsize_ge_1 [of t] in \<open>auto simp: nth_list_update\<close>)
    ultimately show ?thesis using 0 len tsize_ge_1 [of t] by (auto intro!: exI [of _ ?i])
  next
    case (Suc m')
    with "2.IH" [OF us, of m'] "2.prems"(2) obtain i where i: "roots (off + tsize t) ts ! m' = int i"
      "off + tsize t \<le> i" "i < length res"
      "child_slots (off + tsize t) (res[i := NConst c]) ts (us[m' := TConst c])" by auto
    have "denotes off (off + tsize t) (res[i := NConst c]) (int (off + tsize t - 1)) u"
      by (rule denotes_mono [OF u]) (use i len in \<open>auto simp: nth_list_update\<close>)
    with i Suc show ?thesis by auto
  qed
qed auto

lemma fold_operand_at:
  "py_nth res i = Inr (node_at u js) \<Longrightarrow> fold_operand f res i (v, first, acc) = (case num_tree u of
     None \<Rightarrow> Inr (v, first, acc @ [i])
   | Some c \<Rightarrow> rbind (f v c) (\<lambda>v'. if first = None then Inr (v', Some i, acc @ [i]) else Inr (v', first, acc)))"
  by (simp add: fold_operand_def node_at_number)

lemma fold_operands_rest:
  assumes "list_all2 (denotes lo hi res) ops us"
  shows "rfold (fold_operand f res) ops (v, Some j, acc) =
    rbind (rfold (\<lambda>c v. f v c) (List.map_filter num_tree us) v)
      (\<lambda>v'. Inr (v', Some j, acc @ kept (\<lambda>u. num_tree u = None) ops us))"
  using assms
proof (induction arbitrary: v acc rule: list_all2_induct)
  case (Cons i ops u us)
  from Cons.hyps(1) obtain js where "py_nth res i = Inr (node_at u js)" by (rule denotes_node)
  then show ?case
    by (cases "num_tree u")
      (simp_all add: fold_operand_at Cons.IH List.map_filter_simps rbind_assoc)
qed (simp add: List.map_filter_simps)

lemma fold_operands_none:
  assumes "list_all2 (denotes lo hi res) ops us" "\<forall>u \<in> set us. num_tree u = None"
  shows "rfold (fold_operand f res) ops (v, None, acc) = Inr (v, None, acc @ ops)"
  using assms
proof (induction arbitrary: acc rule: list_all2_induct)
  case (Cons i ops u us)
  from Cons.hyps(1) obtain js where "py_nth res i = Inr (node_at u js)" by (rule denotes_node)
  with Cons show ?case by (simp add: fold_operand_at)
qed simp

text \<open>The slots of the reduced operator: those before the first constant, its own, the open ones after it.\<close>

lemma fold_operands_first:
  assumes "list_all2 (denotes lo hi res) (ops @ j # ops') (us @ u # us')" "length ops = length us"
    and "\<forall>u \<in> set us. num_tree u = None" "num_tree u \<noteq> None"
  shows "rfold (fold_operand f res) (ops @ j # ops') (v, None, []) =
    rbind (rfold (\<lambda>c v. f v c) (List.map_filter num_tree (us @ u # us')) v)
      (\<lambda>v'. Inr (v', Some j, ops @ j # kept (\<lambda>u. num_tree u = None) ops' us'))"
proof -
  from assms(1,2) have split: "list_all2 (denotes lo hi res) ops us" "denotes lo hi res j u"
    "list_all2 (denotes lo hi res) ops' us'" by (auto simp: list_all2_append)
  from split(2) obtain js where n: "py_nth res j = Inr (node_at u js)" by (rule denotes_node)
  have "List.map_filter num_tree us = []"
    using assms(3) by (induction us) (auto simp: List.map_filter_simps)
  then have "List.map_filter num_tree (us @ u # us') = the (num_tree u) # List.map_filter num_tree us'"
    using assms(4) by (auto simp: List.map_filter_def)
  then show ?thesis
    using assms(4) n fold_operands_none [OF split(1) assms(3)] fold_operands_rest [OF split(3)]
    by (auto simp: rfold_append fold_operand_at rbind_assoc)
qed

lemma place_total_split:
  "\<forall>u \<in> set us. num_tree u = None \<Longrightarrow> num_tree u \<noteq> None \<Longrightarrow>
     place_total v (us @ u # us') = us @ TConst v # filter (\<lambda>u. num_tree u = None) us'"
  by (induction us) auto

lemma first_number:
  assumes "\<not> (\<forall>u \<in> set us. num_tree u = None)"
  obtains us1 u us2 where "us = us1 @ u # us2" "\<forall>u \<in> set us1. num_tree u = None" "num_tree u \<noteq> None"
  using assms split_list_first_prop [of us "\<lambda>u. num_tree u \<noteq> None"] by auto

text \<open>The pass keeps the slots outside of the operator's own children.\<close>

lemma simplify_nary_first:
  assumes slots: "child_slots off res ts us" and len: "length res = off + sum_list (map tsize ts)"
    and us: "us = us1 @ u # us2" "\<forall>u \<in> set us1. num_tree u = None" "num_tree u \<noteq> None"
  shows "evals_to (fold_nary k f start us) (simplify_nary k f start (roots off ts) res) (placed_next off res)"
proof -
  let ?ops = "roots off ts" and ?m = "length us1" and ?keep = "\<lambda>u. num_tree u = None"
  have D: "list_all2 (denotes off (length res) res) ?ops us"
    by (rule child_slots_denotes [OF slots]) (use len in auto)
  from list_all2_lengthD [OF D] us(1) obtain ops1 j ops2 where ops: "?ops = ops1 @ j # ops2" "length ops1 = ?m"
    by (metis (no_types, lifting) append_eq_conv_conj id_take_nth_drop length_append length_Cons add_Suc_right
        less_add_Suc1 length_take min_less_iff_conj)
  have fold: "rfold (fold_operand f res) ?ops (CInt start, None, []) =
      rbind (rfold (\<lambda>c v. f v c) (List.map_filter num_tree us) (CInt start))
        (\<lambda>v. Inr (v, Some j, ops1 @ j # kept ?keep ops2 us2))"
    using fold_operands_first [OF _ ops(2) us(2,3)] D ops(1) us(1) by simp
  have total: "place_total v us = us1 @ TConst v # filter ?keep us2" for v
    using place_total_split [OF us(2,3)] us(1) by simp
  have some: "\<not> (\<forall>u \<in> set us. num_tree u = None)" using us by auto
  show ?thesis
  proof (cases "rfold (\<lambda>c v. f v c) (List.map_filter num_tree us) (CInt start)")
    case (Inl e)
    with fold show ?thesis by (simp add: fold_nary_def simplify_nary_def)
  next
    case (Inr v)
    let ?v = "normalize_num v" and ?is = "ops1 @ j # kept ?keep ops2 us2"
    from child_slots_update [OF slots, of ?m ?v] us(1) ops obtain i where
      i: "j = int i" "off \<le> i" "i < length res" "child_slots off (res[i := NConst ?v]) ts (us[?m := TConst ?v])"
      by (auto simp: nth_append)
    let ?res = "res[i := NConst ?v]"
    have "list_all2 (denotes off (length ?res) ?res) ?ops (us[?m := TConst ?v])"
      by (rule child_slots_denotes [OF i(4)]) (use len in auto)
    then have "list_all2 (denotes off (length ?res) ?res) (ops1 @ j # ops2) (us1 @ TConst ?v # us2)"
      using us(1) ops(1) by simp
    then have "list_all2 (denotes off (length ?res) ?res) ?is (place_total ?v us)"
      using ops(2) total by (auto simp: list_all2_append intro: list_all2_kept)
    then have step: "placed_next off ?res (TOp k (place_total ?v us)) (?res @ [NOp k ?is])"
      and lens: "length ?is = length (place_total ?v us)"
      using placed_nextI [of off ?res ?is "TOp k (place_total ?v us)"] i(2,3) by (auto dest: list_all2_lengthD)
    show ?thesis
    proof (cases "length ?is = 1")
      case True
      then have "length (place_total ?v us) = 1" using lens by (simp only:)
      with total have "place_total ?v us = [TConst ?v]" by (cases us1) auto
      then have "fold_nary k f start us = Inr (TConst ?v)"
        unfolding fold_nary_def if_not_P [OF some] using Inr by simp
      with True Inr fold placed_const [of off res ?v] len show ?thesis
        by (simp add: simplify_nary_def)
    next
      case False
      with lens have "(case place_total ?v us of [u] \<Rightarrow> u | us' \<Rightarrow> TOp k us') = TOp k (place_total ?v us)"
        by (cases "place_total ?v us" rule: list_cases2) auto
      then have "fold_nary k f start us = Inr (TOp k (place_total ?v us))"
        unfolding fold_nary_def if_not_P [OF some] using Inr by simp
      moreover have "placed_next off res (TOp k (place_total ?v us)) (?res @ [NOp k ?is])"
        using step i(2,3) by (simp add: placed_next_def)
      ultimately show ?thesis using False Inr fold i(1,3)
        by (auto simp: simplify_nary_def)
    qed
  qed
qed

lemma simplify_nary_denotes:
  assumes slots: "child_slots off res ts us" and len: "length res = off + sum_list (map tsize ts)"
  shows "evals_to (fold_nary k f start us) (simplify_nary k f start (roots off ts) res) (placed_next off res)"
proof (cases "\<forall>u \<in> set us. num_tree u = None")
  case True
  have D: "list_all2 (denotes off (length res) res) (roots off ts) us"
    by (rule child_slots_denotes [OF slots]) (use len in auto)
  have "List.map_filter num_tree us = []"
    using True by (induction us) (auto simp: List.map_filter_simps)
  with True fold_operands_none [OF D True] placed_nextI [of off res _ "TOp k us"] D len show ?thesis
    by (simp add: fold_nary_def simplify_nary_def)
next
  case False
  then obtain us1 u us2 where "us = us1 @ u # us2" "\<forall>u \<in> set us1. num_tree u = None" "num_tree u \<noteq> None"
    by (rule first_number)
  from simplify_nary_first [OF slots len this] show ?thesis .
qed

lemma simplify_call_denotes:
  assumes D: "list_all2 (denotes off (length res) res) ops us" and off: "off \<le> length res"
  shows "evals_to (fold_call ifs call f rt us) (simplify_call ifs call f rt ops res) (placed_next off res)"
proof -
  have "\<exists>vs. rmap (py_nth res) ops = Inr vs \<and> map const_of vs = map const_tree us"
    using D
  proof (induction rule: list_all2_induct)
    case (Cons i ops u us)
    from Cons.hyps(1) obtain js where "py_nth res i = Inr (node_at u js)" by (rule denotes_node)
    moreover have "const_of (node_at u js) = const_tree u" by (cases u) auto
    ultimately show ?case using Cons.IH by auto
  qed simp
  then obtain vs where vs: "rmap (py_nth res) ops = Inr vs" "map const_of vs = map const_tree us" by blast
  from vs(2) have "const_of ` set vs = const_tree ` set us" by (metis list.set_map)
  then have all: "(\<forall>v \<in> set vs. const_of v \<noteq> None) \<longleftrightarrow> (\<forall>u \<in> set us. const_tree u \<noteq> None)"
    by (metis image_iff)
  have args: "map (the \<circ> const_of) vs = map (the \<circ> const_tree) us"
    using arg_cong [OF vs(2), of "map the"] by simp
  have "placed_next off res (TIf f rt us) (res @ [NIf f rt ops])"
    using placed_nextI [OF _ off, of ops "TIf f rt us"] D by simp
  moreover have "evals_to (rbind m (\<lambda>v. Inr (TConst v))) (rbind m (\<lambda>v. Inr (res @ [NConst v]))) (placed_next off res)" for m
    using placed_const [OF off] by (cases m) simp_all
  ultimately show ?thesis
    unfolding fold_call_def simplify_call_def vs(1) rbind_simps all args
    by (cases "call \<and> (\<forall>u \<in> set us. const_tree u \<noteq> None)") (simp_all only: if_True if_False simp_thms evals_to_Inr, auto)
qed

lemma simplify_operator_denotes:
  assumes slots: "child_slots off res ts us" and len: "length res = off + sum_list (map tsize ts)"
    and k: "k \<in> set op_kinds" "arity_ok k (length us)" and ops: "\<forall>u \<in> set us. has_operands u"
  shows "evals_to (fold_op k us) (simplify_operator k (roots off ts) res) (placed_next off res)"
proof -
  have D: "list_all2 (denotes off (length res) res) (roots off ts) us"
    by (rule child_slots_denotes [OF slots]) (use len in auto)
  have off: "off \<le> length res" using len by simp
  note binary = simplify_binary_denotes [OF D off] and nary = simplify_nary_denotes [OF slots len]
  note junction = simplify_junction_denotes [OF D off]
  from k(1) have "k = ''and'' \<or> k = ''or'' \<or> k = ''not'' \<or> k = ''=='' \<or> k = ''<='' \<or> k = ''<'' \<or>
      k = ''+'' \<or> k = ''-'' \<or> k = ''*'' \<or> k = ''/''"
    by (simp only: op_kinds_def list.set insert_iff empty_iff simp_thms)
  then show ?thesis
  proof (elim disjE)
    assume k: "k = ''and''"
    with junction [of k False] show ?thesis by (simp add: fold_op_def simplify_operator_def)
  next
    assume k: "k = ''or''"
    with junction [of k True] show ?thesis by (simp add: fold_op_def simplify_operator_def)
  next
    assume "k = ''not''"
    with simplify_not_denotes [OF D off] k(2) show ?thesis
      by (cases us) (auto simp: fold_op_def simplify_operator_def arity_ok_def)
  next
    assume "k = ''==''"
    with simplify_equals_denotes [OF slots len _ ops] k(2) show ?thesis
      by (auto simp: fold_op_def simplify_operator_def arity_ok_def)
  qed (use binary nary k(2) in \<open>simp_all add: fold_op_def simplify_operator_def arity_ok_def\<close>)
qed


section \<open>The pass over a tree\<close>

lemma fold_junction_has_operands:
  "\<forall>u \<in> set us. has_operands u \<Longrightarrow> has_operands (fold_junction k d us)"
  by (auto simp: fold_junction_def filter_eq_Cons_iff split: list.split)

lemma fold_binary_has_operands: "fold_binary k f us = Inr u \<Longrightarrow> has_operands u"
  by (cases us rule: list_cases2) (auto simp: rbind_eq_Inr split: option.splits)

lemma fold_nary_has_operands:
  assumes "fold_nary k f start us = Inr u" "\<forall>u \<in> set us. has_operands u" "us \<noteq> []"
  shows "has_operands u"
proof -
  have "place_total v us \<noteq> []" for v using assms(3) by (cases us) auto
  then have "has_operands (case place_total v us of [u] \<Rightarrow> u | us' \<Rightarrow> TOp k us')" if "\<not> (\<forall>u \<in> set us. num_tree u = None)" for v
    using assms(2) that by (cases us) (auto split: list.split)
  with assms show ?thesis by (auto simp: fold_nary_def rbind_eq_Inr split: if_splits)
qed

lemma fold_op_has_operands:
  assumes "fold_op k us = Inr u" "arity_ok k (length us)" "\<forall>u \<in> set us. has_operands u"
  shows "has_operands u"
proof -
  have not: "has_operands u" if "fold_not us = Inr u" using that by (cases us) (auto split: option.splits)
  have eq: "has_operands u" if "fold_equals us = Inr u" using that by (cases us rule: list_cases2) (auto split: if_splits)
  have "us \<noteq> []" if "k \<noteq> ''and''" "k \<noteq> ''or''" using assms(2) that by (auto simp: arity_ok_def split: if_splits)
  then show ?thesis
    using assms(1) fold_junction_has_operands [OF assms(3)] not eq fold_binary_has_operands
      fold_nary_has_operands [OF _ assms(3)]
    by (auto simp: fold_op_def split: if_splits)
qed

lemma rmap_results:
  "rmap f xs = Inr ys \<Longrightarrow> (\<And>x y. x \<in> set xs \<Longrightarrow> f x = Inr y \<Longrightarrow> P y) \<Longrightarrow> length ys = length xs \<and> (\<forall>y \<in> set ys. P y)"
proof (induction xs arbitrary: ys)
  case (Cons x xs)
  from Cons.prems(1) obtain y zs where "ys = y # zs" "f x = Inr y" "rmap f xs = Inr zs" by (auto simp: rbind_eq_Inr)
  with Cons.IH [of zs] Cons.prems(2) show ?case by auto
qed simp

lemma fold_tree_has_operands: "arities t \<Longrightarrow> fold_tree ifs asg call t = Inr u \<Longrightarrow> has_operands u"
proof (induction t arbitrary: u)
  case (TOp k ts)
  from TOp.prems(2) obtain us where us: "rmap (fold_tree ifs asg call) ts = Inr us" "fold_op k us = Inr u"
    by (auto simp: rbind_eq_Inr)
  have "length us = length ts \<and> (\<forall>u \<in> set us. has_operands u)"
    using TOp.IH TOp.prems(1) by (intro rmap_results [OF us(1)]) (auto simp: list_all_iff)
  with us(2) TOp.prems(1) fold_op_has_operands show ?case by auto
next
  case (TIf f rt ts)
  then show ?case by (auto simp: fold_call_def rbind_eq_Inr split: if_splits)
qed (auto split: option.splits)

lemma rmap_has_operands:
  "rmap (fold_tree ifs asg call) ts = Inr us \<Longrightarrow> list_all arities ts \<Longrightarrow>
     length us = length ts \<and> (\<forall>u \<in> set us. has_operands u)"
  by (rule rmap_results) (auto simp: list_all_iff dest!: fold_tree_has_operands)

text \<open>The pass over the layout of a tree at \<open>off\<close> writes its slots and leaves the earlier ones alone.\<close>

lemma simplify_pass:
  "arities t \<Longrightarrow> length res = off \<Longrightarrow>
     evals_to (fold_tree ifs asg call t) (rfold (simplify_node ifs asg call) (flat off t) res)
       (\<lambda>u res'. length res' = off + tsize t \<and> take off res' = res \<and>
          denotes off (off + tsize t) res' (int (off + tsize t - 1)) u)"
  "list_all arities ts \<Longrightarrow> length res = off \<Longrightarrow>
     evals_to (rmap (fold_tree ifs asg call) ts) (rfold (simplify_node ifs asg call) (flats off ts) res)
       (\<lambda>us res'. length res' = off + sum_list (map tsize ts) \<and> take off res' = res \<and> child_slots off res' ts us)"
proof (induction off t and off ts arbitrary: res and res rule: flat_flats.induct)
  case (1 off c)
  then show ?case using placed_const [of off res] by (simp add: placed_next_def)
next
  case (2 off f)
  then show ?case using placed_const [of off res] placed_nextI [of off res "[]" "TFluent f"]
    by (auto simp: placed_next_def split: option.split)
next
  case (3 off k ts)
  from "3.prems" have ts: "list_all arities ts" and k: "arity_ok k (length ts)" "k \<in> set op_kinds" by auto
  note IH = "3.IH" [OF ts "3.prems"(2)]
  show ?case
  proof (cases "rmap (fold_tree ifs asg call) ts")
    case (Inl e)
    with IH show ?thesis by (simp add: rfold_append)
  next
    case (Inr us)
    with IH obtain res1 where r: "rfold (simplify_node ifs asg call) (flats off ts) res = Inr res1"
      "length res1 = off + sum_list (map tsize ts)" "take off res1 = res" "child_slots off res1 ts us" by auto
    from rmap_has_operands [OF Inr ts] simplify_operator_denotes [OF r(4,2) k(2), of ] k(1)
    have "evals_to (fold_op k us) (simplify_operator k (roots off ts) res1) (placed_next off res1)" by simp
    with r Inr show ?thesis by (cases "fold_op k us") (auto simp: rfold_append placed_next_def)
  qed
next
  case (4 off f rt ts)
  from "4.prems" have ts: "list_all arities ts" by auto
  note IH = "4.IH" [OF ts "4.prems"(2)]
  show ?case
  proof (cases "rmap (fold_tree ifs asg call) ts")
    case (Inl e)
    with IH show ?thesis by (simp add: rfold_append)
  next
    case (Inr us)
    with IH obtain res1 where r: "rfold (simplify_node ifs asg call) (flats off ts) res = Inr res1"
      "length res1 = off + sum_list (map tsize ts)" "take off res1 = res" "child_slots off res1 ts us" by auto
    have "list_all2 (denotes off (length res1) res1) (roots off ts) us"
      by (rule child_slots_denotes [OF r(4)]) (use r(2) in auto)
    from simplify_call_denotes [OF this, of ifs call f rt] r(2)
    have "evals_to (fold_call ifs call f rt us) (simplify_call ifs call f rt (roots off ts) res1) (placed_next off res1)"
      by simp
    with r Inr show ?thesis by (cases "fold_call ifs call f rt us") (auto simp: rfold_append placed_next_def)
  qed
next
  case (5 off)
  then show ?case by simp
next
  case (6 off t ts)
  then have t: "arities t" and ts: "list_all arities ts" by auto
  note IH = "6.IH"(1) [OF t "6.prems"(2)]
  show ?case
  proof (cases "fold_tree ifs asg call t")
    case (Inl e)
    with IH show ?thesis by (simp add: rfold_append)
  next
    case (Inr u)
    with IH obtain res1 where r: "rfold (simplify_node ifs asg call) (flat off t) res = Inr res1"
      "length res1 = off + tsize t" "take off res1 = res"
      "denotes off (off + tsize t) res1 (int (off + tsize t - 1)) u" by auto
    note IH2 = "6.IH"(2) [OF ts r(2)]
    show ?thesis
    proof (cases "rmap (fold_tree ifs asg call) ts")
      case (Inl e)
      with IH2 r Inr show ?thesis by (simp add: rfold_append)
    next
      case us: (Inr us)
      with IH2 obtain res2 where r2: "rfold (simplify_node ifs asg call) (flats (off + tsize t) ts) res1 = Inr res2"
        "length res2 = off + tsize t + sum_list (map tsize ts)" "take (off + tsize t) res2 = res1"
        "child_slots (off + tsize t) res2 ts us" by auto
      have same: "res2 ! j = res1 ! j" if "j < off + tsize t" for j
        using that r2(3) by (metis nth_take)
      have "denotes off (off + tsize t) res2 (int (off + tsize t - 1)) u"
        by (rule denotes_mono [OF r(4)]) (use r2(2) same in auto)
      moreover have "take off res2 = res"
        using r(3) r2(3) by (metis min.absorb1 le_add1 take_take)
      ultimately show ?thesis using r r2 Inr us by (simp add: rfold_append)
    qed
  qed
qed


section \<open>The walk lays the tree out\<close>

lemma run_rounds_next: "rnd s = Inr (Inr s') \<Longrightarrow> run_rounds rnd s = run_rounds rnd s'"
  by (simp add: run_rounds_def run_loop_next)

lemma run_rounds_exit: "rnd s = Inr (Inl r) \<Longrightarrow> run_rounds rnd s = Inr r"
  by (simp add: run_rounds_def run_loop_exit)

abbreviation rebuilding :: "expression \<Rightarrow> (int \<times> bool) list \<Rightarrow> int list \<Rightarrow> expression \<Rightarrow> expression res" where
  "rebuilding res stack os out \<equiv>
     run_rounds (rebuild_round res) \<lparr>rb_stack = stack, rb_operands = os, rb_out = out\<rparr>"

definition rebuilds :: "expression \<Rightarrow> int \<Rightarrow> etree \<Rightarrow> bool" where
  "rebuilds res i u \<longleftrightarrow> (\<forall>stack os out. rebuilding res ((i, False) # stack) os out =
     rebuilding res stack (int (length out + tsize u - 1) # os) (out @ flat (length out) u))"

lemma rebuild_leaf:
  assumes "py_nth res i = Inr n" "is_leaf_node n" "flat 0 u = [n]" "\<And>off. flat off u = [n]"
  shows "rebuilds res i u"
  unfolding rebuilds_def
proof (intro allI)
  fix stack os out
  have "tsize u = 1" using arg_cong [OF assms(3), of length] by simp
  then show "rebuilding res ((i, False) # stack) os out =
      rebuilding res stack (int (length out + tsize u - 1) # os) (out @ flat (length out) u)"
    by (intro run_rounds_next) (simp add: rebuild_round_def assms)
qed

lemma rebuild_children:
  assumes "list_all2 (rebuilds res) ops us"
  shows "rebuilding res (map (\<lambda>i. (i, False)) ops @ stack) os out =
    rebuilding res stack (rev (roots (length out) us) @ os) (out @ flats (length out) us)"
  using assms
proof (induction arbitrary: os out rule: list_all2_induct)
  case (Cons i ops u us)
  then have "rebuilding res (map (\<lambda>i. (i, False)) (i # ops) @ stack) os out =
      rebuilding res (map (\<lambda>i. (i, False)) ops @ stack) (int (length out + tsize u - 1) # os) (out @ flat (length out) u)"
    by (simp add: rebuilds_def)
  also have "\<dots> = rebuilding res stack (rev (roots (length out) (u # us)) @ os) (out @ flats (length out) (u # us))"
    using Cons.IH [of "int (length out + tsize u - 1) # os" "out @ flat (length out) u"] by simp
  finally show ?case .
qed simp

lemma rebuild_inner:
  assumes n: "py_nth res i = Inr n" "\<not> is_leaf_node n" and ops: "list_all2 (rebuilds res) (node_operands n) us"
    and flat: "\<And>off. flat off u = flats off us @ [with_operands n (roots off us)]"
  shows "rebuilds res i u"
  unfolding rebuilds_def
proof (intro allI)
  fix stack os out
  let ?out = "out @ flats (length out) us" and ?rs = "roots (length out) us"
  have size: "tsize u = Suc (sum_list (map tsize us))" using arg_cong [OF flat [of 0], of length] by simp
  have len: "length (node_operands n) = length ?rs" using list_all2_lengthD [OF ops] by simp
  have "rebuilding res ((i, False) # stack) os out =
      rebuilding res (map (\<lambda>i. (i, False)) (node_operands n) @ (i, True) # stack) os out"
    by (rule run_rounds_next) (simp add: rebuild_round_def n)
  also have "\<dots> = rebuilding res ((i, True) # stack) (rev ?rs @ os) ?out"
    by (rule rebuild_children [OF ops])
  also have "\<dots> = rebuilding res stack (int (length ?out) # os) (?out @ [with_operands n ?rs])"
    by (rule run_rounds_next) (simp add: rebuild_round_def n len del: length_roots)
  finally show "rebuilding res ((i, False) # stack) os out =
      rebuilding res stack (int (length out + tsize u - 1) # os) (out @ flat (length out) u)"
    by (simp add: flat size)
qed

lemma denotes_rebuilds: "denotes lo hi res i u \<Longrightarrow> rebuilds res i u"
proof (induction rule: denotes.induct)
  case (denotesI i u ops)
  then have n: "py_nth res i = Inr (node_at u ops)" by (simp add: py_nth_in_range)
  have ops: "list_all2 (rebuilds res) ops (subtrees u)"
    using denotesI(5) by (rule list_all2_mono) simp
  show ?case
  proof (cases u)
    case (TConst c)
    with n show ?thesis by (intro rebuild_leaf [of res i "NConst c"]) auto
  next
    case (TFluent f)
    with n show ?thesis by (intro rebuild_leaf [of res i "NFluent f"]) auto
  next
    case (TOp k us)
    with n ops show ?thesis by (intro rebuild_inner [of res i "NOp k ops" us]) auto
  next
    case (TIf f rt us)
    with n ops show ?thesis by (intro rebuild_inner [of res i "NIf f rt ops" us]) auto
  qed
qed

lemma rebuild_from_denotes:
  assumes "denotes lo hi res i u"
  shows "rebuild_from res i = Inr (flatten u)"
proof -
  have "rebuild_from res i = rebuilding res [] [int (tsize u - 1)] (flat 0 u)"
    using denotes_rebuilds [OF assms] by (simp add: rebuild_from_def rebuilds_def)
  also have "\<dots> = Inr (flat 0 u)" by (rule run_rounds_exit) (simp add: rebuild_round_def)
  finally show ?thesis by (simp add: flatten_def)
qed

theorem simplify_flatten:
  assumes "arities t"
  shows "simplify ifs (flatten t) asg call = rbind (fold_tree ifs asg call t) (\<lambda>u. Inr (flatten u))"
proof (cases "fold_tree ifs asg call t")
  case (Inl e)
  with simplify_pass(1) [OF assms, of "[]" 0 ifs asg call] show ?thesis by (simp add: simplify_def flatten_def)
next
  case (Inr u)
  with simplify_pass(1) [OF assms, of "[]" 0 ifs asg call] obtain res where
    res: "rfold (simplify_node ifs asg call) (flat 0 t) [] = Inr res" "length res = tsize t"
    and "denotes 0 (tsize t) res (int (tsize t - 1)) u" by auto
  from rebuild_from_denotes [OF this(3)] res Inr tsize_ge_1 [of t] show ?thesis
    by (simp add: simplify_def flatten_def of_nat_diff)
qed

end
