(* ===== verification/Simplify_Value.thy ===== *)
theory Simplify_Value
  imports Simplify_Facts
begin

text \<open>
  Folding a typed tree keeps its value under every assignment that agrees with the known
  fluents, and leaves no known fluent behind.
\<close>

section \<open>The folded tree\<close>

definition closed_over :: "fluent set \<Rightarrow> etree \<Rightarrow> bool" where
  "closed_over A u \<longleftrightarrow> wf_tree u \<and> set (tree_fluents u) \<subseteq> A"

lemma closed_over_simps [simp]:
  "closed_over A (TConst c)"
  "closed_over A (TFluent f) \<longleftrightarrow> f \<in> A"
  "closed_over A (TOp k us) \<longleftrightarrow> k \<in> set op_kinds \<and> (\<forall>u \<in> set us. closed_over A u)"
  "closed_over A (TIf g rt us) \<longleftrightarrow> (\<forall>u \<in> set us. closed_over A u)"
  by (auto simp: closed_over_def list_all_iff)

lemma set_place_total: "set (place_total v us) \<subseteq> insert (TConst v) (set us)"
  by (induction us) auto

lemma place_total_Nil [simp]: "place_total v us = [] \<longleftrightarrow> us = []"
  by (cases us) auto

lemma fold_op_closed:
  assumes "fold_op k us = Inr u" "k \<in> set op_kinds" "\<forall>u \<in> set us. closed_over A u"
  shows "closed_over A u"
proof -
  have "closed_over A (fold_junction k d us)" for d
  proof -
    let ?us = "filter (\<lambda>u. bool_tree u = None) us"
    have "\<forall>u \<in> set ?us. closed_over A u" using assms(3) by simp
    with assms(2) show ?thesis by (cases ?us rule: list_cases2) (simp_all add: fold_junction_def)
  qed
  moreover have "closed_over A u" if "fold_not us = Inr u"
    using assms(2,3) that by (cases us) (auto split: option.splits simp: op_kinds_def)
  moreover have "closed_over A u" if "fold_equals us = Inr u"
    using assms(3) that by (cases us rule: list_cases2) (auto split: if_splits simp: op_kinds_def)
  moreover have "closed_over A u" if "fold_binary k f us = Inr u" for f
    using assms(2,3) that by (cases us rule: list_cases2) (auto simp: rbind_eq_Inr split: option.splits)
  moreover have "closed_over A u" if "fold_nary k f i us = Inr u" for f i
  proof -
    have "closed_over A (case place_total v us of [u] \<Rightarrow> u | us' \<Rightarrow> TOp k us')" for v
      using set_place_total [of v us] assms(2,3)
      by (cases "place_total v us" rule: list_cases2) auto
    with that assms(2,3) show ?thesis by (auto simp: fold_nary_def rbind_eq_Inr split: if_splits)
  qed
  ultimately show ?thesis using assms(1) by (auto simp: fold_op_def split: if_splits)
qed

lemma fold_tree_closed:
  "arities t \<Longrightarrow> fold_tree ifs known call t = Inr u \<Longrightarrow>
     closed_over (set (tree_fluents t) - dom (dict_get known)) u"
proof (induction t arbitrary: u)
  case (TOp k ts)
  let ?A = "set (tree_fluents (TOp k ts)) - dom (dict_get known)"
  from TOp.prems(2) obtain us where us: "rmap (fold_tree ifs known call) ts = Inr us" "fold_op k us = Inr u"
    by (auto simp: rbind_eq_Inr)
  have "closed_over ?A u" if "t \<in> set ts" "fold_tree ifs known call t = Inr u" for t u
    using TOp.IH [OF that(1) _ that(2)] TOp.prems(1) that(1) by (auto simp: closed_over_def list_all_iff)
  with rmap_results [OF us(1), of "closed_over ?A"] have "\<forall>u \<in> set us. closed_over ?A u" by simp
  with us(2) TOp.prems(1) fold_op_closed show ?case by simp
next
  case (TIf f rt ts)
  let ?A = "set (tree_fluents (TIf f rt ts)) - dom (dict_get known)"
  from TIf.prems(2) obtain us where us: "rmap (fold_tree ifs known call) ts = Inr us" "fold_call ifs call f rt us = Inr u"
    by (auto simp: rbind_eq_Inr)
  have "closed_over ?A u" if "t \<in> set ts" "fold_tree ifs known call t = Inr u" for t u
    using TIf.IH [OF that(1) _ that(2)] TIf.prems(1) that(1) by (auto simp: closed_over_def list_all_iff)
  with rmap_results [OF us(1), of "closed_over ?A"] have "\<forall>u \<in> set us. closed_over ?A u" by simp
  with us(2) show ?case by (auto simp: fold_call_def rbind_eq_Inr split: if_splits)
qed (auto split: option.splits)

lemma typed_arities: "tree_ty G t = Some ty \<Longrightarrow> arities t"
proof (induction t arbitrary: ty)
  case (TOp k ts)
  from TOp.prems obtain tys where tys: "list_all2 (\<lambda>t ty. tree_ty G t = Some ty) ts tys" "op_ty k tys = Some ty"
    by (rule tree_ty_OpE)
  have "list_all arities ts" using TOp.IH typed_operand [OF tys(1)] unfolding list_all_iff by blast
  moreover have "arity_ok k (length tys)"
    using tys(2) by (cases rule: op_ty_cases) (auto simp: arity_ok_def)
  ultimately show ?case using op_ty_kinds [OF tys(2)] list_all2_lengthD [OF tys(1)] by simp
next
  case (TIf f rt ts)
  then show ?case by (elim tree_ty_IfE) (auto simp: list_all_iff dest!: typed_operand)
qed auto


section \<open>Values of folded operators\<close>

definition has_values :: "ifenv \<Rightarrow> const list \<Rightarrow> etree list \<Rightarrow> const list \<Rightarrow> bool" where
  "has_values ifs asg us vs \<longleftrightarrow> list_all2 (\<lambda>u v. teval ifs asg u = Inr v) us vs"

lemma has_values_simps [simp]:
  "has_values ifs asg [] vs \<longleftrightarrow> vs = []"
  "has_values ifs asg (u # us) vs \<longleftrightarrow> (\<exists>v vs'. vs = v # vs' \<and> teval ifs asg u = Inr v \<and> has_values ifs asg us vs')"
  unfolding has_values_def by (simp, simp add: list_all2_Cons1)

lemma has_values_Nil [simp]: "has_values ifs asg us [] \<longleftrightarrow> us = []"
  by (cases us) auto

lemma has_values_append:
  "has_values ifs asg (us @ us') vs \<longleftrightarrow> (\<exists>ws ws'. vs = ws @ ws' \<and> has_values ifs asg us ws \<and> has_values ifs asg us' ws')"
proof (induction us arbitrary: vs)
  case (Cons u us)
  show ?case by (cases vs) (auto simp: Cons.IH Cons_eq_append_conv)
qed auto

lemma has_values_rmap: "rmap (teval ifs asg) us = Inr vs \<longleftrightarrow> has_values ifs asg us vs"
proof (induction us arbitrary: vs)
  case (Cons u us)
  then show ?case by (auto simp: rbind_eq_Inr)
qed auto

lemma teval_Op: "has_values ifs asg us vs \<Longrightarrow> teval ifs asg (TOp k us) = op_apply k vs"
  by (simp flip: has_values_rmap)

lemma bool_tree_value: "bool_tree u = Some b \<Longrightarrow> teval ifs asg u = Inr (CBool b)"
  by (cases u rule: bool_tree.cases) auto

lemma num_tree_value: "num_tree u = Some c \<Longrightarrow> teval ifs asg u = Inr c"
  by (cases u) (auto split: if_splits)

lemma junction_apply:
  assumes "\<forall>v \<in> set vs. \<exists>b. v = CBool b" "k = (if d then ''or'' else ''and'')"
  shows "op_apply k vs = Inr (CBool (if CBool d \<in> set vs then d else \<not> d))"
proof -
  have "list_ex truthy vs \<longleftrightarrow> CBool True \<in> set vs" "list_all truthy vs \<longleftrightarrow> CBool False \<notin> set vs"
    using assms(1) by (induction vs) auto
  with assms(2) show ?thesis by (cases d) (auto simp: op_apply_def)
qed

text \<open>Dropping the constants that do not decide keeps whether some operand decides.\<close>

lemma open_values:
  assumes "has_values ifs asg us vs" "\<forall>v \<in> set vs. \<exists>b. v = CBool b" "\<forall>u \<in> set us. bool_tree u \<noteq> Some d"
  shows "\<exists>ws. has_values ifs asg (filter (\<lambda>u. bool_tree u = None) us) ws \<and> set ws \<subseteq> set vs \<and>
    (CBool d \<in> set ws \<longleftrightarrow> CBool d \<in> set vs)"
  using assms
proof (induction us arbitrary: vs)
  case (Cons u us)
  then obtain v vs' where v: "vs = v # vs'" "teval ifs asg u = Inr v" "has_values ifs asg us vs'" by auto
  have "\<forall>v \<in> set vs'. \<exists>b. v = CBool b" "\<forall>u \<in> set us. bool_tree u \<noteq> Some d"
    using Cons.prems(2,3) v(1) by simp_all
  from Cons.IH [OF v(3) this] obtain ws where
    ws: "has_values ifs asg (filter (\<lambda>u. bool_tree u = None) us) ws" "set ws \<subseteq> set vs'"
    "CBool d \<in> set ws \<longleftrightarrow> CBool d \<in> set vs'" by blast
  show ?case
  proof (cases "bool_tree u")
    case None
    with v ws show ?thesis by (intro exI [of _ "v # ws"]) auto
  next
    case (Some b)
    with bool_tree_value [OF this, of ifs asg] v(2) Cons.prems(3) have "v = CBool b" "b \<noteq> d" by auto
    with v ws Some show ?thesis by (intro exI [of _ ws]) auto
  qed
qed auto

lemma fold_junction_value:
  assumes vals: "has_values ifs asg us vs" and bools: "\<forall>v \<in> set vs. \<exists>b. v = CBool b"
    and k: "k = (if d then ''or'' else ''and'')"
  shows "teval ifs asg (fold_junction k d us) = op_apply k vs"
proof (cases "\<exists>u \<in> set us. bool_tree u = Some d")
  case True
  then obtain u where "u \<in> set us" "teval ifs asg u = Inr (CBool d)" using bool_tree_value by blast
  with vals have "CBool d \<in> set vs" by (auto simp: has_values_def list_all2_conv_all_nth in_set_conv_nth)
  with junction_apply [OF bools k] True show ?thesis by (simp add: fold_junction_def)
next
  case False
  let ?us = "filter (\<lambda>u. bool_tree u = None) us"
  from open_values [OF vals bools, of d] False obtain ws where ws: "has_values ifs asg ?us ws" "set ws \<subseteq> set vs"
    "CBool d \<in> set ws \<longleftrightarrow> CBool d \<in> set vs" by blast
  then have bws: "\<forall>v \<in> set ws. \<exists>b. v = CBool b" using bools by blast
  have "op_apply k vs = op_apply k ws"
    using junction_apply [OF bools k] junction_apply [OF bws k] ws(3) by simp
  moreover have "teval ifs asg (case ?us of [] \<Rightarrow> TConst (CBool (\<not> d)) | [u] \<Rightarrow> u | us' \<Rightarrow> TOp k us') = op_apply k ws"
  proof (cases ?us rule: list_cases2)
    case Nil
    with ws(1) junction_apply [OF bws k] show ?thesis by simp
  next
    case (one u)
    with ws(1) obtain v where "ws = [v]" "teval ifs asg u = Inr v" by auto
    with bws junction_apply [OF bws k] one show ?thesis by auto
  next
    case (more u u' us')
    with teval_Op [OF ws(1), of k] show ?thesis by simp
  qed
  ultimately show ?thesis using False by (auto simp: fold_junction_def)
qed

text \<open>Sums and products as the operation of a monoid on the rationals of the operands.\<close>

definition rat_of :: "const \<Rightarrow> rat" where
  "rat_of v = the (as_rat v)"

definition total :: "(rat \<Rightarrow> rat \<Rightarrow> rat) \<Rightarrow> rat \<Rightarrow> const list \<Rightarrow> rat" where
  "total fr z vs = foldr (\<lambda>v. fr (rat_of v)) vs z"

lemma total_simps [simp]:
  "total fr z [] = z"
  "total fr z (v # vs) = fr (rat_of v) (total fr z vs)"
  by (simp_all add: total_def)

lemma normalize_rat: "pure_num v \<Longrightarrow> normalize_num v = canonical_rational (rat_of v)"
  by (cases v) (auto simp: pure_num_def rat_of_def canonical_rational_def)

lemma rat_of_canonical [simp]: "rat_of (canonical_rational q) = q"
  by (simp add: rat_of_def)

lemma pure_num_canonical [simp]: "pure_num (canonical_rational q)"
  by (simp add: pure_num_def canonical_rational_def)

text \<open>An operator on \<open>int\<close> and \<open>Fraction\<close> that computes a commutative monoid of rationals.\<close>

locale monoid_arith =
  fixes fi :: "int \<Rightarrow> int \<Rightarrow> int" and fr :: "rat \<Rightarrow> rat \<Rightarrow> rat" and z :: int
  assumes ints: "of_int (fi i j) = fr (of_int i) (of_int j)"
    and assoc: "fr (fr p q) r = fr p (fr q r)"
    and commute: "fr p q = fr q p"
    and neutral: "fr (of_int z) p = p"
begin

lemma left_commute: "fr p (fr q r) = fr q (fr p r)"
  by (metis assoc commute)

lemma step:
  assumes "pure_num a" "pure_num b"
  shows "\<exists>v. py_arith fi fr a b = Inr v \<and> pure_num v \<and> rat_of v = fr (rat_of a) (rat_of b)"
proof -
  from assms obtain p q where pq: "as_rat a = Some p" "as_rat b = Some q" by (auto simp: pure_num_def)
  obtain v where v: "py_arith fi fr a b = Inr v" "as_rat v = Some (fr p q)"
    using py_arith_as_rat [of fi fr, OF ints pq] by blast
  moreover have "pure_num v" using py_arith_num [of a b fi fr] pq v(1) by auto
  ultimately show ?thesis using pq by (simp add: rat_of_def)
qed

lemma fold_from:
  assumes "pure_num a" "\<forall>v \<in> set vs. pure_num v"
  shows "\<exists>v. rfold (\<lambda>c v. py_arith fi fr v c) vs a = Inr v \<and> pure_num v \<and>
    rat_of v = fr (rat_of a) (total fr (of_int z) vs)"
  using assms
proof (induction vs arbitrary: a)
  case Nil
  then show ?case by (simp add: commute [of _ "of_int z"] neutral)
next
  case (Cons c vs)
  from step [OF Cons.prems(1), of c] Cons.prems(2) obtain v where
    v: "py_arith fi fr a c = Inr v" "pure_num v" "rat_of v = fr (rat_of a) (rat_of c)" by auto
  from Cons.IH [OF v(2)] Cons.prems(2) v show ?case by (auto simp: assoc)
qed

lemma fold_constants:
  assumes "\<forall>v \<in> set vs. pure_num v"
  shows "\<exists>v. rfold (\<lambda>c v. py_arith fi fr v c) vs (CInt z) = Inr v \<and>
    normalize_num v = canonical_rational (total fr (of_int z) vs)"
proof -
  have "pure_num (CInt z)" "rat_of (CInt z) = of_int z" by (simp_all add: pure_num_def rat_of_def)
  with fold_from [OF this(1) assms] show ?thesis by (auto simp: normalize_rat neutral)
qed

lemma op_fold_total:
  assumes "\<forall>v \<in> set vs. pure_num v" "vs \<noteq> []"
  shows "rbind (op_fold (py_arith fi fr) vs) (\<lambda>v. Inr (normalize_num v)) =
    Inr (canonical_rational (total fr (of_int z) vs))"
proof (cases vs)
  case (Cons a ws)
  with assms fold_from [of a ws] show ?thesis by (auto simp: normalize_rat)
qed (use assms in simp)

text \<open>The constants apart, the open operands apart.\<close>

lemma constants_apart:
  assumes "has_values ifs asg us vs"
  shows "\<exists>ws. has_values ifs asg (filter (\<lambda>u. num_tree u = None) us) ws \<and> set ws \<subseteq> set vs \<and>
    set (List.map_filter num_tree us) \<subseteq> set vs \<and>
    total fr (of_int z) vs = fr (total fr (of_int z) (List.map_filter num_tree us)) (total fr (of_int z) ws)"
  using assms
proof (induction us arbitrary: vs)
  case Nil
  then show ?case by (simp add: neutral List.map_filter_simps)
next
  case (Cons u us)
  then obtain v vs' where v: "vs = v # vs'" "teval ifs asg u = Inr v" "has_values ifs asg us vs'" by auto
  from Cons.IH [OF v(3)] obtain ws where ws: "has_values ifs asg (filter (\<lambda>u. num_tree u = None) us) ws"
    "set ws \<subseteq> set vs'" "set (List.map_filter num_tree us) \<subseteq> set vs'"
    "total fr (of_int z) vs' = fr (total fr (of_int z) (List.map_filter num_tree us)) (total fr (of_int z) ws)"
    by blast
  show ?case
  proof (cases "num_tree u")
    case None
    with v ws show ?thesis
      by (intro exI [of _ "v # ws"]) (auto simp: List.map_filter_simps left_commute)
  next
    case (Some c)
    with num_tree_value [OF this, of ifs asg] v(2) have "c = v" by simp
    with v ws Some show ?thesis
      by (intro exI [of _ ws]) (auto simp: List.map_filter_simps assoc)
  qed
qed

text \<open>Putting the total in the place of the first constant keeps the total.\<close>

lemma place_total_values:
  assumes "has_values ifs asg us vs" "\<not> (\<forall>u \<in> set us. num_tree u = None)"
    and "rat_of w = total fr (of_int z) (List.map_filter num_tree us)"
  shows "\<exists>ws. has_values ifs asg (place_total w us) ws \<and> set ws \<subseteq> insert w (set vs) \<and>
    total fr (of_int z) ws = total fr (of_int z) vs"
  using assms
proof (induction us arbitrary: vs)
  case (Cons u us)
  then obtain v vs' where v: "vs = v # vs'" "teval ifs asg u = Inr v" "has_values ifs asg us vs'" by auto
  show ?case
  proof (cases "num_tree u")
    case None
    with Cons.IH [OF v(3)] Cons.prems(2,3) obtain ws where "has_values ifs asg (place_total w us) ws"
      "set ws \<subseteq> insert w (set vs')" "total fr (of_int z) ws = total fr (of_int z) vs'"
      by (auto simp: List.map_filter_simps)
    with None v show ?thesis by (intro exI [of _ "v # ws"]) auto
  next
    case (Some c)
    from num_tree_value [OF this, of ifs asg] v(2) have c: "c = v" by simp
    from constants_apart [OF v(3)] obtain ws where "has_values ifs asg (filter (\<lambda>u. num_tree u = None) us) ws"
      "set ws \<subseteq> set vs'"
      "total fr (of_int z) vs' = fr (total fr (of_int z) (List.map_filter num_tree us)) (total fr (of_int z) ws)"
      by blast
    with Some c v Cons.prems(3) show ?thesis
      by (intro exI [of _ "w # ws"]) (auto simp: List.map_filter_simps assoc)
  qed
qed simp

lemma fold_nary_value:
  assumes vals: "has_values ifs asg us vs" and nums: "\<forall>v \<in> set vs. pure_num v" "vs \<noteq> []"
    and k: "\<And>vs. op_apply k vs = rbind (op_fold (py_arith fi fr) vs) (\<lambda>v. Inr (normalize_num v))"
  shows "\<exists>u. fold_nary k (py_arith fi fr) z us = Inr u \<and> teval ifs asg u = op_apply k vs"
proof -
  let ?cs = "List.map_filter num_tree us"
  have applied: "op_apply k ws = Inr (canonical_rational (total fr (of_int z) ws))"
    if "\<forall>v \<in> set ws. pure_num v" "ws \<noteq> []" for ws using op_fold_total [OF that] k by simp
  have "\<forall>v \<in> set ?cs. pure_num v" using constants_apart [OF vals] nums(1) by blast
  from fold_constants [OF this] obtain v where v: "rfold (\<lambda>c v. py_arith fi fr v c) ?cs (CInt z) = Inr v"
    "normalize_num v = canonical_rational (total fr (of_int z) ?cs)" by blast
  show ?thesis
  proof (cases "\<forall>u \<in> set us. num_tree u = None")
    case True
    with v(1) teval_Op [OF vals, of k] show ?thesis by (simp add: fold_nary_def)
  next
    case False
    let ?w = "normalize_num v"
    from place_total_values [OF vals False, of ?w] v(2) obtain ws where
      ws: "has_values ifs asg (place_total ?w us) ws" "set ws \<subseteq> insert ?w (set vs)"
        "total fr (of_int z) ws = total fr (of_int z) vs" by auto
    have fold: "fold_nary k (py_arith fi fr) z us =
        Inr (case place_total ?w us of [u] \<Rightarrow> u | us' \<Rightarrow> TOp k us')"
      unfolding fold_nary_def if_not_P [OF False] using v(1) by simp
    show ?thesis
    proof (cases "place_total ?w us" rule: list_cases2)
      case Nil
      with False show ?thesis by (cases us) (auto split: if_splits)
    next
      case (one u)
      with False have "u = TConst ?w" by (cases us) (auto split: if_splits simp: dest: sym)
      with one ws(1) have "ws = [?w]" by simp
      with ws(3) v(2) have "total fr (of_int z) vs = total fr (of_int z) ?cs"
        by (simp add: commute [of _ "of_int z"] neutral)
      with fold one \<open>u = TConst ?w\<close> v(2) applied [OF nums] show ?thesis by simp
    next
      case (more u u' us')
      have "\<forall>v \<in> set ws. pure_num v" using ws(2) v(2) nums(1) by auto
      moreover have "ws \<noteq> []" using more ws(1) by auto
      ultimately have "op_apply k ws = op_apply k vs" using applied nums ws(3) by simp
      with fold more teval_Op [OF ws(1), of k] show ?thesis by simp
    qed
  qed
qed

end

interpretation sums: monoid_arith "(+)" "(+)" 0
  by unfold_locales auto

interpretation products: monoid_arith "(*)" "(*)" 1
  by unfold_locales auto


section \<open>Folding keeps the value\<close>

lemma same_leaf_value:
  assumes "same_leaf u v" "teval ifs asg u = Inr a" "teval ifs asg v = Inr b"
  shows "py_eq a b"
  using assms by (cases "(u, v)" rule: same_leaf.cases) auto

lemma fold_equals_value:
  assumes "teval ifs asg u = Inr a" "teval ifs asg v = Inr b"
  shows "\<exists>w. fold_equals [u, v] = Inr w \<and> teval ifs asg w = Inr (CBool (py_eq a b))"
proof -
  have "teval ifs asg (TOp ''=='' [u, v]) = Inr (CBool (py_eq a b))"
    using assms by (simp add: op_apply_def)
  moreover have "same_leaf u v \<longleftrightarrow> py_eq a b" if "num_tree u \<noteq> None" "num_tree v \<noteq> None"
    using that assms by (cases u; cases v) (auto split: if_splits)
  ultimately show ?thesis
    using same_leaf_value [OF _ assms] by (cases "same_leaf u v") auto
qed

lemma fold_binary_value:
  assumes "teval ifs asg u = Inr a" "teval ifs asg v = Inr b"
    and f: "op_apply k [a, b] = rbind (f a b) (\<lambda>r. Inr (normalize_num r))" and ok: "op_apply k [a, b] = Inr c"
  shows "\<exists>w. fold_binary k f [u, v] = Inr w \<and> teval ifs asg w = Inr c"
proof -
  have op: "teval ifs asg (TOp k [u, v]) = Inr c" using assms by simp
  show ?thesis
  proof (cases "num_tree u = None \<or> num_tree v = None")
    case True
    with op show ?thesis by (auto split: option.split)
  next
    case False
    then obtain x y where "num_tree u = Some x" "num_tree v = Some y" by auto
    moreover from num_tree_value [OF this(1), of ifs asg] num_tree_value [OF this(2), of ifs asg] assms(1,2)
    have "x = a" "y = b" by auto
    moreover from f [unfolded ok] obtain r where "f a b = Inr r" "c = normalize_num r" by (cases "f a b") auto
    ultimately show ?thesis by simp
  qed
qed

lemma op_apply_simps:
  "op_apply ''=='' vs = op_binary (\<lambda>a b. Inr (CBool (py_eq a b))) vs"
  "op_apply ''+'' vs = rbind (op_fold py_add vs) (\<lambda>v. Inr (normalize_num v))"
  "op_apply ''*'' vs = rbind (op_fold py_mul vs) (\<lambda>v. Inr (normalize_num v))"
  "op_apply ''<='' [a, b] = rbind (rbind (py_compare (\<le>) a b) (\<lambda>r. Inr (CBool r))) (\<lambda>r. Inr (normalize_num r))"
  "op_apply ''<'' [a, b] = rbind (rbind (py_compare (<) a b) (\<lambda>r. Inr (CBool r))) (\<lambda>r. Inr (normalize_num r))"
  "op_apply ''-'' [a, b] = rbind (py_sub a b) (\<lambda>r. Inr (normalize_num r))"
  "op_apply ''/'' [a, b] = rbind (py_fraction a b) (\<lambda>r. Inr (normalize_num r))"
  by (simp_all add: op_apply_def rbind_assoc)

lemma fold_op_binary_value:
  assumes ops: "teval ifs asg u = Inr a" "teval ifs asg v = Inr b" and ok: "op_apply k [a, b] = Inr c"
    and k: "k \<in> {''<='', ''<'', ''-'', ''/''}"
  shows "\<exists>w. fold_op k [u, v] = Inr w \<and> teval ifs asg w = Inr c"
proof -
  have result: ?thesis
    if "fold_op k [u, v] = fold_binary k f [u, v]" "op_apply k [a, b] = rbind (f a b) (\<lambda>r. Inr (normalize_num r))" for f
    using fold_binary_value [where f = f and k = k, OF ops that(2) ok] that(1) by simp
  from k consider "k = ''<=''" | "k = ''<''" | "k = ''-''" | "k = ''/''" by blast
  then show ?thesis
  proof cases
    case 1
    show ?thesis
      by (rule result [of "\<lambda>a b. rbind (py_compare (\<le>) a b) (\<lambda>r. Inr (CBool r))"])
        (simp_all only: 1 op_apply_simps, simp add: fold_op_def)
  next
    case 2
    show ?thesis
      by (rule result [of "\<lambda>a b. rbind (py_compare (<) a b) (\<lambda>r. Inr (CBool r))"])
        (simp_all only: 2 op_apply_simps, simp add: fold_op_def)
  next
    case 3
    show ?thesis by (rule result [of py_sub]) (simp_all only: 3 op_apply_simps, simp add: fold_op_def)
  next
    case 4
    show ?thesis by (rule result [of py_fraction]) (simp_all only: 4 op_apply_simps, simp add: fold_op_def)
  qed
qed

lemma typed_pair_values:
  assumes "has_values ifs asg us vs" "list_all2 (\<lambda>v ty. const_ty v = Some ty) vs [ty1, ty2]"
  obtains u u' p q where "us = [u, u']" "vs = [p, q]" "teval ifs asg u = Inr p" "teval ifs asg u' = Inr q"
proof -
  from assms(2) obtain p q where "vs = [p, q]" by (rule typed_pair)
  with assms(1) show thesis by (cases us rule: list_cases3) (auto intro: that)
qed

lemma fold_op_value:
  assumes vals: "has_values ifs asg us vs" and typed: "list_all2 (\<lambda>v ty. const_ty v = Some ty) vs tys"
    and ty: "op_ty k tys = Some ty" and v: "op_apply k vs = Inr v"
  shows "\<exists>u. fold_op k us = Inr u \<and> teval ifs asg u = Inr v"
  using ty
proof (cases rule: op_ty_cases)
  case junction
  have "\<forall>v \<in> set vs. \<exists>b. v = CBool b"
    using typed junction(2) by (induction rule: list_all2_induct) (auto simp: const_ty_bool)
  note junction_value = fold_junction_value [OF vals this]
  have "teval ifs asg (fold_junction ''and'' False us) = op_apply ''and'' vs"
    "teval ifs asg (fold_junction ''or'' True us) = op_apply ''or'' vs" by (rule junction_value; simp)+
  with junction(1) v show ?thesis by (elim disjE) (simp_all add: fold_op_def)
next
  case negation
  with typed vals obtain u b where "us = [u]" "vs = [CBool b]" "teval ifs asg u = Inr (CBool b)"
    by (cases us) (auto simp: list_all2_Cons2 const_ty_bool)
  moreover have "teval ifs asg (TOp ''not'' [u]) = Inr (CBool (\<not> b))" "v = CBool (\<not> b)"
    using calculation negation(1) v by (simp_all add: op_apply_def)
  ultimately show ?thesis using negation(1) bool_tree_value [of u _ ifs asg]
    by (auto simp: fold_op_def split: option.split)
next
  case (equality a)
  from vals typed [unfolded equality(2)] obtain u u' p q where
    us: "us = [u, u']" "vs = [p, q]" "teval ifs asg u = Inr p" "teval ifs asg u' = Inr q" by (rule typed_pair_values)
  with fold_equals_value [OF us(3,4)] equality(1) v show ?thesis by (auto simp: fold_op_def op_apply_simps)
next
  case comparison
  from vals typed [unfolded comparison(2)] obtain u u' p q where
    us: "us = [u, u']" "vs = [p, q]" "teval ifs asg u = Inr p" "teval ifs asg u' = Inr q" by (rule typed_pair_values)
  show ?thesis unfolding us(1)
    by (rule fold_op_binary_value [OF us(3,4) v [unfolded us(2)]]) (use comparison(1) in blast)
next
  case binary
  from vals typed [unfolded binary(2)] obtain u u' p q where
    us: "us = [u, u']" "vs = [p, q]" "teval ifs asg u = Inr p" "teval ifs asg u' = Inr q" by (rule typed_pair_values)
  show ?thesis unfolding us(1)
    by (rule fold_op_binary_value [OF us(3,4) v [unfolded us(2)]]) (use binary(1) in blast)
next
  case nary
  have nums: "\<forall>v \<in> set vs. pure_num v" "vs \<noteq> []"
    using typed_nums [OF typed nary(3)] nary(2) list_all2_lengthD [OF typed] by auto
  have "\<exists>u. fold_nary ''+'' py_add 0 us = Inr u \<and> teval ifs asg u = op_apply ''+'' vs"
    unfolding py_add_def by (rule sums.fold_nary_value [OF vals nums]) (simp only: op_apply_simps py_add_def)
  moreover have "\<exists>u. fold_nary ''*'' py_mul 1 us = Inr u \<and> teval ifs asg u = op_apply ''*'' vs"
    unfolding py_mul_def by (rule products.fold_nary_value [OF vals nums]) (simp only: op_apply_simps py_mul_def)
  moreover have "fold_op ''+'' us = fold_nary ''+'' py_add 0 us" "fold_op ''*'' us = fold_nary ''*'' py_mul 1 us"
    by (simp_all add: fold_op_def)
  ultimately show ?thesis using nary(1) v by (elim disjE) simp_all
qed

text \<open>The known fluents have their values in the assignment.\<close>

definition knows :: "(fluent, const) dict \<Rightarrow> const list \<Rightarrow> bool" where
  "knows known asg \<longleftrightarrow> (\<forall>f v. dict_get known f = Some v \<longrightarrow> py_nth asg (int (fl_idx f)) = Inr v)"

lemma teval_operands_typed:
  assumes "typed_assignment G asg" "list_all2 (\<lambda>t ty. tree_ty G t = Some ty) ts tys"
    and "\<forall>t \<in> set ts. fluents_declared asg t" "rmap (teval ifs asg) ts = Inr vs"
  shows "list_all2 (\<lambda>v ty. const_ty v = Some ty) vs tys"
proof -
  have "case rmap (teval ifs asg) ts of Inr vs \<Rightarrow> list_all2 (\<lambda>v ty. const_ty v = Some ty) vs tys
      | Inl e \<Rightarrow> type_error_free ifs e"
    by (rule rmap_typed [OF assms(2)]) (use teval_typed [OF assms(1)] assms(3) in blast)
  with assms(4) show ?thesis by simp
qed

lemma fold_operands_value:
  assumes "rmap (teval ifs asg) ts = Inr vs"
    and "\<And>t v. t \<in> set ts \<Longrightarrow> teval ifs asg t = Inr v \<Longrightarrow> \<exists>u. fold_tree ifs known call t = Inr u \<and> teval ifs asg u = Inr v"
  shows "\<exists>us. rmap (fold_tree ifs known call) ts = Inr us \<and> has_values ifs asg us vs"
  using assms
proof (induction ts arbitrary: vs)
  case (Cons t ts)
  from Cons.prems(1) obtain v vs' where v: "vs = v # vs'" "teval ifs asg t = Inr v" "rmap (teval ifs asg) ts = Inr vs'"
    by (auto simp: rbind_eq_Inr)
  from Cons.prems(2) [OF _ v(2)] obtain u where "fold_tree ifs known call t = Inr u" "teval ifs asg u = Inr v" by auto
  with Cons.IH [OF v(3)] Cons.prems(2) v(1) show ?case by auto
qed simp

lemma fold_call_value:
  assumes vals: "has_values ifs asg us vs" and v: "if_call ifs f rt vs = Inr v"
  shows "\<exists>u. fold_call ifs call f rt us = Inr u \<and> teval ifs asg u = Inr v"
proof (cases "call \<and> (\<forall>u \<in> set us. const_tree u \<noteq> None)")
  case True
  have "map (the \<circ> const_tree) us = vs"
    using vals True [THEN conjunct2]
  proof (induction us arbitrary: vs)
    case (Cons u us)
    then show ?case by (cases u) auto
  qed simp
  with True v show ?thesis by (simp add: fold_call_def)
next
  case False
  then have "fold_call ifs call f rt us = Inr (TIf f rt us)" by (simp only: fold_call_def if_False)
  with v vals show ?thesis by (simp flip: has_values_rmap)
qed

lemma fold_tree_value:
  assumes G: "typed_assignment G asg" and known: "knows known asg"
  shows "tree_ty G t = Some ty \<Longrightarrow> fluents_declared asg t \<Longrightarrow> teval ifs asg t = Inr v \<Longrightarrow>
    \<exists>u. fold_tree ifs known call t = Inr u \<and> teval ifs asg u = Inr v"
proof (induction t arbitrary: ty v)
  case (TConst c)
  then show ?case by (cases c) (auto simp: canonical_rational_def split: if_splits)
next
  case (TFluent f)
  then show ?case using known by (auto simp: knows_def split: option.split)
next
  case (TOp k ts)
  from TOp.prems(1) obtain tys where tys: "list_all2 (\<lambda>t ty. tree_ty G t = Some ty) ts tys"
    and ty: "op_ty k tys = Some ty" by (rule tree_ty_OpE)
  from TOp.prems(3) obtain vs where vs: "rmap (teval ifs asg) ts = Inr vs" "op_apply k vs = Inr v"
    by (auto simp: rbind_eq_Inr)
  have decl: "\<forall>t \<in> set ts. fluents_declared asg t" using TOp.prems(2) by (auto simp: fluents_declared_def)
  have "\<exists>us. rmap (fold_tree ifs known call) ts = Inr us \<and> has_values ifs asg us vs"
    by (rule fold_operands_value [OF vs(1)]) (use TOp.IH typed_operand [OF tys] decl in blast)
  then obtain us where "rmap (fold_tree ifs known call) ts = Inr us" "has_values ifs asg us vs" by blast
  with fold_op_value [OF _ teval_operands_typed [OF G tys decl vs(1)] ty vs(2)] show ?case by auto
next
  case (TIf f rt ts)
  from TIf.prems(1) obtain tys where tys: "list_all2 (\<lambda>t ty. tree_ty G t = Some ty) ts tys"
    by (rule tree_ty_IfE)
  from TIf.prems(3) obtain vs where vs: "rmap (teval ifs asg) ts = Inr vs" "if_call ifs f rt vs = Inr v"
    by (auto simp: rbind_eq_Inr)
  have decl: "\<forall>t \<in> set ts. fluents_declared asg t" using TIf.prems(2) by (auto simp: fluents_declared_def)
  have "\<exists>us. rmap (fold_tree ifs known call) ts = Inr us \<and> has_values ifs asg us vs"
    by (rule fold_operands_value [OF vs(1)]) (use TIf.IH typed_operand [OF tys] decl in blast)
  with fold_call_value [OF _ vs(2)] show ?case by auto
qed

end
