(* ===== verification/Examples.thy ===== *)
theory Examples
  imports Planning Converter Plan_Result Typed_Space Simplify_Value
begin

text \<open>
  Two small problems on which the general theorems are applied: a classical one, where one
  action makes the only fluent true, and a temporal one with the same action lasting two
  time units.
\<close>

definition no_ifs :: ifenv where
  "no_ifs f args = Inl ValueErr"

definition light :: action where
  "light = Action 0"

definition lit :: fluent where
  "lit = Fluent 0"

definition true_exp :: expression where
  "true_exp = [NConst (CBool True)]"

definition lit_exp :: expression where
  "lit_exp = [NFluent lit]"

definition light_event :: event where
  "light_event = \<lparr>ev_action = light, ev_pos = 0, ev_conditions = true_exp, ev_start_conditions = [],
     ev_end_conditions = [], ev_effects = [\<lparr>eff_fluent = lit, eff_value = true_exp\<rparr>]\<rparr>"

definition demo_events :: "(action, timed_event list) dict" where
  "demo_events = [(light, [(\<lparr>tm_start = True, tm_delay = 0\<rparr>, light_event)])]"

definition demo :: sspace where
  "demo = (case mk_search_space [None] demo_events [light] None None None (Some [CBool False])
     (Some lit_exp) None None None None of Inr sp \<Rightarrow> sp)"

definition dark_exp :: expression where
  "dark_exp = [NFluent lit, NOp ''not'' [0]]"

definition wait_start :: event where
  "wait_start = \<lparr>ev_action = light, ev_pos = 0, ev_conditions = true_exp, ev_start_conditions = [dark_exp],
     ev_end_conditions = [], ev_effects = []\<rparr>"

definition wait_end :: event where
  "wait_end = \<lparr>ev_action = light, ev_pos = 1, ev_conditions = true_exp, ev_start_conditions = [],
     ev_end_conditions = [dark_exp], ev_effects = [\<lparr>eff_fluent = lit, eff_value = true_exp\<rparr>]\<rparr>"

definition timed_demo_events :: "(action, timed_event list) dict" where
  "timed_demo_events = [(light, [(\<lparr>tm_start = True, tm_delay = 0\<rparr>, wait_start),
     (\<lparr>tm_start = False, tm_delay = 0\<rparr>, wait_end)])]"

definition timed_demo :: sspace where
  "timed_demo = (case mk_search_space [Some ([NConst (CInt 2)], [NConst (CInt 2)], False, False)]
     timed_demo_events [light] None None None (Some [CBool False]) (Some lit_exp) None (Some 5) None None
     of Inr sp \<Rightarrow> sp)"

definition blind :: "'n heuristic" where
  "blind = \<lparr>he_name = ''blind'', he_caches = False, he_value = (\<lambda>s. Inr (Some 0))\<rparr>"

definition no_timeout :: "nat \<Rightarrow> bool" where
  "no_timeout k = False"

definition demo_ops :: "tp stn problem_space" where
  "demo_ops = search_space_of delta_stn_ops no_ifs demo"

definition timed_ops :: "tp stn problem_space" where
  "timed_ops = search_space_of delta_stn_ops no_ifs timed_demo"

lemma demo_eq: "mk_search_space [None] demo_events [light] None None None (Some [CBool False])
     (Some lit_exp) None None None None = Inr demo"
  by code_simp

lemma timed_demo_eq:
  "mk_search_space [Some ([NConst (CInt 2)], [NConst (CInt 2)], False, False)]
     timed_demo_events [light] None None None (Some [CBool False]) (Some lit_exp) None (Some 5) None None
   = Inr timed_demo"
  by code_simp

lemma demo_ok: "space_ok demo" "space_ok timed_demo"
  by (rule mk_search_space_ok [OF demo_eq], code_simp) (rule mk_search_space_ok [OF timed_demo_eq], code_simp)

lemma events_namedI:
  assumes "\<forall>(a, evs) \<in> set (sp_events sp). \<forall>i \<in> {0..<length evs}.
      ev_action (snd (evs ! i)) = a \<and> ev_pos (snd (evs ! i)) = i"
  shows "events_named sp"
  using assms by (fastforce simp: events_named_def dest: map_of_SomeD)

lemma demo_named: "events_named demo" "events_named timed_demo"
  by (rule events_namedI, code_simp)+

lemma no_ifs_return: "ifs_return no_ifs"
  by (simp add: ifs_return_def no_ifs_def)

lemma blind_returns: "heuristic_returns blind"
  by (simp add: heuristic_returns_def blind_def)

text \<open>The initial state of the temporal problem, and the states after start and end of the action.\<close>

definition state_in :: "('n state option \<times> nat) res \<Rightarrow> 'n state" where
  "state_in r = (case r of Inr (Some s, c) \<Rightarrow> s)"

definition timed_init :: "tp stn state" where
  "timed_init = state_in (initial_state delta_stn_ops no_ifs timed_demo None 0)"

definition timed_running :: "tp stn state" where
  "timed_running = state_in (get_successor_state delta_stn_ops no_ifs timed_demo timed_init light 0)"

definition timed_done :: "tp stn state" where
  "timed_done = state_in (get_successor_state delta_stn_ops no_ifs timed_demo timed_running light 3)"

lemma timed_steps:
  "initial_state delta_stn_ops no_ifs timed_demo None 0 = Inr (Some timed_init, 0)"
  "get_successor_state_with_compression delta_stn_ops no_ifs timed_demo timed_init light True 0 = Inr (Some timed_running, 3)"
  "get_successor_state_with_compression delta_stn_ops no_ifs timed_demo timed_running light True 3 = Inr (Some timed_done, 3)"
  by code_simp+

lemma timed_reachable:
  "reachable delta_stn_ops no_ifs timed_demo 0 timed_init"
  "reachable delta_stn_ops no_ifs timed_demo 3 timed_running"
  "reachable delta_stn_ops no_ifs timed_demo 3 timed_done"
proof -
  show init: "reachable delta_stn_ops no_ifs timed_demo 0 timed_init"
    by (rule reach_initial [OF timed_steps(1)])
  show running: "reachable delta_stn_ops no_ifs timed_demo 3 timed_running"
    by (rule reach_successor [OF init _ timed_steps(2)]) simp
  show "reachable delta_stn_ops no_ifs timed_demo 3 timed_done"
    by (rule reach_successor [OF running _ timed_steps(3)]) simp
qed

lemma timed_demo_facts:
  "0 \<le> sp_epsilon timed_demo" "sp_temporal timed_demo" "\<forall>d. sp_deadline timed_demo = Some d \<longrightarrow> 0 \<le> d"
proof -
  have "sp_epsilon timed_demo = 1 / 100" "sp_deadline timed_demo = Some 5" by code_simp+
  then show "0 \<le> sp_epsilon timed_demo" "\<forall>d. sp_deadline timed_demo = Some d \<longrightarrow> 0 \<le> d" by auto
  show "sp_temporal timed_demo" by code_simp
qed

lemma timed_demo_plan:
  "timed_fixed no_ifs timed_demo"
  "build_plan delta_stn_ops no_ifs timed_demo [light, light] 0 = Inr ([(Some 0, light, Some 2)], 3)"
proof -
  have "sp_timed timed_demo = None" by code_simp
  then show "timed_fixed no_ifs timed_demo" by (simp add: timed_fixed_def)
qed code_simp

lemma timed_demo_wf: "event_fluents_wf (sp_event_fluents timed_demo)"
  by code_simp

text \<open>The replay of the plan leaves no action open.\<close>

lemma timed_demo_closed:
  assumes "plan_replay delta_stn_ops no_ifs timed_demo [light, light] 0 = Inr (p, s, c)"
  shows "st_todo s = []"
proof -
  have "rbind (plan_replay delta_stn_ops no_ifs timed_demo [light, light] 0) (\<lambda>(p, s, c). Inr (st_todo s)) = Inr []"
    by code_simp
  with assms show ?thesis by simp
qed

lemma dark_active: "dark_exp \<in># ms_abs (st_active timed_running)"
  by code_simp

lemma demo_facts: "\<not> sp_temporal demo"
  by code_simp

lemma demo_initial:
  "reachable delta_stn_ops no_ifs demo 0 (mk_state [CBool False] None [] ms_empty 0 [])"
  by (rule reach_initial [of _ _ _ None 0]) code_simp

lemma bfs_run: "basic_search demo_ops True no_timeout (Some 5) False 0 = Inr (Some [light], 2, Some 1)"
  by code_simp

lemma wastar_run:
  "wastar_search demo_ops blind (1 / 2) no_timeout (Some 5) False False 0 = Inr (Some [light], 2, Some 1)"
  by code_simp

lemma timed_wastar_run:
  "wastar_search timed_ops blind 1 no_timeout (Some 5) False False 0 = Inr (Some [light, light], 3, Some 2)"
  by code_simp

lemma ehc_run:
  "ehc_search demo_ops blind no_timeout (Some 5) False False 0 = Inr (Some [light], 2, Some 1)"
  by code_simp


section \<open>Stores, trees, networks\<close>

definition lit_state :: "nat \<Rightarrow> tp stn state" where
  "lit_state g = mk_state [CBool True] None [] ms_empty g []"

definition lit_store :: "tp stn visited" where
  "lit_store = \<lparr>vs_policy = DedupAll, vs_seen = [lit_state 0], vs_makespans = []\<rparr>"

lemma lit_store_run:
  "visited_run demo_ops False [lit_state 0] = Inr lit_store" "keyed demo_ops (lit_state g)"
  "visited_insert demo_ops (lit_state 2) lit_store = Inr (False, lit_store)" "ss_epsilon demo_ops = 1 / 100"
  by (code_simp, simp add: keyed_def lit_state_def mk_state_def dict_wf_def, code_simp+)

text \<open>The tree of \<open>lit and 1 <= 2 + 3\<close>.\<close>

definition small_tree :: etree where
  "small_tree = TOp ''and'' [TFluent lit, TOp ''<='' [TConst (CInt 1), TOp ''+'' [TConst (CInt 2), TConst (CInt 3)]]]"

lemma small_tree_wf: "wf_tree small_tree"
  by code_simp

lemma lit_converted: "converted [NFluent lit] (TFluent lit)"
  by (rule conv_fluent [of "[(''lit'', lit)]" "''lit''" False False]) code_simp

lemma both_converted: "converted (walk_and [[NFluent lit], [NFluent lit]]) (TOp ''and'' [TFluent lit, TFluent lit])"
  by (rule conv_and_many) (simp_all add: lit_converted)

section \<open>Types\<close>

definition all_bool :: "fluent \<Rightarrow> ty" where
  "all_bool f = TyBool"

lemma small_tree_typed:
  "tree_ty all_bool small_tree = Some TyBool" "\<forall>f \<in> set (tree_fluents small_tree). fl_idx f < 1"
  by (code_simp, simp add: small_tree_def lit_def)

lemma lit_typed: "typed_values all_bool 1 [CBool b]"
  by (simp add: typed_values_def typed_assignment_def all_bool_def)

lemma lit_effect_typed: "typed_effect all_bool 1 \<lparr>eff_fluent = lit, eff_value = true_exp\<rparr>"
  by (auto simp: typed_effect_def lit_def all_bool_def true_exp_def flatten_def intro!: exI [of _ "TConst (CBool True)"])

lemma timed_demo_typed: "typed_space all_bool 1 timed_demo"
proof -
  have events: "sp_events timed_demo = timed_demo_events" by code_simp
  then show ?thesis using lit_effect_typed
    by (auto simp: typed_space_def timed_demo_events_def wait_start_def wait_end_def split: if_splits)
qed

lemma timed_init_typed: "typed_values all_bool 1 (st_assignments timed_init)"
proof -
  have "st_assignments timed_init = [CBool False]" by code_simp
  then show ?thesis using lit_typed by simp
qed


section \<open>A min-max heap and a filter\<close>

text \<open>Sorted lists and lists of keys, as the third-party containers may behave.\<close>

fun insert_item :: "('a \<Rightarrow> 'a \<Rightarrow> bool) \<Rightarrow> 'a \<Rightarrow> 'a list \<Rightarrow> 'a list" where
  "insert_item lt x [] = [x]"
| "insert_item lt x (y # ys) = (if lt x y then x # y # ys else y # insert_item lt x ys)"

definition sorted_minmax :: "('a \<Rightarrow> 'a \<Rightarrow> bool) \<Rightarrow> ('a, 'a list) minmax" where
  "sorted_minmax lt = \<lparr>mm_empty = [], mm_size = length, mm_push = insert_item lt, mm_max = py_last,
     mm_pop_max = (\<lambda>h. if h = [] then Inl IndexErr else Inr (last h, butlast h)),
     mm_pop_min = (\<lambda>h. if h = [] then Inl IndexErr else Inr (hd h, tl h))\<rparr>"

definition exact_filter :: "string list bloom" where
  "exact_filter = \<lparr>bf_new = [], bf_mem = (\<lambda>k ks. k \<in> set ks), bf_add = (#)\<rparr>"

context item_order
begin

lemma mset_insert_item: "mset (insert_item lt x xs) = add_mset x (mset xs)"
  by (induction xs) auto

lemma sorted_insert_item:
  "sorted_wrt (\<lambda>a b. \<not> lt b a) xs \<Longrightarrow> sorted_wrt (\<lambda>a b. \<not> lt b a) (insert_item lt x xs)"
proof (induction xs)
  case (Cons y ys)
  have set: "set (insert_item lt x ys) = insert x (set ys)"
    using mset_insert_item [of x ys] by (metis set_mset_add_mset_insert set_mset_mset)
  show ?case
  proof (cases "lt x y")
    case True
    have "\<not> lt z x" if "z \<in> set ys" for z
      using Cons.prems that True lt_trans [of z x y] by auto
    with Cons True lt_asym show ?thesis by auto
  qed (use Cons set in auto)
qed simp

lemma sorted_minmax_laws:
  "minmax_laws lt (sorted_minmax lt) mset (sorted_wrt (\<lambda>a b. \<not> lt b a))"
proof -
  have max: "\<exists>m h'. py_last h = Inr m \<and> (if h = [] then Inl IndexErr else Inr (last h, butlast h)) = Inr (m, h') \<and>
      sorted_wrt (\<lambda>a b. \<not> lt b a) h' \<and> add_mset m (mset h') = mset h \<and> (\<forall>y \<in># mset h. \<not> lt m y)"
    if "sorted_wrt (\<lambda>a b. \<not> lt b a) h" "h \<noteq> []" for h
    using that by (cases h rule: rev_cases) (auto simp: sorted_wrt_append py_last_eq)
  have min: "\<exists>m h'. (if h = [] then Inl IndexErr else Inr (hd h, tl h)) = (Inr (m, h') :: _ res) \<and>
      sorted_wrt (\<lambda>a b. \<not> lt b a) h' \<and> add_mset m (mset h') = mset h \<and> (\<forall>y \<in># mset h. \<not> lt y m)"
    if "sorted_wrt (\<lambda>a b. \<not> lt b a) h" "h \<noteq> []" for h
    using that by (cases h) auto
  show ?thesis
    unfolding minmax_laws_def sorted_minmax_def
    using max min sorted_insert_item mset_insert_item by (auto simp del: py_last_eq)
qed

end

lemma bounded_queue_400000:
  "bounded_queue lt M queue_bound = Inr \<lparr>ol_empty = mm_empty M,
     ol_push = (\<lambda>x h. if int (mm_size M h) < 400000 then Inr (mm_push M x h)
                 else bounded_push lt M queue_bound x h),
     ol_pop = mm_pop_min M, ol_len = mm_size M\<rparr>"
  by (auto simp: bounded_queue_def bounded_push_def queue_bound_def fun_eq_iff)

lemma bounded_run:
  "wastar_search_memory_bounded (sorted_minmax pitem_lt) exact_filter demo_ops blind 1 no_timeout (Some 5)
     False False 0 = Inr (Some [light], 2, Some 1)"
  unfolding wastar_search_memory_bounded_def bounded_queue_400000 by code_simp

text \<open>A short history of an open list.\<close>

definition demo_item :: "rat \<Rightarrow> nat \<Rightarrow> tp stn pitem" where
  "demo_item h i = \<lparr>pi_heuristic = h, pi_state = lit_state 0, pi_idx = i\<rparr>"

lemma demo_history:
  "queue_run (priority_queue pitem_lt) [Some (demo_item 2 1), Some (demo_item 1 3), Some (demo_item 1 2), None] =
     Inr ([demo_item 1 3, demo_item 2 1], [demo_item 1 2])"
  by (simp add: queue_run_def queue_op_def priority_queue_def pq_push_def heappush_def heappop_def
      siftdown.simps sink.simps demo_item_def pitem_lt_def lit_state_def mk_state_def)

end
