(* ===== verification/Novelty.thy ===== *)
theory Novelty
  imports Search
begin

text \<open>
  The novelty tables of \<open>src/tamerlite/core/novelty.py\<close>: the catalogue of subgoals built from
  the conditions and the goal, the distance feature, and \<open>NumericNovelty\<close> with its caches and
  its sparse evaluation.  Sets and dictionaries whose order the code never reads are sets and maps.
\<close>

section \<open>Leaves\<close>

text \<open>Keys are compared by Python's equality: \<open>True\<close>, \<open>1\<close> and \<open>Fraction(1)\<close> are the same node.\<close>

definition exp_eq :: "expression \<Rightarrow> expression \<Rightarrow> bool" where
  "exp_eq e f = list_all2 node_eq e f"

text \<open>\<open>get_event_conditions\<close> of \<open>heuristics.py\<close>: each condition once, in order.\<close>

fun keep_first :: "expression list \<Rightarrow> expression list \<Rightarrow> expression list" where
  "keep_first acc [] = acc"
| "keep_first acc (c # cs) = keep_first (if list_ex (exp_eq c) acc then acc else acc @ [c]) cs"

definition get_event_conditions :: "event \<Rightarrow> expression list res" where
  "get_event_conditions e = rbind (split_expression (ev_conditions e)) (\<lambda>cs.
     Inr (keep_first [] (cs @ ev_end_conditions e)))"

datatype leaf_operand = OFluent nat | OConst const | OExp expression

fun make_operand :: "expression \<Rightarrow> leaf_operand" where
  "make_operand [NFluent f] = OFluent (fl_idx f)"
| "make_operand [NConst c] = OConst c"
| "make_operand e = OExp e"

fun operand_value :: "ifenv \<Rightarrow> leaf_operand \<Rightarrow> const list \<Rightarrow> const res" where
  "operand_value ifs (OFluent i) asg = py_nth asg (int i)"
| "operand_value ifs (OConst c) asg = Inr c"
| "operand_value ifs (OExp e) asg = evaluate ifs e asg"

text \<open>The stack of indices has its top first; a conjunction or disjunction pushes its operands.\<close>

fun is_junction :: "node \<Rightarrow> bool" where
  "is_junction (NOp k ops) = (k = ''and'' \<or> k = ''or'')"
| "is_junction n = False"

definition subgoal_step ::
    "expression \<Rightarrow> int list \<times> expression list \<Rightarrow> expression list res + int list \<times> expression list" where
  "subgoal_step e sa = (case sa of
     ([], acc) \<Rightarrow> Inl (Inr acc)
   | (i # stack, acc) \<Rightarrow> step_of (rbind (py_nth e i) (\<lambda>n.
       if is_junction n then Inr (Inr (node_operands n @ stack, acc))
       else rbind (extract_sub_expression e i) (\<lambda>x. Inr (Inr (stack, acc @ [x]))))))"

definition iter_subgoal_leaves :: "expression \<Rightarrow> expression list res" where
  "iter_subgoal_leaves e = run_loop (subgoal_step e) ([int (length e) - 1], [])"

datatype leaf =
    PropLeaf leaf_operand
  | NumLeaf leaf_operand leaf_operand string

text \<open>An \<open>int\<close> and a \<open>Fraction\<close> compare by value, so the distance is the rational.\<close>

definition compute_sdist ::
    "ifenv \<Rightarrow> leaf_operand \<Rightarrow> leaf_operand \<Rightarrow> string \<Rightarrow> const list \<Rightarrow> (rat \<times> bool) res" where
  "compute_sdist ifs lhs rhs kind asg =
     rbind (operand_value ifs rhs asg) (\<lambda>r. rbind (operand_value ifs lhs asg) (\<lambda>l.
     rbind (py_sub r l) (\<lambda>v. rbind (as_number v) (\<lambda>diff. Inr
       (if kind = ''=='' then (if diff \<le> 0 then diff else - diff, diff = 0)
        else if kind = ''<='' then (diff, 0 \<le> diff) else (diff, 0 < diff))))))"


section \<open>The catalogue\<close>

record catalogue =
  ct_leaves :: "leaf list"
  ct_index :: "expression list"
  ct_reads :: "nat list list"

definition numeric_root :: "fluent_domain list \<Rightarrow> expression \<Rightarrow> node \<Rightarrow> bool res" where
  "numeric_root ds e n = (case n of
     NOp k ops \<Rightarrow>
       if k = ''<='' \<or> k = ''<'' then Inr True
       else if k = ''=='' then
         rbind (operand ops 0 e) (\<lambda>a. rbind (is_object_typed_operand a ds) (\<lambda>oa.
           if oa then Inr False
           else rbind (operand ops 1 e) (\<lambda>b. rbind (is_object_typed_operand b ds) (\<lambda>ob. Inr (\<not> ob)))))
       else Inr False
   | _ \<Rightarrow> Inr False)"

definition leaf_of :: "fluent_domain list \<Rightarrow> expression \<Rightarrow> leaf res" where
  "leaf_of ds e = rbind (py_last e) (\<lambda>n. rbind (numeric_root ds e n) (\<lambda>num.
     if num then (case n of
         NOp k [op1, op2] \<Rightarrow> rbind (extract_sub_expression e op1) (\<lambda>l.
           rbind (extract_sub_expression e op2) (\<lambda>r. Inr (NumLeaf (make_operand l) (make_operand r) k)))
       | _ \<Rightarrow> Inl ValueErr)
     else Inr (PropLeaf (make_operand e))))"

definition add_leaf :: "fluent_domain list \<Rightarrow> expression \<Rightarrow> catalogue \<Rightarrow> catalogue res" where
  "add_leaf ds e c =
     (if list_ex (exp_eq e) (ct_index c) then Inr c
      else rbind (leaf_of ds e) (\<lambda>l. Inr
        \<lparr>ct_leaves = ct_leaves c @ [l], ct_index = ct_index c @ [e],
         ct_reads = ct_reads c @ [map fl_idx (get_fluents e)]\<rparr>))"

definition add_subgoals :: "fluent_domain list \<Rightarrow> expression \<Rightarrow> catalogue \<Rightarrow> catalogue res" where
  "add_subgoals ds e c = rbind (iter_subgoal_leaves e) (\<lambda>ls. rfold (add_leaf ds) ls c)"

definition add_event :: "fluent_domain list \<Rightarrow> timed_event \<Rightarrow> catalogue \<Rightarrow> catalogue res" where
  "add_event ds te c = rbind (get_event_conditions (snd te)) (\<lambda>cs. rfold (add_subgoals ds) cs c)"

definition catalogue_of ::
    "(action, timed_event list) dict \<Rightarrow> expression \<Rightarrow> fluent_domain list \<Rightarrow> catalogue res" where
  "catalogue_of events goals ds =
     rbind (rfold (\<lambda>(a, evs). rfold (add_event ds) evs) events
       \<lparr>ct_leaves = [], ct_index = [], ct_reads = []\<rparr>) (add_subgoals ds goals)"

definition add_reader :: "nat \<Rightarrow> nat \<Rightarrow> nat list list \<Rightarrow> nat list list res" where
  "add_reader i f buckets = rbind (py_nth buckets (int f)) (\<lambda>b.
     if b = [] \<or> last b \<noteq> i then py_update buckets (int f) (b @ [i]) else Inr buckets)"

definition readers :: "fluent_domain list \<Rightarrow> nat list list \<Rightarrow> nat list list res" where
  "readers ds reads =
     (let n = Max (set (length ds # concat (map (map (\<lambda>f. f + 1)) reads))) in
      rfold (\<lambda>(i, fs). rfold (add_reader i) fs) (indexed reads) (replicate n []))"


section \<open>The tables\<close>

record tables =
  psi_seen :: "nat set"
  best_sdist :: "nat \<rightharpoonup> rat"
  psi_pair_seen :: "(nat \<times> nat) set"
  best_sdist_with_psi :: "nat \<times> nat \<rightharpoonup> rat"

definition empty_tables :: tables where
  "empty_tables = \<lparr>psi_seen = {}, best_sdist = Map.empty, psi_pair_seen = {}, best_sdist_with_psi = Map.empty\<rparr>"

record novelty =
  nn_leaves :: "leaf list"
  nn_readers :: "nat list list"
  nn_partitions :: "int \<rightharpoonup> tables"
  nn_max_partition :: int
  nn_parent_prop :: "nat \<rightharpoonup> bool"
  nn_parent_num :: "nat \<rightharpoonup> rat \<times> bool"
  nn_snapshot :: "(nat list \<times> nat list) option"

definition mk_novelty ::
    "(action, timed_event list) dict \<Rightarrow> expression \<Rightarrow> fluent_domain list \<Rightarrow> novelty res" where
  "mk_novelty events goals ds =
     rbind (catalogue_of events goals ds) (\<lambda>c. rbind (readers ds (ct_reads c)) (\<lambda>rs. Inr
       \<lparr>nn_leaves = ct_leaves c, nn_readers = rs, nn_partitions = Map.empty, nn_max_partition = 1,
        nn_parent_prop = Map.empty, nn_parent_num = Map.empty, nn_snapshot = None\<rparr>))"

definition check_non_negative :: "rat \<Rightarrow> unit res" where
  "check_non_negative h = (if \<not> h \<ge> 0 then Inl ValueErr else Inr ())"

definition begin_expansion :: "novelty \<Rightarrow> novelty" where
  "begin_expansion nn = nn\<lparr>nn_parent_prop := Map.empty, nn_parent_num := Map.empty, nn_snapshot := None\<rparr>"

definition partition_of :: "rat \<Rightarrow> novelty \<Rightarrow> int res" where
  "partition_of h nn = rbind (check_non_negative h) (\<lambda>_. Inr (min \<lfloor>h\<rfloor> (nn_max_partition nn)))"

definition start_novelty :: "rat \<Rightarrow> novelty \<Rightarrow> (int \<times> novelty) res" where
  "start_novelty h nn = rbind (check_non_negative h) (\<lambda>_.
     let nn' = begin_expansion (nn\<lparr>nn_partitions := Map.empty, nn_max_partition := max 1 \<lfloor>h\<rfloor>\<rparr>)
     in rbind (partition_of h nn') (\<lambda>p. Inr (p, nn')))"

definition get_partition :: "int \<Rightarrow> novelty \<Rightarrow> tables" where
  "get_partition p nn = (case nn_partitions nn p of None \<Rightarrow> empty_tables | Some t \<Rightarrow> t)"


section \<open>The features of the parent\<close>

definition parent_prop :: "ifenv \<Rightarrow> const list \<Rightarrow> nat \<Rightarrow> leaf_operand \<Rightarrow> novelty \<Rightarrow> (bool \<times> novelty) res" where
  "parent_prop ifs par i op nn = (case nn_parent_prop nn i of
     Some b \<Rightarrow> Inr (b, nn)
   | None \<Rightarrow> rbind (operand_value ifs op par) (\<lambda>v.
       let b = (v = CBool True) in Inr (b, nn\<lparr>nn_parent_prop := (nn_parent_prop nn)(i \<mapsto> b)\<rparr>)))"

definition parent_num ::
    "ifenv \<Rightarrow> const list \<Rightarrow> nat \<Rightarrow> leaf_operand \<Rightarrow> leaf_operand \<Rightarrow> string \<Rightarrow> novelty \<Rightarrow>
     ((rat \<times> bool) \<times> novelty) res" where
  "parent_num ifs par i l r k nn = (case nn_parent_num nn i of
     Some x \<Rightarrow> Inr (x, nn)
   | None \<Rightarrow> rbind (compute_sdist ifs l r k par) (\<lambda>x.
       Inr (x, nn\<lparr>nn_parent_num := (nn_parent_num nn)(i \<mapsto> x)\<rparr>)))"

text \<open>
  Values are compared by identity (\<open>same f\<close>): equal slots may hold distinct objects,
  but one object has one value.
\<close>

definition add_keys :: "nat list \<Rightarrow> nat list \<Rightarrow> nat list" where
  "add_keys ks d = fold (\<lambda>k d. if k \<in> set d then d else d @ [k]) ks d"

definition mark_dirty_leaves ::
    "(nat \<Rightarrow> bool) \<Rightarrow> const list \<Rightarrow> const list \<Rightarrow> novelty \<Rightarrow> nat list res" where
  "mark_dirty_leaves same par asg nn =
     rbind (rassert (length par = length asg)) (\<lambda>_.
       Inr (fold (\<lambda>f d. if f < length (nn_readers nn) then add_keys (nn_readers nn ! f) d else d)
         (filter (\<lambda>f. \<not> same f) [0..<length asg]) []))"

definition snapshot_leaf ::
    "ifenv \<Rightarrow> const list \<Rightarrow> nat \<times> leaf \<Rightarrow> (nat list \<times> nat list) \<times> novelty \<Rightarrow>
     ((nat list \<times> nat list) \<times> novelty) res" where
  "snapshot_leaf ifs par il s = (case (il, s) of ((i, l), ((sat, unsat), nn)) \<Rightarrow> (case l of
     PropLeaf op \<Rightarrow> rbind (parent_prop ifs par i op nn) (\<lambda>(b, nn').
       Inr ((if b then sat @ [i] else sat, unsat), nn'))
   | NumLeaf a b k \<Rightarrow> rbind (parent_num ifs par i a b k nn) (\<lambda>(x, nn').
       Inr (if snd x then (sat @ [i], unsat) else (sat, unsat @ [i]), nn'))))"

definition ensure_parent_snapshot ::
    "ifenv \<Rightarrow> const list \<Rightarrow> novelty \<Rightarrow> ((nat list \<times> nat list) \<times> novelty) res" where
  "ensure_parent_snapshot ifs par nn = (case nn_snapshot nn of
     Some s \<Rightarrow> Inr (s, nn)
   | None \<Rightarrow> rbind (rfold (snapshot_leaf ifs par) (indexed (nn_leaves nn)) (([], []), nn)) (\<lambda>(s, nn').
       Inr (s, nn'\<lparr>nn_snapshot := Some s\<rparr>)))"


section \<open>Pass A: the subgoals of the state\<close>

record pass_a =
  pa_newly :: "nat list"
  pa_current :: "nat list"
  pa_persisting :: "nat list"
  pa_improved :: "nat list"
  pa_unsat :: "nat list"
  pa_sdist :: "nat \<rightharpoonup> rat"

definition no_leaves :: pass_a where
  "no_leaves = \<lparr>pa_newly = [], pa_current = [], pa_persisting = [], pa_improved = [], pa_unsat = [],
     pa_sdist = Map.empty\<rparr>"

definition dense_leaf :: "ifenv \<Rightarrow> const list \<Rightarrow> nat \<times> leaf \<Rightarrow> pass_a \<Rightarrow> pass_a res" where
  "dense_leaf ifs asg il pa = (case il of (i, l) \<Rightarrow> (case l of
     PropLeaf op \<Rightarrow> rbind (operand_value ifs op asg) (\<lambda>v.
       Inr (if v = CBool True
            then pa\<lparr>pa_current := pa_current pa @ [i], pa_newly := pa_newly pa @ [i]\<rparr> else pa))
   | NumLeaf a b k \<Rightarrow> rbind (compute_sdist ifs a b k asg) (\<lambda>(d, sat).
       let pa1 = pa\<lparr>pa_sdist := (pa_sdist pa)(i \<mapsto> d)\<rparr> in
       Inr (if sat then pa1\<lparr>pa_current := pa_current pa @ [i], pa_newly := pa_newly pa @ [i]\<rparr>
            else pa1\<lparr>pa_unsat := pa_unsat pa @ [i], pa_improved := pa_improved pa @ [i]\<rparr>))))"

definition sparse_leaf ::
    "ifenv \<Rightarrow> const list \<Rightarrow> const list \<Rightarrow> nat \<Rightarrow> pass_a \<times> novelty \<Rightarrow> (pass_a \<times> novelty) res" where
  "sparse_leaf ifs par asg i s = (case s of (pa, nn) \<Rightarrow>
     rbind (py_nth (nn_leaves nn) (int i)) (\<lambda>l. case l of
       PropLeaf op \<Rightarrow> rbind (parent_prop ifs par i op nn) (\<lambda>(b, nn').
         rbind (operand_value ifs op asg) (\<lambda>v.
         Inr (if v = CBool True then
                (if b then pa\<lparr>pa_current := pa_current pa @ [i], pa_persisting := pa_persisting pa @ [i]\<rparr>
                 else pa\<lparr>pa_current := pa_current pa @ [i], pa_newly := pa_newly pa @ [i]\<rparr>)
              else pa, nn')))
     | NumLeaf a b k \<Rightarrow> rbind (parent_num ifs par i a b k nn) (\<lambda>((pd, psat), nn').
         rbind (compute_sdist ifs a b k asg) (\<lambda>(d, sat).
         let pa1 = pa\<lparr>pa_sdist := (pa_sdist pa)(i \<mapsto> d)\<rparr>;
             pa2 = (if sat then pa1\<lparr>pa_current := pa_current pa1 @ [i]\<rparr>
                    else pa1\<lparr>pa_unsat := pa_unsat pa1 @ [i]\<rparr>) in
         Inr (if \<not> psat \<and> d > pd then
                (if sat then pa2\<lparr>pa_newly := pa_newly pa2 @ [i]\<rparr>
                 else pa2\<lparr>pa_improved := pa_improved pa2 @ [i]\<rparr>)
              else if psat \<and> sat then pa2\<lparr>pa_persisting := pa_persisting pa2 @ [i]\<rparr>
              else pa2, nn')))))"

text \<open>The clean leaves keep the values of the parent.\<close>

definition merge_clean :: "nat list \<Rightarrow> nat list \<times> nat list \<Rightarrow> pass_a \<Rightarrow> pass_a" where
  "merge_clean dirty snap pa =
     pa\<lparr>pa_current := pa_current pa @ filter (\<lambda>i. i \<notin> set dirty) (fst snap),
        pa_persisting := pa_persisting pa @ filter (\<lambda>i. i \<notin> set dirty) (fst snap),
        pa_unsat := pa_unsat pa @ filter (\<lambda>i. i \<notin> set dirty) (snd snap)\<rparr>"


section \<open>Passes B and C: what is new\<close>

definition improves :: "('k \<rightharpoonup> rat) \<Rightarrow> 'k \<Rightarrow> rat \<Rightarrow> bool" where
  "improves m k d = (case m k of None \<Rightarrow> True | Some d' \<Rightarrow> d > d')"

definition see_psi :: "nat \<Rightarrow> tables \<times> nat \<Rightarrow> tables \<times> nat" where
  "see_psi f tn = (case tn of (t, nov) \<Rightarrow>
     if f \<notin> psi_seen t then (t\<lparr>psi_seen := insert f (psi_seen t)\<rparr>, 1) else (t, nov))"

definition see_sdist :: "(nat \<rightharpoonup> rat) \<Rightarrow> nat \<Rightarrow> tables \<times> nat \<Rightarrow> (tables \<times> nat) res" where
  "see_sdist sdist i tn = (case (sdist i, tn) of
     (None, _) \<Rightarrow> Inl KeyErr
   | (Some d, (t, nov)) \<Rightarrow> Inr (if improves (best_sdist t) i d
       then (t\<lparr>best_sdist := (best_sdist t)(i \<mapsto> d)\<rparr>, 1) else (t, nov)))"

definition see_pair :: "nat \<Rightarrow> nat \<Rightarrow> tables \<times> nat \<Rightarrow> tables \<times> nat" where
  "see_pair f i tn = (case tn of (t, nov) \<Rightarrow>
     if f = i then (t, nov)
     else let pair = (if f < i then (f, i) else (i, f)) in
       if pair \<notin> psi_pair_seen t
       then (t\<lparr>psi_pair_seen := insert pair (psi_pair_seen t)\<rparr>, min nov 2) else (t, nov))"

definition see_with_psi :: "nat \<Rightarrow> nat \<Rightarrow> rat \<Rightarrow> tables \<times> nat \<Rightarrow> tables \<times> nat" where
  "see_with_psi f i d tn = (case tn of (t, nov) \<Rightarrow>
     if improves (best_sdist_with_psi t) (f, i) d
     then (t\<lparr>best_sdist_with_psi := (best_sdist_with_psi t)((f, i) \<mapsto> d)\<rparr>, min nov 2) else (t, nov))"

definition pass_b :: "pass_a \<Rightarrow> tables \<times> nat \<Rightarrow> (tables \<times> nat) res" where
  "pass_b pa tn = rfold (see_sdist (pa_sdist pa)) (pa_improved pa) (fold see_psi (pa_newly pa) tn)"

definition pass_c1 :: "bool \<Rightarrow> pass_a \<Rightarrow> tables \<times> nat \<Rightarrow> tables \<times> nat" where
  "pass_c1 new pa = fold (\<lambda>(ax, f). fold (see_pair f) (drop (if new then ax + 1 else 0) (pa_current pa)))
     (indexed (pa_newly pa))"

definition pass_c1b :: "novelty \<Rightarrow> pass_a \<Rightarrow> tables \<times> nat \<Rightarrow> (tables \<times> nat) res" where
  "pass_c1b nn pa = rfold (\<lambda>f. rfold (\<lambda>i tn.
     if f = i then Inr tn
     else (case pa_sdist pa i of
         Some d \<Rightarrow> Inr (see_with_psi f i d tn)
       | None \<Rightarrow> (case nn_parent_num nn i of
           None \<Rightarrow> Inl KeyErr | Some x \<Rightarrow> Inr (see_with_psi f i (fst x) tn)))) (pa_unsat pa)) (pa_newly pa)"

definition pass_c2 :: "pass_a \<Rightarrow> tables \<times> nat \<Rightarrow> (tables \<times> nat) res" where
  "pass_c2 pa = rfold (\<lambda>i tn. case pa_sdist pa i of
       None \<Rightarrow> Inl KeyErr
     | Some d \<Rightarrow> Inr (fold (\<lambda>f tn. if f = i then tn else see_with_psi f i d tn) (pa_persisting pa) tn))
     (pa_improved pa)"

definition judge :: "bool \<Rightarrow> int \<Rightarrow> pass_a \<Rightarrow> novelty \<Rightarrow> (nat \<times> novelty) res" where
  "judge new part pa nn =
     rbind (pass_b pa (get_partition part nn, 3)) (\<lambda>tn1.
     rbind (rassert (\<not> new \<or> pa_newly pa = pa_current pa)) (\<lambda>_.
     rbind (pass_c1b nn pa (pass_c1 new pa tn1)) (\<lambda>tn2.
     rbind (pass_c2 pa tn2) (\<lambda>(t, nov).
     Inr (nov, nn\<lparr>nn_partitions := (nn_partitions nn)(part \<mapsto> t)\<rparr>)))))"

definition eval_novelty ::
    "ifenv \<Rightarrow> (nat \<Rightarrow> bool) \<Rightarrow> const list \<Rightarrow> int \<Rightarrow> (const list \<times> int) option \<Rightarrow> novelty \<Rightarrow>
     (nat \<times> novelty) res" where
  "eval_novelty ifs same asg part pp nn = (case pp of
     Some (par, pp_part) \<Rightarrow>
       if pp_part \<noteq> part then
         rbind (rfold (dense_leaf ifs asg) (indexed (nn_leaves nn)) no_leaves) (\<lambda>pa. judge True part pa nn)
       else
         rbind (mark_dirty_leaves same par asg nn) (\<lambda>dirty.
         rbind (rfold (sparse_leaf ifs par asg) dirty (no_leaves, nn)) (\<lambda>(pa, nn1).
         if pa_newly pa = [] \<and> pa_improved pa = [] then Inr (3, nn1)
         else rbind (ensure_parent_snapshot ifs par nn1) (\<lambda>(snap, nn2).
           judge False part (merge_clean dirty snap pa) nn2)))
   | None \<Rightarrow>
       rbind (rfold (dense_leaf ifs asg) (indexed (nn_leaves nn)) no_leaves) (\<lambda>pa. judge True part pa nn))"

text \<open>What the novelty search calls; \<open>ident\<close> tells which slots hold the same object.\<close>

definition numeric_novelty ::
    "ifenv \<Rightarrow> (const list \<Rightarrow> const list \<Rightarrow> nat \<Rightarrow> bool) \<Rightarrow> ('n, novelty) novelty_ops" where
  "numeric_novelty ifs ident =
     \<lparr>nv_start = start_novelty, nv_partition_of = partition_of,
      nv_eval = (\<lambda>s part pp nn. eval_novelty ifs
        (case pp of None \<Rightarrow> (\<lambda>_. False) | Some (p, _) \<Rightarrow> ident (st_assignments p) (st_assignments s))
        (st_assignments s) part (map_option (map_prod st_assignments id) pp) nn),
      nv_begin_expansion = begin_expansion\<rparr>"

end
