(* ===== verification/Novelty_Facts.thy ===== *)
theory Novelty_Facts
  imports Novelty Search_Space_Facts Tree_Positions
begin

text \<open>
  The sparse evaluation of a state, which reads the leaves a changed fluent can affect and the
  cached features of the parent, has the outcome of evaluating every subgoal in both states.
\<close>

section \<open>The specification\<close>

fun leaf_reading :: "ifenv \<Rightarrow> leaf \<Rightarrow> const list \<Rightarrow> (rat \<times> bool) res" where
  "leaf_reading ifs (PropLeaf op) asg = rbind (operand_value ifs op asg) (\<lambda>v. Inr (0, v = CBool True))"
| "leaf_reading ifs (NumLeaf a b k) asg = compute_sdist ifs a b k asg"

fun is_numeric :: "leaf \<Rightarrow> bool" where
  "is_numeric (PropLeaf op) = False"
| "is_numeric (NumLeaf a b k) = True"

definition readable :: "ifenv \<Rightarrow> leaf list \<Rightarrow> const list \<Rightarrow> bool" where
  "readable ifs ls asg \<longleftrightarrow> (\<forall>l \<in> set ls. \<exists>x. leaf_reading ifs l asg = Inr x)"

definition leaf_dist :: "ifenv \<Rightarrow> leaf list \<Rightarrow> const list \<Rightarrow> nat \<Rightarrow> rat" where
  "leaf_dist ifs ls asg i = (case leaf_reading ifs (ls ! i) asg of Inr (d, _) \<Rightarrow> d | Inl _ \<Rightarrow> 0)"

definition satisfied :: "ifenv \<Rightarrow> leaf list \<Rightarrow> const list \<Rightarrow> nat \<Rightarrow> bool" where
  "satisfied ifs ls asg i = (case leaf_reading ifs (ls ! i) asg of Inr (_, s) \<Rightarrow> s | Inl _ \<Rightarrow> False)"

lemma readableD:
  "readable ifs ls asg \<Longrightarrow> i < length ls \<Longrightarrow>
     leaf_reading ifs (ls ! i) asg = Inr (leaf_dist ifs ls asg i, satisfied ifs ls asg i)"
  unfolding readable_def leaf_dist_def satisfied_def by (force dest: nth_mem)

text \<open>
  The subgoals newly satisfied, satisfied, satisfied before and after, brought closer, and
  unsatisfied; \<open>par\<close> is the parent when it is in the same partition.
\<close>

record subgoals =
  sg_newly :: "nat set"
  sg_current :: "nat set"
  sg_persisting :: "nat set"
  sg_improved :: "nat set"
  sg_unsat :: "nat set"

definition subgoals_of :: "ifenv \<Rightarrow> leaf list \<Rightarrow> const list option \<Rightarrow> const list \<Rightarrow> subgoals" where
  "subgoals_of ifs ls par asg =
    (let ids = {..<length ls}; sat = satisfied ifs ls asg; far = leaf_dist ifs ls asg;
         before = (\<lambda>i. case par of None \<Rightarrow> False | Some p \<Rightarrow> satisfied ifs ls p i);
         closer = (\<lambda>i. case par of None \<Rightarrow> True | Some p \<Rightarrow> \<not> before i \<and> leaf_dist ifs ls p i < far i)
     in \<lparr>sg_newly = {i \<in> ids. sat i \<and> \<not> before i}, sg_current = {i \<in> ids. sat i},
         sg_persisting = {i \<in> ids. sat i \<and> before i},
         sg_improved = {i \<in> ids. is_numeric (ls ! i) \<and> \<not> sat i \<and> closer i},
         sg_unsat = {i \<in> ids. is_numeric (ls ! i) \<and> \<not> sat i}\<rparr>)"

definition pair_of :: "nat \<Rightarrow> nat \<Rightarrow> nat \<times> nat" where
  "pair_of f i = (if f < i then (f, i) else (i, f))"

definition new_pairs :: "subgoals \<Rightarrow> (nat \<times> nat) set" where
  "new_pairs g = {pair_of f i | f i. f \<in> sg_newly g \<and> i \<in> sg_current g \<and> f \<noteq> i}"

definition closing_pairs :: "subgoals \<Rightarrow> (nat \<times> nat) set" where
  "closing_pairs g = {(f, i). f \<noteq> i \<and> (f \<in> sg_newly g \<and> i \<in> sg_unsat g \<or> f \<in> sg_persisting g \<and> i \<in> sg_improved g)}"

text \<open>A table keeps the best distance it has been shown.\<close>

definition best_join :: "('k \<rightharpoonup> rat) \<Rightarrow> 'k set \<Rightarrow> ('k \<Rightarrow> rat) \<Rightarrow> 'k \<rightharpoonup> rat" where
  "best_join m K d = (\<lambda>k. if k \<in> K \<and> improves m k (d k) then Some (d k) else m k)"

definition learn :: "subgoals \<Rightarrow> (nat \<Rightarrow> rat) \<Rightarrow> tables \<Rightarrow> tables" where
  "learn g far t =
     \<lparr>psi_seen = psi_seen t \<union> sg_newly g, best_sdist = best_join (best_sdist t) (sg_improved g) far,
      psi_pair_seen = psi_pair_seen t \<union> new_pairs g,
      best_sdist_with_psi = best_join (best_sdist_with_psi t) (closing_pairs g) (\<lambda>p. far (snd p))\<rparr>"

definition novelty_class :: "subgoals \<Rightarrow> (nat \<Rightarrow> rat) \<Rightarrow> tables \<Rightarrow> nat" where
  "novelty_class g far t =
     (if (\<exists>f \<in> sg_newly g. f \<notin> psi_seen t) \<or> (\<exists>i \<in> sg_improved g. improves (best_sdist t) i (far i)) then 1
      else if (\<exists>p \<in> new_pairs g. p \<notin> psi_pair_seen t) \<or>
        (\<exists>p \<in> closing_pairs g. improves (best_sdist_with_psi t) p (far (snd p))) then 2
      else 3)"


section \<open>The passes over the tables\<close>

lemma improves_upd [simp]:
  "improves (m(k \<mapsto> d)) k' d' = (if k' = k then d' > d else improves m k' d')"
  by (simp add: improves_def)

lemma best_join_empty [simp]: "best_join m {} d = m"
  by (simp add: best_join_def)

lemma best_join_insert:
  "best_join m (insert k K) d = best_join (if improves m k (d k) then m(k \<mapsto> d k) else m) K d"
  by (rule ext) (auto simp: best_join_def)

lemma improves_insert:
  "(\<exists>k \<in> insert x K. improves m k (d k)) \<longleftrightarrow>
     improves m x (d x) \<or> (\<exists>k \<in> K. improves (if improves m x (d x) then m(x \<mapsto> d x) else m) k (d k))"
  by auto

lemma rfold_pure: "(\<And>x s. x \<in> set xs \<Longrightarrow> f x s = Inr (g x s)) \<Longrightarrow> rfold f xs s = Inr (fold g xs s)"
  by (induction xs arbitrary: s) auto

lemma fold_see_psi:
  "fold see_psi xs (t, nov) =
     (t\<lparr>psi_seen := psi_seen t \<union> set xs\<rparr>, if set xs \<subseteq> psi_seen t then nov else 1)"
  by (induction xs arbitrary: t nov) (auto simp: see_psi_def insert_absorb)

lemma rfold_see_sdist:
  assumes "\<And>i. i \<in> set xs \<Longrightarrow> sdist i = Some (d i)"
  shows "rfold (see_sdist sdist) xs (t, nov) =
    Inr (t\<lparr>best_sdist := best_join (best_sdist t) (set xs) d\<rparr>,
      if \<exists>i \<in> set xs. improves (best_sdist t) i (d i) then 1 else nov)"
  using assms
proof (induction xs arbitrary: t nov)
  case (Cons x xs)
  have x: "sdist x = Some (d x)" using Cons.prems by simp
  show ?case
    using Cons.IH Cons.prems
    unfolding list.set(2) best_join_insert improves_insert
    by (simp add: see_sdist_def x)
qed simp

lemma fold_see_pair:
  "fold (see_pair f) xs (t, nov) =
     (t\<lparr>psi_pair_seen := psi_pair_seen t \<union> pair_of f ` (set xs - {f})\<rparr>,
      if pair_of f ` (set xs - {f}) \<subseteq> psi_pair_seen t then nov else min nov 2)"
proof (induction xs arbitrary: t nov)
  case (Cons x xs)
  consider "f = x" | "f \<noteq> x" "pair_of f x \<in> psi_pair_seen t" | "f \<noteq> x" "pair_of f x \<notin> psi_pair_seen t" by blast
  then show ?case
  proof cases
    case 1
    with Cons show ?thesis by (simp add: see_pair_def)
  next
    case 2
    then have "see_pair f x (t, nov) = (t, nov)" by (simp add: see_pair_def pair_of_def)
    moreover have "pair_of f ` (set (x # xs) - {f}) = insert (pair_of f x) (pair_of f ` (set xs - {f}))"
      using 2(1) by auto
    ultimately show ?thesis using Cons.IH 2(2) by (simp add: insert_absorb)
  next
    case 3
    then have "see_pair f x (t, nov) = (t\<lparr>psi_pair_seen := insert (pair_of f x) (psi_pair_seen t)\<rparr>, min nov 2)"
      by (simp add: see_pair_def pair_of_def)
    moreover have "pair_of f ` (set (x # xs) - {f}) = insert (pair_of f x) (pair_of f ` (set xs - {f}))"
      using 3(1) by auto
    ultimately show ?thesis using Cons.IH 3(2) by simp
  qed
qed simp

lemma fold_see_pairs:
  "fold (\<lambda>(a, f). fold (see_pair f) (L a)) xs (t, nov) =
     (t\<lparr>psi_pair_seen := psi_pair_seen t \<union> (\<Union>(a, f) \<in> set xs. pair_of f ` (set (L a) - {f}))\<rparr>,
      if (\<Union>(a, f) \<in> set xs. pair_of f ` (set (L a) - {f})) \<subseteq> psi_pair_seen t then nov else min nov 2)"
proof (induction xs arbitrary: t nov)
  case (Cons x xs)
  obtain a f where x: "x = (a, f)" by (cases x)
  let ?A = "pair_of f ` (set (L a) - {f})" and ?B = "\<Union>(a, f) \<in> set xs. pair_of f ` (set (L a) - {f})"
  have gen: "(if B \<subseteq> S \<union> A then if A \<subseteq> S then nov else min nov 2
        else min (if A \<subseteq> S then nov else min nov 2) 2) =
      (if A \<union> B \<subseteq> S then nov else min nov 2)" for A B S :: "(nat \<times> nat) set"
    by (cases "A \<subseteq> S") (simp_all add: Un_absorb2)
  have sub: "(if ?B \<subseteq> psi_pair_seen t \<union> ?A then if ?A \<subseteq> psi_pair_seen t then nov else min nov 2
        else min (if ?A \<subseteq> psi_pair_seen t then nov else min nov 2) 2) =
      (if ?A \<union> ?B \<subseteq> psi_pair_seen t then nov else min nov 2)" by (rule gen)
  have "fold (\<lambda>(a, f). fold (see_pair f) (L a)) (x # xs) (t, nov) =
      (t\<lparr>psi_pair_seen := psi_pair_seen t \<union> (?A \<union> ?B)\<rparr>,
       if ?A \<union> ?B \<subseteq> psi_pair_seen t then nov else min nov 2)"
    unfolding sub [symmetric] by (simp add: x fold_see_pair Cons.IH Un_assoc)
  then show ?case by (simp only: x list.set(2) UN_insert prod.case)
qed simp

definition push_pair :: "(nat \<Rightarrow> rat) \<Rightarrow> nat \<times> nat \<Rightarrow> tables \<times> nat \<Rightarrow> tables \<times> nat" where
  "push_pair d p tn = (if fst p = snd p then tn else see_with_psi (fst p) (snd p) (d (snd p)) tn)"

lemma fold_push_pair:
  "fold (push_pair d) ps (t, nov) =
     (t\<lparr>best_sdist_with_psi := best_join (best_sdist_with_psi t) {p \<in> set ps. fst p \<noteq> snd p} (\<lambda>p. d (snd p))\<rparr>,
      if \<exists>p \<in> {p \<in> set ps. fst p \<noteq> snd p}. improves (best_sdist_with_psi t) p (d (snd p)) then min nov 2 else nov)"
proof (induction ps arbitrary: t nov)
  case (Cons p ps)
  have set: "{q \<in> set (p # ps). fst q \<noteq> snd q} =
      (if fst p = snd p then {q \<in> set ps. fst q \<noteq> snd q} else insert p {q \<in> set ps. fst q \<noteq> snd q})" by auto
  show ?case
  proof (cases "fst p = snd p")
    case True
    then have "push_pair d p (t, nov) = (t, nov)" by (simp add: push_pair_def)
    then show ?thesis unfolding set if_P [OF True] by (simp only: fold.simps comp_apply Cons.IH)
  next
    case False
    let ?D = "\<lambda>p. d (snd p)" and ?K = "{q \<in> set ps. fst q \<noteq> snd q}" and ?m = "best_sdist_with_psi t"
    define m' where "m' = (if improves ?m p (?D p) then ?m(p \<mapsto> ?D p) else ?m)"
    have join: "best_join ?m (insert p ?K) ?D = best_join m' ?K ?D"
      using best_join_insert [of ?m p ?K ?D] by (simp only: m'_def)
    have any: "(\<exists>k \<in> insert p ?K. improves ?m k (?D k)) \<longleftrightarrow> improves ?m p (?D p) \<or> (\<exists>k \<in> ?K. improves m' k (?D k))"
      using improves_insert [of p ?K ?m ?D] by (simp only: m'_def)
    have push: "push_pair d p (t, nov) =
        (t\<lparr>best_sdist_with_psi := m'\<rparr>, if improves ?m p (?D p) then min nov 2 else nov)"
      using False by (cases p) (simp add: push_pair_def see_with_psi_def m'_def)
    show ?thesis
      unfolding set if_not_P [OF False] join any fold.simps comp_apply push Cons.IH
      by (cases "improves ?m p (?D p)"; cases "\<exists>k \<in> ?K. improves m' k (?D k)") auto
  qed
qed simp

lemma fold_product: "fold g (List.product xs ys) s = fold (\<lambda>x. fold (\<lambda>y. g (x, y)) ys) xs s"
proof (induction xs arbitrary: s)
  case (Cons x xs)
  have "fold g (map (Pair x) ys) s = fold (\<lambda>y. g (x, y)) ys s" for s by (induction ys arbitrary: s) auto
  with Cons show ?case by simp
qed simp

lemma pass_c1_pairs:
  assumes "new \<longrightarrow> pa_newly pa = pa_current pa"
  shows "(\<Union>(a, f) \<in> set (indexed (pa_newly pa)). pair_of f ` (set (drop (if new then a + 1 else 0) (pa_current pa)) - {f})) =
    {pair_of f i | f i. f \<in> set (pa_newly pa) \<and> i \<in> set (pa_current pa) \<and> f \<noteq> i}"
    (is "?L = ?R")
proof
  show "?L \<subseteq> ?R" by (auto simp: indexed_def dest: set_zip_rightD in_set_dropD)
  have sym: "pair_of f i = pair_of i f" for f i by (auto simp: pair_of_def)
  show "?R \<subseteq> ?L"
  proof
    fix p assume "p \<in> ?R"
    then obtain f i where p: "p = pair_of f i" and f: "f \<in> set (pa_newly pa)" and i: "i \<in> set (pa_current pa)"
      and ne: "f \<noteq> i" by blast
    have mem: "p \<in> ?L" if "a < length (pa_newly pa)" "g = pa_newly pa ! a"
        "h \<in> set (drop (if new then a + 1 else 0) (pa_current pa))" "p = pair_of g h" "g \<noteq> h" for a g h
    proof -
      have "(a, g) \<in> set (indexed (pa_newly pa))" using that(1,2) by (force simp: indexed_def set_zip)
      then show ?thesis using that(3-5) by force
    qed
    from f obtain a where a: "a < length (pa_newly pa)" "f = pa_newly pa ! a" by (metis in_set_conv_nth)
    show "p \<in> ?L"
    proof (cases new)
      case False
      with mem [OF a] i ne p show ?thesis by simp
    next
      case True
      with assms have eq: "pa_newly pa = pa_current pa" by simp
      with i obtain b where b: "b < length (pa_newly pa)" "i = pa_newly pa ! b" by (metis in_set_conv_nth)
      have later: "xs ! n \<in> set (drop (Suc m) xs)" if "m < n" "n < length xs" for m n and xs :: "nat list"
        using that by (auto simp: in_set_conv_nth intro!: exI [of _ "n - Suc m"])
      from ne a b have "a < b \<or> b < a" by (metis linorder_neq_iff)
      then show ?thesis
      proof
        assume "a < b"
        from later [OF this b(1)] show ?thesis using mem [OF a, of i] True b p ne eq by simp
      next
        assume "b < a"
        from later [OF this a(1)] show ?thesis using mem [OF b, of f] True a p ne eq sym by auto
      qed
    qed
  qed
qed

text \<open>What the passes read: the sets of leaves of pass A, and a distance for those they look up.\<close>

definition sets_of :: "pass_a \<Rightarrow> subgoals" where
  "sets_of pa = \<lparr>sg_newly = set (pa_newly pa), sg_current = set (pa_current pa),
     sg_persisting = set (pa_persisting pa), sg_improved = set (pa_improved pa), sg_unsat = set (pa_unsat pa)\<rparr>"

lemma judge_learns:
  assumes new: "new \<longrightarrow> pa_newly pa = pa_current pa"
    and improved: "\<And>i. i \<in> set (pa_improved pa) \<Longrightarrow> pa_sdist pa i = Some (d i)"
    and unsat: "\<And>i. i \<in> set (pa_unsat pa) \<Longrightarrow>
      (case pa_sdist pa i of Some x \<Rightarrow> Some x | None \<Rightarrow> map_option fst (nn_parent_num nn i)) = Some (d i)"
  shows "judge new part pa nn = Inr (novelty_class (sets_of pa) d (get_partition part nn),
    nn\<lparr>nn_partitions := (nn_partitions nn)(part \<mapsto> learn (sets_of pa) d (get_partition part nn))\<rparr>)"
proof -
  let ?t = "get_partition part nn" and ?g = "sets_of pa"
  let ?one = "(\<exists>f \<in> sg_newly ?g. f \<notin> psi_seen ?t) \<or> (\<exists>i \<in> sg_improved ?g. improves (best_sdist ?t) i (d i))"
  let ?n1 = "if ?one then 1 else 3 :: nat"
  let ?t1 = "?t\<lparr>psi_seen := psi_seen ?t \<union> sg_newly ?g,
      best_sdist := best_join (best_sdist ?t) (sg_improved ?g) d\<rparr>"
  have b: "pass_b pa (?t, 3) = Inr (?t1, ?n1)"
    unfolding pass_b_def fold_see_psi
    by (subst rfold_see_sdist [where d = d]) (auto simp: improved sets_of_def)
  let ?t2 = "?t1\<lparr>psi_pair_seen := psi_pair_seen ?t \<union> new_pairs ?g\<rparr>"
  let ?n2 = "if new_pairs ?g \<subseteq> psi_pair_seen ?t then ?n1 else min ?n1 2"
  have c1: "pass_c1 new pa (?t1, ?n1) = (?t2, ?n2)"
    unfolding pass_c1_def fold_see_pairs pass_c1_pairs [OF new] by (simp add: new_pairs_def sets_of_def)
  have c1b: "pass_c1b nn pa tn = Inr (fold (push_pair d) (List.product (pa_newly pa) (pa_unsat pa)) tn)" for tn
    unfolding pass_c1b_def fold_product
  proof (rule rfold_pure, rule rfold_pure)
    fix f i and s :: "tables \<times> nat" assume "i \<in> set (pa_unsat pa)"
    from unsat [OF this] show "(if f = i then Inr s
       else (case pa_sdist pa i of
         Some d \<Rightarrow> Inr (see_with_psi f i d s)
       | None \<Rightarrow> (case nn_parent_num nn i of
           None \<Rightarrow> Inl KeyErr | Some x \<Rightarrow> Inr (see_with_psi f i (fst x) s)))) = Inr (push_pair d (f, i) s)"
      by (cases "pa_sdist pa i"; cases "nn_parent_num nn i") (auto simp: push_pair_def)
  qed
  have c2: "pass_c2 pa tn = Inr (fold (push_pair d)
      (map (\<lambda>(i, f). (f, i)) (List.product (pa_improved pa) (pa_persisting pa))) tn)" for tn
    unfolding pass_c2_def fold_map fold_product
  proof (rule rfold_pure)
    have push: "(\<lambda>f tn. if f = i then tn else see_with_psi f i (d i) tn) = (\<lambda>f. push_pair d (f, i))" for i
      by (simp add: push_pair_def fun_eq_iff)
    fix i and s :: "tables \<times> nat" assume "i \<in> set (pa_improved pa)"
    from improved [OF this] show "(case pa_sdist pa i of None \<Rightarrow> Inl KeyErr
        | Some d \<Rightarrow> Inr (fold (\<lambda>f tn. if f = i then tn else see_with_psi f i d tn) (pa_persisting pa) s)) =
      Inr (fold (\<lambda>f. (push_pair d \<circ> (\<lambda>(i, f). (f, i))) (i, f)) (pa_persisting pa) s)"
      by (simp add: push comp_def)
  qed
  let ?ps = "List.product (pa_newly pa) (pa_unsat pa) @
      map (\<lambda>(i, f). (f, i)) (List.product (pa_improved pa) (pa_persisting pa))"
  have ps: "{p \<in> set ?ps. fst p \<noteq> snd p} = closing_pairs ?g"
    by (auto simp: closing_pairs_def sets_of_def)
  have "judge new part pa nn = rbind (Inr (fold (push_pair d) ?ps (?t2, ?n2)))
      (\<lambda>(t, nov). Inr (nov, nn\<lparr>nn_partitions := (nn_partitions nn)(part \<mapsto> t)\<rparr>))"
    using new by (simp add: judge_def b c1 c1b c2 rassert_def)
  also have "\<dots> = Inr (if \<exists>p \<in> closing_pairs ?g. improves (best_sdist_with_psi ?t) p (d (snd p)) then min ?n2 2 else ?n2,
      nn\<lparr>nn_partitions := (nn_partitions nn)(part \<mapsto>
        ?t2\<lparr>best_sdist_with_psi := best_join (best_sdist_with_psi ?t) (closing_pairs ?g) (\<lambda>p. d (snd p))\<rparr>)\<rparr>)"
    unfolding fold_push_pair ps by simp
  also have "?t2\<lparr>best_sdist_with_psi := best_join (best_sdist_with_psi ?t) (closing_pairs ?g) (\<lambda>p. d (snd p))\<rparr> =
      learn ?g d ?t" by (simp add: learn_def)
  also have "(if \<exists>p \<in> closing_pairs ?g. improves (best_sdist_with_psi ?t) p (d (snd p)) then min ?n2 2 else ?n2) =
      novelty_class ?g d ?t" by (auto simp: novelty_class_def)
  finally show ?thesis .
qed


section \<open>Pass A\<close>

lemma no_leaves_simps [simp]:
  "pa_newly no_leaves = []" "pa_current no_leaves = []" "pa_persisting no_leaves = []"
  "pa_improved no_leaves = []" "pa_unsat no_leaves = []" "pa_sdist no_leaves = (\<lambda>i. None)"
  by (simp_all add: no_leaves_def)

lemma compute_sdist_cases:
  "compute_sdist ifs a b k asg = Inr (d, s) \<Longrightarrow>
     s = (if k = ''=='' then d = 0 else if k = ''<='' then 0 \<le> d else 0 < d) \<and> (k = ''=='' \<longrightarrow> d \<le> 0)"
  by (auto simp: compute_sdist_def rbind_eq_Inr split: if_splits)

text \<open>A numeric subgoal that becomes satisfied has come closer.\<close>

lemma satisfied_closer:
  assumes "readable ifs ls p" "readable ifs ls asg" "i < length ls" "is_numeric (ls ! i)"
    and "satisfied ifs ls asg i" "\<not> satisfied ifs ls p i"
  shows "leaf_dist ifs ls p i < leaf_dist ifs ls asg i"
proof -
  obtain a b k where l: "ls ! i = NumLeaf a b k" using assms(4) by (cases "ls ! i") auto
  from readableD [OF assms(1,3)] readableD [OF assms(2,3)] l
  have "compute_sdist ifs a b k p = Inr (leaf_dist ifs ls p i, satisfied ifs ls p i)"
    "compute_sdist ifs a b k asg = Inr (leaf_dist ifs ls asg i, satisfied ifs ls asg i)" by simp_all
  from compute_sdist_cases [OF this(1)] compute_sdist_cases [OF this(2)] assms(5,6) show ?thesis
    by (auto split: if_splits)
qed

lemma dense_leaf_reading:
  assumes "leaf_reading ifs l asg = Inr (d, sat)"
  shows "dense_leaf ifs asg (i, l) pa = Inr
    (if sat then pa\<lparr>pa_current := pa_current pa @ [i], pa_newly := pa_newly pa @ [i],
        pa_sdist := if is_numeric l then (pa_sdist pa)(i \<mapsto> d) else pa_sdist pa\<rparr>
     else if is_numeric l then pa\<lparr>pa_unsat := pa_unsat pa @ [i], pa_improved := pa_improved pa @ [i],
        pa_sdist := (pa_sdist pa)(i \<mapsto> d)\<rparr> else pa)"
  using assms by (cases l) (auto simp: dense_leaf_def Let_def rbind_eq_Inr)

text \<open>Pass A on a fresh partition: every leaf the state satisfies is new.\<close>

lemma dense_pass:
  assumes "readable ifs ls asg" "set ids \<subseteq> {..<length ls}"
  shows "\<exists>pa'. rfold (dense_leaf ifs asg) (map (\<lambda>i. (i, ls ! i)) ids) pa = Inr pa' \<and>
    pa_newly pa' = pa_newly pa @ filter (satisfied ifs ls asg) ids \<and>
    pa_current pa' = pa_current pa @ filter (satisfied ifs ls asg) ids \<and>
    pa_persisting pa' = pa_persisting pa \<and>
    pa_improved pa' = pa_improved pa @ filter (\<lambda>i. is_numeric (ls ! i) \<and> \<not> satisfied ifs ls asg i) ids \<and>
    pa_unsat pa' = pa_unsat pa @ filter (\<lambda>i. is_numeric (ls ! i) \<and> \<not> satisfied ifs ls asg i) ids \<and>
    pa_sdist pa' = (\<lambda>i. if i \<in> set ids \<and> is_numeric (ls ! i) then Some (leaf_dist ifs ls asg i) else pa_sdist pa i)"
  using assms(2)
proof (induction ids arbitrary: pa)
  case (Cons i ids)
  have read: "leaf_reading ifs (ls ! i) asg = Inr (leaf_dist ifs ls asg i, satisfied ifs ls asg i)"
    using Cons.prems by (intro readableD [OF assms(1)]) simp
  obtain pa1 where pa1: "dense_leaf ifs asg (i, ls ! i) pa = Inr pa1" using dense_leaf_reading [OF read] by blast
  have sub: "set ids \<subseteq> {..<length ls}" using Cons.prems by simp
  from pa1 [unfolded dense_leaf_reading [OF read]] Cons.IH [OF sub, of pa1] pa1 show ?case
    by (auto simp: fun_eq_iff)
qed (auto simp: fun_eq_iff)

text \<open>The cached features are those of the parent.\<close>

definition cached :: "ifenv \<Rightarrow> const list \<Rightarrow> novelty \<Rightarrow> bool" where
  "cached ifs p nn \<longleftrightarrow>
     (\<forall>i b. nn_parent_prop nn i = Some b \<longrightarrow> b = satisfied ifs (nn_leaves nn) p i) \<and>
     (\<forall>i x. nn_parent_num nn i = Some x \<longrightarrow>
        x = (leaf_dist ifs (nn_leaves nn) p i, satisfied ifs (nn_leaves nn) p i)) \<and>
     (\<forall>s. nn_snapshot nn = Some s \<longrightarrow>
        set (fst s) = {i. i < length (nn_leaves nn) \<and> satisfied ifs (nn_leaves nn) p i} \<and>
        set (snd s) = {i. i < length (nn_leaves nn) \<and> is_numeric (nn_leaves nn ! i) \<and> \<not> satisfied ifs (nn_leaves nn) p i} \<and>
        (\<forall>i < length (nn_leaves nn). is_numeric (nn_leaves nn ! i) \<longrightarrow> nn_parent_num nn i \<noteq> None))"

text \<open>Only the caches differ.\<close>

definition same_tables :: "novelty \<Rightarrow> novelty \<Rightarrow> bool" where
  "same_tables nn nn' \<longleftrightarrow> nn_leaves nn' = nn_leaves nn \<and> nn_readers nn' = nn_readers nn \<and>
     nn_partitions nn' = nn_partitions nn \<and> nn_max_partition nn' = nn_max_partition nn"

lemma same_tables_refl: "same_tables nn nn"
  by (simp add: same_tables_def)

lemma same_tables_trans: "same_tables a b \<Longrightarrow> same_tables b c \<Longrightarrow> same_tables a c"
  by (simp add: same_tables_def)

lemma parent_prop_cached:
  assumes "cached ifs p nn" "readable ifs (nn_leaves nn) p" "i < length (nn_leaves nn)" "nn_leaves nn ! i = PropLeaf op"
  shows "\<exists>nn'. parent_prop ifs p i op nn = Inr (satisfied ifs (nn_leaves nn) p i, nn') \<and> cached ifs p nn' \<and>
    same_tables nn nn' \<and> nn_snapshot nn' = nn_snapshot nn \<and> nn_parent_num nn' = nn_parent_num nn"
proof (cases "nn_parent_prop nn i")
  case (Some b)
  with assms(1) have "b = satisfied ifs (nn_leaves nn) p i" by (simp add: cached_def)
  with Some assms(1) show ?thesis by (simp add: parent_prop_def same_tables_refl)
next
  case None
  from readableD [OF assms(2,3)] assms(4) obtain v where
    v: "operand_value ifs op p = Inr v" "satisfied ifs (nn_leaves nn) p i = (v = CBool True)"
    by (auto simp: rbind_eq_Inr)
  with None assms(1) show ?thesis by (auto simp: parent_prop_def same_tables_def cached_def Let_def)
qed

lemma parent_num_cached:
  assumes "cached ifs p nn" "readable ifs (nn_leaves nn) p" "i < length (nn_leaves nn)" "nn_leaves nn ! i = NumLeaf a b k"
  shows "\<exists>nn'. parent_num ifs p i a b k nn = Inr ((leaf_dist ifs (nn_leaves nn) p i, satisfied ifs (nn_leaves nn) p i), nn') \<and>
    cached ifs p nn' \<and> same_tables nn nn' \<and> nn_snapshot nn' = nn_snapshot nn \<and>
    nn_parent_num nn' i \<noteq> None \<and> (\<forall>j. nn_parent_num nn j \<noteq> None \<longrightarrow> nn_parent_num nn' j \<noteq> None)"
proof (cases "nn_parent_num nn i")
  case (Some x)
  with assms(1) have "x = (leaf_dist ifs (nn_leaves nn) p i, satisfied ifs (nn_leaves nn) p i)" unfolding cached_def by blast
  with Some assms(1) show ?thesis by (simp add: parent_num_def same_tables_refl)
next
  case None
  from readableD [OF assms(2,3)] assms(4)
  have "compute_sdist ifs a b k p = Inr (leaf_dist ifs (nn_leaves nn) p i, satisfied ifs (nn_leaves nn) p i)" by simp
  with None assms(1) show ?thesis by (auto simp: parent_num_def same_tables_def cached_def Let_def)
qed

text \<open>Pass A against the parent, over the leaves \<open>ids\<close>.\<close>

lemma sparse_leaf_classified:
  assumes "cached ifs p nn" "readable ifs (nn_leaves nn) p" "readable ifs (nn_leaves nn) asg" "i < length (nn_leaves nn)"
    and "ls = nn_leaves nn"
  shows "\<exists>pa' nn'. sparse_leaf ifs p asg i (pa, nn) = Inr (pa', nn') \<and> cached ifs p nn' \<and> same_tables nn nn' \<and>
    (let sat = satisfied ifs ls asg i; was = satisfied ifs ls p i; num = is_numeric (ls ! i);
         d = leaf_dist ifs ls asg i; add = (\<lambda>c xs. if c then xs @ [i] else xs) in
     pa_newly pa' = add (sat \<and> \<not> was) (pa_newly pa) \<and> pa_current pa' = add sat (pa_current pa) \<and>
     pa_persisting pa' = add (sat \<and> was) (pa_persisting pa) \<and>
     pa_improved pa' = add (num \<and> \<not> sat \<and> \<not> was \<and> leaf_dist ifs ls p i < d) (pa_improved pa) \<and>
     pa_unsat pa' = add (num \<and> \<not> sat) (pa_unsat pa) \<and>
     pa_sdist pa' = (if num then (pa_sdist pa)(i \<mapsto> d) else pa_sdist pa))"
proof (cases "nn_leaves nn ! i")
  case (PropLeaf op)
  obtain nn' where nn': "parent_prop ifs p i op nn = Inr (satisfied ifs ls p i, nn')" "cached ifs p nn'" "same_tables nn nn'"
    using parent_prop_cached [OF assms(1,2,4) PropLeaf] assms(5) by auto
  from readableD [OF assms(3,4)] PropLeaf assms(5) obtain v where
    v: "operand_value ifs op asg = Inr v" "satisfied ifs ls asg i = (v = CBool True)" by (auto simp: rbind_eq_Inr)
  show ?thesis
    using nn' v PropLeaf assms(4,5) by (auto simp: sparse_leaf_def py_nth_int Let_def)
next
  case (NumLeaf a b k)
  obtain nn' where nn': "parent_num ifs p i a b k nn = Inr ((leaf_dist ifs ls p i, satisfied ifs ls p i), nn')"
    "cached ifs p nn'" "same_tables nn nn'"
    using parent_num_cached [OF assms(1,2,4) NumLeaf] assms(5) by auto
  have v: "compute_sdist ifs a b k asg = Inr (leaf_dist ifs ls asg i, satisfied ifs ls asg i)"
    using readableD [OF assms(3,4)] NumLeaf assms(5) by simp
  have closer: "satisfied ifs ls asg i \<Longrightarrow> \<not> satisfied ifs ls p i \<Longrightarrow> leaf_dist ifs ls p i < leaf_dist ifs ls asg i"
    using satisfied_closer [of ifs ls p asg i] assms NumLeaf by simp
  show ?thesis
    using nn' v NumLeaf assms(4,5) closer by (auto simp: sparse_leaf_def py_nth_int Let_def)
qed

lemma sparse_pass:
  assumes "cached ifs p nn" "readable ifs (nn_leaves nn) p" "readable ifs (nn_leaves nn) asg"
    and "set ids \<subseteq> {..<length (nn_leaves nn)}" "ls = nn_leaves nn"
  shows "\<exists>pa' nn'. rfold (sparse_leaf ifs p asg) ids (pa, nn) = Inr (pa', nn') \<and> cached ifs p nn' \<and> same_tables nn nn' \<and>
    (let sat = satisfied ifs ls asg; was = satisfied ifs ls p in
     pa_newly pa' = pa_newly pa @ filter (\<lambda>i. sat i \<and> \<not> was i) ids \<and> pa_current pa' = pa_current pa @ filter sat ids \<and>
     pa_persisting pa' = pa_persisting pa @ filter (\<lambda>i. sat i \<and> was i) ids \<and>
     pa_improved pa' = pa_improved pa @ filter (\<lambda>i. is_numeric (ls ! i) \<and> \<not> sat i \<and> \<not> was i \<and>
       leaf_dist ifs ls p i < leaf_dist ifs ls asg i) ids \<and>
     pa_unsat pa' = pa_unsat pa @ filter (\<lambda>i. is_numeric (ls ! i) \<and> \<not> sat i) ids \<and>
     pa_sdist pa' = (\<lambda>i. if i \<in> set ids \<and> is_numeric (ls ! i) then Some (leaf_dist ifs ls asg i) else pa_sdist pa i))"
  using assms
proof (induction ids arbitrary: pa nn)
  case (Cons i ids)
  have i: "i < length (nn_leaves nn)" using Cons.prems(4) by simp
  obtain pa1 nn1 where one: "sparse_leaf ifs p asg i (pa, nn) = Inr (pa1, nn1)" "cached ifs p nn1" "same_tables nn nn1"
    and pa1: "let sat = satisfied ifs ls asg i; was = satisfied ifs ls p i; num = is_numeric (ls ! i);
         d = leaf_dist ifs ls asg i; add = (\<lambda>c xs. if c then xs @ [i] else xs) in
     pa_newly pa1 = add (sat \<and> \<not> was) (pa_newly pa) \<and> pa_current pa1 = add sat (pa_current pa) \<and>
     pa_persisting pa1 = add (sat \<and> was) (pa_persisting pa) \<and>
     pa_improved pa1 = add (num \<and> \<not> sat \<and> \<not> was \<and> leaf_dist ifs ls p i < d) (pa_improved pa) \<and>
     pa_unsat pa1 = add (num \<and> \<not> sat) (pa_unsat pa) \<and>
     pa_sdist pa1 = (if num then (pa_sdist pa)(i \<mapsto> d) else pa_sdist pa)"
    using sparse_leaf_classified [OF Cons.prems(1-3) i Cons.prems(5), of pa] by blast
  have same: "nn_leaves nn1 = nn_leaves nn" using one(3) by (simp add: same_tables_def)
  obtain pa2 nn2 where two: "rfold (sparse_leaf ifs p asg) ids (pa1, nn1) = Inr (pa2, nn2)" "cached ifs p nn2" "same_tables nn1 nn2"
    and pa2: "let sat = satisfied ifs ls asg; was = satisfied ifs ls p in
     pa_newly pa2 = pa_newly pa1 @ filter (\<lambda>i. sat i \<and> \<not> was i) ids \<and> pa_current pa2 = pa_current pa1 @ filter sat ids \<and>
     pa_persisting pa2 = pa_persisting pa1 @ filter (\<lambda>i. sat i \<and> was i) ids \<and>
     pa_improved pa2 = pa_improved pa1 @ filter (\<lambda>i. is_numeric (ls ! i) \<and> \<not> sat i \<and> \<not> was i \<and>
       leaf_dist ifs ls p i < leaf_dist ifs ls asg i) ids \<and>
     pa_unsat pa2 = pa_unsat pa1 @ filter (\<lambda>i. is_numeric (ls ! i) \<and> \<not> sat i) ids \<and>
     pa_sdist pa2 = (\<lambda>i. if i \<in> set ids \<and> is_numeric (ls ! i) then Some (leaf_dist ifs ls asg i) else pa_sdist pa1 i)"
    using Cons.IH [of nn1 pa1] one(2) Cons.prems same by auto
  have "rfold (sparse_leaf ifs p asg) (i # ids) (pa, nn) = Inr (pa2, nn2)" using one(1) two(1) by simp
  moreover note two(2) same_tables_trans [OF one(3) two(3)]
  ultimately show ?case using pa1 pa2 unfolding Let_def by (auto simp: fun_eq_iff)
qed (auto simp: same_tables_refl fun_eq_iff)


section \<open>The parent snapshot and the dirty leaves\<close>

lemma snapshot_pass:
  assumes "cached ifs p nn" "readable ifs (nn_leaves nn) p" "set ids \<subseteq> {..<length (nn_leaves nn)}" "ls = nn_leaves nn"
  shows "\<exists>nn'. rfold (snapshot_leaf ifs p) (map (\<lambda>i. (i, ls ! i)) ids) ((sat, unsat), nn) =
      Inr ((sat @ filter (satisfied ifs ls p) ids,
        unsat @ filter (\<lambda>i. is_numeric (ls ! i) \<and> \<not> satisfied ifs ls p i) ids), nn') \<and>
    cached ifs p nn' \<and> same_tables nn nn' \<and> nn_snapshot nn' = nn_snapshot nn \<and>
    (\<forall>i \<in> set ids. is_numeric (ls ! i) \<longrightarrow> nn_parent_num nn' i \<noteq> None) \<and>
    (\<forall>i. nn_parent_num nn i \<noteq> None \<longrightarrow> nn_parent_num nn' i \<noteq> None)"
  using assms
proof (induction ids arbitrary: sat unsat nn)
  case (Cons i ids)
  let ?s = "satisfied ifs ls p i" and ?num = "is_numeric (ls ! i)"
  have i: "i < length (nn_leaves nn)" using Cons.prems(3) by simp
  have "\<exists>nn1. snapshot_leaf ifs p (i, ls ! i) ((sat, unsat), nn) =
      Inr ((if ?s then sat @ [i] else sat, if ?num \<and> \<not> ?s then unsat @ [i] else unsat), nn1) \<and>
    cached ifs p nn1 \<and> same_tables nn nn1 \<and> nn_snapshot nn1 = nn_snapshot nn \<and>
    (?num \<longrightarrow> nn_parent_num nn1 i \<noteq> None) \<and> (\<forall>j. nn_parent_num nn j \<noteq> None \<longrightarrow> nn_parent_num nn1 j \<noteq> None)"
  proof (cases "nn_leaves nn ! i")
    case (PropLeaf op)
    from parent_prop_cached [OF Cons.prems(1,2) i PropLeaf] PropLeaf Cons.prems(4) show ?thesis
      by (auto simp: snapshot_leaf_def)
  next
    case (NumLeaf a b k)
    from parent_num_cached [OF Cons.prems(1,2) i NumLeaf] NumLeaf Cons.prems(4) show ?thesis
      by (auto simp: snapshot_leaf_def)
  qed
  then obtain nn1 where one: "snapshot_leaf ifs p (i, ls ! i) ((sat, unsat), nn) =
      Inr ((if ?s then sat @ [i] else sat, if ?num \<and> \<not> ?s then unsat @ [i] else unsat), nn1)"
    "cached ifs p nn1" "same_tables nn nn1" "nn_snapshot nn1 = nn_snapshot nn"
    "?num \<longrightarrow> nn_parent_num nn1 i \<noteq> None" "\<forall>j. nn_parent_num nn j \<noteq> None \<longrightarrow> nn_parent_num nn1 j \<noteq> None" by blast
  have same: "nn_leaves nn1 = nn_leaves nn" using one(3) by (simp add: same_tables_def)
  from Cons.IH [of nn1 "if ?s then sat @ [i] else sat" "if ?num \<and> \<not> ?s then unsat @ [i] else unsat"]
  obtain nn2 where two: "rfold (snapshot_leaf ifs p) (map (\<lambda>i. (i, ls ! i)) ids)
      ((if ?s then sat @ [i] else sat, if ?num \<and> \<not> ?s then unsat @ [i] else unsat), nn1) =
      Inr (((if ?s then sat @ [i] else sat) @ filter (satisfied ifs ls p) ids,
        (if ?num \<and> \<not> ?s then unsat @ [i] else unsat) @ filter (\<lambda>i. is_numeric (ls ! i) \<and> \<not> satisfied ifs ls p i) ids), nn2)"
    "cached ifs p nn2" "same_tables nn1 nn2" "nn_snapshot nn2 = nn_snapshot nn1"
    "\<forall>i \<in> set ids. is_numeric (ls ! i) \<longrightarrow> nn_parent_num nn2 i \<noteq> None"
    "\<forall>i. nn_parent_num nn1 i \<noteq> None \<longrightarrow> nn_parent_num nn2 i \<noteq> None"
    using one(2) Cons.prems same by auto
  show ?case
    using one two same_tables_trans [OF one(3) two(3)] by (intro exI [of _ nn2]) auto
qed (auto simp: same_tables_refl)

lemma indexed_map: "indexed xs = map (\<lambda>i. (i, xs ! i)) [0..<length xs]"
  by (rule nth_equalityI) (simp_all add: indexed_def)

lemma ensure_snapshot_cached:
  assumes "cached ifs p nn" "readable ifs (nn_leaves nn) p" "ls = nn_leaves nn"
  shows "\<exists>snap nn'. ensure_parent_snapshot ifs p nn = Inr (snap, nn') \<and> cached ifs p nn' \<and> same_tables nn nn' \<and>
    set (fst snap) = {i. i < length ls \<and> satisfied ifs ls p i} \<and>
    set (snd snap) = {i. i < length ls \<and> is_numeric (ls ! i) \<and> \<not> satisfied ifs ls p i} \<and>
    (\<forall>i < length ls. is_numeric (ls ! i) \<longrightarrow> nn_parent_num nn' i \<noteq> None)"
proof (cases "nn_snapshot nn")
  case (Some s)
  with assms(1,3) show ?thesis
    by (intro exI [of _ s] exI [of _ nn]) (auto simp: ensure_parent_snapshot_def same_tables_refl cached_def)
next
  case None
  let ?ids = "[0..<length ls]"
  have sub: "set ?ids \<subseteq> {..<length (nn_leaves nn)}" using assms(3) by auto
  obtain nn' where run: "rfold (snapshot_leaf ifs p) (map (\<lambda>i. (i, ls ! i)) ?ids) (([], []), nn) =
      Inr (([] @ filter (satisfied ifs ls p) ?ids,
        [] @ filter (\<lambda>i. is_numeric (ls ! i) \<and> \<not> satisfied ifs ls p i) ?ids), nn')"
    and nn': "cached ifs p nn'" "same_tables nn nn'"
      "\<forall>i \<in> set ?ids. is_numeric (ls ! i) \<longrightarrow> nn_parent_num nn' i \<noteq> None"
    using snapshot_pass [OF assms(1,2) sub assms(3), of "[]" "[]"] by blast
  let ?snap = "(filter (satisfied ifs ls p) ?ids, filter (\<lambda>i. is_numeric (ls ! i) \<and> \<not> satisfied ifs ls p i) ?ids)"
  have "ensure_parent_snapshot ifs p nn = Inr (?snap, nn'\<lparr>nn_snapshot := Some ?snap\<rparr>)"
    using None run assms(3) by (simp add: ensure_parent_snapshot_def indexed_map)
  moreover have "cached ifs p (nn'\<lparr>nn_snapshot := Some ?snap\<rparr>)"
    using nn' assms(3) unfolding cached_def same_tables_def by auto
  moreover have "same_tables nn (nn'\<lparr>nn_snapshot := Some ?snap\<rparr>)" using nn'(2) by (simp add: same_tables_def)
  ultimately show ?thesis using nn'(3) by (intro exI [of _ ?snap] exI) auto
qed

fun operand_fluents :: "leaf_operand \<Rightarrow> nat set" where
  "operand_fluents (OFluent f) = {f}"
| "operand_fluents (OConst c) = {}"
| "operand_fluents (OExp e) = fl_idx ` set (get_fluents e)"

fun leaf_fluents :: "leaf \<Rightarrow> nat set" where
  "leaf_fluents (PropLeaf op) = operand_fluents op"
| "leaf_fluents (NumLeaf a b k) = operand_fluents a \<union> operand_fluents b"

text \<open>Every leaf is listed with each fluent it reads.\<close>

definition readers_complete :: "novelty \<Rightarrow> bool" where
  "readers_complete nn \<longleftrightarrow>
     (\<forall>i < length (nn_leaves nn). \<forall>f \<in> leaf_fluents (nn_leaves nn ! i).
        f < length (nn_readers nn) \<and> i \<in> set (nn_readers nn ! f)) \<and>
     (\<forall>b \<in> set (nn_readers nn). set b \<subseteq> {..<length (nn_leaves nn)})"

lemma operand_value_agree:
  assumes "\<And>f. f \<in> operand_fluents op \<Longrightarrow> py_nth asg (int f) = py_nth asg' (int f)"
  shows "operand_value ifs op asg = operand_value ifs op asg'"
  using assms by (cases op) (auto intro!: evaluate_agree)

lemma leaf_reading_agree:
  assumes "\<And>f. f \<in> leaf_fluents l \<Longrightarrow> py_nth asg (int f) = py_nth asg' (int f)"
  shows "leaf_reading ifs l asg = leaf_reading ifs l asg'"
proof (cases l)
  case (PropLeaf op)
  with operand_value_agree [of op asg asg'] assms show ?thesis by simp
next
  case (NumLeaf a b k)
  with operand_value_agree [of a asg asg'] operand_value_agree [of b asg asg'] assms show ?thesis
    by (simp add: compute_sdist_def)
qed

lemma set_add_keys: "set (add_keys ks d) = set d \<union> set ks"
  by (induction ks arbitrary: d) (auto simp: add_keys_def)

lemma set_dirty_fold:
  "set (fold (\<lambda>f d. if f < n then add_keys (rs ! f) d else d) fs d) =
     set d \<union> (\<Union>f \<in> {f \<in> set fs. f < n}. set (rs ! f))"
  by (induction fs arbitrary: d) (auto simp: set_add_keys)

lemma mark_dirty_sound:
  assumes "mark_dirty_leaves same p asg nn = Inr dirty" "readers_complete nn"
    and "\<And>f. f < length asg \<Longrightarrow> same f \<Longrightarrow> p ! f = asg ! f"
  shows "set dirty \<subseteq> {..<length (nn_leaves nn)} \<and>
    (\<forall>i < length (nn_leaves nn). i \<notin> set dirty \<longrightarrow>
       satisfied ifs (nn_leaves nn) asg i = satisfied ifs (nn_leaves nn) p i \<and>
       leaf_dist ifs (nn_leaves nn) asg i = leaf_dist ifs (nn_leaves nn) p i)"
proof -
  from assms(1) have len: "length p = length asg"
    and dirty: "set dirty = (\<Union>f \<in> {f. f < length asg \<and> \<not> same f \<and> f < length (nn_readers nn)}. set (nn_readers nn ! f))"
    by (auto simp: mark_dirty_leaves_def rbind_eq_Inr set_dirty_fold)
  have "satisfied ifs (nn_leaves nn) asg i = satisfied ifs (nn_leaves nn) p i \<and>
       leaf_dist ifs (nn_leaves nn) asg i = leaf_dist ifs (nn_leaves nn) p i"
    if i: "i < length (nn_leaves nn)" "i \<notin> set dirty" for i
  proof -
    have "py_nth asg (int f) = py_nth p (int f)" if f: "f \<in> leaf_fluents (nn_leaves nn ! i)" for f
    proof (cases "f < length asg")
      case True
      have "f < length (nn_readers nn)" "i \<in> set (nn_readers nn ! f)"
        using assms(2) i(1) f by (auto simp: readers_complete_def)
      with dirty i(2) True have "same f" by blast
      with assms(3) [OF True] True len show ?thesis by (simp add: py_nth_int)
    qed (simp add: py_nth_def len)
    from leaf_reading_agree [OF this] show ?thesis by (simp add: satisfied_def leaf_dist_def)
  qed
  moreover have "set dirty \<subseteq> {..<length (nn_leaves nn)}"
  proof
    fix i assume "i \<in> set dirty"
    then obtain f where "f < length (nn_readers nn)" "i \<in> set (nn_readers nn ! f)" unfolding dirty by blast
    with assms(2) show "i \<in> {..<length (nn_leaves nn)}"
      unfolding readers_complete_def using nth_mem by blast
  qed
  ultimately show ?thesis by blast
qed


section \<open>The evaluation of a state\<close>

definition same_partition :: "(const list \<times> int) option \<Rightarrow> int \<Rightarrow> const list option" where
  "same_partition pp part = (case pp of Some (p, q) \<Rightarrow> if q = part then Some p else None | None \<Rightarrow> None)"

lemma get_partition_upd:
  "get_partition q (nn\<lparr>nn_partitions := (nn_partitions nn)(part \<mapsto> t)\<rparr>) = (if q = part then t else get_partition q nn)"
  by (simp add: get_partition_def)

lemma get_partition_same: "same_tables nn nn' \<Longrightarrow> get_partition q nn' = get_partition q nn"
  by (simp add: get_partition_def same_tables_def)

lemma cached_partitions [simp]: "cached ifs p (nn\<lparr>nn_partitions := ps\<rparr>) = cached ifs p nn"
  by (simp add: cached_def)

lemma nothing_new:
  "sg_newly g = {} \<Longrightarrow> sg_improved g = {} \<Longrightarrow> novelty_class g d t = 3 \<and> learn g d t = t"
  by (auto simp: novelty_class_def learn_def new_pairs_def closing_pairs_def)

definition novelty_kept :: "novelty \<Rightarrow> int \<Rightarrow> tables \<Rightarrow> novelty \<Rightarrow> bool" where
  "novelty_kept nn part t nn' \<longleftrightarrow> nn_leaves nn' = nn_leaves nn \<and> nn_readers nn' = nn_readers nn \<and>
     nn_max_partition nn' = nn_max_partition nn \<and>
     (\<forall>q. get_partition q nn' = (if q = part then t else get_partition q nn))"

lemma fresh_partition:
  assumes read: "readable ifs (nn_leaves nn) asg"
    and g: "g = subgoals_of ifs (nn_leaves nn) None asg" and d: "d = leaf_dist ifs (nn_leaves nn) asg"
  shows "rbind (rfold (dense_leaf ifs asg) (indexed (nn_leaves nn)) no_leaves) (\<lambda>pa. judge True part pa nn) =
    Inr (novelty_class g d (get_partition part nn),
      nn\<lparr>nn_partitions := (nn_partitions nn)(part \<mapsto> learn g d (get_partition part nn))\<rparr>)"
proof -
  let ?ls = "nn_leaves nn"
  have "set [0..<length ?ls] \<subseteq> {..<length ?ls}" by auto
  from dense_pass [OF read this, of no_leaves] obtain pa where
    pa: "rfold (dense_leaf ifs asg) (indexed ?ls) no_leaves = Inr pa"
      "pa_newly pa = filter (satisfied ifs ?ls asg) [0..<length ?ls]" "pa_current pa = pa_newly pa"
      "pa_persisting pa = []" "pa_improved pa = pa_unsat pa"
      "pa_unsat pa = filter (\<lambda>i. is_numeric (?ls ! i) \<and> \<not> satisfied ifs ?ls asg i) [0..<length ?ls]"
      "pa_sdist pa = (\<lambda>i. if i \<in> set [0..<length ?ls] \<and> is_numeric (?ls ! i) then Some (d i) else None)"
    by (elim exE conjE) (simp add: indexed_map d cong: if_cong)
  have sets: "sets_of pa = g"
    by (auto simp: sets_of_def pa(2-6) g subgoals_of_def Let_def)
  have "judge True part pa nn = Inr (novelty_class (sets_of pa) d (get_partition part nn),
      nn\<lparr>nn_partitions := (nn_partitions nn)(part \<mapsto> learn (sets_of pa) d (get_partition part nn))\<rparr>)"
    by (rule judge_learns) (simp_all add: pa(3), auto simp: pa(5-7))
  with pa(1) sets show ?thesis by simp
qed

lemma known_partition:
  assumes complete: "readers_complete nn" and read: "readable ifs (nn_leaves nn) asg" "readable ifs (nn_leaves nn) p"
    and cached: "cached ifs p nn" and len: "length p = length asg"
    and same: "\<And>f. f < length asg \<Longrightarrow> same f \<Longrightarrow> p ! f = asg ! f"
    and g: "g = subgoals_of ifs (nn_leaves nn) (Some p) asg" and d: "d = leaf_dist ifs (nn_leaves nn) asg"
  shows "\<exists>nn'. eval_novelty ifs same asg part (Some (p, part)) nn =
      Inr (novelty_class g d (get_partition part nn), nn') \<and>
    novelty_kept nn part (learn g d (get_partition part nn)) nn' \<and> cached ifs p nn'"
proof -
  let ?ls = "nn_leaves nn"
  let ?sat = "satisfied ifs ?ls asg" and ?was = "satisfied ifs ?ls p"
  obtain dirty where dirty: "mark_dirty_leaves same p asg nn = Inr dirty"
    using len by (simp add: mark_dirty_leaves_def)
  note sound = mark_dirty_sound [OF dirty complete same, of ifs]
  then have sub: "set dirty \<subseteq> {..<length ?ls}" by blast
  have clean: "?sat i = ?was i \<and> d i = leaf_dist ifs ?ls p i" if "i < length ?ls" "i \<notin> set dirty" for i
    using sound that d by blast
  have moved: "i \<in> set dirty" if "i < length ?ls" "?sat i \<noteq> ?was i \<or> leaf_dist ifs ?ls p i < d i" for i
    using clean [OF that(1)] that(2) by fastforce
  from sparse_pass [OF cached read(2,1) sub refl, of no_leaves] obtain pa nn1 where
    pa: "rfold (sparse_leaf ifs p asg) dirty (no_leaves, nn) = Inr (pa, nn1)"
    and nn1: "cached ifs p nn1" "same_tables nn nn1"
    and sets: "pa_newly pa = filter (\<lambda>i. ?sat i \<and> \<not> ?was i) dirty" "pa_current pa = filter ?sat dirty"
      "pa_persisting pa = filter (\<lambda>i. ?sat i \<and> ?was i) dirty"
      "pa_improved pa = filter (\<lambda>i. is_numeric (?ls ! i) \<and> \<not> ?sat i \<and> \<not> ?was i \<and>
         leaf_dist ifs ?ls p i < d i) dirty"
      "pa_unsat pa = filter (\<lambda>i. is_numeric (?ls ! i) \<and> \<not> ?sat i) dirty"
      "pa_sdist pa = (\<lambda>i. if i \<in> set dirty \<and> is_numeric (?ls ! i) then Some (d i) else None)"
    unfolding Let_def by (elim exE conjE) (simp add: d cong: if_cong)
  have newly: "sg_newly g = set (pa_newly pa)" "sg_improved g = set (pa_improved pa)"
    using moved sub unfolding sets g subgoals_of_def Let_def d [symmetric] by auto
  have run: "eval_novelty ifs same asg part (Some (p, part)) nn =
      (if pa_newly pa = [] \<and> pa_improved pa = [] then Inr (3, nn1)
       else rbind (ensure_parent_snapshot ifs p nn1) (\<lambda>(snap, nn2).
         judge False part (merge_clean dirty snap pa) nn2))"
    by (simp add: eval_novelty_def dirty pa)
  show ?thesis
  proof (cases "pa_newly pa = [] \<and> pa_improved pa = []")
    case True
    with newly nothing_new [of g d "get_partition part nn"] nn1 run show ?thesis
      by (auto simp: novelty_kept_def same_tables_def get_partition_def)
  next
    case False
    have ls1: "nn_leaves nn1 = ?ls" using nn1(2) by (simp add: same_tables_def)
    with read(2) have read1: "readable ifs (nn_leaves nn1) p" by simp
    from ensure_snapshot_cached [OF nn1(1) read1 ls1 [symmetric]] obtain snap nn2 where
      snap: "ensure_parent_snapshot ifs p nn1 = Inr (snap, nn2)" "cached ifs p nn2" "same_tables nn1 nn2"
        "set (fst snap) = {i. i < length ?ls \<and> ?was i}"
        "set (snd snap) = {i. i < length ?ls \<and> is_numeric (?ls ! i) \<and> \<not> ?was i}"
        "\<forall>i < length ?ls. is_numeric (?ls ! i) \<longrightarrow> nn_parent_num nn2 i \<noteq> None" by blast
    let ?pa = "merge_clean dirty snap pa"
    have same2: "same_tables nn nn2" by (rule same_tables_trans [OF nn1(2) snap(3)])
    then have ls2: "nn_leaves nn2 = ?ls" by (simp add: same_tables_def)
    have merged: "sets_of ?pa = g"
      using clean sub newly unfolding sets_of_def merge_clean_def g subgoals_of_def Let_def d [symmetric]
      by (auto simp: sets snap(4,5))
    have "judge False part ?pa nn2 = Inr (novelty_class (sets_of ?pa) d (get_partition part nn2),
      nn2\<lparr>nn_partitions := (nn_partitions nn2)(part \<mapsto> learn (sets_of ?pa) d (get_partition part nn2))\<rparr>)"
    proof (rule judge_learns)
      show "pa_sdist ?pa i = Some (d i)" if "i \<in> set (pa_improved ?pa)" for i
        using that by (auto simp: merge_clean_def sets)
      show "(case pa_sdist ?pa i of Some x \<Rightarrow> Some x | None \<Rightarrow> map_option fst (nn_parent_num nn2 i)) = Some (d i)"
        if i: "i \<in> set (pa_unsat ?pa)" for i
      proof (cases "i \<in> set dirty")
        case True
        with i show ?thesis by (auto simp: merge_clean_def sets snap(5))
      next
        case False
        with i have i': "i < length ?ls" "is_numeric (?ls ! i)" by (auto simp: merge_clean_def sets snap(5))
        with snap(6) obtain x where x: "nn_parent_num nn2 i = Some x" by blast
        with snap(2) ls2 have "x = (leaf_dist ifs ?ls p i, ?was i)" unfolding cached_def by metis
        with x clean [OF i'(1) False] False show ?thesis by (simp add: merge_clean_def sets)
      qed
    qed simp
    with run False snap(1) merged get_partition_same [OF same2] have
      "eval_novelty ifs same asg part (Some (p, part)) nn = Inr (novelty_class g d (get_partition part nn),
        nn2\<lparr>nn_partitions := (nn_partitions nn2)(part \<mapsto> learn g d (get_partition part nn))\<rparr>)" by simp
    with same2 snap(2) show ?thesis
      by (auto simp: novelty_kept_def same_tables_def get_partition_def)
  qed
qed

text \<open>A child as the search passes it: its assignments, its partition, and which slots it shares.\<close>

type_synonym child = "(nat \<Rightarrow> bool) \<times> const list \<times> int"

definition child_of :: "ifenv \<Rightarrow> leaf list \<Rightarrow> const list \<Rightarrow> child \<Rightarrow> bool" where
  "child_of ifs ls p c \<longleftrightarrow> (case c of (same, asg, part) \<Rightarrow> readable ifs ls asg \<and> length asg = length p \<and>
     (\<forall>f < length asg. same f \<longrightarrow> asg ! f = p ! f))"

lemma eval_child:
  assumes "readers_complete nn" "readable ifs (nn_leaves nn) p" "cached ifs p nn"
    and "child_of ifs (nn_leaves nn) p (same, asg, part)"
    and g: "g = subgoals_of ifs (nn_leaves nn) (same_partition (Some (p, q)) part) asg"
    and d: "d = leaf_dist ifs (nn_leaves nn) asg"
  shows "\<exists>nn'. eval_novelty ifs same asg part (Some (p, q)) nn =
      Inr (novelty_class g d (get_partition part nn), nn') \<and>
    novelty_kept nn part (learn g d (get_partition part nn)) nn' \<and> cached ifs p nn'"
proof (cases "q = part")
  case True
  with assms known_partition [OF assms(1) _ assms(2,3), of asg same g d part] show ?thesis
    by (simp add: child_of_def same_partition_def)
next
  case False
  with assms fresh_partition [of ifs nn asg g d part] show ?thesis
    by (auto simp: child_of_def same_partition_def eval_novelty_def novelty_kept_def get_partition_upd)
qed

text \<open>The children of one expansion, in the order they are generated.\<close>

fun eval_children ::
    "ifenv \<Rightarrow> const list \<times> int \<Rightarrow> child list \<Rightarrow> novelty \<Rightarrow> (nat list \<times> novelty) res" where
  "eval_children ifs pq [] nn = Inr ([], nn)"
| "eval_children ifs pq ((same, asg, part) # cs) nn =
     rbind (eval_novelty ifs same asg part (Some pq) nn) (\<lambda>(k, nn1).
     rbind (eval_children ifs pq cs nn1) (\<lambda>(ks, nn2). Inr (k # ks, nn2)))"

text \<open>The same over every subgoal, without caches.\<close>

fun judge_children ::
    "ifenv \<Rightarrow> leaf list \<Rightarrow> const list \<times> int \<Rightarrow> child list \<Rightarrow> (int \<Rightarrow> tables) \<Rightarrow> nat list \<times> (int \<Rightarrow> tables)" where
  "judge_children ifs ls pq [] ts = ([], ts)"
| "judge_children ifs ls pq ((same, asg, part) # cs) ts =
     (let g = subgoals_of ifs ls (same_partition (Some pq) part) asg; d = leaf_dist ifs ls asg;
          (ks, ts') = judge_children ifs ls pq cs (ts(part := learn g d (ts part)))
      in (novelty_class g d (ts part) # ks, ts'))"

lemma eval_children_judged:
  assumes "readers_complete nn" "readable ifs (nn_leaves nn) p" "cached ifs p nn"
    and "\<forall>c \<in> set cs. child_of ifs (nn_leaves nn) p c"
  shows "\<exists>nn'. eval_children ifs (p, q) cs nn =
      Inr (fst (judge_children ifs (nn_leaves nn) (p, q) cs (\<lambda>r. get_partition r nn)), nn') \<and>
    (\<lambda>r. get_partition r nn') = snd (judge_children ifs (nn_leaves nn) (p, q) cs (\<lambda>r. get_partition r nn)) \<and>
    nn_leaves nn' = nn_leaves nn \<and> nn_readers nn' = nn_readers nn \<and> nn_max_partition nn' = nn_max_partition nn"
  using assms
proof (induction cs arbitrary: nn)
  case (Cons c cs)
  obtain same asg part where c: "c = (same, asg, part)" by (cases c)
  let ?ls = "nn_leaves nn"
  let ?g = "subgoals_of ifs ?ls (same_partition (Some (p, q)) part) asg" and ?d = "leaf_dist ifs ?ls asg"
  obtain nn1 where one: "eval_novelty ifs same asg part (Some (p, q)) nn =
      Inr (novelty_class ?g ?d (get_partition part nn), nn1)"
    "novelty_kept nn part (learn ?g ?d (get_partition part nn)) nn1" "cached ifs p nn1"
    using eval_child [OF Cons.prems(1-3) _ refl refl, of same asg part q] Cons.prems(4) c by auto
  from one(2) have kept: "nn_leaves nn1 = ?ls" "nn_readers nn1 = nn_readers nn"
    "nn_max_partition nn1 = nn_max_partition nn"
    and ts: "(\<lambda>r. get_partition r nn1) =
      (\<lambda>r. get_partition r nn)(part := learn ?g ?d (get_partition part nn))"
    by (auto simp: novelty_kept_def fun_eq_iff)
  have "readers_complete nn1" using Cons.prems(1) kept by (simp add: readers_complete_def)
  from Cons.IH [OF this _ one(3)] Cons.prems(2,4) kept obtain nn2 where
    "eval_children ifs (p, q) cs nn1 =
      Inr (fst (judge_children ifs ?ls (p, q) cs (\<lambda>r. get_partition r nn1)), nn2)"
    "(\<lambda>r. get_partition r nn2) = snd (judge_children ifs ?ls (p, q) cs (\<lambda>r. get_partition r nn1))"
    "nn_leaves nn2 = ?ls" "nn_readers nn2 = nn_readers nn" "nn_max_partition nn2 = nn_max_partition nn" by auto
  with one(1) show ?case unfolding ts by (simp add: c Let_def case_prod_beta)
qed simp

lemma begin_expansion_facts [simp]:
  "nn_leaves (begin_expansion nn) = nn_leaves nn" "nn_readers (begin_expansion nn) = nn_readers nn"
  "get_partition q (begin_expansion nn) = get_partition q nn" "cached ifs p (begin_expansion nn)"
  "readers_complete (begin_expansion nn) = readers_complete nn"
  by (simp_all add: begin_expansion_def get_partition_def cached_def readers_complete_def)


section \<open>The catalogue\<close>

text \<open>The subgoals of a tree: its leaves under nested conjunctions and disjunctions.\<close>

fun tree_leaves :: "etree \<Rightarrow> etree list" where
  "tree_leaves (TOp k ts) = (if k = ''and'' \<or> k = ''or'' then concat (map tree_leaves ts) else [TOp k ts])"
| "tree_leaves t = [t]"

lemma tree_leaves_cases:
  "tree_leaves t = (if is_junction (root_node pos t) then concat (map tree_leaves (subtrees t)) else [t])"
  by (cases t) auto

lemma junction_operands: "is_junction (root_node pos t) \<Longrightarrow> node_operands (root_node pos t) = map root_index (placed pos (subtrees t))"
  by (cases t) (auto simp: roots_placed)

lemma subgoal_loop:
  assumes "\<forall>p \<in> set ps. occurs e p"
  shows "run_loop (subgoal_step e) (map root_index ps, acc) =
    Inr (acc @ map flatten (concat (map tree_leaves (map snd ps))))"
  using assms
proof (induction "sum_list (map tsize (map snd ps))" arbitrary: ps acc rule: less_induct)
  case less
  show ?case
  proof (cases ps)
    case Nil
    then show ?thesis by (simp add: run_loop_exit subgoal_step_def)
  next
    case (Cons p qs)
    obtain pos t where p: "p = (pos, t)" by (cases p)
    with less.prems Cons have occ: "occurs e (pos, t)" "\<forall>q \<in> set qs. occurs e q" by auto
    show ?thesis
    proof (cases "is_junction (root_node pos t)")
      case True
      let ?ps = "placed pos (subtrees t) @ qs"
      have "subgoal_step e (map root_index ps, acc) = Inr (map root_index ?ps, acc)"
        using occurs_root [OF occ(1)] junction_operands [OF True] True Cons p by (simp add: subgoal_step_def)
      then have "run_loop (subgoal_step e) (map root_index ps, acc) = run_loop (subgoal_step e) (map root_index ?ps, acc)"
        by (rule run_loop_next)
      also have "\<dots> = Inr (acc @ map flatten (concat (map tree_leaves (map snd ?ps))))"
        by (rule less.hyps) (use Cons p tsize_subtrees [of t] occurs_subtrees [OF occ(1)] occ(2) in auto)
      also have "concat (map tree_leaves (map snd ?ps)) = concat (map tree_leaves (map snd ps))"
        using True Cons p tree_leaves_cases [of t pos] by simp
      finally show ?thesis .
    next
      case False
      have "subgoal_step e (map root_index ps, acc) = Inr (map root_index qs, acc @ [flatten t])"
        using occurs_root [OF occ(1)] occurs_extract [OF occ(1)] False Cons p by (simp add: subgoal_step_def)
      then have "run_loop (subgoal_step e) (map root_index ps, acc) =
          run_loop (subgoal_step e) (map root_index qs, acc @ [flatten t])"
        by (rule run_loop_next)
      also have "\<dots> = Inr ((acc @ [flatten t]) @ map flatten (concat (map tree_leaves (map snd qs))))"
        by (rule less.hyps) (use Cons p occ(2) tsize_pos [of t] in auto)
      finally show ?thesis using False Cons p tree_leaves_cases [of t pos] by simp
    qed
  qed
qed

lemma iter_subgoal_leaves_flatten: "iter_subgoal_leaves (flatten t) = Inr (map flatten (tree_leaves t))"
  using subgoal_loop [of "[(0, t)]" "flatten t" "[]"] occurs_flatten [of t]
  by (simp add: iter_subgoal_leaves_def root_index_def)

text \<open>A leaf reads only fluents of its expression.\<close>

lemma get_fluents_slice: "set (get_fluents (py_slice e a b)) \<subseteq> set (get_fluents e)"
  by (auto simp: py_slice_def get_fluents_def dest: in_set_dropD in_set_takeD)

lemma extract_fluents:
  "extract_sub_expression e i = Inr x \<Longrightarrow> set (get_fluents x) \<subseteq> set (get_fluents e)"
  using get_fluents_slice by (fastforce simp: extract_sub_expression_def rbind_eq_Inr)

lemma make_operand_fluents: "operand_fluents (make_operand e) = fl_idx ` set (get_fluents e)"
  by (cases e rule: make_operand.cases) auto

lemma leaf_of_fluents:
  assumes "leaf_of ds e = Inr l"
  shows "leaf_fluents l \<subseteq> fl_idx ` set (get_fluents e)"
proof (cases l)
  case (PropLeaf op)
  with assms have "op = make_operand e"
    by (auto simp: leaf_of_def rbind_eq_Inr split: if_splits node.splits list.splits)
  with PropLeaf show ?thesis by (simp add: make_operand_fluents)
next
  case (NumLeaf a b k)
  with assms obtain i j x y where "extract_sub_expression e i = Inr x" "extract_sub_expression e j = Inr y"
    "a = make_operand x" "b = make_operand y"
    by (auto simp: leaf_of_def rbind_eq_Inr split: if_splits node.splits list.splits)
  with NumLeaf extract_fluents [of e i x] extract_fluents [of e j y] show ?thesis
    by (auto simp: make_operand_fluents)
qed

definition catalogue_ok :: "catalogue \<Rightarrow> bool" where
  "catalogue_ok c \<longleftrightarrow> length (ct_reads c) = length (ct_leaves c) \<and>
     (\<forall>i < length (ct_leaves c). leaf_fluents (ct_leaves c ! i) \<subseteq> set (ct_reads c ! i))"

lemma add_leaf_ok: "catalogue_ok c \<Longrightarrow> add_leaf ds e c = Inr c' \<Longrightarrow> catalogue_ok c'"
  using leaf_of_fluents by (fastforce simp: catalogue_ok_def add_leaf_def rbind_eq_Inr nth_append less_Suc_eq split: if_splits)

lemma add_subgoals_ok: "catalogue_ok c \<Longrightarrow> add_subgoals ds e c = Inr c' \<Longrightarrow> catalogue_ok c'"
  unfolding add_subgoals_def rbind_eq_Inr
  by (elim exE conjE) (erule rfold_invariant, assumption, erule add_leaf_ok)

lemma add_event_ok: "catalogue_ok c \<Longrightarrow> add_event ds te c = Inr c' \<Longrightarrow> catalogue_ok c'"
  unfolding add_event_def rbind_eq_Inr
  by (elim exE conjE) (erule rfold_invariant, assumption, erule add_subgoals_ok)

lemma catalogue_of_ok:
  assumes "catalogue_of events goals ds = Inr c"
  shows "catalogue_ok c"
proof -
  from assms obtain c1 where c1: "rfold (\<lambda>(a, evs). rfold (add_event ds) evs) events
       \<lparr>ct_leaves = [], ct_index = [], ct_reads = []\<rparr> = Inr c1" "add_subgoals ds goals c1 = Inr c"
    by (auto simp: catalogue_of_def rbind_eq_Inr)
  have "catalogue_ok c1"
  proof (rule rfold_invariant [OF c1(1)])
    show "catalogue_ok \<lparr>ct_leaves = [], ct_index = [], ct_reads = []\<rparr>" by (simp add: catalogue_ok_def)
    show "catalogue_ok s'" if "catalogue_ok s" "(\<lambda>(a, evs). rfold (add_event ds) evs) x s = Inr s'" for x s s'
      using that by (cases x) (auto elim: rfold_invariant intro: add_event_ok)
  qed
  with c1(2) show ?thesis by (rule add_subgoals_ok [rotated])
qed

text \<open>The readers: the buckets keep what they have, and every fluent in range gets its leaf.\<close>

lemma add_reader_returns:
  assumes "f < length bs"
  shows "\<exists>bs'. add_reader i f bs = Inr bs' \<and> length bs' = length bs \<and> i \<in> set (bs' ! f) \<and>
    (\<forall>g < length bs. set (bs ! g) \<subseteq> set (bs' ! g) \<and> set (bs' ! g) \<subseteq> insert i (set (bs ! g)))"
proof (cases "bs ! f = [] \<or> last (bs ! f) \<noteq> i")
  case True
  with assms show ?thesis
    by (intro exI [of _ "bs[f := bs ! f @ [i]]"]) (auto simp: add_reader_def py_nth_int nth_list_update)
next
  case False
  with assms last_in_set [of "bs ! f"] show ?thesis by (intro exI [of _ bs]) (auto simp: add_reader_def py_nth_int)
qed

lemma add_readers_returns:
  assumes "set fs \<subseteq> {..<length bs}"
  shows "\<exists>bs'. rfold (add_reader i) fs bs = Inr bs' \<and> length bs' = length bs \<and> (\<forall>f \<in> set fs. i \<in> set (bs' ! f)) \<and>
    (\<forall>g < length bs. set (bs ! g) \<subseteq> set (bs' ! g) \<and> set (bs' ! g) \<subseteq> insert i (set (bs ! g)))"
  using assms
proof (induction fs arbitrary: bs)
  case (Cons f fs)
  then obtain bs1 where one: "add_reader i f bs = Inr bs1" "length bs1 = length bs" "i \<in> set (bs1 ! f)"
    "\<forall>g < length bs. set (bs ! g) \<subseteq> set (bs1 ! g) \<and> set (bs1 ! g) \<subseteq> insert i (set (bs ! g))"
    using add_reader_returns [of f bs i] by auto
  from Cons.IH [of bs1] Cons.prems one(2) obtain bs2 where two: "rfold (add_reader i) fs bs1 = Inr bs2"
    "length bs2 = length bs1" "\<forall>f \<in> set fs. i \<in> set (bs2 ! f)"
    "\<forall>g < length bs1. set (bs1 ! g) \<subseteq> set (bs2 ! g) \<and> set (bs2 ! g) \<subseteq> insert i (set (bs1 ! g))" by auto
  have f: "f < length bs" using Cons.prems by simp
  show ?case
  proof (intro exI [of _ bs2] conjI)
    show "\<forall>f \<in> set (f # fs). i \<in> set (bs2 ! f)" using two(3,4) one(2,3) f by auto
    show "\<forall>g < length bs. set (bs ! g) \<subseteq> set (bs2 ! g) \<and> set (bs2 ! g) \<subseteq> insert i (set (bs ! g))"
    proof (intro allI impI)
      fix g assume g: "g < length bs"
      with one(2,4) two(4) have "set (bs ! g) \<subseteq> set (bs1 ! g) \<and> set (bs1 ! g) \<subseteq> insert i (set (bs ! g))"
        "set (bs1 ! g) \<subseteq> set (bs2 ! g) \<and> set (bs2 ! g) \<subseteq> insert i (set (bs1 ! g))" by simp_all
      then show "set (bs ! g) \<subseteq> set (bs2 ! g) \<and> set (bs2 ! g) \<subseteq> insert i (set (bs ! g))" by blast
    qed
  qed (use one two in simp_all)
qed auto

lemma readers_returns:
  "\<exists>rs. readers ds rows = Inr rs \<and>
    (\<forall>i < length rows. \<forall>f \<in> set (rows ! i). f < length rs \<and> i \<in> set (rs ! f)) \<and>
    (\<forall>b \<in> set rs. set b \<subseteq> {..<length rows})"
proof -
  let ?ns = "length ds # concat (map (map (\<lambda>f. f + 1)) rows)"
  define n where "n = Max (set ?ns)"
  have n: "f < n" if "fs \<in> set rows" "f \<in> set fs" for f fs
  proof -
    have "f + 1 \<in> set ?ns" using that by auto
    then have "f + 1 \<le> n" unfolding n_def by (intro Max_ge) auto
    then show ?thesis by simp
  qed
  have step: "\<exists>bs'. rfold (\<lambda>(i, fs). rfold (add_reader i) fs) xs bs = Inr bs' \<and> length bs' = length bs \<and>
      (\<forall>(i, fs) \<in> set xs. \<forall>f \<in> set fs. i \<in> set (bs' ! f)) \<and>
      (\<forall>g < length bs. set (bs ! g) \<subseteq> set (bs' ! g) \<and> set (bs' ! g) \<subseteq> fst ` set xs \<union> set (bs ! g))"
    if "\<forall>(i, fs) \<in> set xs. set fs \<subseteq> {..<length bs}" for xs bs
    using that
  proof (induction xs arbitrary: bs)
    case (Cons x xs)
    obtain i fs where x: "x = (i, fs)" by (cases x)
    with Cons.prems obtain bs1 where one: "rfold (add_reader i) fs bs = Inr bs1" "length bs1 = length bs"
      "\<forall>f \<in> set fs. i \<in> set (bs1 ! f)"
      "\<forall>g < length bs. set (bs ! g) \<subseteq> set (bs1 ! g) \<and> set (bs1 ! g) \<subseteq> insert i (set (bs ! g))"
      using add_readers_returns [of fs bs i] by auto
    from Cons.IH [of bs1] Cons.prems one(2) obtain bs2 where
      two: "rfold (\<lambda>(i, fs). rfold (add_reader i) fs) xs bs1 = Inr bs2" "length bs2 = length bs1"
      "\<forall>(i, fs) \<in> set xs. \<forall>f \<in> set fs. i \<in> set (bs2 ! f)"
      "\<forall>g < length bs1. set (bs1 ! g) \<subseteq> set (bs2 ! g) \<and> set (bs2 ! g) \<subseteq> fst ` set xs \<union> set (bs1 ! g)"
      by auto
    have fs: "\<forall>f \<in> set fs. f < length bs1" using Cons.prems x one(2) by auto
    show ?case
    proof (intro exI [of _ bs2] conjI)
      show "\<forall>(i, fs) \<in> set (x # xs). \<forall>f \<in> set fs. i \<in> set (bs2 ! f)"
        using two(3,4) one(3) fs x by fastforce
      show "\<forall>g < length bs. set (bs ! g) \<subseteq> set (bs2 ! g) \<and> set (bs2 ! g) \<subseteq> fst ` set (x # xs) \<union> set (bs ! g)"
        using one(2,4) two(4) x by fastforce
    qed (use one two x in simp_all)
  qed simp
  have range: "\<forall>(i, fs) \<in> set (indexed rows). set fs \<subseteq> {..<length (replicate n [])}"
    using n by (auto simp: indexed_def dest: set_zip_rightD)
  obtain rs where rs: "rfold (\<lambda>(i, fs). rfold (add_reader i) fs) (indexed rows) (replicate n []) = Inr rs"
    "length rs = n" "\<forall>(i, fs) \<in> set (indexed rows). \<forall>f \<in> set fs. i \<in> set (rs ! f)"
    "\<forall>g < n. set (rs ! g) \<subseteq> fst ` set (indexed rows)"
    using step [OF range] by auto
  have "f < length rs \<and> i \<in> set (rs ! f)" if "i < length rows" "f \<in> set (rows ! i)" for i f
  proof -
    have "(i, rows ! i) \<in> set (indexed rows)" using that(1) by (force simp: indexed_map)
    with rs(3) that n [of "rows ! i" f] rs(2) show ?thesis by fastforce
  qed
  moreover have "set b \<subseteq> {..<length rows}" if "b \<in> set rs" for b
  proof -
    from that obtain g where "g < n" "b = rs ! g" using rs(2) by (metis in_set_conv_nth)
    with rs(4) have "set b \<subseteq> fst ` set (indexed rows)" by blast
    also have "fst ` set (indexed rows) \<subseteq> {..<length rows}" by (auto simp: indexed_map)
    finally show ?thesis .
  qed
  moreover have "readers ds rows = Inr rs" using rs(1) by (simp add: readers_def n_def)
  ultimately show ?thesis by blast
qed

lemma mk_novelty_complete:
  assumes "catalogue_of events goals ds = Inr c"
  shows "\<exists>nn. mk_novelty events goals ds = Inr nn \<and> nn_leaves nn = ct_leaves c \<and> readers_complete nn"
proof -
  obtain rs where rs: "readers ds (ct_reads c) = Inr rs"
    "\<forall>i < length (ct_reads c). \<forall>f \<in> set (ct_reads c ! i). f < length rs \<and> i \<in> set (rs ! f)"
    "\<forall>b \<in> set rs. set b \<subseteq> {..<length (ct_reads c)}"
    using readers_returns by blast
  with catalogue_of_ok [OF assms] assms show ?thesis
    by (simp add: mk_novelty_def readers_complete_def catalogue_ok_def) blast
qed

end
