(* ===== verification/Novelty_Search.thy ===== *)
theory Novelty_Search
  imports Novelty_Facts Planning
begin

text \<open>
  Novelty search with its tables: every operation of \<open>NumericNovelty\<close> returns, with a value or
  an error of the interpreter.
\<close>

lemma errs_operand_value: "ifs_return ifs \<Longrightarrow> errs ordinary (operand_value ifs op asg)"
  by (cases op) (auto intro!: errs_intro errs_evaluate)

lemma errs_py_arith: "errs ordinary (py_arith fi fr a b)"
  by (cases a; cases b) (auto simp: py_arith_def errs_def)

lemma errs_as_number: "errs ordinary (as_number v)"
  by (cases v) (auto simp: as_number_def errs_def)

lemma errs_compute_sdist: "ifs_return ifs \<Longrightarrow> errs ordinary (compute_sdist ifs a b k asg)"
  unfolding compute_sdist_def py_sub_def
  by (intro errs_intro errs_operand_value errs_py_arith errs_as_number) (simp_all add: errs_def)

lemma errs_parent_prop: "ifs_return ifs \<Longrightarrow> errs ordinary (parent_prop ifs p i op nn)"
  unfolding parent_prop_def by (intro errs_intro errs_operand_value) (simp_all add: errs_def)

lemma errs_parent_num: "ifs_return ifs \<Longrightarrow> errs ordinary (parent_num ifs p i a b k nn)"
  unfolding parent_num_def by (intro errs_intro errs_compute_sdist) (simp_all add: errs_def)

lemma errs_leaf [errs_intro]:
  "(\<And>op. l = PropLeaf op \<Longrightarrow> errs P (f op)) \<Longrightarrow> (\<And>a b k. l = NumLeaf a b k \<Longrightarrow> errs P (g a b k)) \<Longrightarrow>
     errs P (case l of PropLeaf op \<Rightarrow> f op | NumLeaf a b k \<Rightarrow> g a b k)"
  by (cases l) auto

lemma errs_dense_leaf: "ifs_return ifs \<Longrightarrow> errs ordinary (dense_leaf ifs asg il pa)"
  unfolding dense_leaf_def by (intro errs_intro errs_operand_value errs_compute_sdist) (simp_all add: errs_def)

lemma errs_sparse_leaf: "ifs_return ifs \<Longrightarrow> errs ordinary (sparse_leaf ifs p asg i s)"
  unfolding sparse_leaf_def
  by (intro errs_intro errs_operand_value errs_compute_sdist errs_parent_prop errs_parent_num) (simp_all add: errs_def)

lemma errs_snapshot: "ifs_return ifs \<Longrightarrow> errs ordinary (ensure_parent_snapshot ifs p nn)"
  unfolding ensure_parent_snapshot_def snapshot_leaf_def
  by (intro errs_intro errs_parent_prop errs_parent_num) (simp_all add: errs_def)

lemma errs_judge: "errs ordinary (judge new part pa nn)"
  unfolding judge_def pass_b_def pass_c1b_def pass_c2_def see_sdist_def rassert_def
  by (intro errs_intro) (auto simp: errs_def split: option.splits prod.splits)

lemma errs_eval_novelty:
  assumes "ifs_return ifs"
  shows "errs ordinary (eval_novelty ifs same asg part pp nn)"
  unfolding eval_novelty_def mark_dirty_leaves_def rassert_def
  by (intro errs_intro errs_judge errs_dense_leaf [OF assms] errs_sparse_leaf [OF assms] errs_snapshot [OF assms])
    (simp_all add: errs_def)

lemma errs_partition_of: "errs ordinary (partition_of h nn)"
  unfolding partition_of_def check_non_negative_def by (intro errs_intro) (simp_all add: errs_def)

lemma errs_start_novelty: "errs ordinary (start_novelty h nn)"
  unfolding start_novelty_def check_non_negative_def
  by (intro errs_intro errs_partition_of) (simp_all add: errs_def)

lemma numeric_novelty_returns: "ifs_return ifs \<Longrightarrow> novelty_returns (numeric_novelty ifs ident)"
  by (simp add: novelty_returns_def numeric_novelty_def errs_partition_of errs_start_novelty errs_eval_novelty)

end
