(* ===== verification/Multiqueue.thy ===== *)
theory Multiqueue
  imports Search
begin

text \<open>
  The multi-queue search of \<open>src/tamerlite/core/multiqueue.py\<close>: one heap per heuristic, whose
  items share the containers of the states, so that a state expanded from one queue is
  skipped in the others.  The containers are a store that items refer to by index; the hooks
  of the switch policy, which do nothing, and the counter that is only logged are left out.
\<close>

record 'n container =
  co_state :: "'n state"
  co_expanded :: bool

record mqitem =
  mi_heuristic :: rat
  mi_container :: nat

definition mqitem_lt :: "'n container list \<Rightarrow> mqitem \<Rightarrow> mqitem \<Rightarrow> bool" where
  "mqitem_lt cs x y =
     (if mi_heuristic x < mi_heuristic y then True
      else if mi_heuristic x > mi_heuristic y then False
      else length (st_todo (co_state (cs ! mi_container x))) < length (st_todo (co_state (cs ! mi_container y))))"

definition round_robin :: "nat \<Rightarrow> nat \<Rightarrow> nat res" where
  "round_robin num_queues i = (if num_queues = 0 then Inl ZeroDivErr else Inr (i mod num_queues))"

record 'n mq =
  mq_opens :: "mqitem list list"
  mq_store :: "'n container list"
  mq_visited :: "'n visited"
  mq_expanded :: nat
  mq_ticks :: nat
  mq_counter :: nat

text \<open>The evaluation of the \<open>j\<close>-th container with the \<open>k\<close>-th heuristic, and the push of its item.\<close>

definition mq_push ::
    "nat \<Rightarrow> 'n heuristic \<times> rat \<Rightarrow> nat \<Rightarrow> mqitem list list \<times> 'n container list \<Rightarrow>
     (mqitem list list \<times> 'n container list) res" where
  "mq_push k Hw j oc = (case (Hw, oc) of ((H, weight), (opens, cs)) \<Rightarrow>
     rbind (heuristic_eval H (co_state (cs ! j))) (\<lambda>(h, s).
       let cs' = cs[j := (cs ! j)\<lparr>co_state := s\<rparr>] in
       Inr (case h of
          None \<Rightarrow> (opens, cs')
        | Some v \<Rightarrow>
            let item = \<lparr>mi_heuristic = weighted_value weight (st_g s) v, mi_container = j\<rparr>
            in (opens[k := heappush (mqitem_lt cs') item (opens ! k)], cs'))))"

definition mq_push_all ::
    "('n heuristic \<times> rat) list \<Rightarrow> nat list \<Rightarrow> mqitem list list \<times> 'n container list \<Rightarrow>
     (mqitem list list \<times> 'n container list) res" where
  "mq_push_all Hs js = rfold (\<lambda>(k, Hw). rfold (mq_push k Hw) js) (zip [0..<length Hs] Hs)"

definition mq_expand ::
    "'n problem_space \<Rightarrow> ('n heuristic \<times> rat) list \<Rightarrow> bool \<Rightarrow> bool \<Rightarrow> nat \<Rightarrow> 'n mq \<Rightarrow>
     (search_result + 'n mq) res" where
  "mq_expand S Hs early weak c q =
     (let s = co_state (mq_store q ! c);
          cs = (mq_store q)[c := (mq_store q ! c)\<lparr>co_expanded := True\<rparr>];
          n = mq_expanded q + 1 in
      rbind (goal_at_expansion S early s) (\<lambda>g.
        if g then Inr (Inl (found s n))
        else rbind (over_successors S s (prio_successor S (visited_states S weak) early n)
            ([], mq_visited q) (mq_counter q))
          (\<lambda>y. case y of Inl res \<Rightarrow> Inr (Inl res)
           | Inr ((cands, vis), k) \<Rightarrow>
               rbind (mq_push_all Hs [length cs..<length cs + length cands]
                   (mq_opens q, cs @ map (\<lambda>t. \<lparr>co_state = t, co_expanded = False\<rparr>) cands))
                 (\<lambda>(opens, cs'). Inr (Inr \<lparr>mq_opens = opens, mq_store = cs', mq_visited = vis,
                    mq_expanded = n, mq_ticks = mq_ticks q, mq_counter = k\<rparr>)))))"

definition mq_round ::
    "'n problem_space \<Rightarrow> ('n heuristic \<times> rat) list \<Rightarrow> (nat \<Rightarrow> nat res) \<Rightarrow> (nat \<Rightarrow> bool) \<Rightarrow> nat option \<Rightarrow>
     bool \<Rightarrow> bool \<Rightarrow> 'n mq \<Rightarrow> (search_result + 'n mq) res" where
  "mq_round S Hs policy out limit early weak q =
     (if out (mq_ticks q) then Inl Timeout
      else if list_ex (\<lambda>h. h = []) (mq_opens q) then Inr (Inl (not_found (mq_expanded q)))
      else rbind (policy (mq_expanded q)) (\<lambda>i.
        rbind (py_nth (mq_opens q) (int i)) (\<lambda>h.
        rbind (heappop (mqitem_lt (mq_store q)) h) (\<lambda>(item, h').
        let q' = q\<lparr>mq_opens := (mq_opens q)[i := h'], mq_ticks := mq_ticks q + 1\<rparr> in
        if co_expanded (mq_store q ! mi_container item) then Inr (Inr q')
        else rbind (check_expansion_limit (mq_expanded q) limit) (\<lambda>_.
          mq_expand S Hs early weak (mi_container item) q')))))"

definition multiqueue_search_with ::
    "'n problem_space \<Rightarrow> ('n heuristic \<times> rat) list \<Rightarrow> (nat \<Rightarrow> nat res) \<Rightarrow> (nat \<Rightarrow> bool) \<Rightarrow> nat option \<Rightarrow>
     bool \<Rightarrow> bool \<Rightarrow> nat \<Rightarrow> search_result res" where
  "multiqueue_search_with S Hs policy out limit early weak c =
     rbind (ss_initial S c) (\<lambda>(init, c). case init of
       None \<Rightarrow> Inr (not_found 0)
     | Some s \<Rightarrow> rbind (visited_insert S s (visited_new S weak)) (\<lambda>(_, vis).
         rbind (goal_at_generation S early s) (\<lambda>g.
         if g then Inr (found s 0)
         else run_rounds (mq_round S Hs policy out limit early weak)
           \<lparr>mq_opens = map (\<lambda>_. [\<lparr>mi_heuristic = 0, mi_container = 0\<rparr>]) Hs,
            mq_store = [\<lparr>co_state = s, co_expanded = False\<rparr>], mq_visited = vis,
            mq_expanded = 0, mq_ticks = 0, mq_counter = c\<rparr>)))"

definition multiqueue_search ::
    "'n problem_space \<Rightarrow> ('n heuristic \<times> rat) list \<Rightarrow> (nat \<Rightarrow> bool) \<Rightarrow> nat option \<Rightarrow> bool \<Rightarrow> bool \<Rightarrow> nat \<Rightarrow>
     search_result res" where
  "multiqueue_search S Hs = multiqueue_search_with S Hs (round_robin (length Hs))"

end
