(* ===== verification/Multiqueue_Facts.thy ===== *)
theory Multiqueue_Facts
  imports Multiqueue Planning
begin

text \<open>
  The multi-queue search: its heaps stay heaps while the store grows and the caches of the
  states change, its plans lead to goals, and under a limit it returns, since a round that
  expands no state shortens a queue.
\<close>

section \<open>Loops with a well-founded measure\<close>

lemma iterate_returns_wf:
  assumes "wf R" "I s" "\<And>s s'. I s \<Longrightarrow> step s = Inr s' \<Longrightarrow> I s' \<and> (s', s) \<in> R"
  shows "\<exists>r. iterate step s = Some r"
  using assms(1,2)
proof (induction s rule: wf_induct_rule)
  case (less s)
  show ?case
  proof (cases "step s")
    case (Inl r)
    then show ?thesis by (auto intro: iterate_exit)
  next
    case (Inr s')
    with less assms(3) [OF less.prems Inr] show ?thesis by (simp add: iterate_next)
  qed
qed

lemma run_rounds_errs_wf:
  assumes R: "wf R" and start: "I s" and errs: "\<And>s. I s \<Longrightarrow> errs P (rnd s)"
    and step: "\<And>s s'. I s \<Longrightarrow> rnd s = Inr (Inr s') \<Longrightarrow> I s' \<and> (s', s) \<in> R"
  shows "errs P (run_rounds rnd s)"
  unfolding errs_def
proof (intro allI impI)
  fix e assume e: "run_rounds rnd s = Inl e"
  have step': "I s' \<and> (s', s) \<in> R" if "I s" "step_of (rnd s) = Inr s'" for s s'
    using step that by simp
  obtain r where r: "iterate (\<lambda>s. step_of (rnd s)) s = Some r"
    using iterate_returns_wf [where I = I and step = "\<lambda>s. step_of (rnd s)", OF R start step'] by blast
  obtain s' where "I s'" "step_of (rnd s') = Inl r"
    by (rule iterate_invariant [where I = I, OF r start]) (use step' in blast)
  moreover have "r = Inl e" using e r by (simp add: run_rounds_def run_loop_def)
  ultimately show "P e" using errs [of s'] by (simp add: errs_def)
qed


section \<open>The queues\<close>

lemma mqitem_order: "item_order (mqitem_lt cs)"
  by unfold_locales (auto simp: mqitem_lt_def split: if_splits)

interpretation mqitems: item_order "mqitem_lt cs" for cs
  by (rule mqitem_order)

definition queue_ok :: "'n container list \<Rightarrow> mqitem list \<Rightarrow> bool" where
  "queue_ok cs h \<longleftrightarrow> heap (mqitem_lt cs) h \<and> (\<forall>x \<in> set h. mi_container x < length cs)"

text \<open>The store may grow, and the states in it change but for their pending events.\<close>

definition store_ext :: "'n container list \<Rightarrow> 'n container list \<Rightarrow> bool" where
  "store_ext cs cs' \<longleftrightarrow> length cs \<le> length cs' \<and>
     (\<forall>i < length cs. st_todo (co_state (cs' ! i)) = st_todo (co_state (cs ! i)))"

lemma store_ext_refl [simp]: "store_ext cs cs"
  by (simp add: store_ext_def)

lemma store_ext_trans: "store_ext a b \<Longrightarrow> store_ext b c \<Longrightarrow> store_ext a c"
  by (simp add: store_ext_def)

lemma queue_ok_ext:
  assumes "queue_ok cs h" "store_ext cs cs'"
  shows "queue_ok cs' h"
proof -
  have "mqitem_lt cs' x y = mqitem_lt cs x y" if "x \<in> set h" "y \<in> set h" for x y
    using assms that by (simp add: mqitem_lt_def queue_ok_def store_ext_def)
  then have "mqitem_lt cs' (h ! i) (h ! j) = mqitem_lt cs (h ! i) (h ! j)" if "i < length h" "j < length h" for i j
    using that by simp
  with assms show ?thesis
    unfolding queue_ok_def heap_def store_ext_def
    by (meson less_trans parent_less order_less_le_trans)
qed

lemma queue_ok_push:
  "queue_ok cs h \<Longrightarrow> mi_container x < length cs \<Longrightarrow> queue_ok cs (heappush (mqitem_lt cs) x h)"
  using mqitems.heappush_heap [of cs h x] by (metis insert_iff queue_ok_def set_mset_add_mset_insert set_mset_mset)

lemma queue_ok_pop:
  assumes "queue_ok cs h" "heappop (mqitem_lt cs) h = Inr (x, h')"
  shows "queue_ok cs h' \<and> mi_container x < length cs \<and> length h = Suc (length h') \<and> (\<forall>y \<in> set h. \<not> mqitem_lt cs y x)"
proof -
  have ne: "h \<noteq> []" using assms(2) by (auto simp: heappop_def)
  from assms(1) have heap: "heap (mqitem_lt cs) h" by (simp add: queue_ok_def)
  obtain y g where pop: "heappop (mqitem_lt cs) h = Inr (y, g)" "heap (mqitem_lt cs) g"
    "add_mset y (mset g) = mset h" "\<forall>z \<in> set h. \<not> mqitem_lt cs z y"
    by (rule mqitems.heappop_heap [OF heap ne])
  then have eq: "y = x" "g = h'" using assms(2) by auto
  have "set h = insert x (set h')" using arg_cong [OF pop(3), of set_mset] eq by simp
  moreover have "length h = Suc (length h')" using arg_cong [OF pop(3), of size] eq by simp
  ultimately show ?thesis using pop assms(1) eq by (auto simp: queue_ok_def)
qed


section \<open>Rounds\<close>

definition mq_inv :: "'n problem_space \<Rightarrow> ('n heuristic \<times> rat) list \<Rightarrow> nat option \<Rightarrow> 'n mq \<Rightarrow> bool" where
  "mq_inv S Hs limit q \<longleftrightarrow> length (mq_opens q) = length Hs \<and> (\<forall>h \<in> set (mq_opens q). queue_ok (mq_store q) h) \<and>
     (\<forall>co \<in> set (mq_store q). known S (mq_counter q) (co_state co)) \<and> within_limit limit (mq_expanded q)"

definition pushed_ok ::
    "'n problem_space \<Rightarrow> nat \<Rightarrow> nat \<Rightarrow> 'n container list \<Rightarrow> mqitem list list \<times> 'n container list \<Rightarrow> bool" where
  "pushed_ok S c n cs oc \<longleftrightarrow> length (fst oc) = n \<and> (\<forall>h \<in> set (fst oc). queue_ok (snd oc) h) \<and>
     (\<forall>co \<in> set (snd oc). known S c (co_state co)) \<and> length (snd oc) = length cs"

lemma mq_push_ok:
  assumes ok: "pushed_ok S c n cs oc" and j: "j < length cs" and k: "k < n"
    and run: "mq_push k Hw j oc = Inr oc'"
  shows "pushed_ok S c n cs oc'"
proof -
  obtain opens cs0 H w where oc: "oc = (opens, cs0)" "Hw = (H, w)" by (cases oc, cases Hw)
  from ok oc have len: "length opens = n" "length cs0 = length cs" and queues: "\<forall>h \<in> set opens. queue_ok cs0 h"
    and known: "\<forall>co \<in> set cs0. known S c (co_state co)" by (simp_all add: pushed_ok_def)
  from run oc obtain h s where ev: "heuristic_eval H (co_state (cs0 ! j)) = Inr (h, s)"
    and oc': "oc' = (let cs' = cs0[j := (cs0 ! j)\<lparr>co_state := s\<rparr>] in case h of None \<Rightarrow> (opens, cs')
        | Some v \<Rightarrow> let item = \<lparr>mi_heuristic = weighted_value w (st_g s) v, mi_container = j\<rparr>
            in (opens[k := heappush (mqitem_lt cs') item (opens ! k)], cs'))"
    by (auto simp: mq_push_def rbind_eq_Inr Let_def)
  define cs' where "cs' = cs0[j := (cs0 ! j)\<lparr>co_state := s\<rparr>]"
  have j0: "j < length cs0" using j len(2) by simp
  have "known S c s" using known j0 by (intro known_heuristic_eval [OF ev]) simp
  then have known': "\<forall>co \<in> set cs'. known S c (co_state co)"
    using known set_update_subset_insert unfolding cs'_def by fastforce
  have "store_ext cs0 cs'"
    using heuristic_eval_known [OF ev] j0 by (auto simp: cs'_def store_ext_def nth_list_update)
  then have old: "\<forall>h \<in> set opens. queue_ok cs' h" using queues queue_ok_ext by blast
  show ?thesis
  proof (cases h)
    case None
    with oc' known' old len show ?thesis by (simp add: pushed_ok_def cs'_def [symmetric] Let_def, simp add: cs'_def)
  next
    case (Some v)
    let ?item = "\<lparr>mi_heuristic = weighted_value w (st_g s) v, mi_container = j\<rparr>"
    have "queue_ok cs' (heappush (mqitem_lt cs') ?item (opens ! k))"
      using old k len(1) j0 by (intro queue_ok_push) (simp_all add: cs'_def)
    then have "\<forall>h \<in> set (opens[k := heappush (mqitem_lt cs') ?item (opens ! k)]). queue_ok cs' h"
      using old set_update_subset_insert by fastforce
    with Some oc' known' len show ?thesis by (simp add: pushed_ok_def Let_def cs'_def)
  qed
qed

lemma mq_push_all_ok:
  assumes "mq_push_all Hs js oc = Inr oc'" "pushed_ok S c (length Hs) cs oc" "set js \<subseteq> {..<length cs}"
  shows "pushed_ok S c (length Hs) cs oc'"
  using assms(1) unfolding mq_push_all_def
proof (rule rfold_invariant [where I = "pushed_ok S c (length Hs) cs"])
  show "pushed_ok S c (length Hs) cs oc" by (rule assms(2))
  fix x s s' assume x: "x \<in> set (zip [0..<length Hs] Hs)" and ok: "pushed_ok S c (length Hs) cs s"
    and run: "(case x of (k, Hw) \<Rightarrow> rfold (mq_push k Hw) js) s = Inr s'"
  obtain k Hw where kx: "x = (k, Hw)" by (cases x)
  with x have k: "k < length Hs" by (auto dest: set_zip_leftD)
  from run kx have "rfold (mq_push k Hw) js s = Inr s'" by simp
  then show "pushed_ok S c (length Hs) cs s'"
    by (rule rfold_invariant [where I = "pushed_ok S c (length Hs) cs", OF _ ok]) (use assms(3) k in \<open>auto intro: mq_push_ok\<close>)
qed

text \<open>The successors of the expanded state.\<close>

lemma prio_successors_known:
  assumes run: "over_successors S s (prio_successor S D early n) ([], d) c = Inr y"
    and mono: "counter_mono S" and s: "known S c s" and lim: "within_limit limit n"
  shows "case y of Inl r \<Rightarrow> good_result S limit r
    | Inr (acc', c') \<Rightarrow> (\<forall>t \<in> set (fst acc'). known S c' t) \<and> c \<le> c'"
proof (rule over_successors_result [OF run mono s, where J = "\<lambda>c acc. \<forall>t \<in> set (fst acc). known S c t"])
  fix c acc c' assume "\<forall>t \<in> set (fst acc). known S c t" "c \<le> c'"
  then show "\<forall>t \<in> set (fst acc). known S c' t" using known_mono by blast
next
  fix s' acc acc' c assume "known S c s'" "\<forall>t \<in> set (fst acc). known S c t"
    "prio_successor S D early n s' acc = Inr (Inr acc')"
  then show "\<forall>t \<in> set (fst acc'). known S c t"
    by (auto simp: prio_successor_def rbind_eq_Inr split: if_splits)
next
  fix s' acc r c assume s': "known S c s'" and "prio_successor S D early n s' acc = Inr (Inl r)"
  then have "r = found s' n" "ss_goal S s' = Inr True"
    by (auto simp: prio_successor_def rbind_eq_Inr split: if_splits intro: goal_at_generationD)
  with good_found [OF s' _ lim] show "good_result S limit r" by simp
qed simp

lemma mq_expand_result:
  assumes mono: "counter_mono S" and inv: "mq_inv S Hs limit q" and c: "c < length (mq_store q)"
    and lim: "within_limit limit (mq_expanded q + 1)"
    and run: "mq_expand S Hs early weak c q = Inr x"
  shows "case x of Inl r \<Rightarrow> good_result S limit r
    | Inr q' \<Rightarrow> mq_inv S Hs limit q' \<and> mq_expanded q' = mq_expanded q + 1"
proof -
  define s where "s = co_state (mq_store q ! c)"
  define cs where "cs = (mq_store q)[c := (mq_store q ! c)\<lparr>co_expanded := True\<rparr>]"
  define n where "n = mq_expanded q + 1"
  have s: "known S (mq_counter q) s" using inv c by (simp add: mq_inv_def s_def)
  from run obtain g where g: "goal_at_expansion S early s = Inr g"
    and nxt: "(if g then Inr (Inl (found s n))
        else rbind (over_successors S s (prio_successor S (visited_states S weak) early n)
            ([], mq_visited q) (mq_counter q))
          (\<lambda>y. case y of Inl res \<Rightarrow> Inr (Inl res)
           | Inr ((cands, vis), k) \<Rightarrow>
               rbind (mq_push_all Hs [length cs..<length cs + length cands]
                   (mq_opens q, cs @ map (\<lambda>t. \<lparr>co_state = t, co_expanded = False\<rparr>) cands))
                 (\<lambda>(opens, cs'). Inr (Inr \<lparr>mq_opens = opens, mq_store = cs', mq_visited = vis,
                    mq_expanded = n, mq_ticks = mq_ticks q, mq_counter = k\<rparr>)))) = Inr x"
    unfolding mq_expand_def s_def cs_def n_def Let_def rbind_eq_Inr by blast
  show ?thesis
  proof (cases g)
    case True
    with g have "ss_goal S s = Inr True" by (auto dest: goal_at_expansionD)
    with True nxt good_found [OF s _ lim] show ?thesis by (auto simp: n_def)
  next
    case False
    with nxt obtain y where y: "over_successors S s (prio_successor S (visited_states S weak) early n)
            ([], mq_visited q) (mq_counter q) = Inr y"
      and out: "(case y of Inl res \<Rightarrow> Inr (Inl res)
           | Inr ((cands, vis), k) \<Rightarrow>
               rbind (mq_push_all Hs [length cs..<length cs + length cands]
                   (mq_opens q, cs @ map (\<lambda>t. \<lparr>co_state = t, co_expanded = False\<rparr>) cands))
                 (\<lambda>(opens, cs'). Inr (Inr \<lparr>mq_opens = opens, mq_store = cs', mq_visited = vis,
                    mq_expanded = n, mq_ticks = mq_ticks q, mq_counter = k\<rparr>))) = Inr x"
      by (auto simp: rbind_eq_Inr)
    note succ = prio_successors_known [OF y mono s lim [folded n_def]]
    show ?thesis
    proof (cases y)
      case (Inl r)
      with succ out show ?thesis by auto
    next
      case (Inr z)
      obtain cands vis k where z: "z = ((cands, vis), k)" by (cases z) auto
      define cs0 where "cs0 = cs @ map (\<lambda>t. \<lparr>co_state = t, co_expanded = False\<rparr>) cands"
      from succ Inr z have cands: "\<forall>t \<in> set cands. known S k t" and k: "mq_counter q \<le> k" by auto
      from out Inr z obtain opens cs' where
        push: "mq_push_all Hs [length cs..<length cs + length cands] (mq_opens q, cs0) = Inr (opens, cs')"
        and x: "x = Inr \<lparr>mq_opens = opens, mq_store = cs', mq_visited = vis, mq_expanded = n,
          mq_ticks = mq_ticks q, mq_counter = k\<rparr>"
        by (auto simp: rbind_eq_Inr cs0_def)
      have ext: "store_ext (mq_store q) cs0"
        using c unfolding store_ext_def cs0_def cs_def by (auto simp: nth_append nth_list_update)
      have "\<forall>co \<in> set cs. known S k (co_state co)"
        using inv known_mono [OF _ k] c unfolding cs_def
        by (auto simp: mq_inv_def dest!: set_update_subset_insert [THEN subsetD])
      with cands have "\<forall>co \<in> set cs0. known S k (co_state co)" by (auto simp: cs0_def)
      then have "pushed_ok S k (length Hs) cs0 (mq_opens q, cs0)"
        using inv queue_ok_ext [OF _ ext] by (auto simp: pushed_ok_def mq_inv_def)
      then have "pushed_ok S k (length Hs) cs0 (opens, cs')"
        by (rule mq_push_all_ok [OF push]) (auto simp: cs0_def)
      with x lim show ?thesis by (auto simp: pushed_ok_def mq_inv_def n_def)
    qed
  qed
qed

text \<open>A round expands a state or shortens a queue.\<close>

definition mq_items :: "'n mq \<Rightarrow> nat" where
  "mq_items q = sum_list (map length (mq_opens q))"

lemma mq_round_result:
  assumes mono: "counter_mono S" and inv: "mq_inv S Hs limit q"
    and run: "mq_round S Hs policy out limit early weak q = Inr x"
  shows "case x of Inl r \<Rightarrow> good_result S limit r
    | Inr q' \<Rightarrow> mq_inv S Hs limit q' \<and>
        (mq_expanded q' = mq_expanded q + 1 \<and> within_limit limit (mq_expanded q + 1) \<or>
         mq_expanded q' = mq_expanded q \<and> mq_items q' < mq_items q)"
proof (cases "list_ex (\<lambda>h. h = []) (mq_opens q)")
  case True
  with run inv show ?thesis by (auto simp: mq_round_def mq_inv_def good_not_found split: if_splits)
next
  case False
  from run False obtain i h item h' where i: "i < length (mq_opens q)" "mq_opens q ! i = h"
    and pop: "heappop (mqitem_lt (mq_store q)) h = Inr (item, h')"
    and nxt: "(let q' = q\<lparr>mq_opens := (mq_opens q)[i := h'], mq_ticks := mq_ticks q + 1\<rparr> in
        if co_expanded (mq_store q ! mi_container item) then Inr (Inr q')
        else rbind (check_expansion_limit (mq_expanded q) limit) (\<lambda>_.
          mq_expand S Hs early weak (mi_container item) q')) = Inr x"
    by (auto simp: mq_round_def rbind_eq_Inr py_nth_int_iff split: if_splits)
  define q' where "q' = q\<lparr>mq_opens := (mq_opens q)[i := h'], mq_ticks := mq_ticks q + 1\<rparr>"
  have "queue_ok (mq_store q) h" using inv i by (auto simp: mq_inv_def)
  from queue_ok_pop [OF this pop] have h': "queue_ok (mq_store q) h'" "mi_container item < length (mq_store q)"
    "length h = Suc (length h')" by auto
  have "\<forall>g \<in> set ((mq_opens q)[i := h']). queue_ok (mq_store q) g"
    using inv h'(1) set_update_subset_insert unfolding mq_inv_def by fastforce
  then have inv': "mq_inv S Hs limit q'" using inv by (simp add: q'_def mq_inv_def)
  have "mq_items q' = mq_items q + length h' - length h" "length h \<le> mq_items q"
    using i elem_le_sum_list [of i "map length (mq_opens q)"]
    by (simp_all add: mq_items_def q'_def map_update sum_list_update)
  then have items: "mq_items q' < mq_items q" using h'(3) by simp
  show ?thesis
  proof (cases "co_expanded (mq_store q ! mi_container item)")
    case True
    with nxt inv' items show ?thesis by (auto simp: q'_def Let_def)
  next
    case False
    with nxt obtain u where u: "check_expansion_limit (mq_expanded q) limit = Inr u"
      and go: "mq_expand S Hs early weak (mi_container item) q' = Inr x"
      by (auto simp: q'_def Let_def rbind_eq_Inr)
    have lim: "within_limit limit (mq_expanded q + 1)"
      using u by (auto simp: check_expansion_limit_def within_limit_def split: option.splits if_splits)
    from mq_expand_result [OF mono inv' _ _ go] h'(2) lim show ?thesis
      by (auto simp: q'_def split: sum.splits)
  qed
qed


section \<open>The search\<close>

definition mq_start :: "('n heuristic \<times> rat) list \<Rightarrow> 'n state \<Rightarrow> 'n visited \<Rightarrow> nat \<Rightarrow> 'n mq" where
  "mq_start Hs s vis c =
     \<lparr>mq_opens = map (\<lambda>_. [\<lparr>mi_heuristic = 0, mi_container = 0\<rparr>]) Hs,
      mq_store = [\<lparr>co_state = s, co_expanded = False\<rparr>], mq_visited = vis,
      mq_expanded = 0, mq_ticks = 0, mq_counter = c\<rparr>"

lemma mq_start_inv: "known S c s \<Longrightarrow> mq_inv S Hs limit (mq_start Hs s vis c)"
  by (auto simp: mq_inv_def mq_start_def queue_ok_def heap_def)

lemma multiqueue_search_good:
  assumes mono: "counter_mono S" and run: "multiqueue_search_with S Hs policy out limit early weak c = Inr r"
  shows "good_result S limit r"
proof -
  from run obtain init c1 where init: "ss_initial S c = Inr (init, c1)"
    and rest: "(case init of
       None \<Rightarrow> Inr (not_found 0)
     | Some s \<Rightarrow> rbind (visited_insert S s (visited_new S weak)) (\<lambda>(_, vis).
         rbind (goal_at_generation S early s) (\<lambda>g.
         if g then Inr (found s 0)
         else run_rounds (mq_round S Hs policy out limit early weak) (mq_start Hs s vis c1)))) = Inr r"
    unfolding multiqueue_search_with_def rbind_eq_Inr mq_start_def by auto
  show ?thesis
  proof (cases init)
    case None
    with rest show ?thesis by (auto intro: good_not_found)
  next
    case (Some s)
    with init have s: "known S c1 s" by (auto intro: known_initial)
    from rest Some obtain vis g where g: "goal_at_generation S early s = Inr g"
      and rest: "(if g then Inr (found s 0)
         else run_rounds (mq_round S Hs policy out limit early weak) (mq_start Hs s vis c1)) = Inr r"
      by (auto simp: rbind_eq_Inr)
    show ?thesis
    proof (cases g)
      case True
      with g have "ss_goal S s = Inr True" by (auto dest: goal_at_generationD)
      with True rest good_found [OF s] show ?thesis by auto
    next
      case False
      with rest have loop: "run_rounds (mq_round S Hs policy out limit early weak) (mq_start Hs s vis c1) = Inr r"
        by simp
      show ?thesis
      proof (rule run_rounds_result [OF loop, where I = "mq_inv S Hs limit"])
        show "mq_inv S Hs limit (mq_start Hs s vis c1)" by (rule mq_start_inv [OF s])
      next
        fix q q' assume "mq_inv S Hs limit q" "mq_round S Hs policy out limit early weak q = Inr (Inr q')"
        from mq_round_result [OF mono this] show "mq_inv S Hs limit q'" by simp
      next
        fix q assume "mq_inv S Hs limit q" "mq_round S Hs policy out limit early weak q = Inr (Inl r)"
        from mq_round_result [OF mono this] show ?thesis by simp
      qed
    qed
  qed
qed

lemma errs_heappop: "errs ordinary (heappop lt h)"
  by (auto simp: heappop_def Let_def split: prod.split)

lemma errs_mq_push_all:
  assumes "\<forall>Hw \<in> set Hs. heuristic_returns (fst Hw)"
  shows "errs ordinary (mq_push_all Hs js oc)"
proof -
  have "errs ordinary (mq_push k Hw j oc)" if "Hw \<in> set Hs" for k Hw j oc
    unfolding mq_push_def Let_def
    by (intro errs_intro errs_heuristic_eval) (use assms that in auto)
  then show ?thesis
    unfolding mq_push_all_def by (auto intro!: errs_intro dest: set_zip_rightD)
qed

lemma errs_mq_expand:
  assumes S: "space_returns S" and H: "\<forall>Hw \<in> set Hs. heuristic_returns (fst Hw)"
    and inv: "mq_inv S Hs limit q" and c: "c < length (mq_store q)"
  shows "errs (search_error out lm) (mq_expand S Hs early weak c q)"
proof -
  have succ: "errs ordinary (prio_successor S (visited_states S weak) early n s acc)" for n s acc
    unfolding prio_successor_def visited_states_def by (intro errs_intro errs_goal_tests S) (simp add: errs_visited S)
  have "known S (mq_counter q) (co_state (mq_store q ! c))" using inv c by (simp add: mq_inv_def)
  then show ?thesis
    unfolding mq_expand_def Let_def
    by (intro errs_intro errs_goal_tests [THEN errs_search, OF S] errs_over_successors [THEN errs_search, OF S] succ
        errs_mq_push_all [THEN errs_search, OF H])
qed

lemma errs_mq_round:
  assumes S: "space_returns S" and H: "\<forall>Hw \<in> set Hs. heuristic_returns (fst Hw)"
    and P: "\<forall>i. errs ordinary (policy i)" and inv: "mq_inv S Hs limit q"
  shows "errs (search_error out (Some m)) (mq_round S Hs policy out (Some m) early weak q)"
proof -
  have limit: "errs (search_error out (Some m)) (check_expansion_limit n (Some m))" for n
    by (simp add: check_expansion_limit_def search_error_def)
  have expand: "errs (search_error out (Some m)) (mq_expand S Hs early weak (mi_container item)
      (q\<lparr>mq_opens := (mq_opens q)[i := h'], mq_ticks := mq_ticks q + 1\<rparr>))"
    if "py_nth (mq_opens q) (int i) = Inr h" "heappop (mqitem_lt (mq_store q)) h = Inr (item, h')" for i h item h'
  proof -
    from that(1) inv have "queue_ok (mq_store q) h" by (auto simp: py_nth_int_iff mq_inv_def)
    from queue_ok_pop [OF this that(2)] have ok: "queue_ok (mq_store q) h'" "mi_container item < length (mq_store q)"
      by auto
    have "\<forall>g \<in> set ((mq_opens q)[i := h']). queue_ok (mq_store q) g"
      using inv ok(1) set_update_subset_insert unfolding mq_inv_def by fastforce
    then have "mq_inv S Hs limit (q\<lparr>mq_opens := (mq_opens q)[i := h'], mq_ticks := mq_ticks q + 1\<rparr>)"
      using inv by (simp add: mq_inv_def)
    from errs_mq_expand [OF S H this] ok(2) show ?thesis by simp
  qed
  show ?thesis
  proof (cases "out (mq_ticks q)")
    case True
    then show ?thesis by (auto simp: mq_round_def search_error_def)
  next
    case False
    then show ?thesis
      unfolding mq_round_def Let_def
      by (simp only: if_False, intro errs_intro errs_search [OF P [rule_format]] errs_search [OF errs_py_nth]
          errs_search [OF errs_heappop] limit) (rule expand, simp_all)
  qed
qed

lemma multiqueue_search_errs:
  assumes S: "space_returns S" and H: "\<forall>Hw \<in> set Hs. heuristic_returns (fst Hw)"
    and P: "\<forall>i. errs ordinary (policy i)"
  shows "errs (search_error out (Some m)) (multiqueue_search_with S Hs policy out (Some m) early weak c)"
proof -
  have loop: "errs (search_error out (Some m)) (run_rounds (mq_round S Hs policy out (Some m) early weak) q)"
    if "mq_inv S Hs (Some m) q" for q
  proof (rule run_rounds_errs_wf [where I = "mq_inv S Hs (Some m)" and
        R = "measures [\<lambda>q. m - mq_expanded q, mq_items]"])
    show "errs (search_error out (Some m)) (mq_round S Hs policy out (Some m) early weak q)"
      if "mq_inv S Hs (Some m) q" for q by (rule errs_mq_round [OF S H P that])
    show "mq_inv S Hs (Some m) q' \<and> (q', q) \<in> measures [\<lambda>q. m - mq_expanded q, mq_items]"
      if "mq_inv S Hs (Some m) q" "mq_round S Hs policy out (Some m) early weak q = Inr (Inr q')" for q q'
      using mq_round_result [OF space_returnsD(1) [OF S] that] by (auto simp: within_limit_def)
  qed (use that in simp_all)
  show ?thesis
    unfolding multiqueue_search_with_def
    by (intro errs_intro space_returnsD(2) [THEN errs_search, OF S] errs_visited [THEN errs_search, OF S]
        errs_goal_tests [THEN errs_search, OF S] loop [unfolded mq_start_def] mq_start_inv [unfolded mq_start_def])
      (auto intro: known_initial)
qed

lemma errs_round_robin: "errs ordinary (round_robin k i)"
  by (simp add: round_robin_def)

end
