(* ===== verification/Novelty_Demo.thy ===== *)
theory Novelty_Demo
  imports Examples Novelty_Search Multiqueue_Facts
begin

text \<open>A catalogue with a fluent and a numeric subgoal, on which the novelty theorems are applied.\<close>

definition level :: fluent where
  "level = Fluent 1"

text \<open>The goal: the light is on and the level at least 3.\<close>

definition lit_level_exp :: expression where
  "lit_level_exp = [NFluent lit, NConst (CInt 3), NFluent level, NOp ''<='' [1, 2], NOp ''and'' [0, 3]]"

definition demo_domains :: "fluent_domain list" where
  "demo_domains = [\<lparr>fd_kind = KBool, fd_objects = []\<rparr>, \<lparr>fd_kind = KInt, fd_objects = []\<rparr>]"

definition demo_catalogue :: catalogue where
  "demo_catalogue = (case catalogue_of demo_events lit_level_exp demo_domains of Inr c \<Rightarrow> c)"

definition demo_novelty :: novelty where
  "demo_novelty = (case mk_novelty demo_events lit_level_exp demo_domains of Inr nn \<Rightarrow> nn)"

definition equal_slots :: "const list \<Rightarrow> const list \<Rightarrow> nat \<Rightarrow> bool" where
  "equal_slots p a f \<longleftrightarrow> p ! f = a ! f"

lemma demo_catalogue_eq: "catalogue_of demo_events lit_level_exp demo_domains = Inr demo_catalogue"
  by code_simp

lemma demo_novelty_leaves:
  "nn_leaves demo_novelty = [PropLeaf (OConst (CBool True)), PropLeaf (OFluent 0),
     NumLeaf (OConst (CInt 3)) (OFluent 1) ''<='']"
  by code_simp

lemma demo_novelty_complete: "readers_complete demo_novelty"
proof -
  obtain nn where "mk_novelty demo_events lit_level_exp demo_domains = Inr nn" "readers_complete nn"
    using mk_novelty_complete [OF demo_catalogue_eq] by blast
  then show ?thesis by (simp add: demo_novelty_def)
qed

text \<open>The parent has the light off at level 0; one child switches it on, two raise the level.\<close>

definition demo_parent :: "const list" where
  "demo_parent = [CBool False, CInt 0]"

definition demo_children :: "child list" where
  "demo_children = [(\<lambda>f. f = 1, [CBool True, CInt 0], 0), (\<lambda>f. f = 0, [CBool False, CInt 2], 0),
     (\<lambda>f. f = 0, [CBool False, CInt 1], 0)]"

lemma demo_readable: "readable no_ifs (nn_leaves demo_novelty) [CBool b, CInt i]"
  by (auto simp: readable_def demo_novelty_leaves compute_sdist_def py_nth_def py_sub_def py_arith_def as_number_def)

lemma demo_parent_readable: "readable no_ifs (nn_leaves demo_novelty) demo_parent"
  unfolding demo_parent_def by (rule demo_readable)

lemma demo_children_ok: "\<forall>c \<in> set demo_children. child_of no_ifs (nn_leaves demo_novelty) demo_parent c"
  by (auto simp: demo_children_def child_of_def demo_readable demo_parent_def less_Suc_eq numeral_2_eq_2)

lemma demo_children_classes:
  "(case eval_children no_ifs (demo_parent, 0) demo_children (begin_expansion demo_novelty) of Inr (ks, _) \<Rightarrow> ks) = [1, 1, 3]"
  by code_simp

text \<open>The tables of the classical problem.\<close>

definition lit_novelty :: novelty where
  "lit_novelty = (case mk_novelty demo_events lit_exp (take 1 demo_domains) of Inr nn \<Rightarrow> nn)"

lemma novbfs_run:
  "novbfs_search demo_ops blind (numeric_novelty no_ifs equal_slots) lit_novelty False no_timeout (Some 5) False False 0
     = Inr (Some [light], 2, Some 1)"
  by code_simp

text \<open>Two queues with one heuristic: the second queue meets states the first has expanded.\<close>

lemma multiqueue_run:
  "multiqueue_search demo_ops [(blind, 1), (blind, 1 / 2)] no_timeout (Some 5) False False 0 = Inr (Some [light], 2, Some 1)"
  by code_simp

end
