(* ===== verification/HMax_Explicit.thy ===== *)
theory HMax_Explicit
  imports Novelty
begin

text \<open>
  \<open>HMaxExplicit\<close> of \<open>src/tamerlite/core/heuristics.py\<close>: a relaxation that keeps, for every fluent,
  the list of the values reached so far, and in every round evaluates conditions and effects on
  the combinations that contain a new value.  A round's new values are collected in sets; the
  order in which Python iterates such a set is the parameter \<open>ord\<close>.  Dictionaries keyed by
  expressions are association lists searched with \<open>exp_eq\<close>.
\<close>

section \<open>Value sets and keys\<close>

fun exp_get :: "(expression \<times> 'v) list \<Rightarrow> expression \<Rightarrow> 'v option" where
  "exp_get [] e = None"
| "exp_get ((k, v) # d) e = (if exp_eq k e then Some v else exp_get d e)"

fun exp_set :: "expression \<Rightarrow> 'v \<Rightarrow> (expression \<times> 'v) list \<Rightarrow> (expression \<times> 'v) list" where
  "exp_set e v [] = [(e, v)]"
| "exp_set e v ((k, w) # d) = (if exp_eq k e then (k, v) # d else (k, w) # exp_set e v d)"

text \<open>\<open>_ValueSet\<close>: the members in the order they came; \<open>_seen\<close> has the same ones.\<close>

definition value_add :: "const \<Rightarrow> const list \<Rightarrow> const list" where
  "value_add v vs = (if list_ex (py_eq v) vs then vs else vs @ [v])"

text \<open>The value of an effect: a constant on its own or an expression.\<close>

datatype effect_value = EConst const | EExp expression

fun dedup_nodes :: "fluent list \<Rightarrow> node list \<Rightarrow> fluent list" where
  "dedup_nodes out [] = out"
| "dedup_nodes out (NFluent f # ns) = dedup_nodes (if f \<in> set out then out else out @ [f]) ns"
| "dedup_nodes out (n # ns) = dedup_nodes out ns"

fun dedup_fluents :: "effect_value \<Rightarrow> fluent list" where
  "dedup_fluents (EConst c) = []"
| "dedup_fluents (EExp e) = dedup_nodes [] e"


section \<open>The combinations with a new value\<close>

text \<open>
  \<open>visit\<close> gets a value and the state of its closure and says whether to go on.  The scratch
  assignment stands for \<open>_ScratchState\<close>; its \<open>None\<close> entries are never read.
\<close>

type_synonym 'a visitor = "const \<Rightarrow> 'a \<Rightarrow> bool \<times> 'a"

definition visit_combo ::
    "ifenv \<Rightarrow> expression \<Rightarrow> fluent list \<Rightarrow> 'a visitor \<Rightarrow> const list \<Rightarrow> const list \<times> 'a \<Rightarrow>
     ((const list \<times> 'a) + (const list \<times> 'a)) res" where
  "visit_combo ifs e fluents visit combo st = (case st of (scratch, a) \<Rightarrow>
     rbind (rfold (\<lambda>(f, v) sc. py_update sc (int (fl_idx f)) v) (zip fluents combo) scratch) (\<lambda>sc.
     rbind (evaluate ifs e sc) (\<lambda>v. case visit v a of (go, a') \<Rightarrow>
       Inr (if go then Inr (sc, a') else Inl (sc, a')))))"

text \<open>The ranges of round \<open>j\<close>: old values before the \<open>j\<close>-th fluent, new ones at it, all after it.\<close>

definition delta_ranges :: "const list list \<Rightarrow> nat list \<Rightarrow> nat list \<Rightarrow> nat \<Rightarrow> const list list" where
  "delta_ranges vals old new j = map (\<lambda>i.
     if i < j then take (old ! i) (vals ! i)
     else if i = j then drop (old ! i) (take (new ! i) (vals ! i))
     else take (new ! i) (vals ! i)) [0..<length vals]"

definition delta_loop ::
    "ifenv \<Rightarrow> expression \<Rightarrow> fluent list \<Rightarrow> const list list \<Rightarrow> nat list \<Rightarrow> nat list \<Rightarrow> 'a visitor \<Rightarrow>
     const list \<times> 'a \<Rightarrow> ((const list \<times> 'a) + (const list \<times> 'a)) res" where
  "delta_loop ifs e fluents vals old new visit =
     rloop (\<lambda>j. rloop (visit_combo ifs e fluents visit) (product_lists (delta_ranges vals old new j)))
       [0..<length fluents]"

fun for_each_new_value ::
    "ifenv \<Rightarrow> effect_value \<Rightarrow> fluent list \<Rightarrow> const list list \<Rightarrow> nat list \<Rightarrow> 'a visitor \<Rightarrow>
     const list \<times> 'a \<Rightarrow> (nat list \<times> const list \<times> 'a) res" where
  "for_each_new_value ifs (EConst c) fluents A old visit (scratch, a) =
     (if old = [1] then Inr (old, scratch, a) else Inr ([1], scratch, snd (visit c a)))"
| "for_each_new_value ifs (EExp e) fluents A old visit (scratch, a) =
     (if fluents = [] then
        if old = [1] then Inr (old, scratch, a)
        else rbind (evaluate ifs e scratch) (\<lambda>v. Inr ([1], scratch, snd (visit v a)))
      else
        let old = (if length old \<noteq> length fluents then replicate (length fluents) 0 else old) in
        rbind (rmap (\<lambda>f. py_nth A (int (fl_idx f))) fluents) (\<lambda>vals.
        let new = map length vals in
        if old = new then Inr (old, scratch, a)
        else rbind (delta_loop ifs e fluents vals old new visit (scratch, a)) (\<lambda>r. Inr (case r of
            Inl (sc, a') \<Rightarrow> (old, sc, a')
          | Inr (sc, a') \<Rightarrow> (new, sc, a')))))"


section \<open>The object\<close>

record hmax_op =
  ho_action :: action
  ho_conditions :: "expression list"
  ho_effects :: "(fluent \<times> effect_value) list"
  ho_cost :: rat
  ho_effect_fluents :: "fluent list list"

type_synonym cache_key = "const list \<times> (action \<times> nat) list"

record hmax =
  hm_events :: "(action, timed_event list) dict"
  hm_operators :: "hmax_op list"
  hm_extra_fluents :: "(action, fluent list) dict"
  hm_num_fluents :: nat
  hm_goals :: "expression list"
  hm_expr_fluents :: "(expression \<times> fluent list) list"
  hm_condition_fluents :: "fluent set list"
  hm_effect_fluents :: "fluent set list"

definition effect_entry :: "effect \<Rightarrow> fluent \<times> effect_value" where
  "effect_entry eff = (eff_fluent eff, case eff_value eff of [NConst c] \<Rightarrow> EConst c | e \<Rightarrow> EExp e)"

definition event_conditions :: "fluent \<Rightarrow> event \<Rightarrow> expression list res" where
  "event_conditions cond e = rbind (get_event_conditions e) (\<lambda>cs.
     rfold (\<lambda>c acc. if c \<noteq> [] \<and> \<not> exp_eq c [NConst (CBool True)]
       then rbind (split_expression c) (\<lambda>xs. Inr (acc @ xs)) else Inr acc) cs [[NFluent cond]])"

definition event_operator :: "action \<Rightarrow> fluent \<Rightarrow> event \<Rightarrow> expression list \<Rightarrow> hmax_op" where
  "event_operator a f e conditions =
     (let effects = (f, EConst (CBool True)) # map effect_entry (ev_effects e)
      in \<lparr>ho_action = a, ho_conditions = conditions, ho_effects = effects, ho_cost = 1,
          ho_effect_fluents = map (\<lambda>(_, v). dedup_fluents v) effects\<rparr>)"

text \<open>The events of one action, from the \<open>i\<close>-th on: \<open>f\<close> is the next free fluent.\<close>

fun action_operators ::
    "action option \<Rightarrow> action \<Rightarrow> nat \<Rightarrow> fluent \<Rightarrow> nat \<Rightarrow> timed_event list \<Rightarrow> hmax_op list \<Rightarrow> hmax_op list res" where
  "action_operators timed a i cond f [] ops = Inr ops"
| "action_operators timed a i cond f ((t, e) # le) ops =
     rbind (event_conditions cond e) (\<lambda>conditions.
     action_operators timed a (i + 1) (Fluent f) (f + 1) le
       (if \<not> list_ex (exp_eq [NConst (CBool False)]) conditions \<and> \<not> (i = 0 \<and> timed = Some a)
        then ops @ [event_operator a (Fluent f) e conditions] else ops))"

fun hmax_operators ::
    "action option \<Rightarrow> (action, timed_event list) dict \<Rightarrow> nat \<Rightarrow> hmax_op list \<Rightarrow> (action, fluent list) dict \<Rightarrow>
     (hmax_op list \<times> (action, fluent list) dict \<times> nat) res" where
  "hmax_operators timed [] n ops extra = Inr (ops, extra, n)"
| "hmax_operators timed ((a, le) # evs) n ops extra =
     rbind (action_operators timed a 0 (Fluent (n + length le - 1)) n le ops) (\<lambda>ops.
     hmax_operators timed evs (n + length le) ops (dict_set a (map Fluent [n..<n + length le]) extra))"

definition extra_goals :: "(action, fluent list) dict \<Rightarrow> expression list res" where
  "extra_goals extra = rmap (\<lambda>(_, fs). rbind (py_last fs) (\<lambda>f. Inr [NFluent f])) extra"

definition add_expr :: "expression \<Rightarrow> (expression \<times> fluent list) list \<Rightarrow> (expression \<times> fluent list) list" where
  "add_expr e d = (if exp_get d e = None then exp_set e (dedup_nodes [] e) d else d)"

fun value_fluents :: "effect_value \<Rightarrow> fluent list" where
  "value_fluents (EConst c) = []"
| "value_fluents (EExp e) = get_fluents e"

definition mk_hmax ::
    "nat \<Rightarrow> (action, timed_event list) dict \<Rightarrow> expression \<Rightarrow> action option \<Rightarrow> hmax res" where
  "mk_hmax num evs goals timed =
     rbind (hmax_operators timed evs num [] []) (\<lambda>(ops, extra, n).
     rbind (extra_goals extra) (\<lambda>xs.
     rbind (split_expression goals) (\<lambda>gs. Inr
       \<lparr>hm_events = evs, hm_operators = ops, hm_extra_fluents = extra, hm_num_fluents = n,
        hm_goals = gs @ xs,
        hm_expr_fluents = fold add_expr (gs @ xs @ concat (map ho_conditions ops)) [],
        hm_condition_fluents = map (\<lambda>op. \<Union>c \<in> set (ho_conditions op). set (get_fluents c)) ops,
        hm_effect_fluents = map (\<lambda>op. \<Union>(_, v) \<in> set (ho_effects op). set (value_fluents v)) ops\<rparr>)))"


section \<open>One evaluation\<close>

record hmax_state =
  hs_values :: "const list list"
  hs_can :: "(expression \<times> bool) list"
  hs_sizes :: "(expression \<times> nat list) list"
  hs_effect_sizes :: "(nat \<times> nat, nat list) dict"
  hs_applied :: "bool list"
  hs_scratch :: "const list"
  hs_changes :: "fluent set"
  hs_depth :: nat

definition see_true :: "bool visitor" where
  "see_true v seen = (if v = CBool True then (False, True) else (True, seen))"

definition exp_can_be_true :: "ifenv \<Rightarrow> hmax \<Rightarrow> expression \<Rightarrow> hmax_state \<Rightarrow> (bool \<times> hmax_state) res" where
  "exp_can_be_true ifs H e h =
     (if exp_get (hs_can h) e = Some True then Inr (True, h)
      else case exp_get (hm_expr_fluents H) e of
        None \<Rightarrow> Inl KeyErr
      | Some fluents \<Rightarrow>
          rbind (for_each_new_value ifs (EExp e) fluents (hs_values h)
              (case exp_get (hs_sizes h) e of None \<Rightarrow> [] | Some s \<Rightarrow> s) see_true (hs_scratch h, False))
            (\<lambda>(sizes, sc, seen). Inr (seen,
               if seen then h\<lparr>hs_scratch := sc, hs_can := exp_set e True (hs_can h)\<rparr>
               else h\<lparr>hs_scratch := sc, hs_sizes := exp_set e sizes (hs_sizes h)\<rparr>)))"

fun can_be_true :: "ifenv \<Rightarrow> hmax \<Rightarrow> expression list \<Rightarrow> hmax_state \<Rightarrow> (bool \<times> hmax_state) res" where
  "can_be_true ifs H [] h = Inr (True, h)"
| "can_be_true ifs H (e # es) h =
     rbind (exp_can_be_true ifs H e h) (\<lambda>(b, h'). if b then can_be_true ifs H es h' else Inr (False, h'))"

definition collect :: "const list visitor" where
  "collect v acc = (True, value_add v acc)"

text \<open>The effects of the \<open>i\<close>-th operator; \<open>new\<close> maps a fluent to the values collected for it.\<close>

definition apply_hmax_effect ::
    "ifenv \<Rightarrow> nat \<Rightarrow> nat \<times> (fluent \<times> effect_value) \<times> fluent list \<Rightarrow> hmax_state \<times> (fluent, const list) dict \<Rightarrow>
     (hmax_state \<times> (fluent, const list) dict) res" where
  "apply_hmax_effect ifs i p hn = (case (p, hn) of ((j, (f, v), fluents), (h, new)) \<Rightarrow>
     let acc = (case dict_get new f of None \<Rightarrow> [] | Some vs \<Rightarrow> vs);
         old = (case dict_get (hs_effect_sizes h) (i, j) of None \<Rightarrow> [] | Some s \<Rightarrow> s) in
     rbind (for_each_new_value ifs v fluents (hs_values h) old collect (hs_scratch h, acc))
       (\<lambda>(sizes, sc, acc'). Inr (h\<lparr>hs_scratch := sc, hs_effect_sizes := dict_set (i, j) sizes (hs_effect_sizes h)\<rparr>,
          dict_set f acc' new)))"

text \<open>Whether the \<open>i\<close>-th operator is applied in this round.\<close>

definition operator_applies ::
    "ifenv \<Rightarrow> hmax \<Rightarrow> nat \<Rightarrow> hmax_op \<Rightarrow> hmax_state \<Rightarrow> (bool \<times> hmax_state) res" where
  "operator_applies ifs H i op h =
     (if hs_applied h ! i then Inr (hs_changes h \<inter> hm_effect_fluents H ! i \<noteq> {}, h)
      else if hs_changes h \<inter> hm_condition_fluents H ! i = {} then Inr (False, h)
      else rbind (can_be_true ifs H (ho_conditions op) h) (\<lambda>(b, h').
        Inr (b, if b then h'\<lparr>hs_applied := (hs_applied h')[i := True]\<rparr> else h')))"

definition apply_operator ::
    "ifenv \<Rightarrow> hmax \<Rightarrow> nat \<times> hmax_op \<Rightarrow> hmax_state \<times> (fluent, const list) dict \<Rightarrow>
     (hmax_state \<times> (fluent, const list) dict) res" where
  "apply_operator ifs H p hn = (case (p, hn) of ((i, op), (h, new)) \<Rightarrow>
     rbind (operator_applies ifs H i op h) (\<lambda>(b, h').
       if b then rfold (apply_hmax_effect ifs i) (indexed (zip (ho_effects op) (ho_effect_fluents op))) (h', new)
       else Inr (h', new)))"

definition update_values ::
    "(const list \<Rightarrow> const list) \<Rightarrow> fluent \<times> const list \<Rightarrow> const list list \<times> fluent set \<Rightarrow>
     (const list list \<times> fluent set) res" where
  "update_values ord p ac = (case (p, ac) of ((f, vs), (A, changes)) \<Rightarrow>
     rbind (py_nth A (int (fl_idx f))) (\<lambda>old.
     let new = fold value_add (ord vs) old in
     rbind (py_update A (int (fl_idx f)) new) (\<lambda>A'.
     Inr (A', if length old < length new then insert f changes else changes))))"

definition hmax_round ::
    "ifenv \<Rightarrow> (const list \<Rightarrow> const list) \<Rightarrow> hmax \<Rightarrow> hmax_state \<Rightarrow> (nat option + hmax_state) res" where
  "hmax_round ifs ord H h =
     (if hs_changes h = {} then Inr (Inl None)
      else rbind (can_be_true ifs H (hm_goals H) h) (\<lambda>(b, h).
        if b then Inr (Inl (Some (hs_depth h)))
        else rbind (rfold (apply_operator ifs H) (indexed (hm_operators H)) (h, [])) (\<lambda>(h, new).
        rbind (rfold (update_values ord) new (hs_values h, {})) (\<lambda>(A, changes).
        Inr (Inr (h\<lparr>hs_values := A, hs_changes := changes, hs_depth := hs_depth h + 1\<rparr>))))))"

text \<open>The values of a state, with the fluents that tell how far each action has come.\<close>

definition add_value :: "nat \<Rightarrow> const \<Rightarrow> const list list \<Rightarrow> const list list res" where
  "add_value i v A = rbind (py_nth A (int i)) (\<lambda>vs. py_update A (int i) (value_add v vs))"

definition progress_values ::
    "hmax \<Rightarrow> (action, nat \<times> nat) dict \<Rightarrow> action \<times> timed_event list \<Rightarrow> const list list \<Rightarrow> const list list res" where
  "progress_values H todo p A = (case p of (a, _) \<Rightarrow>
     rbind (dict_lookup (hm_extra_fluents H) a) (\<lambda>fs.
     let idx = (case dict_get todo a of None \<Rightarrow> int (length fs) - 1 | Some (j, _) \<Rightarrow> int j - 1) in
     rfold (\<lambda>(i, f). add_value (fl_idx f) (CBool (int i = idx))) (indexed fs) A))"

definition initial_values :: "hmax \<Rightarrow> 'n state \<Rightarrow> const list list res" where
  "initial_values H s =
     rbind (rfold (\<lambda>(i, v). add_value i v) (indexed (st_assignments s)) (replicate (hm_num_fluents H) [])) (\<lambda>A.
     rfold (progress_values H (st_todo s)) (hm_events H) A)"

definition hmax_eval_core ::
    "ifenv \<Rightarrow> (const list \<Rightarrow> const list) \<Rightarrow> hmax \<Rightarrow> 'n state \<Rightarrow> nat option res" where
  "hmax_eval_core ifs ord H s =
     rbind (initial_values H s) (\<lambda>A.
     run_rounds (hmax_round ifs ord H)
       \<lparr>hs_values = A, hs_can = [], hs_sizes = [], hs_effect_sizes = [],
        hs_applied = replicate (length (hm_operators H)) False,
        hs_scratch = replicate (hm_num_fluents H) (CBool False),
        hs_changes = Fluent ` {..<hm_num_fluents H}, hs_depth = 0\<rparr>)"


section \<open>The evaluation with its own cache\<close>

definition state_key :: "'n state \<Rightarrow> cache_key" where
  "state_key s = (st_assignments s, sort_key fst (map (\<lambda>(a, (j, _)). (a, j)) (st_todo s)))"

definition key_eq :: "cache_key \<Rightarrow> cache_key \<Rightarrow> bool" where
  "key_eq k l = (list_all2 py_eq (fst k) (fst l) \<and> snd k = snd l)"

definition hmax_eval ::
    "ifenv \<Rightarrow> (const list \<Rightarrow> const list) \<Rightarrow> hmax \<Rightarrow> (cache_key \<times> nat option) list option \<Rightarrow> 'n state \<Rightarrow>
     (nat option \<times> (cache_key \<times> nat option) list option) res" where
  "hmax_eval ifs ord H cache s = (case cache of
     None \<Rightarrow> rbind (hmax_eval_core ifs ord H s) (\<lambda>r. Inr (r, None))
   | Some d \<Rightarrow> (case find (\<lambda>(k, _). key_eq k (state_key s)) d of
       Some (_, r) \<Rightarrow> Inr (r, cache)
     | None \<Rightarrow> rbind (hmax_eval_core ifs ord H s) (\<lambda>r. Inr (r, Some (d @ [(state_key s, r)])))))"

end
