(* ===== verification/HMax_Delta.thy ===== *)
theory HMax_Delta
  imports HMax_Explicit Expression_Types
begin

text \<open>
  The enumeration of \<open>_for_each_new_value\<close>: together with the combinations of the sizes it is
  given, the combinations it visits are all combinations of the values.
\<close>

section \<open>Assignments drawn from lists of values\<close>

definition fits :: "fluent list \<Rightarrow> const list \<Rightarrow> const list \<Rightarrow> bool" where
  "fits fs vs asg \<longleftrightarrow> list_all2 (\<lambda>f v. py_nth asg (int (fl_idx f)) = Inr v) fs vs"

definition draws :: "fluent list \<Rightarrow> const list list \<Rightarrow> const list \<Rightarrow> bool" where
  "draws fs xss asg \<longleftrightarrow> list_all2 (\<lambda>f xs. \<exists>v \<in> set xs. py_nth asg (int (fl_idx f)) = Inr v) fs xss"

lemma draws_combo: "draws fs xss asg \<longleftrightarrow> (\<exists>vs \<in> set (product_lists xss). fits fs vs asg)"
proof (induction fs arbitrary: xss)
  case Nil
  then show ?case by (cases xss) (auto simp: draws_def fits_def)
next
  case (Cons f fs)
  then show ?case by (cases xss) (auto simp: draws_def fits_def list_all2_Cons1)
qed

lemma fits_nth:
  "fits fs vs asg \<longleftrightarrow> length vs = length fs \<and> (\<forall>i < length fs. py_nth asg (int (fl_idx (fs ! i))) = Inr (vs ! i))"
  by (auto simp: fits_def list_all2_conv_all_nth)

lemma draws_nth:
  "draws fs xss asg \<longleftrightarrow> length xss = length fs \<and>
     (\<forall>i < length fs. \<exists>v \<in> set (xss ! i). py_nth asg (int (fl_idx (fs ! i))) = Inr v)"
  by (auto simp: draws_def list_all2_conv_all_nth)

lemma fits_evaluate:
  assumes "fits fs vs asg" "fits fs vs asg'" "set (get_fluents e) \<subseteq> set fs"
  shows "evaluate ifs e asg = evaluate ifs e asg'"
proof (rule evaluate_agree)
  fix f assume "f \<in> set (get_fluents e)"
  with assms(3) have "f \<in> set fs" by blast
  then obtain i where "i < length fs" "f = fs ! i" by (auto simp: in_set_conv_nth)
  with assms(1,2) show "py_nth asg (int (fl_idx f)) = py_nth asg' (int (fl_idx f))" by (simp add: fits_nth)
qed

lemma scratch_fits:
  assumes "distinct fs" "length vs = length fs" "\<forall>f \<in> set fs. fl_idx f < length sc"
  shows "\<exists>sc'. rfold (\<lambda>(f, v) sc. py_update sc (int (fl_idx f)) v) (zip fs vs) sc = Inr sc' \<and>
    length sc' = length sc \<and> fits fs vs sc' \<and> (\<forall>i. Fluent i \<notin> set fs \<longrightarrow> sc' ! i = sc ! i)"
  using assms
proof (induction fs arbitrary: vs sc)
  case (Cons f fs)
  then obtain v ws where vs: "vs = v # ws" by (cases vs) auto
  let ?sc = "sc[fl_idx f := v]"
  from Cons.IH [of ws ?sc] Cons.prems vs obtain sc' where sc':
    "rfold (\<lambda>(f, v) sc. py_update sc (int (fl_idx f)) v) (zip fs ws) ?sc = Inr sc'"
    "length sc' = length sc" "fits fs ws sc'" "\<forall>i. Fluent i \<notin> set fs \<longrightarrow> sc' ! i = ?sc ! i" by auto
  have "f \<notin> set fs" "fl_idx f < length sc" using Cons.prems by auto
  then have "sc' ! fl_idx f = v" using sc'(4) by (cases f) auto
  moreover have "sc' ! i = sc ! i" if "Fluent i \<notin> set (f # fs)" for i
    using that sc'(4) by (cases f) (auto simp: nth_list_update)
  ultimately show ?case using sc' vs Cons.prems(3) by (auto simp: fits_def)
qed (auto simp: fits_def)


section \<open>The combinations visited\<close>

lemma rloop_append:
  "rloop g (xs @ ys) s = rbind (rloop g xs s) (\<lambda>r. case r of Inl x \<Rightarrow> Inr (Inl x) | Inr s' \<Rightarrow> rloop g ys s')"
proof (induction xs arbitrary: s)
  case (Cons x xs)
  show ?case by (cases "g x s") (auto simp: Cons.IH split: sum.split)
qed simp

lemma rloop_concat: "rloop (\<lambda>j. rloop g (cs j)) js s = rloop g (concat (map cs js)) s"
proof (induction js arbitrary: s)
  case (Cons j js)
  have "rloop (\<lambda>j. rloop g (cs j)) js = rloop g (concat (map cs js))" by (rule ext) (rule Cons.IH)
  then show ?case by (simp add: rloop_append)
qed simp

definition delta_combos :: "const list list \<Rightarrow> nat list \<Rightarrow> nat list \<Rightarrow> const list list" where
  "delta_combos vals old new =
     concat (map (\<lambda>j. product_lists (delta_ranges vals old new j)) [0..<length vals])"

lemma set_product: "set (product_lists xss) = {vs. list_all2 (\<lambda>v xs. v \<in> set xs) vs xss}"
  by (rule product_lists_set)

lemma product_nth:
  "vs \<in> set (product_lists xss) \<longleftrightarrow> length vs = length xss \<and> (\<forall>i < length xss. vs ! i \<in> set (xss ! i))"
  by (auto simp: set_product list_all2_conv_all_nth)

definition prefixes :: "nat list \<Rightarrow> const list list \<Rightarrow> const list list" where
  "prefixes s vals = map (\<lambda>(n, vs). take n vs) (zip s vals)"

lemma prefixes_nth [simp]:
  "length s = length vals \<Longrightarrow> length (prefixes s vals) = length vals"
  "length s = length vals \<Longrightarrow> i < length vals \<Longrightarrow> prefixes s vals ! i = take (s ! i) (vals ! i)"
  by (auto simp: prefixes_def)

lemma delta_combos_sub:
  assumes "vs \<in> set (delta_combos vals old (map length vals))"
  shows "vs \<in> set (product_lists vals)"
proof -
  from assms obtain j where "vs \<in> set (product_lists (delta_ranges vals old (map length vals) j))"
    by (auto simp: delta_combos_def)
  then show ?thesis
    by (auto simp: product_nth delta_ranges_def split: if_splits dest: in_set_takeD in_set_dropD)
qed

lemma delta_combos_all:
  assumes "length old = length vals" "vs \<in> set (product_lists vals)"
  shows "vs \<in> set (product_lists (prefixes old vals)) \<or> vs \<in> set (delta_combos vals old (map length vals))"
proof (cases "\<exists>i < length vals. vs ! i \<notin> set (take (old ! i) (vals ! i))")
  case True
  define j where "j = (LEAST i. i < length vals \<and> vs ! i \<notin> set (take (old ! i) (vals ! i)))"
  have j: "j < length vals" "vs ! j \<notin> set (take (old ! j) (vals ! j))"
    using LeastI_ex [OF True] by (simp_all add: j_def)
  have before: "vs ! i \<in> set (take (old ! i) (vals ! i))" if "i < j" for i
    using not_less_Least [of i "\<lambda>i. i < length vals \<and> vs ! i \<notin> set (take (old ! i) (vals ! i))"] that j(1)
    by (auto simp: j_def)
  have "vs ! j \<in> set (take (old ! j) (vals ! j) @ drop (old ! j) (vals ! j))"
    using assms(2) j(1) by (simp add: product_nth)
  with j(2) have "vs ! j \<in> set (drop (old ! j) (vals ! j))" by (simp only: set_append) blast
  with before assms(2) have "vs \<in> set (product_lists (delta_ranges vals old (map length vals) j))"
    by (auto simp: product_nth delta_ranges_def)
  with j(1) show ?thesis by (auto simp: delta_combos_def)
next
  case False
  with assms show ?thesis by (auto simp: product_nth)
qed


section \<open>Visiting values\<close>

text \<open>The value of an expression on a combination, which no other fluent matters for.\<close>

definition value_at :: "ifenv \<Rightarrow> expression \<Rightarrow> fluent list \<Rightarrow> const list \<Rightarrow> const \<Rightarrow> bool" where
  "value_at ifs e fs vs v \<longleftrightarrow> (\<forall>asg. fits fs vs asg \<longrightarrow> evaluate ifs e asg = Inr v)"

definition scratch_ok :: "expression \<Rightarrow> fluent list \<Rightarrow> const list \<Rightarrow> bool" where
  "scratch_ok e fs sc \<longleftrightarrow> distinct fs \<and> set (get_fluents e) \<subseteq> set fs \<and> (\<forall>f \<in> set fs. fl_idx f < length sc)"

lemma visit_comboD:
  assumes "visit_combo ifs e fs visit vs (sc, a) = Inr r" "scratch_ok e fs sc" "length vs = length fs"
  shows "\<exists>v sc'. value_at ifs e fs vs v \<and> length sc' = length sc \<and>
    r = (case visit v a of (go, a') \<Rightarrow> if go then Inr (sc', a') else Inl (sc', a'))"
proof -
  have ok: "distinct fs" "set (get_fluents e) \<subseteq> set fs" "\<forall>f \<in> set fs. fl_idx f < length sc"
    using assms(2) by (simp_all add: scratch_ok_def)
  from scratch_fits [OF ok(1) assms(3) ok(3)] obtain sc' where
    sc': "rfold (\<lambda>(f, v) sc. py_update sc (int (fl_idx f)) v) (zip fs vs) sc = Inr sc'"
      "length sc' = length sc" "fits fs vs sc'" by blast
  from assms(1) sc'(1) obtain v where v: "evaluate ifs e sc' = Inr v"
    and r: "r = (case visit v a of (go, a') \<Rightarrow> if go then Inr (sc', a') else Inl (sc', a'))"
    by (cases "evaluate ifs e sc'") (auto simp: visit_combo_def split: prod.splits)
  have "value_at ifs e fs vs v"
    using v fits_evaluate [OF _ sc'(3) ok(2)] by (simp add: value_at_def)
  with sc'(2) r show ?thesis by blast
qed

lemma see_true_loop:
  assumes "rloop (visit_combo ifs e fs see_true) cs (sc, False) = Inr r"
    and "scratch_ok e fs sc" "\<forall>c \<in> set cs. length c = length fs"
  shows "\<exists>sc'. length sc' = length sc \<and>
    (r = Inl (sc', True) \<and> (\<exists>c \<in> set cs. value_at ifs e fs c (CBool True)) \<or>
     r = Inr (sc', False) \<and> (\<forall>c \<in> set cs. \<exists>v. value_at ifs e fs c v \<and> v \<noteq> CBool True))"
  using assms
proof (induction cs arbitrary: sc)
  case (Cons c cs)
  from Cons.prems(1) obtain y where y: "visit_combo ifs e fs see_true c (sc, False) = Inr y"
    by (auto simp: rbind_eq_Inr)
  from visit_comboD [OF this Cons.prems(2)] Cons.prems(3) obtain v sc' where
    v: "value_at ifs e fs c v" "length sc' = length sc"
      "y = (if v = CBool True then Inl (sc', True) else Inr (sc', False))"
    by (auto simp: see_true_def split: if_splits)
  show ?case
  proof (cases "v = CBool True")
    case True
    with y v Cons.prems(1) show ?thesis by auto
  next
    case False
    with y v Cons.prems(1) have "rloop (visit_combo ifs e fs see_true) cs (sc', False) = Inr r" by simp
    from Cons.IH [OF this] Cons.prems(2,3) v(2) obtain sc'' where "length sc'' = length sc"
      "r = Inl (sc'', True) \<and> (\<exists>c \<in> set cs. value_at ifs e fs c (CBool True)) \<or>
       r = Inr (sc'', False) \<and> (\<forall>c \<in> set cs. \<exists>v. value_at ifs e fs c v \<and> v \<noteq> CBool True)"
      by (auto simp: scratch_ok_def)
    with v(1) False show ?thesis by (intro exI [of _ sc'']) auto
  qed
qed auto

lemma typed_py_eq: "const_ty v = Some ty \<Longrightarrow> const_ty w = Some ty \<Longrightarrow> py_eq v w \<longleftrightarrow> v = w"
  by (cases v; cases w) (auto simp: py_eq_def split: if_splits dest: sym)

lemma value_add_typed:
  assumes "\<forall>w \<in> set vs. const_ty w = Some ty" "const_ty v = Some ty"
  shows "set (value_add v vs) = insert v (set vs)"
proof -
  have "list_ex (py_eq v) vs \<longleftrightarrow> v \<in> set vs"
    using assms typed_py_eq by (auto simp: list_ex_iff)
  then show ?thesis by (auto simp: value_add_def)
qed

lemma value_add_prefix: "\<exists>zs. value_add v vs = vs @ zs"
  by (simp add: value_add_def)

lemma collect_loop:
  assumes "rloop (visit_combo ifs e fs collect) cs (sc, acc) = Inr r"
    and "scratch_ok e fs sc" "\<forall>c \<in> set cs. length c = length fs"
    and typed: "\<forall>c \<in> set cs. \<forall>v. value_at ifs e fs c v \<longrightarrow> const_ty v = Some ty" "\<forall>v \<in> set acc. const_ty v = Some ty"
  shows "\<exists>sc' acc'. r = Inr (sc', acc') \<and> length sc' = length sc \<and> (\<forall>v \<in> set acc'. const_ty v = Some ty) \<and>
    set acc \<subseteq> set acc' \<and> (\<forall>c \<in> set cs. \<exists>v \<in> set acc'. value_at ifs e fs c v) \<and>
    (\<forall>v \<in> set acc' - set acc. \<exists>c \<in> set cs. value_at ifs e fs c v)"
  using assms
proof (induction cs arbitrary: sc acc)
  case (Cons c cs)
  from Cons.prems(1) obtain y where y: "visit_combo ifs e fs collect c (sc, acc) = Inr y"
    by (auto simp: rbind_eq_Inr)
  from visit_comboD [OF this Cons.prems(2)] Cons.prems(3) obtain v sc1 where
    v: "value_at ifs e fs c v" "length sc1 = length sc" "y = Inr (sc1, value_add v acc)"
    by (auto simp: collect_def)
  have ty: "const_ty v = Some ty" using Cons.prems(4) v(1) by simp
  note set = value_add_typed [OF Cons.prems(5) ty]
  have "\<exists>sc' acc'. r = Inr (sc', acc') \<and> length sc' = length sc1 \<and> (\<forall>v \<in> set acc'. const_ty v = Some ty) \<and>
    set (value_add v acc) \<subseteq> set acc' \<and> (\<forall>c \<in> set cs. \<exists>v \<in> set acc'. value_at ifs e fs c v) \<and>
    (\<forall>w \<in> set acc' - set (value_add v acc). \<exists>c \<in> set cs. value_at ifs e fs c w)"
  proof (rule Cons.IH)
    show "rloop (visit_combo ifs e fs collect) cs (sc1, value_add v acc) = Inr r" using y v(3) Cons.prems(1) by simp
    show "scratch_ok e fs sc1" using Cons.prems(2) v(2) by (simp add: scratch_ok_def)
    show "\<forall>v \<in> set (value_add v acc). const_ty v = Some ty" using set ty Cons.prems(5) by simp
  qed (use Cons.prems(3,4) in simp_all)
  then show ?case
    using v(1,2) unfolding set by (elim exE conjE, intro exI conjI) (assumption | simp | blast)+
qed auto


section \<open>One call of the enumeration\<close>

definition vals_of :: "const list list \<Rightarrow> fluent list \<Rightarrow> const list list" where
  "vals_of A fs = map (\<lambda>f. A ! fl_idx f) fs"

definition covered :: "fluent list \<Rightarrow> nat list \<Rightarrow> const list list \<Rightarrow> const list \<Rightarrow> bool" where
  "covered fs s A asg \<longleftrightarrow> (if fs = [] then s = [1]
     else length s = length fs \<and> draws fs (prefixes s (vals_of A fs)) asg)"

definition full_sizes :: "fluent list \<Rightarrow> const list list \<Rightarrow> nat list" where
  "full_sizes fs A = (if fs = [] then [1] else map length (vals_of A fs))"

lemma length_vals_of [simp]: "length (vals_of A fs) = length fs"
  by (simp add: vals_of_def)

lemma full_covered: "draws fs (vals_of A fs) asg \<Longrightarrow> covered fs (full_sizes fs A) A asg"
  by (auto simp: covered_def full_sizes_def draws_nth)

lemma rmap_vals: "\<forall>f \<in> set fs. fl_idx f < length A \<Longrightarrow> rmap (\<lambda>f. py_nth A (int (fl_idx f))) fs = Inr (vals_of A fs)"
  by (induction fs) (auto simp: vals_of_def)

lemma covered_zeros: "fs \<noteq> [] \<Longrightarrow> \<not> covered fs (replicate (length fs) 0) A asg"
  by (cases fs) (auto simp: covered_def draws_nth)

text \<open>The combinations \<open>cs\<close> one call visits, and the sizes it leaves when it is not stopped.\<close>

lemma for_each_visits:
  assumes run: "for_each_new_value ifs (EExp e) fs A old visit (sc, a) = Inr (sizes, sc', a')"
    and ok: "scratch_ok e fs sc" "\<forall>f \<in> set fs. fl_idx f < length A"
  shows "\<exists>cs r. rloop (visit_combo ifs e fs visit) cs (sc, a) = Inr r \<and>
    (sc', a') = (case r of Inl x \<Rightarrow> x | Inr x \<Rightarrow> x) \<and> (\<forall>c \<in> set cs. c \<in> set (product_lists (vals_of A fs))) \<and>
    (\<forall>asg. draws fs (vals_of A fs) asg \<longrightarrow> covered fs old A asg \<or> (\<exists>c \<in> set cs. fits fs c asg)) \<and>
    (\<forall>x. r = Inr x \<longrightarrow> sizes = full_sizes fs A)"
proof (cases "fs = []")
  case True
  show ?thesis
  proof (cases "old = [1]")
    case True
    with run \<open>fs = []\<close> show ?thesis
      by (intro exI [of _ "[]"]) (auto simp: covered_def full_sizes_def)
  next
    case False
    with run \<open>fs = []\<close> obtain v where v: "evaluate ifs e sc = Inr v" "sizes = [1]" "sc' = sc" "a' = snd (visit v a)"
      by (auto simp: rbind_eq_Inr)
    then have "rloop (visit_combo ifs e fs visit) [[]] (sc, a) =
        Inr (if fst (visit v a) then Inr (sc, a') else Inl (sc, a'))"
      using \<open>fs = []\<close> by (auto simp: visit_combo_def split: prod.split)
    with v \<open>fs = []\<close> show ?thesis
      by (intro exI [of _ "[[]]"] exI [of _ "if fst (visit v a) then Inr (sc, a') else Inl (sc, a')"])
        (auto simp: full_sizes_def vals_of_def fits_def draws_def)
  qed
next
  case False
  let ?old = "if length old \<noteq> length fs then replicate (length fs) 0 else old"
  let ?vals = "vals_of A fs" let ?new = "map length (vals_of A fs)"
  have old: "length ?old = length fs" by simp
  have same: "covered fs ?old A asg \<Longrightarrow> covered fs old A asg" for asg
    using covered_zeros [OF False] by (auto split: if_splits)
  have new: "?new = full_sizes fs A" using False by (simp add: full_sizes_def)
  have call: "(if ?old = ?new then Inr (?old, sc, a)
      else rbind (delta_loop ifs e fs ?vals ?old ?new visit (sc, a)) (\<lambda>r. Inr (case r of
          Inl (sc, a') \<Rightarrow> (?old, sc, a') | Inr (sc, a') \<Rightarrow> (?new, sc, a')))) = Inr (sizes, sc', a')"
    using run False rmap_vals [OF ok(2)] by (simp only: for_each_new_value.simps if_False Let_def rbind_simps)
  show ?thesis
  proof (cases "?old = ?new")
    case True
    with call have "sizes = ?new" "sc' = sc" "a' = a" by auto
    moreover have "covered fs old A asg" if "draws fs ?vals asg" for asg
      by (rule same) (simp only: True new full_covered [OF that])
    ultimately show ?thesis using new by (intro exI [of _ "[]"]) auto
  next
    case neq: False
    let ?cs = "delta_combos ?vals ?old ?new"
    from call neq obtain r where r: "delta_loop ifs e fs ?vals ?old ?new visit (sc, a) = Inr r"
      and res: "(sizes, sc', a') = (case r of Inl (sc, a') \<Rightarrow> (?old, sc, a') | Inr (sc, a') \<Rightarrow> (?new, sc, a'))"
      by (auto simp: rbind_eq_Inr)
    have "rloop (visit_combo ifs e fs visit) ?cs (sc, a) = Inr r"
      using r by (simp only: delta_loop_def rloop_concat delta_combos_def length_vals_of)
    moreover have "covered fs old A asg \<or> (\<exists>c \<in> set ?cs. fits fs c asg)" if draw: "draws fs ?vals asg" for asg
    proof -
      from draw obtain c where c: "c \<in> set (product_lists ?vals)" "fits fs c asg" by (auto simp: draws_combo)
      show ?thesis
      proof (cases "c \<in> set ?cs")
        case False
        with delta_combos_all [of ?old ?vals c] c(1) have "c \<in> set (product_lists (prefixes ?old ?vals))" by simp
        with c(2) have "draws fs (prefixes ?old ?vals) asg" by (auto simp: draws_combo)
        with old \<open>fs \<noteq> []\<close> have "covered fs ?old A asg" by (simp only: covered_def if_False)
        with same show ?thesis by blast
      qed (use c(2) in blast)
    qed
    moreover have "\<forall>c \<in> set ?cs. c \<in> set (product_lists ?vals)" using delta_combos_sub by blast
    moreover have "(sc', a') = (case r of Inl x \<Rightarrow> x | Inr x \<Rightarrow> x)" using res by (cases r) auto
    moreover have "\<forall>x. r = Inr x \<longrightarrow> sizes = full_sizes fs A" using res by (auto simp flip: new)
    ultimately show ?thesis by (intro exI [of _ ?cs] exI [of _ r] conjI) blast+
  qed
qed

lemma product_length: "c \<in> set (product_lists (vals_of A fs)) \<Longrightarrow> length c = length fs"
  by (simp add: product_nth)

lemma product_draws: "c \<in> set (product_lists (vals_of A fs)) \<Longrightarrow> fits fs c asg \<Longrightarrow> draws fs (vals_of A fs) asg"
  by (auto simp: draws_combo)

text \<open>There is an assignment for every combination.\<close>

lemma fits_exists:
  assumes "scratch_ok e fs sc" "length c = length fs"
  shows "\<exists>asg. fits fs c asg"
  using scratch_fits [of fs c sc] assms by (auto simp: scratch_ok_def)

lemma see_true_call:
  assumes run: "for_each_new_value ifs (EExp e) fs A old see_true (sc, False) = Inr (sizes, sc', seen)"
    and ok: "scratch_ok e fs sc" "\<forall>f \<in> set fs. fl_idx f < length A"
  shows "length sc' = length sc \<and>
    (if seen then \<exists>asg. draws fs (vals_of A fs) asg \<and> evaluate ifs e asg = Inr (CBool True)
     else sizes = full_sizes fs A \<and>
       (\<forall>asg. draws fs (vals_of A fs) asg \<longrightarrow> covered fs old A asg \<or> evaluate ifs e asg \<noteq> Inr (CBool True)))"
proof -
  from for_each_visits [OF run ok] obtain cs r where
    r: "rloop (visit_combo ifs e fs see_true) cs (sc, False) = Inr r" "(sc', seen) = (case r of Inl x \<Rightarrow> x | Inr x \<Rightarrow> x)"
    and cs: "\<forall>c \<in> set cs. c \<in> set (product_lists (vals_of A fs))"
      "\<forall>asg. draws fs (vals_of A fs) asg \<longrightarrow> covered fs old A asg \<or> (\<exists>c \<in> set cs. fits fs c asg)"
    and sizes: "\<forall>x. r = Inr x \<longrightarrow> sizes = full_sizes fs A" by blast
  have "\<forall>c \<in> set cs. length c = length fs" using cs(1) product_length by blast
  from see_true_loop [OF r(1) ok(1) this] obtain sc1 where len: "length sc1 = length sc" and
    "r = Inl (sc1, True) \<and> (\<exists>c \<in> set cs. value_at ifs e fs c (CBool True)) \<or>
     r = Inr (sc1, False) \<and> (\<forall>c \<in> set cs. \<exists>v. value_at ifs e fs c v \<and> v \<noteq> CBool True)" by blast
  then show ?thesis
  proof (elim disjE conjE bexE)
    fix c assume c: "r = Inl (sc1, True)" "c \<in> set cs" "value_at ifs e fs c (CBool True)"
    with cs(1) have p: "c \<in> set (product_lists (vals_of A fs))" by blast
    from fits_exists [OF ok(1) product_length [OF p]] obtain asg where "fits fs c asg" by blast
    with product_draws [OF p] c r(2) len show ?thesis by (auto simp: value_at_def)
  next
    assume r': "r = Inr (sc1, False)" and no: "\<forall>c \<in> set cs. \<exists>v. value_at ifs e fs c v \<and> v \<noteq> CBool True"
    have "covered fs old A asg \<or> evaluate ifs e asg \<noteq> Inr (CBool True)" if draw: "draws fs (vals_of A fs) asg" for asg
    proof (cases "covered fs old A asg")
      case False
      with cs(2) draw obtain c where "c \<in> set cs" "fits fs c asg" by blast
      with no show ?thesis by (force simp: value_at_def)
    qed simp
    with r' r(2) len sizes show ?thesis by auto
  qed
qed

lemma collect_call:
  assumes run: "for_each_new_value ifs (EExp e) fs A old collect (sc, acc) = Inr (sizes, sc', acc')"
    and ok: "scratch_ok e fs sc" "\<forall>f \<in> set fs. fl_idx f < length A"
    and typed: "\<And>asg v. draws fs (vals_of A fs) asg \<Longrightarrow> evaluate ifs e asg = Inr v \<Longrightarrow> const_ty v = Some ty"
      "\<forall>v \<in> set acc. const_ty v = Some ty"
  shows "length sc' = length sc \<and> sizes = full_sizes fs A \<and> (\<forall>v \<in> set acc'. const_ty v = Some ty) \<and> set acc \<subseteq> set acc' \<and>
    (\<forall>asg. draws fs (vals_of A fs) asg \<longrightarrow> covered fs old A asg \<or> (\<exists>v \<in> set acc'. evaluate ifs e asg = Inr v)) \<and>
    (\<forall>v \<in> set acc' - set acc. \<exists>asg. draws fs (vals_of A fs) asg \<and> evaluate ifs e asg = Inr v)"
proof -
  from for_each_visits [OF run ok] obtain cs r where
    r: "rloop (visit_combo ifs e fs collect) cs (sc, acc) = Inr r" "(sc', acc') = (case r of Inl x \<Rightarrow> x | Inr x \<Rightarrow> x)"
    and cs: "\<forall>c \<in> set cs. c \<in> set (product_lists (vals_of A fs))"
      "\<forall>asg. draws fs (vals_of A fs) asg \<longrightarrow> covered fs old A asg \<or> (\<exists>c \<in> set cs. fits fs c asg)"
    and sizes: "\<forall>x. r = Inr x \<longrightarrow> sizes = full_sizes fs A" by blast
  have len: "\<forall>c \<in> set cs. length c = length fs" using cs(1) product_length by blast
  have drawn: "\<exists>asg. draws fs (vals_of A fs) asg \<and> evaluate ifs e asg = Inr v"
    if "c \<in> set cs" "value_at ifs e fs c v" for c v
  proof -
    from that(1) cs(1) have p: "c \<in> set (product_lists (vals_of A fs))" by blast
    from fits_exists [OF ok(1) product_length [OF p]] obtain asg where "fits fs c asg" by blast
    with product_draws [OF p] that(2) show ?thesis by (auto simp: value_at_def)
  qed
  have "\<forall>c \<in> set cs. \<forall>v. value_at ifs e fs c v \<longrightarrow> const_ty v = Some ty" using drawn typed(1) by blast
  from collect_loop [OF r(1) ok(1) len this typed(2)] obtain sc1 acc1 where
    r': "r = Inr (sc1, acc1)" "length sc1 = length sc" "\<forall>v \<in> set acc1. const_ty v = Some ty" "set acc \<subseteq> set acc1"
    and all: "\<forall>c \<in> set cs. \<exists>v \<in> set acc1. value_at ifs e fs c v"
    and only: "\<forall>v \<in> set acc1 - set acc. \<exists>c \<in> set cs. value_at ifs e fs c v" by blast
  have eq: "sc' = sc1" "acc' = acc1" using r(2) r'(1) by simp_all
  have "covered fs old A asg \<or> (\<exists>v \<in> set acc'. evaluate ifs e asg = Inr v)" if draw: "draws fs (vals_of A fs) asg" for asg
  proof (cases "covered fs old A asg")
    case False
    with cs(2) draw obtain c where "c \<in> set cs" "fits fs c asg" by blast
    with all eq show ?thesis by (force simp: value_at_def)
  qed simp
  moreover have "\<exists>asg. draws fs (vals_of A fs) asg \<and> evaluate ifs e asg = Inr v" if "v \<in> set acc' - set acc" for v
    using that only drawn eq by blast
  ultimately show ?thesis using r' sizes eq by auto
qed

end
