(* ===== verification/HMax_Rounds.thy ===== *)
theory HMax_Rounds
  imports HMax_Delta
begin

text \<open>
  The rounds of \<open>HMaxExplicit\<close> against the layers of the relaxation: in every round the value
  lists are the layer of its number, although only combinations with a new value are evaluated
  and operators without changed fluents are skipped.
\<close>

section \<open>The relaxation\<close>

type_synonym value_map = "fluent \<Rightarrow> const set"

definition picks :: "value_map \<Rightarrow> fluent list \<Rightarrow> const list \<Rightarrow> bool" where
  "picks V fs asg \<longleftrightarrow> (\<forall>f \<in> set fs. \<exists>v \<in> V f. py_nth asg (int (fl_idx f)) = Inr v)"

definition can_hold :: "ifenv \<Rightarrow> value_map \<Rightarrow> expression \<Rightarrow> bool" where
  "can_hold ifs V e \<longleftrightarrow> (\<exists>asg. picks V (get_fluents e) asg \<and> evaluate ifs e asg = Inr (CBool True))"

fun effect_values :: "ifenv \<Rightarrow> value_map \<Rightarrow> effect_value \<Rightarrow> const set" where
  "effect_values ifs V (EConst c) = {c}"
| "effect_values ifs V (EExp e) = {v. \<exists>asg. picks V (get_fluents e) asg \<and> evaluate ifs e asg = Inr v}"

definition applicable :: "ifenv \<Rightarrow> value_map \<Rightarrow> hmax_op \<Rightarrow> bool" where
  "applicable ifs V op \<longleftrightarrow> (\<forall>c \<in> set (ho_conditions op). can_hold ifs V c)"

definition relaxed_step :: "ifenv \<Rightarrow> hmax_op list \<Rightarrow> value_map \<Rightarrow> value_map" where
  "relaxed_step ifs ops V f = V f \<union>
     {v. \<exists>op \<in> set ops. applicable ifs V op \<and> (\<exists>ev. (f, ev) \<in> set (ho_effects op) \<and> v \<in> effect_values ifs V ev)}"

definition layer :: "ifenv \<Rightarrow> hmax_op list \<Rightarrow> value_map \<Rightarrow> nat \<Rightarrow> value_map" where
  "layer ifs ops V k = (relaxed_step ifs ops ^^ k) V"

lemma layer_simps [simp]:
  "layer ifs ops V 0 = V"
  "layer ifs ops V (Suc k) = relaxed_step ifs ops (layer ifs ops V k)"
  by (simp_all add: layer_def)

lemma picks_mono: "picks V fs asg \<Longrightarrow> (\<And>f. f \<in> set fs \<Longrightarrow> V f \<subseteq> W f) \<Longrightarrow> picks W fs asg"
  unfolding picks_def by blast

lemma can_hold_mono: "can_hold ifs V e \<Longrightarrow> (\<And>f. f \<in> set (get_fluents e) \<Longrightarrow> V f \<subseteq> W f) \<Longrightarrow> can_hold ifs W e"
  unfolding can_hold_def using picks_mono by blast

lemma effect_values_mono:
  "(\<And>f. f \<in> set (value_fluents ev) \<Longrightarrow> V f \<subseteq> W f) \<Longrightarrow> effect_values ifs V ev \<subseteq> effect_values ifs W ev"
  by (cases ev) (auto intro: picks_mono)

lemma applicable_mono: "applicable ifs V op \<Longrightarrow> (\<And>f. V f \<subseteq> W f) \<Longrightarrow> applicable ifs W op"
  unfolding applicable_def using can_hold_mono by blast

lemma relaxed_step_grows: "V f \<subseteq> relaxed_step ifs ops V f"
  by (auto simp: relaxed_step_def)

lemma layer_grows: "k \<le> m \<Longrightarrow> layer ifs ops V k f \<subseteq> layer ifs ops V m f"
  by (induction m rule: nat_induct_at_least) (use relaxed_step_grows in \<open>fastforce+\<close>)


section \<open>Value lists as a map\<close>

definition value_sets :: "const list list \<Rightarrow> value_map" where
  "value_sets A f = (if fl_idx f < length A then set (A ! fl_idx f) else {})"

definition typed_lists :: "(fluent \<Rightarrow> ty) \<Rightarrow> const list list \<Rightarrow> bool" where
  "typed_lists G A \<longleftrightarrow> (\<forall>f. \<forall>v \<in> value_sets A f. const_ty v = Some (G f))"

definition grows :: "const list list \<Rightarrow> const list list \<Rightarrow> bool" where
  "grows A B \<longleftrightarrow> length B = length A \<and> (\<forall>i < length A. \<exists>zs. B ! i = A ! i @ zs)"

lemma grows_refl [simp]: "grows A A"
  by (simp add: grows_def)

lemma grows_trans: "grows A B \<Longrightarrow> grows B C \<Longrightarrow> grows A C"
  unfolding grows_def by (metis append_assoc)

lemma grows_sets: "grows A B \<Longrightarrow> value_sets A f \<subseteq> value_sets B f"
  by (cases f) (auto simp: grows_def value_sets_def)

lemma draws_picks:
  assumes "\<forall>f \<in> set fs. fl_idx f < length A"
  shows "draws fs (vals_of A fs) asg \<longleftrightarrow> picks (value_sets A) fs asg"
  using assms by (simp add: draws_def vals_of_def list_all2_map2 list_all2_same picks_def value_sets_def)

lemma covered_full:
  assumes "grows B A" "\<forall>f \<in> set fs. fl_idx f < length B"
  shows "covered fs (full_sizes fs B) A asg \<longleftrightarrow> picks (value_sets B) fs asg"
proof (cases "fs = []")
  case False
  have "prefixes (map length (vals_of B fs)) (vals_of A fs) = vals_of B fs"
  proof (rule nth_equalityI)
    fix i assume "i < length (prefixes (map length (vals_of B fs)) (vals_of A fs))"
    then have i: "i < length fs" by (simp add: prefixes_def)
    with assms have "\<exists>zs. A ! fl_idx (fs ! i) = B ! fl_idx (fs ! i) @ zs" by (auto simp: grows_def)
    with i show "prefixes (map length (vals_of B fs)) (vals_of A fs) ! i = vals_of B fs ! i"
      by (auto simp: vals_of_def)
  qed (simp add: prefixes_def)
  with False show ?thesis using draws_picks [OF assms(2)] by (simp add: covered_def full_sizes_def)
qed (simp add: covered_def full_sizes_def picks_def)

lemma set_dedup_nodes: "set (dedup_nodes out ns) = set out \<union> set (get_fluents ns)"
  by (induction out ns rule: dedup_nodes.induct) auto

lemma distinct_dedup_nodes: "distinct out \<Longrightarrow> distinct (dedup_nodes out ns)"
  by (induction out ns rule: dedup_nodes.induct) auto

abbreviation key_fluents :: "expression \<Rightarrow> fluent list" where
  "key_fluents e \<equiv> dedup_nodes [] e"

lemma picks_key [simp]: "picks V (key_fluents e) asg = picks V (get_fluents e) asg"
  by (simp add: picks_def set_dedup_nodes)

definition in_bounds :: "nat \<Rightarrow> expression \<Rightarrow> bool" where
  "in_bounds n e \<longleftrightarrow> (\<forall>f \<in> set (get_fluents e). fl_idx f < n)"

lemma scratch_key: "in_bounds (length sc) e \<Longrightarrow> scratch_ok e (key_fluents e) sc"
  by (simp add: scratch_ok_def in_bounds_def set_dedup_nodes distinct_dedup_nodes)


section \<open>Testing conditions\<close>

text \<open>On keys that are equal as expressions only when they are the same, the searched lists are maps.\<close>

definition keys_apart :: "expression set \<Rightarrow> bool" where
  "keys_apart K \<longleftrightarrow> (\<forall>e \<in> K. \<forall>f \<in> K. exp_eq e f \<longrightarrow> e = f)"

lemma exp_eq_refl [simp]: "exp_eq e e"
proof -
  have "node_eq n n" for n by (cases n) auto
  then show ?thesis by (simp add: exp_eq_def list_all2_same)
qed

lemma exp_get_apart:
  assumes "keys_apart K" "fst ` set d \<subseteq> K" "e \<in> K"
  shows "exp_get d e = map_of d e \<and> exp_set e v d = AList.update e v d"
  using assms by (induction d) (auto simp: keys_apart_def)

definition key_inv :: "ifenv \<Rightarrow> nat \<Rightarrow> expression set \<Rightarrow> hmax_state \<Rightarrow> bool" where
  "key_inv ifs n K h \<longleftrightarrow> length (hs_values h) = n \<and> length (hs_scratch h) = n \<and>
     fst ` set (hs_can h) \<subseteq> K \<and> fst ` set (hs_sizes h) \<subseteq> K \<and>
     (\<forall>e. map_of (hs_can h) e = Some True \<longrightarrow> can_hold ifs (value_sets (hs_values h)) e) \<and>
     (\<forall>e s. map_of (hs_sizes h) e = Some s \<longrightarrow> (\<exists>B. grows B (hs_values h) \<and> s = full_sizes (key_fluents e) B \<and>
        \<not> can_hold ifs (value_sets B) e))"

definition keys_ok :: "nat \<Rightarrow> expression set \<Rightarrow> hmax \<Rightarrow> bool" where
  "keys_ok n K H \<longleftrightarrow> keys_apart K \<and>
     (\<forall>e \<in> K. in_bounds n e \<and> exp_get (hm_expr_fluents H) e = Some (key_fluents e))"

text \<open>A test changes only what it remembers of keys and the scratch assignment.\<close>

definition only_keys :: "hmax_state \<Rightarrow> hmax_state \<Rightarrow> bool" where
  "only_keys h h' \<longleftrightarrow> hs_values h' = hs_values h \<and> hs_effect_sizes h' = hs_effect_sizes h \<and>
     hs_applied h' = hs_applied h \<and> hs_changes h' = hs_changes h \<and> hs_depth h' = hs_depth h"

lemma exp_can_be_true_exact:
  assumes keys: "keys_ok n K H" and e: "e \<in> K" and inv: "key_inv ifs n K h"
    and run: "exp_can_be_true ifs H e h = Inr (b, h')"
  shows "b = can_hold ifs (value_sets (hs_values h)) e \<and> key_inv ifs n K h' \<and>
    only_keys h h'"
proof -
  let ?A = "hs_values h" let ?V = "value_sets ?A" let ?fs = "key_fluents e"
  have K: "keys_apart K" and bounds: "in_bounds n e" and fs: "exp_get (hm_expr_fluents H) e = Some ?fs"
    using keys e by (auto simp: keys_ok_def)
  have len: "length ?A = n" "length (hs_scratch h) = n" and sub: "fst ` set (hs_can h) \<subseteq> K" "fst ` set (hs_sizes h) \<subseteq> K"
    and can: "\<And>e. map_of (hs_can h) e = Some True \<Longrightarrow> can_hold ifs ?V e"
    and sizes: "\<And>e s. map_of (hs_sizes h) e = Some s \<Longrightarrow>
      \<exists>B. grows B ?A \<and> s = full_sizes (key_fluents e) B \<and> \<not> can_hold ifs (value_sets B) e"
    using inv by (auto simp: key_inv_def)
  note maps = exp_get_apart [OF K sub(1) e] exp_get_apart [OF K sub(2) e]
  have bound: "\<forall>f \<in> set ?fs. fl_idx f < length ?A" using bounds len by (simp add: in_bounds_def set_dedup_nodes)
  have scratch: "scratch_ok e ?fs (hs_scratch h)" using scratch_key bounds len by simp
  show ?thesis
  proof (cases "map_of (hs_can h) e = Some True")
    case True
    with run maps can inv show ?thesis by (auto simp: exp_can_be_true_def only_keys_def)
  next
    case False
    let ?old = "case map_of (hs_sizes h) e of None \<Rightarrow> [] | Some s \<Rightarrow> s"
    from run False maps fs obtain s sc seen where
      call: "for_each_new_value ifs (EExp e) ?fs ?A ?old see_true (hs_scratch h, False) = Inr (s, sc, seen)"
      and b: "b = seen" and h': "h' = (if seen then h\<lparr>hs_scratch := sc, hs_can := exp_set e True (hs_can h)\<rparr>
        else h\<lparr>hs_scratch := sc, hs_sizes := exp_set e s (hs_sizes h)\<rparr>)"
      by (auto simp: exp_can_be_true_def rbind_eq_Inr)
    note result = see_true_call [OF call scratch bound]
    show ?thesis
    proof (cases seen)
      case True
      with result have "can_hold ifs ?V e" "length sc = n"
        using draws_picks [OF bound] len by (auto simp: can_hold_def)
      moreover have "key_inv ifs n K h'"
        using True h' maps inv e calculation by (auto simp: key_inv_def update_conv' dom_update)
      ultimately show ?thesis using b True h' by (auto simp: only_keys_def)
    next
      case False
      with result have s: "s = full_sizes ?fs ?A" "length sc = n"
        and no: "\<And>asg. draws ?fs (vals_of ?A ?fs) asg \<Longrightarrow> covered ?fs ?old ?A asg \<or> evaluate ifs e asg \<noteq> Inr (CBool True)"
        using len by auto
      have old: "evaluate ifs e asg \<noteq> Inr (CBool True)" if "covered ?fs ?old ?A asg" for asg
      proof (cases "map_of (hs_sizes h) e")
        case None
        with that show ?thesis by (auto simp: covered_def split: if_splits)
      next
        case (Some s')
        from sizes [OF this] obtain B where B: "grows B ?A" "s' = full_sizes ?fs B" "\<not> can_hold ifs (value_sets B) e" by blast
        have "\<forall>f \<in> set ?fs. fl_idx f < length B" using bound B(1) by (simp add: grows_def)
        from covered_full [OF B(1) this, of asg] that Some B(2,3) show ?thesis by (auto simp: can_hold_def)
      qed
      have "\<not> can_hold ifs ?V e"
        using no old draws_picks [OF bound] by (auto simp: can_hold_def)
      moreover have "key_inv ifs n K h'"
        using False h' maps inv e s calculation
        by (auto simp: key_inv_def update_conv' dom_update intro!: exI [of _ ?A])
      ultimately show ?thesis using b False h' by (auto simp: only_keys_def)
    qed
  qed
qed

lemma can_be_true_exact:
  assumes "keys_ok n K H" "set es \<subseteq> K" "key_inv ifs n K h" "can_be_true ifs H es h = Inr (b, h')"
  shows "b = (\<forall>e \<in> set es. can_hold ifs (value_sets (hs_values h)) e) \<and> key_inv ifs n K h' \<and> only_keys h h'"
  using assms(2-4)
proof (induction es arbitrary: h)
  case Nil
  then show ?case by (simp add: only_keys_def)
next
  case (Cons e es)
  from Cons.prems(3) obtain b1 h1 where e: "exp_can_be_true ifs H e h = Inr (b1, h1)"
    and rest: "(if b1 then can_be_true ifs H es h1 else Inr (False, h1)) = Inr (b, h')" by (auto simp: rbind_eq_Inr)
  from exp_can_be_true_exact [OF assms(1) _ Cons.prems(2) e] Cons.prems(1) have
    1: "b1 = can_hold ifs (value_sets (hs_values h)) e" "key_inv ifs n K h1" "only_keys h h1" by auto
  show ?case
  proof (cases b1)
    case True
    with rest Cons.IH [OF _ 1(2)] Cons.prems(1) have
      "b = (\<forall>e \<in> set es. can_hold ifs (value_sets (hs_values h1)) e)" "key_inv ifs n K h'" "only_keys h1 h'" by auto
    with 1 True show ?thesis by (auto simp: only_keys_def)
  next
    case False
    with rest 1 show ?thesis by auto
  qed
qed


section \<open>Collecting the effects of one operator\<close>

definition value_typed :: "ifenv \<Rightarrow> (fluent \<Rightarrow> ty) \<Rightarrow> fluent \<Rightarrow> effect_value \<Rightarrow> bool" where
  "value_typed ifs G f ev \<longleftrightarrow> (\<forall>V. (\<forall>g. \<forall>v \<in> V g. const_ty v = Some (G g)) \<longrightarrow>
     (\<forall>v \<in> effect_values ifs V ev. const_ty v = Some (G f)))"

definition effect_ok :: "ifenv \<Rightarrow> (fluent \<Rightarrow> ty) \<Rightarrow> nat \<Rightarrow> fluent \<times> effect_value \<Rightarrow> bool" where
  "effect_ok ifs G n p \<longleftrightarrow> fl_idx (fst p) < n \<and> value_typed ifs G (fst p) (snd p) \<and>
     (\<forall>f \<in> set (value_fluents (snd p)). fl_idx f < n)"

lemma set_dedup_fluents: "set (dedup_fluents ev) = set (value_fluents ev)"
  by (cases ev) (auto simp: set_dedup_nodes)

lemma effect_call:
  assumes run: "for_each_new_value ifs ev (dedup_fluents ev) A old collect (sc, acc) = Inr (sizes, sc', acc')"
    and ok: "effect_ok ifs G (length A) (f, ev)" and len: "length sc = length A"
    and typed: "typed_lists G A" "\<forall>v \<in> set acc. const_ty v = Some (G f)"
    and old: "old = [] \<or> (\<exists>B. grows B A \<and> old = full_sizes (dedup_fluents ev) B \<and> effect_values ifs (value_sets B) ev \<subseteq> X)"
  shows "length sc' = length A \<and> sizes = full_sizes (dedup_fluents ev) A \<and> (\<forall>v \<in> set acc'. const_ty v = Some (G f)) \<and>
    set acc \<subseteq> set acc' \<and> set acc' \<subseteq> set acc \<union> effect_values ifs (value_sets A) ev \<and>
    effect_values ifs (value_sets A) ev \<subseteq> X \<union> set acc'"
proof -
  have ty: "\<forall>v \<in> effect_values ifs (value_sets A) ev. const_ty v = Some (G f)"
    using ok typed(1) by (auto simp: effect_ok_def value_typed_def typed_lists_def)
  show ?thesis
  proof (cases ev)
    case (EConst c)
    with run ty old value_add_typed [OF typed(2), of c] typed(2) len show ?thesis
      by (auto simp: full_sizes_def collect_def split: if_splits)
  next
    case (EExp e)
    let ?fs = "key_fluents e"
    have fs: "dedup_fluents ev = ?fs" using EExp by simp
    have bounds: "in_bounds (length A) e" using ok EExp by (simp add: effect_ok_def in_bounds_def)
    then have bound: "\<forall>f \<in> set ?fs. fl_idx f < length A" by (simp add: in_bounds_def set_dedup_nodes)
    note draws = draws_picks [OF bound]
    have drawn_ty: "const_ty v = Some (G f)" if "draws ?fs (vals_of A ?fs) asg" "evaluate ifs e asg = Inr v" for asg v
      using ty that draws EExp by auto
    have scratch: "scratch_ok e ?fs sc" using scratch_key bounds len by simp
    have call: "length sc' = length sc \<and> sizes = full_sizes ?fs A \<and> (\<forall>v \<in> set acc'. const_ty v = Some (G f)) \<and>
        set acc \<subseteq> set acc' \<and>
        (\<forall>asg. draws ?fs (vals_of A ?fs) asg \<longrightarrow> covered ?fs old A asg \<or> (\<exists>v \<in> set acc'. evaluate ifs e asg = Inr v)) \<and>
        (\<forall>v \<in> set acc' - set acc. \<exists>asg. draws ?fs (vals_of A ?fs) asg \<and> evaluate ifs e asg = Inr v)"
      by (rule collect_call [OF run [unfolded EExp fs [unfolded EExp]] scratch bound _ typed(2)]) (rule drawn_ty)
    then have res: "length sc' = length sc" "sizes = full_sizes ?fs A" "\<forall>v \<in> set acc'. const_ty v = Some (G f)"
        "set acc \<subseteq> set acc'"
      and all: "\<And>asg. draws ?fs (vals_of A ?fs) asg \<Longrightarrow> covered ?fs old A asg \<or> (\<exists>v \<in> set acc'. evaluate ifs e asg = Inr v)"
      and only: "\<And>v. v \<in> set acc' - set acc \<Longrightarrow> \<exists>asg. draws ?fs (vals_of A ?fs) asg \<and> evaluate ifs e asg = Inr v"
      by auto
    have "v \<in> X \<union> set acc'" if "picks (value_sets A) ?fs asg" "evaluate ifs e asg = Inr v" for asg v
    proof (cases "covered ?fs old A asg")
      case True
      from old show ?thesis
      proof (elim disjE exE conjE)
        assume "old = []"
        with True show ?thesis by (auto simp: covered_def split: if_splits)
      next
        fix B assume B: "grows B A" "old = full_sizes (dedup_fluents ev) B" "effect_values ifs (value_sets B) ev \<subseteq> X"
        have "\<forall>f \<in> set ?fs. fl_idx f < length B" using bound B(1) by (simp add: grows_def)
        from covered_full [OF B(1) this] True B(2) fs have "picks (value_sets B) ?fs asg" by simp
        with that(2) B(3) EExp show ?thesis by auto
      qed
    next
      case False
      with all that draws show ?thesis by force
    qed
    moreover have "set acc' \<subseteq> set acc \<union> effect_values ifs (value_sets A) ev"
      using only draws EExp by fastforce
    ultimately show ?thesis using res len EExp fs by auto
  qed
qed

end
