(* ===== verification/HMax_Layers.thy ===== *)
theory HMax_Layers
  imports HMax_Rounds
begin

text \<open>
  A round of \<open>HMaxExplicit\<close> computes the next layer of the relaxation, and the value it returns
  is the number of the first layer in which the goals can hold.
\<close>

section \<open>The effects of an applied operator\<close>

definition new_set :: "(fluent, const list) dict \<Rightarrow> value_map" where
  "new_set new f = (case dict_get new f of None \<Rightarrow> {} | Some vs \<Rightarrow> set vs)"

lemma new_set_update: "new_set (dict_set f vs new) g = (if g = f then set vs else new_set new g)"
  by (simp add: new_set_def update_conv')

definition new_ok :: "(fluent \<Rightarrow> ty) \<Rightarrow> nat \<Rightarrow> (fluent, const list) dict \<Rightarrow> bool" where
  "new_ok G n new \<longleftrightarrow> dict_wf new \<and> (\<forall>f. \<forall>v \<in> new_set new f. const_ty v = Some (G f)) \<and>
     (\<forall>f vs. dict_get new f = Some vs \<longrightarrow> fl_idx f < n)"

lemma rfold_indexed:
  assumes "rfold f (indexed xs) s = Inr t" "I 0 s"
    and step: "\<And>i s s'. i < length xs \<Longrightarrow> I i s \<Longrightarrow> f (i, xs ! i) s = Inr s' \<Longrightarrow> I (Suc i) s'"
  shows "I (length xs) t"
proof -
  have "I (k + length ys) t" if "rfold f (zip [k..<k + length ys] ys) s = Inr t" "I k s"
    "\<And>i s s'. i < length ys \<Longrightarrow> I (k + i) s \<Longrightarrow> f (k + i, ys ! i) s = Inr s' \<Longrightarrow> I (Suc (k + i)) s'" for k ys s
    using that
  proof (induction ys arbitrary: k s)
    case (Cons y ys)
    from Cons.prems(1) obtain s' where s': "f (k, y) s = Inr s'" "rfold f (zip [Suc k..<Suc k + length ys] ys) s' = Inr t"
      by (auto simp: rbind_eq_Inr upt_conv_Cons simp del: upt_Suc)
    from Cons.prems(3) [of 0 s s'] Cons.prems(2) s'(1) have "I (Suc k) s'" by simp
    from Cons.IH [OF s'(2) this] Cons.prems(3) [of "Suc _"] show ?case by simp
  qed simp
  from this [of 0 xs s] assms show ?thesis by (simp add: indexed_def)
qed

text \<open>What an operator's entries say: their sizes cover the values \<open>B\<close>, whose results are in \<open>W\<close>.\<close>

definition entries_cover ::
    "ifenv \<Rightarrow> hmax_state \<Rightarrow> nat \<Rightarrow> hmax_op \<Rightarrow> const list list \<Rightarrow> value_map \<Rightarrow> nat \<Rightarrow> bool" where
  "entries_cover ifs h i op B W j \<longleftrightarrow> (case ho_effects op ! j of (f, ev) \<Rightarrow>
     dict_get (hs_effect_sizes h) (i, j) = Some (full_sizes (dedup_fluents ev) B) \<and>
     effect_values ifs (value_sets B) ev \<subseteq> W f)"

definition op_values :: "ifenv \<Rightarrow> hmax_op \<Rightarrow> value_map \<Rightarrow> value_map" where
  "op_values ifs op V f = {v. \<exists>ev. (f, ev) \<in> set (ho_effects op) \<and> v \<in> effect_values ifs V ev}"

definition op_ok :: "ifenv \<Rightarrow> (fluent \<Rightarrow> ty) \<Rightarrow> nat \<Rightarrow> hmax_op \<Rightarrow> bool" where
  "op_ok ifs G n op \<longleftrightarrow> ho_effect_fluents op = map (\<lambda>(_, ev). dedup_fluents ev) (ho_effects op) \<and>
     (\<forall>p \<in> set (ho_effects op). effect_ok ifs G n p) \<and>
     (\<forall>c \<in> set (ho_conditions op). in_bounds n c) \<and> (\<exists>c \<in> set (ho_conditions op). get_fluents c \<noteq> [])"

definition same_but_effects :: "hmax_state \<Rightarrow> hmax_state \<Rightarrow> bool" where
  "same_but_effects h h' \<longleftrightarrow> hs_values h' = hs_values h \<and> hs_can h' = hs_can h \<and> hs_sizes h' = hs_sizes h \<and>
     hs_applied h' = hs_applied h \<and> hs_changes h' = hs_changes h \<and> hs_depth h' = hs_depth h \<and>
     length (hs_scratch h') = length (hs_scratch h)"

lemma same_but_effects_trans:
  "same_but_effects h h' \<Longrightarrow> same_but_effects h' h'' \<Longrightarrow> same_but_effects h h''"
  by (simp add: same_but_effects_def)

lemma effects_done:
  assumes A_def: "A = hs_values h" and V_def: "V = value_sets (hs_values h)"
    and run: "rfold (apply_hmax_effect ifs i) (indexed (zip (ho_effects op) (ho_effect_fluents op))) (h, new) = Inr (h', new')"
    and op: "op_ok ifs G n op" and len: "length (hs_values h) = n" "length (hs_scratch h) = n"
    and typed: "typed_lists G (hs_values h)" and new: "new_ok G n new"
    and old: "\<forall>j < length (ho_effects op). dict_get (hs_effect_sizes h) (i, j) = None \<or>
      (\<exists>B. grows B (hs_values h) \<and> entries_cover ifs h i op B (value_sets (hs_values h)) j)"
  shows "same_but_effects h h' \<and> new_ok G n new' \<and>
    (\<forall>i' j. i' \<noteq> i \<longrightarrow> dict_get (hs_effect_sizes h') (i', j) = dict_get (hs_effect_sizes h) (i', j)) \<and>
    (\<forall>j < length (ho_effects op). entries_cover ifs h' i op A (\<lambda>f. V f \<union> new_set new' f) j) \<and>
    (\<forall>f. new_set new f \<subseteq> new_set new' f \<and> new_set new' f \<subseteq> new_set new f \<union> op_values ifs op V f)"
proof -
  let ?xs = "zip (ho_effects op) (ho_effect_fluents op)"
  define I where "I m s \<longleftrightarrow> (case s of (h1, new1) \<Rightarrow> same_but_effects h h1 \<and> new_ok G n new1 \<and>
    (\<forall>i' j. i' \<noteq> i \<or> m \<le> j \<longrightarrow> dict_get (hs_effect_sizes h1) (i', j) = dict_get (hs_effect_sizes h) (i', j)) \<and>
    (\<forall>j < m. entries_cover ifs h1 i op A (\<lambda>f. V f \<union> new_set new1 f) j) \<and>
    (\<forall>f. new_set new f \<subseteq> new_set new1 f \<and> new_set new1 f \<subseteq> new_set new f \<union> op_values ifs op V f))" for m s
  have fs: "ho_effect_fluents op = map (\<lambda>(_, ev). dedup_fluents ev) (ho_effects op)"
    and eff: "\<forall>p \<in> set (ho_effects op). effect_ok ifs G n p" using op by (auto simp: op_ok_def)
  have lenx: "length ?xs = length (ho_effects op)" using fs by simp
  have "I (length ?xs) (h', new')"
  proof (rule rfold_indexed [OF run])
    show "I 0 (h, new)" using new by (simp add: I_def same_but_effects_def)
  next
    fix j s s' assume j: "j < length ?xs" and inv: "I j s" and step: "apply_hmax_effect ifs i (j, ?xs ! j) s = Inr s'"
    obtain h1 new1 where s: "s = (h1, new1)" by (cases s)
    from j lenx have j': "j < length (ho_effects op)" by simp
    obtain f ev where p: "ho_effects op ! j = (f, ev)" by (cases "ho_effects op ! j")
    with j' fs have xs: "?xs ! j = ((f, ev), dedup_fluents ev)" by simp
    from j' p have mem: "(f, ev) \<in> set (ho_effects op)" by (metis nth_mem)
    from inv s have same: "same_but_effects h h1" and new1: "new_ok G n new1"
      and others: "\<And>i' j'. i' \<noteq> i \<or> j \<le> j' \<Longrightarrow> dict_get (hs_effect_sizes h1) (i', j') = dict_get (hs_effect_sizes h) (i', j')"
      and covers: "\<forall>j' < j. entries_cover ifs h1 i op A (\<lambda>f. V f \<union> new_set new1 f) j'"
      and sets: "\<And>f. new_set new f \<subseteq> new_set new1 f \<and> new_set new1 f \<subseteq> new_set new f \<union> op_values ifs op V f"
      by (auto simp: I_def)
    let ?acc = "case dict_get new1 f of None \<Rightarrow> [] | Some vs \<Rightarrow> vs"
    let ?old = "case dict_get (hs_effect_sizes h1) (i, j) of None \<Rightarrow> [] | Some s \<Rightarrow> s"
    from step [unfolded s xs] obtain sizes sc acc where
      call: "for_each_new_value ifs ev (dedup_fluents ev) (hs_values h1) ?old collect (hs_scratch h1, ?acc) = Inr (sizes, sc, acc)"
      and s': "s' = (h1\<lparr>hs_scratch := sc, hs_effect_sizes := dict_set (i, j) sizes (hs_effect_sizes h1)\<rparr>, dict_set f acc new1)"
      by (auto simp: apply_hmax_effect_def Let_def rbind_eq_Inr)
    have acc: "set ?acc = new_set new1 f" by (simp add: new_set_def split: option.split)
    have same_values: "hs_values h1 = A" "length A = n" "length (hs_scratch h1) = length A"
      using same len by (simp_all add: same_but_effects_def A_def)
    have "length sc = length A \<and> sizes = full_sizes (dedup_fluents ev) A \<and> (\<forall>v \<in> set acc. const_ty v = Some (G f)) \<and>
      set ?acc \<subseteq> set acc \<and> set acc \<subseteq> set ?acc \<union> effect_values ifs (value_sets A) ev \<and>
      effect_values ifs (value_sets A) ev \<subseteq> V f \<union> set acc"
    proof (rule effect_call [OF call [unfolded same_values(1)]])
      show "effect_ok ifs G (length A) (f, ev)" using eff mem same_values(2) by blast
      show "typed_lists G A" using typed by (simp add: A_def)
      show "\<forall>v \<in> set ?acc. const_ty v = Some (G f)" using new1 unfolding acc by (simp add: new_ok_def)
      show "?old = [] \<or> (\<exists>B. grows B A \<and> ?old = full_sizes (dedup_fluents ev) B \<and> effect_values ifs (value_sets B) ev \<subseteq> V f)"
        using old j' others [of i j] p by (auto simp: entries_cover_def A_def V_def)
    qed (use same_values in simp)
    then have acc': "length sc = length A" "sizes = full_sizes (dedup_fluents ev) A" "\<forall>v \<in> set acc. const_ty v = Some (G f)"
      "new_set new1 f \<subseteq> set acc" "set acc \<subseteq> new_set new1 f \<union> effect_values ifs V ev" "effect_values ifs V ev \<subseteq> V f \<union> set acc"
      unfolding acc by (simp_all add: A_def V_def)
    have "new_ok G n (dict_set f acc new1)"
      using new1 acc'(3) eff mem by (auto simp: new_ok_def new_set_update update_conv' effect_ok_def)
    moreover have "entries_cover ifs (fst s') i op A (\<lambda>f. V f \<union> new_set (snd s') f) j'" if "j' < Suc j" for j'
    proof (cases "j' = j")
      case True
      with p acc'(2,6) s' show ?thesis by (simp add: entries_cover_def update_conv' new_set_update V_def A_def)
    next
      case False
      with that covers have "entries_cover ifs h1 i op A (\<lambda>f. V f \<union> new_set new1 f) j'" by simp
      moreover have "V g \<union> new_set new1 g \<subseteq> V g \<union> new_set (snd s') g" for g
        using acc'(4) s' by (auto simp: new_set_update)
      ultimately show ?thesis using False s' by (auto simp: entries_cover_def update_conv' split: prod.splits)
    qed
    moreover have "new_set new g \<subseteq> new_set (snd s') g \<and> new_set (snd s') g \<subseteq> new_set new g \<union> op_values ifs op V g" for g
      using sets [of g] acc'(4,5) mem s' by (auto simp: new_set_update op_values_def)
    ultimately show "I (Suc j) s'"
      using s' same others same_values acc'(1) by (auto simp: I_def same_but_effects_def update_conv' A_def)
  qed
  then show ?thesis unfolding lenx by (auto simp: I_def)
qed


section \<open>The pass over the operators\<close>

definition op_state ::
    "ifenv \<Rightarrow> hmax_op list \<Rightarrow> const list list \<Rightarrow> value_map \<Rightarrow> value_map \<Rightarrow> hmax_state \<Rightarrow> nat \<Rightarrow> bool" where
  "op_state ifs ops B V W h i \<longleftrightarrow>
     (hs_applied h ! i \<longrightarrow> applicable ifs V (ops ! i) \<and>
        (\<forall>j < length (ho_effects (ops ! i)). entries_cover ifs h i (ops ! i) B W j)) \<and>
     (\<not> hs_applied h ! i \<longrightarrow> \<not> applicable ifs (value_sets B) (ops ! i) \<and>
        (\<forall>j. dict_get (hs_effect_sizes h) (i, j) = None))"

lemma entries_cover_mono:
  assumes "entries_cover ifs h i op B W j" "\<And>f. W f \<subseteq> W' f"
    and "dict_get (hs_effect_sizes h') (i, j) = dict_get (hs_effect_sizes h) (i, j)"
  shows "entries_cover ifs h' i op B W' j"
  using assms by (fastforce simp: entries_cover_def split: prod.splits)

lemma op_state_keep:
  assumes "op_state ifs ops B V W h i" "hs_applied h' ! i = hs_applied h ! i" "\<And>f. W f \<subseteq> W' f"
    and "\<And>j. dict_get (hs_effect_sizes h') (i, j) = dict_get (hs_effect_sizes h) (i, j)"
  shows "op_state ifs ops B V W' h' i"
  using assms(1,2,4) entries_cover_mono [OF _ assms(3,4)] by (auto simp: op_state_def)

definition unchanged :: "fluent set \<Rightarrow> const list list \<Rightarrow> const list list \<Rightarrow> bool" where
  "unchanged ch B A \<longleftrightarrow> length A = length B \<and> (\<forall>f. f \<notin> ch \<longrightarrow> fl_idx f < length A \<longrightarrow> A ! fl_idx f = B ! fl_idx f)"

lemma unchanged_sets: "unchanged ch B A \<Longrightarrow> f \<notin> ch \<Longrightarrow> value_sets A f = value_sets B f"
  by (auto simp: unchanged_def value_sets_def)

lemma unchanged_condition:
  assumes "unchanged ch B A" "\<forall>f \<in> set (get_fluents e). f \<notin> ch"
  shows "can_hold ifs (value_sets A) e = can_hold ifs (value_sets B) e"
  using can_hold_mono [of ifs "value_sets A" e "value_sets B"] can_hold_mono [of ifs "value_sets B" e "value_sets A"]
    unchanged_sets [OF assms(1)] assms(2) by blast

lemma unchanged_entries:
  assumes "unchanged ch B A" "entries_cover ifs h i op B W j" "j < length (ho_effects op)" "op_ok ifs G (length A) op"
    and "\<forall>p \<in> set (ho_effects op). \<forall>f \<in> set (value_fluents (snd p)). f \<notin> ch"
  shows "entries_cover ifs h i op A W j"
proof -
  obtain f ev where p: "ho_effects op ! j = (f, ev)" by (cases "ho_effects op ! j")
  with assms(3) have mem: "(f, ev) \<in> set (ho_effects op)" by (metis nth_mem)
  with assms(5) have out: "\<forall>f \<in> set (value_fluents ev). f \<notin> ch" by fastforce
  have bound: "\<forall>f \<in> set (value_fluents ev). fl_idx f < length A"
    using assms(4) mem by (force simp: op_ok_def effect_ok_def)
  have "vals_of A (dedup_fluents ev) = vals_of B (dedup_fluents ev)"
    using assms(1) out bound by (auto simp: vals_of_def unchanged_def set_dedup_fluents)
  then have "full_sizes (dedup_fluents ev) A = full_sizes (dedup_fluents ev) B" by (simp add: full_sizes_def)
  moreover have "effect_values ifs (value_sets A) ev \<subseteq> effect_values ifs (value_sets B) ev"
    by (rule effect_values_mono) (use unchanged_sets [OF assms(1)] out in blast)
  ultimately show ?thesis using assms(2) p by (auto simp: entries_cover_def)
qed

definition hmax_ok :: "ifenv \<Rightarrow> (fluent \<Rightarrow> ty) \<Rightarrow> expression set \<Rightarrow> hmax \<Rightarrow> bool" where
  "hmax_ok ifs G K H \<longleftrightarrow> 0 < hm_num_fluents H \<and> keys_ok (hm_num_fluents H) K H \<and> set (hm_goals H) \<subseteq> K \<and>
     hm_condition_fluents H = map (\<lambda>op. \<Union>c \<in> set (ho_conditions op). set (get_fluents c)) (hm_operators H) \<and>
     hm_effect_fluents H = map (\<lambda>op. \<Union>(_, v) \<in> set (ho_effects op). set (value_fluents v)) (hm_operators H) \<and>
     (\<forall>op \<in> set (hm_operators H). op_ok ifs G (hm_num_fluents H) op \<and> set (ho_conditions op) \<subseteq> K)"

definition round_inv :: "ifenv \<Rightarrow> (fluent \<Rightarrow> ty) \<Rightarrow> expression set \<Rightarrow> hmax \<Rightarrow> const list list \<Rightarrow> hmax_state \<Rightarrow> bool" where
  "round_inv ifs G K H B h \<longleftrightarrow> key_inv ifs (hm_num_fluents H) K h \<and> length (hs_applied h) = length (hm_operators H) \<and>
     typed_lists G (hs_values h) \<and> grows B (hs_values h) \<and> unchanged (hs_changes h) B (hs_values h) \<and>
     (\<forall>i < length (hm_operators H). op_state ifs (hm_operators H) B (value_sets (hs_values h)) (value_sets (hs_values h)) h i)"

text \<open>What one operator leaves, when \<open>h\<close> was the state before it.\<close>

lemma operator_applies_exact:
  assumes H: "hmax_ok ifs G K H" and i: "i < length (hm_operators H)" "op = hm_operators H ! i"
    and key: "key_inv ifs (hm_num_fluents H) K h" "length (hs_applied h) = length (hm_operators H)"
    and unch: "unchanged (hs_changes h) B (hs_values h)"
    and state: "op_state ifs (hm_operators H) B (value_sets (hs_values h)) (value_sets (hs_values h)) h i"
    and run: "operator_applies ifs H i op h = Inr (b, h')"
  shows "key_inv ifs (hm_num_fluents H) K h' \<and> hs_values h' = hs_values h \<and> hs_effect_sizes h' = hs_effect_sizes h \<and>
    hs_changes h' = hs_changes h \<and> hs_depth h' = hs_depth h \<and>
    length (hs_applied h') = length (hm_operators H) \<and> (\<forall>j. j \<noteq> i \<longrightarrow> hs_applied h' ! j = hs_applied h ! j) \<and>
    (if b then hs_applied h' ! i \<and> applicable ifs (value_sets (hs_values h)) op
     else op_state ifs (hm_operators H) (hs_values h) (value_sets (hs_values h)) (value_sets (hs_values h)) h' i)"
proof -
  let ?A = "hs_values h"
  have mem: "op \<in> set (hm_operators H)" using i by simp
  have n: "length ?A = hm_num_fluents H" using key(1) by (simp add: key_inv_def)
  have op: "op_ok ifs G (length ?A) op" "set (ho_conditions op) \<subseteq> K"
    and keys: "keys_ok (hm_num_fluents H) K H"
    and eff: "hm_effect_fluents H ! i = (\<Union>(_, v) \<in> set (ho_effects op). set (value_fluents v))"
    and cond: "hm_condition_fluents H ! i = (\<Union>c \<in> set (ho_conditions op). set (get_fluents c))"
    using H mem i n by (auto simp: hmax_ok_def)
  show ?thesis
  proof (cases "hs_applied h ! i")
    case True
    with run have h': "h' = h" "b = (hs_changes h \<inter> hm_effect_fluents H ! i \<noteq> {})"
      by (auto simp: operator_applies_def)
    have "op_state ifs (hm_operators H) ?A (value_sets ?A) (value_sets ?A) h i" if "\<not> b"
    proof -
      have out: "\<forall>p \<in> set (ho_effects op). \<forall>f \<in> set (value_fluents (snd p)). f \<notin> hs_changes h"
        using that h'(2) eff by force
      show ?thesis
        using True state unchanged_entries [OF unch _ _ op(1) out] i by (auto simp: op_state_def)
    qed
    moreover have "applicable ifs (value_sets ?A) op" using True state i(2) by (simp add: op_state_def)
    ultimately show ?thesis using True key h'(1) by (simp split: if_split)
  next
    case False
    note not = this
    show ?thesis
    proof (cases "hs_changes h \<inter> hm_condition_fluents H ! i = {}")
      case True
      with run not have h': "h' = h" "\<not> b" by (auto simp: operator_applies_def)
      have "can_hold ifs (value_sets ?A) c = can_hold ifs (value_sets B) c" if "c \<in> set (ho_conditions op)" for c
        by (rule unchanged_condition [OF unch]) (use True cond that in blast)
      then have "applicable ifs (value_sets ?A) op = applicable ifs (value_sets B) op" by (simp add: applicable_def)
      then have "op_state ifs (hm_operators H) ?A (value_sets ?A) (value_sets ?A) h i"
        using not state i(2) by (simp add: op_state_def)
      with key h' show ?thesis by simp
    next
      case False
      with run not obtain h1 where test: "can_be_true ifs H (ho_conditions op) h = Inr (b, h1)"
        and h': "h' = (if b then h1\<lparr>hs_applied := (hs_applied h1)[i := True]\<rparr> else h1)"
        by (auto simp: operator_applies_def rbind_eq_Inr)
      from can_be_true_exact [OF keys op(2) key(1) test] have
        "b = applicable ifs (value_sets ?A) op" "key_inv ifs (hm_num_fluents H) K h1" "only_keys h h1"
        by (auto simp: applicable_def)
      note h1 = this
      have "op_state ifs (hm_operators H) ?A (value_sets ?A) (value_sets ?A) h' i" if "\<not> b"
        using that not state h' h1 i(2) by (simp add: op_state_def only_keys_def)
      moreover have "key_inv ifs (hm_num_fluents H) K h'" using h' h1(2) by (simp add: key_inv_def)
      ultimately show ?thesis using h' h1(1,3) key(2) i(1) by (simp add: only_keys_def)
    qed
  qed
qed

definition pass_inv ::
    "ifenv \<Rightarrow> (fluent \<Rightarrow> ty) \<Rightarrow> expression set \<Rightarrow> hmax \<Rightarrow> const list list \<Rightarrow> hmax_state \<Rightarrow> nat \<Rightarrow>
     hmax_state \<times> (fluent, const list) dict \<Rightarrow> bool" where
  "pass_inv ifs G K H B h0 m s \<longleftrightarrow> (case s of (h, new) \<Rightarrow>
     let A = hs_values h0; V = value_sets A; ops = hm_operators H in
     key_inv ifs (hm_num_fluents H) K h \<and> hs_values h = A \<and> hs_changes h = hs_changes h0 \<and> hs_depth h = hs_depth h0 \<and>
     length (hs_applied h) = length ops \<and> new_ok G (hm_num_fluents H) new \<and>
     (\<forall>f. new_set new f \<subseteq> relaxed_step ifs ops V f) \<and>
     (\<forall>i < length ops. if i < m then op_state ifs ops A V (\<lambda>f. V f \<union> new_set new f) h i
        else op_state ifs ops B V V h i))"

lemma op_values_step: "op \<in> set ops \<Longrightarrow> applicable ifs V op \<Longrightarrow> op_values ifs op V f \<subseteq> relaxed_step ifs ops V f"
  by (auto simp: op_values_def relaxed_step_def)

lemma op_state_entries:
  assumes "op_state ifs ops B V W h i"
  shows "\<forall>j < length (ho_effects (ops ! i)). dict_get (hs_effect_sizes h) (i, j) = None \<or> entries_cover ifs h i (ops ! i) B W j"
  using assms by (cases "hs_applied h ! i") (auto simp: op_state_def)

lemma pass_step:
  assumes H: "hmax_ok ifs G K H" and inv: "round_inv ifs G K H B h0" and i: "i < length (hm_operators H)"
    and pass: "pass_inv ifs G K H B h0 i s" and run: "apply_operator ifs H (i, hm_operators H ! i) s = Inr s'"
  shows "pass_inv ifs G K H B h0 (Suc i) s'"
proof -
  let ?A = "hs_values h0" let ?V = "value_sets ?A" let ?ops = "hm_operators H" let ?op = "?ops ! i" let ?n = "hm_num_fluents H"
  obtain h new where s: "s = (h, new)" by (cases s)
  from pass s have key: "key_inv ifs ?n K h" and same: "hs_values h = ?A" "hs_changes h = hs_changes h0" "hs_depth h = hs_depth h0"
    and appl: "length (hs_applied h) = length ?ops" and new: "new_ok G ?n new"
    and step: "\<And>f. new_set new f \<subseteq> relaxed_step ifs ?ops ?V f"
    and before: "\<And>k. k < length ?ops \<Longrightarrow> k < i \<Longrightarrow> op_state ifs ?ops ?A ?V (\<lambda>f. ?V f \<union> new_set new f) h k"
    and after: "\<And>k. k < length ?ops \<Longrightarrow> \<not> k < i \<Longrightarrow> op_state ifs ?ops B ?V ?V h k"
    by (auto simp: pass_inv_def Let_def split: if_splits)
  from run s obtain b h1 where test: "operator_applies ifs H i ?op h = Inr (b, h1)"
    and rest: "(if b then rfold (apply_hmax_effect ifs i) (indexed (zip (ho_effects ?op) (ho_effect_fluents ?op))) (h1, new)
       else Inr (h1, new)) = Inr s'" by (auto simp: apply_operator_def rbind_eq_Inr)
  have "unchanged (hs_changes h) B (hs_values h)" using inv same by (simp add: round_inv_def)
  moreover have state: "op_state ifs ?ops B (value_sets (hs_values h)) (value_sets (hs_values h)) h i" using after [OF i] same by simp
  ultimately have h1: "key_inv ifs ?n K h1" "hs_values h1 = ?A" "hs_effect_sizes h1 = hs_effect_sizes h"
    "hs_changes h1 = hs_changes h0" "hs_depth h1 = hs_depth h0" "length (hs_applied h1) = length ?ops"
    "\<And>j. j \<noteq> i \<Longrightarrow> hs_applied h1 ! j = hs_applied h ! j"
    and outcome: "if b then hs_applied h1 ! i \<and> applicable ifs ?V ?op else op_state ifs ?ops ?A ?V ?V h1 i"
    using operator_applies_exact [OF H i refl key appl _ _ test] same by auto
  have others: "op_state ifs ?ops C ?V W' h' k"
    if "op_state ifs ?ops C ?V W h k" "k \<noteq> i" "hs_applied h' = hs_applied h1" "\<And>f. W f \<subseteq> W' f"
      "\<And>j. dict_get (hs_effect_sizes h') (k, j) = dict_get (hs_effect_sizes h) (k, j)" for C W W' h' k
    by (rule op_state_keep [OF that(1) _ that(4,5)]) (use that(2,3) h1(7) in simp)
  show ?thesis
  proof (cases b)
    case False
    with rest have s': "s' = (h1, new)" by simp
    have "op_state ifs ?ops ?A ?V (\<lambda>f. ?V f \<union> new_set new f) h1 i"
      by (rule op_state_keep [where W = ?V and h = h1]) (use outcome False in auto)
    moreover have "op_state ifs ?ops ?A ?V (\<lambda>f. ?V f \<union> new_set new f) h1 k" if "k < length ?ops" "k < i" for k
      by (rule others [OF before]) (use that h1(3) in simp_all)
    moreover have "op_state ifs ?ops B ?V ?V h1 k" if "k < length ?ops" "\<not> k < Suc i" for k
      by (rule others [OF after]) (use that h1(3) in simp_all)
    ultimately show ?thesis using h1 new step s' by (auto simp: pass_inv_def Let_def less_Suc_eq)
  next
    case True
    with outcome have applied: "hs_applied h1 ! i" "applicable ifs ?V ?op" by simp_all
    obtain h2 new2 where s': "s' = (h2, new2)" by (cases s')
    have op: "op_ok ifs G ?n ?op" using H i by (simp add: hmax_ok_def)
    have len: "length (hs_values h1) = ?n" "length (hs_scratch h1) = ?n" using h1(1) by (simp_all add: key_inv_def)
    have "\<forall>j < length (ho_effects ?op). dict_get (hs_effect_sizes h1) (i, j) = None \<or>
      (\<exists>B. grows B (hs_values h1) \<and> entries_cover ifs h1 i ?op B (value_sets (hs_values h1)) j)"
    proof (intro allI impI)
      fix j assume "j < length (ho_effects ?op)"
      with op_state_entries [OF state] same have
        "dict_get (hs_effect_sizes h) (i, j) = None \<or> entries_cover ifs h i ?op B ?V j" by auto
      moreover have "grows B ?A" using inv by (simp add: round_inv_def)
      ultimately show "dict_get (hs_effect_sizes h1) (i, j) = None \<or>
          (\<exists>B. grows B (hs_values h1) \<and> entries_cover ifs h1 i ?op B (value_sets (hs_values h1)) j)"
        using h1(2,3) by (auto simp: entries_cover_def)
    qed
    moreover have "typed_lists G (hs_values h1)" using inv h1(2) by (simp add: round_inv_def)
    moreover have "rfold (apply_hmax_effect ifs i) (indexed (zip (ho_effects ?op) (ho_effect_fluents ?op))) (h1, new) = Inr (h2, new2)"
      using rest True s' by simp
    ultimately have res: "same_but_effects h1 h2" "new_ok G ?n new2"
      and keep: "\<And>k j. k \<noteq> i \<Longrightarrow> dict_get (hs_effect_sizes h2) (k, j) = dict_get (hs_effect_sizes h1) (k, j)"
      and cover: "\<And>j. j < length (ho_effects ?op) \<Longrightarrow> entries_cover ifs h2 i ?op ?A (\<lambda>f. ?V f \<union> new_set new2 f) j"
      and sets: "\<And>f. new_set new f \<subseteq> new_set new2 f" "\<And>f. new_set new2 f \<subseteq> new_set new f \<union> op_values ifs ?op ?V f"
      using effects_done [OF refl refl _ op len _ new] h1(2) by auto
    have appl2: "hs_applied h2 = hs_applied h1" using res(1) by (simp add: same_but_effects_def)
    have "op_state ifs ?ops ?A ?V (\<lambda>f. ?V f \<union> new_set new2 f) h2 i"
      using applied cover appl2 by (simp add: op_state_def)
    moreover have "op_state ifs ?ops ?A ?V (\<lambda>f. ?V f \<union> new_set new2 f) h2 k" if "k < length ?ops" "k < i" for k
      by (rule others [OF before]) (use that h1(3) keep appl2 sets(1) in auto)
    moreover have "op_state ifs ?ops B ?V ?V h2 k" if "k < length ?ops" "\<not> k < Suc i" for k
      by (rule others [OF after]) (use that h1(3) keep appl2 in auto)
    moreover have "new_set new2 f \<subseteq> relaxed_step ifs ?ops ?V f" for f
      using sets(2) [of f] step [of f] op_values_step [OF _ applied(2), of ?ops f] i by auto
    moreover have "key_inv ifs ?n K h2" using h1(1) res(1) by (simp add: key_inv_def same_but_effects_def)
    ultimately show ?thesis using h1 res s' by (auto simp: pass_inv_def Let_def less_Suc_eq same_but_effects_def)
  qed
qed

lemma pass_done:
  assumes H: "hmax_ok ifs G K H" and inv: "round_inv ifs G K H B h0"
    and run: "rfold (apply_operator ifs H) (indexed (hm_operators H)) (h0, []) = Inr (h, new)"
  shows "pass_inv ifs G K H B h0 (length (hm_operators H)) (h, new) \<and>
    (\<forall>f. value_sets (hs_values h0) f \<union> new_set new f = relaxed_step ifs (hm_operators H) (value_sets (hs_values h0)) f)"
proof -
  let ?V = "value_sets (hs_values h0)" let ?ops = "hm_operators H"
  have "pass_inv ifs G K H B h0 0 (h0, [])"
    using inv by (auto simp: pass_inv_def round_inv_def Let_def new_ok_def new_set_def)
  from rfold_indexed [where I = "pass_inv ifs G K H B h0", OF run this pass_step [OF H inv]]
  have pass: "pass_inv ifs G K H B h0 (length ?ops) (h, new)" .
  then have state: "\<And>i. i < length ?ops \<Longrightarrow> op_state ifs ?ops (hs_values h0) ?V (\<lambda>f. ?V f \<union> new_set new f) h i"
    and sub: "\<And>f. new_set new f \<subseteq> relaxed_step ifs ?ops ?V f" by (auto simp: pass_inv_def Let_def)
  have "relaxed_step ifs ?ops ?V f \<subseteq> ?V f \<union> new_set new f" for f
  proof
    fix v assume "v \<in> relaxed_step ifs ?ops ?V f"
    then consider "v \<in> ?V f" | op ev where "op \<in> set ?ops" "applicable ifs ?V op" "(f, ev) \<in> set (ho_effects op)"
        "v \<in> effect_values ifs ?V ev" by (auto simp: relaxed_step_def)
    then show "v \<in> ?V f \<union> new_set new f"
    proof cases
      case 2
      then obtain i j where i: "i < length ?ops" "op = ?ops ! i" and j: "j < length (ho_effects op)" "ho_effects op ! j = (f, ev)"
        by (auto simp: in_set_conv_nth)
      from state [OF i(1)] 2(2) i(2) j(1) have "entries_cover ifs h i op (hs_values h0) (\<lambda>f. ?V f \<union> new_set new f) j"
        by (cases "hs_applied h ! i") (auto simp: op_state_def)
      with j(2) 2(4) show ?thesis by (auto simp: entries_cover_def)
    qed simp
  qed
  with sub relaxed_step_grows [of ?V _ ifs ?ops] pass show ?thesis by blast
qed


section \<open>The new values enter the lists\<close>

lemma add_all_typed:
  assumes "\<forall>w \<in> set old. const_ty w = Some ty" "\<forall>w \<in> set vs. const_ty w = Some ty"
  shows "set (fold value_add vs old) = set old \<union> set vs \<and> (\<exists>zs. fold value_add vs old = old @ zs)"
  using assms
proof (induction vs arbitrary: old)
  case (Cons v vs)
  note set = value_add_typed [of old ty v]
  obtain ys where "value_add v old = old @ ys" using value_add_prefix by blast
  with Cons.IH [of "value_add v old"] set Cons.prems show ?case by auto
qed simp

lemma typed_lists_at: "typed_lists G A \<Longrightarrow> fl_idx f < length A \<Longrightarrow> v \<in> set (A ! fl_idx f) \<Longrightarrow> const_ty v = Some (G f)"
  by (auto simp: typed_lists_def value_sets_def)

lemma value_sets_update:
  "i < length A \<Longrightarrow> value_sets (A[i := vs]) f = (if fl_idx f = i then set vs else value_sets A f)"
  by (auto simp: value_sets_def)

lemma update_all:
  assumes "rfold (update_values ord) news (A, ch) = Inr (A', ch')" "typed_lists G A"
    and "\<forall>(f, vs) \<in> set news. \<forall>v \<in> set vs. const_ty v = Some (G f)" and ord: "\<And>vs. set (ord vs) = set vs"
  shows "grows A A' \<and> typed_lists G A' \<and> ch \<subseteq> ch' \<and> unchanged ch' A A' \<and>
    (\<forall>f. value_sets A' f = value_sets A f \<union> (\<Union>(g, vs) \<in> set news. if g = f then set vs else {}))"
  using assms(1-3)
proof (induction news arbitrary: A ch)
  case Nil
  then show ?case by (simp add: unchanged_def)
next
  case (Cons p news)
  obtain f vs where p: "p = (f, vs)" by (cases p)
  let ?i = "fl_idx f"
  from Cons.prems(1) p have i: "?i < length A" by (auto simp: update_values_def rbind_eq_Inr py_nth_int_iff)
  let ?new = "fold value_add (ord vs) (A ! ?i)" let ?A = "A[?i := ?new]"
  let ?ch = "if length (A ! ?i) < length ?new then insert f ch else ch"
  have "update_values ord p (A, ch) = Inr (?A, ?ch)" using p i by (simp add: update_values_def Let_def)
  with Cons.prems(1) have rest: "rfold (update_values ord) news (?A, ?ch) = Inr (A', ch')" by simp
  have "\<forall>w \<in> set (A ! ?i). const_ty w = Some (G f)" using typed_lists_at [OF Cons.prems(2) i] by blast
  from add_all_typed [OF this, of "ord vs"] Cons.prems(3) p ord obtain zs where
    new: "set ?new = set (A ! ?i) \<union> set vs" "?new = A ! ?i @ zs" by auto
  have sets: "value_sets ?A g = value_sets A g \<union> (if f = g then set vs else {})" for g
    using i new(1) by (cases f; cases g) (auto simp: value_sets_update value_sets_def)
  have typed: "typed_lists G ?A"
    using Cons.prems(2,3) p by (auto simp: typed_lists_def sets split: if_splits)
  have grow: "grows A ?A" using i new(2) by (auto simp: grows_def nth_list_update)
  from Cons.IH [OF rest typed] Cons.prems(3) have IH: "grows ?A A'" "typed_lists G A'" "?ch \<subseteq> ch'" "unchanged ch' ?A A'"
    "\<And>f. value_sets A' f = value_sets ?A f \<union> (\<Union>(g, vs) \<in> set news. if g = f then set vs else {})" by auto
  have "unchanged ch' A A'"
    unfolding unchanged_def
  proof (intro conjI allI impI)
    fix g assume g: "g \<notin> ch'" "fl_idx g < length A'"
    have "?A ! fl_idx g = A ! fl_idx g"
    proof (cases "fl_idx g = ?i")
      case True
      then have "g = f" by (cases g; cases f) simp
      with g(1) IH(3) have "\<not> length (A ! ?i) < length ?new" by auto
      with new(2) have "?new = A ! ?i" by simp
      with True i show ?thesis by simp
    qed simp
    with g IH(4) show "A' ! fl_idx g = A ! fl_idx g" by (auto simp: unchanged_def)
  qed (use IH(4) in \<open>simp add: unchanged_def\<close>)
  moreover have "ch \<subseteq> ch'" using IH(3) by (auto split: if_splits)
  ultimately show ?case using grows_trans [OF grow IH(1)] IH(2,5) sets p by auto
qed


section \<open>Rounds are layers\<close>

lemma hmax_round_cases:
  assumes "hmax_round ifs ord H h = Inr r"
  obtains (fixpoint) "hs_changes h = {}" "r = Inl None"
  | (goal) h' where "hs_changes h \<noteq> {}" "can_be_true ifs H (hm_goals H) h = Inr (True, h')" "r = Inl (Some (hs_depth h'))"
  | (onward) h1 h2 new A ch where "can_be_true ifs H (hm_goals H) h = Inr (False, h1)"
      "rfold (apply_operator ifs H) (indexed (hm_operators H)) (h1, []) = Inr (h2, new)"
      "rfold (update_values ord) new (hs_values h2, {}) = Inr (A, ch)"
      "r = Inr (h2\<lparr>hs_values := A, hs_changes := ch, hs_depth := hs_depth h2 + 1\<rparr>)"
proof (cases "hs_changes h = {}")
  case True
  with assms fixpoint show thesis by (simp add: hmax_round_def)
next
  case False
  with assms obtain b h1 where test: "can_be_true ifs H (hm_goals H) h = Inr (b, h1)"
    by (auto simp: hmax_round_def rbind_eq_Inr)
  show thesis
  proof (cases b)
    case True
    with assms False test goal show thesis by (simp add: hmax_round_def)
  next
    case no: False
    from assms False test no obtain h2 new A ch where
      "rfold (apply_operator ifs H) (indexed (hm_operators H)) (h1, []) = Inr (h2, new)"
      "rfold (update_values ord) new (hs_values h2, {}) = Inr (A, ch)"
      "r = Inr (h2\<lparr>hs_values := A, hs_changes := ch, hs_depth := hs_depth h2 + 1\<rparr>)"
      by (auto simp: hmax_round_def rbind_eq_Inr)
    with onward test no show thesis by simp
  qed
qed

lemma round_inv_keys:
  assumes "round_inv ifs G K H B h" "key_inv ifs (hm_num_fluents H) K h'" "only_keys h h'"
  shows "round_inv ifs G K H B h'"
proof -
  have "op_state ifs (hm_operators H) B (value_sets (hs_values h)) (value_sets (hs_values h)) h' i"
    if "i < length (hm_operators H)" for i
    by (rule op_state_keep [where h = h]) (use assms that in \<open>auto simp: round_inv_def only_keys_def\<close>)
  with assms show ?thesis by (simp add: round_inv_def only_keys_def)
qed

lemma key_inv_grows:
  assumes "key_inv ifs n K h" "grows (hs_values h) A"
  shows "key_inv ifs n K (h\<lparr>hs_values := A, hs_changes := ch, hs_depth := d\<rparr>)"
proof -
  have "can_hold ifs (value_sets A) e" if "can_hold ifs (value_sets (hs_values h)) e" for e
    by (rule can_hold_mono [OF that]) (rule grows_sets [OF assms(2)])
  moreover have "length A = n" using assms by (simp add: key_inv_def grows_def)
  moreover have "\<exists>B. grows B A \<and> s = full_sizes (key_fluents e) B \<and> \<not> can_hold ifs (value_sets B) e"
    if "map_of (hs_sizes h) e = Some s" for e s
    using assms(1) that grows_trans [OF _ assms(2)] unfolding key_inv_def by blast
  ultimately show ?thesis using assms(1) by (simp add: key_inv_def)
qed

lemma next_round:
  assumes H: "hmax_ok ifs G K H" and ord: "\<And>vs. set (ord vs) = set vs" and inv: "round_inv ifs G K H B h"
    and pass: "rfold (apply_operator ifs H) (indexed (hm_operators H)) (h, []) = Inr (h2, new)"
    and upd: "rfold (update_values ord) new (hs_values h2, {}) = Inr (A, ch)"
  shows "round_inv ifs G K H (hs_values h) (h2\<lparr>hs_values := A, hs_changes := ch, hs_depth := hs_depth h2 + 1\<rparr>) \<and>
    (\<forall>f. value_sets A f = relaxed_step ifs (hm_operators H) (value_sets (hs_values h)) f) \<and>
    hs_depth h2 = hs_depth h \<and> hs_values h2 = hs_values h"
proof -
  let ?V = "value_sets (hs_values h)" let ?ops = "hm_operators H"
  let ?h = "h2\<lparr>hs_values := A, hs_changes := ch, hs_depth := hs_depth h2 + 1\<rparr>"
  from pass_done [OF H inv pass] have all: "\<And>f. ?V f \<union> new_set new f = relaxed_step ifs ?ops ?V f"
    and key: "key_inv ifs (hm_num_fluents H) K h2" and same: "hs_values h2 = hs_values h" "hs_depth h2 = hs_depth h"
    and appl: "length (hs_applied h2) = length ?ops" and new: "new_ok G (hm_num_fluents H) new"
    and state: "\<And>i. i < length ?ops \<Longrightarrow> op_state ifs ?ops (hs_values h) ?V (\<lambda>f. ?V f \<union> new_set new f) h2 i"
    by (auto simp: pass_inv_def Let_def)
  have typed: "typed_lists G (hs_values h2)" using inv same by (simp add: round_inv_def)
  have wf: "dict_wf new" and tys: "\<And>f v. v \<in> new_set new f \<Longrightarrow> const_ty v = Some (G f)" using new by (auto simp: new_ok_def)
  have get: "dict_get new f = Some vs" if "(f, vs) \<in> set new" for f vs using that dict_get_mem [OF wf] by blast
  have items: "\<forall>(f, vs) \<in> set new. \<forall>v \<in> set vs. const_ty v = Some (G f)"
    using get tys by (fastforce simp: new_set_def)
  have upds: "grows (hs_values h) A" "typed_lists G A" "unchanged ch (hs_values h) A"
    "\<And>f. value_sets A f = ?V f \<union> (\<Union>(g, vs) \<in> set new. if g = f then set vs else {})"
    using update_all [OF upd typed items ord] same by auto
  have "(\<Union>(g, vs) \<in> set new. if g = f then set vs else {}) = new_set new f" for f
  proof (cases "dict_get new f")
    case None
    then have "\<forall>(g, vs) \<in> set new. g \<noteq> f" using get by fastforce
    with None show ?thesis by (auto simp: new_set_def)
  next
    case (Some vs)
    then have mem: "(f, vs) \<in> set new" by (rule map_of_SomeD)
    have only: "ws = vs" if "(f, ws) \<in> set new" for ws using get [OF that] Some by simp
    have "(\<Union>(g, vs) \<in> set new. if g = f then set vs else {}) = set vs"
    proof
      show "(\<Union>(g, vs) \<in> set new. if g = f then set vs else {}) \<subseteq> set vs"
        using only by (auto split: if_splits)
    qed (use mem in force)
    with Some show ?thesis by (simp add: new_set_def)
  qed
  with upds(4) all have sets: "\<And>f. value_sets A f = relaxed_step ifs ?ops ?V f" by simp
  have "op_state ifs ?ops (hs_values h) (value_sets A) (value_sets A) ?h i" if "i < length ?ops" for i
  proof -
    have "op_state ifs ?ops (hs_values h) ?V (value_sets A) ?h i"
      by (rule op_state_keep [OF state [OF that]]) (simp_all add: all sets)
    moreover have "applicable ifs (value_sets A) (?ops ! i)" if "applicable ifs ?V (?ops ! i)"
      by (rule applicable_mono [OF that]) (simp add: sets relaxed_step_grows)
    ultimately show ?thesis by (auto simp: op_state_def)
  qed
  moreover have "key_inv ifs (hm_num_fluents H) K ?h" using key_inv_grows [OF key] upds(1) same by simp
  ultimately show ?thesis using appl upds sets same by (simp add: round_inv_def)
qed


section \<open>The value returned\<close>

definition goals_hold :: "ifenv \<Rightarrow> hmax \<Rightarrow> value_map \<Rightarrow> bool" where
  "goals_hold ifs H V \<longleftrightarrow> (\<forall>e \<in> set (hm_goals H). can_hold ifs V e)"

definition first_layer :: "ifenv \<Rightarrow> hmax \<Rightarrow> value_map \<Rightarrow> nat option \<Rightarrow> bool" where
  "first_layer ifs H V r \<longleftrightarrow> (case r of
     None \<Rightarrow> \<forall>k. \<not> goals_hold ifs H (layer ifs (hm_operators H) V k)
   | Some d \<Rightarrow> goals_hold ifs H (layer ifs (hm_operators H) V d) \<and>
       (\<forall>k < d. \<not> goals_hold ifs H (layer ifs (hm_operators H) V k)))"

definition layers_inv ::
    "ifenv \<Rightarrow> (fluent \<Rightarrow> ty) \<Rightarrow> expression set \<Rightarrow> hmax \<Rightarrow> value_map \<Rightarrow> hmax_state \<Rightarrow> bool" where
  "layers_inv ifs G K H V h \<longleftrightarrow> (\<exists>B. round_inv ifs G K H B h \<and>
     value_sets (hs_values h) = layer ifs (hm_operators H) V (hs_depth h) \<and>
     (\<forall>k < hs_depth h. \<not> goals_hold ifs H (layer ifs (hm_operators H) V k)) \<and>
     (if hs_depth h = 0 then hs_changes h \<noteq> {}
      else value_sets B = layer ifs (hm_operators H) V (hs_depth h - 1)))"

lemma layer_fixpoint:
  assumes "layer ifs ops V (Suc d) = layer ifs ops V d" "d \<le> k"
  shows "layer ifs ops V k = layer ifs ops V d"
  using assms(2)
proof (induction k rule: nat_induct_at_least)
  case (Suc k)
  then have "layer ifs ops V (Suc k) = relaxed_step ifs ops (layer ifs ops V d)" by simp
  with assms(1) show ?case by simp
qed simp

lemma hmax_round_layers:
  assumes H: "hmax_ok ifs G K H" and ord: "\<And>vs. set (ord vs) = set vs" and inv: "layers_inv ifs G K H V h"
    and run: "hmax_round ifs ord H h = Inr r"
  shows "case r of Inl res \<Rightarrow> first_layer ifs H V res | Inr h' \<Rightarrow> layers_inv ifs G K H V h'"
proof -
  let ?L = "layer ifs (hm_operators H) V"
  from inv obtain B where B: "round_inv ifs G K H B h" and vals: "value_sets (hs_values h) = ?L (hs_depth h)"
    and not_before: "\<And>k. k < hs_depth h \<Longrightarrow> \<not> goals_hold ifs H (?L k)"
    and prev: "if hs_depth h = 0 then hs_changes h \<noteq> {} else value_sets B = ?L (hs_depth h - 1)"
    by (auto simp: layers_inv_def)
  have keys: "keys_ok (hm_num_fluents H) K H" "set (hm_goals H) \<subseteq> K" using H by (auto simp: hmax_ok_def)
  have key: "key_inv ifs (hm_num_fluents H) K h" using B by (simp add: round_inv_def)
  note test = can_be_true_exact [OF keys key]
  from run show ?thesis
  proof (cases rule: hmax_round_cases)
    case fixpoint
    with prev have d: "hs_depth h \<noteq> 0" "value_sets B = ?L (hs_depth h - 1)" by (auto split: if_splits)
    have "unchanged {} B (hs_values h)" using B fixpoint by (simp add: round_inv_def)
    then have "value_sets (hs_values h) = value_sets B" by (intro ext unchanged_sets) auto
    with vals d have "?L (hs_depth h) = ?L (hs_depth h - 1)" by simp
    moreover have "Suc (hs_depth h - 1) = hs_depth h" using d(1) by simp
    ultimately have settled: "?L (Suc (hs_depth h - 1)) = ?L (hs_depth h - 1)" by (simp only:)
    have "\<not> goals_hold ifs H (?L (hs_depth h - 1))" using not_before d(1) by simp
    then have "\<not> goals_hold ifs H (?L k)" for k
      using layer_fixpoint [OF settled, of k] not_before [of k] by (cases "k < hs_depth h") simp_all
    with fixpoint show ?thesis by (simp add: first_layer_def)
  next
    case (goal h')
    from test [OF goal(2)] vals have "goals_hold ifs H (?L (hs_depth h))" "hs_depth h' = hs_depth h"
      by (auto simp: goals_hold_def only_keys_def)
    with goal not_before show ?thesis by (simp add: first_layer_def)
  next
    case (onward h1 h2 new A ch)
    from test [OF onward(1)] vals have no: "\<not> goals_hold ifs H (?L (hs_depth h))"
      and h1: "key_inv ifs (hm_num_fluents H) K h1" "only_keys h h1" by (auto simp: goals_hold_def)
    have same: "hs_values h1 = hs_values h" "hs_depth h1 = hs_depth h" using h1(2) by (simp_all add: only_keys_def)
    let ?h = "h2\<lparr>hs_values := A, hs_changes := ch, hs_depth := hs_depth h2 + 1\<rparr>"
    from next_round [OF H ord round_inv_keys [OF B h1] onward(2,3)] same have
      "round_inv ifs G K H (hs_values h) ?h" "value_sets A = ?L (Suc (hs_depth h))" "hs_depth h2 = hs_depth h"
      using vals by (auto intro!: ext)
    with onward(4) no not_before vals show ?thesis
      by (auto simp: layers_inv_def less_Suc_eq intro!: exI [of _ "hs_values h"])
  qed
qed

lemma start_round_inv:
  assumes H: "hmax_ok ifs G K H" and A: "length A = hm_num_fluents H" "typed_lists G A"
  shows "round_inv ifs G K H (replicate (hm_num_fluents H) [])
    \<lparr>hs_values = A, hs_can = [], hs_sizes = [], hs_effect_sizes = [],
     hs_applied = replicate (length (hm_operators H)) False,
     hs_scratch = replicate (hm_num_fluents H) (CBool False),
     hs_changes = Fluent ` {..<hm_num_fluents H}, hs_depth = 0\<rparr>"
proof -
  let ?B = "replicate (hm_num_fluents H) []"
  have none: "value_sets ?B f = {}" for f by (simp add: value_sets_def)
  have "\<not> applicable ifs (value_sets ?B) op" if "op \<in> set (hm_operators H)" for op
  proof -
    from H that obtain c where "c \<in> set (ho_conditions op)" "get_fluents c \<noteq> []" by (auto simp: hmax_ok_def op_ok_def)
    moreover then have "\<not> can_hold ifs (value_sets ?B) c"
      by (cases "get_fluents c") (auto simp: can_hold_def picks_def none)
    ultimately show ?thesis by (auto simp: applicable_def)
  qed
  moreover have "f \<in> Fluent ` {..<n} \<longleftrightarrow> fl_idx f < n" for f n by (cases f) auto
  ultimately show ?thesis
    using A by (auto simp: round_inv_def key_inv_def grows_def unchanged_def op_state_def)
qed

lemma hmax_eval_core_layer:
  assumes H: "hmax_ok ifs G K H" and ord: "\<And>vs. set (ord vs) = set vs"
    and init: "initial_values H s = Inr A" "length A = hm_num_fluents H" "typed_lists G A"
    and run: "hmax_eval_core ifs ord H s = Inr r"
  shows "first_layer ifs H (value_sets A) r"
proof -
  let ?h = "\<lparr>hs_values = A, hs_can = [], hs_sizes = [], hs_effect_sizes = [],
     hs_applied = replicate (length (hm_operators H)) False,
     hs_scratch = replicate (hm_num_fluents H) (CBool False),
     hs_changes = Fluent ` {..<hm_num_fluents H}, hs_depth = 0\<rparr>"
  let ?I = "layers_inv ifs G K H (value_sets A)"
  have "?I ?h"
    using start_round_inv [OF H init(2,3)] H by (auto simp: layers_inv_def hmax_ok_def)
  moreover have "run_rounds (hmax_round ifs ord H) ?h = Inr r" using run init(1) by (simp add: hmax_eval_core_def)
  ultimately obtain h' where "?I h'" "hmax_round ifs ord H h' = Inr (Inl r)"
    using run_rounds_result [where I = ?I] hmax_round_layers [OF H ord] by (metis sum.simps(6))
  from hmax_round_layers [OF H ord this] show ?thesis by simp
qed

end
