(* ===== verification/HMax_Built.thy ===== *)
theory HMax_Built
  imports HMax_Layers Typed_Space
begin

text \<open>
  The constructor of \<open>HMaxExplicit\<close>: the operators it makes from typed events are fit for the
  rounds, and the values it starts from are typed.  The fluents it adds for the progress of the
  actions are those from the number of the problem's fluents on.
\<close>

section \<open>The operators\<close>

definition condition_typed :: "(fluent \<Rightarrow> ty) \<Rightarrow> nat \<Rightarrow> expression \<Rightarrow> bool" where
  "condition_typed G n e \<longleftrightarrow> (\<exists>t. e = flatten t \<and> tree_ty G t = Some TyBool \<and> (\<forall>f \<in> set (tree_fluents t). fl_idx f < n))"

definition typed_event :: "(fluent \<Rightarrow> ty) \<Rightarrow> nat \<Rightarrow> event \<Rightarrow> bool" where
  "typed_event G n e \<longleftrightarrow> (\<forall>eff \<in> set (ev_effects e). typed_effect G n eff) \<and>
     (\<forall>c \<in> set (ev_conditions e # ev_end_conditions e). condition_typed G n c)"

text \<open>A problem with \<open>n\<close> fluents; what it says of later fluents is about those of the progress.\<close>

definition typed_problem :: "(fluent \<Rightarrow> ty) \<Rightarrow> nat \<Rightarrow> (action, timed_event list) dict \<Rightarrow> expression \<Rightarrow> bool" where
  "typed_problem G n evs goal \<longleftrightarrow> 0 < n \<and> (\<forall>i \<ge> n. G (Fluent i) = TyBool) \<and> condition_typed G n goal \<and>
     (\<forall>(a, le) \<in> set evs. \<forall>te \<in> set le. typed_event G n (snd te))"

lemma condition_bounds: "condition_typed G n e \<Longrightarrow> in_bounds n e"
  by (auto simp: condition_typed_def in_bounds_def flatten_def get_fluents_flat)

lemma split_conjuncts:
  assumes "condition_typed G n e" "split_expression e = Inr cs"
  obtains ts where "cs = map flatten ts" "\<forall>t \<in> set ts. tree_ty G t = Some TyBool \<and> (\<forall>f \<in> set (tree_fluents t). fl_idx f < n)"
    "e = flatten (TOp ''and'' ts) \<or> (\<exists>t. ts = [t] \<and> e = flatten t)"
proof -
  from assms(1) obtain t where t: "e = flatten t" "tree_ty G t = Some TyBool" "\<forall>f \<in> set (tree_fluents t). fl_idx f < n"
    by (auto simp: condition_typed_def)
  show thesis
  proof (cases "\<exists>ts. t = TOp ''and'' ts")
    case True
    then obtain ts where ts: "t = TOp ''and'' ts" by blast
    then obtain tys where tys: "list_all2 (\<lambda>t ty. tree_ty G t = Some ty) ts tys" "op_ty ''and'' tys = Some TyBool"
      using t(2) tree_ty_OpE [of G "''and''" ts TyBool] by blast
    then have "\<forall>ty \<in> set tys. ty = TyBool" by (auto simp: op_ty_def split: if_splits)
    with tys(1) have "\<forall>u \<in> set ts. tree_ty G u = Some TyBool"
      by (induction rule: list_all2_induct) auto
    with that [of ts] t ts assms(2) show thesis by (auto simp: split_expression_flatten)
  next
    case False
    then have "cs = [flatten t]" using assms(2) t(1) by (auto simp: split_expression_flatten split: etree.splits if_splits)
    with that [of "[t]"] t show thesis by simp
  qed
qed

lemma split_typed:
  assumes "condition_typed G n e" "split_expression e = Inr cs" "c \<in> set cs"
  shows "condition_typed G n c"
  using assms(1,2)
proof (rule split_conjuncts)
  fix ts assume "cs = map flatten ts"
    "\<forall>t \<in> set ts. tree_ty G t = Some TyBool \<and> (\<forall>f \<in> set (tree_fluents t). fl_idx f < n)"
  with assms(3) show ?thesis unfolding condition_typed_def by auto
qed

definition hmax_keys :: "hmax \<Rightarrow> expression list" where
  "hmax_keys H = hm_goals H @ concat (map ho_conditions (hm_operators H))"

text \<open>An operator as the constructor makes it, for a progress fluent in \<open>[num, n)\<close>.\<close>

definition built_op :: "ifenv \<Rightarrow> (fluent \<Rightarrow> ty) \<Rightarrow> nat \<Rightarrow> hmax_op \<Rightarrow> bool" where
  "built_op ifs G n op \<longleftrightarrow> ho_effect_fluents op = map (\<lambda>(_, ev). dedup_fluents ev) (ho_effects op) \<and>
     (\<forall>p \<in> set (ho_effects op). effect_ok ifs G n p) \<and> (\<forall>c \<in> set (ho_conditions op). in_bounds n c) \<and>
     (\<exists>c \<in> set (ho_conditions op). get_fluents c \<noteq> [])"

lemma effect_ok_mono: "effect_ok ifs G n p \<Longrightarrow> n \<le> m \<Longrightarrow> effect_ok ifs G m p"
  by (auto simp: effect_ok_def)

lemma in_bounds_mono: "in_bounds n e \<Longrightarrow> n \<le> m \<Longrightarrow> in_bounds m e"
  by (auto simp: in_bounds_def)

lemma built_op_mono: "built_op ifs G n op \<Longrightarrow> n \<le> m \<Longrightarrow> built_op ifs G m op"
  unfolding built_op_def using effect_ok_mono in_bounds_mono by blast

lemma typed_effect_values:
  assumes "tree_ty G t = Some ty" "\<And>g v. v \<in> V g \<Longrightarrow> const_ty v = Some (G g)"
    and "picks V (tree_fluents t) asg" "evaluate ifs (flatten t) asg = Inr v"
  shows "const_ty v = Some ty"
proof -
  have "\<forall>f \<in> set (tree_fluents t). \<exists>v. py_nth asg (int (fl_idx f)) = Inr v \<and> const_ty v = Some (G f)"
    using assms(2,3) unfolding picks_def by blast
  moreover have "teval ifs asg t = Inr v"
    using evaluate_flatten [OF tree_ty_wf [OF assms(1)], of ifs asg] assms(4) by simp
  ultimately show ?thesis using teval_typed_fluents [OF assms(1), of asg ifs] by simp
qed

lemma effect_entry_ok:
  assumes "typed_effect G n eff"
  shows "effect_ok ifs G n (effect_entry eff)"
proof -
  from assms obtain t where t: "eff_value eff = flatten t" "tree_ty G t = Some (G (eff_fluent eff))"
    "\<forall>f \<in> set (tree_fluents t). fl_idx f < n" and f: "fl_idx (eff_fluent eff) < n"
    by (auto simp: typed_effect_def)
  have fluents: "get_fluents (eff_value eff) = tree_fluents t" using t(1) by (simp add: flatten_def get_fluents_flat)
  have typed: "const_ty v = Some (G (eff_fluent eff))"
    if "\<And>g v. v \<in> V g \<Longrightarrow> const_ty v = Some (G g)" "picks V (get_fluents (eff_value eff)) asg"
      "evaluate ifs (eff_value eff) asg = Inr v" for V asg v
    using typed_effect_values [OF t(2), of V asg ifs v] that t(1) fluents by simp
  show ?thesis
  proof (cases "\<exists>c. eff_value eff = [NConst c]")
    case True
    then obtain c where c: "eff_value eff = [NConst c]" by blast
    have "const_ty c = Some (G (eff_fluent eff))"
      using typed [of "\<lambda>_. {}" "[]" c] py_last_snoc [of "[]" c] by (simp add: c picks_def evaluate_def)
    with c f show ?thesis by (simp add: effect_entry_def effect_ok_def value_typed_def)
  next
    case False
    then have "effect_entry eff = (eff_fluent eff, EExp (eff_value eff))"
      by (auto simp: effect_entry_def split: list.split node.split)
    moreover have "value_typed ifs G (eff_fluent eff) (EExp (eff_value eff))"
      unfolding value_typed_def effect_values.simps mem_Collect_eq by (blast intro: typed)
    ultimately show ?thesis using f t(3) fluents by (simp add: effect_ok_def)
  qed
qed

text \<open>Where the conditions of an event come from.\<close>

definition event_part :: "event \<Rightarrow> expression \<Rightarrow> bool" where
  "event_part e c \<longleftrightarrow> c \<in> set (ev_end_conditions e) \<or> (\<exists>cs. split_expression (ev_conditions e) = Inr cs \<and> c \<in> set cs)"

lemma set_keep_first: "set (keep_first acc cs) \<subseteq> set acc \<union> set cs"
  by (induction acc cs rule: keep_first.induct) (auto split: if_splits)

lemma event_conditionsD:
  assumes "event_conditions cond e = Inr cs"
  shows "[NFluent cond] \<in> set cs \<and> (\<forall>c \<in> set cs. c = [NFluent cond] \<or>
    (\<exists>p xs. event_part e p \<and> split_expression p = Inr xs \<and> c \<in> set xs))"
proof -
  let ?I = "\<lambda>acc. [NFluent cond] \<in> set acc \<and> (\<forall>c \<in> set acc. c = [NFluent cond] \<or>
    (\<exists>p xs. event_part e p \<and> split_expression p = Inr xs \<and> c \<in> set xs))"
  from assms obtain ds where ds: "get_event_conditions e = Inr ds" and loop:
    "rfold (\<lambda>c acc. if c \<noteq> [] \<and> \<not> exp_eq c [NConst (CBool True)]
       then rbind (split_expression c) (\<lambda>xs. Inr (acc @ xs)) else Inr acc) ds [[NFluent cond]] = Inr cs"
    by (auto simp: event_conditions_def rbind_eq_Inr)
  have part: "event_part e d" if "d \<in> set ds" for d
    using ds that set_keep_first by (fastforce simp: get_event_conditions_def event_part_def rbind_eq_Inr)
  from loop show ?thesis
  proof (rule rfold_invariant [where I = ?I])
    fix d acc acc' assume d: "d \<in> set ds" and I: "?I acc" and step: "(if d \<noteq> [] \<and> \<not> exp_eq d [NConst (CBool True)]
       then rbind (split_expression d) (\<lambda>xs. Inr (acc @ xs)) else Inr acc) = Inr acc'"
    then consider "acc' = acc" | xs where "split_expression d = Inr xs" "acc' = acc @ xs"
      by (auto simp: rbind_eq_Inr split: if_splits)
    then show "?I acc'" using I part [OF d] by cases auto
  qed simp
qed

lemma event_part_typed:
  assumes "typed_event G n e" "event_part e p"
  shows "condition_typed G n p"
  using assms split_typed [of G n "ev_conditions e"] by (auto simp: typed_event_def event_part_def)

lemma event_operator_built:
  assumes "typed_event G num e" "num \<le> f" "f < n" "G (Fluent f) = TyBool" "fl_idx cond < n"
    and "event_conditions cond e = Inr conditions"
  shows "built_op ifs G n (event_operator a (Fluent f) e conditions)"
proof -
  have "effect_ok ifs G n (effect_entry eff)" if "eff \<in> set (ev_effects e)" for eff
    using effect_ok_mono [of ifs G num _ n] effect_entry_ok [of G num eff ifs] assms(1-3) that
    by (simp add: typed_event_def)
  moreover have "effect_ok ifs G n (Fluent f, EConst (CBool True))"
    using assms(3,4) by (simp add: effect_ok_def value_typed_def)
  moreover have "in_bounds n c" if "c \<in> set conditions" for c
    using that event_conditionsD [OF assms(6)] split_typed event_part_typed [OF assms(1)] condition_bounds
      in_bounds_mono [of num c n] assms(2,3,5) by (fastforce simp: in_bounds_def)
  moreover have "\<exists>c \<in> set conditions. get_fluents c \<noteq> []"
    using event_conditionsD [OF assms(6)] by (intro bexI [of _ "[NFluent cond]"]) auto
  ultimately show ?thesis by (simp add: event_operator_def built_op_def)
qed

lemma action_operators_built:
  assumes "action_operators timed a i cond f le ops = Inr ops'"
    and "\<forall>te \<in> set le. typed_event G num (snd te)" "num \<le> f" "le \<noteq> [] \<longrightarrow> fl_idx cond < f + length le"
    and "\<And>i. num \<le> i \<Longrightarrow> G (Fluent i) = TyBool" "\<forall>op \<in> set ops. built_op ifs G (f + length le) op"
  shows "\<forall>op \<in> set ops'. built_op ifs G (f + length le) op"
  using assms(1-4,6)
proof (induction le arbitrary: i cond f ops)
  case (Cons p le)
  obtain t e where p: "p = (t, e)" by (cases p) auto
  from Cons.prems(1) p obtain cs where cs: "event_conditions cond e = Inr cs"
    and rest: "action_operators timed a (i + 1) (Fluent f) (f + 1) le
       (if \<not> list_ex (exp_eq [NConst (CBool False)]) cs \<and> \<not> (i = 0 \<and> timed = Some a)
        then ops @ [event_operator a (Fluent f) e cs] else ops) = Inr ops'"
    by (auto simp: rbind_eq_Inr)
  have "built_op ifs G (f + length (p # le)) (event_operator a (Fluent f) e cs)"
    using Cons.prems(2-4) p
    by (intro event_operator_built [where num = num and cond = cond]) (auto intro: cs assms(5))
  with Cons.prems(5) have "\<forall>op \<in> set (if \<not> list_ex (exp_eq [NConst (CBool False)]) cs \<and> \<not> (i = 0 \<and> timed = Some a)
        then ops @ [event_operator a (Fluent f) e cs] else ops). built_op ifs G (f + 1 + length le) op"
    by simp
  from Cons.IH [OF rest _ _ _ this] Cons.prems(2,3) show ?case by simp
qed simp

text \<open>The progress fluents of an action are new ones below the next free number.\<close>

definition extra_in :: "nat \<Rightarrow> nat \<Rightarrow> (action, fluent list) dict \<Rightarrow> bool" where
  "extra_in num n extra \<longleftrightarrow> dict_wf extra \<and> (\<forall>a fs. dict_get extra a = Some fs \<longrightarrow> (\<forall>f \<in> set fs. num \<le> fl_idx f \<and> fl_idx f < n))"

lemma hmax_operators_built:
  assumes "hmax_operators timed evs n ops extra = Inr (ops', extra', n')"
    and "\<forall>(a, le) \<in> set evs. \<forall>te \<in> set le. typed_event G num (snd te)" "num \<le> n"
    "\<And>i. num \<le> i \<Longrightarrow> G (Fluent i) = TyBool"
    and "\<forall>op \<in> set ops. built_op ifs G n op" "extra_in num n extra"
  shows "(\<forall>op \<in> set ops'. built_op ifs G n' op) \<and> extra_in num n' extra' \<and> n \<le> n'"
  using assms(1-3,5,6)
proof (induction evs arbitrary: n ops extra)
  case (Cons p evs)
  obtain a le where p: "p = (a, le)" by (cases p) auto
  from Cons.prems(1) p obtain ops1 where
    a: "action_operators timed a 0 (Fluent (n + length le - 1)) n le ops = Inr ops1"
    and rest: "hmax_operators timed evs (n + length le) ops1 (dict_set a (map Fluent [n..<n + length le]) extra) = Inr (ops', extra', n')"
    by (auto simp: rbind_eq_Inr)
  have "\<forall>op \<in> set ops1. built_op ifs G (n + length le) op"
    using Cons.prems(2-4) p built_op_mono [of ifs G n _ "n + length le"]
    by (intro action_operators_built [OF a, where num = num]) (auto intro: assms(4))
  moreover have "extra_in num (n + length le) (dict_set a (map Fluent [n..<n + length le]) extra)"
    using Cons.prems(3,5) by (auto simp: extra_in_def update_conv' split: if_splits) (metis trans_less_add1)
  ultimately show ?case using Cons.IH [OF rest] Cons.prems(2,3) by simp
qed simp


section \<open>The object\<close>

lemma add_expr_lookup:
  assumes "keys_apart K" "set es \<subseteq> K" "fst ` set d \<subseteq> K"
    and "\<And>e v. map_of d e = Some v \<Longrightarrow> v = key_fluents e"
  shows "fst ` set (fold add_expr es d) \<subseteq> K \<and>
    (\<forall>e. map_of (fold add_expr es d) e = (if e \<in> set es \<union> fst ` set d then Some (key_fluents e) else None))"
  using assms(2-4)
proof (induction es arbitrary: d)
  case Nil
  then show ?case by (auto simp: map_of_eq_None_iff split: if_splits) (metis image_eqI option.exhaust map_of_eq_None_iff fst_conv)
next
  case (Cons e es)
  have get: "exp_get d e = map_of d e" "exp_set e v d = AList.update e v d" for v
    using exp_get_apart [OF assms(1) Cons.prems(2), of e v] Cons.prems(1) by auto
  have "fst ` set (add_expr e d) = insert e (fst ` set d)"
    using get map_of_eq_None_iff [of d e] by (auto simp: add_expr_def AList.dom_update)
  moreover have "\<And>e' v. map_of (add_expr e d) e' = Some v \<Longrightarrow> v = key_fluents e'"
    using Cons.prems(3) get by (auto simp: add_expr_def update_conv' split: if_splits)
  ultimately show ?case using Cons.IH [of "add_expr e d"] Cons.prems(1,2) by auto
qed

lemma extra_goals_in:
  assumes "extra_goals extra = Inr xs" "e \<in> set xs" "extra_in num n extra"
  shows "\<exists>a fs. dict_get extra a = Some fs \<and> fs \<noteq> [] \<and> e = [NFluent (last fs)] \<and> fl_idx (last fs) < n"
proof -
  from assms(1,2) obtain i where i: "i < length extra" "e = xs ! i"
    "(case extra ! i of (_, fs) \<Rightarrow> rbind (py_last fs) (\<lambda>f. Inr [NFluent f])) = Inr (xs ! i)"
    by (auto simp: extra_goals_def rmap_Inr_iff in_set_conv_nth)
  obtain a fs where p: "extra ! i = (a, fs)" by (cases "extra ! i")
  with i obtain f where f: "py_last fs = Inr f" "e = [NFluent f]" by (auto simp: rbind_eq_Inr)
  then have "fs \<noteq> []" by auto
  with f have last: "f = last fs" "last fs \<in> set fs" by (auto simp: py_last_eq)
  have "(a, fs) \<in> set extra" using i(1) p by (metis nth_mem)
  then have "dict_get extra a = Some fs" using assms(3) by (simp add: extra_in_def dict_get_mem)
  moreover then have "fl_idx (last fs) < n" using assms(3) last(2) by (auto simp: extra_in_def)
  ultimately show ?thesis using f(2) last(1) \<open>fs \<noteq> []\<close> by blast
qed

lemma mk_hmax_ok:
  assumes "mk_hmax num evs goals timed = Inr H" "typed_problem G num evs goals"
    and "keys_apart (set (hmax_keys H))"
  shows "hmax_ok ifs G (set (hmax_keys H)) H \<and> extra_in num (hm_num_fluents H) (hm_extra_fluents H) \<and>
    num \<le> hm_num_fluents H"
proof -
  from assms(1) obtain ops extra n gs xs where
    ops: "hmax_operators timed evs num [] [] = Inr (ops, extra, n)"
    and H: "hm_operators H = ops" "hm_extra_fluents H = extra" "hm_num_fluents H = n" "hm_goals H = gs @ xs"
      "hm_expr_fluents H = fold add_expr (hmax_keys H) []"
      "hm_condition_fluents H = map (\<lambda>op. \<Union>c \<in> set (ho_conditions op). set (get_fluents c)) ops"
      "hm_effect_fluents H = map (\<lambda>op. \<Union>(_, v) \<in> set (ho_effects op). set (value_fluents v)) ops"
    and gs: "split_expression goals = Inr gs" "extra_goals extra = Inr xs"
    by (auto simp: mk_hmax_def rbind_eq_Inr hmax_keys_def)
  have ty: "\<forall>(a, le) \<in> set evs. \<forall>te \<in> set le. typed_event G num (snd te)" "0 < num" "condition_typed G num goals"
    "\<And>i. num \<le> i \<Longrightarrow> G (Fluent i) = TyBool" using assms(2) by (auto simp: typed_problem_def)
  have built: "\<forall>op \<in> set ops. built_op ifs G n op" "extra_in num n extra" "num \<le> n"
    using hmax_operators_built [OF ops ty(1) order.refl ty(4), of ifs] by (auto simp: extra_in_def)
  have "in_bounds n e" if "e \<in> set gs" for e
    using split_typed [OF ty(3) gs(1) that] condition_bounds in_bounds_mono built(3) by blast
  moreover have "in_bounds n e" if "e \<in> set xs" for e
    using extra_goals_in [OF gs(2) that built(2)] by (auto simp: in_bounds_def)
  ultimately have keys: "\<forall>e \<in> set (hmax_keys H). in_bounds n e"
    using built(1) H(1,4) by (auto simp: hmax_keys_def built_op_def)
  have "keys_ok n (set (hmax_keys H)) H"
    using assms(3) keys H(3,5) add_expr_lookup [OF assms(3), of "hmax_keys H" "[]"]
      exp_get_apart [OF assms(3), of "fold add_expr (hmax_keys H) []"] by (simp add: keys_ok_def)
  moreover have "set (ho_conditions op) \<subseteq> set (hmax_keys H)" if "op \<in> set ops" for op
    using that H(1) by (auto simp: hmax_keys_def)
  moreover have "op_ok ifs G n op" if "op \<in> set ops" for op
    using built(1) that by (auto simp: op_ok_def built_op_def)
  moreover have "set (hm_goals H) \<subseteq> set (hmax_keys H)" by (simp add: hmax_keys_def)
  ultimately show ?thesis using H built(2,3) ty(2) by (simp add: hmax_ok_def)
qed


section \<open>The first values\<close>

definition values_ok :: "(fluent \<Rightarrow> ty) \<Rightarrow> nat \<Rightarrow> const list list \<Rightarrow> bool" where
  "values_ok G n A \<longleftrightarrow> length A = n \<and> typed_lists G A"

lemma add_value_ok:
  assumes "add_value i v A = Inr A'" "values_ok G n A" "const_ty v = Some (G (Fluent i))"
  shows "values_ok G n A'"
proof -
  from assms(1) have i: "i < length A" and A': "A' = A[i := value_add v (A ! i)]"
    by (auto simp: add_value_def rbind_eq_Inr py_nth_int_iff py_update_int_iff)
  have "const_ty w = Some (G f)" if "w \<in> value_sets A' f" for w f
  proof (cases "fl_idx f = i")
    case True
    then have "f = Fluent i" by (cases f) simp
    with that assms(2,3) i A' show ?thesis
      by (auto simp: values_ok_def typed_lists_def value_sets_def value_add_def split: if_splits)
  next
    case False
    with that assms(2) A' show ?thesis by (auto simp: values_ok_def typed_lists_def value_sets_def split: if_splits)
  qed
  with assms(2) A' show ?thesis by (simp add: values_ok_def typed_lists_def)
qed

lemma initial_values_ok:
  assumes "initial_values H s = Inr A" "extra_in num (hm_num_fluents H) (hm_extra_fluents H)"
    and "\<And>i. num \<le> i \<Longrightarrow> G (Fluent i) = TyBool" "typed_assignment G (st_assignments s)"
  shows "values_ok G (hm_num_fluents H) A"
proof -
  let ?I = "values_ok G (hm_num_fluents H)"
  from assms(1) obtain B where
    B: "rfold (\<lambda>(i, v). add_value i v) (indexed (st_assignments s)) (replicate (hm_num_fluents H) []) = Inr B"
    and A: "rfold (progress_values H (st_todo s)) (hm_events H) B = Inr A"
    by (auto simp: initial_values_def rbind_eq_Inr)
  have "?I (replicate (hm_num_fluents H) [])" by (auto simp: values_ok_def typed_lists_def value_sets_def)
  with B have "?I B"
  proof (rule rfold_invariant)
    fix x B B' assume x: "x \<in> set (indexed (st_assignments s))" "?I B" "(case x of (i, v) \<Rightarrow> add_value i v) B = Inr B'"
    then obtain i where "x = (i, st_assignments s ! i)" "i < length (st_assignments s)" by (auto simp: indexed_def set_zip)
    with x assms(4) show "?I B'" by (auto simp: typed_assignment_def intro: add_value_ok)
  qed
  with A show ?thesis
  proof (rule rfold_invariant)
    fix x B B' assume x: "?I B" "progress_values H (st_todo s) x B = Inr B'"
    then obtain a fs idx where fs: "dict_get (hm_extra_fluents H) a = Some fs"
      and run: "rfold (\<lambda>(i, f). add_value (fl_idx f) (CBool (int i = idx))) (indexed fs) B = Inr B'"
      by (auto simp: progress_values_def dict_lookup_def rbind_eq_Inr split: prod.splits option.splits)
    from run x(1) show "?I B'"
    proof (rule rfold_invariant)
      fix y C C' assume y: "y \<in> set (indexed fs)" "?I C" "(case y of (i, f) \<Rightarrow> add_value (fl_idx f) (CBool (int i = idx))) C = Inr C'"
      obtain i f where f: "y = (i, f)" "f \<in> set fs"
        using y(1) unfolding indexed_def by (metis set_zip_rightD surj_pair)
      have "G (Fluent (fl_idx f)) = TyBool" using f(2) fs assms(2) assms(3) [of "fl_idx f"] by (auto simp: extra_in_def)
      with y f(1) show "?I C'" by (auto intro: add_value_ok)
    qed
  qed
qed

end
