(* ===== verification/HMax_Returns.thy ===== *)
theory HMax_Returns
  imports HMax_Built Space_Returns
begin

text \<open>
  The evaluation of \<open>HMaxExplicit\<close> ends when the relaxation reaches the goals or settles, and it
  always does on problems whose fluents are Boolean.
\<close>

section \<open>The errors of a round\<close>

lemma errs_for_each:
  assumes "ifs_return ifs"
  shows "errs ordinary (for_each_new_value ifs ev fluents A old visit st)"
proof -
  have "errs ordinary (visit_combo ifs e fluents visit combo st)" for e combo st
    unfolding visit_combo_def by (intro errs_intro errs_evaluate assms)
  then have "errs ordinary (delta_loop ifs e fluents vals old new visit st)" for e vals old new st
    unfolding delta_loop_def by (intro errs_intro)
  then show ?thesis by (cases ev; cases st) (auto intro!: errs_intro errs_evaluate assms)
qed

lemma errs_can_be_true:
  assumes "ifs_return ifs"
  shows "errs ordinary (can_be_true ifs H es h)"
proof (induction es arbitrary: h)
  case (Cons e es)
  have "errs ordinary (exp_can_be_true ifs H e h)" unfolding exp_can_be_true_def
    by (intro errs_intro errs_for_each assms) simp
  with Cons show ?case by (auto intro!: errs_intro)
qed simp

lemma errs_hmax_round:
  assumes "ifs_return ifs"
  shows "errs ordinary (hmax_round ifs ord H h)"
proof -
  have "errs ordinary (apply_hmax_effect ifs i p hn)" for i p hn
    unfolding apply_hmax_effect_def by (intro errs_intro errs_for_each assms)
  moreover have "errs ordinary (operator_applies ifs H i op h)" for i op h
    unfolding operator_applies_def by (intro errs_intro errs_can_be_true assms)
  ultimately have "errs ordinary (apply_operator ifs H p hn)" for p hn
    unfolding apply_operator_def by (intro errs_intro)
  moreover have "errs ordinary (update_values ord p ac)" for p ac
    unfolding update_values_def by (intro errs_intro)
  ultimately show ?thesis unfolding hmax_round_def by (intro errs_intro errs_can_be_true assms)
qed

lemma errs_initial_values: "errs ordinary (initial_values H s)"
  unfolding initial_values_def progress_values_def add_value_def by (intro errs_intro)


section \<open>Every further round adds a value\<close>

lemma value_add_new: "\<exists>zs. fold value_add vs old = old @ zs \<and> set zs \<inter> set old = {}"
proof (induction vs rule: rev_induct)
  case (snoc v vs)
  then obtain zs where zs: "fold value_add vs old = old @ zs" "set zs \<inter> set old = {}" by blast
  show ?case
  proof (cases "list_ex (py_eq v) (old @ zs)")
    case False
    then have "v \<notin> set old" using py_eq_refl [of v] unfolding list_ex_iff set_append by blast
    moreover have "value_add v (old @ zs) = old @ zs @ [v]" using False by (simp add: value_add_def)
    ultimately show ?thesis using zs by (intro exI [of _ "zs @ [v]"]) simp
  next
    case True
    then have "value_add v (old @ zs) = old @ zs" by (simp add: value_add_def)
    with zs show ?thesis by simp
  qed
qed simp

lemma update_values_changes:
  assumes "rfold (update_values ord) new (A, {}) = Inr (A', ch)" "ch \<noteq> {}"
  shows "value_sets A' \<noteq> value_sets A"
proof -
  let ?I = "\<lambda>(B, ch). grows A B \<and> (ch \<noteq> {} \<longrightarrow> (\<exists>f. \<not> value_sets B f \<subseteq> value_sets A f))"
  from assms(1) have "?I (A', ch)"
  proof (rule rfold_invariant)
    fix p bc bc' assume I: "?I bc" and step: "update_values ord p bc = Inr bc'"
    obtain f vs where p: "p = (f, vs)" by (cases p)
    obtain B c where bc: "bc = (B, c)" by (cases bc)
    define i where "i = fl_idx f"
    define new where "new = fold value_add (ord vs) (B ! i)"
    from step have i: "i < length B"
      and bc': "bc' = (B[i := new], if length (B ! i) < length new then insert f c else c)"
      by (auto simp: p bc update_values_def rbind_eq_Inr py_nth_int_iff py_update_int_iff new_def i_def)
    obtain zs where zs: "new = B ! i @ zs" "set zs \<inter> set (B ! i) = {}" using value_add_new new_def by blast
    have B: "grows A B" using I bc by simp
    have up: "grows B (B[i := new])" unfolding grows_def
    proof (intro conjI allI impI)
      show "\<exists>ys. B[i := new] ! k = B ! k @ ys" if "k < length B" for k
        using zs(1) that by (cases "k = i") auto
    qed simp
    have "\<exists>g. \<not> value_sets (B[i := new]) g \<subseteq> value_sets A g" if "length (B ! i) < length new"
    proof -
      from that zs obtain z where z: "z \<in> set zs" by (cases zs) auto
      have "z \<in> value_sets (B[i := new]) f" using z zs(1) i by (simp add: value_sets_def i_def)
      moreover have "z \<notin> value_sets A f"
        using z zs(2) i grows_sets [OF B, of f] by (auto simp: value_sets_def i_def)
      ultimately show ?thesis by blast
    qed
    moreover have "\<exists>g. \<not> value_sets (B[i := new]) g \<subseteq> value_sets A g" if "c \<noteq> {}"
      using that I bc grows_sets [OF up] by fastforce
    ultimately show "?I bc'" using bc' grows_trans [OF B up] by simp
  qed simp
  with assms(2) show ?thesis by auto
qed

text \<open>The layers up to the first one that holds the goals or is the last new one.\<close>

definition settles :: "ifenv \<Rightarrow> hmax \<Rightarrow> value_map \<Rightarrow> nat \<Rightarrow> bool" where
  "settles ifs H V d \<longleftrightarrow> goals_hold ifs H (layer ifs (hm_operators H) V d) \<or>
     layer ifs (hm_operators H) V (Suc d) = layer ifs (hm_operators H) V d"

definition news_inv ::
    "ifenv \<Rightarrow> (fluent \<Rightarrow> ty) \<Rightarrow> expression set \<Rightarrow> hmax \<Rightarrow> value_map \<Rightarrow> hmax_state \<Rightarrow> bool" where
  "news_inv ifs G K H V h \<longleftrightarrow> layers_inv ifs G K H V h \<and> (hs_depth h \<noteq> 0 \<longrightarrow> hs_changes h \<noteq> {} \<longrightarrow>
     layer ifs (hm_operators H) V (hs_depth h) \<noteq> layer ifs (hm_operators H) V (hs_depth h - 1))"

lemma news_step:
  assumes H: "hmax_ok ifs G K H" and ord: "\<And>vs. set (ord vs) = set vs" and inv: "news_inv ifs G K H V h"
    and run: "hmax_round ifs ord H h = Inr (Inr h')" and d: "settles ifs H V d"
  shows "news_inv ifs G K H V h' \<and> Suc d - hs_depth h' < Suc d - hs_depth h"
proof -
  let ?L = "layer ifs (hm_operators H) V"
  have L: "layers_inv ifs G K H V h" using inv by (simp add: news_inv_def)
  have L': "layers_inv ifs G K H V h'" using hmax_round_layers [OF H ord L run] by simp
  have vals: "value_sets (hs_values h) = ?L (hs_depth h)" "value_sets (hs_values h') = ?L (hs_depth h')"
    and before: "\<And>k. k < hs_depth h' \<Longrightarrow> \<not> goals_hold ifs H (?L k)"
    and key: "key_inv ifs (hm_num_fluents H) K h"
    using L L' by (auto simp: layers_inv_def round_inv_def)
  have changed: "hs_changes h \<noteq> {}" using run by (auto simp: hmax_round_def)
  from run obtain h1 h2 new A ch where
    test: "can_be_true ifs H (hm_goals H) h = Inr (False, h1)"
    and pass: "rfold (apply_operator ifs H) (indexed (hm_operators H)) (h1, []) = Inr (h2, new)"
    and upd: "rfold (update_values ord) new (hs_values h2, {}) = Inr (A, ch)"
    and h': "h' = h2\<lparr>hs_values := A, hs_changes := ch, hs_depth := hs_depth h2 + 1\<rparr>"
    by (cases rule: hmax_round_cases) auto
  have keys: "keys_ok (hm_num_fluents H) K H" "set (hm_goals H) \<subseteq> K" using H by (auto simp: hmax_ok_def)
  have h1: "key_inv ifs (hm_num_fluents H) K h1" "only_keys h h1" using can_be_true_exact [OF keys key test] by auto
  from L obtain B where B: "round_inv ifs G K H B h" by (auto simp: layers_inv_def)
  have same: "hs_values h2 = hs_values h" "hs_depth h2 = hs_depth h"
    using next_round [OF H ord round_inv_keys [OF B h1] pass upd] h1(2) by (simp_all add: only_keys_def)
  have depth: "hs_depth h' = Suc (hs_depth h)" using h' same by simp
  have "?L (hs_depth h') \<noteq> ?L (hs_depth h' - 1)" if "hs_changes h' \<noteq> {}"
    using update_values_changes [OF upd] that h' same vals depth by simp
  with L' have "news_inv ifs G K H V h'" by (simp add: news_inv_def)
  moreover have "hs_depth h \<le> d"
  proof (rule ccontr)
    assume late: "\<not> hs_depth h \<le> d"
    then have last: "?L (Suc d) = ?L d" using d before [of d] depth by (auto simp: settles_def)
    have "?L (hs_depth h) = ?L (hs_depth h - 1)"
      using layer_fixpoint [OF last, of "hs_depth h"] layer_fixpoint [OF last, of "hs_depth h - 1"] late by simp
    with inv changed late show False by (simp add: news_inv_def)
  qed
  ultimately show ?thesis using depth by simp
qed


text \<open>The evaluation that starts at values \<open>A\<close>.\<close>

lemma hmax_eval_core_returns:
  assumes H: "hmax_ok ifs G K H" and ord: "\<And>vs. set (ord vs) = set vs" and ifs: "ifs_return ifs"
    and init: "initial_values H s = Inr A" "values_ok G (hm_num_fluents H) A"
    and d: "settles ifs H (value_sets A) d"
  shows "errs ordinary (hmax_eval_core ifs ord H s)"
proof -
  let ?h = "\<lparr>hs_values = A, hs_can = [], hs_sizes = [], hs_effect_sizes = [],
     hs_applied = replicate (length (hm_operators H)) False,
     hs_scratch = replicate (hm_num_fluents H) (CBool False),
     hs_changes = Fluent ` {..<hm_num_fluents H}, hs_depth = 0\<rparr>"
  have "news_inv ifs G K H (value_sets A) ?h"
    using start_round_inv [OF H, of A] init(2) H
    by (auto simp: news_inv_def layers_inv_def hmax_ok_def values_ok_def)
  then have "errs ordinary (run_rounds (hmax_round ifs ord H) ?h)"
    by (rule run_rounds_errs [where m = "\<lambda>h. Suc d - hs_depth h"])
      (use errs_hmax_round [OF ifs] news_step [OF H ord _ _ d] in auto)
  with init(1) show ?thesis by (simp add: hmax_eval_core_def)
qed


section \<open>Boolean problems\<close>

definition layer_pairs :: "value_map \<Rightarrow> (fluent \<times> const) set" where
  "layer_pairs V = {(f, v). v \<in> V f}"

text \<open>A chain of layers in a finite set of values settles.\<close>

lemma finite_layers_settle:
  assumes "finite U" "\<And>k. layer_pairs (layer ifs (hm_operators H) V k) \<subseteq> U"
  shows "\<exists>d. settles ifs H V d"
proof (rule ccontr)
  let ?S = "\<lambda>k. layer_pairs (layer ifs (hm_operators H) V k)"
  assume "\<nexists>d. settles ifs H V d"
  then have new: "layer ifs (hm_operators H) V (Suc k) \<noteq> layer ifs (hm_operators H) V k" for k
    by (auto simp: settles_def)
  have "?S k \<noteq> ?S (Suc k)" for k
  proof
    assume "?S k = ?S (Suc k)"
    then have "layer ifs (hm_operators H) V (Suc k) f = layer ifs (hm_operators H) V k f" for f
      unfolding layer_pairs_def set_eq_iff by fastforce
    with new show False by blast
  qed
  moreover have "?S k \<subseteq> ?S (Suc k)" for k
    using layer_grows [of k "Suc k"] by (fastforce simp: layer_pairs_def)
  ultimately have "?S k \<subset> ?S (Suc k)" for k by blast
  then have step: "card (?S k) < card (?S (Suc k))" for k
    using assms by (meson finite_subset psubset_card_mono)
  have "k \<le> card (?S k)" for k
    by (induction k) (use step in \<open>auto simp: less_Suc_eq_le [symmetric] intro: le_less_trans\<close>)
  moreover have "card (?S k) \<le> card U" for k using assms by (intro card_mono)
  ultimately show False using not_less_eq_eq le_trans by blast
qed

lemma layer_typed:
  assumes "hmax_ok ifs G K H" "values_ok G (hm_num_fluents H) A" "v \<in> layer ifs (hm_operators H) (value_sets A) k f"
  shows "fl_idx f < hm_num_fluents H \<and> const_ty v = Some (G f)"
  using assms(3)
proof (induction k arbitrary: f v)
  case 0
  with assms(2) show ?case by (auto simp: values_ok_def typed_lists_def value_sets_def split: if_splits)
next
  case (Suc k)
  let ?L = "layer ifs (hm_operators H) (value_sets A) k"
  show ?case
  proof (cases "v \<in> ?L f")
    case False
    with Suc.prems obtain op ev where op: "op \<in> set (hm_operators H)" "(f, ev) \<in> set (ho_effects op)" "v \<in> effect_values ifs ?L ev"
      by (auto simp: relaxed_step_def)
    then have "effect_ok ifs G (hm_num_fluents H) (f, ev)" using assms(1) by (auto simp: hmax_ok_def op_ok_def)
    then have "fl_idx f < hm_num_fluents H" "value_typed ifs G f ev" by (simp_all add: effect_ok_def)
    with op(3) Suc.IH show ?thesis unfolding value_typed_def by blast
  qed (rule Suc.IH)
qed

lemma boolean_settles:
  assumes "hmax_ok ifs G K H" "values_ok G (hm_num_fluents H) A" "\<And>i. i < hm_num_fluents H \<Longrightarrow> G (Fluent i) = TyBool"
  shows "\<exists>d. settles ifs H (value_sets A) d"
proof (rule finite_layers_settle)
  let ?U = "(Fluent ` {..<hm_num_fluents H}) \<times> range CBool"
  show "finite ?U" by simp
  have "f \<in> Fluent ` {..<hm_num_fluents H}" "v \<in> range CBool"
    if "v \<in> layer ifs (hm_operators H) (value_sets A) k f" for f v k
  proof -
    from layer_typed [OF assms(1,2) that] assms(3) [of "fl_idx f"]
    have f: "fl_idx f < hm_num_fluents H" and v: "const_ty v = Some TyBool" by auto
    have "f = Fluent (fl_idx f)" by simp
    with f show "f \<in> Fluent ` {..<hm_num_fluents H}" by blast
    from v show "v \<in> range CBool" by (cases v) (auto split: if_splits)
  qed
  then show "layer_pairs (layer ifs (hm_operators H) (value_sets A) k) \<subseteq> ?U" for k
    by (auto simp: layer_pairs_def)
qed

end
