(* ===== verification/HMax_Admissible.thy ===== *)
theory HMax_Admissible
  imports HMax_Returns
begin

text \<open>
  The value of \<open>HMaxExplicit\<close> is a lower bound: a state that some sequence of events reaches lies
  in the layer of their number, so a goal state at the end of \<open>k\<close> events makes the goals hold in a
  layer not above \<open>k\<close>.
\<close>

section \<open>True conditions\<close>

definition true_in :: "ifenv \<Rightarrow> const list \<Rightarrow> expression \<Rightarrow> bool" where
  "true_in ifs asg e \<longleftrightarrow> evaluate ifs e asg = Inr (CBool True)"

lemma evaluate_const [simp]: "evaluate ifs [NConst c] asg = Inr c"
  by (simp add: evaluate_def py_last_eq)

lemma truthy_bool: "const_ty v = Some TyBool \<Longrightarrow> truthy v \<Longrightarrow> v = CBool True"
  by (cases v) (auto split: if_splits)

lemma holds_true:
  assumes "condition_typed G n e" "typed_values G n asg" "holds ifs asg e = Inr True"
  shows "true_in ifs asg e"
proof -
  from assms(1) obtain t where t: "e = flatten t" "tree_ty G t = Some TyBool" "\<forall>f \<in> set (tree_fluents t). fl_idx f < n"
    by (auto simp: condition_typed_def)
  from assms(3) obtain v where v: "evaluate ifs e asg = Inr v" "truthy v" by (auto simp: holds_def rbind_eq_Inr)
  with evaluate_typed [OF assms(2) t(2,3), of ifs] t(1) have "const_ty v = Some TyBool" by simp
  with v show ?thesis by (simp add: true_in_def truthy_bool)
qed

lemma split_true:
  assumes "condition_typed G n e" "typed_values G n asg" "true_in ifs asg e" "split_expression e = Inr cs" "c \<in> set cs"
  shows "true_in ifs asg c"
  using assms(1,4)
proof (rule split_conjuncts)
  fix ts assume ts: "cs = map flatten ts" and ty: "\<forall>t \<in> set ts. tree_ty G t = Some TyBool \<and> (\<forall>f \<in> set (tree_fluents t). fl_idx f < n)"
    and e: "e = flatten (TOp ''and'' ts) \<or> (\<exists>t. ts = [t] \<and> e = flatten t)"
  from assms(5) ts obtain t where t: "t \<in> set ts" "c = flatten t" by auto
  have wf: "wf_tree u" if "u \<in> set ts" for u using ty that tree_ty_wf by blast
  from e show ?thesis
  proof
    assume "e = flatten (TOp ''and'' ts)"
    moreover have "wf_tree (TOp ''and'' ts)" using wf by (simp add: list_all_iff op_kinds_def)
    ultimately have "teval ifs asg (TOp ''and'' ts) = Inr (CBool True)"
      using assms(3) by (simp add: true_in_def evaluate_flatten)
    then obtain vs where vs: "rmap (teval ifs asg) ts = Inr vs" "list_all truthy vs"
      by (auto simp: rbind_eq_Inr op_apply_def)
    from t(1) obtain i where i: "i < length ts" "ts ! i = t" by (auto simp: in_set_conv_nth)
    with vs have "teval ifs asg t = Inr (vs ! i)" "truthy (vs ! i)" by (auto simp: rmap_Inr_iff list_all_length)
    then have "holds ifs asg c = Inr True" using t wf by (simp add: holds_def evaluate_flatten)
    moreover have "condition_typed G n c" using t ty by (auto simp: condition_typed_def)
    ultimately show ?thesis using holds_true assms(2) by blast
  qed (use assms(3) t in auto)
qed

text \<open>And a condition whose conjuncts are true holds.\<close>

lemma split_holds:
  assumes "condition_typed G n e" "split_expression e = Inr cs" "\<forall>c \<in> set cs. true_in ifs asg c"
  shows "holds ifs asg e = Inr True"
  using assms(1,2)
proof (rule split_conjuncts)
  fix ts assume ts: "cs = map flatten ts" and ty: "\<forall>t \<in> set ts. tree_ty G t = Some TyBool \<and> (\<forall>f \<in> set (tree_fluents t). fl_idx f < n)"
    and e: "e = flatten (TOp ''and'' ts) \<or> (\<exists>t. ts = [t] \<and> e = flatten t)"
  have wf: "wf_tree u" if "u \<in> set ts" for u using ty that tree_ty_wf by blast
  have val: "teval ifs asg u = Inr (CBool True)" if "u \<in> set ts" for u
    using assms(3) ts that wf by (auto simp: true_in_def evaluate_flatten)
  from e show ?thesis
  proof
    assume e: "e = flatten (TOp ''and'' ts)"
    moreover have "wf_tree (TOp ''and'' ts)" using wf by (simp add: list_all_iff op_kinds_def)
    moreover have "rmap (teval ifs asg) ts = Inr (replicate (length ts) (CBool True))"
      using val by (simp add: rmap_Inr_iff)
    ultimately show ?thesis by (simp add: holds_def evaluate_flatten op_apply_def list_all_length)
  qed (use val wf ts in \<open>auto simp: holds_def evaluate_flatten\<close>)
qed

text \<open>A list that holds a condition comparing equal to \<open>false\<close> has one that is not true.\<close>

lemma false_condition:
  assumes "list_ex (exp_eq [NConst (CBool False)]) cs"
  shows "\<exists>v. [NConst v] \<in> set cs \<and> \<not> true_in ifs asg [NConst v]"
proof -
  from assms obtain c where c: "c \<in> set cs" "exp_eq [NConst (CBool False)] c" by (auto simp: list_ex_iff)
  then obtain k where k: "c = [k]" "node_eq (NConst (CBool False)) k"
    by (auto simp: exp_eq_def list_all2_Cons1)
  then obtain v where v: "c = [NConst v]" "py_eq (CBool False) v" by (cases k) auto
  then have "\<not> true_in ifs asg c" by (cases v) (auto simp: true_in_def py_eq_def)
  with c(1) v(1) show ?thesis by blast
qed


section \<open>The operator of an event\<close>

text \<open>What the constructor makes of the events of \<open>a\<close>, when their progress fluents start at \<open>m\<close>.\<close>

definition progress_before :: "nat \<Rightarrow> nat \<Rightarrow> nat \<Rightarrow> fluent" where
  "progress_before m len i = Fluent (if i = 0 then m + len - 1 else m + i - 1)"

definition has_operator ::
    "action option \<Rightarrow> hmax_op list \<Rightarrow> action \<Rightarrow> nat \<Rightarrow> timed_event list \<Rightarrow> nat \<Rightarrow> bool" where
  "has_operator timed ops a m le i \<longleftrightarrow> (\<exists>cs. event_conditions (progress_before m (length le) i) (snd (le ! i)) = Inr cs \<and>
     (list_ex (exp_eq [NConst (CBool False)]) cs \<or> (i = 0 \<and> timed = Some a) \<or>
      event_operator a (Fluent (m + i)) (snd (le ! i)) cs \<in> set ops))"

lemma action_operators_mono:
  "action_operators timed a i cond f le ops = Inr ops' \<Longrightarrow> set ops \<subseteq> set ops'"
proof (induction timed a i cond f le ops rule: action_operators.induct)
  case (2 timed a i cond f t e le ops)
  from 2(2) obtain cs where "event_conditions cond e = Inr cs"
    "action_operators timed a (i + 1) (Fluent f) (f + 1) le
       (if \<not> list_ex (exp_eq [NConst (CBool False)]) cs \<and> \<not> (i = 0 \<and> timed = Some a)
        then ops @ [event_operator a (Fluent f) e cs] else ops) = Inr ops'" by (auto simp: rbind_eq_Inr)
  from 2(1) [OF this] show ?case by (auto split: if_splits)
qed simp

lemma action_operators_has:
  assumes "action_operators timed a i cond f le ops = Inr ops'" "j < length le"
  shows "\<exists>cs. event_conditions (if j = 0 then cond else Fluent (f + j - 1)) (snd (le ! j)) = Inr cs \<and>
    (list_ex (exp_eq [NConst (CBool False)]) cs \<or> (i + j = 0 \<and> timed = Some a) \<or>
     event_operator a (Fluent (f + j)) (snd (le ! j)) cs \<in> set ops')"
  using assms
proof (induction le arbitrary: i cond f ops j)
  case (Cons p le)
  obtain t e where p: "p = (t, e)" by (cases p) auto
  from Cons.prems(1) p obtain cs where cs: "event_conditions cond e = Inr cs"
    and rest: "action_operators timed a (i + 1) (Fluent f) (f + 1) le
       (if \<not> list_ex (exp_eq [NConst (CBool False)]) cs \<and> \<not> (i = 0 \<and> timed = Some a)
        then ops @ [event_operator a (Fluent f) e cs] else ops) = Inr ops'"
    by (auto simp: rbind_eq_Inr)
  show ?case
  proof (cases j)
    case 0
    with cs p action_operators_mono [OF rest] show ?thesis by (auto split: if_splits)
  next
    case (Suc k)
    with Cons.IH [OF rest, of k] Cons.prems(2) show ?thesis by (cases k) auto
  qed
qed simp

lemma hmax_operators_mono:
  "hmax_operators timed evs n ops extra = Inr (ops', extra', n') \<Longrightarrow>
     set ops \<subseteq> set ops' \<and> (\<forall>a. a \<notin> fst ` set evs \<longrightarrow> dict_get extra' a = dict_get extra a)"
proof (induction evs arbitrary: n ops extra)
  case (Cons p evs)
  obtain a le where p: "p = (a, le)" by (cases p) auto
  from Cons.prems p obtain ops1 where
    a: "action_operators timed a 0 (Fluent (n + length le - 1)) n le ops = Inr ops1"
    and rest: "hmax_operators timed evs (n + length le) ops1 (dict_set a (map Fluent [n..<n + length le]) extra) = Inr (ops', extra', n')"
    by (auto simp: rbind_eq_Inr)
  from Cons.IH [OF rest] action_operators_mono [OF a] p show ?case by (auto simp: update_conv')
qed simp

lemma has_operator_mono: "has_operator timed ops a m le i \<Longrightarrow> set ops \<subseteq> set ops' \<Longrightarrow> has_operator timed ops' a m le i"
  by (auto simp: has_operator_def)

lemma hmax_operators_has:
  assumes "hmax_operators timed evs n ops extra = Inr (ops', extra', n')" "dict_wf evs" "(a, le) \<in> set evs"
  shows "\<exists>m. dict_get extra' a = Some (map Fluent [m..<m + length le]) \<and> (\<forall>i < length le. has_operator timed ops' a m le i)"
  using assms
proof (induction evs arbitrary: n ops extra)
  case (Cons p evs)
  obtain b be where p: "p = (b, be)" by (cases p) auto
  from Cons.prems(1) p obtain ops1 where
    b: "action_operators timed b 0 (Fluent (n + length be - 1)) n be ops = Inr ops1"
    and rest: "hmax_operators timed evs (n + length be) ops1 (dict_set b (map Fluent [n..<n + length be]) extra) = Inr (ops', extra', n')"
    by (auto simp: rbind_eq_Inr)
  have wf: "dict_wf evs" "b \<notin> fst ` set evs" using Cons.prems(2) p by (auto simp: dict_wf_def)
  show ?case
  proof (cases "(a, le) = (b, be)")
    case True
    have "has_operator timed ops1 a n le i" if "i < length le" for i
      using action_operators_has [OF b, of i] that True by (auto simp: has_operator_def progress_before_def)
    moreover have "dict_get extra' b = Some (map Fluent [n..<n + length be])"
      using hmax_operators_mono [OF rest] wf(2) by (simp add: update_conv')
    moreover have "set ops1 \<subseteq> set ops'" using hmax_operators_mono [OF rest] by blast
    ultimately show ?thesis using True has_operator_mono [of timed ops1] by (intro exI [of _ n]) blast
  qed (use Cons.IH [OF rest wf(1)] Cons.prems(3) p in auto)
qed simp


section \<open>One event\<close>

definition values_in :: "value_map \<Rightarrow> const list \<Rightarrow> bool" where
  "values_in V asg \<longleftrightarrow> (\<forall>i < length asg. asg ! i \<in> V (Fluent i))"

lemma values_picks: "values_in V asg \<Longrightarrow> in_bounds (length asg) e \<Longrightarrow> picks V (get_fluents e) asg"
proof -
  assume *: "values_in V asg" "in_bounds (length asg) e"
  have "asg ! fl_idx f \<in> V f" if "fl_idx f < length asg" for f
    using * that by (cases f) (auto simp: values_in_def)
  with *(2) show ?thesis by (auto simp: picks_def in_bounds_def)
qed

lemma true_can_hold: "values_in V asg \<Longrightarrow> in_bounds (length asg) e \<Longrightarrow> true_in ifs asg e \<Longrightarrow> can_hold ifs V e"
  using values_picks by (auto simp: can_hold_def true_in_def)

lemma evaluate_fluent: "evaluate ifs [NFluent f] asg = py_nth asg (int (fl_idx f))"
  by (cases "py_nth asg (int (fl_idx f))") (auto simp: evaluate_def py_last_eq)

lemma progress_can_hold:
  assumes "CBool True \<in> V f"
  shows "can_hold ifs V [NFluent f]"
proof -
  have "py_nth (replicate (Suc (fl_idx f)) (CBool True)) (int (fl_idx f)) = Inr (CBool True)"
    by (simp add: py_nth_int_iff del: replicate_Suc)
  with assms show ?thesis unfolding can_hold_def picks_def
    by (intro exI [of _ "replicate (Suc (fl_idx f)) (CBool True)"]) (auto simp: evaluate_fluent)
qed

lemma effect_in_layer:
  assumes "values_in V asg" "typed_effect G (length asg) eff" "evaluate ifs (eff_value eff) asg = Inr v"
  shows "v \<in> effect_values ifs V (snd (effect_entry eff))"
proof (cases "\<exists>c. eff_value eff = [NConst c]")
  case True
  with assms(3) show ?thesis by (auto simp: effect_entry_def)
next
  case False
  then have "effect_entry eff = (eff_fluent eff, EExp (eff_value eff))"
    by (auto simp: effect_entry_def split: list.split node.split)
  moreover have "in_bounds (length asg) (eff_value eff)"
    using assms(2) by (auto simp: typed_effect_def in_bounds_def flatten_def get_fluents_flat)
  ultimately show ?thesis using values_picks [OF assms(1)] assms(3) by auto
qed

lemma event_applicable:
  assumes "event_conditions f e = Inr cs" "typed_event G (length asg) e" "typed_values G (length asg) asg"
    and "values_in V asg" "CBool True \<in> V f" "\<forall>c \<in> set (ev_conditions e # ev_end_conditions e). true_in ifs asg c"
  shows "(\<forall>c \<in> set cs. can_hold ifs V c) \<and> \<not> list_ex (exp_eq [NConst (CBool False)]) cs"
proof
  have parts: "condition_typed G (length asg) p \<and> true_in ifs asg p" if "event_part e p" for p
    using that event_part_typed [OF assms(2) that] split_true [OF _ assms(3), of "ev_conditions e"] assms(2,6)
    by (auto simp: event_part_def typed_event_def)
  have true: "condition_typed G (length asg) c \<and> true_in ifs asg c" if "c \<in> set cs" "c \<noteq> [NFluent f]" for c
  proof -
    from event_conditionsD [OF assms(1)] that obtain p xs where
      p: "event_part e p" "split_expression p = Inr xs" "c \<in> set xs" by blast
    with parts [OF p(1)] show ?thesis using split_typed split_true [OF _ assms(3)] by blast
  qed
  show "\<forall>c \<in> set cs. can_hold ifs V c"
    using true true_can_hold [OF assms(4)] condition_bounds progress_can_hold assms(5) by metis
  show "\<not> list_ex (exp_eq [NConst (CBool False)]) cs"
  proof
    assume "list_ex (exp_eq [NConst (CBool False)]) cs"
    from false_condition [OF this, of ifs asg] true show False by blast
  qed
qed

lemma event_step:
  assumes has: "has_operator timed ops a m le i" and e: "e = snd (le ! i)" and starts: "\<not> (i = 0 \<and> timed = Some a)"
    and typed: "typed_event G (length asg) e" "typed_values G (length asg) asg"
    and V: "values_in V asg" "CBool True \<in> V (progress_before m (length le) i)"
    and true: "\<forall>c \<in> set (ev_conditions e # ev_end_conditions e). true_in ifs asg c"
    and eff: "rfold (apply_effect ifs asg) (ev_effects e) asg = Inr asg'"
  shows "values_in (relaxed_step ifs ops V) asg' \<and> CBool True \<in> relaxed_step ifs ops V (Fluent (m + i))"
proof -
  let ?W = "relaxed_step ifs ops V"
  from has e obtain cs where cs: "event_conditions (progress_before m (length le) i) e = Inr cs"
    and op: "list_ex (exp_eq [NConst (CBool False)]) cs \<or> (i = 0 \<and> timed = Some a) \<or>
      event_operator a (Fluent (m + i)) e cs \<in> set ops" by (auto simp: has_operator_def)
  define op where "op = event_operator a (Fluent (m + i)) e cs"
  note can = event_applicable [OF cs typed V true]
  have mem: "op \<in> set ops" using can op starts by (auto simp: op_def)
  have appl: "applicable ifs V op" using can by (simp add: applicable_def op_def event_operator_def)
  have effs: "ho_effects op = (Fluent (m + i), EConst (CBool True)) # map effect_entry (ev_effects e)"
    by (simp add: op_def event_operator_def)
  have into: "v \<in> ?W f" if "(f, ev) \<in> set (ho_effects op)" "v \<in> effect_values ifs V ev" for f ev v
    using that mem appl by (auto simp: relaxed_step_def)
  have "values_in ?W asg' \<and> length asg' = length asg"
    using eff
  proof (rule rfold_invariant [where I = "\<lambda>x. values_in ?W x \<and> length x = length asg"])
    show "values_in ?W asg \<and> length asg = length asg"
      using V(1) relaxed_step_grows unfolding values_in_def by (metis subsetD)
    fix d x y assume d: "d \<in> set (ev_effects e)" and x: "values_in ?W x \<and> length x = length asg"
      and step: "apply_effect ifs asg d x = Inr y"
    from step obtain v where v: "evaluate ifs (eff_value d) asg = Inr v" "y = x[fl_idx (eff_fluent d) := v]"
      by (auto simp: apply_effect_def rbind_eq_Inr py_update_int_iff)
    have "typed_effect G (length asg) d" using typed(1) d by (simp add: typed_event_def)
    from effect_in_layer [OF V(1) this v(1)] have written: "v \<in> ?W (eff_fluent d)"
      using d effs by (intro into [of _ "snd (effect_entry d)"]) (auto simp: effect_entry_def)
    have "y ! k \<in> ?W (Fluent k)" if "k < length asg" for k
      using x v(2) that written by (cases "k = fl_idx (eff_fluent d)") (auto simp: values_in_def)
    then show "values_in ?W y \<and> length y = length asg" using x v(2) by (simp add: values_in_def)
  qed
  moreover have "CBool True \<in> ?W (Fluent (m + i))"
    using into [of "Fluent (m + i)" "EConst (CBool True)"] effs by simp
  ultimately show ?thesis by simp
qed


section \<open>The heuristic of a search space\<close>

definition hmax_for :: "(fluent \<Rightarrow> ty) \<Rightarrow> nat \<Rightarrow> sspace \<Rightarrow> expression \<Rightarrow> hmax \<Rightarrow> bool" where
  "hmax_for G num sp goal H \<longleftrightarrow> mk_hmax num (sp_events sp) goal (sp_timed sp) = Inr H \<and>
     typed_problem G num (sp_events sp) goal \<and> keys_apart (set (hmax_keys H)) \<and> dict_wf (sp_events sp)"

lemma hmax_for_ok:
  assumes "hmax_for G num sp goal H"
  shows "hmax_ok ifs G (set (hmax_keys H)) H" "extra_in num (hm_num_fluents H) (hm_extra_fluents H)"
    "num \<le> hm_num_fluents H" "hm_events H = sp_events sp" "\<And>i. num \<le> i \<Longrightarrow> G (Fluent i) = TyBool"
  using mk_hmax_ok [of num "sp_events sp" goal "sp_timed sp" H G ifs] assms
  by (auto simp: hmax_for_def typed_problem_def mk_hmax_def rbind_eq_Inr)

lemma hmax_for_events:
  assumes "hmax_for G num sp goal H"
  shows "dict_get (sp_events sp) a = Some le \<Longrightarrow> \<exists>m. dict_get (hm_extra_fluents H) a = Some (map Fluent [m..<m + length le]) \<and>
      (\<forall>i < length le. has_operator (sp_timed sp) (hm_operators H) a m le i)"
    and "dict_get (hm_extra_fluents H) a = Some fs \<Longrightarrow> \<exists>le. dict_get (sp_events sp) a = Some le"
proof -
  from assms obtain n' where ops: "hmax_operators (sp_timed sp) (sp_events sp) num [] [] = Inr (hm_operators H, hm_extra_fluents H, n')"
    and wf: "dict_wf (sp_events sp)" by (auto simp: hmax_for_def mk_hmax_def rbind_eq_Inr)
  show "\<exists>m. dict_get (hm_extra_fluents H) a = Some (map Fluent [m..<m + length le]) \<and>
      (\<forall>i < length le. has_operator (sp_timed sp) (hm_operators H) a m le i)" if "dict_get (sp_events sp) a = Some le"
    using hmax_operators_has [OF ops wf] that by (blast dest: map_of_SomeD)
  show "\<exists>le. dict_get (sp_events sp) a = Some le" if "dict_get (hm_extra_fluents H) a = Some fs"
    using hmax_operators_mono [OF ops] that map_of_eq_None_iff [of "sp_events sp" a]
    by (cases "dict_get (sp_events sp) a") auto
qed

text \<open>How far each action has come is among the reached values of its progress fluents.\<close>

definition progress_in :: "hmax \<Rightarrow> value_map \<Rightarrow> (action, nat \<times> nat) dict \<Rightarrow> bool" where
  "progress_in H V todo \<longleftrightarrow> (\<forall>a fs. dict_get (hm_extra_fluents H) a = Some fs \<longrightarrow> (case dict_get todo a of
     None \<Rightarrow> fs \<noteq> [] \<longrightarrow> CBool True \<in> V (last fs)
   | Some (j, _) \<Rightarrow> 0 < j \<and> j < length fs \<and> CBool True \<in> V (fs ! (j - 1))))"

definition embeds :: "hmax \<Rightarrow> value_map \<Rightarrow> 'n state \<Rightarrow> bool" where
  "embeds H V s \<longleftrightarrow> values_in V (st_assignments s) \<and> progress_in H V (st_todo s)"

lemma progress_inD:
  "progress_in H V todo \<Longrightarrow> dict_get (hm_extra_fluents H) a = Some fs \<Longrightarrow> (case dict_get todo a of
     None \<Rightarrow> fs \<noteq> [] \<longrightarrow> CBool True \<in> V (last fs)
   | Some (j, _) \<Rightarrow> 0 < j \<and> j < length fs \<and> CBool True \<in> V (fs ! (j - 1)))"
  unfolding progress_in_def by blast

lemma progress_in_mono: "progress_in H V todo \<Longrightarrow> (\<And>f. V f \<subseteq> W f) \<Longrightarrow> progress_in H W todo"
  unfolding progress_in_def by (fastforce split: option.splits)

lemma goal_in_layer:
  assumes H: "hmax_for G num sp goal H" and typed: "typed_values G num (st_assignments s)" and V: "embeds H V s"
    and goal: "the_goal sp g = Inr goal" "goal_reached ifs sp s g = Inr True"
  shows "goals_hold ifs H V"
  unfolding goals_hold_def
proof
  fix e assume e: "e \<in> set (hm_goals H)"
  from H obtain gs xs where goals: "hm_goals H = gs @ xs" "split_expression goal = Inr gs"
    "extra_goals (hm_extra_fluents H) = Inr xs" and ty: "condition_typed G num goal"
    by (auto simp: hmax_for_def typed_problem_def mk_hmax_def rbind_eq_Inr)
  from goal obtain v where todo: "st_todo s = []" and v: "evaluate ifs goal (st_assignments s) = Inr v"
    "(case v of CBool b \<Rightarrow> Inr b | _ \<Rightarrow> Inl AssertErr) = Inr True"
    by (auto simp: goal_reached_def rbind_eq_Inr split: if_splits)
  then have true: "true_in ifs (st_assignments s) goal" by (cases v) (auto simp: true_in_def)
  have V': "values_in V (st_assignments s)" "progress_in H V (st_todo s)" and len: "length (st_assignments s) = num"
    using V typed by (simp_all add: embeds_def typed_values_def)
  show "can_hold ifs V e"
  proof (cases "e \<in> set gs")
    case True
    with split_typed [OF ty goals(2)] split_true [OF ty typed true goals(2)] show ?thesis
      using true_can_hold [OF V'(1)] condition_bounds len by blast
  next
    case False
    with e goals(1) have "e \<in> set xs" by simp
    from extra_goals_in [OF goals(3) this hmax_for_ok(2) [OF H]] obtain a fs where
      "dict_get (hm_extra_fluents H) a = Some fs" "fs \<noteq> []" "e = [NFluent (last fs)]" by blast
    with V'(2) todo show ?thesis by (auto simp: progress_in_def intro: progress_can_hold)
  qed
qed


section \<open>The successors of a state\<close>

lemma removed_present:
  "ms_wf m \<Longrightarrow> rfold ms_remove es m = Inr m' \<Longrightarrow> set es \<subseteq> set (ms_iter m)"
proof (induction es arbitrary: m)
  case (Cons e es)
  from Cons.prems(2) obtain m1 where m1: "ms_remove e m = Inr m1" "rfold ms_remove es m1 = Inr m'"
    by (auto simp: rbind_eq_Inr)
  have "e \<in># ms_abs m" using active_conditions.remove_Inr_iff [OF Cons.prems(1), of e] m1(1) by blast
  moreover have "set es \<subseteq> set (ms_iter m1)"
    using Cons.IH [OF _ m1(2)] active_conditions.remove_InrD(2) [OF Cons.prems(1) m1(1)] by blast
  moreover have "set (ms_iter m1) \<subseteq> set (ms_iter m)"
    using active_conditions.members_abs [OF Cons.prems(1)] active_conditions.remove_InrD [OF Cons.prems(1) m1(1)]
      active_conditions.members_abs [of m1] by (auto dest: in_diffD)
  ultimately show ?case using active_conditions.members_abs Cons.prems(1) by auto
qed simp

lemma fires_layer:
  assumes H: "hmax_for G num sp goal H" and f: "fires T ifs sp s new a i eid pend s'"
    and le: "dict_get (sp_events sp) a = Some le" and m: "has_operator (sp_timed sp) (hm_operators H) a m le i"
    and cond: "holds ifs (st_assignments s) (ev_conditions (snd (le ! i))) = Inr True"
    and s: "actives_hold ifs s" "typed_values G num (st_assignments s)" "values_in V (st_assignments s)"
    and here: "CBool True \<in> V (progress_before m (length le) i)" "\<not> (i = 0 \<and> sp_timed sp = Some a)"
  shows "values_in (relaxed_step ifs (hm_operators H) V) (st_assignments s') \<and>
    CBool True \<in> relaxed_step ifs (hm_operators H) V (Fluent (m + i)) \<and> st_todo s' = st_todo new \<and> st_g s' = st_g new"
proof -
  let ?e = "snd (le ! i)"
  from f le have len: "i < length le" and new: "st_active new = st_active s" "st_assignments new = st_assignments s"
    and ex: "expand_event T ifs sp s new ?e i eid pend = Inr (Some s')" by (auto elim: firesE)
  have "(a, le) \<in> set (sp_events sp)" using le by (rule map_of_SomeD)
  moreover have "le ! i \<in> set le" using len by simp
  ultimately have e: "typed_event G num ?e" using H unfolding hmax_for_def typed_problem_def by blast
  have n: "length (st_assignments s) = num" using s(2) by (simp add: typed_values_def)
  from ex obtain act asg where rem: "rfold ms_remove (ev_end_conditions ?e) (st_active s) = Inr act"
    and eff: "rfold (apply_effect ifs (st_assignments s)) (ev_effects ?e) (st_assignments s) = Inr asg"
    and s': "st_assignments s' = asg" "st_todo s' = st_todo new" "st_g s' = st_g new"
    by (rule expand_event_SomeD) (use new in auto)
  have "holds ifs (st_assignments s) c = Inr True" if "c \<in> set (ev_end_conditions ?e)" for c
    using removed_present [OF _ rem] s(1) that by (auto simp: actives_hold_def)
  with cond have "\<forall>c \<in> set (ev_conditions ?e # ev_end_conditions ?e). true_in ifs (st_assignments s) c"
    using holds_true [OF _ s(2)] e by (auto simp: typed_event_def)
  from event_step [OF m refl here(2) _ _ s(3) here(1) this eff] e s(2) s' n show ?thesis by simp
qed


text \<open>
  The conditions the first \<open>i\<close> events of an action have opened and not closed, which every
  state between these events and the next satisfies.
\<close>

definition opened_before :: "timed_event list \<Rightarrow> nat \<Rightarrow> expression set" where
  "opened_before le i = (\<Union>j \<in> {..<i}. set (ev_start_conditions (snd (le ! j)))) -
     (\<Union>j \<in> {..<i}. set (ev_end_conditions (snd (le ! j))))"

lemma opened_before_0 [simp]: "opened_before le 0 = {}"
  by (simp add: opened_before_def)

lemma opened_before_Suc:
  "opened_before le (Suc i) \<subseteq> set (ev_start_conditions (snd (le ! i))) \<union>
     (opened_before le i - set (ev_end_conditions (snd (le ! i))))"
  by (auto simp: opened_before_def lessThan_Suc)

lemma fires_opened:
  assumes f: "fires T ifs sp s new a i eid pend s'" and le: "dict_get (sp_events sp) a = Some le"
    and s: "ms_wf (st_active s)" "opened_before le i \<subseteq> set (ms_iter (st_active s))"
  shows "opened_before le (Suc i) \<subseteq> set (ms_iter (st_active s'))"
proof
  fix x assume x: "x \<in> opened_before le (Suc i)"
  let ?e = "snd (le ! i)"
  from f le have new: "st_active new = st_active s"
    and ex: "expand_event T ifs sp s new ?e i eid pend = Inr (Some s')" by (auto elim: firesE)
  from ex obtain act0 where rem: "rfold ms_remove (ev_end_conditions ?e) (st_active s) = Inr act0"
    and act: "st_active s' = fold ms_add (ev_start_conditions ?e) act0"
    by (rule expand_event_SomeD) (use new in auto)
  have act0: "ms_wf act0" "ms_abs act0 = ms_abs (st_active s) - mset (ev_end_conditions ?e)"
    using active_conditions.remove_all [OF s(1) rem] by auto
  have act': "ms_wf (st_active s')" "ms_abs (st_active s') = ms_abs act0 + mset (ev_start_conditions ?e)"
    using active_conditions.add_all [OF act0(1)] act by auto
  from x opened_before_Suc [of le i] consider "x \<in> set (ev_start_conditions ?e)"
    | "x \<in> opened_before le i" "x \<notin> set (ev_end_conditions ?e)" by blast
  then have "x \<in># ms_abs (st_active s')"
  proof cases
    case 2
    then have "x \<in># ms_abs (st_active s)" using s active_conditions.members_abs [OF s(1)] by auto
    moreover have "count (mset (ev_end_conditions ?e)) x = 0" using 2(2) by (simp add: count_eq_zero_iff)
    ultimately show ?thesis by (simp only: act' act0 union_iff in_diff_count count_greater_zero_iff simp_thms)
  qed (simp add: act')
  then show "x \<in> set (ms_iter (st_active s'))" using active_conditions.members_abs [OF act'(1)] by auto
qed

text \<open>
  What the encoder guarantees of an action it lists as safe to compress: the conditions of a later
  event follow from those its earlier events have opened (the conditions of the end are
  contained in those over all of the duration, and there are none in between).
\<close>

definition compress_ok :: "ifenv \<Rightarrow> (fluent \<Rightarrow> ty) \<Rightarrow> nat \<Rightarrow> sspace \<Rightarrow> bool" where
  "compress_ok ifs G num sp \<longleftrightarrow> (\<forall>safe a evs i asg. sp_comp_safe sp = Some safe \<longrightarrow> act_idx a < length safe \<longrightarrow>
     safe ! act_idx a \<longrightarrow> dict_get (sp_events sp) a = Some evs \<longrightarrow> 0 < i \<longrightarrow> i < length evs \<longrightarrow>
     typed_values G num asg \<longrightarrow> (\<forall>x \<in> opened_before evs i. holds ifs asg x = Inr True) \<longrightarrow>
     holds ifs asg (ev_conditions (snd (evs ! i))) = Inr True)"

lemma compression_conditions:
  assumes "compress_ok ifs G num sp" "compression_applies sp a enabled = Inr True"
    and "dict_get (sp_events sp) a = Some evs" "0 < i" "i < length evs" "typed_values G num asg"
    and "\<forall>x \<in> opened_before evs i. holds ifs asg x = Inr True"
  shows "holds ifs asg (ev_conditions (snd (evs ! i))) = Inr True"
proof -
  from assms(2) obtain safe where "sp_comp_safe sp = Some safe" "act_idx a < length safe" "safe ! act_idx a"
    by (auto simp: compression_applies_def py_nth_int_iff split: option.splits if_splits)
  with assms(1,3-7) show ?thesis unfolding compress_ok_def by blast
qed

text \<open>
  It is enough that every conjunct of a later condition is one of an opened condition.
\<close>

lemma contained_compress_ok:
  assumes safe: "sp_comp_safe sp = Some safe"
    and contained: "\<And>a evs i. act_idx a < length safe \<Longrightarrow> safe ! act_idx a \<Longrightarrow> dict_get (sp_events sp) a = Some evs \<Longrightarrow>
      0 < i \<Longrightarrow> i < length evs \<Longrightarrow> condition_typed G num (ev_conditions (snd (evs ! i))) \<and>
        (\<forall>x \<in> opened_before evs i. condition_typed G num x) \<and>
        (\<exists>cs. split_expression (ev_conditions (snd (evs ! i))) = Inr cs \<and>
          (\<forall>c \<in> set cs. c = [NConst (CBool True)] \<or>
             (\<exists>x \<in> opened_before evs i. \<exists>ds. split_expression x = Inr ds \<and> c \<in> set ds)))"
  shows "compress_ok ifs G num sp"
  unfolding compress_ok_def
proof (intro allI impI)
  fix safe' a evs i asg
  assume h: "sp_comp_safe sp = Some safe'" "act_idx a < length safe'" "safe' ! act_idx a"
    "dict_get (sp_events sp) a = Some evs" "0 < i" "i < length evs" "typed_values G num asg"
    "\<forall>x \<in> opened_before evs i. holds ifs asg x = Inr True"
  with safe have "safe' = safe" by simp
  with contained [of a evs i] h obtain cs where cs: "condition_typed G num (ev_conditions (snd (evs ! i)))"
    "\<forall>x \<in> opened_before evs i. condition_typed G num x" "split_expression (ev_conditions (snd (evs ! i))) = Inr cs"
    and sub: "\<forall>c \<in> set cs. c = [NConst (CBool True)] \<or>
      (\<exists>x \<in> opened_before evs i. \<exists>ds. split_expression x = Inr ds \<and> c \<in> set ds)" by blast
  have "true_in ifs asg c" if "c \<in> set cs" for c
  proof (cases "c = [NConst (CBool True)]")
    case False
    with sub that obtain x ds where x: "x \<in> opened_before evs i" "split_expression x = Inr ds" "c \<in> set ds" by blast
    from x(1) cs(2) h(8) have "condition_typed G num x" "holds ifs asg x = Inr True" by blast+
    from split_true [OF this(1) h(7) holds_true [OF this(1) h(7) this(2)] x(2,3)] show ?thesis .
  qed (simp add: true_in_def)
  with split_holds [OF cs(1,3)] show "holds ifs asg (ev_conditions (snd (evs ! i))) = Inr True" by blast
qed

definition layers_from :: "ifenv \<Rightarrow> hmax \<Rightarrow> value_map \<Rightarrow> nat \<Rightarrow> 'n state \<Rightarrow> bool" where
  "layers_from ifs H V g s \<longleftrightarrow> g \<le> st_g s \<and> embeds H (layer ifs (hm_operators H) V (st_g s - g)) s"

text \<open>The loop of a compressed action, from its event \<open>j + 1\<close> on.\<close>

lemma compress_layer:
  assumes H: "hmax_for G num sp goal H" and sp: "space_ok sp" "typed_space G num sp"
    and le: "dict_get (sp_events sp) a = Some le" "1 < length le"
    and m: "\<And>i. i < length le \<Longrightarrow> has_operator (sp_timed sp) (hm_operators H) a m le i"
    and implied: "\<And>i asg. 0 < i \<Longrightarrow> i < length le \<Longrightarrow> typed_values G num asg \<Longrightarrow>
      \<forall>x \<in> opened_before le i. holds ifs asg x = Inr True \<Longrightarrow>
      holds ifs asg (ev_conditions (snd (le ! i))) = Inr True"
    and run: "compress T ifs sp a (drop 1 (indexed le)) eid s = Inr (Some s')"
    and opened: "opened_before le 1 \<subseteq> set (ms_iter (st_active s))"
    and s: "actives_hold ifs s" "typed_values G num (st_assignments s)" "st_hcache s = []" "g \<le> st_g s"
      "values_in (layer ifs (hm_operators H) V (st_g s - g)) (st_assignments s)"
      "CBool True \<in> layer ifs (hm_operators H) V (st_g s - g) (Fluent m)"
  shows "g \<le> st_g s' \<and> st_g s \<le> st_g s' \<and> st_todo s' = st_todo s \<and>
    values_in (layer ifs (hm_operators H) V (st_g s' - g)) (st_assignments s')"
proof -
  let ?L = "layer ifs (hm_operators H) V"
  let ?I = "\<lambda>ies (eid :: nat) x. \<exists>j < length le. ies = drop (Suc j) (indexed le) \<and> actives_hold ifs x \<and>
    opened_before le (Suc j) \<subseteq> set (ms_iter (st_active x)) \<and>
    typed_values G num (st_assignments x) \<and> st_hcache x = [] \<and> st_g s \<le> st_g x \<and> st_todo x = st_todo s \<and>
    values_in (?L (st_g x - g)) (st_assignments x) \<and> CBool True \<in> ?L (st_g x - g) (Fluent (m + j))"
  have "?I [] (eid + length (drop 1 (indexed le))) s'"
  proof (rule compress_invariant [OF run _ le(1) indexed_drop1, where I = ?I])
    show "?I (drop 1 (indexed le)) eid s" using s le(2) opened by (intro exI [of _ 0]) auto
  next
    fix i te rest eid x x' assume I: "?I ((i, te) # rest) eid x"
      and f: "fires T ifs sp (clone x False) (x\<lparr>st_g := st_g x + 1\<rparr>) a i eid None x'"
    from I obtain j where j: "j < length le" "(i, te) # rest = drop (Suc j) (indexed le)" and x: "actives_hold ifs x"
      "typed_values G num (st_assignments x)" "st_hcache x = []" "st_g s \<le> st_g x" "st_todo x = st_todo s"
      "values_in (?L (st_g x - g)) (st_assignments x)" "CBool True \<in> ?L (st_g x - g) (Fluent (m + j))"
      and open_x: "opened_before le (Suc j) \<subseteq> set (ms_iter (st_active x))" by blast
    have len: "Suc j < length le"
    proof (rule ccontr)
      assume "\<not> Suc j < length le"
      then have "drop (Suc j) (indexed le) = []" by (simp add: indexed_def)
      with j(2) show False by simp
    qed
    have "drop (Suc j) (indexed le) = (Suc j, le ! Suc j) # drop (Suc (Suc j)) (indexed le)"
      using len by (subst Cons_nth_drop_Suc [symmetric]) (auto simp: indexed_def)
    with j(2) have i: "i = Suc j" "rest = drop (Suc (Suc j)) (indexed le)" by auto
    have "holds ifs (st_assignments (clone x False)) (ev_conditions (snd (le ! i))) = Inr True"
    proof -
      have "\<forall>y \<in> opened_before le i. holds ifs (st_assignments x) y = Inr True"
        using open_x x(1) i(1) by (auto simp: actives_hold_def)
      with implied [of i "st_assignments x"] i(1) len x(2) show ?thesis by simp
    qed
    from fires_layer [OF H f le(1) m this, of "?L (st_g x - g)"] x i(1) len
    have x': "values_in (?L (Suc (st_g x - g))) (st_assignments x')"
      "CBool True \<in> ?L (Suc (st_g x - g)) (Fluent (m + i))" "st_todo x' = st_todo x" "st_g x' = st_g x + 1"
      by (auto simp: progress_before_def)
    moreover have "actives_hold ifs x'" using fires_actives [OF sp(1) f] x(1) by simp
    moreover have "typed_values G num (st_assignments x')" using fires_typed [OF sp(2) f] x(2) by simp
    moreover have "opened_before le (Suc i) \<subseteq> set (ms_iter (st_active x'))"
      using fires_opened [OF f le(1)] open_x x(1) i(1) by (simp add: actives_hold_def)
    moreover have "st_g x' - g = Suc (st_g x - g)" using x'(4) x(4) s(4) by simp
    ultimately show "?I rest (eid + 1) x'"
      using i len x(4,5) fires_hcache [OF f] by (intro exI [of _ i]) auto
  qed auto
  then show ?thesis using s(4) by auto
qed


lemma embeds_step:
  assumes "values_in W (st_assignments s')" "progress_in H V todo" "\<And>f. V f \<subseteq> W f"
    and "\<And>b. b \<noteq> a \<Longrightarrow> dict_get (st_todo s') b = dict_get todo b" "dict_get (hm_extra_fluents H) a = Some fs"
    and "case dict_get (st_todo s') a of None \<Rightarrow> fs \<noteq> [] \<longrightarrow> CBool True \<in> W (last fs)
         | Some (j, _) \<Rightarrow> 0 < j \<and> j < length fs \<and> CBool True \<in> W (fs ! (j - 1))"
  shows "embeds H W s'"
proof -
  have "case dict_get (st_todo s') b of None \<Rightarrow> gs \<noteq> [] \<longrightarrow> CBool True \<in> W (last gs)
         | Some (j, _) \<Rightarrow> 0 < j \<and> j < length gs \<and> CBool True \<in> W (gs ! (j - 1))"
    if "dict_get (hm_extra_fluents H) b = Some gs" for b gs
  proof (cases "b = a")
    case False
    with that progress_in_mono [OF assms(2,3)] assms(4) show ?thesis by (simp add: progress_in_def)
  qed (use that assms(5,6) in auto)
  then show ?thesis using assms(1) by (simp add: embeds_def progress_in_def)
qed

lemma successor_layer:
  assumes H: "hmax_for G num sp goal H" and sp: "space_ok sp" "typed_space G num sp" "compress_ok ifs G num sp"
    and s: "actives_hold ifs s" "typed_values G num (st_assignments s)" "layers_from ifs H V g s"
    and run: "get_successor_state_with_compression T ifs sp s a enabled c = Inr (Some s', c')"
  shows "layers_from ifs H V g s'"
proof -
  let ?L = "layer ifs (hm_operators H) V" let ?k = "st_g s - g"
  have g: "g \<le> st_g s" and vals: "values_in (?L ?k) (st_assignments s)" and prog: "progress_in H (?L ?k) (st_todo s)"
    using s(3) by (auto simp: layers_from_def embeds_def)
  have grow: "?L ?k f \<subseteq> ?L j f" if "?k \<le> j" for f j using layer_grows [OF that] .
  have last: "last (map Fluent [m..<m + l]) = Fluent (m + l - 1)" if "0 < l" for m l
    using that by (simp add: last_map)
  from run show ?thesis
  proof (cases rule: successor_cases)
    case (continue le i eid)
    from hmax_for_events(1) [OF H continue(1)] obtain m where
      m: "dict_get (hm_extra_fluents H) a = Some (map Fluent [m..<m + length le])"
      "\<And>i. i < length le \<Longrightarrow> has_operator (sp_timed sp) (hm_operators H) a m le i" by blast
    have i: "0 < i" "i < length le" "CBool True \<in> ?L ?k (Fluent (m + i - 1))"
      using progress_inD [OF prog m(1)] continue(2) by auto
    from fires_layer [OF H continue(5,1) m(2) [OF i(2)] continue(4) s(1,2) vals] i
    have s': "values_in (?L (Suc ?k)) (st_assignments s')" "CBool True \<in> ?L (Suc ?k) (Fluent (m + i))"
      "st_todo s' = (if i + 1 \<ge> length le then dict_del a (st_todo s) else dict_set a (i + 1, eid + 1) (st_todo s))"
      "st_g s' = st_g s + 1" by (auto simp: progress_before_def)
    have "embeds H (?L (Suc ?k)) s'"
    proof (rule embeds_step [OF s'(1) prog grow _ m(1)])
      show "dict_get (st_todo s') b = dict_get (st_todo s) b" if "b \<noteq> a" for b
        using that s'(3) by (simp add: dict_get_del update_conv')
      show "case dict_get (st_todo s') a of
          None \<Rightarrow> map Fluent [m..<m + length le] \<noteq> [] \<longrightarrow> CBool True \<in> ?L (Suc ?k) (last (map Fluent [m..<m + length le]))
        | Some (j, _) \<Rightarrow> 0 < j \<and> j < length (map Fluent [m..<m + length le]) \<and>
            CBool True \<in> ?L (Suc ?k) (map Fluent [m..<m + length le] ! (j - 1))"
      proof (cases "i + 1 \<ge> length le")
        case True
        with i(2) have "m + length le - 1 = m + i" by simp
        then show ?thesis using True s'(2,3) last [of "length le" m] i(2)
          by (simp add: dict_get_del del: layer_simps)
      qed (use s'(2,3) in \<open>simp add: update_conv' del: layer_simps\<close>)
    qed simp
    then show ?thesis using s'(4) g by (simp add: layers_from_def Suc_diff_le del: layer_simps)
  next
    case (started le)
    from hmax_for_events(1) [OF H started(1)] obtain m where
      m: "dict_get (hm_extra_fluents H) a = Some (map Fluent [m..<m + length le])"
      "\<And>i. i < length le \<Longrightarrow> has_operator (sp_timed sp) (hm_operators H) a m le i" by blast
    have len: "0 < length le" using started(1,7) by (auto elim: firesE)
    have before: "CBool True \<in> ?L ?k (Fluent (m + length le - 1))"
      using progress_inD [OF prog m(1)] started(2) len last [of "length le" m] by auto
    from fires_layer [OF H started(7,1) m(2) [OF len] started(4) s(1,2) vals] before started(5)
    have s': "values_in (?L (Suc ?k)) (st_assignments s')" "CBool True \<in> ?L (Suc ?k) (Fluent m)"
      "st_todo s' = (if sp_temporal sp \<and> length le > 1 then dict_set a (1, c + 2) (st_todo s) else st_todo s)"
      "st_g s' = st_g s + 1" by (auto simp: progress_before_def)
    have "embeds H (?L (Suc ?k)) s'"
    proof (rule embeds_step [OF s'(1) prog grow _ m(1)])
      show "dict_get (st_todo s') b = dict_get (st_todo s) b" if "b \<noteq> a" for b
        using that s'(3) by (simp add: update_conv')
      show "case dict_get (st_todo s') a of
          None \<Rightarrow> map Fluent [m..<m + length le] \<noteq> [] \<longrightarrow> CBool True \<in> ?L (Suc ?k) (last (map Fluent [m..<m + length le]))
        | Some (j, _) \<Rightarrow> 0 < j \<and> j < length (map Fluent [m..<m + length le]) \<and>
            CBool True \<in> ?L (Suc ?k) (map Fluent [m..<m + length le] ! (j - 1))"
        using s'(2,3) started(2) len last [of "length le" m] subsetD [OF grow [of "Suc ?k"] before]
        by (simp add: update_conv' del: layer_simps)
    qed simp
    then show ?thesis using s'(4) g by (simp add: layers_from_def Suc_diff_le del: layer_simps)
  next
    case (compressed le s1 i eid)
    from hmax_for_events(1) [OF H compressed(1)] obtain m where
      m: "dict_get (hm_extra_fluents H) a = Some (map Fluent [m..<m + length le])"
      "\<And>i. i < length le \<Longrightarrow> has_operator (sp_timed sp) (hm_operators H) a m le i" by blast
    have len: "0 < length le" "1 < length le" using compressed(8) by auto
    have before: "CBool True \<in> ?L ?k (Fluent (m + length le - 1))"
      using progress_inD [OF prog m(1)] compressed(2) len(1) last [of "length le" m] by auto
    from fires_layer [OF H compressed(7,1) m(2) [OF len(1)] compressed(4) s(1,2) vals] before compressed(5)
    have s1: "values_in (?L (Suc ?k)) (st_assignments s1)" "CBool True \<in> ?L (Suc ?k) (Fluent m)"
      "st_todo s1 = (if sp_temporal sp \<and> length le > 1 then dict_set a (1, c + 2) (st_todo s) else st_todo s)"
      "st_g s1 = st_g s + 1" by (auto simp: progress_before_def)
    let ?s = "s1\<lparr>st_todo := dict_del a (st_todo s1)\<rparr>"
    have k: "st_g ?s - g = Suc ?k" using s1(4) g by simp
    have implied: "holds ifs asg (ev_conditions (snd (le ! i))) = Inr True"
      if "0 < i" "i < length le" "typed_values G num asg" "\<forall>x \<in> opened_before le i. holds ifs asg x = Inr True" for i asg
      using compression_conditions [OF sp(3) compressed(11,1) that] .
    have "g \<le> st_g s' \<and> st_g ?s \<le> st_g s' \<and> st_todo s' = st_todo ?s \<and> values_in (?L (st_g s' - g)) (st_assignments s')"
    proof (rule compress_layer [OF H sp(1,2) compressed(1) len(2) m(2) implied compressed(10)])
      show "opened_before le 1 \<subseteq> set (ms_iter (st_active ?s))"
        using fires_opened [OF compressed(7,1)] s(1) by (simp add: actives_hold_def)
      show "actives_hold ifs ?s" using fires_actives [OF sp(1) compressed(7) s(1)] by simp
      show "typed_values G num (st_assignments ?s)" using fires_typed [OF sp(2) compressed(7) s(2)] by simp
      show "st_hcache ?s = []" using fires_hcache [OF compressed(7)] by simp
      show "g \<le> st_g ?s" using s1(4) g by simp
    qed (use s1(1,2) k in \<open>simp_all del: layer_simps\<close>)
    then have s': "g \<le> st_g s'" "?k \<le> st_g s' - g" "st_todo s' = dict_del a (st_todo s1)"
      "values_in (?L (st_g s' - g)) (st_assignments s')" using s1(4) by auto
    have "embeds H (?L (st_g s' - g)) s'"
    proof (rule embeds_step [OF s'(4) prog grow [OF s'(2)] _ m(1)])
      show "dict_get (st_todo s') b = dict_get (st_todo s) b" if "b \<noteq> a" for b
        using that s'(3) s1(3) by (simp add: dict_get_del update_conv')
      show "case dict_get (st_todo s') a of
          None \<Rightarrow> map Fluent [m..<m + length le] \<noteq> [] \<longrightarrow> CBool True \<in> ?L (st_g s' - g) (last (map Fluent [m..<m + length le]))
        | Some (j, _) \<Rightarrow> 0 < j \<and> j < length (map Fluent [m..<m + length le]) \<and>
            CBool True \<in> ?L (st_g s' - g) (map Fluent [m..<m + length le] ! (j - 1))"
        using s'(3) len(1) last [of "length le" m] subsetD [OF grow [OF s'(2)] before]
        by (simp add: dict_get_del del: layer_simps)
    qed
    with s'(1) show ?thesis by (simp add: layers_from_def)
  qed
qed


section \<open>The state evaluated\<close>

lemma rfold_collects:
  assumes "rfold f xs s = Inr t" "I s"
    and "\<And>x s s'. x \<in> set xs \<Longrightarrow> I s \<Longrightarrow> f x s = Inr s' \<Longrightarrow> I s' \<and> P x s'"
    and "\<And>x y s s'. y \<in> set xs \<Longrightarrow> I s \<Longrightarrow> f y s = Inr s' \<Longrightarrow> P x s \<Longrightarrow> P x s'"
  shows "I t \<and> (\<forall>x \<in> set xs. P x t)"
  using assms
proof (induction xs arbitrary: s)
  case (Cons x xs)
  from Cons.prems(1) obtain s1 where s1: "f x s = Inr s1" "rfold f xs s1 = Inr t" by (auto simp: rbind_eq_Inr)
  have I: "I s1 \<and> P x s1" by (rule Cons.prems(3) [OF _ Cons.prems(2) s1(1)]) simp
  have "I t \<and> P x t"
  proof (rule rfold_invariant [where I = "\<lambda>s. I s \<and> P x s", OF s1(2) I])
    fix y u u' assume y: "y \<in> set xs" "I u \<and> P x u" "f y u = Inr u'"
    then have "y \<in> set (x # xs)" by simp
    with Cons.prems(3,4) y(2,3) show "I u' \<and> P x u'" by blast
  qed
  moreover have "\<forall>y \<in> set xs. P y t" using Cons.IH [OF s1(2)] I Cons.prems(3,4) by (metis list.set_intros(2))
  ultimately show ?case by simp
qed simp

lemma nth_mem_indexed: "i < length xs \<Longrightarrow> (i, xs ! i) \<in> set (indexed xs)"
  unfolding indexed_def set_zip by (intro CollectI exI [of _ i]) simp

lemma add_value_adds:
  assumes "add_value i v A = Inr A'" "values_ok G n A" "const_ty v = Some (G (Fluent i))"
  shows "values_ok G n A' \<and> (\<forall>f. value_sets A f \<subseteq> value_sets A' f) \<and> v \<in> value_sets A' (Fluent i)"
proof (intro conjI allI)
  from assms(1) have i: "i < length A" and A': "A' = A[i := value_add v (A ! i)]"
    by (auto simp: add_value_def rbind_eq_Inr py_nth_int_iff py_update_int_iff)
  have "const_ty w = Some (G (Fluent i))" if "w \<in> set (A ! i)" for w
  proof -
    have "w \<in> value_sets A (Fluent i)" using that i by (simp add: value_sets_def)
    with assms(2) show ?thesis by (simp add: values_ok_def typed_lists_def)
  qed
  then have set: "set (value_add v (A ! i)) = insert v (set (A ! i))"
    using value_add_typed [of "A ! i" "G (Fluent i)" v] assms(3) by simp
  show "values_ok G n A'" by (rule add_value_ok [OF assms])
  show "v \<in> value_sets A' (Fluent i)" using set i A' by (simp add: value_sets_def)
  show "value_sets A f \<subseteq> value_sets A' f" for f
    using set i A' by (cases "fl_idx f = i") (auto simp: value_sets_def)
qed

lemma initial_values_embed:
  assumes init: "initial_values H s = Inr A" and extra: "extra_in num (hm_num_fluents H) (hm_extra_fluents H)"
    and G: "\<And>i. num \<le> i \<Longrightarrow> G (Fluent i) = TyBool" and typed: "typed_assignment G (st_assignments s)"
    and events: "\<And>a fs. dict_get (hm_extra_fluents H) a = Some fs \<Longrightarrow> \<exists>le. dict_get (hm_events H) a = Some le"
    and todo: "\<And>a j e fs. dict_get (st_todo s) a = Some (j, e) \<Longrightarrow> dict_get (hm_extra_fluents H) a = Some fs \<Longrightarrow>
      0 < j \<and> j < length fs"
  shows "embeds H (value_sets A) s"
proof -
  let ?n = "hm_num_fluents H" let ?ok = "values_ok G ?n"
  let ?idx = "\<lambda>a fs. (case dict_get (st_todo s) a of None \<Rightarrow> int (length fs) - 1 | Some (j, _) \<Rightarrow> int j - 1)"
  let ?P = "\<lambda>p A. \<forall>fs i. dict_get (hm_extra_fluents H) (fst p) = Some fs \<longrightarrow> i < length fs \<longrightarrow>
    CBool (int i = ?idx (fst p) fs) \<in> value_sets A (fs ! i)"
  have bool: "G f = TyBool" if "dict_get (hm_extra_fluents H) a = Some fs" "f \<in> set fs" for a fs f
  proof -
    have "num \<le> fl_idx f" using extra that unfolding extra_in_def by blast
    from G [OF this] show ?thesis by simp
  qed
  have one: "?ok B' \<and> (\<forall>f. value_sets B f \<subseteq> value_sets B' f) \<and> ?P p B'"
    if B: "?ok B" "progress_values H (st_todo s) p B = Inr B'" for p B B'
  proof -
    obtain a le where p: "p = (a, le)" by (cases p)
    from B(2) p obtain fs where fs: "dict_get (hm_extra_fluents H) a = Some fs"
      and run: "rfold (\<lambda>(i, f). add_value (fl_idx f) (CBool (int i = ?idx a fs))) (indexed fs) B = Inr B'"
      by (auto simp: progress_values_def dict_lookup_def rbind_eq_Inr Let_def split: option.splits)
    let ?I = "\<lambda>C. ?ok C \<and> (\<forall>f. value_sets B f \<subseteq> value_sets C f)"
    have add: "?I C' \<and> (\<forall>g. value_sets C g \<subseteq> value_sets C' g) \<and> CBool (int (fst q) = ?idx a fs) \<in> value_sets C' (snd q)"
      if "q \<in> set (indexed fs)" "?I C" "(case q of (i, f) \<Rightarrow> add_value (fl_idx f) (CBool (int i = ?idx a fs))) C = Inr C'" for q C C'
    proof -
      obtain i f where q: "q = (i, f)" by (cases q)
      then have "f \<in> set fs" using that(1) unfolding indexed_def by (metis set_zip_rightD)
      then have ty: "const_ty (CBool (int i = ?idx a fs)) = Some (G (Fluent (fl_idx f)))" using bool [OF fs] by simp
      have C: "?ok C" "\<forall>f. value_sets B f \<subseteq> value_sets C f" using that(2) by auto
      from that(3) q have "add_value (fl_idx f) (CBool (int i = ?idx a fs)) C = Inr C'" by simp
      from add_value_adds [OF this C(1) ty] q C(2) show ?thesis by auto
    qed
    have start: "?I B" using B(1) by simp
    have "?I B' \<and> (\<forall>q \<in> set (indexed fs). CBool (int (fst q) = ?idx a fs) \<in> value_sets B' (snd q))"
      by (rule rfold_collects [where I = ?I and P = "\<lambda>q C. CBool (int (fst q) = ?idx a fs) \<in> value_sets C (snd q)",
          OF run start]) (use add in \<open>blast+\<close>)
    with fs p show ?thesis using nth_mem_indexed [of _ fs] by fastforce
  qed
  from init obtain B where
    B: "rfold (\<lambda>(i, v). add_value i v) (indexed (st_assignments s)) (replicate ?n []) = Inr B"
    and A: "rfold (progress_values H (st_todo s)) (hm_events H) B = Inr A"
    by (auto simp: initial_values_def rbind_eq_Inr)
  have start: "?ok (replicate ?n [])" by (auto simp: values_ok_def typed_lists_def value_sets_def)
  have put: "?ok C' \<and> (\<forall>g. value_sets C g \<subseteq> value_sets C' g) \<and> snd q \<in> value_sets C' (Fluent (fst q))"
    if "q \<in> set (indexed (st_assignments s))" "?ok C" "(case q of (i, v) \<Rightarrow> add_value i v) C = Inr C'" for q C C'
  proof -
    from that(1) obtain i where q: "q = (i, st_assignments s ! i)" "i < length (st_assignments s)" by (auto simp: indexed_def set_zip)
    with typed have "const_ty (snd q) = Some (G (Fluent i))" by (simp add: typed_assignment_def)
    with add_value_adds [of i "snd q" C C' G ?n] that q show ?thesis by auto
  qed
  have B': "?ok B \<and> (\<forall>q \<in> set (indexed (st_assignments s)). snd q \<in> value_sets B (Fluent (fst q)))"
    by (rule rfold_collects [where I = ?ok and P = "\<lambda>q C. snd q \<in> value_sets C (Fluent (fst q))", OF B start])
      (use put in \<open>blast+\<close>)
  have A': "(?ok A \<and> (\<forall>f. value_sets B f \<subseteq> value_sets A f)) \<and> (\<forall>p \<in> set (hm_events H). ?P p A)"
    by (rule rfold_collects [where P = ?P, OF A, where I = "\<lambda>C. ?ok C \<and> (\<forall>f. value_sets B f \<subseteq> value_sets C f)"])
      (use B' one in \<open>blast+\<close>)
  have "values_in (value_sets A) (st_assignments s)"
    unfolding values_in_def
  proof (intro allI impI)
    fix i assume "i < length (st_assignments s)"
    from nth_mem_indexed [OF this] B' have "st_assignments s ! i \<in> value_sets B (Fluent i)" by fastforce
    with A' show "st_assignments s ! i \<in> value_sets A (Fluent i)" by blast
  qed
  moreover have "case dict_get (st_todo s) a of None \<Rightarrow> fs \<noteq> [] \<longrightarrow> CBool True \<in> value_sets A (last fs)
     | Some (j, _) \<Rightarrow> 0 < j \<and> j < length fs \<and> CBool True \<in> value_sets A (fs ! (j - 1))"
    if fs: "dict_get (hm_extra_fluents H) a = Some fs" for a fs
  proof -
    from events [OF fs] obtain le where "(a, le) \<in> set (hm_events H)" by (blast dest: map_of_SomeD)
    with A' fs have at: "CBool (int i = ?idx a fs) \<in> value_sets A (fs ! i)" if "i < length fs" for i
      using that by fastforce
    show ?thesis
    proof (cases "dict_get (st_todo s) a")
      case None
      then show ?thesis using at [of "length fs - 1"] by (auto simp: last_conv_nth of_nat_diff Suc_leI)
    next
      case (Some je)
      obtain j e where je: "je = (j, e)" by (cases je)
      have j: "0 < j" "j < length fs" using todo [OF Some [unfolded je] fs] by auto
      then have "CBool (int (j - 1) = int j - 1) \<in> value_sets A (fs ! (j - 1))"
        using at [of "j - 1"] Some je by simp
      with j Some je show ?thesis by (simp add: of_nat_diff Suc_leI)
    qed
  qed
  ultimately show ?thesis by (simp add: embeds_def progress_in_def)
qed


text \<open>An action in progress stands before one of its later events.\<close>

definition todo_in :: "sspace \<Rightarrow> (action, nat \<times> nat) dict \<Rightarrow> bool" where
  "todo_in sp todo \<longleftrightarrow> (\<forall>a j e. dict_get todo a = Some (j, e) \<longrightarrow>
     (\<exists>le. dict_get (sp_events sp) a = Some le \<and> 0 < j \<and> j < length le))"

lemma todo_in_simps:
  "todo_in sp []"
  "todo_in sp todo \<Longrightarrow> todo_in sp (dict_del a todo)"
  "todo_in sp todo \<Longrightarrow> dict_get (sp_events sp) a = Some le \<Longrightarrow> 0 < j \<Longrightarrow> j < length le \<Longrightarrow>
     todo_in sp (dict_set a (j, e) todo)"
  by (auto simp: todo_in_def dict_get_del update_conv')

lemma fires_todo: "fires T ifs sp s new a i eid pend s' \<Longrightarrow> st_todo s' = st_todo new"
  by (auto elim!: firesE expand_event_SomeD)

lemma compress_todo:
  assumes "compress T ifs sp a (drop 1 (indexed le)) eid s = Inr (Some s')" "dict_get (sp_events sp) a = Some le" "st_hcache s = []"
  shows "st_todo s' = st_todo s"
proof -
  have "(\<lambda>_ _ x. st_todo x = st_todo s \<and> st_hcache x = []) [] (eid + length (drop 1 (indexed le))) s'"
  proof (rule compress_invariant [OF assms(1) _ assms(2) indexed_drop1, where I = "\<lambda>_ _ x. st_todo x = st_todo s \<and> st_hcache x = []"])
    fix i eid x x' assume x: "st_todo x = st_todo s \<and> st_hcache x = []"
      and f: "fires T ifs sp (clone x False) (x\<lparr>st_g := st_g x + 1\<rparr>) a i eid None x'"
    show "st_todo x' = st_todo s \<and> st_hcache x' = []" using fires_todo [OF f] fires_hcache [OF f] x by simp
  qed (use assms(3) in auto)
  then show ?thesis by simp
qed

lemma successor_todo:
  assumes "todo_in sp (st_todo s)" "get_successor_state_with_compression T ifs sp s a enabled c = Inr (Some s', c')"
  shows "todo_in sp (st_todo s')"
  using assms(2)
proof (cases rule: successor_cases)
  case (continue le i eid)
  have "i < length le" using continue(1,5) by (auto elim: firesE)
  then show ?thesis using fires_todo [OF continue(5)] todo_in_simps(2,3) [OF assms(1)] continue(1) by simp
next
  case (started le)
  then show ?thesis using fires_todo [OF started(7)] todo_in_simps(3) [OF assms(1) started(1)] assms(1) by simp
next
  case (compressed le s1 i eid)
  have "st_hcache (s1\<lparr>st_todo := dict_del a (st_todo s1)\<rparr>) = []" using fires_hcache [OF compressed(7)] by simp
  from compress_todo [OF compressed(10,1) this] have "st_todo s' = dict_del a (st_todo s1)" by simp
  then show ?thesis using fires_todo [OF compressed(7)] todo_in_simps(2) todo_in_simps(3) [OF assms(1) compressed(1)] assms(1)
    by simp
qed

lemma reachable_todo:
  assumes "reachable T ifs sp c s"
  shows "todo_in sp (st_todo s)"
  using assms
proof induction
  case (reach_initial init c s c')
  then show ?case
  proof (cases rule: initial_stateD)
    case (timed asg tn a le)
    from fires_todo [OF timed(7)] timed(2) show ?thesis
      using todo_in_simps(3) [OF todo_in_simps(1) timed(2), of 1 "c + 2"] todo_in_simps(1) by (simp add: mk_state_def)
  qed (simp add: todo_in_simps mk_state_def)
qed (simp_all add: successor_todo)

inductive leads_to :: "'n tn_ops \<Rightarrow> ifenv \<Rightarrow> sspace \<Rightarrow> 'n state \<Rightarrow> 'n state \<Rightarrow> bool"
  for T :: "'n tn_ops" and ifs :: ifenv and sp :: sspace where
  leads_refl: "leads_to T ifs sp s s"
| leads_step: "leads_to T ifs sp s s1 \<Longrightarrow>
    get_successor_state_with_compression T ifs sp s1 a enabled c = Inr (Some s2, c') \<Longrightarrow> leads_to T ifs sp s s2"

lemma hmax_for_space: "hmax_for G num sp goal H \<Longrightarrow> typed_space G num sp"
  unfolding hmax_for_def typed_problem_def typed_event_def typed_space_def by (blast dest: map_of_SomeD)

lemma leads_to_layer:
  assumes H: "hmax_for G num sp goal H" and sp: "space_ok sp" "compress_ok ifs G num sp"
    and s: "actives_hold ifs s" "typed_values G num (st_assignments s)" "embeds H V s"
    and "leads_to T ifs sp s s'"
  shows "actives_hold ifs s' \<and> typed_values G num (st_assignments s') \<and> layers_from ifs H V (st_g s) s'"
  using assms(7,4-6)
proof induction
  case (leads_refl s)
  then show ?case by (simp add: layers_from_def)
next
  case (leads_step s s1 a enabled c s2 c')
  then show ?case
    using successor_layer [OF H sp(1) hmax_for_space [OF H] sp(2) _ _ _ leads_step.hyps(2)]
      successor_actives_hold [OF sp(1) _ leads_step.hyps(2)]
      successor_typed [OF hmax_for_space [OF H] _ leads_step.hyps(2)] by simp
qed

lemma reachable_embeds:
  assumes H: "hmax_for G num sp goal H" and s: "reachable T ifs sp c s" "typed_values G num (st_assignments s)"
    and init: "initial_values H s = Inr A"
  shows "embeds H (value_sets A) s"
proof (rule initial_values_embed [OF init, of num G])
  show "\<exists>le. dict_get (hm_events H) a = Some le" if "dict_get (hm_extra_fluents H) a = Some fs" for a fs
    using hmax_for_events(2) [OF H that] hmax_for_ok(4) [OF H] by simp
  show "0 < j \<and> j < length fs"
    if todo: "dict_get (st_todo s) a = Some (j, e)" and fs: "dict_get (hm_extra_fluents H) a = Some fs" for a j e fs
  proof -
    from reachable_todo [OF s(1)] todo obtain le where le: "dict_get (sp_events sp) a = Some le" "0 < j" "j < length le"
      unfolding todo_in_def by blast
    from hmax_for_events(1) [OF H le(1)] fs le(2,3) show ?thesis by auto
  qed
qed (use hmax_for_ok [OF H] s(2) in \<open>auto simp: typed_values_def\<close>)

lemma hmax_for_values:
  assumes H: "hmax_for G num sp goal H" and s: "typed_values G num (st_assignments s)" and A: "initial_values H s = Inr A"
  shows "values_ok G (hm_num_fluents H) A"
  using initial_values_ok [OF A hmax_for_ok(2) [OF H]] hmax_for_ok(5) [OF H] s by (simp add: typed_values_def)

lemma hmax_value_layer:
  assumes H: "hmax_for G num sp goal H" and s: "typed_values G num (st_assignments s)" and ord: "\<forall>vs. set (ord vs) = set vs"
    and A: "initial_values H s = Inr A" and run: "hmax_eval_core ifs ord H s = Inr r"
  shows "first_layer ifs H (value_sets A) r"
  using hmax_eval_core_layer [OF hmax_for_ok(1) [OF H, of ifs], of ord s A r] run A ord hmax_for_values [OF H s A]
  by (simp add: values_ok_def)

lemma hmax_value_returns:
  assumes H: "hmax_for G num sp goal H" and s: "typed_values G num (st_assignments s)" and ord: "\<forall>vs. set (ord vs) = set vs"
    and A: "initial_values H s = Inr A" and ifs: "ifs_return ifs"
    and ends: "(\<forall>i < num. G (Fluent i) = TyBool) \<or> (\<exists>d. settles ifs H (value_sets A) d)"
  shows "errs ordinary (hmax_eval_core ifs ord H s)"
proof -
  have "G (Fluent i) = TyBool" if "\<forall>i < num. G (Fluent i) = TyBool" for i
    using that hmax_for_ok(5) [OF H] by (cases "i < num") auto
  with ends obtain d where "settles ifs H (value_sets A) d"
    using boolean_settles [OF hmax_for_ok(1) [OF H, of ifs] hmax_for_values [OF H s A]] by blast
  from hmax_eval_core_returns [OF hmax_for_ok(1) [OF H] _ ifs A hmax_for_values [OF H s A] this] ord show ?thesis
    by blast
qed

lemma hmax_eval_core_bound:
  assumes H: "hmax_for G num sp goal H" and sp: "space_ok sp" "compress_ok ifs G num sp"
    and s: "reachable T ifs sp c s" "typed_values G num (st_assignments s)"
    and run: "\<forall>vs. set (ord vs) = set vs" "hmax_eval_core ifs ord H s = Inr r"
    and path: "leads_to T ifs sp s s'" "the_goal sp g = Inr goal" "goal_reached ifs sp s' g = Inr True"
  shows "\<exists>d. r = Some d \<and> d \<le> st_g s' - st_g s"
proof -
  from run(2) obtain A where A: "initial_values H s = Inr A" by (auto simp: hmax_eval_core_def rbind_eq_Inr)
  have layer: "first_layer ifs H (value_sets A) r" by (rule hmax_value_layer [OF H s(2) run(1) A run(2)])
  have "typed_values G num (st_assignments s') \<and> layers_from ifs H (value_sets A) (st_g s) s'"
    using leads_to_layer [OF H sp reachable_actives_hold [OF sp(1) s(1)] s(2) reachable_embeds [OF H s A] path(1)] by simp
  then have "goals_hold ifs H (layer ifs (hm_operators H) (value_sets A) (st_g s' - st_g s))"
    using goal_in_layer [OF H _ _ path(2,3)] by (simp add: layers_from_def)
  with layer show ?thesis by (cases r) (auto simp: first_layer_def not_less [symmetric])
qed


end
