(* ===== verification/HMax_Cache.thy ===== *)
theory HMax_Cache
  imports HMax_Built
begin

text \<open>
  The internal cache of \<open>HMaxExplicit\<close>, whose keys are the assignment and the sorted positions of
  the actions in progress: states with equal keys have equal values.
\<close>

definition positions :: "'n state \<Rightarrow> (action \<times> nat) list" where
  "positions s = map (\<lambda>(a, (j, _)). (a, j)) (st_todo s)"

lemma map_of_positions: "map_of (positions s) a = map_option fst (dict_get (st_todo s) a)"
proof -
  have "map_of (map (\<lambda>(a, (j, _)). (a, j)) d) a = map_option fst (dict_get d a)" for d :: "(action \<times> nat \<times> nat) list"
    by (induction d) auto
  then show ?thesis by (simp add: positions_def)
qed

lemma state_key_positions: "state_key s = (st_assignments s, sort_key fst (positions s))"
  by (simp add: state_key_def positions_def)

lemma same_positions:
  assumes "sort_key fst (positions s) = sort_key fst (positions t)" "dict_wf (st_todo s)" "dict_wf (st_todo t)"
  shows "map_option fst (dict_get (st_todo s) a) = map_option fst (dict_get (st_todo t) a)"
proof -
  have keys: "map fst (positions x) = map fst (st_todo x)" for x :: "'c state"
    by (simp add: positions_def comp_def split_beta)
  have "distinct (map fst (positions s))" "distinct (map fst (positions t))"
    using assms(2,3) keys [of s] keys [of t] by (simp_all add: dict_wf_def positions_def comp_def split_beta)
  moreover have "set (positions s) = set (positions t)" using assms(1) by (metis set_sort)
  ultimately have "map_of (positions s) = map_of (positions t)" by (simp add: map_of_inject_set)
  then show ?thesis by (simp flip: map_of_positions)
qed

lemma typed_assignments_eq:
  assumes "list_all2 py_eq xs ys" "typed_assignment G xs" "typed_assignment G ys"
  shows "xs = ys"
proof (rule nth_equalityI)
  show "xs ! i = ys ! i" if "i < length xs" for i
    using that assms typed_py_eq [of "xs ! i" "G (Fluent i)" "ys ! i"]
    by (auto simp: list_all2_conv_all_nth typed_assignment_def)
qed (use assms(1) in \<open>simp add: list_all2_lengthD\<close>)

lemma progress_values_cong:
  assumes "map_option fst (dict_get d a) = map_option fst (dict_get e a)"
  shows "progress_values H d (a, le) A = progress_values H e (a, le) A"
proof -
  have "(case dict_get d a of None \<Rightarrow> k | Some (j, _) \<Rightarrow> int j - 1) = (case dict_get e a of None \<Rightarrow> k | Some (j, _) \<Rightarrow> int j - 1)" for k
    using assms by (cases "dict_get d a"; cases "dict_get e a") auto
  then show ?thesis by (simp add: progress_values_def)
qed

lemma same_key_value:
  assumes "key_eq (state_key s) (state_key t)" "typed_assignment G (st_assignments s)" "typed_assignment G (st_assignments t)"
    and "dict_wf (st_todo s)" "dict_wf (st_todo t)"
  shows "hmax_eval_core ifs ord H s = hmax_eval_core ifs ord H t"
proof -
  have asg: "st_assignments s = st_assignments t"
    using typed_assignments_eq assms(1-3) by (auto simp: key_eq_def state_key_positions)
  have "sort_key fst (positions s) = sort_key fst (positions t)"
    using assms(1) by (simp add: key_eq_def state_key_positions)
  note pos = same_positions [OF this assms(4,5)]
  have "rfold (progress_values H (st_todo s)) evs A = rfold (progress_values H (st_todo t)) evs A" for evs A
  proof (rule rfold_cong)
    fix p B show "progress_values H (st_todo s) p B = progress_values H (st_todo t) p B"
      using progress_values_cong [OF pos] by (cases p) simp
  qed simp_all
  then have "initial_values H s = initial_values H t" by (simp add: initial_values_def asg)
  then show ?thesis by (simp add: hmax_eval_core_def)
qed

text \<open>A cache that holds values of typed states.\<close>

definition hmax_cache_ok ::
    "ifenv \<Rightarrow> (const list \<Rightarrow> const list) \<Rightarrow> hmax \<Rightarrow> (fluent \<Rightarrow> ty) \<Rightarrow> 'n state itself \<Rightarrow> (cache_key \<times> nat option) list \<Rightarrow> bool" where
  "hmax_cache_ok ifs ord H G _ d \<longleftrightarrow> (\<forall>(k, r) \<in> set d. \<exists>t :: 'n state. k = state_key t \<and>
     typed_assignment G (st_assignments t) \<and> dict_wf (st_todo t) \<and> hmax_eval_core ifs ord H t = Inr r)"

lemma hmax_eval_cached:
  fixes s :: "'n state"
  assumes "hmax_cache_ok ifs ord H G TYPE('n state) d" "typed_assignment G (st_assignments s)" "dict_wf (st_todo s)"
  shows "\<exists>d'. hmax_eval ifs ord H (Some d) s = rbind (hmax_eval_core ifs ord H s) (\<lambda>r. Inr (r, Some d')) \<and>
    hmax_cache_ok ifs ord H G TYPE('n state) d'"
proof (cases "find (\<lambda>(k, _). key_eq k (state_key s)) d")
  case None
  show ?thesis
  proof (cases "hmax_eval_core ifs ord H s")
    case (Inl e)
    with None assms(1) show ?thesis by (intro exI [of _ d]) (simp add: hmax_eval_def)
  next
    case (Inr r)
    have "hmax_cache_ok ifs ord H G TYPE('n state) (d @ [(state_key s, r)])"
      using assms Inr by (auto simp: hmax_cache_ok_def)
    with None Inr show ?thesis by (intro exI [of _ "d @ [(state_key s, r)]"]) (simp add: hmax_eval_def)
  qed
next
  case (Some p)
  obtain k r where p: "p = (k, r)" by (cases p)
  have hit: "key_eq k (state_key s)" using Some p by (auto simp: find_Some_iff)
  have "(k, r) \<in> set d" using Some p by (metis find_Some_iff nth_mem)
  with assms(1) obtain t :: "'n state" where t: "k = state_key t" "typed_assignment G (st_assignments t)"
    "dict_wf (st_todo t)" "hmax_eval_core ifs ord H t = Inr r" unfolding hmax_cache_ok_def by blast
  have "hmax_eval_core ifs ord H s = Inr r"
    using same_key_value [of t s G ifs ord H] hit t assms(2,3) by simp
  with Some p assms(1) show ?thesis by (intro exI [of _ d]) (simp add: hmax_eval_def)
qed

end
