(* ===== verification/HMax_Demo.thy ===== *)
theory HMax_Demo
  imports Examples HMax_Admissible HMax_Cache
begin

text \<open>The relaxation on the temporal example, whose goal is two events away.\<close>

definition timed_hmax :: hmax where
  "timed_hmax = (case mk_hmax 1 timed_demo_events lit_exp None of Inr H \<Rightarrow> H)"

lemma timed_hmax_eq: "mk_hmax 1 timed_demo_events lit_exp None = Inr timed_hmax"
  by code_simp

lemma timed_keys: "set (hmax_keys timed_hmax) = {lit_exp, [NFluent (Fluent 1)], dark_exp, [NFluent (Fluent 2)]}"
  by code_simp

lemma timed_init_values:
  "initial_values timed_hmax timed_init = Inr [[CBool False], [CBool False], [CBool True]]"
  by code_simp

lemma timed_hmax_run: "hmax_eval_core no_ifs id timed_hmax timed_init = Inr (Some 2)"
  by code_simp

lemma lit_typed_conditions:
  "condition_typed all_bool 1 lit_exp" "condition_typed all_bool 1 dark_exp" "condition_typed all_bool 1 true_exp"
proof -
  show "condition_typed all_bool 1 lit_exp" unfolding condition_typed_def
    by (rule exI [of _ "TFluent lit"]) (simp add: lit_exp_def flatten_def all_bool_def lit_def)
  show "condition_typed all_bool 1 dark_exp" unfolding condition_typed_def
    by (rule exI [of _ "TOp ''not'' [TFluent lit]"]) (simp add: dark_exp_def flatten_def all_bool_def lit_def op_ty_def)
  show "condition_typed all_bool 1 true_exp" unfolding condition_typed_def
    by (rule exI [of _ "TConst (CBool True)"]) (simp add: true_exp_def flatten_def)
qed

lemma timed_typed_problem: "typed_problem all_bool 1 timed_demo_events lit_exp"
  using lit_typed_conditions lit_effect_typed
  by (simp add: typed_problem_def timed_demo_events_def typed_event_def wait_start_def wait_end_def all_bool_def)

lemma timed_hmax_for: "hmax_for all_bool 1 timed_demo lit_exp timed_hmax"
proof -
  have sp: "sp_events timed_demo = timed_demo_events" "sp_timed timed_demo = None" by code_simp+
  have "dict_wf timed_demo_events" by code_simp
  moreover have "keys_apart (set (hmax_keys timed_hmax))"
    unfolding timed_keys keys_apart_def by code_simp
  ultimately show ?thesis using sp timed_hmax_eq timed_typed_problem by (simp add: hmax_for_def)
qed

lemma timed_leads: "leads_to delta_stn_ops no_ifs timed_demo timed_init timed_done"
  by (rule leads_step [OF leads_step [OF leads_refl timed_steps(2)] timed_steps(3)])

lemma timed_goal: "the_goal timed_demo None = Inr lit_exp" "goal_reached no_ifs timed_demo timed_done None = Inr True"
    "st_g timed_done - st_g timed_init = 2"
  by code_simp+

lemma timed_init_todo: "dict_wf (st_todo timed_init)"
  by code_simp

text \<open>
  A problem whose action is compressed: the power has to be on from the start of the action to
  its end, the end included, and the action turns the light on.
\<close>

definition power_exp :: expression where
  "power_exp = [NFluent (Fluent 1)]"

definition press_start :: event where
  "press_start = \<lparr>ev_action = light, ev_pos = 0, ev_conditions = power_exp, ev_start_conditions = [power_exp],
     ev_end_conditions = [], ev_effects = []\<rparr>"

definition press_end :: event where
  "press_end = \<lparr>ev_action = light, ev_pos = 1, ev_conditions = power_exp, ev_start_conditions = [],
     ev_end_conditions = [power_exp], ev_effects = [\<lparr>eff_fluent = lit, eff_value = true_exp\<rparr>]\<rparr>"

definition press_events :: "(action, timed_event list) dict" where
  "press_events = [(light, [(\<lparr>tm_start = True, tm_delay = 0\<rparr>, press_start),
     (\<lparr>tm_start = False, tm_delay = 0\<rparr>, press_end)])]"

definition press :: sspace where
  "press = (case mk_search_space [Some ([NConst (CInt 2)], [NConst (CInt 2)], False, False)]
     press_events [light] (Some [True]) None None (Some [CBool False, CBool True]) (Some lit_exp) None None None None
     of Inr sp \<Rightarrow> sp)"

lemma press_eq: "mk_search_space [Some ([NConst (CInt 2)], [NConst (CInt 2)], False, False)]
     press_events [light] (Some [True]) None None (Some [CBool False, CBool True]) (Some lit_exp) None None None None
   = Inr press"
  by code_simp

lemma press_ok: "space_ok press"
  by (rule mk_search_space_ok [OF press_eq], code_simp)

lemma press_fields: "sp_events press = press_events" "sp_timed press = None" "sp_comp_safe press = Some [True]"
  by code_simp+

definition press_hmax :: hmax where
  "press_hmax = (case mk_hmax 2 press_events lit_exp None of Inr H \<Rightarrow> H)"

lemma press_hmax_eq: "mk_hmax 2 press_events lit_exp None = Inr press_hmax"
  by code_simp

definition press_init :: "tp stn state" where
  "press_init = state_in (initial_state delta_stn_ops no_ifs press None 0)"

definition press_done :: "tp stn state" where
  "press_done = state_in (get_successor_state_with_compression delta_stn_ops no_ifs press press_init light True 0)"

lemma press_steps:
  "initial_state delta_stn_ops no_ifs press None 0 = Inr (Some press_init, 0)"
  "get_successor_state_with_compression delta_stn_ops no_ifs press press_init light True 0 = Inr (Some press_done, 3)"
  "the_goal press None = Inr lit_exp" "goal_reached no_ifs press press_done None = Inr True"
  "st_g press_done - st_g press_init = 2"
  by code_simp+

lemma press_hmax_run: "hmax_eval_core no_ifs id press_hmax press_init = Inr (Some 2)"
  by code_simp

lemma press_conditions:
  "condition_typed all_bool 2 lit_exp" "condition_typed all_bool 2 power_exp" "condition_typed all_bool 2 true_exp"
proof -
  show "condition_typed all_bool 2 lit_exp" unfolding condition_typed_def
    by (rule exI [of _ "TFluent lit"]) (simp add: lit_exp_def flatten_def all_bool_def lit_def)
  show "condition_typed all_bool 2 power_exp" unfolding condition_typed_def
    by (rule exI [of _ "TFluent (Fluent 1)"]) (simp add: power_exp_def flatten_def all_bool_def)
  show "condition_typed all_bool 2 true_exp" unfolding condition_typed_def
    by (rule exI [of _ "TConst (CBool True)"]) (simp add: true_exp_def flatten_def)
qed

lemma press_effect_typed: "typed_effect all_bool 2 \<lparr>eff_fluent = lit, eff_value = true_exp\<rparr>"
  by (auto simp: typed_effect_def lit_def all_bool_def true_exp_def flatten_def intro!: exI [of _ "TConst (CBool True)"])

lemma press_typed_problem: "typed_problem all_bool 2 press_events lit_exp"
  using press_conditions press_effect_typed
  by (simp add: typed_problem_def press_events_def typed_event_def press_start_def press_end_def all_bool_def)

lemma press_hmax_for: "hmax_for all_bool 2 press lit_exp press_hmax"
proof -
  have "dict_wf press_events" by code_simp
  moreover have "set (hmax_keys press_hmax) = {lit_exp, power_exp, [NFluent (Fluent 2)], [NFluent (Fluent 3)]}"
    by code_simp
  then have "keys_apart (set (hmax_keys press_hmax))" unfolding keys_apart_def by code_simp
  ultimately show ?thesis using press_fields press_hmax_eq press_typed_problem by (simp add: hmax_for_def)
qed

lemma press_compress_ok: "compress_ok no_ifs all_bool 2 press"
proof (rule contained_compress_ok [OF press_fields(3)])
  fix a evs i assume "dict_get (sp_events press) a = Some evs" "0 < i" "i < length evs"
  then have evs: "evs = [(\<lparr>tm_start = True, tm_delay = 0\<rparr>, press_start), (\<lparr>tm_start = False, tm_delay = 0\<rparr>, press_end)]"
    "i = 1" by (auto simp: press_fields(1) press_events_def split: if_splits)
  have "opened_before evs i = {power_exp}" "ev_conditions (snd (evs ! i)) = power_exp"
    by (auto simp: evs opened_before_def press_start_def press_end_def)
  moreover have "split_expression power_exp = Inr [power_exp]" by code_simp
  ultimately show "condition_typed all_bool 2 (ev_conditions (snd (evs ! i))) \<and>
        (\<forall>x \<in> opened_before evs i. condition_typed all_bool 2 x) \<and>
        (\<exists>cs. split_expression (ev_conditions (snd (evs ! i))) = Inr cs \<and>
          (\<forall>c \<in> set cs. c = [NConst (CBool True)] \<or>
             (\<exists>x \<in> opened_before evs i. \<exists>ds. split_expression x = Inr ds \<and> c \<in> set ds)))"
    using press_conditions(2) by simp
qed

lemma press_leads: "leads_to delta_stn_ops no_ifs press press_init press_done"
  by (rule leads_step [OF leads_refl press_steps(2)])

lemma press_reachable: "reachable delta_stn_ops no_ifs press 0 press_init"
  by (rule reach_initial [OF press_steps(1)])

lemma press_init_typed: "typed_values all_bool 2 (st_assignments press_init)"
proof -
  have "st_assignments press_init = [CBool False, CBool True]" by code_simp
  then show ?thesis by (auto simp: typed_values_def all_bool_def typed_assignment_def less_Suc_eq)
qed

end
