(* ===== verification/Relax_Conditions.thy ===== *)
theory Relax_Conditions
  imports HMax_Explicit Doubles
begin

text \<open>
  The conditions of \<open>DeleteRelaxationHeuristic\<close> in \<open>src/tamerlite/core/heuristics.py\<close>: conjunctions and
  disjunctions over leaf expressions, the rewriting of the leaves, and linear polynomials.
  Polynomials have the exact coefficients of the code's integers and fractions; the weights of a
  simple condition are the floats nearest to them (theory \<open>Doubles\<close>).
\<close>

section \<open>Formulas over leaves\<close>

datatype hnode = HAnd nat | HOr nat | HLeaf expression

type_synonym hexp = "hnode list"

text \<open>\<open>_convert_to_heuristic_expression\<close>: a depth-first walk, the top of the stack in front.\<close>

record convert_state =
  cv_stack :: "(int \<times> bool) list"
  cv_out :: hexp

definition convert_junction ::
    "(nat \<Rightarrow> hnode) \<Rightarrow> int list \<Rightarrow> int \<Rightarrow> bool \<Rightarrow> (int \<times> bool) list \<Rightarrow> hexp \<Rightarrow> convert_state" where
  "convert_junction mk ops i processed rest out =
     (if processed then \<lparr>cv_stack = rest, cv_out = out @ [mk (length ops)]\<rparr>
      else \<lparr>cv_stack = rev (map (\<lambda>j. (j, False)) ops) @ (i, True) # rest, cv_out = out\<rparr>)"

definition convert_round :: "expression \<Rightarrow> convert_state \<Rightarrow> (hexp + convert_state) res" where
  "convert_round e c = (case cv_stack c of
     [] \<Rightarrow> Inr (Inl (cv_out c))
   | (i, processed) # rest \<Rightarrow> rbind (py_nth e i) (\<lambda>n.
       let leaf = (\<lambda>h. Inr (Inr \<lparr>cv_stack = rest, cv_out = cv_out c @ [h]\<rparr>)) in
       case n of
         NConst v \<Rightarrow> leaf (if v = CBool True then HAnd 0 else HLeaf [n])
       | NFluent f \<Rightarrow> leaf (HLeaf [n])
       | NOp k ops \<Rightarrow>
           if k = ''and'' then Inr (Inr (convert_junction HAnd ops i processed rest (cv_out c)))
           else if k = ''or'' then Inr (Inr (convert_junction HOr ops i processed rest (cv_out c)))
           else rbind (extract_sub_expression e i) (\<lambda>s. leaf (HLeaf s))
       | NIf f rt ops \<Rightarrow> rbind (extract_sub_expression e i) (\<lambda>s. leaf (HLeaf s))))"

definition convert_to_heuristic_expression :: "expression \<Rightarrow> hexp res" where
  "convert_to_heuristic_expression e =
     run_rounds (convert_round e) \<lparr>cv_stack = [(int (length e) - 1, False)], cv_out = []\<rparr>"


section \<open>Linear polynomials\<close>

text \<open>The constant term is that of \<open>None\<close>.\<close>

type_synonym poly = "(fluent option, rat) dict"

definition poly_const :: "poly \<Rightarrow> rat" where
  "poly_const p = (case dict_get p None of None \<Rightarrow> 0 | Some q \<Rightarrow> q)"

definition poly_is_constant :: "poly \<Rightarrow> bool" where
  "poly_is_constant p = (length p = 1 \<and> dict_get p None \<noteq> None)"

definition poly_drop :: "poly \<Rightarrow> poly" where
  "poly_drop p = filter (\<lambda>(f, w). w \<noteq> 0 \<or> f = None) p"

definition poly_add_term :: "fluent option \<Rightarrow> rat \<Rightarrow> poly \<Rightarrow> poly" where
  "poly_add_term f w p = dict_set f ((case dict_get p f of None \<Rightarrow> 0 | Some v \<Rightarrow> v) + w) p"

definition poly_sub :: "poly \<Rightarrow> poly \<Rightarrow> poly" where
  "poly_sub p q = poly_drop (fold (\<lambda>(f, w). poly_add_term f (- w)) q p)"

definition poly_sum :: "poly list \<Rightarrow> poly" where
  "poly_sum ps = poly_drop (fold (fold (\<lambda>(f, w). poly_add_term f w)) ps [])"

definition poly_div :: "poly \<Rightarrow> poly \<Rightarrow> poly res" where
  "poly_div p d =
     (if \<not> poly_is_constant d then Inl ValueErr
      else if poly_const d = 0 \<and> p \<noteq> [] then Inl ValueErr
      else Inr (map (\<lambda>(f, w). (f, w / poly_const d)) p))"

definition poly_factor :: "poly \<Rightarrow> rat \<times> poly option \<Rightarrow> (rat \<times> poly option) res" where
  "poly_factor p ca = (case ca of (c, acc) \<Rightarrow>
     if poly_is_constant p then Inr (c * poly_const p, acc)
     else if acc \<noteq> None then Inl ValueErr
     else Inr (c, Some p))"

definition poly_times :: "poly list \<Rightarrow> poly res" where
  "poly_times ps = rbind (rfold poly_factor ps (1, None)) (\<lambda>(c, acc). Inr (case acc of
     None \<Rightarrow> [(None, c)]
   | Some p \<Rightarrow> if c = 0 then [(None, c)] else map (\<lambda>(f, w). (f, w * c)) p))"

text \<open>The operands as they are popped, the last one first.\<close>

definition poly_op :: "string \<Rightarrow> poly list \<Rightarrow> poly res" where
  "poly_op k ps =
     (if k = ''-'' then (case ps of b # a # _ \<Rightarrow> Inr (poly_sub a b) | _ \<Rightarrow> Inl IndexErr)
      else if k = ''+'' then Inr (poly_sum ps)
      else if k = ''/'' then (case ps of b # a # _ \<Rightarrow> poly_div a b | _ \<Rightarrow> Inl IndexErr)
      else poly_times ps)"

text \<open>One node; the top of the stack is in front.\<close>

fun poly_step :: "node \<Rightarrow> poly list \<Rightarrow> poly list res" where
  "poly_step (NConst c) st = (case as_rat c of Some q \<Rightarrow> Inr ([(None, q)] # st) | None \<Rightarrow> Inl ValueErr)"
| "poly_step (NFluent f) st = Inr ([(Some f, 1)] # st)"
| "poly_step (NOp k ops) st =
     (if k \<in> {''-'', ''+'', ''/'', ''*''} then
        if length st < length ops then Inl IndexErr
        else rbind (poly_op k (take (length ops) st)) (\<lambda>p. Inr (p # drop (length ops) st))
      else Inl ValueErr)"
| "poly_step (NIf f rt ops) st = Inl ValueErr"

definition to_linear_polynomial :: "expression \<Rightarrow> poly res" where
  "to_linear_polynomial e = rbind (rfold poly_step e []) (\<lambda>st. case st of [p] \<Rightarrow> Inr p | _ \<Rightarrow> Inl AssertErr)"

text \<open>The callers catch \<open>ValueError\<close>.\<close>

definition linear_polynomial :: "expression \<Rightarrow> poly option res" where
  "linear_polynomial e = (case to_linear_polynomial e of
     Inl x \<Rightarrow> if x = ValueErr then Inr None else Inl x
   | Inr p \<Rightarrow> Inr (Some p))"


section \<open>Rewriting a leaf\<close>

definition is_numeric_leaf_expression :: "fluent_domain list \<Rightarrow> expression \<Rightarrow> bool res" where
  "is_numeric_leaf_expression ds e = rbind (py_last e) (\<lambda>n. case n of
     NOp k ops \<Rightarrow>
       rbind (if k = ''not'' then rbind (py_nth ops 0) (py_nth e) else Inr n) (\<lambda>n'. case n' of
         NOp k' ops' \<Rightarrow>
           if k' \<noteq> ''=='' then Inr True
           else (case ops' of
             [a, b] \<Rightarrow> rbind (rbind (py_nth e a) (\<lambda>x. is_object_typed_operand x ds)) (\<lambda>oa.
               if oa then Inr False
               else rbind (rbind (py_nth e b) (\<lambda>x. is_object_typed_operand x ds)) (\<lambda>ob. Inr (\<not> ob)))
           | _ \<Rightarrow> Inl ValueErr)
       | _ \<Rightarrow> Inr False)
   | _ \<Rightarrow> Inr False)"

definition inverted_operands :: "expression \<Rightarrow> int list \<Rightarrow> (expression \<times> expression) res" where
  "inverted_operands e ops = (case ops of
     [a, b] \<Rightarrow>
       let x = py_slice e 0 (a + 1); y = py_slice e (a + 1) (b + 1)
       in Inr (shift_expression y (- int (length x)), shift_expression x (int (length y)))
   | _ \<Rightarrow> Inl ValueErr)"

definition comparison :: "string \<Rightarrow> expression \<times> expression \<Rightarrow> expression" where
  "comparison k p = (case p of (x, y) \<Rightarrow>
     x @ y @ [NOp k [int (length x) - 1, int (length x) + int (length y) - 1]])"

definition rewritten_comparison :: "expression \<Rightarrow> hexp option res" where
  "rewritten_comparison e = rbind (py_last e) (\<lambda>n. case n of
     NOp k ops \<Rightarrow>
       if k = ''=='' then rbind (inverted_operands e ops) (\<lambda>p.
         Inr (Some [HLeaf (butlast e @ [NOp ''<='' ops]), HLeaf (comparison ''<='' p), HAnd 2]))
       else if k = ''not'' then rbind (rbind (py_nth ops 0) (py_nth e)) (\<lambda>n'. case n' of
         NOp k' ops' \<Rightarrow>
           if k' = ''=='' then rbind (inverted_operands e ops') (\<lambda>p.
             Inr (Some [HLeaf (butlast (butlast e) @ [NOp ''<'' ops']), HLeaf (comparison ''<'' p), HOr 2]))
           else if k' = ''<'' then rbind (inverted_operands e ops') (\<lambda>p. Inr (Some [HLeaf (comparison ''<='' p)]))
           else if k' = ''<='' then rbind (inverted_operands e ops') (\<lambda>p. Inr (Some [HLeaf (comparison ''<'' p)]))
           else Inr None
       | _ \<Rightarrow> Inr None)
       else Inr None
   | _ \<Rightarrow> Inr None)"

text \<open>A comparison as the difference of its sides.\<close>

definition difference :: "expression \<Rightarrow> expression res" where
  "difference e = rbind (py_last e) (\<lambda>n. case n of
     NOp k ops \<Rightarrow> Inr (butlast e @ [NOp ''-'' ops])
   | _ \<Rightarrow> Inl AssertErr)"

definition simplify_numeric_leaf_node :: "expression \<Rightarrow> hexp option res" where
  "simplify_numeric_leaf_node e = rbind (rewritten_comparison e) (\<lambda>r. case r of
     Some (HLeaf x # ns) \<Rightarrow>
       rbind (difference x) (\<lambda>d. rbind (linear_polynomial d) (\<lambda>p. Inr (if p = None then None else r)))
   | _ \<Rightarrow> Inr r)"

definition object_domain :: "fluent_domain list \<Rightarrow> fluent \<Rightarrow> obj list option res" where
  "object_domain ds f = rbind (py_nth ds (int (fl_idx f))) (\<lambda>d.
     Inr (if fd_kind d = KObject then Some (fd_objects d) else None))"

definition equals_object :: "fluent \<Rightarrow> obj \<Rightarrow> hnode" where
  "equals_object f ob = HLeaf [NFluent f, NConst (CObj ob), NOp ''=='' [0, 1]]"

definition simplify_fluent_not_equals_object :: "fluent_domain list \<Rightarrow> expression \<Rightarrow> hexp option res" where
  "simplify_fluent_not_equals_object ds e = (case e of
     [NFluent f, NConst (CObj ob), NOp k _, NOp k' _] \<Rightarrow>
       if k = ''=='' \<and> k' = ''not'' then
         rbind (object_domain ds f) (\<lambda>d. case d of
           None \<Rightarrow> Inl AssertErr
         | Some objs \<Rightarrow>
             let ns = map (equals_object f) (filter (\<lambda>x. x \<noteq> ob) objs) in
             Inr (Some (if ns = [] then [HLeaf [NConst (CBool False)]]
                        else if length ns > 1 then ns @ [HOr (length ns)] else ns)))
       else Inr None
   | _ \<Rightarrow> Inr None)"

definition both_equal :: "fluent \<Rightarrow> fluent \<Rightarrow> obj \<times> obj \<Rightarrow> hexp" where
  "both_equal f g p = (case p of (a, b) \<Rightarrow> [equals_object f a, equals_object g b, HAnd 2])"

definition disjunction :: "hexp list \<Rightarrow> hexp" where
  "disjunction ds = (if ds = [] then [HLeaf [NConst (CBool False)]]
     else concat ds @ (if length ds > 1 then [HOr (length ds)] else []))"

definition simplify_object_equality :: "fluent_domain list \<Rightarrow> expression \<Rightarrow> hexp option res" where
  "simplify_object_equality ds e = (case e of
     NFluent f # NFluent g # NOp k ops # rest \<Rightarrow>
       if k = ''=='' \<and> ops = [0, 1] \<and> (rest = [] \<or> rest = [NOp ''not'' [2]]) then
         rbind (object_domain ds f) (\<lambda>df. rbind (object_domain ds g) (\<lambda>dg. case (df, dg) of
           (Some as, Some bs) \<Rightarrow>
             Inr (Some (disjunction (map (both_equal f g)
               (if rest = [] then map (\<lambda>a. (a, a)) (filter (\<lambda>a. a \<in> set bs) as)
                else filter (\<lambda>(a, b). a \<noteq> b) (List.product as bs)))))
         | _ \<Rightarrow> Inr None))
       else Inr None
   | _ \<Rightarrow> Inr None)"

definition simplify_leaf :: "bool \<Rightarrow> fluent_domain list \<Rightarrow> expression \<Rightarrow> hexp option res" where
  "simplify_leaf no_numbers ds e =
     (if has_interpreted_function e then Inr None
      else rbind (is_numeric_leaf_expression ds e) (\<lambda>num.
        if num then if no_numbers then Inr None else simplify_numeric_leaf_node e
        else rbind (simplify_fluent_not_equals_object ds e) (\<lambda>r. case r of
          Some ns \<Rightarrow> Inr r
        | None \<Rightarrow> simplify_object_equality ds e)))"

fun simplify_hnode :: "bool \<Rightarrow> fluent_domain list \<Rightarrow> hnode \<Rightarrow> hexp res" where
  "simplify_hnode no_numbers ds (HLeaf e) = rbind (simplify_leaf no_numbers ds e) (\<lambda>r.
     Inr (case r of None \<Rightarrow> [HLeaf e] | Some ns \<Rightarrow> ns))"
| "simplify_hnode no_numbers ds h = Inr [h]"

definition simplify_condition :: "bool \<Rightarrow> fluent_domain list \<Rightarrow> hexp \<Rightarrow> hexp res" where
  "simplify_condition no_numbers ds h = rbind (rmap (simplify_hnode no_numbers ds) h) (\<lambda>hs. Inr (concat hs))"


section \<open>The condition of an operator\<close>

fun join_conditions :: "expression list \<Rightarrow> expression \<Rightarrow> int list \<Rightarrow> (expression \<times> int list) option" where
  "join_conditions [] cond ops = Some (cond, ops)"
| "join_conditions (c # cs) cond ops =
     (if exp_eq c [NConst (CBool False)] then None
      else if c \<noteq> [] \<and> \<not> exp_eq c [NConst (CBool True)] then
        let cond' = cond @ shift_expression c (int (length cond))
        in join_conditions cs cond' (ops @ [int (length cond') - 1])
      else join_conditions cs cond ops)"

text \<open>\<open>None\<close>: the operator is not applicable.\<close>

definition build_operator_condition ::
    "bool \<Rightarrow> fluent_domain list \<Rightarrow> expression list \<Rightarrow> fluent \<Rightarrow> hexp option res" where
  "build_operator_condition no_numbers ds cs f = (case join_conditions cs [] [] of
     None \<Rightarrow> Inr None
   | Some (cond, ops) \<Rightarrow>
       let cond' = cond @ [NFluent f]; ops' = ops @ [int (length cond)];
           e = (if length ops' > 1 then cond' @ [NOp ''and'' ops'] else cond') in
       rbind (convert_to_heuristic_expression e) (\<lambda>h.
       rbind (simplify_condition no_numbers ds h) (\<lambda>h'. Inr (Some h'))))"


section \<open>Simple numeric conditions\<close>

text \<open>\<open>sum (w * f) + k \<le> 0\<close>; the constant of a strict one is raised by the constructor.\<close>

record simple_cond =
  sc_fluents :: "fluent list"
  sc_weights :: "rat list"
  sc_const :: rat
  sc_strict :: bool

definition extract_fluents_weights :: "expression \<Rightarrow> simple_cond option res" where
  "extract_fluents_weights e = rbind (py_last e) (\<lambda>n. case n of
     NOp k ops \<Rightarrow>
       if k = ''<'' \<or> k = ''<='' then
         rbind (linear_polynomial (butlast e @ [NOp ''-'' ops])) (\<lambda>r. Inr (case r of
           None \<Rightarrow> None
         | Some p \<Rightarrow>
             let ts = filter (\<lambda>(f, w). f \<noteq> None) p in
             Some \<lparr>sc_fluents = map (\<lambda>(f, w). the f) ts, sc_weights = map (\<lambda>(f, w). to_float w) ts,
                   sc_const = to_float (poly_const p), sc_strict = (k = ''<'')\<rparr>))
       else Inr None
   | _ \<Rightarrow> Inr None)"

end
