(* ===== verification/Relax_Costs.thy ===== *)
theory Relax_Costs
  imports Novelty
begin

text \<open>
  Costs with an infinity, and the cost of a condition given the costs of its leaves: the
  functions \<open>_conjunction\<close>, \<open>_expression_cost\<close> and \<open>_supporting_conditions\<close> of
  \<open>src/tamerlite/core/heuristics.py\<close>.  A cost is a number of events, a float the code adds and
  multiplies without rounding up to 2 to the power of 53, or \<open>math.inf\<close>.
\<close>

section \<open>Costs\<close>

datatype cost = Fin rat | Inf

instantiation cost :: linorder
begin

fun less_eq_cost :: "cost \<Rightarrow> cost \<Rightarrow> bool" where
  "less_eq_cost x Inf = True"
| "less_eq_cost Inf (Fin q) = False"
| "less_eq_cost (Fin p) (Fin q) = (p \<le> q)"

definition less_cost :: "cost \<Rightarrow> cost \<Rightarrow> bool" where
  "less_cost x y = (x \<le> y \<and> \<not> y \<le> x)"

instance
proof
  fix x y z :: cost
  show "x < y \<longleftrightarrow> x \<le> y \<and> \<not> y \<le> x" by (rule less_cost_def)
  show "x \<le> x" by (cases x) auto
  show "x \<le> y \<Longrightarrow> y \<le> z \<Longrightarrow> x \<le> z" by (cases x; cases y; cases z) auto
  show "x \<le> y \<Longrightarrow> y \<le> x \<Longrightarrow> x = y" by (cases x; cases y) auto
  show "x \<le> y \<or> y \<le> x" by (cases x; cases y) auto
qed

end

instantiation cost :: comm_monoid_add
begin

definition zero_cost :: cost where
  "zero_cost = Fin 0"

fun plus_cost :: "cost \<Rightarrow> cost \<Rightarrow> cost" where
  "plus_cost (Fin p) (Fin q) = Fin (p + q)"
| "plus_cost x y = Inf"

instance
proof
  fix x y z :: cost
  show "x + y + z = x + (y + z)" by (cases x; cases y; cases z) auto
  show "x + y = y + x" by (cases x; cases y) auto
  show "0 + x = x" by (cases x) (auto simp: zero_cost_def)
qed

end

lemma cost_simps [simp]:
  "Fin p < Fin q \<longleftrightarrow> p < q" "x < Inf \<longleftrightarrow> x \<noteq> Inf" "\<not> Inf < x" "Inf \<le> x \<longleftrightarrow> x = Inf"
  "x + Inf = Inf" "Inf + x = Inf"
  by (cases x; auto simp: less_cost_def)+

instance cost :: ordered_comm_monoid_add
proof
  fix x y z :: cost
  show "x \<le> y \<Longrightarrow> z + x \<le> z + y" by (cases x; cases y; cases z) auto
qed


section \<open>Conditions over the numbers of leaves\<close>

datatype inode = ILeaf nat | IAnd nat | IOr nat

type_synonym iexp = "inode list"

definition conjunction :: "iexp list \<Rightarrow> iexp" where
  "conjunction parts = (let ne = filter (\<lambda>p. p \<noteq> []) parts
     in concat ne @ (if length ne > 1 then [IAnd (length ne)] else []))"

definition cost_and :: "bool \<Rightarrow> cost list \<Rightarrow> cost" where
  "cost_and hmax xs = fold (\<lambda>x r. if hmax then max r x else r + x) xs (Fin 0)"

definition cost_or :: "cost list \<Rightarrow> cost" where
  "cost_or xs = fold (\<lambda>x r. if x < r then x else r) xs Inf"

text \<open>One node; the top of the stack is in front.\<close>

fun cost_step :: "cost list \<Rightarrow> bool \<Rightarrow> inode \<Rightarrow> cost list \<Rightarrow> cost list res" where
  "cost_step costs hmax (ILeaf c) st = rbind (py_nth costs (int c)) (\<lambda>x. Inr (x # st))"
| "cost_step costs hmax (IAnd n) st =
     (if length st < n then Inl IndexErr else Inr (cost_and hmax (take n st) # drop n st))"
| "cost_step costs hmax (IOr n) st =
     (if length st < n then Inl IndexErr else Inr (cost_or (take n st) # drop n st))"

definition expression_cost :: "iexp \<Rightarrow> cost list \<Rightarrow> bool \<Rightarrow> cost res" where
  "expression_cost e costs hmax =
     (if e = [] then Inr (Fin 0)
      else case last e of
        ILeaf c \<Rightarrow> py_nth costs (int c)
      | _ \<Rightarrow> rbind (rfold (cost_step costs hmax) e []) (\<lambda>st. case st of [x] \<Rightarrow> Inr x | _ \<Rightarrow> Inl AssertErr))"

definition support_and :: "(cost \<times> nat list) list \<Rightarrow> cost \<times> nat list" where
  "support_and xs = fold (\<lambda>(x, ol) (r, leaves). (r + x, leaves @ ol)) xs (Fin 0, [])"

definition support_or :: "(cost \<times> nat list) list \<Rightarrow> cost \<times> nat list" where
  "support_or xs = fold (\<lambda>(x, ol) (r, leaves). if x < r then (x, ol) else (r, leaves)) xs (Inf, [])"

fun support_step :: "cost list \<Rightarrow> inode \<Rightarrow> (cost \<times> nat list) list \<Rightarrow> (cost \<times> nat list) list res" where
  "support_step costs (ILeaf c) st = rbind (py_nth costs (int c)) (\<lambda>x. Inr ((x, [c]) # st))"
| "support_step costs (IAnd n) st =
     (if length st < n then Inl IndexErr else Inr (support_and (take n st) # drop n st))"
| "support_step costs (IOr n) st =
     (if length st < n then Inl IndexErr else Inr (support_or (take n st) # drop n st))"

definition supporting_conditions :: "iexp \<Rightarrow> cost list \<Rightarrow> nat list res" where
  "supporting_conditions e costs = rbind (rfold (support_step costs) e []) (\<lambda>st.
     case st of [(x, leaves)] \<Rightarrow> Inr leaves | _ \<Rightarrow> Inl AssertErr)"

end
