(* ===== verification/Relax_Operators.thy ===== *)
theory Relax_Operators
  imports Relax_Conditions Relax_Costs
begin

text \<open>
  The constructor of \<open>DeleteRelaxationHeuristic\<close>: its operators, the numeric conditions they
  achieve, and the tables indexed by the numbers of leaves (\<open>_build_indexed_structures\<close>).
  Sets and dictionaries keyed by expressions are lists searched with \<open>exp_eq\<close>.
\<close>

section \<open>Operators\<close>

datatype heuristic_kind = HFF | HADD | HMAX

record rop =
  ro_action :: action
  ro_effects :: "(fluent \<times> const) list"
  ro_increase :: "(fluent, rat) dict"
  ro_assign :: "(fluent, rat) dict"
  ro_complex :: "(fluent, expression) dict"
  ro_cost :: rat

definition complex_effect :: "effect \<Rightarrow> rop \<Rightarrow> rop" where
  "complex_effect eff r = r\<lparr>ro_complex := dict_set (eff_fluent eff) (eff_value eff) (ro_complex r)\<rparr>"

definition update_numeric_effects :: "effect \<Rightarrow> rop \<Rightarrow> rop res" where
  "update_numeric_effects eff r =
     (case (case eff_value eff of [NConst c] \<Rightarrow> as_rat c | _ \<Rightarrow> None) of
        Some q \<Rightarrow> Inr (r\<lparr>ro_assign := dict_set (eff_fluent eff) q (ro_assign r)\<rparr>)
      | None \<Rightarrow> rbind (linear_polynomial (eff_value eff)) (\<lambda>pl. Inr (case pl of
          None \<Rightarrow> complex_effect eff r
        | Some p \<Rightarrow>
            let q = dict_del None p in
            if length q = 1 \<and> dict_get q (Some (eff_fluent eff)) = Some 1
            then r\<lparr>ro_increase := dict_set (eff_fluent eff) (poly_const p) (ro_increase r)\<rparr>
            else complex_effect eff r)))"

definition add_effect :: "fluent_domain list \<Rightarrow> effect \<Rightarrow> rop \<Rightarrow> rop res" where
  "add_effect ds eff r = rbind (py_nth ds (int (fl_idx (eff_fluent eff)))) (\<lambda>d.
     let f = eff_fluent eff in
     case fd_kind d of
       KBool \<Rightarrow> Inr (r\<lparr>ro_effects := ro_effects r @ (case eff_value eff of
          [NConst (CBool b)] \<Rightarrow> [(f, CBool b)]
        | _ \<Rightarrow> [(f, CBool True), (f, CBool False)])\<rparr>)
     | KObject \<Rightarrow> Inr (r\<lparr>ro_effects := ro_effects r @ (case eff_value eff of
          [NConst (CObj ob)] \<Rightarrow> [(f, CObj ob)]
        | _ \<Rightarrow> map (\<lambda>ob. (f, CObj ob)) (fd_objects d))\<rparr>)
     | _ \<Rightarrow>
        if dict_get (ro_increase r) f \<noteq> None \<or> dict_get (ro_assign r) f \<noteq> None \<or> dict_get (ro_complex r) f \<noteq> None
        then Inl AssertErr
        else update_numeric_effects eff r)"

definition event_rop :: "fluent_domain list \<Rightarrow> action \<Rightarrow> fluent \<Rightarrow> event \<Rightarrow> rop res" where
  "event_rop ds a f e = rfold (add_effect ds) (ev_effects e)
     \<lparr>ro_action = a, ro_effects = [(f, CBool True)], ro_increase = [], ro_assign = [], ro_complex = [], ro_cost = 1\<rparr>"

text \<open>The events of one action, from the \<open>i\<close>-th on: \<open>f\<close> is the next free fluent.\<close>

fun action_rops ::
    "bool \<Rightarrow> fluent_domain list \<Rightarrow> action option \<Rightarrow> action \<Rightarrow> nat \<Rightarrow> fluent \<Rightarrow> nat \<Rightarrow> timed_event list \<Rightarrow>
     (rop \<times> hexp) list \<Rightarrow> (rop \<times> hexp) list res" where
  "action_rops no_numbers ds timed a i cond f [] ops = Inr ops"
| "action_rops no_numbers ds timed a i cond f ((t, e) # le) ops =
     rbind (event_rop ds a (Fluent f) e) (\<lambda>r.
     rbind (get_event_conditions e) (\<lambda>cs.
     rbind (build_operator_condition no_numbers ds cs cond) (\<lambda>h.
     action_rops no_numbers ds timed a (i + 1) (Fluent f) (f + 1) le
       (case h of Some c \<Rightarrow> if i = 0 \<and> timed = Some a then ops else ops @ [(r, c)] | None \<Rightarrow> ops))))"

fun relax_operators ::
    "bool \<Rightarrow> fluent_domain list \<Rightarrow> action option \<Rightarrow> (action, timed_event list) dict \<Rightarrow> action list \<Rightarrow> nat \<Rightarrow>
     (rop \<times> hexp) list \<Rightarrow> (action, fluent list) dict \<Rightarrow>
     ((rop \<times> hexp) list \<times> (action, fluent list) dict) res" where
  "relax_operators no_numbers ds timed evs [] n ops extra = Inr (ops, extra)"
| "relax_operators no_numbers ds timed evs (a # as) n ops extra = (case dict_get evs a of
     None \<Rightarrow> relax_operators no_numbers ds timed evs as n ops extra
   | Some le \<Rightarrow>
       rbind (action_rops no_numbers ds timed a 0 (Fluent (n + length le - 1)) n le ops) (\<lambda>ops'.
       relax_operators no_numbers ds timed evs as (n + length le) ops'
         (dict_set a (map Fluent [n..<n + length le]) extra)))"

definition all_domains :: "fluent_domain list \<Rightarrow> (action, timed_event list) dict \<Rightarrow> action list \<Rightarrow> fluent_domain list" where
  "all_domains ds evs as = ds @ concat (map (\<lambda>a. case dict_get evs a of
     None \<Rightarrow> []
   | Some le \<Rightarrow> map (\<lambda>_. \<lparr>fd_kind = KBool, fd_objects = []\<rparr>) le) as)"

definition relax_extra_goals :: "(action, fluent list) dict \<Rightarrow> hexp res" where
  "relax_extra_goals extra = rbind (rmap (\<lambda>(_, fs). py_last fs) extra) (\<lambda>fs.
     convert_to_heuristic_expression (map NFluent fs @ [NOp ''and'' (map int [0..<length fs])]))"


section \<open>Numeric conditions\<close>

definition exp_mem :: "expression \<Rightarrow> expression list \<Rightarrow> bool" where
  "exp_mem e es = list_ex (exp_eq e) es"

record leaf_kinds =
  lk_simple :: "(expression \<times> simple_cond) list"
  lk_complex :: "expression list"
  lk_ifs :: "expression list"

definition add_exp :: "expression \<Rightarrow> expression list \<Rightarrow> expression list" where
  "add_exp e es = (if exp_mem e es then es else es @ [e])"

definition update_numeric_conditions :: "bool \<Rightarrow> expression \<Rightarrow> leaf_kinds \<Rightarrow> leaf_kinds res" where
  "update_numeric_conditions no_numbers e k =
     (if no_numbers then Inr (k\<lparr>lk_complex := add_exp e (lk_complex k)\<rparr>)
      else rbind (extract_fluents_weights e) (\<lambda>sc. Inr (case sc of
        None \<Rightarrow> k\<lparr>lk_complex := add_exp e (lk_complex k)\<rparr>
      | Some c \<Rightarrow> k\<lparr>lk_simple := exp_set e c (lk_simple k)\<rparr>)))"

fun note_leaf :: "bool \<Rightarrow> fluent_domain list \<Rightarrow> hnode \<Rightarrow> leaf_kinds \<Rightarrow> leaf_kinds res" where
  "note_leaf no_numbers ds (HLeaf e) k =
     (if has_interpreted_function e then Inr (k\<lparr>lk_ifs := add_exp e (lk_ifs k)\<rparr>)
      else rbind (is_numeric_leaf_expression ds e) (\<lambda>num.
        if num then update_numeric_conditions no_numbers e k else Inr k))"
| "note_leaf no_numbers ds _ k = Inr k"

definition has_assign_or_complex :: "rop \<Rightarrow> fluent list \<Rightarrow> bool" where
  "has_assign_or_complex r fs = list_ex (\<lambda>f. dict_get (ro_assign r) f \<noteq> None \<or> dict_get (ro_complex r) f \<noteq> None) fs"

definition net_effect :: "bool \<Rightarrow> rop \<Rightarrow> fluent list \<Rightarrow> rat list \<Rightarrow> rat" where
  "net_effect inadmissible r fs ws = fold (\<lambda>(f, w) n.
     case dict_get (ro_increase r) f of
       Some k \<Rightarrow> float_add n (float_mul w k)
     | None \<Rightarrow> if inadmissible \<and> (dict_get (ro_assign r) f \<noteq> None \<or> dict_get (ro_complex r) f \<noteq> None)
               then float_add n (- 1) else n) (zip fs ws) 0"

text \<open>The greatest negative net effect so far, \<open>None\<close> for minus infinity, comes back.\<close>

definition achieves :: "bool \<Rightarrow> rop \<Rightarrow> simple_cond \<Rightarrow> rat option \<Rightarrow> bool \<times> rat option" where
  "achieves inadmissible r c mx =
     (let assign = has_assign_or_complex r (sc_fluents c) in
      if assign \<and> \<not> inadmissible then (True, mx)
      else let n = net_effect inadmissible r (sc_fluents c) (sc_weights c) in
        (n < 0 \<or> assign, if n < 0 \<and> (case mx of None \<Rightarrow> True | Some m \<Rightarrow> m < n) then Some n else mx))"

fun achieved_conds ::
    "bool \<Rightarrow> rop \<Rightarrow> (expression \<times> simple_cond) list \<Rightarrow> rat option \<Rightarrow> expression list \<times> rat option" where
  "achieved_conds inadmissible r [] mx = ([], mx)"
| "achieved_conds inadmissible r ((e, c) # cs) mx =
     (case achieves inadmissible r c mx of (yes, mx') \<Rightarrow>
      case achieved_conds inadmissible r cs mx' of (es, mx'') \<Rightarrow> (if yes then e # es else es, mx''))"

fun all_achieved ::
    "bool \<Rightarrow> rop list \<Rightarrow> (expression \<times> simple_cond) list \<Rightarrow> rat option \<Rightarrow> expression list list \<times> rat option" where
  "all_achieved inadmissible [] cs mx = ([], mx)"
| "all_achieved inadmissible (r # rs) cs mx =
     (case achieved_conds inadmissible r cs mx of (es, mx') \<Rightarrow>
      case all_achieved inadmissible rs cs mx' of (ess, mx'') \<Rightarrow> (es # ess, mx''))"

text \<open>With no achiever to bound it the constant of a strict condition becomes infinite.\<close>

definition raised_const :: "rat option \<Rightarrow> simple_cond \<Rightarrow> cost" where
  "raised_const mx c = (if sc_strict c
     then case mx of None \<Rightarrow> Inf | Some m \<Rightarrow> Fin (float_add (sc_const c) (float_div (- m) 2))
     else Fin (sc_const c))"

record ncond =
  nc_fluents :: "fluent list"
  nc_weights :: "rat list"
  nc_const :: cost

definition ncond_of :: "rat option \<Rightarrow> simple_cond \<Rightarrow> ncond" where
  "ncond_of mx c = \<lparr>nc_fluents = sc_fluents c, nc_weights = sc_weights c, nc_const = raised_const mx c\<rparr>"


section \<open>Numbering the leaves\<close>

record index =
  ix_cids :: "(expression \<times> nat) list"
  ix_readers :: "nat list list"

definition intern :: "expression \<Rightarrow> index \<Rightarrow> nat \<times> index" where
  "intern e ix = (case exp_get (ix_cids ix) e of
     Some c \<Rightarrow> (c, ix)
   | None \<Rightarrow> let c = length (ix_readers ix) in
       (c, \<lparr>ix_cids = exp_set e c (ix_cids ix), ix_readers = ix_readers ix @ [[]]\<rparr>))"

definition add_cond_reader :: "nat \<Rightarrow> nat \<Rightarrow> nat list list \<Rightarrow> nat list list" where
  "add_cond_reader c op rs = (if rs ! c = [] \<or> last (rs ! c) \<noteq> op then rs[c := rs ! c @ [op]] else rs)"

fun index_node :: "nat option \<Rightarrow> hnode \<Rightarrow> iexp \<times> index \<Rightarrow> iexp \<times> index" where
  "index_node owner (HLeaf e) (out, ix) = (case intern e ix of (c, ix') \<Rightarrow>
     (out @ [ILeaf c], case owner of None \<Rightarrow> ix'
        | Some op \<Rightarrow> ix'\<lparr>ix_readers := add_cond_reader c op (ix_readers ix')\<rparr>))"
| "index_node owner (HAnd n) (out, ix) = (out @ [IAnd n], ix)"
| "index_node owner (HOr n) (out, ix) = (out @ [IOr n], ix)"

definition index_expression :: "nat option \<Rightarrow> hexp \<Rightarrow> index \<Rightarrow> iexp \<times> index" where
  "index_expression owner h ix = fold (index_node owner) h ([], ix)"

fun index_conditions :: "nat \<Rightarrow> hexp list \<Rightarrow> index \<Rightarrow> iexp list \<times> index" where
  "index_conditions op [] ix = ([], ix)"
| "index_conditions op (h # hs) ix =
     (case index_expression (Some op) h ix of (e, ix') \<Rightarrow>
      case index_conditions (op + 1) hs ix' of (es, ix'') \<Rightarrow> (e # es, ix''))"

fun add_goal_reader :: "nat \<Rightarrow> inode \<Rightarrow> nat list list \<Rightarrow> nat list list" where
  "add_goal_reader op (ILeaf c) rs = add_cond_reader c op rs"
| "add_goal_reader op _ rs = rs"

fun intern_all :: "fluent list \<Rightarrow> index \<Rightarrow> nat list \<times> index" where
  "intern_all [] ix = ([], ix)"
| "intern_all (f # fs) ix =
     (case intern [NFluent f] ix of (c, ix') \<Rightarrow> case intern_all fs ix' of (cs, ix'') \<Rightarrow> (c # cs, ix''))"

fun intern_extra :: "(action, fluent list) dict \<Rightarrow> index \<Rightarrow> (action \<times> nat list) list \<times> index" where
  "intern_extra [] ix = ([], ix)"
| "intern_extra ((a, fs) # d) ix =
     (case intern_all fs ix of (cs, ix') \<Rightarrow> case intern_extra d ix' of (xs, ix'') \<Rightarrow> ((a, cs) # xs, ix''))"

fun effect_fact :: "fluent \<times> const \<Rightarrow> expression" where
  "effect_fact (f, CBool True) = [NFluent f]"
| "effect_fact (f, CBool False) = [NFluent f, NOp ''not'' [0]]"
| "effect_fact (f, c) = [NFluent f, NConst c, NOp ''=='' [0, 1]]"

definition effect_cids :: "(expression \<times> nat) list \<Rightarrow> rop \<Rightarrow> nat list" where
  "effect_cids cids r = List.map_filter (\<lambda>p. exp_get cids (effect_fact p)) (ro_effects r)"

text \<open>How the initial cost of a leaf is computed; \<open>LOther\<close> ones are reached through effects only.\<close>

datatype leaf_class =
    LEvaluated cost
  | LTrue nat
  | LFalse nat
  | LEqual nat node
  | LOther

definition classify_leaf :: "leaf_kinds \<Rightarrow> nat \<Rightarrow> expression \<Rightarrow> leaf_class" where
  "classify_leaf k num e =
     (if exp_mem e (lk_ifs k) \<or> exp_mem e (lk_complex k) then LEvaluated (Fin 1)
      else if exp_get (lk_simple k) e \<noteq> None then LEvaluated Inf
      else case e of
        NFluent f # rest \<Rightarrow>
          if fl_idx f < num then
            (case rest of
               [] \<Rightarrow> LTrue (fl_idx f)
             | [n] \<Rightarrow> if n = NOp ''not'' [0] then LFalse (fl_idx f) else LOther
             | [v, n] \<Rightarrow> if n = NOp ''=='' [0, 1] then LEqual (fl_idx f) v else LOther
             | _ \<Rightarrow> LOther)
          else LOther
      | _ \<Rightarrow> LOther)"


section \<open>The object\<close>

record relaxation =
  rx_kind :: heuristic_kind
  rx_inadmissible :: bool
  rx_events :: "(action, timed_event list) dict"
  rx_operators :: "rop list"
  rx_op_conditions :: "iexp list"
  rx_goals :: iexp
  rx_op_effects :: "nat list list"
  rx_op_numeric :: "(nat \<times> ncond) list list"
  rx_drain :: bool
  rx_extra_cids :: "(action \<times> nat list) list"
  rx_leaves :: "(expression \<times> leaf_class) list"
  rx_readers :: "nat list list"

definition rx_goal_op :: "relaxation \<Rightarrow> nat" where
  "rx_goal_op R = length (rx_operators R)"

definition op_distinct_leaves :: "relaxation \<Rightarrow> nat \<Rightarrow> nat" where
  "op_distinct_leaves R op = sum_list (map (\<lambda>rs. count_list rs op) (rx_readers R))"

fun is_or_node :: "inode \<Rightarrow> bool" where
  "is_or_node (IOr n) = True"
| "is_or_node _ = False"

definition contains_or_node :: "iexp \<Rightarrow> bool" where
  "contains_or_node e = list_ex is_or_node e"

definition numeric_cids ::
    "leaf_kinds \<Rightarrow> rat option \<Rightarrow> (expression \<times> nat) list \<Rightarrow> expression list \<Rightarrow> (nat \<times> ncond) list res" where
  "numeric_cids k mx cids es = rmap (\<lambda>e. case (exp_get cids e, exp_get (lk_simple k) e) of
     (Some c, Some sc) \<Rightarrow> Inr (c, ncond_of mx sc)
   | _ \<Rightarrow> Inl KeyErr) es"

definition build_indexed_structures ::
    "heuristic_kind \<Rightarrow> bool \<Rightarrow> nat \<Rightarrow> (action, timed_event list) dict \<Rightarrow> (rop \<times> hexp) list \<Rightarrow>
     (action, fluent list) dict \<Rightarrow> hexp \<Rightarrow> hexp \<Rightarrow> leaf_kinds \<Rightarrow> expression list list \<Rightarrow> rat option \<Rightarrow> relaxation res" where
  "build_indexed_structures kind inadmissible num evs ops extra goals xgoals k achieved mx =
     (case index_conditions 0 (map snd ops) \<lparr>ix_cids = [], ix_readers = []\<rparr> of (conds, ix1) \<Rightarrow>
      case index_expression None goals ix1 of (igoals, ix2) \<Rightarrow>
      case index_expression None xgoals ix2 of (iextra, ix3) \<Rightarrow>
      let goal = (if kind = HFF then igoals else conjunction [igoals, iextra]);
          readers = fold (add_goal_reader (length ops)) goal (ix_readers ix3);
          cids = ix_cids ix3 in
      rbind (rmap (numeric_cids k mx cids) achieved) (\<lambda>numeric.
      case intern_extra extra (ix3\<lparr>ix_readers := readers\<rparr>) of (xcids, ix4) \<Rightarrow>
      Inr \<lparr>rx_kind = kind, rx_inadmissible = inadmissible, rx_events = evs, rx_operators = map fst ops,
        rx_op_conditions = conds @ [goal], rx_goals = igoals,
        rx_op_effects = map (effect_cids cids \<circ> fst) ops, rx_op_numeric = numeric,
        rx_drain = (kind = HMAX \<and> \<not> distinct (concat (map (map fst) numeric))),
        rx_extra_cids = xcids,
        rx_leaves = map (\<lambda>(e, _). (e, classify_leaf k num e)) (ix_cids ix4),
        rx_readers = ix_readers ix4\<rparr>))"

definition mk_relax ::
    "action list \<Rightarrow> fluent_domain list \<Rightarrow> (action, timed_event list) dict \<Rightarrow> expression \<Rightarrow> heuristic_kind \<Rightarrow>
     bool \<Rightarrow> bool \<Rightarrow> action option \<Rightarrow> relaxation res" where
  "mk_relax as domains evs goal kind inadmissible no_numbers timed =
     (let ds = all_domains domains evs as in
      rbind (relax_operators no_numbers ds timed evs as (length domains) [] []) (\<lambda>(ops, extra).
      rbind (rbind (convert_to_heuristic_expression goal) (simplify_condition no_numbers ds)) (\<lambda>goals.
      rbind (relax_extra_goals extra) (\<lambda>xgoals.
      rbind (rfold (note_leaf no_numbers ds) (concat (map snd ops) @ goals)
        \<lparr>lk_simple = [], lk_complex = [], lk_ifs = []\<rparr>) (\<lambda>k.
      case all_achieved inadmissible (map fst ops) (lk_simple k) None of (achieved, mx) \<Rightarrow>
      build_indexed_structures kind inadmissible (length domains) evs ops extra goals xgoals k achieved mx)))))"

end
