(* ===== verification/Relax_Cost_Facts.thy ===== *)
theory Relax_Cost_Facts
  imports Relax_Costs
begin

text \<open>
  The cost of a condition as a function of the costs of its leaves: it is defined on well-formed
  conditions, depends on their leaves only, is monotone, and a change of the costs above a bound
  changes it above the bound only.
\<close>

section \<open>Well-formed conditions\<close>

text \<open>The number of operands on the stack after \<open>e\<close>; \<open>None\<close> if one was missing.\<close>

fun height :: "iexp \<Rightarrow> nat \<Rightarrow> nat option" where
  "height [] h = Some h"
| "height (ILeaf c # e) h = height e (Suc h)"
| "height (IAnd n # e) h = (if n \<le> h then height e (Suc (h - n)) else None)"
| "height (IOr n # e) h = (if n \<le> h then height e (Suc (h - n)) else None)"

fun inode_leaves :: "inode \<Rightarrow> nat set" where
  "inode_leaves (ILeaf c) = {c}"
| "inode_leaves _ = {}"

definition cond_leaves :: "iexp \<Rightarrow> nat set" where
  "cond_leaves e = (\<Union>x \<in> set e. inode_leaves x)"

lemma cond_leaves_simps [simp]:
  "cond_leaves [] = {}"
  "cond_leaves (x # e) = inode_leaves x \<union> cond_leaves e"
  "cond_leaves (d @ e) = cond_leaves d \<union> cond_leaves e"
  by (auto simp: cond_leaves_def)

definition cond_wf :: "nat \<Rightarrow> iexp \<Rightarrow> bool" where
  "cond_wf n e \<longleftrightarrow> height e 0 = Some 1 \<and> (\<forall>c \<in> cond_leaves e. c < n)"

lemma height_append: "height (d @ e) h = (case height d h of None \<Rightarrow> None | Some k \<Rightarrow> height e k)"
  by (induction d h rule: height.induct) auto

lemma height_pos: "height e h = Some k \<Longrightarrow> e \<noteq> [] \<Longrightarrow> 0 < k"
proof (induction e h rule: height.induct)
  case (2 c e h)
  then show ?case by (cases e) auto
next
  case (3 n e h)
  then show ?case by (cases e) (auto split: if_splits)
next
  case (4 n e h)
  then show ?case by (cases e) (auto split: if_splits)
qed simp

lemma height_mono: "height e h = Some k \<Longrightarrow> height e (h + j) = Some (k + j)"
  by (induction e h arbitrary: k rule: height.induct) (auto simp: Suc_diff_le split: if_splits)

lemma cond_wf_leaf: "cond_wf n e \<Longrightarrow> last e = ILeaf c \<Longrightarrow> e = [ILeaf c]"
proof (cases e rule: rev_cases)
  case (snoc d x)
  assume "cond_wf n e" "last e = ILeaf c"
  with snoc have "height d 0 = Some 0" by (auto simp: cond_wf_def height_append split: option.splits)
  then have "d = []" using height_pos by blast
  with snoc \<open>last e = ILeaf c\<close> show ?thesis by simp
qed (simp add: cond_wf_def)


section \<open>Two evaluations side by side\<close>

text \<open>A relation on costs that the connectives keep.\<close>

locale cost_relation =
  fixes P :: "cost \<Rightarrow> cost \<Rightarrow> bool"
  assumes zero: "P (Fin 0) (Fin 0)" and infinite: "P Inf Inf"
    and add: "P x y \<Longrightarrow> P x' y' \<Longrightarrow> P (x + x') (y + y')"
    and maximum: "P x y \<Longrightarrow> P x' y' \<Longrightarrow> P (max x x') (max y y')"
    and minimum: "P x y \<Longrightarrow> P x' y' \<Longrightarrow> P (min x x') (min y y')"
begin

lemma cost_and_rel:
  assumes "list_all2 P xs ys"
  shows "P (cost_and hmax xs) (cost_and hmax ys)"
proof -
  have "P (fold (\<lambda>x r. if hmax then max r x else r + x) xs a) (fold (\<lambda>x r. if hmax then max r x else r + x) ys b)"
    if "P a b" for a b
    using assms that by (induction arbitrary: a b rule: list_all2_induct) (simp_all add: add maximum)
  then show ?thesis using zero by (simp add: cost_and_def)
qed

lemma cost_or_min: "cost_or xs = fold (\<lambda>x r. min r x) xs Inf"
proof -
  have "(\<lambda>x r :: cost. if x < r then x else r) = (\<lambda>x r. min r x)" by (auto simp: min_def fun_eq_iff)
  then show ?thesis by (simp add: cost_or_def)
qed

lemma cost_or_rel:
  assumes "list_all2 P xs ys"
  shows "P (cost_or xs) (cost_or ys)"
proof -
  have "P (fold (\<lambda>x r. min r x) xs a) (fold (\<lambda>x r. min r x) ys b)" if "P a b" for a b
    using assms that by (induction arbitrary: a b rule: list_all2_induct) (simp_all add: minimum)
  then show ?thesis using infinite by (simp add: cost_or_min)
qed

lemma steps_rel:
  assumes "height e (length st) = Some k" "list_all2 P st st'" "list_all2 P K K'" "\<forall>c \<in> cond_leaves e. c < length K"
  shows "\<exists>r r'. rfold (cost_step K hmax) e st = Inr r \<and> rfold (cost_step K' hmax) e st' = Inr r' \<and>
    list_all2 P r r' \<and> length r = k"
  using assms(1,2,4)
proof (induction e arbitrary: st st')
  case (Cons x e)
  have len: "length st' = length st" "length K' = length K" using Cons.prems(2) assms(3) by (simp_all add: list_all2_lengthD)
  show ?case
  proof (cases x)
    case (ILeaf c)
    then have c: "c < length K" using Cons.prems(3) by simp
    then have "P (K ! c) (K' ! c)" using assms(3) by (simp add: list_all2_nthD)
    with Cons.IH [of "K ! c # st" "K' ! c # st'"] Cons.prems ILeaf c len show ?thesis by simp
  next
    case (IAnd n)
    then have n: "n \<le> length st" "height e (Suc (length st - n)) = Some k" using Cons.prems(1) by (auto split: if_splits)
    have "P (cost_and hmax (take n st)) (cost_and hmax (take n st'))" "list_all2 P (drop n st) (drop n st')"
      using Cons.prems(2) by (simp_all add: cost_and_rel)
    with Cons.IH [of "cost_and hmax (take n st) # drop n st" "cost_and hmax (take n st') # drop n st'"]
      Cons.prems(3) IAnd n len show ?thesis by simp
  next
    case (IOr n)
    then have n: "n \<le> length st" "height e (Suc (length st - n)) = Some k" using Cons.prems(1) by (auto split: if_splits)
    have "P (cost_or (take n st)) (cost_or (take n st'))" "list_all2 P (drop n st) (drop n st')"
      using Cons.prems(2) by (simp_all add: cost_or_rel)
    with Cons.IH [of "cost_or (take n st) # drop n st" "cost_or (take n st') # drop n st'"]
      Cons.prems(3) IOr n len show ?thesis by simp
  qed
qed simp

lemma expression_cost_rel:
  assumes "cond_wf (length K) e" "list_all2 P K K'"
  shows "\<exists>x x'. expression_cost e K hmax = Inr x \<and> expression_cost e K' hmax = Inr x' \<and> P x x'"
proof -
  have ne: "e \<noteq> []" using assms(1) by (auto simp: cond_wf_def)
  show ?thesis
  proof (cases "\<exists>c. last e = ILeaf c")
    case True
    then obtain c where "e = [ILeaf c]" using cond_wf_leaf [OF assms(1)] by blast
    with assms show ?thesis by (auto simp: expression_cost_def cond_wf_def list_all2_conv_all_nth)
  next
    case False
    then have last: "expression_cost e K hmax = rbind (rfold (cost_step K hmax) e []) (\<lambda>st. case st of [x] \<Rightarrow> Inr x | _ \<Rightarrow> Inl AssertErr)"
      for K using ne by (cases "last e") (auto simp: expression_cost_def)
    from assms steps_rel [of e "[]" "Suc 0" "[]" K K' hmax] obtain r r' where
      r: "rfold (cost_step K hmax) e [] = Inr r" "rfold (cost_step K' hmax) e [] = Inr r'" "list_all2 P r r'" "length r = 1"
      by (auto simp: cond_wf_def)
    then obtain x x' where "r = [x]" "r' = [x']" "P x x'" by (auto simp: length_Suc_conv list_all2_Cons1)
    with r last show ?thesis by auto
  qed
qed

end

interpretation monotone: cost_relation "(\<le>)"
proof
  show "x \<le> y \<Longrightarrow> x' \<le> y' \<Longrightarrow> x + x' \<le> y + y'" for x y x' y' :: cost by (rule add_mono)
  show "x \<le> y \<Longrightarrow> x' \<le> y' \<Longrightarrow> max x x' \<le> max y y'" for x y x' y' :: cost by (rule max.mono)
  show "x \<le> y \<Longrightarrow> x' \<le> y' \<Longrightarrow> min x x' \<le> min y y'" for x y x' y' :: cost by (rule min.mono)
qed simp_all

text \<open>Above the bound \<open>p\<close> the second cost may be smaller than the first.\<close>

definition above :: "cost \<Rightarrow> cost \<Rightarrow> cost \<Rightarrow> bool" where
  "above p x y \<longleftrightarrow> 0 \<le> x \<and> 0 \<le> y \<and> min x p \<le> y"

lemma above_add:
  assumes "above p x y" "above p x' y'"
  shows "above p (x + x') (y + y')"
proof -
  have nonneg: "0 \<le> x + x'" "0 \<le> y + y'" using assms by (auto simp: above_def intro: add_nonneg_nonneg)
  have right: "a \<le> a + b" if "0 \<le> b" for a b :: cost using add_left_mono [OF that, of a] by simp
  consider "p \<le> y" | "p \<le> y'" | "x \<le> y" "x' \<le> y'" using assms by (auto simp: above_def min_def split: if_splits)
  then have "min (x + x') p \<le> y + y'"
  proof cases
    case 1
    have "y \<le> y + y'" using right assms(2) by (simp add: above_def)
    with 1 have "p \<le> y + y'" by (rule order_trans)
    then show ?thesis by (simp add: min_le_iff_disj)
  next
    case 2
    have "y' \<le> y + y'" using right [of y y'] assms(1) by (simp add: above_def add.commute)
    with 2 have "p \<le> y + y'" by (rule order_trans)
    then show ?thesis by (simp add: min_le_iff_disj)
  next
    case 3
    then show ?thesis by (simp add: add_mono min_le_iff_disj)
  qed
  with nonneg show ?thesis by (simp add: above_def)
qed

interpretation bounded: cost_relation "above p" for p
proof
  show "above p (Fin 0) (Fin 0)" by (simp add: above_def zero_cost_def)
  show "above p Inf Inf" by (simp add: above_def)
  show "above p x y \<Longrightarrow> above p x' y' \<Longrightarrow> above p (x + x') (y + y')" for x y x' y' by (rule above_add)
  show "above p x y \<Longrightarrow> above p x' y' \<Longrightarrow> above p (max x x') (max y y')" for x y x' y'
    by (auto simp: above_def min_def max_def)
  show "above p x y \<Longrightarrow> above p x' y' \<Longrightarrow> above p (min x x') (min y y')" for x y x' y'
    by (auto simp: above_def min_def)
qed


section \<open>The value\<close>

definition the_cost :: "bool \<Rightarrow> iexp \<Rightarrow> cost list \<Rightarrow> cost" where
  "the_cost hmax e K = (case expression_cost e K hmax of Inl _ \<Rightarrow> Inf | Inr x \<Rightarrow> x)"

lemma expression_cost_value:
  assumes "cond_wf (length K) e"
  shows "expression_cost e K hmax = Inr (the_cost hmax e K)"
  using monotone.expression_cost_rel [OF assms, of K hmax] by (auto simp: the_cost_def list_all2_refl)

lemma the_cost_rel:
  assumes "cost_relation P" "cond_wf (length K) e" "list_all2 P K K'"
  shows "P (the_cost hmax e K) (the_cost hmax e K')"
  using cost_relation.expression_cost_rel [OF assms, of hmax] by (auto simp: the_cost_def)

lemma the_cost_mono:
  assumes "cond_wf (length K) e" "list_all2 (\<le>) K K'"
  shows "the_cost hmax e K \<le> the_cost hmax e K'"
  by (rule the_cost_rel [OF monotone.cost_relation_axioms assms])

lemma the_cost_above:
  assumes "cond_wf (length K) e" "list_all2 (above p) K K'"
  shows "above p (the_cost hmax e K) (the_cost hmax e K')"
  by (rule the_cost_rel [OF bounded.cost_relation_axioms assms])

text \<open>Changes above a bound leave the cost of what is within it.\<close>

lemma the_cost_settled:
  assumes "cond_wf (length K) e" "list_all2 (above p) K K'" "list_all2 (\<le>) K' K" "the_cost hmax e K \<le> p"
  shows "the_cost hmax e K' = the_cost hmax e K"
proof (rule antisym)
  have "length K' = length K" using assms(2) by (simp add: list_all2_lengthD)
  with the_cost_mono [of K' e K hmax] assms(1,3) show "the_cost hmax e K' \<le> the_cost hmax e K" by simp
  show "the_cost hmax e K \<le> the_cost hmax e K'" using the_cost_above [OF assms(1,2), of hmax] assms(4) by (simp add: above_def)
qed

lemma the_cost_nonneg:
  assumes "cond_wf (length K) e" "\<forall>x \<in> set K. 0 \<le> x"
  shows "0 \<le> the_cost hmax e K"
proof -
  have "list_all2 (above Inf) K K" using assms(2) by (auto simp: list_all2_conv_all_nth above_def)
  from the_cost_above [OF assms(1) this, of hmax] show ?thesis by (simp add: above_def)
qed

lemma the_cost_cong:
  assumes "length K = length K'" "\<And>c. c \<in> cond_leaves e \<Longrightarrow> c < length K \<Longrightarrow> K ! c = K' ! c"
  shows "the_cost hmax e K = the_cost hmax e K'"
proof -
  have leaf: "py_nth K (int c) = py_nth K' (int c)" if "c \<in> cond_leaves e" for c
    using assms(1) assms(2) [OF that] by (cases "c < length K") (auto simp: py_nth_def)
  have "cost_step K hmax x st = cost_step K' hmax x st" if "x \<in> set e" for x st
  proof (cases x)
    case (ILeaf c)
    with that have "c \<in> cond_leaves e" by (force simp: cond_leaves_def)
    with ILeaf leaf show ?thesis by simp
  qed simp_all
  then have "rfold (cost_step K hmax) e [] = rfold (cost_step K' hmax) e []" by (intro rfold_cong) auto
  moreover have "py_nth K (int c) = py_nth K' (int c)" if "e \<noteq> []" "last e = ILeaf c" for c
    using leaf that last_in_set [OF that(1)] by (force simp: cond_leaves_def)
  ultimately have "expression_cost e K hmax = expression_cost e K' hmax"
    unfolding expression_cost_def by (auto split: inode.split)
  then show ?thesis by (simp add: the_cost_def)
qed


section \<open>Unreached leaves\<close>

lemma add_fold: "fold (\<lambda>x r. r + x) xs (a :: cost) = a + sum_list xs"
  by (induction xs arbitrary: a) (simp_all add: add.assoc)

lemma sum_list_Inf: "Inf \<in> set xs \<Longrightarrow> sum_list xs = Inf"
  by (induction xs) auto

lemma max_fold_Inf: "Inf \<in> set xs \<or> a = Inf \<Longrightarrow> fold (\<lambda>x r. max r x) xs a = Inf"
proof (induction xs arbitrary: a)
  case (Cons x xs)
  have "max a Inf = Inf" "max Inf x = Inf" by (simp_all add: max_def)
  then have "Inf \<in> set xs \<or> max a x = Inf" using Cons.prems by auto
  from Cons.IH [OF this] show ?case by simp
qed simp

lemma cost_and_Inf: "Inf \<in> set xs \<Longrightarrow> cost_and hmax xs = Inf"
  by (cases hmax) (simp_all add: cost_and_def max_fold_Inf add_fold sum_list_Inf)

lemma steps_Inf:
  assumes "rfold (cost_step K hmax) e st = Inr r" "\<forall>n. IOr n \<notin> set e"
    and "Inf \<in> set st \<or> (\<exists>c \<in> cond_leaves e. c < length K \<and> K ! c = Inf)"
  shows "Inf \<in> set r"
  using assms
proof (induction e arbitrary: st)
  case (Cons x e)
  show ?case
  proof (cases x)
    case (ILeaf c)
    with Cons.prems(1) have "rfold (cost_step K hmax) e (K ! c # st) = Inr r" by (auto simp: rbind_eq_Inr py_nth_int_iff)
    from Cons.IH [OF this] Cons.prems(2,3) ILeaf show ?thesis by auto
  next
    case (IAnd n)
    with Cons.prems(1) have run: "rfold (cost_step K hmax) e (cost_and hmax (take n st) # drop n st) = Inr r"
      by (auto split: if_splits)
    have "Inf \<in> set (cost_and hmax (take n st) # drop n st)" if "Inf \<in> set st"
    proof -
      from that have "Inf \<in> set (take n st) \<or> Inf \<in> set (drop n st)" by (metis append_take_drop_id Un_iff set_append)
      then show ?thesis using cost_and_Inf by auto
    qed
    with Cons.IH [OF run] Cons.prems(2,3) IAnd show ?thesis by auto
  qed (use Cons.prems(2) in auto)
qed simp

lemma the_cost_unreached:
  assumes "cond_wf (length K) e" "\<forall>n. IOr n \<notin> set e" "c \<in> cond_leaves e" "K ! c = Inf"
  shows "the_cost hmax e K = Inf"
proof -
  have c: "c < length K" using assms(1,3) by (simp add: cond_wf_def)
  show ?thesis
  proof (cases "\<exists>d. last e = ILeaf d")
    case True
    then obtain d where "e = [ILeaf d]" using cond_wf_leaf [OF assms(1)] by blast
    with assms(3,4) c show ?thesis by (simp add: the_cost_def expression_cost_def)
  next
    case False
    from assms(1) have "e \<noteq> []" by (auto simp: cond_wf_def)
    with False have "expression_cost e K hmax = rbind (rfold (cost_step K hmax) e []) (\<lambda>st. case st of [x] \<Rightarrow> Inr x | _ \<Rightarrow> Inl AssertErr)"
      by (cases "last e") (auto simp: expression_cost_def)
    then have "rbind (rfold (cost_step K hmax) e []) (\<lambda>st. case st of [x] \<Rightarrow> Inr x | _ \<Rightarrow> Inl AssertErr) = Inr (the_cost hmax e K)"
      using expression_cost_value [OF assms(1), of hmax] by simp
    then obtain r where run: "rfold (cost_step K hmax) e [] = Inr r"
      "(case r of [x] \<Rightarrow> Inr x | _ \<Rightarrow> Inl AssertErr) = (Inr (the_cost hmax e K) :: cost res)"
      unfolding rbind_eq_Inr by blast
    from run(2) have "r = [the_cost hmax e K]" by (cases r rule: list_cases2) simp_all
    note r = run(1) this
    have "Inf \<in> set r" by (rule steps_Inf [OF r(1) assms(2)]) (use assms(3,4) c in blast)
    then show ?thesis unfolding r(2) by simp
  qed
qed

end
