(* ===== verification/Relax_Shapes.thy ===== *)
theory Relax_Shapes
  imports Relax_Operators Relax_Cost_Facts
begin

text \<open>
  The conditions the constructor of \<open>DeleteRelaxationHeuristic\<close> makes are well-formed: the walk that
  converts an expression emits one operand for every node it is asked for, and the rewriting
  replaces a leaf by one operand.
\<close>

section \<open>Shapes\<close>

fun node_shape :: "hnode \<Rightarrow> inode" where
  "node_shape (HLeaf e) = ILeaf 0"
| "node_shape (HAnd n) = IAnd n"
| "node_shape (HOr n) = IOr n"

abbreviation operands_of :: "hexp \<Rightarrow> nat \<Rightarrow> nat option" where
  "operands_of h \<equiv> height (map node_shape h)"

definition one_operand :: "hexp \<Rightarrow> bool" where
  "one_operand h \<longleftrightarrow> operands_of h 0 = Some 1"

lemma operands_append: "operands_of (g @ h) k = (case operands_of g k of None \<Rightarrow> None | Some l \<Rightarrow> operands_of h l)"
  by (simp add: height_append)

lemma one_operand_at: "one_operand h \<Longrightarrow> operands_of h k = Some (Suc k)"
  using height_mono [of "map node_shape h" 0 1 k] by (simp add: one_operand_def)

lemma operands_concat:
  assumes "\<forall>h \<in> set hs. one_operand h"
  shows "operands_of (concat hs) k = Some (k + length hs)"
  using assms by (induction hs arbitrary: k) (simp_all add: height_append one_operand_at)

lemma height_numbers: "height (map (\<lambda>x. case x of ILeaf c \<Rightarrow> ILeaf (f c) | _ \<Rightarrow> x) e) h = height e h"
  by (induction e h rule: height.induct) simp_all


section \<open>The conversion\<close>

definition junction_at :: "expression \<Rightarrow> int \<Rightarrow> nat \<Rightarrow> bool" where
  "junction_at e i n \<longleftrightarrow> (\<exists>k ops. py_nth e i = Inr (NOp k ops) \<and> k \<in> {''and'', ''or''} \<and> length ops = n)"

text \<open>The operands there will be when the stack is worked off.\<close>

fun pending_operands :: "expression \<Rightarrow> (int \<times> bool) list \<Rightarrow> nat \<Rightarrow> nat option" where
  "pending_operands e [] h = Some h"
| "pending_operands e ((i, False) # stack) h = pending_operands e stack (Suc h)"
| "pending_operands e ((i, True) # stack) h = (case py_nth e i of
     Inr (NOp k ops) \<Rightarrow> if length ops \<le> h then pending_operands e stack (Suc (h - length ops)) else None
   | _ \<Rightarrow> None)"

lemma pending_push: "pending_operands e (rev (map (\<lambda>j. (j, False)) ops) @ stack) h = pending_operands e stack (h + length ops)"
proof (induction ops arbitrary: stack)
  case (Cons j ops)
  from Cons.IH [of "(j, False) # stack"] show ?case by simp
qed simp

definition convert_inv :: "expression \<Rightarrow> convert_state \<Rightarrow> bool" where
  "convert_inv e c \<longleftrightarrow> (\<forall>i. (i, True) \<in> set (cv_stack c) \<longrightarrow> (\<exists>n. junction_at e i n)) \<and>
     (\<exists>h. operands_of (cv_out c) 0 = Some h \<and> pending_operands e (cv_stack c) h = Some 1)"

lemma convert_junction_inv:
  assumes inv: "convert_inv e c" and stack: "cv_stack c = (i, processed) # rest"
    and node: "py_nth e i = Inr (NOp k ops)" "k \<in> {''and'', ''or''}"
    and mk: "mk = HAnd \<or> mk = HOr"
  shows "convert_inv e (convert_junction mk ops i processed rest (cv_out c))"
proof (cases processed)
  case True
  with inv stack node mk show ?thesis
    by (auto simp: convert_inv_def convert_junction_def height_append split: if_splits)
next
  case False
  with inv stack node show ?thesis
    by (auto simp: convert_inv_def convert_junction_def pending_push junction_at_def)
qed

lemma convert_leaf_inv:
  assumes inv: "convert_inv e c" and stack: "cv_stack c = (i, processed) # rest"
    and node: "py_nth e i = Inr n" "\<forall>k ops. n = NOp k ops \<longrightarrow> k \<notin> {''and'', ''or''}"
    and leaf: "h = HAnd 0 \<or> (\<exists>s. h = HLeaf s)"
  shows "convert_inv e \<lparr>cv_stack = rest, cv_out = cv_out c @ [h]\<rparr>"
proof -
  have "\<not> processed"
  proof
    assume processed
    then obtain m where "junction_at e i m" using inv stack by (auto simp: convert_inv_def)
    with node show False by (auto simp: junction_at_def)
  qed
  with inv stack leaf show ?thesis by (auto simp: convert_inv_def height_append)
qed

lemma convert_round_inv:
  assumes inv: "convert_inv e c" and run: "convert_round e c = Inr (Inr c')"
  shows "convert_inv e c'"
proof -
  obtain i processed rest where stack: "cv_stack c = (i, processed) # rest"
    using run by (auto simp: convert_round_def split: list.splits)
  obtain n where n: "py_nth e i = Inr n" using run stack by (auto simp: convert_round_def rbind_eq_Inr)
  show ?thesis
  proof (cases "\<exists>k ops. n = NOp k ops \<and> k \<in> {''and'', ''or''}")
    case True
    then obtain k ops where k: "n = NOp k ops" "k \<in> {''and'', ''or''}" by blast
    then consider "c' = convert_junction HAnd ops i processed rest (cv_out c)"
      | "c' = convert_junction HOr ops i processed rest (cv_out c)"
      using run stack n by (auto simp: convert_round_def split: if_splits)
    then show ?thesis using convert_junction_inv [OF inv stack n [unfolded k(1)] k(2)] by cases auto
  next
    case False
    then have "\<exists>h. c' = \<lparr>cv_stack = rest, cv_out = cv_out c @ [h]\<rparr> \<and> (h = HAnd 0 \<or> (\<exists>s. h = HLeaf s))"
      using run stack n by (cases n) (auto simp: convert_round_def Let_def rbind_eq_Inr split: if_splits)
    then obtain h where "c' = \<lparr>cv_stack = rest, cv_out = cv_out c @ [h]\<rparr>" "h = HAnd 0 \<or> (\<exists>s. h = HLeaf s)" by blast
    with convert_leaf_inv [OF inv stack n _ this(2)] False show ?thesis by blast
  qed
qed

lemma convert_round_exit:
  assumes "convert_round e c = Inr (Inl h)"
  shows "cv_stack c = [] \<and> h = cv_out c"
proof (cases "cv_stack c")
  case (Cons p rest)
  obtain i processed where p: "p = (i, processed)" by (cases p)
  with assms Cons obtain n where n: "py_nth e i = Inr n" by (auto simp: convert_round_def rbind_eq_Inr)
  with assms Cons p show ?thesis by (cases n) (auto simp: convert_round_def Let_def rbind_eq_Inr split: if_splits)
qed (use assms in \<open>simp add: convert_round_def\<close>)

lemma convert_one_operand:
  assumes "convert_to_heuristic_expression e = Inr h"
  shows "one_operand h"
proof -
  have start: "convert_inv e \<lparr>cv_stack = [(int (length e) - 1, False)], cv_out = []\<rparr>" by (simp add: convert_inv_def)
  obtain c where "convert_inv e c" "convert_round e c = Inr (Inl h)"
    by (rule run_rounds_result [where I = "convert_inv e", OF assms [unfolded convert_to_heuristic_expression_def] start])
      (rule convert_round_inv)
  with convert_round_exit [of e c h] show ?thesis by (auto simp: convert_inv_def one_operand_def)
qed


section \<open>The rewriting\<close>

lemma leaves_operands: "operands_of (map (\<lambda>x. HLeaf (f x)) xs) k = Some (k + length xs)"
  by (induction xs arbitrary: k) simp_all

lemma disjunction_one_operand:
  assumes "\<forall>h \<in> set hs. one_operand h"
  shows "one_operand (disjunction hs)"
proof (cases "length hs > 1")
  case True
  with operands_concat [OF assms, of 0] show ?thesis
    by (auto simp: disjunction_def one_operand_def operands_append simp del: map_append)
next
  case False
  with operands_concat [OF assms, of 0] show ?thesis
    by (cases hs rule: list_cases2) (simp_all add: disjunction_def one_operand_def)
qed

lemma rewritten_comparison_one:
  assumes "rewritten_comparison e = Inr (Some h)"
  shows "one_operand h"
proof -
  from assms obtain n where n: "py_last e = Inr n" by (auto simp: rewritten_comparison_def rbind_eq_Inr)
  with assms obtain k ops where op: "n = NOp k ops" by (cases n) (auto simp: rewritten_comparison_def)
  consider "k = ''==''" | "k = ''not''" | "k \<notin> {''=='', ''not''}" by blast
  then show ?thesis
  proof cases
    case 2
    with assms n op obtain n' where n': "rbind (py_nth ops 0) (py_nth e) = Inr n'"
      by (auto simp: rewritten_comparison_def rbind_eq_Inr)
    with 2 assms n op show ?thesis
      by (cases n') (auto simp: rewritten_comparison_def rbind_eq_Inr one_operand_def split: if_splits)
  qed (use assms n op in \<open>auto simp: rewritten_comparison_def rbind_eq_Inr one_operand_def\<close>)
qed

lemma simplify_numeric_one:
  assumes "simplify_numeric_leaf_node e = Inr (Some h)"
  shows "one_operand h"
proof -
  from assms obtain r where r: "rewritten_comparison e = Inr r" by (auto simp: simplify_numeric_leaf_node_def rbind_eq_Inr)
  have "r = Some h"
  proof (cases "\<exists>x ns. r = Some (HLeaf x # ns)")
    case True
    with assms r show ?thesis by (auto simp: simplify_numeric_leaf_node_def rbind_eq_Inr split: if_splits)
  next
    case False
    with assms r show ?thesis
      by (auto simp: simplify_numeric_leaf_node_def split: option.split_asm list.split_asm hnode.split_asm)
  qed
  with r show ?thesis by (simp add: rewritten_comparison_one)
qed

lemma not_equals_one:
  assumes "simplify_fluent_not_equals_object ds e = Inr (Some h)"
  shows "one_operand h"
proof -
  from assms obtain f ob k ops k' ops' where e: "e = [NFluent f, NConst (CObj ob), NOp k ops, NOp k' ops']" "k = ''==''" "k' = ''not''"
    by (auto simp: simplify_fluent_not_equals_object_def split: list.split_asm node.split_asm const.split_asm if_splits)
  with assms obtain objs where d: "object_domain ds f = Inr (Some objs)"
    by (auto simp: simplify_fluent_not_equals_object_def rbind_eq_Inr split: option.split_asm)
  with e assms have h: "h = (let ns = map (equals_object f) (filter (\<lambda>x. x \<noteq> ob) objs) in
     if ns = [] then [HLeaf [NConst (CBool False)]] else if length ns > 1 then ns @ [HOr (length ns)] else ns)"
    by (simp add: simplify_fluent_not_equals_object_def Let_def)
  let ?xs = "filter (\<lambda>x. x \<noteq> ob) objs"
  have "operands_of (map (equals_object f) ?xs) 0 = Some (length ?xs)"
    using leaves_operands [of "\<lambda>x. [NFluent f, NConst (CObj x), NOp ''=='' [0, 1]]" ?xs 0] by (simp add: equals_object_def [abs_def])
  then have ns: "operands_of ns 0 = Some (length ns)" if "ns = map (equals_object f) ?xs" for ns using that by simp
  have "one_operand (if ns = [] then [HLeaf [NConst (CBool False)]] else if length ns > 1 then ns @ [HOr (length ns)] else ns)"
    if "ns = map (equals_object f) ?xs" for ns
    using ns [OF that] by (cases ns rule: list_cases2) (auto simp: one_operand_def operands_append simp del: map_append append_Cons)
  then show ?thesis unfolding h Let_def by blast
qed

lemma object_equality_one: "simplify_object_equality ds e = Inr (Some h) \<Longrightarrow> one_operand h"
proof -
  have both: "one_operand (both_equal f g p)" for f g p
    by (cases p) (simp add: both_equal_def one_operand_def equals_object_def)
  assume run: "simplify_object_equality ds e = Inr (Some h)"
  then obtain f g k ops rest where e: "e = NFluent f # NFluent g # NOp k ops # rest"
    by (auto simp: simplify_object_equality_def split: list.split_asm node.split_asm)
  with run obtain df dg where d: "object_domain ds f = Inr df" "object_domain ds g = Inr dg"
    by (auto simp: simplify_object_equality_def rbind_eq_Inr split: if_splits)
  with run e obtain ps where "h = disjunction (map (both_equal f g) ps)"
    by (cases df; cases dg) (auto simp: simplify_object_equality_def simp del: map_map split: if_splits)
  then show ?thesis using disjunction_one_operand both by auto
qed

lemma simplify_leaf_one: "simplify_leaf b ds e = Inr (Some h) \<Longrightarrow> one_operand h"
  using simplify_numeric_one not_equals_one object_equality_one
  by (fastforce simp: simplify_leaf_def rbind_eq_Inr split: if_splits option.splits)

lemma simplify_hnode_height:
  assumes "simplify_hnode b ds x = Inr h"
  shows "operands_of h k = height [node_shape x] k"
  using assms simplify_leaf_one by (cases x) (auto simp: rbind_eq_Inr one_operand_at split: option.splits)

lemma simplify_condition_height:
  assumes "simplify_condition b ds h = Inr h'"
  shows "operands_of h' k = operands_of h k"
proof -
  have "operands_of (concat hs) k = operands_of h k" if "rmap (simplify_hnode b ds) h = Inr hs" for hs k
    using that
  proof (induction h arbitrary: hs k)
    case (Cons x h)
    then obtain g hs' where g: "simplify_hnode b ds x = Inr g" "rmap (simplify_hnode b ds) h = Inr hs'" "hs = g # hs'"
      by (auto simp: rbind_eq_Inr)
    have "operands_of (x # h) k = (case height [node_shape x] k of None \<Rightarrow> None | Some l \<Rightarrow> operands_of h l)"
      using height_append [of "[node_shape x]" "map node_shape h" k] by simp
    with g Cons.IH [OF g(2)] simplify_hnode_height [OF g(1), of k] show ?case by (simp add: height_append split: option.split)
  qed simp
  with assms show ?thesis by (auto simp: simplify_condition_def rbind_eq_Inr)
qed

lemma simplified_one_operand:
  assumes "rbind (convert_to_heuristic_expression e) (simplify_condition b ds) = Inr h"
  shows "one_operand h"
  using assms convert_one_operand simplify_condition_height by (auto simp: rbind_eq_Inr one_operand_def)

lemma operator_condition_one:
  assumes "build_operator_condition b ds cs f = Inr (Some h)"
  shows "one_operand h"
  using assms convert_one_operand simplify_condition_height
  by (fastforce simp: build_operator_condition_def Let_def rbind_eq_Inr one_operand_def split: option.splits)

end
