(* ===== verification/Relax_Eval.thy ===== *)
theory Relax_Eval
  imports Relax_Operators Open_Lists
begin

text \<open>
  \<open>_eval_core\<close> of \<open>DeleteRelaxationHeuristic\<close>: the costs of the conditions in a state, the loop that pops
  operators from a heap in the order of their cost and lowers the costs of what they achieve, and
  the value read off at the end.  The numbers of leaves and operators are positions in the tables
  of \<open>relaxation\<close>, so the list accesses are in range.
\<close>

section \<open>The costs in a state\<close>

fun evaluated_cost ::
    "ifenv \<Rightarrow> const list \<Rightarrow> nat \<times> expression \<times> leaf_class \<Rightarrow> cost list \<Rightarrow> cost list res" where
  "evaluated_cost ifs asg (i, e, LEvaluated false_cost) costs = rbind (evaluate ifs e asg) (\<lambda>v.
     Inr (costs[i := if truthy v then Fin 0 else false_cost]))"
| "evaluated_cost ifs asg _ costs = Inr costs"

definition equals_node :: "const \<Rightarrow> node \<Rightarrow> bool" where
  "equals_node v n = (case n of NConst c \<Rightarrow> v \<noteq> CBool True \<and> v \<noteq> CBool False \<and> py_eq v c | _ \<Rightarrow> False)"

fun fluent_cost :: "const list \<Rightarrow> nat \<times> expression \<times> leaf_class \<Rightarrow> cost list \<Rightarrow> cost list res" where
  "fluent_cost asg (i, e, LTrue f) costs = rbind (py_nth asg (int f)) (\<lambda>v.
     Inr (if v = CBool True then costs[i := Fin 0] else costs))"
| "fluent_cost asg (i, e, LFalse f) costs = rbind (py_nth asg (int f)) (\<lambda>v.
     Inr (if v = CBool False then costs[i := Fin 0] else costs))"
| "fluent_cost asg (i, e, LEqual f n) costs = rbind (py_nth asg (int f)) (\<lambda>v.
     Inr (if equals_node v n then costs[i := Fin 0] else costs))"
| "fluent_cost asg _ costs = Inr costs"

text \<open>The bookkeeping fluent that matches the progress of an action.\<close>

definition progress_cost ::
    "(action, nat \<times> nat) dict \<Rightarrow> action \<times> nat list \<Rightarrow> cost list \<Rightarrow> cost list res" where
  "progress_cost todo p costs = (case p of (a, cids) \<Rightarrow>
     rbind (case dict_get todo a of None \<Rightarrow> py_last cids | Some (j, _) \<Rightarrow> py_nth cids (int j - 1)) (\<lambda>c.
     Inr (costs[c := Fin 0])))"

definition initial_condition_costs :: "ifenv \<Rightarrow> relaxation \<Rightarrow> 'n state \<Rightarrow> cost list res" where
  "initial_condition_costs ifs R s =
     rbind (rfold (evaluated_cost ifs (st_assignments s)) (indexed (rx_leaves R)) (replicate (length (rx_leaves R)) Inf)) (\<lambda>costs.
     rbind (rfold (fluent_cost (st_assignments s)) (indexed (rx_leaves R)) costs) (\<lambda>costs.
     rfold (progress_cost (st_todo s)) (rx_extra_cids R) costs))"


section \<open>Repetitions\<close>

text \<open>A float, or the infinity of a constant, and a finite float.\<close>

fun cost_float_add :: "cost \<Rightarrow> rat \<Rightarrow> cost" where
  "cost_float_add (Fin p) q = Fin (float_add p q)"
| "cost_float_add Inf q = Inf"

definition condition_value :: "ncond \<Rightarrow> 'n state \<Rightarrow> cost res" where
  "condition_value c s = rfold (\<lambda>(f, w) v. rbind (get_value s f) (\<lambda>x. case as_rat x of
       None \<Rightarrow> Inl TypeErr
     | Some q \<Rightarrow> Inr (cost_float_add v (float_mul w q)))) (zip (nc_fluents c) (nc_weights c)) (nc_const c)"

definition repetitions :: "bool \<Rightarrow> rop \<Rightarrow> ncond \<Rightarrow> 'n state \<Rightarrow> int option res" where
  "repetitions inadmissible r c s = rbind (condition_value c s) (\<lambda>v.
     let assign = has_assign_or_complex r (nc_fluents c);
         n = net_effect inadmissible r (nc_fluents c) (nc_weights c) in
     if v \<le> Fin 0 then Inr (Some 0)
     else if assign \<and> \<not> inadmissible then Inr (Some 1)
     else if n < 0 then (case v of Inf \<Rightarrow> Inl OverflowErr | Fin q \<Rightarrow> Inr (Some \<lceil>float_div (- q) n\<rceil>))
     else Inr (if assign then Some 1 else None))"


section \<open>The loop\<close>

record relax_state =
  re_costs :: "cost list"
  re_op_cost :: "cost list"
  re_closed :: "bool list"
  re_min_pre :: "cost list"
  re_reached :: "int list"
  re_heap :: "(cost \<times> nat) list"
  re_unreached :: "int list"

definition entry_lt :: "cost \<times> nat \<Rightarrow> cost \<times> nat \<Rightarrow> bool" where
  "entry_lt p q \<longleftrightarrow> fst p < fst q \<or> (fst p = fst q \<and> snd p < snd q)"

interpretation entries: item_order entry_lt
  by unfold_locales (auto simp: entry_lt_def)

interpretation entry_queue: full_open_list entry_lt "[]" "pq_push entry_lt" "heappop entry_lt" length mset
  "heap entry_lt"
  by (rule entries.priority_queue_full)

definition relax_cost :: "relaxation \<Rightarrow> nat \<Rightarrow> cost list \<Rightarrow> cost res" where
  "relax_cost R op costs = expression_cost (rx_op_conditions R ! op) costs (rx_kind R = HMAX)"

definition waits :: "relaxation \<Rightarrow> nat \<Rightarrow> int list \<Rightarrow> bool" where
  "waits R op unreached \<longleftrightarrow> \<not> contains_or_node (rx_op_conditions R ! op) \<and> 0 < unreached ! op"

definition count_reached :: "nat list \<Rightarrow> int list \<Rightarrow> int list" where
  "count_reached rs unreached = fold (\<lambda>r u. u[r := u ! r - 1]) rs unreached"

text \<open>
  The heap of the operators whose cost is finite at the start.  The order of its entries is total,
  so what is popped depends only on the entries, and \<open>heapify\<close> is written as pushes.
\<close>

definition start_operator :: "relaxation \<Rightarrow> cost list \<Rightarrow> nat \<Rightarrow> relax_state \<Rightarrow> relax_state res" where
  "start_operator R costs op st =
     (if waits R op (re_unreached st) then Inr st
      else rbind (relax_cost R op costs) (\<lambda>c. Inr (if c < Inf
        then st\<lparr>re_op_cost := (re_op_cost st)[op := c], re_heap := heappush entry_lt (c, op) (re_heap st)\<rparr>
        else st)))"

definition relax_start :: "relaxation \<Rightarrow> cost list \<Rightarrow> relax_state res" where
  "relax_start R costs =
     (let n = length (rx_op_conditions R) in
      rfold (start_operator R costs) [0..<n]
       \<lparr>re_costs = costs, re_op_cost = replicate n Inf, re_closed = replicate n False,
        re_min_pre = (if rx_kind R = HMAX then replicate (length costs) Inf else []),
        re_reached = (if rx_kind R = HFF then replicate (length costs) (- 1) else []),
        re_heap = [],
        re_unreached = fold (\<lambda>(c, rs) u. if c < Inf then count_reached rs u else u) (zip costs (rx_readers R))
          (map (\<lambda>op. int (op_distinct_leaves R op)) [0..<n])\<rparr>)"

definition update_reader :: "relaxation \<Rightarrow> bool \<Rightarrow> bool \<Rightarrow> nat \<Rightarrow> relax_state \<Rightarrow> relax_state res" where
  "update_reader R reopen first_reach r st =
     (if re_closed st ! r \<and> \<not> reopen then Inr st
      else let st = (if first_reach then st\<lparr>re_unreached := count_reached [r] (re_unreached st)\<rparr> else st) in
        if waits R r (re_unreached st) then Inr st
        else rbind (relax_cost R r (re_costs st)) (\<lambda>c. Inr (if c < re_op_cost st ! r
          then st\<lparr>re_op_cost := (re_op_cost st)[r := c], re_closed := (re_closed st)[r := False],
                  re_heap := heappush entry_lt (c, r) (re_heap st)\<rparr>
          else st)))"

definition update_condition_cost ::
    "relaxation \<Rightarrow> bool \<Rightarrow> nat \<Rightarrow> nat \<Rightarrow> cost \<Rightarrow> relax_state \<Rightarrow> relax_state res" where
  "update_condition_cost R reopen op c v st =
     (let old = re_costs st ! c; reached = (re_reached st)[c := int op] in
      if v < old then
        rfold (update_reader R reopen (old = Inf)) (rx_readers R ! c)
          (st\<lparr>re_costs := (re_costs st)[c := v], re_reached := if rx_kind R = HFF then reached else re_reached st\<rparr>)
      else Inr (if rx_kind R = HFF \<and> v = old \<and> re_reached st ! c < int op then st\<lparr>re_reached := reached\<rparr> else st))"

definition achieve_numeric ::
    "relaxation \<Rightarrow> bool \<Rightarrow> 'n state \<Rightarrow> nat \<Rightarrow> cost \<Rightarrow> nat \<times> ncond \<Rightarrow> relax_state \<Rightarrow> relax_state res" where
  "achieve_numeric R reopen s op pre p st = (case p of (c, nc) \<Rightarrow>
     if re_costs st ! c = Fin 0 then Inr st
     else let r = rx_operators R ! op in
       rbind (repetitions (rx_inadmissible R) r nc s) (\<lambda>rep. case rep of
         None \<Rightarrow> Inl AssertErr
       | Some k \<Rightarrow>
           let w = Fin (of_int k * ro_cost r) in
           if rx_kind R = HMAX then
             let m = (if pre < re_min_pre st ! c then pre else re_min_pre st ! c) in
             update_condition_cost R reopen op c (w + m) (st\<lparr>re_min_pre := (re_min_pre st)[c := m]\<rparr>)
           else update_condition_cost R reopen op c (w + pre) st))"

definition expand_operator :: "relaxation \<Rightarrow> bool \<Rightarrow> 'n state \<Rightarrow> nat \<Rightarrow> relax_state \<Rightarrow> relax_state res" where
  "expand_operator R reopen s op st =
     (let pre = re_op_cost st ! op in
      rbind (rfold (\<lambda>c. update_condition_cost R reopen op c (Fin (ro_cost (rx_operators R ! op)) + pre))
        (rx_op_effects R ! op) st)
       (rfold (achieve_numeric R reopen s op pre) (rx_op_numeric R ! op)))"

definition relax_round :: "relaxation \<Rightarrow> bool \<Rightarrow> bool \<Rightarrow> 'n state \<Rightarrow> relax_state \<Rightarrow> (relax_state + relax_state) res" where
  "relax_round R reopen drain s st =
     (if re_heap st = [] then Inr (Inl st)
      else rbind (heappop entry_lt (re_heap st)) (\<lambda>((popped, op), h).
        let st = st\<lparr>re_heap := h\<rparr> in
        if re_closed st ! op \<or> popped \<noteq> re_op_cost st ! op then Inr (Inr st)
        else let st = st\<lparr>re_closed := (re_closed st)[op := True]\<rparr> in
          if op = rx_goal_op R then Inr (if drain then Inr st else Inl st)
          else rbind (expand_operator R reopen s op st) (\<lambda>st. Inr (Inr st))))"

definition relax_run :: "ifenv \<Rightarrow> relaxation \<Rightarrow> bool \<Rightarrow> 'n state \<Rightarrow> relax_state res" where
  "relax_run ifs R reachability s =
     rbind (initial_condition_costs ifs R s) (\<lambda>costs.
     rbind (relax_start R costs) (\<lambda>st.
     run_rounds (relax_round R (rx_drain R \<and> \<not> reachability) (reachability \<or> rx_drain R) s) st))"


section \<open>Relaxed plans\<close>

record extraction =
  xp_stack :: "nat list"
  xp_visited :: "nat list"
  xp_plan :: "action list"

definition push_condition :: "nat \<Rightarrow> extraction \<Rightarrow> extraction" where
  "push_condition c x = (if c \<in> set (xp_visited x) then x
     else x\<lparr>xp_stack := c # xp_stack x, xp_visited := c # xp_visited x\<rparr>)"

definition extract_round :: "relaxation \<Rightarrow> relax_state \<Rightarrow> extraction \<Rightarrow> (action list + extraction) res" where
  "extract_round R st x = (case xp_stack x of
     [] \<Rightarrow> Inr (Inl (xp_plan x))
   | g # rest \<Rightarrow>
       let op = re_reached st ! g; x = x\<lparr>xp_stack := rest\<rparr> in
       if op < 0 then Inr (Inr x)
       else rbind (py_nth (rx_operators R) op) (\<lambda>r.
         rbind (supporting_conditions (rx_op_conditions R ! nat op) (re_costs st)) (\<lambda>cs.
         Inr (Inr (fold push_condition cs (x\<lparr>xp_plan := List.insert (ro_action r) (xp_plan x)\<rparr>))))))"

definition relaxed_plan :: "relaxation \<Rightarrow> relax_state \<Rightarrow> action list res" where
  "relaxed_plan R st = rbind (supporting_conditions (rx_goals R) (re_costs st)) (\<lambda>cs.
     run_rounds (extract_round R st) \<lparr>xp_stack = rev cs, xp_visited = cs, xp_plan = []\<rparr>)"


section \<open>The value\<close>

definition pending_count :: "relaxation \<Rightarrow> (action, nat \<times> nat) dict \<Rightarrow> int res" where
  "pending_count R todo = rfold (\<lambda>(a, (j, _)) n. rbind (dict_lookup (rx_events R) a) (\<lambda>le.
     Inr (n + int (length le) - int j))) todo 0"

definition plan_count :: "relaxation \<Rightarrow> (action, nat \<times> nat) dict \<Rightarrow> action list \<Rightarrow> int \<Rightarrow> int res" where
  "plan_count R todo plan n = rfold (\<lambda>a n. if dict_get todo a \<noteq> None then Inr n
     else rbind (dict_lookup (rx_events R) a) (\<lambda>le. Inr (n + int (length le)))) plan n"

definition hff_value :: "relaxation \<Rightarrow> 'n state \<Rightarrow> relax_state \<Rightarrow> rat \<Rightarrow> int res" where
  "hff_value R s st h = rbind (pending_count R (st_todo s)) (\<lambda>n.
     if h = 0 then Inr n
     else rbind (relaxed_plan R st) (\<lambda>plan. plan_count R (st_todo s) plan n))"

definition relax_eval_core :: "ifenv \<Rightarrow> relaxation \<Rightarrow> 'n state \<Rightarrow> rat option res" where
  "relax_eval_core ifs R s =
     rbind (relax_run ifs R False s) (\<lambda>st.
     rbind (relax_cost R (rx_goal_op R) (re_costs st)) (\<lambda>h. case h of
       Inf \<Rightarrow> Inr None
     | Fin q \<Rightarrow> if rx_kind R = HFF then rbind (hff_value R s st q) (\<lambda>n. Inr (Some (of_int n))) else Inr (Some q)))"

definition reachable_operators :: "ifenv \<Rightarrow> relaxation \<Rightarrow> 'n state \<Rightarrow> nat list res" where
  "reachable_operators ifs R s = rbind (relax_run ifs R True s) (\<lambda>st.
     Inr (filter (\<lambda>op. re_op_cost st ! op < Inf) [0..<rx_goal_op R]))"

text \<open>The actions all of whose operators are reachable.\<close>

definition reachable_actions :: "ifenv \<Rightarrow> relaxation \<Rightarrow> 'n state \<Rightarrow> action list res" where
  "reachable_actions ifs R s = rbind (reachable_operators ifs R s) (\<lambda>ops.
     let reached = map (\<lambda>op. ro_action (rx_operators R ! op)) ops in
     Inr (filter (\<lambda>a. count_list reached a = count_list (map ro_action (rx_operators R)) a) (remdups reached)))"

definition relax_eval ::
    "ifenv \<Rightarrow> relaxation \<Rightarrow> (cache_key \<times> rat option) list option \<Rightarrow> 'n state \<Rightarrow>
     (rat option \<times> (cache_key \<times> rat option) list option) res" where
  "relax_eval ifs R cache s = (case cache of
     None \<Rightarrow> rbind (relax_eval_core ifs R s) (\<lambda>r. Inr (r, None))
   | Some d \<Rightarrow> (case find (\<lambda>(k, _). key_eq k (state_key s)) d of
       Some (_, r) \<Rightarrow> Inr (r, cache)
     | None \<Rightarrow> rbind (relax_eval_core ifs R s) (\<lambda>r. Inr (r, Some (d @ [(state_key s, r)])))))"

definition relax_name :: "heuristic_kind \<Rightarrow> bool \<Rightarrow> string" where
  "relax_name kind no_numbers =
     (case kind of HFF \<Rightarrow> ''hff'' | HADD \<Rightarrow> ''hadd'' | HMAX \<Rightarrow> ''hmax'') @ (if no_numbers then ''_no_numbers'' else '''')"

end
