(* ===== verification/Relax_Updates.thy ===== *)
theory Relax_Updates
  imports Relax_Eval Relax_Cost_Facts
begin

text \<open>
  The tables of an evaluation of \<open>DeleteRelaxationHeuristic\<close> without reopening: lowering the cost of a
  condition to at least the cost last popped brings the costs of all its readers up to date.
\<close>

section \<open>Fit tables\<close>

definition relax_wf :: "relaxation \<Rightarrow> bool" where
  "relax_wf R \<longleftrightarrow>
     length (rx_op_effects R) = rx_goal_op R \<and> length (rx_op_numeric R) = rx_goal_op R \<and>
     length (rx_op_conditions R) = Suc (rx_goal_op R) \<and> length (rx_readers R) = length (rx_leaves R) \<and>
     (\<forall>e \<in> set (rx_op_conditions R). cond_wf (length (rx_leaves R)) e) \<and>
     (\<forall>c < length (rx_leaves R). distinct (rx_readers R ! c) \<and>
        set (rx_readers R ! c) = {op. op \<le> rx_goal_op R \<and> c \<in> cond_leaves (rx_op_conditions R ! op)}) \<and>
     (\<forall>cs \<in> set (rx_op_effects R). \<forall>c \<in> set cs. c < length (rx_leaves R)) \<and>
     (\<forall>ps \<in> set (rx_op_numeric R). \<forall>p \<in> set ps. fst p < length (rx_leaves R)) \<and>
     (\<forall>r \<in> set (rx_operators R). ro_cost r = 1) \<and>
     (\<forall>(e, l) \<in> set (rx_leaves R). \<forall>false_cost. l = LEvaluated false_cost \<longrightarrow> 0 \<le> false_cost) \<and>
     (\<forall>p \<in> set (rx_extra_cids R). \<forall>c \<in> set (snd p). c < length (rx_leaves R)) \<and>
     (rx_drain R \<longleftrightarrow> rx_kind R = HMAX \<and> \<not> distinct (concat (map (map fst) (rx_op_numeric R))))"

abbreviation leaf_count :: "relaxation \<Rightarrow> nat" where
  "leaf_count R \<equiv> length (rx_leaves R)"

abbreviation op_value :: "relaxation \<Rightarrow> nat \<Rightarrow> cost list \<Rightarrow> cost" where
  "op_value R op \<equiv> the_cost (rx_kind R = HMAX) (rx_op_conditions R ! op)"

lemma wf_condition: "relax_wf R \<Longrightarrow> op \<le> rx_goal_op R \<Longrightarrow> cond_wf (leaf_count R) (rx_op_conditions R ! op)"
  by (simp add: relax_wf_def)

lemma wf_readers:
  assumes "relax_wf R" "c < leaf_count R"
  shows "distinct (rx_readers R ! c)" "op \<in> set (rx_readers R ! c) \<longleftrightarrow> op \<le> rx_goal_op R \<and> c \<in> cond_leaves (rx_op_conditions R ! op)"
  using assms by (auto simp: relax_wf_def)

lemma relax_cost_value:
  "relax_wf R \<Longrightarrow> op \<le> rx_goal_op R \<Longrightarrow> length K = leaf_count R \<Longrightarrow> relax_cost R op K = Inr (op_value R op K)"
  using wf_condition [of R op] by (simp add: relax_cost_def expression_cost_value)

lemma op_value_mono:
  assumes "relax_wf R" "op \<le> rx_goal_op R" "length K = leaf_count R" "list_all2 (\<le>) K K'"
  shows "op_value R op K \<le> op_value R op K'"
  using the_cost_mono [of K "rx_op_conditions R ! op" K'] wf_condition [OF assms(1,2)] assms(3,4) by simp

lemma op_value_above:
  assumes "relax_wf R" "op \<le> rx_goal_op R" "length K = leaf_count R" "list_all2 (above p) K K'"
  shows "above p (op_value R op K) (op_value R op K')"
  using the_cost_above [of K "rx_op_conditions R ! op" p K'] wf_condition [OF assms(1,2)] assms(3,4) by simp


section \<open>Unreached leaves\<close>

text \<open>How many leaves of \<open>op\<close> have not been reached; every reader is listed once.\<close>

definition missing :: "relaxation \<Rightarrow> cost list \<Rightarrow> nat \<Rightarrow> int" where
  "missing R K op = (\<Sum>c < leaf_count R. if K ! c = Inf then int (count_list (rx_readers R ! c) op) else 0)"

lemma missing_waits:
  assumes "relax_wf R" "op \<le> rx_goal_op R" "length K = leaf_count R" "unreached ! op = missing R K op" "waits R op unreached"
  shows "op_value R op K = Inf"
proof -
  have "0 < missing R K op" using assms(4,5) by (simp add: waits_def)
  moreover have "missing R K op = 0" if "\<forall>c < leaf_count R. K ! c = Inf \<longrightarrow> count_list (rx_readers R ! c) op = 0"
    unfolding missing_def by (rule sum.neutral) (use that in simp)
  ultimately obtain c where c: "c < leaf_count R" "K ! c = Inf" "count_list (rx_readers R ! c) op \<noteq> 0" by auto
  then have "c \<in> cond_leaves (rx_op_conditions R ! op)"
    using wf_readers(2) [OF assms(1) c(1), of op] by (simp add: count_list_0_iff)
  moreover have "\<forall>n. IOr n \<notin> set (rx_op_conditions R ! op)"
    using assms(5) by (auto simp: waits_def contains_or_node_def list_ex_iff)
  ultimately show ?thesis using the_cost_unreached [of K] wf_condition [OF assms(1,2)] assms(3) c(2) by simp
qed

lemma missing_update:
  assumes "relax_wf R" "c < leaf_count R" "length K = leaf_count R" "v \<noteq> Inf"
  shows "missing R (K[c := v]) op = missing R K op - (if K ! c = Inf then int (count_list (rx_readers R ! c) op) else 0)"
proof -
  let ?f = "\<lambda>K d. if K ! d = Inf then int (count_list (rx_readers R ! d) op) else 0"
  have "missing R L op = ?f L c + (\<Sum>d \<in> {..<leaf_count R} - {c}. ?f L d)" for L
    using assms(2) unfolding missing_def by (subst sum.remove [where x = c]) auto
  moreover have "(\<Sum>d \<in> {..<leaf_count R} - {c}. ?f (K[c := v]) d) = (\<Sum>d \<in> {..<leaf_count R} - {c}. ?f K d)"
    by (intro sum.cong) auto
  moreover have "?f (K[c := v]) c = 0" using assms(2-4) by simp
  ultimately show ?thesis by simp
qed

lemma count_reader:
  assumes "relax_wf R" "c < leaf_count R"
  shows "count_list (rx_readers R ! c) op = (if op \<in> set (rx_readers R ! c) then 1 else 0)"
proof -
  have "count_list xs op = (if op \<in> set xs then 1 else 0)" if "distinct xs" for xs using that by (induction xs) auto
  with wf_readers(1) [OF assms] show ?thesis by simp
qed


section \<open>Tables up to date\<close>

definition sized :: "relaxation \<Rightarrow> relax_state \<Rightarrow> bool" where
  "sized R st \<longleftrightarrow> length (re_costs st) = leaf_count R \<and> length (re_op_cost st) = Suc (rx_goal_op R) \<and>
     length (re_closed st) = Suc (rx_goal_op R) \<and> length (re_unreached st) = Suc (rx_goal_op R)"

text \<open>The entries of operator \<open>op\<close> fit the costs \<open>K\<close>.\<close>

definition fresh :: "relaxation \<Rightarrow> cost list \<Rightarrow> relax_state \<Rightarrow> nat \<Rightarrow> bool" where
  "fresh R K st op \<longleftrightarrow> re_op_cost st ! op = op_value R op K \<and>
     (\<not> re_closed st ! op \<longrightarrow> re_unreached st ! op = missing R K op \<and>
        (re_op_cost st ! op < Inf \<longrightarrow> (re_op_cost st ! op, op) \<in> set (re_heap st)))"

definition heap_above :: "relaxation \<Rightarrow> cost \<Rightarrow> relax_state \<Rightarrow> bool" where
  "heap_above R p st \<longleftrightarrow> heap entry_lt (re_heap st) \<and> (\<forall>(v, op) \<in> set (re_heap st). p \<le> v \<and> op \<le> rx_goal_op R)"

definition tables_fit :: "relaxation \<Rightarrow> cost \<Rightarrow> relax_state \<Rightarrow> bool" where
  "tables_fit R p st \<longleftrightarrow> sized R st \<and> heap_above R p st \<and> (\<forall>c < leaf_count R. 0 \<le> re_costs st ! c) \<and>
     (\<forall>op \<le> rx_goal_op R. fresh R (re_costs st) st op \<and> (re_closed st ! op \<longrightarrow> re_op_cost st ! op \<le> p))"

text \<open>The loops leave these parts alone.\<close>

definition same_rest :: "relax_state \<Rightarrow> relax_state \<Rightarrow> bool" where
  "same_rest st st' \<longleftrightarrow> re_costs st' = re_costs st \<and> re_closed st' = re_closed st \<and> re_min_pre st' = re_min_pre st"

lemma heap_above_push:
  assumes "heap_above R p st" "p \<le> v" "op \<le> rx_goal_op R"
  shows "heap entry_lt (heappush entry_lt (v, op) (re_heap st))"
    "set (heappush entry_lt (v, op) (re_heap st)) = insert (v, op) (set (re_heap st))"
proof -
  have h: "heap entry_lt (re_heap st)" using assms(1) by (simp add: heap_above_def)
  show "heap entry_lt (heappush entry_lt (v, op) (re_heap st))" by (rule entries.heappush_heap(1) [OF h])
  have "set_mset (mset (heappush entry_lt (v, op) (re_heap st))) = insert (v, op) (set (re_heap st))"
    using entries.heappush_heap(2) [OF h, of "(v, op)"] by simp
  then show "set (heappush entry_lt (v, op) (re_heap st)) = insert (v, op) (set (re_heap st))" by simp
qed

text \<open>One reader of the condition \<open>c\<close>, whose cost was lowered from that in \<open>K\<close>.\<close>

lemma update_reader_fresh:
  assumes R: "relax_wf R" and st: "sized R st" "heap_above R p st"
    and costs: "re_costs st = K[c := v]" "length K = leaf_count R" "c < leaf_count R" "v < K ! c" "list_all2 (above p) K (K[c := v])"
    and r: "r \<in> set (rx_readers R ! c)" "fresh R K st r" "re_closed st ! r \<longrightarrow> re_op_cost st ! r \<le> p"
  shows "\<exists>st'. update_reader R False (K ! c = Inf) r st = Inr st' \<and> sized R st' \<and> heap_above R p st' \<and> same_rest st st' \<and>
    fresh R (K[c := v]) st' r \<and> set (re_heap st) \<subseteq> set (re_heap st') \<and>
    (\<forall>op. op \<noteq> r \<longrightarrow> re_op_cost st' ! op = re_op_cost st ! op \<and> re_unreached st' ! op = re_unreached st ! op)"
proof -
  have r': "r \<le> rx_goal_op R" using wf_readers(2) [OF R costs(3)] r(1) by simp
  have len: "r < length (re_op_cost st)" "r < length (re_closed st)" "r < length (re_unreached st)" "length (K[c := v]) = leaf_count R"
    using st(1) r' costs(2) by (auto simp: sized_def)
  have down: "list_all2 (\<le>) (K[c := v]) K"
    using costs(2-4) by (auto simp: list_all2_conv_all_nth nth_list_update)
  have old: "re_op_cost st ! r = op_value R r K" using r(2) by (simp add: fresh_def)
  have less: "op_value R r (K[c := v]) \<le> op_value R r K" by (rule op_value_mono [OF R r' len(4) down])
  have ab: "above p (op_value R r K) (op_value R r (K[c := v]))" by (rule op_value_above [OF R r' costs(2,5)])
  show ?thesis
  proof (cases "re_closed st ! r")
    case True
    then have "op_value R r K \<le> p" using r(3) old by simp
    then have "op_value R r (K[c := v]) = op_value R r K"
      using ab less by (auto simp: above_def min_def split: if_splits)
    then show ?thesis using True st r(2) old by (auto simp: update_reader_def same_rest_def fresh_def)
  next
    case False
    define u where "u = (if K ! c = Inf then count_reached [r] (re_unreached st) else re_unreached st)"
    define st1 where "st1 = (if K ! c = Inf then st\<lparr>re_unreached := count_reached [r] (re_unreached st)\<rparr> else st)"
    have "v \<noteq> Inf" using costs(4) by (cases "K ! c") auto
    moreover have "re_unreached st ! r = missing R K r" using r(2) False by (simp add: fresh_def)
    moreover have "count_list (rx_readers R ! c) r = 1" using count_reader [OF R costs(3), of r] r(1) by simp
    ultimately have u: "u ! r = missing R (K[c := v]) r"
      using missing_update [OF R costs(3,2)] len(3) by (simp add: u_def count_reached_def)
    have others: "u ! op = re_unreached st ! op" if "op \<noteq> r" for op
      using that by (simp add: u_def count_reached_def)
    have st1: "sized R st1" "heap_above R p st1" "re_costs st1 = K[c := v]" "\<not> re_closed st1 ! r" "re_op_cost st1 = re_op_cost st"
        "re_heap st1 = re_heap st" "re_unreached st1 = u" "re_closed st1 = re_closed st" "re_min_pre st1 = re_min_pre st"
      using st costs(1) False by (simp_all add: st1_def sized_def heap_above_def u_def count_reached_def)
    have step: "update_reader R False (K ! c = Inf) r st = (if waits R r u then Inr st1
       else rbind (relax_cost R r (re_costs st1)) (\<lambda>x. Inr (if x < re_op_cost st1 ! r
          then st1\<lparr>re_op_cost := (re_op_cost st1)[r := x], re_closed := (re_closed st1)[r := False],
                  re_heap := heappush entry_lt (x, r) (re_heap st1)\<rparr>
          else st1)))"
      using False unfolding update_reader_def st1_def u_def by (simp add: Let_def)
    define x where "x = op_value R r (K[c := v])"
    have cost: "relax_cost R r (re_costs st1) = Inr x"
      using relax_cost_value [OF R r' len(4)] st1(3) by (simp add: x_def)
    have inf: "x = Inf" if "waits R r u" using missing_waits [OF R r' len(4) u that] by (simp add: x_def)
    show ?thesis
    proof (cases "x < re_op_cost st ! r")
      case True
      then have "\<not> waits R r u" using inf by auto
      define st2 where "st2 = st1\<lparr>re_op_cost := (re_op_cost st1)[r := x], re_closed := (re_closed st1)[r := False],
                  re_heap := heappush entry_lt (x, r) (re_heap st1)\<rparr>"
      have run: "update_reader R False (K ! c = Inf) r st = Inr st2"
        unfolding step using \<open>\<not> waits R r u\<close> cost True st1(5) by (simp add: st2_def)
      have "p \<le> x" using ab True old by (auto simp: above_def x_def min_def split: if_splits)
      note push = heap_above_push [OF st1(2) this r']
      have "(re_closed st1)[r := False] = re_closed st" using st1(4,8) by (metis list_update_id)
      moreover have "heap_above R p st2" using st1(2) push \<open>p \<le> x\<close> r' by (auto simp: heap_above_def st2_def)
      moreover have "sized R st2" using st1(1) by (simp add: sized_def st2_def)
      moreover have "fresh R (K[c := v]) st2 r" using push(2) u st1(5,7) len by (simp add: fresh_def st2_def x_def)
      ultimately show ?thesis using run push(2) others st1 costs(1) by (auto simp: same_rest_def st2_def)
    next
      case noless: False
      have run: "update_reader R False (K ! c = Inf) r st = Inr st1" unfolding step using cost noless st1(5) by simp
      have "x = op_value R r K" using noless less old by (simp add: x_def)
      then have "fresh R (K[c := v]) st1 r" using r(2) st1 u False by (auto simp: fresh_def x_def)
      then show ?thesis using run st1 others costs(1) by (auto simp: same_rest_def)
    qed
  qed
qed

text \<open>All readers of the condition.\<close>

lemma update_readers_fresh:
  assumes R: "relax_wf R" and K: "length K = leaf_count R" "c < leaf_count R" "v < K ! c" "list_all2 (above p) K (K[c := v])"
    and rs: "distinct rs" "set rs \<subseteq> set (rx_readers R ! c)"
    and st: "sized R st" "heap_above R p st" "re_costs st = K[c := v]"
    and old: "\<forall>op \<in> set rs. fresh R K st op \<and> (re_closed st ! op \<longrightarrow> re_op_cost st ! op \<le> p)"
    and new: "\<forall>op \<le> rx_goal_op R. op \<notin> set rs \<longrightarrow> fresh R (K[c := v]) st op"
  shows "\<exists>st'. rfold (update_reader R False (K ! c = Inf)) rs st = Inr st' \<and> sized R st' \<and> heap_above R p st' \<and>
    same_rest st st' \<and> (\<forall>op \<le> rx_goal_op R. fresh R (K[c := v]) st' op)"
  using rs st old new
proof (induction rs arbitrary: st)
  case (Cons r rs)
  obtain st1 where st1: "update_reader R False (K ! c = Inf) r st = Inr st1" "sized R st1" "heap_above R p st1"
      "same_rest st st1" "fresh R (K[c := v]) st1 r" "set (re_heap st) \<subseteq> set (re_heap st1)"
    and others: "\<And>op. op \<noteq> r \<Longrightarrow> re_op_cost st1 ! op = re_op_cost st ! op \<and> re_unreached st1 ! op = re_unreached st ! op"
    using update_reader_fresh [OF R Cons.prems(3-5) K, of r] Cons.prems(2,6) by auto
  have keep: "fresh R L st1 op" if "fresh R L st op" "op \<noteq> r" for L op
    using that st1(4,6) others [OF that(2)] by (auto simp: fresh_def same_rest_def)
  have "\<exists>st'. rfold (update_reader R False (K ! c = Inf)) rs st1 = Inr st' \<and> sized R st' \<and> heap_above R p st' \<and>
    same_rest st1 st' \<and> (\<forall>op \<le> rx_goal_op R. fresh R (K[c := v]) st' op)"
  proof (rule Cons.IH)
    show "distinct rs" "set rs \<subseteq> set (rx_readers R ! c)" using Cons.prems(1,2) by auto
    show "re_costs st1 = K[c := v]" using st1(4) Cons.prems(5) by (simp add: same_rest_def)
    show "\<forall>op \<in> set rs. fresh R K st1 op \<and> (re_closed st1 ! op \<longrightarrow> re_op_cost st1 ! op \<le> p)"
    proof
      fix op assume op: "op \<in> set rs"
      then have "op \<noteq> r" using Cons.prems(1) by auto
      with op Cons.prems(6) keep [of K op] others [of op] st1(4)
      show "fresh R K st1 op \<and> (re_closed st1 ! op \<longrightarrow> re_op_cost st1 ! op \<le> p)" by (simp add: same_rest_def)
    qed
    show "\<forall>op \<le> rx_goal_op R. op \<notin> set rs \<longrightarrow> fresh R (K[c := v]) st1 op"
      using Cons.prems(7) keep st1(5) by fastforce
  qed (rule st1(2,3))+
  then show ?case using st1(1,4) by (auto simp: same_rest_def)
qed (auto simp: same_rest_def)


section \<open>One condition\<close>

lemma above_update:
  assumes "\<forall>c < length K. 0 \<le> K ! c" "p \<le> v" "0 \<le> v"
  shows "list_all2 (above p) K (K[c := v])"
  using assms by (cases "c < length K") (auto simp: list_all2_conv_all_nth above_def nth_list_update min_le_iff_disj)

lemma fresh_elsewhere:
  assumes "relax_wf R" "op \<le> rx_goal_op R" "op \<notin> set (rx_readers R ! c)" "c < leaf_count R"
    and "length K = leaf_count R" "v \<noteq> Inf" "fresh R K st op"
  shows "fresh R (K[c := v]) st op"
proof -
  have "c \<notin> cond_leaves (rx_op_conditions R ! op)" using wf_readers(2) [OF assms(1,4), of op] assms(2,3) by simp
  then have "op_value R op (K[c := v]) = op_value R op K" by (intro the_cost_cong) (auto intro!: nth_list_update_neq)
  moreover have "missing R (K[c := v]) op = missing R K op"
    using missing_update [OF assms(1,4,5,6)] count_reader [OF assms(1,4), of op] assms(3) by simp
  ultimately show ?thesis using assms(7) by (auto simp: fresh_def)
qed

lemma fresh_only: "fresh R K (st\<lparr>re_reached := x\<rparr>) op = fresh R K st op" "fresh R K (st\<lparr>re_costs := y\<rparr>) op = fresh R K st op"
  "fresh R K (st\<lparr>re_min_pre := x'\<rparr>) op = fresh R K st op"
  by (simp_all add: fresh_def)

lemma tables_only:
  "tables_fit R p (st\<lparr>re_reached := x\<rparr>) = tables_fit R p st" "tables_fit R p (st\<lparr>re_min_pre := y\<rparr>) = tables_fit R p st"
  by (simp_all add: tables_fit_def sized_def heap_above_def fresh_only)

lemma update_condition_tables:
  assumes R: "relax_wf R" and st: "tables_fit R p st" and c: "c < leaf_count R" and v: "p \<le> v" "0 \<le> v"
  shows "\<exists>st'. update_condition_cost R False op c v st = Inr st' \<and> tables_fit R p st' \<and>
    re_costs st' = (re_costs st)[c := min (re_costs st ! c) v] \<and> re_closed st' = re_closed st \<and> re_min_pre st' = re_min_pre st"
proof (cases "v < re_costs st ! c")
  case False
  then have "min (re_costs st ! c) v = re_costs st ! c" by simp
  then have "(re_costs st)[c := min (re_costs st ! c) v] = re_costs st" by simp
  then show ?thesis using False st by (auto simp: update_condition_cost_def tables_only)
next
  case True
  let ?K = "re_costs st" and ?g = "rx_goal_op R"
  define st1 where "st1 = st\<lparr>re_costs := ?K[c := v], re_reached := if rx_kind R = HFF then (re_reached st)[c := int op] else re_reached st\<rparr>"
  have K: "length ?K = leaf_count R" "\<forall>c < length ?K. 0 \<le> ?K ! c" using st by (auto simp: tables_fit_def sized_def)
  have ab: "list_all2 (above p) ?K (?K[c := v])" by (rule above_update [OF K(2) v])
  have fresh: "fresh R ?K st op" "re_closed st ! op \<Longrightarrow> re_op_cost st ! op \<le> p" if "op \<le> ?g" for op
    using st that by (auto simp: tables_fit_def)
  have same: "fresh R L st1 op = fresh R L st op" for L op by (simp add: st1_def fresh_def)
  have "v \<noteq> Inf" using True by (cases "?K ! c") auto
  have "\<exists>st'. rfold (update_reader R False (?K ! c = Inf)) (rx_readers R ! c) st1 = Inr st' \<and> sized R st' \<and>
    heap_above R p st' \<and> same_rest st1 st' \<and> (\<forall>op \<le> ?g. fresh R (?K[c := v]) st' op)"
  proof (rule update_readers_fresh [OF R K(1) c True ab wf_readers(1) [OF R c] order.refl])
    show "sized R st1" "heap_above R p st1" "re_costs st1 = ?K[c := v]"
      using st by (simp_all add: st1_def tables_fit_def sized_def heap_above_def)
    show "\<forall>op \<in> set (rx_readers R ! c). fresh R ?K st1 op \<and> (re_closed st1 ! op \<longrightarrow> re_op_cost st1 ! op \<le> p)"
      using wf_readers(2) [OF R c] fresh by (auto simp: same) (simp_all add: st1_def)
    show "\<forall>op \<le> ?g. op \<notin> set (rx_readers R ! c) \<longrightarrow> fresh R (?K[c := v]) st1 op"
      using fresh_elsewhere [OF R _ _ c K(1) \<open>v \<noteq> Inf\<close>] fresh(1) by (auto simp: same)
  qed
  then obtain st' where run: "rfold (update_reader R False (?K ! c = Inf)) (rx_readers R ! c) st1 = Inr st'"
    and st': "sized R st'" "heap_above R p st'" "same_rest st1 st'" "\<forall>op \<le> ?g. fresh R (?K[c := v]) st' op" by blast
  have rest: "re_costs st' = ?K[c := v]" "re_closed st' = re_closed st" "re_min_pre st' = re_min_pre st"
    using st'(3) by (simp_all add: same_rest_def st1_def)
  have closed: "re_op_cost st' ! op \<le> p" if "op \<le> ?g" "re_closed st' ! op" for op
  proof -
    have "re_op_cost st' ! op = op_value R op (?K[c := v])" using st'(4) that by (simp add: fresh_def)
    also have "\<dots> \<le> op_value R op ?K"
      using K(1) c True by (intro op_value_mono [OF R that(1)]) (auto simp: list_all2_conv_all_nth nth_list_update)
    also have "\<dots> \<le> p" using fresh [OF that(1)] that(2) rest(2) by (simp add: fresh_def)
    finally show ?thesis .
  qed
  have "\<forall>d < leaf_count R. 0 \<le> re_costs st' ! d" using K v(2) rest(1) c by (auto simp: nth_list_update)
  with st' closed rest(1) have "tables_fit R p st'" by (simp add: tables_fit_def)
  moreover have "update_condition_cost R False op c v st = Inr st'"
    using True run by (simp add: update_condition_cost_def st1_def)
  moreover have "min (?K ! c) v = v" using True by (intro min_absorb2 less_imp_le)
  ultimately show ?thesis using rest by auto
qed

end
