(* ===== verification/Relax_Cheapest.thy ===== *)
theory Relax_Cheapest
  imports Relax_Updates
begin

text \<open>
  Without draining, the loop of \<open>DeleteRelaxationHeuristic\<close> computes cheapest costs: the value of the
  goal is the greatest one any costs can give it that are at most the initial ones and at most
  what each operator offers.
\<close>

section \<open>Costs that bound the relaxation from below\<close>

text \<open>What an operator adds to its own cost for each condition it achieves.\<close>

definition offers :: "relaxation \<Rightarrow> 'n state \<Rightarrow> nat \<Rightarrow> (nat \<times> rat) list" where
  "offers R s op = (let r = rx_operators R ! op in
     map (\<lambda>c. (c, ro_cost r)) (rx_op_effects R ! op) @
     List.map_filter (\<lambda>(c, nc). case repetitions (rx_inadmissible R) r nc s of
       Inr (Some k) \<Rightarrow> Some (c, of_int k * ro_cost r) | _ \<Rightarrow> None) (rx_op_numeric R ! op))"

definition lower_costs :: "relaxation \<Rightarrow> 'n state \<Rightarrow> cost list \<Rightarrow> cost list \<Rightarrow> bool" where
  "lower_costs R s K0 D \<longleftrightarrow> list_all2 (\<le>) D K0 \<and>
     (\<forall>op < rx_goal_op R. \<forall>(c, w) \<in> set (offers R s op). D ! c \<le> Fin w + op_value R op D)"

lemma set_map_filter: "set (List.map_filter f xs) = {y. \<exists>x \<in> set xs. f x = Some y}"
  by (induction xs) (auto split: option.splits)

lemma offer_effect: "c \<in> set (rx_op_effects R ! op) \<Longrightarrow> (c, ro_cost (rx_operators R ! op)) \<in> set (offers R s op)"
  by (simp add: offers_def Let_def)

lemma offer_numeric:
  assumes "(c, nc) \<in> set (rx_op_numeric R ! op)" "repetitions (rx_inadmissible R) (rx_operators R ! op) nc s = Inr (Some k)"
  shows "(c, of_int k * ro_cost (rx_operators R ! op)) \<in> set (offers R s op)"
  using assms by (force simp: offers_def Let_def set_map_filter)

lemma offersE:
  assumes "(c, w) \<in> set (offers R s op)"
  obtains "c \<in> set (rx_op_effects R ! op)" "w = ro_cost (rx_operators R ! op)"
  | nc k where "(c, nc) \<in> set (rx_op_numeric R ! op)"
    "repetitions (rx_inadmissible R) (rx_operators R ! op) nc s = Inr (Some k)" "w = of_int k * ro_cost (rx_operators R ! op)"
  using assms that
  by (auto simp: offers_def Let_def set_map_filter split: sum.splits option.splits)

lemma repetitions_nonneg: "repetitions inadm r nc s = Inr (Some k) \<Longrightarrow> 0 \<le> k"
proof -
  assume "repetitions inadm r nc s = Inr (Some k)"
  then obtain v where "condition_value nc s = Inr v" and k: "k = 0 \<or> k = 1 \<or> (\<exists>q. v = Fin q \<and> 0 < q \<and>
      net_effect inadm r (nc_fluents nc) (nc_weights nc) < 0 \<and>
      k = \<lceil>float_div (- q) (net_effect inadm r (nc_fluents nc) (nc_weights nc))\<rceil>)"
    by (auto simp: repetitions_def rbind_eq_Inr Let_def zero_cost_def split: if_splits cost.splits)
  have "- 1 < float_div (- q) n" if "0 < q" "n < 0" for q n :: rat
    using float_div_nonneg [of "- q" n] that by linarith
  then have "0 \<le> \<lceil>float_div (- q) n\<rceil>" if "0 < q" "n < 0" for q n :: rat using that by (simp only: zero_le_ceiling)
  with k show ?thesis by auto
qed

lemma wf_offers:
  assumes "relax_wf R" "op < rx_goal_op R" "(c, w) \<in> set (offers R s op)"
  shows "c < leaf_count R" "0 \<le> w"
proof -
  have op: "rx_op_effects R ! op \<in> set (rx_op_effects R)" "rx_op_numeric R ! op \<in> set (rx_op_numeric R)"
    "rx_operators R ! op \<in> set (rx_operators R)"
    using assms(1,2) by (auto simp: relax_wf_def rx_goal_op_def)
  then have cost: "ro_cost (rx_operators R ! op) = 1" using assms(1) by (simp add: relax_wf_def)
  from assms(3) show "c < leaf_count R" "0 \<le> w"
    by (cases rule: offersE; use assms(1) op cost repetitions_nonneg in \<open>fastforce simp: relax_wf_def\<close>)+
qed


section \<open>One operator\<close>

lemma costs_le_trans: "list_all2 (\<le>) xs ys \<Longrightarrow> list_all2 (\<le>) ys zs \<Longrightarrow> list_all2 (\<le>) xs (zs :: cost list)"
  using list_all2_trans [of "(\<le>)" "(\<le>)" "(\<le>)" xs ys zs] order_trans by blast

text \<open>The costs \<open>K'\<close> are \<open>K\<close> with the offers \<open>A\<close> taken.\<close>

definition lowered :: "(nat \<times> cost) set \<Rightarrow> cost list \<Rightarrow> cost list \<Rightarrow> bool" where
  "lowered A K K' \<longleftrightarrow> length K' = length K \<and> (\<forall>c < length K. K' ! c \<le> K ! c) \<and>
     (\<forall>(c, v) \<in> A. K' ! c \<le> v) \<and> (\<forall>c < length K. K' ! c = K ! c \<or> (c, K' ! c) \<in> A)"

lemma lowered_refl: "lowered {} K K"
  by (simp add: lowered_def)

lemma lowered_one:
  assumes "c < length K"
  shows "lowered {(c, v)} K (K[c := min (K ! c) v])"
  using assms by (auto simp: lowered_def nth_list_update min_def)

lemma lowered_trans:
  assumes "lowered A K K'" "lowered B K' K''" "\<forall>(c, v) \<in> A. c < length K"
  shows "lowered (A \<union> B) K K''"
proof -
  have len: "length K' = length K" "length K'' = length K" using assms(1,2) by (simp_all add: lowered_def)
  have le: "K'' ! c \<le> K' ! c" "K' ! c \<le> K ! c" if "c < length K" for c
    using assms(1,2) that len by (auto simp: lowered_def)
  have "K'' ! c \<le> v" if "(c, v) \<in> A \<union> B" for c v
  proof (cases "(c, v) \<in> A")
    case True
    then have "K' ! c \<le> v" "c < length K" using assms(1,3) by (auto simp: lowered_def)
    with le(1) show ?thesis by (meson order_trans)
  qed (use that assms(2) in \<open>auto simp: lowered_def\<close>)
  moreover have "K'' ! c = K ! c \<or> (c, K'' ! c) \<in> A \<union> B" if "c < length K" for c
    using assms(1,2) that len unfolding lowered_def by (metis UnI1 UnI2)
  ultimately show ?thesis using len le by (force simp: lowered_def intro: order_trans)
qed

definition offered :: "relaxation \<Rightarrow> 'n state \<Rightarrow> nat \<Rightarrow> cost \<Rightarrow> (nat \<times> cost) set" where
  "offered R s op pre = (\<lambda>(c, w). (c, Fin w + pre)) ` set (offers R s op)"

text \<open>A loop that takes one offer after the other.\<close>

lemma offers_loop:
  assumes "tables_fit R p st" "I st xs"
    and step: "\<And>x xs st. tables_fit R p st \<Longrightarrow> I st (x # xs) \<Longrightarrow> \<exists>st'. f x st = Inr st' \<and> tables_fit R p st' \<and>
      re_closed st' = re_closed st \<and> I st' xs \<and> lowered {(g x)} (re_costs st) (re_costs st')"
    and g: "\<And>x. x \<in> set xs \<Longrightarrow> fst (g x) < leaf_count R"
  shows "\<exists>st'. rfold f xs st = Inr st' \<and> tables_fit R p st' \<and> re_closed st' = re_closed st \<and> I st' [] \<and>
    lowered (g ` set xs) (re_costs st) (re_costs st')"
  using assms(1,2) g
proof (induction xs arbitrary: st)
  case (Cons x xs)
  from step [OF Cons.prems(1,2)] obtain st1 where st1: "f x st = Inr st1" "tables_fit R p st1" "re_closed st1 = re_closed st"
    "I st1 xs" "lowered {(g x)} (re_costs st) (re_costs st1)" by blast
  from Cons.IH [OF st1(2,4)] Cons.prems(3) obtain st2 where st2: "rfold f xs st1 = Inr st2" "tables_fit R p st2"
    "re_closed st2 = re_closed st1" "I st2 []" "lowered (g ` set xs) (re_costs st1) (re_costs st2)" by auto
  have "length (re_costs st) = leaf_count R" using Cons.prems(1) by (simp add: tables_fit_def sized_def)
  with lowered_trans [OF st1(5) st2(5)] Cons.prems(3) have "lowered (g ` set (x # xs)) (re_costs st) (re_costs st2)"
    by (auto simp: case_prod_beta)
  with st1 st2 show ?case by auto
qed (auto simp: lowered_refl)

lemma update_lowered:
  assumes "relax_wf R" "tables_fit R p st" "c < leaf_count R" "p \<le> v" "0 \<le> v"
  shows "\<exists>st'. update_condition_cost R False op c v st = Inr st' \<and> tables_fit R p st' \<and> re_closed st' = re_closed st \<and>
    re_min_pre st' = re_min_pre st \<and> lowered {(c, v)} (re_costs st) (re_costs st')"
proof -
  have "c < length (re_costs st)" using assms(2,3) by (simp add: tables_fit_def sized_def)
  with update_condition_tables [OF assms, of op] lowered_one [of c "re_costs st" v] show ?thesis by auto
qed

lemma expand_effects:
  assumes "relax_wf R" "tables_fit R pre st" "op < rx_goal_op R" "0 \<le> pre"
  shows "\<exists>st'. rfold (\<lambda>c. update_condition_cost R False op c (Fin (ro_cost (rx_operators R ! op)) + pre)) (rx_op_effects R ! op) st = Inr st' \<and>
    tables_fit R pre st' \<and> re_closed st' = re_closed st \<and> re_min_pre st' = re_min_pre st \<and>
    lowered ((\<lambda>c. (c, Fin (ro_cost (rx_operators R ! op)) + pre)) ` set (rx_op_effects R ! op)) (re_costs st) (re_costs st')"
proof -
  let ?v = "Fin (ro_cost (rx_operators R ! op)) + pre"
  define I where "I st' cs \<longleftrightarrow> re_min_pre st' = re_min_pre st \<and> (\<forall>c \<in> set cs. c < leaf_count R)" for st' :: relax_state and cs :: "nat list"
  have c: "c < leaf_count R" "0 \<le> ro_cost (rx_operators R ! op)" if "c \<in> set (rx_op_effects R ! op)" for c
    using wf_offers [OF assms(1,3) offer_effect [OF that]] by auto
  have v: "pre \<le> ?v" "0 \<le> ?v" if "rx_op_effects R ! op \<noteq> []"
  proof -
    from that obtain c where "c \<in> set (rx_op_effects R ! op)" by (cases "rx_op_effects R ! op") auto
    then have "0 \<le> Fin (ro_cost (rx_operators R ! op))" using c(2) by (simp add: zero_cost_def)
    with assms(4) show "pre \<le> ?v" "0 \<le> ?v" using add_right_mono [of 0 "Fin (ro_cost (rx_operators R ! op))" pre] by auto
  qed
  show ?thesis
  proof (cases "rx_op_effects R ! op = []")
    case False
    have "\<exists>st'. rfold (\<lambda>c. update_condition_cost R False op c ?v) (rx_op_effects R ! op) st = Inr st' \<and>
      tables_fit R pre st' \<and> re_closed st' = re_closed st \<and> I st' [] \<and>
      lowered ((\<lambda>c. (c, ?v)) ` set (rx_op_effects R ! op)) (re_costs st) (re_costs st')"
    proof (rule offers_loop [where I = I, OF assms(2)])
      show "I st (rx_op_effects R ! op)" using c(1) by (simp add: I_def)
      show "\<exists>st''. update_condition_cost R False op c ?v st' = Inr st'' \<and> tables_fit R pre st'' \<and>
        re_closed st'' = re_closed st' \<and> I st'' cs \<and> lowered {(c, ?v)} (re_costs st') (re_costs st'')"
        if "tables_fit R pre st'" "I st' (c # cs)" for c cs st'
        using update_lowered [OF assms(1) that(1), of c ?v op] v [OF False] that(2) by (auto simp: I_def)
    qed (use c(1) in simp)
    then show ?thesis by (auto simp: I_def)
  qed (use assms(2) in \<open>simp add: lowered_refl\<close>)
qed

text \<open>The numeric conditions: with one achiever each, the cheapest precondition is its own.\<close>

definition readable_op :: "relaxation \<Rightarrow> 'n state \<Rightarrow> cost list \<Rightarrow> nat \<Rightarrow> bool" where
  "readable_op R s K0 op \<longleftrightarrow> (\<forall>(c, nc) \<in> set (rx_op_numeric R ! op). K0 ! c \<noteq> Fin 0 \<longrightarrow>
     (\<exists>k. repetitions (rx_inadmissible R) (rx_operators R ! op) nc s = Inr (Some k)))"

definition unused :: "relaxation \<Rightarrow> cost list \<Rightarrow> (nat \<times> ncond) list \<Rightarrow> bool" where
  "unused R mins ps \<longleftrightarrow> (rx_kind R = HMAX \<longrightarrow> length mins = leaf_count R \<and> distinct (map fst ps) \<and> (\<forall>p \<in> set ps. mins ! fst p = Inf))"

definition numeric_offer :: "relaxation \<Rightarrow> 'n state \<Rightarrow> nat \<Rightarrow> cost \<Rightarrow> nat \<times> ncond \<Rightarrow> nat \<times> cost" where
  "numeric_offer R s op pre p = (fst p, case repetitions (rx_inadmissible R) (rx_operators R ! op) (snd p) s of
     Inr (Some k) \<Rightarrow> Fin (of_int k * ro_cost (rx_operators R ! op)) + pre | _ \<Rightarrow> Inf)"

lemma achieve_numeric_step:
  assumes R: "relax_wf R" "op < rx_goal_op R" and st: "tables_fit R pre st" "0 \<le> pre" "unused R (re_min_pre st) (p # ps)"
    and p: "p \<in> set (rx_op_numeric R ! op)" "re_costs st ! fst p \<noteq> Fin 0 \<Longrightarrow>
      \<exists>k. repetitions (rx_inadmissible R) (rx_operators R ! op) (snd p) s = Inr (Some k)"
  shows "\<exists>st'. achieve_numeric R False s op pre p st = Inr st' \<and> tables_fit R pre st' \<and> re_closed st' = re_closed st \<and>
    unused R (re_min_pre st') ps \<and> (\<forall>c. c \<noteq> fst p \<longrightarrow> re_min_pre st' ! c = re_min_pre st ! c) \<and>
    lowered {numeric_offer R s op pre p} (re_costs st) (re_costs st')"
proof -
  obtain c nc where p': "p = (c, nc)" by (cases p)
  let ?r = "rx_operators R ! op"
  have "rx_op_numeric R ! op \<in> set (rx_op_numeric R)" "?r \<in> set (rx_operators R)" using R by (auto simp: relax_wf_def rx_goal_op_def)
  then have c: "c < leaf_count R" "ro_cost ?r = 1" using R(1) p(1) p' by (force simp: relax_wf_def)+
  have len: "c < length (re_costs st)" using st(1) c(1) by (simp add: tables_fit_def sized_def)
  have unused: "unused R (re_min_pre st) ps" using st(3) by (simp add: unused_def)
  show ?thesis
  proof (cases "re_costs st ! c = Fin 0")
    case True
    have "0 \<le> snd (numeric_offer R s op pre p)"
    proof (cases "\<exists>k. repetitions (rx_inadmissible R) ?r nc s = Inr (Some k)")
      case True
      then obtain k where k: "repetitions (rx_inadmissible R) ?r nc s = Inr (Some k)" by blast
      then have "0 \<le> Fin (of_int k * ro_cost ?r)" using repetitions_nonneg [OF k] c(2) by (simp add: zero_cost_def)
      with st(2) k p' show ?thesis by (simp add: numeric_offer_def add_nonneg_nonneg)
    next
      case False
      then have "snd (numeric_offer R s op pre p) = Inf" by (auto simp: numeric_offer_def p' split: sum.split option.split)
      then show ?thesis by simp
    qed
    then have "lowered {numeric_offer R s op pre p} (re_costs st) (re_costs st)"
      using True by (auto simp: lowered_def p' numeric_offer_def zero_cost_def)
    with True st(1) unused show ?thesis by (auto simp: achieve_numeric_def p')
  next
    case False
    with p(2) p' obtain k where k: "repetitions (rx_inadmissible R) ?r nc s = Inr (Some k)" by auto
    let ?v = "Fin (of_int k * ro_cost ?r) + pre"
    have "0 \<le> Fin (of_int k * ro_cost ?r)" using repetitions_nonneg [OF k] c(2) by (simp add: zero_cost_def)
    then have v: "pre \<le> ?v" "0 \<le> ?v" using add_right_mono [of 0 "Fin (of_int k * ro_cost ?r)" pre] st(2) by auto
    define st1 where "st1 = (if rx_kind R = HMAX then st\<lparr>re_min_pre := (re_min_pre st)[c := pre]\<rparr> else st)"
    have min: "re_min_pre st ! c = Inf" if "rx_kind R = HMAX" using st(3) that p' by (simp add: unused_def)
    have m: "(if pre < re_min_pre st ! c then pre else re_min_pre st ! c) = pre" if "rx_kind R = HMAX"
      using min [OF that] by (cases pre) auto
    have run: "achieve_numeric R False s op pre p st = update_condition_cost R False op c ?v st1"
      using False k m by (simp add: achieve_numeric_def p' st1_def Let_def)
    have tab: "tables_fit R pre st1" using st(1) by (simp add: st1_def tables_only)
    from update_lowered [OF R(1) this c(1) v, of op] obtain st' where st': "update_condition_cost R False op c ?v st1 = Inr st'"
      "tables_fit R pre st'" "re_closed st' = re_closed st1" "re_min_pre st' = re_min_pre st1" "lowered {(c, ?v)} (re_costs st1) (re_costs st')"
      by blast
    have "(re_min_pre st)[c := pre] ! fst q = Inf" if "rx_kind R = HMAX" "q \<in> set ps" for q
    proof -
      have "fst q \<noteq> c" "re_min_pre st ! fst q = Inf" using st(3) that p' by (auto simp: unused_def)
      then show ?thesis by simp
    qed
    then have "unused R (re_min_pre st1) ps" using st(3) by (simp add: unused_def st1_def)
    moreover have "\<forall>d. d \<noteq> fst p \<longrightarrow> re_min_pre st1 ! d = re_min_pre st ! d" by (simp add: st1_def p')
    moreover have "numeric_offer R s op pre p = (c, ?v)" using k by (simp add: numeric_offer_def p')
    moreover have "re_costs st1 = re_costs st" "re_closed st1 = re_closed st" by (simp_all add: st1_def)
    ultimately show ?thesis using run st' by auto
  qed
qed

lemma expand_numeric:
  assumes R: "relax_wf R" "op < rx_goal_op R" and st: "tables_fit R pre st" "0 \<le> pre" "unused R (re_min_pre st) (rx_op_numeric R ! op)"
    and K0: "readable_op R s K0 op" "list_all2 (\<le>) (re_costs st) K0"
  shows "\<exists>st'. rfold (achieve_numeric R False s op pre) (rx_op_numeric R ! op) st = Inr st' \<and> tables_fit R pre st' \<and>
    re_closed st' = re_closed st \<and> unused R (re_min_pre st') [] \<and>
    (\<forall>c. c \<notin> fst ` set (rx_op_numeric R ! op) \<longrightarrow> re_min_pre st' ! c = re_min_pre st ! c) \<and>
    lowered (numeric_offer R s op pre ` set (rx_op_numeric R ! op)) (re_costs st) (re_costs st')"
proof -
  let ?ps = "rx_op_numeric R ! op"
  define I where "I st' xs \<longleftrightarrow> unused R (re_min_pre st') xs \<and> set xs \<subseteq> set ?ps \<and>
    (\<forall>c. c \<notin> fst ` set ?ps \<longrightarrow> re_min_pre st' ! c = re_min_pre st ! c) \<and>
    (\<forall>c < leaf_count R. re_costs st' ! c \<le> K0 ! c)" for st' :: relax_state and xs
  have len: "length (re_costs st') = leaf_count R" "\<forall>c < leaf_count R. 0 \<le> re_costs st' ! c" if "tables_fit R pre st'" for st'
    using that by (simp_all add: tables_fit_def sized_def)
  have "?ps \<in> set (rx_op_numeric R)" using R by (simp add: relax_wf_def)
  then have c: "fst p < leaf_count R" if "p \<in> set ?ps" for p using R(1) that by (auto simp: relax_wf_def)
  have "\<exists>st'. rfold (achieve_numeric R False s op pre) ?ps st = Inr st' \<and> tables_fit R pre st' \<and>
    re_closed st' = re_closed st \<and> I st' [] \<and> lowered (numeric_offer R s op pre ` set ?ps) (re_costs st) (re_costs st')"
  proof (rule offers_loop [where I = I, OF st(1)])
    show "I st ?ps" using st(3) K0(2) len(1) [OF st(1)] by (auto simp: I_def list_all2_conv_all_nth)
    show "fst (numeric_offer R s op pre p) < leaf_count R" if "p \<in> set ?ps" for p
      using c [OF that] by (simp add: numeric_offer_def)
    fix p ps st' assume st': "tables_fit R pre st'" and I: "I st' (p # ps)"
    have p: "p \<in> set ?ps" "re_costs st' ! fst p \<le> K0 ! fst p" using I c by (auto simp: I_def)
    have read: "\<exists>k. repetitions (rx_inadmissible R) (rx_operators R ! op) (snd p) s = Inr (Some k)" if "re_costs st' ! fst p \<noteq> Fin 0"
    proof -
      have "0 \<le> re_costs st' ! fst p" using len(2) [OF st'] c [OF p(1)] by simp
      with that p(2) have "K0 ! fst p \<noteq> Fin 0" by (auto simp: zero_cost_def)
      with K0(1) p(1) show ?thesis by (auto simp: readable_op_def)
    qed
    obtain st'' where st'': "achieve_numeric R False s op pre p st' = Inr st''" "tables_fit R pre st''" "re_closed st'' = re_closed st'"
        "unused R (re_min_pre st'') ps" "\<forall>c. c \<noteq> fst p \<longrightarrow> re_min_pre st'' ! c = re_min_pre st' ! c"
        "lowered {numeric_offer R s op pre p} (re_costs st') (re_costs st'')"
      using achieve_numeric_step [OF R st' st(2) _ p(1) read, of ps] I unfolding I_def by blast
    have "re_costs st'' ! c \<le> K0 ! c" if "c < leaf_count R" for c
    proof -
      have "re_costs st'' ! c \<le> re_costs st' ! c" using st''(6) that len(1) [OF st'] by (simp add: lowered_def)
      also have "\<dots> \<le> K0 ! c" using I that by (simp add: I_def)
      finally show ?thesis .
    qed
    then have "I st'' ps" using st''(4,5) I p(1) by (auto simp: I_def)
    with st'' show "\<exists>st''. achieve_numeric R False s op pre p st' = Inr st'' \<and> tables_fit R pre st'' \<and>
      re_closed st'' = re_closed st' \<and> I st'' ps \<and> lowered {numeric_offer R s op pre p} (re_costs st') (re_costs st'')" by blast
  qed
  then show ?thesis by (auto simp: I_def)
qed

lemma expand_operator_offers:
  assumes R: "relax_wf R" "op < rx_goal_op R" and st: "tables_fit R pre st" "0 \<le> pre" "unused R (re_min_pre st) (rx_op_numeric R ! op)"
    and K0: "readable_op R s K0 op" "list_all2 (\<le>) (re_costs st) K0" and pre: "pre = re_op_cost st ! op"
  shows "\<exists>st'. expand_operator R False s op st = Inr st' \<and> tables_fit R pre st' \<and> re_closed st' = re_closed st \<and>
    unused R (re_min_pre st') [] \<and> (\<forall>c. c \<notin> fst ` set (rx_op_numeric R ! op) \<longrightarrow> re_min_pre st' ! c = re_min_pre st ! c) \<and>
    list_all2 (\<le>) (re_costs st') (re_costs st) \<and> (\<forall>(c, w) \<in> set (offers R s op). re_costs st' ! c \<le> Fin w + pre) \<and>
    (\<forall>c < leaf_count R. re_costs st' ! c = re_costs st ! c \<or> (\<exists>w. (c, w) \<in> set (offers R s op) \<and> re_costs st' ! c = Fin w + pre))"
proof -
  let ?r = "rx_operators R ! op"
  let ?A = "(\<lambda>c. (c, Fin (ro_cost ?r) + pre)) ` set (rx_op_effects R ! op)"
  let ?B = "numeric_offer R s op pre ` set (rx_op_numeric R ! op)"
  obtain st1 where st1: "rfold (\<lambda>c. update_condition_cost R False op c (Fin (ro_cost ?r) + pre)) (rx_op_effects R ! op) st = Inr st1"
    "tables_fit R pre st1" "re_closed st1 = re_closed st" "re_min_pre st1 = re_min_pre st" "lowered ?A (re_costs st) (re_costs st1)"
    using expand_effects [OF R(1) st(1) R(2) st(2)] by blast
  have len: "length (re_costs st) = leaf_count R" "length (re_costs st1) = leaf_count R"
    using st(1) st1(2) by (simp_all add: tables_fit_def sized_def)
  have "list_all2 (\<le>) (re_costs st1) (re_costs st)"
    using st1(5) len by (auto simp: lowered_def list_all2_conv_all_nth)
  from costs_le_trans [OF this K0(2)] have "list_all2 (\<le>) (re_costs st1) K0" .
  then obtain st2 where st2: "rfold (achieve_numeric R False s op pre) (rx_op_numeric R ! op) st1 = Inr st2"
    "tables_fit R pre st2" "re_closed st2 = re_closed st1" "unused R (re_min_pre st2) []"
    "\<forall>c. c \<notin> fst ` set (rx_op_numeric R ! op) \<longrightarrow> re_min_pre st2 ! c = re_min_pre st1 ! c"
    "lowered ?B (re_costs st1) (re_costs st2)"
    using expand_numeric [OF R st1(2) st(2) _ K0(1)] st(3) st1(4) by auto
  have in_range: "\<forall>(c, v) \<in> ?A. c < length (re_costs st)"
    using wf_offers(1) [OF R offer_effect] len by auto
  have low: "lowered (?A \<union> ?B) (re_costs st) (re_costs st2)" by (rule lowered_trans [OF st1(5) st2(6) in_range])
  have below: "re_costs st2 ! c \<le> Fin w + pre" if "(c, w) \<in> set (offers R s op)" for c w
  proof -
    have "(c, Fin w + pre) \<in> ?A \<union> ?B" using that
    proof (cases rule: offersE)
      case (2 nc k)
      then have "numeric_offer R s op pre (c, nc) = (c, Fin w + pre)" by (simp add: numeric_offer_def)
      with 2(1) show ?thesis by (metis UnI2 imageI)
    qed simp
    with low show ?thesis by (auto simp: lowered_def)
  qed
  have from_offer: "\<exists>w. (c, w) \<in> set (offers R s op) \<and> re_costs st2 ! c = Fin w + pre"
    if "c < leaf_count R" "re_costs st2 ! c \<noteq> re_costs st ! c" for c
  proof -
    have le: "re_costs st2 ! c \<le> re_costs st ! c" and "(c, re_costs st2 ! c) \<in> ?A \<union> ?B"
      using low that len by (auto simp: lowered_def)
    then consider "c \<in> set (rx_op_effects R ! op)" "re_costs st2 ! c = Fin (ro_cost ?r) + pre"
      | nc where "(c, nc) \<in> set (rx_op_numeric R ! op)" "(c, re_costs st2 ! c) = numeric_offer R s op pre (c, nc)"
      by (auto simp: numeric_offer_def)
    then show ?thesis
    proof cases
      case 1
      with offer_effect show ?thesis by blast
    next
      case (2 nc)
      have "re_costs st2 ! c \<noteq> Inf" using le that(2) by auto
      with 2(2) obtain k where k: "repetitions (rx_inadmissible R) ?r nc s = Inr (Some k)"
          "re_costs st2 ! c = Fin (of_int k * ro_cost ?r) + pre"
        by (auto simp: numeric_offer_def split: sum.splits option.splits)
      with offer_numeric [OF 2(1) k(1)] show ?thesis by blast
    qed
  qed
  have "list_all2 (\<le>) (re_costs st2) (re_costs st)" using low by (auto simp: lowered_def list_all2_conv_all_nth)
  moreover have "expand_operator R False s op st = Inr st2" using st1(1) st2(1) pre by (simp add: expand_operator_def)
  ultimately show ?thesis using st1 st2 below from_offer by (intro exI [of _ st2]) auto
qed


section \<open>The loop\<close>

definition relax_inv :: "relaxation \<Rightarrow> 'n state \<Rightarrow> cost list \<Rightarrow> cost \<Rightarrow> relax_state \<Rightarrow> bool" where
  "relax_inv R s K0 p st \<longleftrightarrow> tables_fit R p st \<and> 0 \<le> p \<and> list_all2 (\<le>) (re_costs st) K0 \<and>
     (\<forall>D. lower_costs R s K0 D \<longrightarrow> list_all2 (\<le>) D (re_costs st)) \<and>
     (\<forall>op < rx_goal_op R. re_closed st ! op \<longrightarrow> (\<forall>(c, w) \<in> set (offers R s op). re_costs st ! c \<le> Fin w + re_op_cost st ! op)) \<and>
     (rx_kind R = HMAX \<longrightarrow> length (re_min_pre st) = leaf_count R \<and> (\<forall>c < leaf_count R. re_min_pre st ! c \<noteq> Inf \<longrightarrow>
        (\<exists>op < rx_goal_op R. re_closed st ! op \<and> c \<in> fst ` set (rx_op_numeric R ! op))))"

text \<open>What the loop ends with.\<close>

definition cheapest :: "relaxation \<Rightarrow> 'n state \<Rightarrow> cost list \<Rightarrow> cost \<Rightarrow> bool" where
  "cheapest R s K0 h \<longleftrightarrow> (\<exists>D. lower_costs R s K0 D \<and> op_value R (rx_goal_op R) D = h) \<and>
     (\<forall>D. lower_costs R s K0 D \<longrightarrow> op_value R (rx_goal_op R) D \<le> h)"

text \<open>When every operator cheaper than \<open>h\<close> is closed, the costs cut at \<open>h\<close> are lower costs.\<close>

lemma cut_costs:
  assumes R: "relax_wf R" and st: "relax_inv R s K0 p st" and h: "0 \<le> h"
    and ops: "\<forall>op < rx_goal_op R. (re_closed st ! op \<and> re_op_cost st ! op \<le> h) \<or> h \<le> re_op_cost st ! op"
    and goal: "re_op_cost st ! rx_goal_op R = h"
  shows "cheapest R s K0 h"
proof -
  let ?K = "re_costs st" and ?g = "rx_goal_op R"
  define D where "D = map (\<lambda>k. min k h) ?K"
  have len: "length ?K = leaf_count R" "length D = leaf_count R" using st by (simp_all add: relax_inv_def tables_fit_def sized_def D_def)
  have above: "list_all2 (above h) ?K D" and le: "list_all2 (\<le>) D ?K"
    using st h by (auto simp: list_all2_conv_all_nth D_def above_def relax_inv_def tables_fit_def sized_def)
  have exact: "op_value R op ?K = re_op_cost st ! op" if "op \<le> ?g" for op
    using st that by (simp add: relax_inv_def tables_fit_def fresh_def)
  have cut: "min (re_op_cost st ! op) h \<le> op_value R op D" if "op \<le> ?g" for op
    using op_value_above [OF R that len(1) above] exact [OF that] by (simp add: above_def)
  have "D ! c \<le> Fin w + op_value R op D" if op: "op < ?g" "(c, w) \<in> set (offers R s op)" for op c w
  proof -
    from wf_offers [OF R op] have c: "c < leaf_count R" "0 \<le> Fin w" by (simp_all add: zero_cost_def)
    have up: "x \<le> Fin w + x" for x using add_right_mono [OF c(2), of x] by simp
    have D: "D ! c = min (?K ! c) h" using c(1) len by (simp add: D_def)
    show ?thesis
    proof (cases "h \<le> re_op_cost st ! op")
      case True
      then have "h \<le> op_value R op D" using cut [of op] op(1) by (simp add: min_def split: if_splits)
      then show ?thesis unfolding D by (meson up min.cobounded2 order_trans)
    next
      case False
      then have "re_closed st ! op" "re_op_cost st ! op \<le> h" using ops op(1) by auto
      then have "?K ! c \<le> Fin w + re_op_cost st ! op" using st op by (auto simp: relax_inv_def)
      moreover have "re_op_cost st ! op \<le> op_value R op D" using cut [of op] op(1) \<open>re_op_cost st ! op \<le> h\<close> by (simp add: min_absorb1)
      ultimately show ?thesis unfolding D by (meson add_left_mono min.cobounded1 order_trans)
    qed
  qed
  moreover have "list_all2 (\<le>) D K0" using costs_le_trans [OF le] st by (simp add: relax_inv_def)
  ultimately have "lower_costs R s K0 D" by (auto simp: lower_costs_def)
  moreover have "op_value R ?g D = h"
  proof (rule antisym)
    show "op_value R ?g D \<le> h" using op_value_mono [OF R order.refl len(2) le] exact [of ?g] goal by simp
    show "h \<le> op_value R ?g D" using cut [of ?g] goal by simp
  qed
  moreover have "op_value R ?g D' \<le> h" if "lower_costs R s K0 D'" for D'
  proof -
    have "list_all2 (\<le>) D' ?K" using st that by (simp add: relax_inv_def)
    moreover from this have "length D' = leaf_count R" using len(1) by (simp add: list_all2_lengthD)
    ultimately show ?thesis using op_value_mono [OF R order.refl, of D' ?K] exact [of ?g] goal by simp
  qed
  ultimately show ?thesis by (auto simp: cheapest_def)
qed

lemma goal_popped:
  assumes R: "relax_wf R" "\<not> rx_drain R" and inv: "relax_inv R s K0 p st" and open_goal: "\<not> re_closed st ! rx_goal_op R"
    and pop: "heappop entry_lt (re_heap st) = Inr ((v, op), h)" "re_heap st \<noteq> []"
  shows "heap entry_lt h" "set h \<subseteq> set (re_heap st)" "length h < length (re_heap st)" "p \<le> v" "op \<le> rx_goal_op R"
    "\<forall>(w, op') \<in> set h. v \<le> w" "\<And>e. e \<in> set (re_heap st) \<Longrightarrow> e \<noteq> (v, op) \<Longrightarrow> e \<in> set h"
proof -
  have h: "heap entry_lt (re_heap st)" and in_heap: "\<forall>(w, op') \<in> set (re_heap st). p \<le> w \<and> op' \<le> rx_goal_op R"
    using inv by (auto simp: relax_inv_def tables_fit_def heap_above_def)
  obtain x h' where pop': "heappop entry_lt (re_heap st) = Inr (x, h')" "heap entry_lt h'"
    "add_mset x (mset h') = mset (re_heap st)" "\<forall>y \<in> set (re_heap st). \<not> entry_lt y x"
    by (rule entries.heappop_heap [OF h pop(2)])
  then have xh: "x = (v, op)" "h' = h" using pop(1) by auto
  then have sets: "set (re_heap st) = insert (v, op) (set h)" and "length (re_heap st) = Suc (length h)"
    using pop'(3) by (metis set_mset_add_mset_insert set_mset_mset, metis size_add_mset size_mset)
  then show "heap entry_lt h" "set h \<subseteq> set (re_heap st)" "length h < length (re_heap st)" "p \<le> v" "op \<le> rx_goal_op R"
    "\<And>e. e \<in> set (re_heap st) \<Longrightarrow> e \<noteq> (v, op) \<Longrightarrow> e \<in> set h"
    using pop'(2) xh in_heap by auto
  show "\<forall>(w, op') \<in> set h. v \<le> w"
    using pop'(4) sets xh by (auto simp: entry_lt_def)
qed

text \<open>How far the loop still has to go: the open operators, then the entries of the heap.\<close>

definition open_count :: "relaxation \<Rightarrow> relax_state \<Rightarrow> nat" where
  "open_count R st = card {op. op \<le> rx_goal_op R \<and> \<not> re_closed st ! op}"

definition to_go :: "relaxation \<Rightarrow> (relax_state \<times> relax_state) set" where
  "to_go R = measures [open_count R, \<lambda>st. length (re_heap st)]"

lemma wf_to_go: "wf (to_go R)"
  by (simp add: to_go_def)

lemma round_stale:
  assumes R: "relax_wf R" "\<not> rx_drain R" and inv: "relax_inv R s K0 p st" and open_goal: "\<not> re_closed st ! rx_goal_op R"
    and pop: "heappop entry_lt (re_heap st) = Inr ((v, op), h)" "re_heap st \<noteq> []"
    and stale: "re_closed st ! op \<or> v \<noteq> re_op_cost st ! op"
  shows "relax_inv R s K0 p (st\<lparr>re_heap := h\<rparr>)" "(st\<lparr>re_heap := h\<rparr>, st) \<in> to_go R"
proof -
  note popped = goal_popped [OF R inv open_goal pop]
  have tab: "tables_fit R p st" using inv by (simp add: relax_inv_def)
  have "fresh R (re_costs st) (st\<lparr>re_heap := h\<rparr>) op'" if "op' \<le> rx_goal_op R" for op'
  proof -
    have "fresh R (re_costs st) st op'" using tab that by (simp add: tables_fit_def)
    moreover have "(re_op_cost st ! op', op') \<noteq> (v, op)" if "\<not> re_closed st ! op'" using stale that by auto
    ultimately show ?thesis using popped(7) by (auto simp: fresh_def)
  qed
  then have "tables_fit R p (st\<lparr>re_heap := h\<rparr>)"
    using tab popped(1,2) by (auto simp: tables_fit_def sized_def heap_above_def)
  with inv show "relax_inv R s K0 p (st\<lparr>re_heap := h\<rparr>)" by (simp add: relax_inv_def)
  show "(st\<lparr>re_heap := h\<rparr>, st) \<in> to_go R" using popped(3) by (simp add: to_go_def open_count_def)
qed

text \<open>Closing the operator popped; \<open>v\<close> is its cost.\<close>

lemma close_popped:
  assumes R: "relax_wf R" "\<not> rx_drain R" and inv: "relax_inv R s K0 p st" and open_goal: "\<not> re_closed st ! rx_goal_op R"
    and pop: "heappop entry_lt (re_heap st) = Inr ((v, op), h)" "re_heap st \<noteq> []"
    and current: "\<not> re_closed st ! op" "v = re_op_cost st ! op"
  defines "st1 \<equiv> st\<lparr>re_heap := h, re_closed := (re_closed st)[op := True]\<rparr>"
  shows "tables_fit R v st1" "0 \<le> v" "open_count R st1 < open_count R st"
    "\<And>op'. op' \<le> rx_goal_op R \<Longrightarrow> re_closed st1 ! op' \<longleftrightarrow> op' = op \<or> re_closed st ! op'"
    "\<And>op'. op' \<le> rx_goal_op R \<Longrightarrow> \<not> re_closed st1 ! op' \<Longrightarrow> v \<le> re_op_cost st ! op'"
proof -
  note popped = goal_popped [OF R inv open_goal pop]
  have tab: "tables_fit R p st" "0 \<le> p" using inv by (simp_all add: relax_inv_def)
  have len: "length (re_closed st) = Suc (rx_goal_op R)" using tab by (simp add: tables_fit_def sized_def)
  show closed: "re_closed st1 ! op' \<longleftrightarrow> op' = op \<or> re_closed st ! op'" if "op' \<le> rx_goal_op R" for op'
    using that popped(5) len by (auto simp: st1_def nth_list_update)
  have heaped: "(re_op_cost st ! op', op') \<in> set h"
    if op': "op' \<le> rx_goal_op R" "\<not> re_closed st1 ! op'" "re_op_cost st ! op' < Inf" for op'
  proof -
    have "op' \<noteq> op" "\<not> re_closed st ! op'" using closed [OF op'(1)] op'(2) by auto
    moreover have "fresh R (re_costs st) st op'" using tab(1) op'(1) by (simp add: tables_fit_def)
    ultimately have "(re_op_cost st ! op', op') \<in> set (re_heap st)" using op'(3) by (auto simp: fresh_def)
    then show ?thesis using popped(7) \<open>op' \<noteq> op\<close> by simp
  qed
  then show "v \<le> re_op_cost st ! op'" if "op' \<le> rx_goal_op R" "\<not> re_closed st1 ! op'" for op'
    using popped(6) heaped [OF that] by (cases "re_op_cost st ! op'") fastforce+
  have "fresh R (re_costs st1) st1 op'" if "op' \<le> rx_goal_op R" for op'
    using tab(1) that closed [OF that] heaped [OF that] by (auto simp: tables_fit_def fresh_def st1_def)
  moreover have "re_op_cost st1 ! op' \<le> v" if "op' \<le> rx_goal_op R" "re_closed st1 ! op'" for op'
  proof (cases "op' = op")
    case False
    then have "re_op_cost st ! op' \<le> p" using tab(1) that closed [OF that(1)] by (auto simp: tables_fit_def)
    with popped(4) show ?thesis by (simp add: st1_def)
  qed (simp add: st1_def current(2))
  ultimately show "tables_fit R v st1"
    using tab(1) popped(1,2,6) by (fastforce simp: tables_fit_def sized_def heap_above_def st1_def)
  show "0 \<le> v" using tab(2) popped(4) by (rule order_trans)
  have "{op'. op' \<le> rx_goal_op R \<and> \<not> re_closed st1 ! op'} \<subset> {op'. op' \<le> rx_goal_op R \<and> \<not> re_closed st ! op'}"
    using closed current(1) popped(5) by auto
  then show "open_count R st1 < open_count R st" unfolding open_count_def by (intro psubset_card_mono) auto
qed

text \<open>A condition with one numeric achiever.\<close>

lemma distinct_concat_apart:
  assumes "distinct (concat xss)" "i < j" "j < length xss"
  shows "set (xss ! i) \<inter> set (xss ! j) = {}"
proof -
  have "concat xss = concat (take j xss) @ xss ! j @ concat (drop (Suc j) xss)"
    using id_take_nth_drop [OF assms(3)] by (metis concat.simps(2) concat_append)
  with assms(1) have "set (concat (take j xss)) \<inter> set (xss ! j) = {}" by auto
  moreover have "xss ! i \<in> set (take j xss)" using assms(2,3) by (auto simp: in_set_conv_nth intro!: exI [of _ i])
  ultimately show ?thesis by auto
qed

lemma single_achiever:
  assumes "relax_wf R" "\<not> rx_drain R" "rx_kind R = HMAX" "op < rx_goal_op R"
  shows "distinct (map fst (rx_op_numeric R ! op))"
    "\<And>op' c. op' < rx_goal_op R \<Longrightarrow> op' \<noteq> op \<Longrightarrow> c \<in> fst ` set (rx_op_numeric R ! op) \<Longrightarrow> c \<notin> fst ` set (rx_op_numeric R ! op')"
proof -
  let ?xss = "map (map fst) (rx_op_numeric R)"
  have d: "distinct (concat ?xss)" and len: "length ?xss = rx_goal_op R" using assms(1-3) by (simp_all add: relax_wf_def)
  have nth: "?xss ! i = map fst (rx_op_numeric R ! i)" if "i < rx_goal_op R" for i using that len by simp
  show "distinct (map fst (rx_op_numeric R ! op))"
    using d len assms(4) nth [OF assms(4)] by (metis distinct_concat_iff nth_mem)
  show "c \<notin> fst ` set (rx_op_numeric R ! op')" if "op' < rx_goal_op R" "op' \<noteq> op" "c \<in> fst ` set (rx_op_numeric R ! op)" for op' c
  proof (cases "op' < op")
    case True
    with distinct_concat_apart [OF d, of op' op] that(3) nth [OF that(1)] nth [OF assms(4)] len assms(4) show ?thesis by auto
  next
    case False
    with distinct_concat_apart [OF d, of op op'] that nth [OF that(1)] nth [OF assms(4)] len show ?thesis by auto
  qed
qed

lemma round_expanded:
  assumes R: "relax_wf R" "\<not> rx_drain R" and inv: "relax_inv R s K0 p st" and open_goal: "\<not> re_closed st ! rx_goal_op R"
    and pop: "heappop entry_lt (re_heap st) = Inr ((v, op), h)" "re_heap st \<noteq> []"
    and current: "\<not> re_closed st ! op" "v = re_op_cost st ! op" and op: "op \<noteq> rx_goal_op R"
    and K0: "\<And>op. op < rx_goal_op R \<Longrightarrow> readable_op R s K0 op"
  defines "st1 \<equiv> st\<lparr>re_heap := h, re_closed := (re_closed st)[op := True]\<rparr>"
  shows "\<exists>st2. expand_operator R False s op st1 = Inr st2 \<and> relax_inv R s K0 v st2 \<and> \<not> re_closed st2 ! rx_goal_op R \<and>
    (st2, st) \<in> to_go R"
proof -
  note close = close_popped [OF R inv open_goal pop current, folded st1_def]
  have op': "op < rx_goal_op R" using goal_popped(5) [OF R inv open_goal pop] op by simp
  have st1: "re_costs st1 = re_costs st" "re_op_cost st1 = re_op_cost st" "re_min_pre st1 = re_min_pre st"
    by (simp_all add: st1_def)
  let ?K = "re_costs st"
  have value_K: "re_op_cost st ! o' = op_value R o' ?K" if "o' \<le> rx_goal_op R" for o'
    using inv that by (simp add: relax_inv_def tables_fit_def fresh_def)
  have unused: "unused R (re_min_pre st1) (rx_op_numeric R ! op)"
    unfolding unused_def st1
  proof (intro impI conjI ballI)
    assume hmax: "rx_kind R = HMAX"
    with inv show "length (re_min_pre st) = leaf_count R" by (simp add: relax_inv_def)
    show "distinct (map fst (rx_op_numeric R ! op))" by (rule single_achiever(1) [OF R hmax op'])
    fix q assume q: "q \<in> set (rx_op_numeric R ! op)"
    have "rx_op_numeric R ! op \<in> set (rx_op_numeric R)" using R(1) op' by (simp add: relax_wf_def)
    then have c: "fst q < leaf_count R" using R(1) q by (auto simp: relax_wf_def)
    show "re_min_pre st ! fst q = Inf"
    proof (rule ccontr)
      assume "re_min_pre st ! fst q \<noteq> Inf"
      then obtain o' where "o' < rx_goal_op R" "re_closed st ! o'" "fst q \<in> fst ` set (rx_op_numeric R ! o')"
        using inv hmax c unfolding relax_inv_def by blast
      with single_achiever(2) [OF R hmax op', of o' "fst q"] current(1) q show False by auto
    qed
  qed
  have le0: "list_all2 (\<le>) (re_costs st1) K0" using inv st1 by (simp add: relax_inv_def)
  have pre: "v = re_op_cost st1 ! op" using st1 current(2) by simp
  obtain st2 where run: "expand_operator R False s op st1 = Inr st2" and tab: "tables_fit R v st2" "re_closed st2 = re_closed st1"
    and mins: "unused R (re_min_pre st2) []" "\<forall>c. c \<notin> fst ` set (rx_op_numeric R ! op) \<longrightarrow> re_min_pre st2 ! c = re_min_pre st ! c"
    and down: "list_all2 (\<le>) (re_costs st2) ?K" "\<forall>(c, w) \<in> set (offers R s op). re_costs st2 ! c \<le> Fin w + v"
      "\<And>c. c < leaf_count R \<Longrightarrow> re_costs st2 ! c = ?K ! c \<or> (\<exists>w. (c, w) \<in> set (offers R s op) \<and> re_costs st2 ! c = Fin w + v)"
    using expand_operator_offers [OF R(1) op' close(1,2) unused K0 [OF op'] le0 pre, unfolded st1] by blast
  have len: "length ?K = leaf_count R" "length (re_costs st2) = leaf_count R"
    using inv tab(1) by (simp_all add: relax_inv_def tables_fit_def sized_def)
  have "0 \<le> Fin w" if "(c, w) \<in> set (offers R s op)" for c w
    using wf_offers(2) [OF R(1) op' that] by (simp add: zero_cost_def)
  then have "v \<le> Fin w + v" if "(c, w) \<in> set (offers R s op)" for c w
    using add_right_mono [of 0 "Fin w" v] that by force
  then have "above v (?K ! c) (re_costs st2 ! c)" if "c < leaf_count R" for c
    using down(3) [OF that] that inv tab(1) by (auto simp: above_def relax_inv_def tables_fit_def min_le_iff_disj)
  then have above: "list_all2 (above v) ?K (re_costs st2)" using len by (simp add: list_all2_conv_all_nth)
  have same: "re_op_cost st2 ! o' = re_op_cost st ! o'" if "o' \<le> rx_goal_op R" "re_closed st1 ! o'" for o'
  proof -
    have "re_op_cost st1 ! o' \<le> v" using close(1) that by (simp add: tables_fit_def)
    then have "op_value R o' (re_costs st2) = op_value R o' ?K"
      using the_cost_settled [OF _ above down(1)] wf_condition [OF R(1) that(1)] len(1) value_K [OF that(1)] st1 by simp
    then show ?thesis using tab(1) that(1) value_K [OF that(1)] by (simp add: tables_fit_def fresh_def)
  qed
  have offers_taken: "re_costs st2 ! c \<le> Fin w + re_op_cost st2 ! o'"
    if o': "o' < rx_goal_op R" "re_closed st2 ! o'" "(c, w) \<in> set (offers R s o')" for o' c w
  proof (cases "o' = op")
    case True
    then show ?thesis using down(2) o'(3) same [of op] o'(1,2) tab(2) current(2) by auto
  next
    case False
    then have "re_closed st ! o'" using o'(1,2) close(4) [of o'] tab(2) by simp
    then have "?K ! c \<le> Fin w + re_op_cost st ! o'" using inv o' by (auto simp: relax_inv_def)
    moreover have "re_costs st2 ! c \<le> ?K ! c"
      using down(1) wf_offers(1) [OF R(1) o'(1,3)] len by (simp add: list_all2_conv_all_nth)
    moreover have "re_op_cost st2 ! o' = re_op_cost st ! o'" using same [of o'] o'(1,2) tab(2) by simp
    ultimately show ?thesis by (metis order_trans)
  qed
  have lower: "list_all2 (\<le>) D (re_costs st2)" if D: "lower_costs R s K0 D" for D
  proof -
    have DK: "list_all2 (\<le>) D ?K" using inv D by (simp add: relax_inv_def)
    then have lenD: "length D = leaf_count R" using len(1) by (simp add: list_all2_lengthD)
    have "op_value R op D \<le> v" using op_value_mono [OF R(1) _ lenD DK, of op] op' value_K [of op] current(2) by simp
    then have "D ! c \<le> Fin w + v" if "(c, w) \<in> set (offers R s op)" for c w
      using D that op' unfolding lower_costs_def by (fastforce intro: order_trans add_left_mono)
    then have "D ! c \<le> re_costs st2 ! c" if "c < leaf_count R" for c
      using down(3) [OF that] DK len(1) lenD that by (auto simp: list_all2_conv_all_nth)
    then show ?thesis using lenD len by (simp add: list_all2_conv_all_nth)
  qed
  have achievers: "length (re_min_pre st2) = leaf_count R \<and> (\<forall>c < leaf_count R. re_min_pre st2 ! c \<noteq> Inf \<longrightarrow>
        (\<exists>o' < rx_goal_op R. re_closed st2 ! o' \<and> c \<in> fst ` set (rx_op_numeric R ! o')))" if hmax: "rx_kind R = HMAX"
  proof (intro conjI allI impI)
    show "length (re_min_pre st2) = leaf_count R" using mins(1) hmax by (simp add: unused_def)
    fix c assume c: "c < leaf_count R" "re_min_pre st2 ! c \<noteq> Inf"
    show "\<exists>o' < rx_goal_op R. re_closed st2 ! o' \<and> c \<in> fst ` set (rx_op_numeric R ! o')"
    proof (cases "c \<in> fst ` set (rx_op_numeric R ! op)")
      case True
      then show ?thesis using op' close(4) [of op] tab(2) by auto
    next
      case False
      then have "re_min_pre st ! c \<noteq> Inf" using mins(2) c(2) by simp
      then obtain o' where "o' < rx_goal_op R" "re_closed st ! o'" "c \<in> fst ` set (rx_op_numeric R ! o')"
        using inv hmax c(1) unfolding relax_inv_def by blast
      then show ?thesis using close(4) [of o'] tab(2) by auto
    qed
  qed
  have "list_all2 (\<le>) (re_costs st2) K0" by (rule costs_le_trans [OF down(1)]) (use inv in \<open>simp add: relax_inv_def\<close>)
  then have "relax_inv R s K0 v st2"
    using tab(1) close(2) offers_taken lower achievers by (auto simp: relax_inv_def)
  moreover have "\<not> re_closed st2 ! rx_goal_op R" using close(4) [of "rx_goal_op R"] tab(2) open_goal op by simp
  moreover have "(st2, st) \<in> to_go R" using close(3) tab(2) by (simp add: to_go_def open_count_def)
  ultimately show ?thesis using run by blast
qed

lemma run_rounds_total:
  assumes wf: "wf r" and start: "I s"
    and step: "\<And>s. I s \<Longrightarrow> (\<exists>t. rnd s = Inr (Inl t) \<and> Q t) \<or> (\<exists>s'. rnd s = Inr (Inr s') \<and> I s' \<and> (s', s) \<in> r)"
  shows "\<exists>t. run_rounds rnd s = Inr t \<and> Q t"
  using wf start
proof (induction s rule: wf_induct_rule)
  case (less s)
  from step [OF less.prems] show ?case
  proof
    assume "\<exists>t. rnd s = Inr (Inl t) \<and> Q t"
    then obtain t where t: "rnd s = Inr (Inl t)" "Q t" by blast
    then have "run_rounds rnd s = Inr t" by (simp add: run_rounds_def run_loop_exit)
    with t(2) show ?thesis by simp
  next
    assume "\<exists>s'. rnd s = Inr (Inr s') \<and> I s' \<and> (s', s) \<in> r"
    then obtain s' where s': "rnd s = Inr (Inr s')" "I s'" "(s', s) \<in> r" by blast
    then have "run_rounds rnd s = run_rounds rnd s'" by (simp add: run_rounds_def run_loop_next)
    with less.IH [OF s'(3,2)] show ?thesis by simp
  qed
qed

lemma relax_loop:
  assumes R: "relax_wf R" "\<not> rx_drain R" and K0: "\<And>op. op < rx_goal_op R \<Longrightarrow> readable_op R s K0 op"
    and start: "relax_inv R s K0 p st" "\<not> re_closed st ! rx_goal_op R"
  shows "\<exists>st'. run_rounds (relax_round R False False s) st = Inr st' \<and> length (re_costs st') = leaf_count R \<and>
    cheapest R s K0 (op_value R (rx_goal_op R) (re_costs st'))"
proof (rule run_rounds_total [where I = "\<lambda>st. (\<exists>p. relax_inv R s K0 p st) \<and> \<not> re_closed st ! rx_goal_op R", OF wf_to_go])
  show "(\<exists>p. relax_inv R s K0 p st) \<and> \<not> re_closed st ! rx_goal_op R" using start by blast
next
  fix st assume "(\<exists>p. relax_inv R s K0 p st) \<and> \<not> re_closed st ! rx_goal_op R"
  then obtain p where inv: "relax_inv R s K0 p st" and open_goal: "\<not> re_closed st ! rx_goal_op R" by blast
  let ?ends = "\<lambda>st'. length (re_costs st') = leaf_count R \<and> cheapest R s K0 (op_value R (rx_goal_op R) (re_costs st'))"
  have len: "length (re_costs st) = leaf_count R" and tab: "tables_fit R p st" using inv by (simp_all add: relax_inv_def tables_fit_def sized_def)
  have goal: "op_value R (rx_goal_op R) (re_costs st) = re_op_cost st ! rx_goal_op R" using tab by (simp add: tables_fit_def fresh_def)
  show "(\<exists>t. relax_round R False False s st = Inr (Inl t) \<and> ?ends t) \<or>
    (\<exists>st'. relax_round R False False s st = Inr (Inr st') \<and>
       ((\<exists>p. relax_inv R s K0 p st') \<and> \<not> re_closed st' ! rx_goal_op R) \<and> (st', st) \<in> to_go R)"
  proof (cases "re_heap st = []")
    case True
    have inf: "re_op_cost st ! op = Inf" if "op \<le> rx_goal_op R" "\<not> re_closed st ! op" for op
    proof -
      have "fresh R (re_costs st) st op" using tab that(1) by (simp add: tables_fit_def)
      with that(2) True show ?thesis by (auto simp: fresh_def)
    qed
    have "re_closed st ! op \<and> re_op_cost st ! op \<le> Inf \<or> Inf \<le> re_op_cost st ! op" if "op < rx_goal_op R" for op
      using inf [of op] that by (cases "re_closed st ! op") auto
    then have "cheapest R s K0 Inf"
      using inf open_goal by (intro cut_costs [OF R(1) inv]) auto
    then have "?ends st" using len goal inf [OF order.refl open_goal] by simp
    then show ?thesis using True by (simp add: relax_round_def)
  next
    case False
    obtain v op h where pop: "heappop entry_lt (re_heap st) = Inr ((v, op), h)"
      using tab entries.heappop_heap [of "re_heap st"] False by (auto simp: tables_fit_def heap_above_def) (metis prod.collapse)
    show ?thesis
    proof (cases "re_closed st ! op \<or> v \<noteq> re_op_cost st ! op")
      case stale: True
      have "relax_round R False False s st = Inr (Inr (st\<lparr>re_heap := h\<rparr>))"
        using False pop stale by (auto simp: relax_round_def Let_def)
      moreover have "\<not> re_closed (st\<lparr>re_heap := h\<rparr>) ! rx_goal_op R" using open_goal by simp
      ultimately show ?thesis using round_stale [OF R inv open_goal pop False stale] by blast
    next
      case current: False
      let ?st1 = "st\<lparr>re_heap := h, re_closed := (re_closed st)[op := True]\<rparr>"
      have round: "relax_round R False False s st = (if op = rx_goal_op R then Inr (Inl ?st1)
          else rbind (expand_operator R False s op ?st1) (\<lambda>st. Inr (Inr st)))"
        using False pop current by (auto simp: relax_round_def Let_def)
      have cur: "\<not> re_closed st ! op" "v = re_op_cost st ! op" using current by auto
      show ?thesis
      proof (cases "op = rx_goal_op R")
        case True
        note close = close_popped [OF R inv open_goal pop False cur]
        have "p \<le> v" by (rule goal_popped(4) [OF R inv open_goal pop False])
        then have closed: "re_op_cost st ! o' \<le> v" if "o' \<le> rx_goal_op R" "re_closed st ! o'" for o'
          using tab that unfolding tables_fit_def by (meson order_trans)
        have "cheapest R s K0 v"
          by (rule cut_costs [OF R(1) inv close(2)]) (use close(4,5) closed True cur(2) in \<open>metis order.strict_implies_order order.strict_implies_not_eq\<close>)+
        then have "?ends ?st1" using len goal True cur(2) by simp
        then show ?thesis using round True by simp
      next
        case op: False
        obtain st2 where "expand_operator R False s op ?st1 = Inr st2" "relax_inv R s K0 v st2" "\<not> re_closed st2 ! rx_goal_op R"
          "(st2, st) \<in> to_go R"
          using round_expanded [OF R inv open_goal pop False cur op K0] by blast
        then show ?thesis using round op by auto
      qed
    qed
  qed
qed


section \<open>The start\<close>

lemma length_count_reached [simp]: "length (count_reached rs u) = length u"
  unfolding count_reached_def by (induction rs arbitrary: u) simp_all

lemma nth_count_reached: "op < length u \<Longrightarrow> count_reached rs u ! op = u ! op - int (count_list rs op)"
  unfolding count_reached_def by (induction rs arbitrary: u) (auto simp: nth_list_update)

lemma count_reached_fold:
  assumes "op < length u"
  shows "fold (\<lambda>(c, rs) u. if c < Inf then count_reached rs u else u) ps u ! op =
      u ! op - (\<Sum>(c, rs) \<leftarrow> ps. if c = Inf then 0 else int (count_list rs op))"
    "length (fold (\<lambda>(c, rs) u. if c < Inf then count_reached rs u else u) ps u) = length u"
  using assms by (induction ps arbitrary: u) (auto simp: nth_count_reached)

lemma sum_zip:
  assumes "length xs = length ys"
  shows "(\<Sum>(x, y) \<leftarrow> zip xs ys. f x y) = (\<Sum>i < length xs. f (xs ! i) (ys ! i))"
  using assms by (simp add: sum_list_sum_nth atLeast0LessThan)

lemma start_missing:
  assumes "relax_wf R" "length K = leaf_count R" "op \<le> rx_goal_op R"
  shows "fold (\<lambda>(c, rs) u. if c < Inf then count_reached rs u else u) (zip K (rx_readers R))
      (map (\<lambda>op. int (op_distinct_leaves R op)) [0..<Suc (rx_goal_op R)]) ! op = missing R K op"
proof -
  let ?c = "\<lambda>i. int (count_list (rx_readers R ! i) op)"
  have len: "length K = length (rx_readers R)" using assms(1,2) by (simp add: relax_wf_def)
  have "int (op_distinct_leaves R op) = (\<Sum>i < leaf_count R. ?c i)"
    using len assms(2) by (simp add: op_distinct_leaves_def sum_list_sum_nth atLeast0LessThan)
  moreover have "(\<Sum>(c, rs) \<leftarrow> zip K (rx_readers R). if c = Inf then 0 else int (count_list rs op)) =
      (\<Sum>i < leaf_count R. if K ! i = Inf then 0 else ?c i)"
    using sum_zip [OF len, of "\<lambda>c rs. if c = Inf then 0 else int (count_list rs op)"] assms(2) by simp
  moreover have "(\<Sum>i < leaf_count R. ?c i) - (\<Sum>i < leaf_count R. if K ! i = Inf then 0 else ?c i) = missing R K op"
    unfolding missing_def sum_subtractf [symmetric] by (intro sum.cong) auto
  ultimately show ?thesis using assms(3) by (subst count_reached_fold(1)) (simp_all del: upt_Suc)
qed

lemma start_operator_step:
  assumes R: "relax_wf R" "op \<le> rx_goal_op R" and K: "length K = leaf_count R" and st: "sized R st" "heap entry_lt (re_heap st)"
    "re_unreached st ! op = missing R K op" "re_op_cost st ! op = Inf" "\<not> re_closed st ! op" "0 \<le> op_value R op K"
    "heap_above R 0 st"
  shows "\<exists>st'. start_operator R K op st = Inr st' \<and> sized R st' \<and> heap_above R 0 st' \<and> fresh R K st' op \<and>
    re_costs st' = re_costs st \<and> re_closed st' = re_closed st \<and> re_unreached st' = re_unreached st \<and>
    re_min_pre st' = re_min_pre st \<and> set (re_heap st) \<subseteq> set (re_heap st') \<and>
    (\<forall>op'. op' \<noteq> op \<longrightarrow> re_op_cost st' ! op' = re_op_cost st ! op')"
proof -
  define v where "v = op_value R op K"
  have cost: "relax_cost R op K = Inr v" using relax_cost_value [OF R K] by (simp add: v_def)
  have inf: "v = Inf" if "waits R op (re_unreached st)" using missing_waits [OF R K st(3) that] by (simp add: v_def)
  show ?thesis
  proof (cases "v < Inf")
    case True
    define st1 where "st1 = st\<lparr>re_op_cost := (re_op_cost st)[op := v], re_heap := heappush entry_lt (v, op) (re_heap st)\<rparr>"
    have "\<not> waits R op (re_unreached st)" using inf True by auto
    then have run: "start_operator R K op st = Inr st1" using cost True by (simp add: start_operator_def st1_def)
    have "0 \<le> v" using st(6) by (simp add: v_def)
    note push = heap_above_push [OF st(7) this R(2)]
    have "fresh R K st1 op" using st R(2) push(2) by (simp add: fresh_def st1_def sized_def v_def)
    moreover have "heap_above R 0 st1" using st(7) push \<open>0 \<le> v\<close> R(2) by (auto simp: heap_above_def st1_def)
    moreover have "sized R st1" using st(1) by (simp add: sized_def st1_def)
    ultimately show ?thesis using run push(2) by (auto simp: st1_def)
  next
    case False
    then have v: "v = Inf" by simp
    then have run: "start_operator R K op st = Inr st" using cost by (simp add: start_operator_def)
    have "fresh R K st op" using st(3-5) v by (simp add: fresh_def v_def)
    with run st(1,7) show ?thesis by auto
  qed
qed

lemma start_operators:
  assumes R: "relax_wf R" and K: "length K = leaf_count R" "\<forall>c < leaf_count R. 0 \<le> K ! c"
    and xs: "distinct xs" "\<forall>op \<in> set xs. op \<le> rx_goal_op R"
    and st: "sized R st" "heap_above R 0 st" "\<forall>op \<le> rx_goal_op R. re_unreached st ! op = missing R K op \<and> \<not> re_closed st ! op"
    and todo: "\<forall>op \<in> set xs. re_op_cost st ! op = Inf" and ready: "\<forall>op \<le> rx_goal_op R. op \<notin> set xs \<longrightarrow> fresh R K st op"
  shows "\<exists>st'. rfold (start_operator R K) xs st = Inr st' \<and> sized R st' \<and> heap_above R 0 st' \<and>
    (\<forall>op \<le> rx_goal_op R. fresh R K st' op) \<and> re_costs st' = re_costs st \<and> re_closed st' = re_closed st \<and> re_min_pre st' = re_min_pre st"
  using xs st todo ready
proof (induction xs arbitrary: st)
  case (Cons op xs)
  have op: "op \<le> rx_goal_op R" using Cons.prems(2) by simp
  have "0 \<le> op_value R op K"
    using the_cost_nonneg [of K "rx_op_conditions R ! op"] wf_condition [OF R op] K by (simp add: all_set_conv_all_nth)
  with start_operator_step [OF R op K(1) Cons.prems(3)] Cons.prems(4-6) op
  obtain st1 where st1: "start_operator R K op st = Inr st1" "sized R st1" "heap_above R 0 st1" "fresh R K st1 op"
    "re_costs st1 = re_costs st" "re_closed st1 = re_closed st" "re_unreached st1 = re_unreached st"
    "re_min_pre st1 = re_min_pre st" "set (re_heap st) \<subseteq> set (re_heap st1)"
    "\<forall>op'. op' \<noteq> op \<longrightarrow> re_op_cost st1 ! op' = re_op_cost st ! op'" by (auto simp: heap_above_def)
  have keep: "fresh R K st1 o'" if "fresh R K st o'" "o' \<noteq> op" for o'
    using that st1(6,7,9,10) by (auto simp: fresh_def)
  have "\<exists>st'. rfold (start_operator R K) xs st1 = Inr st' \<and> sized R st' \<and> heap_above R 0 st' \<and>
    (\<forall>op \<le> rx_goal_op R. fresh R K st' op) \<and> re_costs st' = re_costs st1 \<and> re_closed st' = re_closed st1 \<and> re_min_pre st' = re_min_pre st1"
  proof (rule Cons.IH)
    show "\<forall>op' \<in> set xs. re_op_cost st1 ! op' = Inf" using Cons.prems(1,6) st1(10) by (metis distinct.simps(2) list.set_intros(2))
    show "\<forall>op' \<le> rx_goal_op R. op' \<notin> set xs \<longrightarrow> fresh R K st1 op'" using Cons.prems(7) st1(4) keep by fastforce
  qed (use Cons.prems st1 in auto)
  with st1 show ?case by auto
qed auto

lemma relax_start_inv:
  assumes R: "relax_wf R" and K: "length K = leaf_count R" "\<forall>c < leaf_count R. 0 \<le> K ! c"
  shows "\<exists>st. relax_start R K = Inr st \<and> relax_inv R s K 0 st \<and> \<not> re_closed st ! rx_goal_op R"
proof -
  let ?n = "Suc (rx_goal_op R)"
  define u where "u = fold (\<lambda>(c, rs) u. if c < Inf then count_reached rs u else u) (zip K (rx_readers R))
      (map (\<lambda>op. int (op_distinct_leaves R op)) [0..<?n])"
  define st where "st = \<lparr>re_costs = K, re_op_cost = replicate ?n Inf, re_closed = replicate ?n False,
        re_min_pre = (if rx_kind R = HMAX then replicate (length K) Inf else []),
        re_reached = (if rx_kind R = HFF then replicate (length K) (- 1) else []),
        re_heap = [], re_unreached = u\<rparr>"
  have n: "length (rx_op_conditions R) = ?n" using R by (simp add: relax_wf_def)
  have run: "relax_start R K = rfold (start_operator R K) [0..<?n] st"
    unfolding relax_start_def n Let_def st_def u_def ..
  have fields: "re_costs st = K" "re_closed st = replicate ?n False" "re_unreached st = u" "re_op_cost st = replicate ?n Inf"
      "re_heap st = []" "re_min_pre st = (if rx_kind R = HMAX then replicate (length K) Inf else [])"
    by (simp_all add: st_def)
  have u: "length u = ?n" unfolding u_def by (subst count_reached_fold(2) [of 0]) (simp_all del: upt_Suc)
  have miss: "u ! op = missing R K op" if "op \<le> rx_goal_op R" for op
    unfolding u_def by (rule start_missing [OF R K(1) that])
  have "\<exists>st'. rfold (start_operator R K) [0..<?n] st = Inr st' \<and> sized R st' \<and> heap_above R 0 st' \<and>
    (\<forall>op \<le> rx_goal_op R. fresh R K st' op) \<and> re_costs st' = re_costs st \<and> re_closed st' = re_closed st \<and> re_min_pre st' = re_min_pre st"
  proof (rule start_operators [OF R K])
    show "sized R st" unfolding sized_def fields using K u by simp
    show "heap_above R 0 st" by (simp add: heap_above_def fields heap_def)
    show "\<forall>op \<le> rx_goal_op R. re_unreached st ! op = missing R K op \<and> \<not> re_closed st ! op"
      using miss unfolding fields by (simp del: replicate_Suc)
    show "\<forall>op \<in> set [0..<?n]. re_op_cost st ! op = Inf" unfolding fields by (simp del: replicate_Suc upt_Suc)
  qed (simp_all add: less_Suc_eq_le del: upt_Suc)
  then obtain st' where st': "rfold (start_operator R K) [0..<?n] st = Inr st'" "sized R st'" "heap_above R 0 st'"
    "\<forall>op \<le> rx_goal_op R. fresh R K st' op" "re_costs st' = K" "re_closed st' = replicate ?n False"
    "re_min_pre st' = (if rx_kind R = HMAX then replicate (length K) Inf else [])" using fields by auto
  have open_ops: "\<not> re_closed st' ! op" if "op \<le> rx_goal_op R" for op unfolding st'(6) using that by (simp del: replicate_Suc)
  have "tables_fit R 0 st'" using st'(2-5) open_ops K(2) by (simp add: tables_fit_def)
  moreover have "list_all2 (\<le>) D K" if "lower_costs R s K D" for D using that by (simp add: lower_costs_def)
  ultimately have "relax_inv R s K 0 st'"
    using st'(5,7) open_ops K by (auto simp: relax_inv_def list_all2_refl less_imp_le)
  then show ?thesis using st'(1) open_ops [OF order.refl] run by auto
qed


section \<open>The value\<close>

definition costs_ok :: "relaxation \<Rightarrow> cost list \<Rightarrow> bool" where
  "costs_ok R K \<longleftrightarrow> length K = leaf_count R \<and> (\<forall>c < leaf_count R. 0 \<le> K ! c)"

lemma costs_ok_update: "costs_ok R K \<Longrightarrow> 0 \<le> v \<Longrightarrow> costs_ok R (K[c := v])"
  by (cases "c < length K") (auto simp: costs_ok_def nth_list_update)

lemma Fin_zero: "0 \<le> Fin 0"
  by (simp add: zero_cost_def)

lemma initial_costs_ok:
  assumes "relax_wf R" "initial_condition_costs ifs R s = Inr K"
  shows "costs_ok R K"
proof -
  from assms(2) obtain K1 K2 where
    K1: "rfold (evaluated_cost ifs (st_assignments s)) (indexed (rx_leaves R)) (replicate (leaf_count R) Inf) = Inr K1"
    and K2: "rfold (fluent_cost (st_assignments s)) (indexed (rx_leaves R)) K1 = Inr K2"
    and K: "rfold (progress_cost (st_todo s)) (rx_extra_cids R) K2 = Inr K"
    by (auto simp: initial_condition_costs_def rbind_eq_Inr)
  from K1 have "costs_ok R K1"
  proof (rule rfold_invariant)
    show "costs_ok R (replicate (leaf_count R) Inf)" by (simp add: costs_ok_def)
    fix x L L' assume x: "x \<in> set (indexed (rx_leaves R))" "costs_ok R L" "evaluated_cost ifs (st_assignments s) x L = Inr L'"
    obtain i e l where x': "x = (i, e, l)" by (cases x)
    have leaf: "(e, l) \<in> set (rx_leaves R)" using x(1) x' unfolding indexed_def by (metis set_zip_rightD)
    show "costs_ok R L'"
    proof (cases l)
      case (LEvaluated f)
      then have "0 \<le> f" using assms(1) leaf unfolding relax_wf_def by blast
      with x x' LEvaluated Fin_zero show ?thesis by (auto simp: rbind_eq_Inr intro!: costs_ok_update)
    qed (use x x' in auto)
  qed
  with K2 have "costs_ok R K2"
  proof (rule rfold_invariant)
    fix x L L' assume x: "costs_ok R L" "fluent_cost (st_assignments s) x L = Inr L'"
    obtain i e l where x': "x = (i, e, l)" by (cases x)
    from x x' show "costs_ok R L'"
      by (cases l) (auto simp: rbind_eq_Inr Fin_zero split: if_splits intro!: costs_ok_update)
  qed
  with K show "costs_ok R K"
    by (rule rfold_invariant) (auto simp: progress_cost_def rbind_eq_Inr Fin_zero intro!: costs_ok_update)
qed

definition finite_part :: "cost \<Rightarrow> rat option" where
  "finite_part h = (case h of Inf \<Rightarrow> None | Fin q \<Rightarrow> Some q)"

lemma relax_eval_cheapest:
  assumes R: "relax_wf R" "\<not> rx_drain R" "rx_kind R \<noteq> HFF" and init: "initial_condition_costs ifs R s = Inr K0"
    and K0: "\<And>op. op < rx_goal_op R \<Longrightarrow> readable_op R s K0 op"
  shows "\<exists>h. relax_eval_core ifs R s = Inr (finite_part h) \<and> cheapest R s K0 h"
proof -
  have ok: "length K0 = leaf_count R" "\<forall>c < leaf_count R. 0 \<le> K0 ! c"
    using initial_costs_ok [OF R(1) init] by (simp_all add: costs_ok_def)
  obtain st where st: "relax_start R K0 = Inr st" "relax_inv R s K0 0 st" "\<not> re_closed st ! rx_goal_op R"
    using relax_start_inv [OF R(1) ok] by blast
  obtain st' where st': "run_rounds (relax_round R False False s) st = Inr st'" "length (re_costs st') = leaf_count R"
    "cheapest R s K0 (op_value R (rx_goal_op R) (re_costs st'))"
    using relax_loop [OF R(1,2) K0 st(2,3)] by blast
  have "relax_run ifs R False s = Inr st'" using init st(1) st'(1) R(2) by (simp add: relax_run_def)
  moreover have "relax_cost R (rx_goal_op R) (re_costs st') = Inr (op_value R (rx_goal_op R) (re_costs st'))"
    by (rule relax_cost_value [OF R(1) order.refl st'(2)])
  ultimately have "relax_eval_core ifs R s = Inr (finite_part (op_value R (rx_goal_op R) (re_costs st')))"
    using R(3) by (simp add: relax_eval_core_def finite_part_def split: cost.split)
  with st'(3) show ?thesis by blast
qed

end
