(* ===== verification/Relax_Built.thy ===== *)
theory Relax_Built
  imports Relax_Shapes Relax_Cheapest
begin

text \<open>
  The constructor of \<open>DeleteRelaxationHeuristic\<close> builds fit tables, and the numeric conditions an operator
  achieves can be repeated until they hold.
\<close>

section \<open>Numbering\<close>

text \<open>The numbers run through the leaves met so far, and list the operators that read them.\<close>

definition leaf_numbered :: "index \<Rightarrow> bool" where
  "leaf_numbered ix \<longleftrightarrow> map snd (ix_cids ix) = [0..<length (ix_readers ix)]"

definition readers_of :: "iexp list \<Rightarrow> nat \<Rightarrow> nat set" where
  "readers_of es c = {op. op < length es \<and> c \<in> cond_leaves (es ! op)}"

lemma readers_of_snoc: "readers_of (es @ [e]) c = readers_of es c \<union> (if c \<in> cond_leaves e then {length es} else {})"
  by (auto simp: readers_of_def nth_append less_Suc_eq)

definition read_by :: "nat list list \<Rightarrow> iexp list \<Rightarrow> bool" where
  "read_by rs es \<longleftrightarrow> (\<forall>c < length rs. sorted_wrt (<) (rs ! c) \<and> set (rs ! c) = readers_of es c)"

definition leaves_within :: "iexp list \<Rightarrow> nat \<Rightarrow> bool" where
  "leaves_within es n \<longleftrightarrow> (\<forall>e \<in> set es. \<forall>c \<in> cond_leaves e. c < n)"

lemma leaves_within_mono: "leaves_within es n \<Longrightarrow> n \<le> m \<Longrightarrow> leaves_within es m"
  by (fastforce simp: leaves_within_def)

lemma exp_get_number: "exp_get d e = Some c \<Longrightarrow> c \<in> snd ` set d"
  by (induction d e rule: exp_get.induct) (auto split: if_splits)

lemma exp_set_new: "exp_get d e = None \<Longrightarrow> exp_set e v d = d @ [(e, v)]"
  by (induction d e rule: exp_get.induct) (auto split: if_splits)

lemma number_bound: "leaf_numbered ix \<Longrightarrow> exp_get (ix_cids ix) e = Some c \<Longrightarrow> c < length (ix_readers ix)"
  using exp_get_number [of "ix_cids ix" e c] by (metis atLeastLessThan_iff image_set list.set_map leaf_numbered_def set_upt)

lemma intern_numbered:
  assumes "intern e ix = (c, ix')" "leaf_numbered ix"
  shows "leaf_numbered ix' \<and> c < length (ix_readers ix') \<and> (\<exists>k. ix_readers ix' = ix_readers ix @ replicate k [])"
proof (cases "exp_get (ix_cids ix) e")
  case None
  then have ix': "ix' = \<lparr>ix_cids = ix_cids ix @ [(e, c)], ix_readers = ix_readers ix @ [[]]\<rparr>" "c = length (ix_readers ix)"
    using assms(1) by (auto simp: intern_def exp_set_new Let_def)
  then have "ix_readers ix' = ix_readers ix @ replicate 1 []" by simp
  moreover have "leaf_numbered ix'" "c < length (ix_readers ix')" using ix' assms(2) by (auto simp: leaf_numbered_def)
  ultimately show ?thesis by blast
next
  case (Some d)
  then have "ix' = ix" "c = d" using assms(1) by (auto simp: intern_def)
  moreover have "ix_readers ix = ix_readers ix @ replicate 0 []" by simp
  ultimately show ?thesis using assms(2) number_bound [OF assms(2) Some] by blast
qed

lemma read_by_new:
  assumes "read_by rs es" "leaves_within es (length rs)"
  shows "read_by (rs @ replicate k []) es"
proof -
  have "readers_of es c = {}" if "length rs \<le> c" for c
    using assms(2) that by (fastforce simp: leaves_within_def readers_of_def)
  with assms(1) show ?thesis by (auto simp: read_by_def nth_append)
qed

text \<open>Adding the last operator to the readers of a leaf.\<close>

lemma add_cond_reader_read_by:
  assumes "read_by rs (es @ [out])" "c < length rs"
  shows "read_by (add_cond_reader c (length es) rs) (es @ [out @ [ILeaf c]])"
    "length (add_cond_reader c (length es) rs) = length rs"
proof -
  let ?n = "length es"
  have r: "sorted_wrt (<) (rs ! d)" "set (rs ! d) = readers_of (es @ [out]) d" if "d < length rs" for d
    using assms(1) that by (auto simp: read_by_def)
  have upto: "op \<le> ?n" if "op \<in> set (rs ! c)" for op using r(2) [OF assms(2)] that by (auto simp: readers_of_def)
  have last: "last (rs ! c) = ?n" if "?n \<in> set (rs ! c)"
  proof -
    have "rs ! c \<noteq> []" using that by auto
    then obtain xs x where xs: "rs ! c = xs @ [x]" by (metis rev_exhaust)
    then have "x \<le> ?n" "\<forall>y \<in> set xs. y < x" using upto r(1) [OF assms(2)] by (auto simp: sorted_wrt_append)
    with that xs show ?thesis by auto
  qed
  have "rs ! c = [] \<or> last (rs ! c) \<noteq> ?n" if "?n \<notin> set (rs ! c)" using that last_in_set by metis
  then have add: "add_cond_reader c ?n rs = (if ?n \<in> set (rs ! c) then rs else rs[c := rs ! c @ [?n]])"
    using last by (auto simp: add_cond_reader_def)
  show len: "length (add_cond_reader c ?n rs) = length rs" by (simp add: add)
  have new: "sorted_wrt (<) (rs ! c @ [?n])" if "?n \<notin> set (rs ! c)"
    using r(1) [OF assms(2)] upto that by (fastforce simp: sorted_wrt_append less_le)
  show "read_by (add_cond_reader c ?n rs) (es @ [out @ [ILeaf c]])"
    unfolding read_by_def len
  proof (intro allI impI conjI)
    fix d assume d: "d < length rs"
    show "sorted_wrt (<) (add_cond_reader c ?n rs ! d)"
      using r(1) [OF d] new by (cases "d = c") (simp_all add: add assms(2))
    have "set (add_cond_reader c ?n rs ! d) = (if d = c then insert ?n (set (rs ! d)) else set (rs ! d))"
      using assms(2) by (auto simp: add)
    then show "set (add_cond_reader c ?n rs ! d) = readers_of (es @ [out @ [ILeaf c]]) d"
      using r(2) [OF d] by (auto simp: readers_of_snoc split: if_splits)
  qed
qed

lemma read_by_junction: "read_by rs (es @ [out]) \<Longrightarrow> inode_leaves x = {} \<Longrightarrow> read_by rs (es @ [out @ [x]])"
  by (simp add: read_by_def readers_of_snoc)


lemma index_node_height: "height (fst (index_node owner x (out, ix))) k = height (out @ [node_shape x]) k"
  by (cases x) (auto simp: height_append split: prod.split option.split)

lemma index_node_owned:
  assumes "index_node (Some (length es)) x (out, ix) = (out', ix')" "leaf_numbered ix"
    and "read_by (ix_readers ix) (es @ [out])" "leaves_within (es @ [out]) (length (ix_readers ix))"
  shows "leaf_numbered ix' \<and> read_by (ix_readers ix') (es @ [out']) \<and> leaves_within (es @ [out']) (length (ix_readers ix')) \<and>
    length (ix_readers ix) \<le> length (ix_readers ix')"
proof (cases x)
  case (HLeaf e)
  obtain c ix1 where i: "intern e ix = (c, ix1)" by (cases "intern e ix")
  then obtain k where ix1: "leaf_numbered ix1" "c < length (ix_readers ix1)" "ix_readers ix1 = ix_readers ix @ replicate k []"
    using intern_numbered [OF i assms(2)] by blast
  have out: "out' = out @ [ILeaf c]" "ix' = ix1\<lparr>ix_readers := add_cond_reader c (length es) (ix_readers ix1)\<rparr>"
    using assms(1) HLeaf i by auto
  have "read_by (ix_readers ix1) (es @ [out])" unfolding ix1(3) by (rule read_by_new [OF assms(3,4)])
  note add = add_cond_reader_read_by [OF this ix1(2)]
  have "leaves_within (es @ [out']) (length (ix_readers ix'))"
    using assms(4) ix1(2,3) out add(2) by (fastforce simp: leaves_within_def)
  with add out ix1 show ?thesis by (simp add: leaf_numbered_def)
next
  case (HAnd n)
  with assms read_by_junction [OF assms(3), of "IAnd n"] show ?thesis by (auto simp: leaves_within_def)
next
  case (HOr n)
  with assms read_by_junction [OF assms(3), of "IOr n"] show ?thesis by (auto simp: leaves_within_def)
qed

lemma index_expression_owned:
  assumes "index_expression (Some (length es)) h ix = (e, ix')" "leaf_numbered ix"
    and "read_by (ix_readers ix) es" "leaves_within es (length (ix_readers ix))"
  shows "leaf_numbered ix' \<and> read_by (ix_readers ix') (es @ [e]) \<and> leaves_within (es @ [e]) (length (ix_readers ix')) \<and>
    length (ix_readers ix) \<le> length (ix_readers ix') \<and> height e k = operands_of h k"
proof -
  have loop: "leaf_numbered ix' \<and> read_by (ix_readers ix') (es @ [e]) \<and> leaves_within (es @ [e]) (length (ix_readers ix')) \<and>
      length (ix_readers ix) \<le> length (ix_readers ix') \<and> height e k = height (out @ map node_shape h) k"
    if "fold (index_node (Some (length es))) h (out, ix) = (e, ix')" "leaf_numbered ix"
      "read_by (ix_readers ix) (es @ [out])" "leaves_within (es @ [out]) (length (ix_readers ix))" for out ix
    using that
  proof (induction h arbitrary: out ix)
    case (Cons x h)
    obtain out1 ix1 where one: "index_node (Some (length es)) x (out, ix) = (out1, ix1)" by (cases "index_node (Some (length es)) x (out, ix)")
    note step = index_node_owned [OF this Cons.prems(2-4)]
    have "height (out1 @ map node_shape h) k = height (out @ map node_shape (x # h)) k"
      using index_node_height [of "Some (length es)" x out ix k] one height_append [of out1 "map node_shape h" k]
        height_append [of "out @ [node_shape x]" "map node_shape h" k] by simp
    with Cons.IH [of out1 ix1] Cons.prems(1) one step show ?case by auto
  qed simp
  have "read_by (ix_readers ix) (es @ [[]])" "leaves_within (es @ [[]]) (length (ix_readers ix))"
    using assms(3,4) by (simp_all add: read_by_def readers_of_snoc leaves_within_def)
  from loop [OF assms(1) [unfolded index_expression_def] assms(2) this] show ?thesis by simp
qed

lemma index_node_free:
  assumes "index_node None x (out, ix) = (out', ix')" "leaf_numbered ix"
    and "read_by (ix_readers ix) es" "leaves_within (out # es) (length (ix_readers ix))"
  shows "leaf_numbered ix' \<and> read_by (ix_readers ix') es \<and> leaves_within (out' # es) (length (ix_readers ix')) \<and>
    length (ix_readers ix) \<le> length (ix_readers ix')"
proof (cases x)
  case (HLeaf e)
  obtain c ix1 where i: "intern e ix = (c, ix1)" by (cases "intern e ix")
  then obtain k where ix1: "leaf_numbered ix1" "c < length (ix_readers ix1)" "ix_readers ix1 = ix_readers ix @ replicate k []"
    using intern_numbered [OF i assms(2)] by blast
  have out: "out' = out @ [ILeaf c]" "ix' = ix1" using assms(1) HLeaf i by auto
  have "leaves_within es (length (ix_readers ix))" using assms(4) by (simp add: leaves_within_def)
  then have "read_by (ix_readers ix1) es" unfolding ix1(3) by (rule read_by_new [OF assms(3)])
  moreover have "leaves_within (out' # es) (length (ix_readers ix1))"
    using assms(4) ix1(2,3) out by (fastforce simp: leaves_within_def)
  ultimately show ?thesis using out ix1 by simp
next
  case (HAnd n)
  with assms show ?thesis by (auto simp: leaves_within_def)
next
  case (HOr n)
  with assms show ?thesis by (auto simp: leaves_within_def)
qed

lemma index_expression_free:
  assumes "index_expression None h ix = (e, ix')" "leaf_numbered ix"
    and "read_by (ix_readers ix) es" "leaves_within es (length (ix_readers ix))"
  shows "leaf_numbered ix' \<and> read_by (ix_readers ix') es \<and> leaves_within (e # es) (length (ix_readers ix')) \<and>
    length (ix_readers ix) \<le> length (ix_readers ix') \<and> height e k = operands_of h k"
proof -
  have loop: "leaf_numbered ix' \<and> read_by (ix_readers ix') es \<and> leaves_within (e # es) (length (ix_readers ix')) \<and>
      length (ix_readers ix) \<le> length (ix_readers ix') \<and> height e k = height (out @ map node_shape h) k"
    if "fold (index_node None) h (out, ix) = (e, ix')" "leaf_numbered ix"
      "read_by (ix_readers ix) es" "leaves_within (out # es) (length (ix_readers ix))" for out ix
    using that
  proof (induction h arbitrary: out ix)
    case (Cons x h)
    obtain out1 ix1 where one: "index_node None x (out, ix) = (out1, ix1)" by (cases "index_node None x (out, ix)")
    note step = index_node_free [OF this Cons.prems(2-4)]
    have "height (out1 @ map node_shape h) k = height (out @ map node_shape (x # h)) k"
      using index_node_height [of None x out ix k] one height_append [of out1 "map node_shape h" k]
        height_append [of "out @ [node_shape x]" "map node_shape h" k] by simp
    with Cons.IH [of out1 ix1] Cons.prems(1) one step show ?case by auto
  qed simp
  have "leaves_within ([] # es) (length (ix_readers ix))" using assms(4) by (simp add: leaves_within_def)
  from loop [OF assms(1) [unfolded index_expression_def] assms(2,3) this] show ?thesis by simp
qed

lemma index_conditions_owned:
  assumes "index_conditions (length es) hs ix = (ds, ix')" "leaf_numbered ix"
    and "read_by (ix_readers ix) es" "leaves_within es (length (ix_readers ix))"
  shows "leaf_numbered ix' \<and> read_by (ix_readers ix') (es @ ds) \<and> leaves_within (es @ ds) (length (ix_readers ix')) \<and>
    list_all2 (\<lambda>d h. \<forall>k. height d k = operands_of h k) ds hs"
  using assms
proof (induction hs arbitrary: es ix ds)
  case (Cons h hs)
  obtain e ix1 where e: "index_expression (Some (length es)) h ix = (e, ix1)" by (cases "index_expression (Some (length es)) h ix")
  from Cons.prems(1) e obtain ds' where rest: "index_conditions (length (es @ [e])) hs ix1 = (ds', ix')" and ds: "ds = e # ds'"
    by (auto split: prod.splits)
  note one = index_expression_owned [OF e Cons.prems(2-4)]
  from Cons.IH [OF rest] one have "leaf_numbered ix' \<and> read_by (ix_readers ix') ((es @ [e]) @ ds') \<and>
    leaves_within ((es @ [e]) @ ds') (length (ix_readers ix')) \<and> list_all2 (\<lambda>d h. \<forall>k. height d k = operands_of h k) ds' hs" by blast
  with one ds show ?case by simp
qed simp

lemma add_goal_reader_read_by:
  assumes "read_by rs (es @ [out])" "\<forall>c \<in> cond_leaves e. c < length rs"
  shows "read_by (fold (add_goal_reader (length es)) e rs) (es @ [out @ e])"
    "length (fold (add_goal_reader (length es)) e rs) = length rs"
proof -
  have "read_by (fold (add_goal_reader (length es)) e rs) (es @ [out @ e]) \<and> length (fold (add_goal_reader (length es)) e rs) = length rs"
    using assms
  proof (induction e arbitrary: out rs)
    case (Cons x e)
    show ?case
    proof (cases x)
      case (ILeaf c)
      note add = add_cond_reader_read_by [OF Cons.prems(1), of c]
      with Cons.IH [of "add_cond_reader c (length es) rs" "out @ [x]"] Cons.prems(2) ILeaf show ?thesis by simp
    next
      case (IAnd n)
      with Cons.IH [of rs "out @ [x]"] Cons.prems read_by_junction [OF Cons.prems(1), of x] show ?thesis by simp
    next
      case (IOr n)
      with Cons.IH [of rs "out @ [x]"] Cons.prems read_by_junction [OF Cons.prems(1), of x] show ?thesis by simp
    qed
  qed simp
  then show "read_by (fold (add_goal_reader (length es)) e rs) (es @ [out @ e])"
    "length (fold (add_goal_reader (length es)) e rs) = length rs" by auto
qed

lemma intern_all_numbered:
  assumes "intern_all fs ix = (cs, ix')" "leaf_numbered ix"
  shows "leaf_numbered ix' \<and> (\<forall>c \<in> set cs. c < length (ix_readers ix')) \<and> (\<exists>k. ix_readers ix' = ix_readers ix @ replicate k [])"
  using assms
proof (induction fs arbitrary: ix cs)
  case Nil
  have "ix_readers ix = ix_readers ix @ replicate 0 []" by simp
  with Nil show ?case by (metis Pair_inject empty_iff empty_set intern_all.simps(1))
next
  case (Cons f fs)
  obtain c ix1 where one: "intern [NFluent f] ix = (c, ix1)" by (cases "intern [NFluent f] ix")
  from Cons.prems(1) one obtain cs' where rest: "intern_all fs ix1 = (cs', ix')" and cs: "cs = c # cs'"
    by (auto split: prod.splits)
  from intern_numbered [OF one Cons.prems(2)] obtain k where k: "leaf_numbered ix1" "c < length (ix_readers ix1)"
    "ix_readers ix1 = ix_readers ix @ replicate k []" by blast
  from Cons.IH [OF rest k(1)] obtain k' where k': "leaf_numbered ix'" "\<forall>c \<in> set cs'. c < length (ix_readers ix')"
    "ix_readers ix' = ix_readers ix1 @ replicate k' []" by blast
  have "ix_readers ix' = ix_readers ix @ replicate (k + k') []" using k(3) k'(3) by (simp add: replicate_add)
  moreover have "c < length (ix_readers ix')" using k(2) k'(3) by simp
  ultimately show ?case using k' cs by auto
qed

lemma intern_extra_numbered:
  assumes "intern_extra d ix = (xs, ix')" "leaf_numbered ix"
  shows "leaf_numbered ix' \<and> (\<forall>p \<in> set xs. \<forall>c \<in> set (snd p). c < length (ix_readers ix')) \<and>
    (\<exists>k. ix_readers ix' = ix_readers ix @ replicate k [])"
  using assms
proof (induction d arbitrary: ix xs)
  case Nil
  have "ix_readers ix = ix_readers ix @ replicate 0 []" by simp
  with Nil show ?case by (metis Pair_inject empty_iff empty_set intern_extra.simps(1))
next
  case (Cons p d)
  obtain a fs where p: "p = (a, fs)" by (cases p)
  obtain cs ix1 where one: "intern_all fs ix = (cs, ix1)" by (cases "intern_all fs ix")
  from Cons.prems(1) p one obtain xs' where rest: "intern_extra d ix1 = (xs', ix')" and xs: "xs = (a, cs) # xs'"
    by (auto split: prod.splits)
  from intern_all_numbered [OF one Cons.prems(2)] obtain k where k: "leaf_numbered ix1" "\<forall>c \<in> set cs. c < length (ix_readers ix1)"
    "ix_readers ix1 = ix_readers ix @ replicate k []" by blast
  from Cons.IH [OF rest k(1)] obtain k' where k': "leaf_numbered ix'" "\<forall>p \<in> set xs'. \<forall>c \<in> set (snd p). c < length (ix_readers ix')"
    "ix_readers ix' = ix_readers ix1 @ replicate k' []" by blast
  have "ix_readers ix' = ix_readers ix @ replicate (k + k') []" using k(3) k'(3) by (simp add: replicate_add)
  moreover have "\<forall>c \<in> set cs. c < length (ix_readers ix')" using k(2) k'(3) by auto
  ultimately show ?case using k' xs by auto
qed



section \<open>The tables\<close>

lemma wf_of_height: "height e 0 = Some 1 \<Longrightarrow> leaves_within [e] n \<Longrightarrow> cond_wf n e"
  by (simp add: cond_wf_def leaves_within_def)

lemma strictly_sorted_distinct: "sorted_wrt (<) xs \<Longrightarrow> distinct (xs :: nat list)"
  by (induction xs) auto

lemma conjunction_height:
  assumes "height d 0 = Some 1" "height e 0 = Some 1"
  shows "height (conjunction [d, e]) 0 = Some 1"
proof -
  have "d \<noteq> []" "e \<noteq> []" using assms by auto
  moreover have "height (e @ [IAnd 2]) 1 = Some 1" using height_mono [OF assms(2), of 1] by (simp add: height_append)
  ultimately show ?thesis using assms(1) by (simp add: conjunction_def height_append numeral_2_eq_2)
qed

lemma conjunction_leaves: "cond_leaves (conjunction [d, e]) = cond_leaves d \<union> cond_leaves e"
  by (auto simp: conjunction_def)

text \<open>What the number of a numeric condition stands for.\<close>

definition numeric_of :: "leaf_kinds \<Rightarrow> rat option \<Rightarrow> expression list \<Rightarrow> (nat \<times> ncond) list \<Rightarrow> bool" where
  "numeric_of k mx es ps \<longleftrightarrow> (\<forall>(c, nc) \<in> set ps. \<exists>e sc. e \<in> set es \<and> exp_get (lk_simple k) e = Some sc \<and> nc = ncond_of mx sc)"

lemma numeric_cidsD:
  assumes "numeric_cids k mx cids es = Inr ps"
  shows "numeric_of k mx es ps" "\<forall>p \<in> set ps. \<exists>e. exp_get cids e = Some (fst p)"
proof -
  have "\<exists>e sc. e \<in> set es \<and> exp_get (lk_simple k) e = Some sc \<and> nc = ncond_of mx sc \<and> exp_get cids e = Some c" if "(c, nc) \<in> set ps" for c nc
  proof -
    from that assms obtain i where i: "i < length es" "ps ! i = (c, nc)"
      "(case (exp_get cids (es ! i), exp_get (lk_simple k) (es ! i)) of
         (Some c, Some sc) \<Rightarrow> Inr (c, ncond_of mx sc) | _ \<Rightarrow> Inl KeyErr) = Inr (ps ! i)"
      by (force simp: numeric_cids_def rmap_Inr_iff in_set_conv_nth)
    then show ?thesis by (intro exI [of _ "es ! i"]) (auto split: option.splits)
  qed
  then show "numeric_of k mx es ps" "\<forall>p \<in> set ps. \<exists>e. exp_get cids e = Some (fst p)"
    by (fastforce simp: numeric_of_def)+
qed

lemma build_wf:
  assumes run: "build_indexed_structures kind inadm num evs ops extra goals xgoals k achieved mx = Inr R"
    and ops: "\<forall>(r, h) \<in> set ops. ro_cost r = 1 \<and> one_operand h" and goals: "one_operand goals" "one_operand xgoals"
    and achieved: "length achieved = length ops"
  shows "relax_wf R \<and> rx_kind R = kind \<and> rx_inadmissible R = inadm \<and> rx_operators R = map fst ops \<and>
    (\<forall>op < length ops. numeric_of k mx (achieved ! op) (rx_op_numeric R ! op))"
proof -
  obtain conds ix1 where c: "index_conditions 0 (map snd ops) \<lparr>ix_cids = [], ix_readers = []\<rparr> = (conds, ix1)"
    by (cases "index_conditions 0 (map snd ops) \<lparr>ix_cids = [], ix_readers = []\<rparr>")
  obtain igoals ix2 where g: "index_expression None goals ix1 = (igoals, ix2)" by (cases "index_expression None goals ix1")
  obtain iextra ix3 where x: "index_expression None xgoals ix2 = (iextra, ix3)" by (cases "index_expression None xgoals ix2")
  define goal where "goal = (if kind = HFF then igoals else conjunction [igoals, iextra])"
  define rs where "rs = fold (add_goal_reader (length ops)) goal (ix_readers ix3)"
  obtain xcids ix4 where e: "intern_extra extra (ix3\<lparr>ix_readers := rs\<rparr>) = (xcids, ix4)"
    by (cases "intern_extra extra (ix3\<lparr>ix_readers := rs\<rparr>)")
  let ?numeric = "rmap (numeric_cids k mx (ix_cids ix3)) achieved"
  define built where "built numeric = \<lparr>rx_kind = kind, rx_inadmissible = inadm, rx_events = evs, rx_operators = map fst ops,
        rx_op_conditions = conds @ [goal], rx_goals = igoals,
        rx_op_effects = map (effect_cids (ix_cids ix3) \<circ> fst) ops, rx_op_numeric = numeric,
        rx_drain = (kind = HMAX \<and> \<not> distinct (concat (map (map fst) numeric))),
        rx_extra_cids = xcids,
        rx_leaves = map (\<lambda>(e, _). (e, classify_leaf k num e)) (ix_cids ix4),
        rx_readers = ix_readers ix4\<rparr>" for numeric
  have "rbind ?numeric (\<lambda>numeric. Inr (built numeric)) = Inr R"
    using run unfolding build_indexed_structures_def c g x prod.case Let_def goal_def [symmetric] rs_def [symmetric] e
      built_def [symmetric] .
  then obtain numeric where numeric: "?numeric = Inr numeric" and "Inr (built numeric) = (Inr R :: relaxation res)"
    unfolding rbind_eq_Inr by blast
  then have R': "R = built numeric" by (simp only: sum.inject)
  note R = R' [unfolded built_def]
  have "leaf_numbered \<lparr>ix_cids = [], ix_readers = []\<rparr>" "read_by (ix_readers \<lparr>ix_cids = [], ix_readers = []\<rparr>) []"
    "leaves_within [] (length (ix_readers \<lparr>ix_cids = [], ix_readers = []\<rparr>))"
    by (simp_all add: leaf_numbered_def read_by_def leaves_within_def)
  from index_conditions_owned [of "[]", unfolded list.size, OF c this]
  have ix1: "leaf_numbered ix1" "read_by (ix_readers ix1) conds" "leaves_within conds (length (ix_readers ix1))"
    and heights: "list_all2 (\<lambda>d h. \<forall>k. height d k = operands_of h k) conds (map snd ops)" by auto
  have len: "length conds = length ops" using list_all2_lengthD [OF heights] by simp
  have ix2: "leaf_numbered ix2" "read_by (ix_readers ix2) conds" "leaves_within (igoals # conds) (length (ix_readers ix2))"
      "height igoals k = operands_of goals k" for k
    using index_expression_free [OF g ix1] by auto
  then have "leaves_within conds (length (ix_readers ix2))" by (simp add: leaves_within_def)
  note free = index_expression_free [OF x ix2(1,2) this]
  have ix3: "leaf_numbered ix3" "read_by (ix_readers ix3) conds" "leaves_within (iextra # conds) (length (ix_readers ix3))"
      "height iextra k = operands_of xgoals k" for k
    using free by auto
  have within3: "leaves_within (igoals # iextra # conds) (length (ix_readers ix3))"
    using ix3(3) leaves_within_mono [OF ix2(3)] free by (simp add: leaves_within_def)
  have heights': "height igoals 0 = Some 1" "height iextra 0 = Some 1"
    using ix2(4) [of 0] ix3(4) [of 0] goals by (simp_all add: one_operand_def)
  have goal_ok: "height goal 0 = Some 1" "\<forall>d \<in> cond_leaves goal. d < length (ix_readers ix3)"
    using heights' conjunction_height [OF heights'] within3 unfolding goal_def
    by (simp_all only: if_True if_False split: if_split) (auto simp: conjunction_leaves leaves_within_def)
  have "read_by (ix_readers ix3) (conds @ [[]])" using ix3(2) by (simp add: read_by_def readers_of_snoc)
  note added = add_goal_reader_read_by [OF this goal_ok(2), unfolded len, folded rs_def]
  have "leaf_numbered (ix3\<lparr>ix_readers := rs\<rparr>)" using ix3(1) added(2) by (simp add: leaf_numbered_def)
  from intern_extra_numbered [OF e this] obtain j where ix4: "leaf_numbered ix4" "\<forall>p \<in> set xcids. \<forall>c \<in> set (snd p). c < length (ix_readers ix4)"
    "ix_readers ix4 = rs @ replicate j []" by auto
  have all_within: "leaves_within (conds @ [goal]) (length rs)"
    using within3 goal_ok(2) added(2) by (auto simp: leaves_within_def)
  have readers: "read_by (ix_readers ix4) (conds @ [goal])"
    unfolding ix4(3) using read_by_new [OF _ all_within] added(1) by simp
  define n where "n = length (ix_readers ix4)"
  have le: "length (ix_readers ix3) \<le> n" using ix4(3) added(2) by (simp add: n_def)
  have leaves: "leaf_count R = n" using ix4(1) by (simp add: R leaf_numbered_def n_def) (metis length_map length_upt diff_zero)
  have goal_op: "rx_goal_op R = length ops" by (simp add: rx_goal_op_def R)
  have "cond_wf n d" if "d \<in> set (conds @ [goal])" for d
  proof (rule wf_of_height)
    show "leaves_within [d] n" using that all_within ix4(3) by (fastforce simp: leaves_within_def n_def)
    show "height d 0 = Some 1"
    proof (cases "d \<in> set conds")
      case True
      then obtain i where i: "i < length conds" "d = conds ! i" by (auto simp: in_set_conv_nth)
      then have "height d 0 = operands_of (snd (ops ! i)) 0" using heights len by (auto simp: list_all2_conv_all_nth)
      moreover have "one_operand (snd (ops ! i))" using ops i len nth_mem [of i ops] by (cases "ops ! i") auto
      ultimately show ?thesis by (simp add: one_operand_def)
    qed (use that goal_ok(1) in simp)
  qed
  moreover have "distinct (ix_readers ix4 ! d) \<and> set (ix_readers ix4 ! d) = {op. op \<le> length ops \<and> d \<in> cond_leaves ((conds @ [goal]) ! op)}"
    if "d < n" for d
    using readers that strictly_sorted_distinct len by (auto simp: read_by_def readers_of_def n_def less_Suc_eq_le)
  moreover have "d < n" if "d \<in> set (effect_cids (ix_cids ix3) r)" for d r
  proof -
    from that obtain e' where "exp_get (ix_cids ix3) e' = Some d" by (auto simp: effect_cids_def set_map_filter)
    with number_bound [OF ix3(1) this] le show ?thesis by simp
  qed
  moreover have "fst p < n" if "ps \<in> set numeric" "p \<in> set ps" for ps p
  proof -
    from that(1) numeric obtain es where "numeric_cids k mx (ix_cids ix3) es = Inr ps"
      by (auto simp: rmap_Inr_iff in_set_conv_nth)
    with numeric_cidsD(2) that(2) obtain e' where "exp_get (ix_cids ix3) e' = Some (fst p)" by blast
    with number_bound [OF ix3(1) this] le show ?thesis by simp
  qed
  moreover have "length numeric = length ops" using numeric achieved by (simp add: rmap_Inr_iff)
  moreover have "\<forall>(e, l) \<in> set (rx_leaves R). \<forall>f. l = LEvaluated f \<longrightarrow> 0 \<le> f"
    by (auto simp: R classify_leaf_def zero_cost_def split: if_splits list.splits node.splits)
  moreover have "\<forall>r \<in> set (map fst ops). ro_cost r = 1" using ops by auto
  ultimately have "relax_wf R"
    unfolding relax_wf_def leaves goal_op using ix4(2) len by (simp add: R n_def)
  moreover have "numeric_of k mx (achieved ! op) (rx_op_numeric R ! op)" if "op < length ops" for op
  proof -
    have "numeric_cids k mx (ix_cids ix3) (achieved ! op) = Inr (numeric ! op)"
      using numeric that achieved by (simp add: rmap_Inr_iff)
    from numeric_cidsD(1) [OF this] show ?thesis by (simp add: R)
  qed
  ultimately show ?thesis by (simp add: R)
qed



section \<open>The operators\<close>

lemma update_numeric_cost: "update_numeric_effects eff r = Inr r' \<Longrightarrow> ro_cost r' = ro_cost r"
proof -
  assume run: "update_numeric_effects eff r = Inr r'"
  let ?q = "case eff_value eff of [NConst c] \<Rightarrow> as_rat c | _ \<Rightarrow> None"
  show ?thesis
  proof (cases ?q)
    case None
    with run obtain pl where "linear_polynomial (eff_value eff) = Inr pl" by (auto simp: update_numeric_effects_def rbind_eq_Inr)
    with run None show ?thesis
      by (cases pl) (auto simp: update_numeric_effects_def complex_effect_def Let_def split: if_splits)
  qed (use run in \<open>auto simp: update_numeric_effects_def\<close>)
qed

lemma add_effect_cost: "add_effect ds eff r = Inr r' \<Longrightarrow> ro_cost r' = ro_cost r"
proof -
  assume run: "add_effect ds eff r = Inr r'"
  then obtain d where d: "py_nth ds (int (fl_idx (eff_fluent eff))) = Inr d" by (auto simp: add_effect_def rbind_eq_Inr)
  with run show ?thesis
    by (cases "fd_kind d") (auto simp: add_effect_def Let_def update_numeric_cost split: if_splits)
qed

lemma event_rop_cost: "event_rop ds a f e = Inr r \<Longrightarrow> ro_cost r = 1"
  unfolding event_rop_def by (erule rfold_invariant [where I = "\<lambda>r. ro_cost r = 1"]) (simp_all add: add_effect_cost)

definition good_op :: "rop \<times> hexp \<Rightarrow> bool" where
  "good_op p \<longleftrightarrow> ro_cost (fst p) = 1 \<and> one_operand (snd p)"

lemma action_rops_good:
  assumes "action_rops b ds timed a i cond f le ops = Inr ops'" "\<forall>p \<in> set ops. good_op p"
  shows "\<forall>p \<in> set ops'. good_op p"
  using assms
proof (induction le arbitrary: i cond f ops)
  case (Cons te le)
  obtain t e where te: "te = (t, e)" by (cases te)
  from Cons.prems(1) te obtain r cs h where r: "event_rop ds a (Fluent f) e = Inr r" "get_event_conditions e = Inr cs"
    "build_operator_condition b ds cs cond = Inr h" and rest: "action_rops b ds timed a (i + 1) (Fluent f) (f + 1) le
       (case h of Some c \<Rightarrow> if i = 0 \<and> timed = Some a then ops else ops @ [(r, c)] | None \<Rightarrow> ops) = Inr ops'"
    by (auto simp: rbind_eq_Inr)
  have "good_op (r, c)" if "h = Some c" for c
    using event_rop_cost [OF r(1)] operator_condition_one r(3) that by (simp add: good_op_def)
  with Cons.prems(2) have "\<forall>p \<in> set (case h of Some c \<Rightarrow> if i = 0 \<and> timed = Some a then ops else ops @ [(r, c)] | None \<Rightarrow> ops). good_op p"
    by (auto split: option.splits if_splits)
  from Cons.IH [OF rest this] show ?case .
qed simp

lemma relax_operators_good:
  assumes "relax_operators b ds timed evs as n ops extra = Inr (ops', extra')" "\<forall>p \<in> set ops. good_op p"
  shows "\<forall>p \<in> set ops'. good_op p"
  using assms
proof (induction as arbitrary: n ops extra)
  case (Cons a as)
  then show ?case using action_rops_good by (fastforce simp: rbind_eq_Inr split: option.splits)
qed simp


section \<open>Numeric conditions\<close>

text \<open>When no negative net effect has been met none is used.\<close>

definition achiever :: "bool \<Rightarrow> rat option \<Rightarrow> rop \<Rightarrow> simple_cond \<Rightarrow> bool" where
  "achiever inadm mx r c \<longleftrightarrow> (let assign = has_assign_or_complex r (sc_fluents c);
       n = net_effect inadm r (sc_fluents c) (sc_weights c) in
     (assign \<or> n < 0) \<and> (mx = None \<longrightarrow> assign \<and> \<not> inadm \<or> \<not> n < 0))"

lemma achieves_achiever:
  assumes "achieves inadm r c mx = (b, mx')"
  shows "mx' = None \<longrightarrow> mx = None" "b \<Longrightarrow> achiever inadm mx' r c"
  using assms by (auto simp: achieves_def achiever_def Let_def split: if_splits option.splits)

lemma achiever_earlier: "achiever inadm mx r c \<Longrightarrow> mx' = None \<longrightarrow> mx = None \<Longrightarrow> achiever inadm mx' r c"
  by (auto simp: achiever_def Let_def)

lemma achieved_conds_achiever:
  assumes "achieved_conds inadm r cs mx = (es, mx')"
  shows "(mx' = None \<longrightarrow> mx = None) \<and> (\<forall>e \<in> set es. \<exists>c. (e, c) \<in> set cs \<and> achiever inadm mx' r c)"
  using assms
proof (induction cs arbitrary: mx es)
  case (Cons p cs)
  obtain e c where p: "p = (e, c)" by (cases p)
  obtain b mx1 where one: "achieves inadm r c mx = (b, mx1)" by (cases "achieves inadm r c mx")
  from Cons.prems p one obtain es' where rest: "achieved_conds inadm r cs mx1 = (es', mx')" and es: "es = (if b then e # es' else es')"
    by (auto split: prod.splits)
  note IH = Cons.IH [OF rest]
  have "achiever inadm mx' r c" if b using achieves_achiever [OF one] that achiever_earlier IH by blast
  with IH achieves_achiever(1) [OF one] es p show ?case by (auto split: if_splits)
qed simp

lemma all_achieved_achiever:
  assumes "all_achieved inadm rs cs mx = (ess, mx')"
  shows "(mx' = None \<longrightarrow> mx = None) \<and>
    list_all2 (\<lambda>r es. \<forall>e \<in> set es. \<exists>c. (e, c) \<in> set cs \<and> achiever inadm mx' r c) rs ess"
  using assms
proof (induction rs arbitrary: mx ess)
  case (Cons r rs)
  obtain es mx1 where one: "achieved_conds inadm r cs mx = (es, mx1)" by (cases "achieved_conds inadm r cs mx")
  from Cons.prems one obtain ess' where rest: "all_achieved inadm rs cs mx1 = (ess', mx')" and ess: "ess = es # ess'"
    by (auto split: prod.splits)
  note IH = Cons.IH [OF rest] and first = achieved_conds_achiever [OF one]
  have "\<forall>e \<in> set es. \<exists>c. (e, c) \<in> set cs \<and> achiever inadm mx' r c" using first IH achiever_earlier by blast
  with IH first ess show ?case by simp
qed simp

text \<open>The keys of a dictionary of expressions are apart, so a lookup finds the entry.\<close>

definition keys_differ :: "(expression \<times> 'v) list \<Rightarrow> bool" where
  "keys_differ d \<longleftrightarrow> sorted_wrt (\<lambda>p q. \<not> exp_eq (fst p) (fst q)) d"

lemma exp_get_None: "exp_get d e = None \<Longrightarrow> (k, v) \<in> set d \<Longrightarrow> \<not> exp_eq k e"
  by (induction d e rule: exp_get.induct) (auto split: if_splits)

lemma set_exp_set: "(k, w) \<in> set (exp_set e v d) \<Longrightarrow> k = e \<or> k \<in> fst ` set d"
  by (induction e v d rule: exp_set.induct) (force split: if_splits)+

lemma keys_differ_set: "keys_differ d \<Longrightarrow> keys_differ (exp_set e v d)"
proof (induction e v d rule: exp_set.induct)
  case (2 e v k w d)
  show ?case
  proof (cases "exp_eq k e")
    case False
    have "\<not> exp_eq k k'" if "(k', w') \<in> set (exp_set e v d)" for k' w'
      using set_exp_set [OF that] False 2(2) by (auto simp: keys_differ_def)
    with False 2 show ?thesis by (auto simp: keys_differ_def)
  qed (use 2(2) in \<open>auto simp: keys_differ_def\<close>)
qed (simp add: keys_differ_def)

lemma exp_eq_self: "exp_eq e e"
proof -
  have "node_eq n n" for n by (cases n) simp_all
  then show ?thesis by (simp add: exp_eq_def list_all2_refl)
qed

lemma exp_get_entry: "keys_differ d \<Longrightarrow> (e, v) \<in> set d \<Longrightarrow> exp_get d e = Some v"
  by (induction d e rule: exp_get.induct) (auto simp: keys_differ_def exp_eq_self)

lemma note_leaf_keys:
  assumes "note_leaf b ds x k = Inr k'" "keys_differ (lk_simple k)"
  shows "keys_differ (lk_simple k')"
  using assms
  by (cases x) (auto simp: update_numeric_conditions_def rbind_eq_Inr keys_differ_set split: if_splits option.splits)

lemma condition_value_finite: "condition_value nc s = Inr v \<Longrightarrow> nc_const nc \<noteq> Inf \<Longrightarrow> v \<noteq> Inf"
  unfolding condition_value_def
proof (erule rfold_invariant [where I = "\<lambda>v. v \<noteq> Inf"])
  fix p v v' assume "v \<noteq> Inf" "(case p of (f, w) \<Rightarrow> \<lambda>v. rbind (get_value s f) (\<lambda>x. case as_rat x of
       None \<Rightarrow> Inl TypeErr | Some q \<Rightarrow> Inr (cost_float_add v (float_mul w q)))) v = Inr v'"
  then show "v' \<noteq> Inf" by (cases v) (auto simp: rbind_eq_Inr split: prod.splits option.splits)
qed

lemma achiever_repeats:
  assumes "achiever inadm mx r c" "condition_value (ncond_of mx c) s = Inr v"
  shows "\<exists>k. repetitions inadm r (ncond_of mx c) s = Inr (Some k)"
proof -
  have fields: "nc_fluents (ncond_of mx c) = sc_fluents c" "nc_weights (ncond_of mx c) = sc_weights c"
    "nc_const (ncond_of mx c) = raised_const mx c" by (simp_all add: ncond_of_def)
  have "v \<noteq> Inf" if "mx \<noteq> None"
    using condition_value_finite [OF assms(2)] that fields by (cases "sc_strict c") (auto simp: raised_const_def)
  with assms fields show ?thesis
    by (cases v) (auto simp: repetitions_def achiever_def Let_def)
qed


section \<open>The object\<close>

lemma mk_relax_wf:
  assumes "mk_relax as domains evs goal kind inadm no_numbers timed = Inr R"
  shows "relax_wf R" "rx_kind R = kind" "rx_inadmissible R = inadm"
    "\<And>op p v. op < rx_goal_op R \<Longrightarrow> p \<in> set (rx_op_numeric R ! op) \<Longrightarrow> condition_value (snd p) s = Inr v \<Longrightarrow>
      \<exists>k. repetitions (rx_inadmissible R) (rx_operators R ! op) (snd p) s = Inr (Some k)"
proof -
  let ?ds = "all_domains domains evs as"
  let ?operators = "relax_operators no_numbers ?ds timed evs as (length domains) [] []"
  obtain ops extra where ops: "?operators = Inr (ops, extra)"
    using assms by (cases ?operators) (auto simp: mk_relax_def Let_def)
  let ?goals = "rbind (convert_to_heuristic_expression goal) (simplify_condition no_numbers ?ds)"
  obtain goals where goals: "?goals = Inr goals" using assms ops by (cases ?goals) (auto simp: mk_relax_def Let_def)
  obtain xgoals where xgoals: "relax_extra_goals extra = Inr xgoals"
    using assms ops goals by (cases "relax_extra_goals extra") (auto simp: mk_relax_def Let_def)
  let ?k = "rfold (note_leaf no_numbers ?ds) (concat (map snd ops) @ goals) \<lparr>lk_simple = [], lk_complex = [], lk_ifs = []\<rparr>"
  obtain k where k: "?k = Inr k" using assms ops goals xgoals by (cases ?k) (auto simp: mk_relax_def Let_def)
  obtain achieved mx where achieved: "all_achieved inadm (map fst ops) (lk_simple k) None = (achieved, mx)"
    by (cases "all_achieved inadm (map fst ops) (lk_simple k) None")
  have built: "build_indexed_structures kind inadm (length domains) evs ops extra goals xgoals k achieved mx = Inr R"
    using assms ops goals xgoals k achieved by (simp add: mk_relax_def Let_def)
  have good: "\<forall>(r, h) \<in> set ops. ro_cost r = 1 \<and> one_operand h"
    using relax_operators_good [OF ops] by (auto simp: good_op_def)
  have one: "one_operand goals" "one_operand xgoals"
    using simplified_one_operand [OF goals] xgoals convert_one_operand by (auto simp: relax_extra_goals_def rbind_eq_Inr)
  have all: "list_all2 (\<lambda>r es. \<forall>e \<in> set es. \<exists>c. (e, c) \<in> set (lk_simple k) \<and> achiever inadm mx r c) (map fst ops) achieved"
    using all_achieved_achiever [OF achieved] by blast
  then have "length achieved = length ops" by (simp add: list_all2_lengthD [symmetric])
  note wf = build_wf [OF built good one this]
  then show "relax_wf R" "rx_kind R = kind" "rx_inadmissible R = inadm" by auto
  have keys: "keys_differ (lk_simple k)"
    by (rule rfold_invariant [where I = "\<lambda>k. keys_differ (lk_simple k)", OF k]) (auto simp: keys_differ_def [of "[]"] intro: note_leaf_keys)
  fix op p v assume op: "op < rx_goal_op R" "p \<in> set (rx_op_numeric R ! op)" and v: "condition_value (snd p) s = Inr v"
  have len: "op < length ops" using op(1) wf by (simp add: rx_goal_op_def)
  obtain c nc where p: "p = (c, nc)" by (cases p)
  with op(2) wf len obtain e sc where e: "e \<in> set (achieved ! op)" "exp_get (lk_simple k) e = Some sc" "nc = ncond_of mx sc"
    unfolding numeric_of_def by fastforce
  have "\<forall>e \<in> set (achieved ! op). \<exists>c. (e, c) \<in> set (lk_simple k) \<and> achiever inadm mx (map fst ops ! op) c"
    using list_all2_nthD [OF all, of op] len by simp
  with e(1) len obtain sc' where sc': "(e, sc') \<in> set (lk_simple k)" "achiever inadm mx (fst (ops ! op)) sc'" by auto
  then have "sc' = sc" using exp_get_entry [OF keys sc'(1)] e(2) by simp
  with achiever_repeats [of inadm mx "fst (ops ! op)" sc s v] sc'(2) v p e(3) wf len
  show "\<exists>k. repetitions (rx_inadmissible R) (rx_operators R ! op) (snd p) s = Inr (Some k)" by simp
qed

end
