(* ===== verification/Relax_Polynomials.thy ===== *)
theory Relax_Polynomials
  imports Relax_Operators Simplify_Value
begin

text \<open>
  \<open>_to_linear_polynomial\<close> on flattened trees: the polynomial has the value of the tree, so a simple
  numeric condition holds exactly when the comparison it was made of does.
\<close>

section \<open>The value of a polynomial\<close>

definition fluent_rat :: "const list \<Rightarrow> fluent \<Rightarrow> rat" where
  "fluent_rat asg f = (case py_nth asg (int (fl_idx f)) of Inl e \<Rightarrow> 0 | Inr v \<Rightarrow> case as_rat v of None \<Rightarrow> 0 | Some q \<Rightarrow> q)"

definition term_value :: "const list \<Rightarrow> fluent option \<Rightarrow> rat" where
  "term_value asg f = (case f of None \<Rightarrow> 1 | Some g \<Rightarrow> fluent_rat asg g)"

definition poly_value :: "const list \<Rightarrow> poly \<Rightarrow> rat" where
  "poly_value asg p = (\<Sum>(f, w) \<leftarrow> p. w * term_value asg f)"

lemma poly_value_simps [simp]:
  "poly_value asg [] = 0"
  "poly_value asg ((f, w) # p) = w * term_value asg f + poly_value asg p"
  "term_value asg None = 1"
  by (simp_all add: poly_value_def term_value_def)

lemma poly_value_set:
  "poly_value asg (dict_set f v p) = poly_value asg p + (v - (case dict_get p f of None \<Rightarrow> 0 | Some w \<Rightarrow> w)) * term_value asg f"
  by (induction p) (auto simp: algebra_simps)

lemma poly_value_add_term: "poly_value asg (poly_add_term f w p) = poly_value asg p + w * term_value asg f"
  by (simp add: poly_add_term_def poly_value_set)

lemma poly_value_drop: "poly_value asg (poly_drop p) = poly_value asg p"
  by (induction p) (auto simp: poly_drop_def)

lemma poly_value_fold:
  "poly_value asg (fold (\<lambda>(f, w). poly_add_term f (g * w)) q p) = poly_value asg p + g * poly_value asg q"
  by (induction q arbitrary: p) (auto simp: poly_value_add_term algebra_simps)

lemma poly_value_sub: "poly_value asg (poly_sub p q) = poly_value asg p - poly_value asg q"
  using poly_value_fold [of asg "- 1" q p] by (simp add: poly_sub_def poly_value_drop)

lemma poly_value_sum: "poly_value asg (poly_sum ps) = sum_list (map (poly_value asg) ps)"
proof -
  have "poly_value asg (fold (fold (\<lambda>(f, w). poly_add_term f w)) ps p) = poly_value asg p + sum_list (map (poly_value asg) ps)" for p
  proof (induction ps arbitrary: p)
    case (Cons q ps)
    then show ?case using poly_value_fold [of asg 1 q p] by simp
  qed simp
  from this [of "[]"] show ?thesis by (simp add: poly_sum_def poly_value_drop)
qed

lemma poly_value_scale: "poly_value asg (map (\<lambda>(f, w). (f, w * c)) p) = poly_value asg p * c"
  by (induction p) (auto simp: algebra_simps)

lemma poly_value_constant: "poly_is_constant p \<Longrightarrow> poly_value asg p = poly_const p"
  by (cases p rule: list_cases2) (auto simp: poly_is_constant_def poly_const_def split: if_splits)

lemma poly_value_div:
  assumes "poly_div p d = Inr q"
  shows "poly_value asg q = poly_value asg p / poly_value asg d"
proof -
  have d: "poly_is_constant d" and q: "q = map (\<lambda>(f, w). (f, w / poly_const d)) p"
    using assms by (auto simp: poly_div_def split: if_splits)
  have "map (\<lambda>(f, w). (f, w / poly_const d)) p = map (\<lambda>(f, w). (f, w * (1 / poly_const d))) p" by simp
  then show ?thesis using poly_value_scale [of asg "1 / poly_const d" p] poly_value_constant [OF d] q by simp
qed

definition factor_value :: "const list \<Rightarrow> rat \<times> poly option \<Rightarrow> rat" where
  "factor_value asg ca = fst ca * (case snd ca of None \<Rightarrow> 1 | Some p \<Rightarrow> poly_value asg p)"

lemma poly_factor_value: "poly_factor p ca = Inr ca' \<Longrightarrow> factor_value asg ca' = factor_value asg ca * poly_value asg p"
  by (cases ca) (auto simp: poly_factor_def factor_value_def poly_value_constant split: if_splits)

lemma poly_value_times:
  assumes "poly_times ps = Inr q"
  shows "poly_value asg q = prod_list (map (poly_value asg) ps)"
proof -
  from assms obtain c acc where run: "rfold poly_factor ps (1, None) = Inr (c, acc)"
    and q: "q = (case acc of None \<Rightarrow> [(None, c)] | Some p \<Rightarrow> if c = 0 then [(None, c)] else map (\<lambda>(f, w). (f, w * c)) p)"
    by (auto simp: poly_times_def rbind_eq_Inr)
  have "factor_value asg r = factor_value asg ca * prod_list (map (poly_value asg) ps)" if "rfold poly_factor ps ca = Inr r" for ca r
    using that by (induction ps arbitrary: ca) (auto simp: rbind_eq_Inr poly_factor_value mult.assoc)
  from this [OF run] have "factor_value asg (c, acc) = prod_list (map (poly_value asg) ps)" by (simp add: factor_value_def)
  moreover have "poly_value asg q = factor_value asg (c, acc)"
    by (auto simp: q factor_value_def poly_value_scale split: option.split)
  ultimately show ?thesis by simp
qed


section \<open>Operators\<close>

definition valued :: "const list \<Rightarrow> poly list \<Rightarrow> const list \<Rightarrow> bool" where
  "valued asg ps vs \<longleftrightarrow> list_all2 (\<lambda>p v. as_rat v = Some (poly_value asg p)) ps vs"

lemma arith_as_rat:
  assumes "as_rat a = Some p" "as_rat b = Some q"
  shows "py_add a b = Inr v \<Longrightarrow> as_rat v = Some (p + q)" "py_sub a b = Inr v \<Longrightarrow> as_rat v = Some (p - q)"
    "py_mul a b = Inr v \<Longrightarrow> as_rat v = Some (p * q)" "py_fraction a b = Inr v \<Longrightarrow> as_rat v = Some (p / q)"
  using py_add_as_rat [OF assms] py_sub_as_rat [OF assms] py_mul_as_rat [OF assms] assms
  by (auto simp: py_fraction_def split: if_splits)

lemma op_fold_as_rat:
  assumes "op_fold f vs = Inr v" "valued asg ps vs"
    and step: "\<And>a b p q v. as_rat a = Some p \<Longrightarrow> as_rat b = Some q \<Longrightarrow> f a b = Inr v \<Longrightarrow> as_rat v = Some (g p q)"
    and g: "\<And>p q r. g (g p q) r = g p (g q r)" "\<And>p. g p z = p" "\<And>p. g z p = p"
  shows "as_rat v = Some (foldr g (map (poly_value asg) ps) z)"
proof -
  have loop: "as_rat v = Some (g q (foldr g (map (poly_value asg) ps) z))"
    if "rfold (\<lambda>w v. f v w) vs a = Inr v" "as_rat a = Some q" "valued asg ps vs" for a q ps vs
    using that
  proof (induction vs arbitrary: a q ps)
    case (Cons w ws)
    then obtain p ps' where ps: "ps = p # ps'" "as_rat w = Some (poly_value asg p)" "valued asg ps' ws"
      by (auto simp: valued_def list_all2_Cons2)
    from Cons.prems(1) obtain b where b: "f a w = Inr b" "rfold (\<lambda>w v. f v w) ws b = Inr v" by (auto simp: rbind_eq_Inr)
    from Cons.IH [OF b(2) step [OF Cons.prems(2) ps(2) b(1)] ps(3)] ps(1) show ?case by (simp add: g(1))
  qed (simp add: valued_def g(2))
  from assms(1,2) obtain w ws p ps' where vs: "vs = w # ws" "ps = p # ps'" "as_rat w = Some (poly_value asg p)" "valued asg ps' ws"
    by (cases vs) (auto simp: valued_def list_all2_Cons2)
  then have "rfold (\<lambda>w v. f v w) ws w = Inr v" using assms(1) by simp
  from loop [OF this vs(3,4)] show ?thesis by (simp add: vs(2))
qed

lemma poly_op_value:
  assumes "poly_op k (rev ps) = Inr p" "op_apply k vs = Inr v" "valued asg ps vs"
    and "arity_ok k (length ps)" "k \<in> {''-'', ''+'', ''/'', ''*''}"
  shows "as_rat v = Some (poly_value asg p)"
proof -
  have two: "\<exists>a b x y. ps = [a, b] \<and> vs = [x, y] \<and> as_rat x = Some (poly_value asg a) \<and> as_rat y = Some (poly_value asg b)"
    if "length ps = 2"
    using that assms(3) by (auto simp: valued_def length_Suc_conv numeral_2_eq_2 list_all2_Cons1)
  have sum: "sum_list xs = foldr (+) xs (0 :: rat)" "prod_list xs = foldr (*) xs (1 :: rat)" for xs
    by (induction xs) simp_all
  have rev: "sum_list (map (poly_value asg) (rev ps)) = sum_list (map (poly_value asg) ps)"
    "prod_list (map (poly_value asg) (rev ps)) = prod_list (map (poly_value asg) ps)"
    by (simp_all flip: rev_map add: sum_list_rev prod_list.rev)
  consider "k = ''-''" | "k = ''+''" | "k = ''/''" | "k = ''*''" using assms(5) by blast
  then show ?thesis
  proof cases
    case 1
    with assms(4) two obtain a b x y where ab: "ps = [a, b]" "vs = [x, y]" "as_rat x = Some (poly_value asg a)"
      "as_rat y = Some (poly_value asg b)" by (auto simp: arity_ok_def)
    with 1 assms(1,2) have "p = poly_sub a b" and "\<exists>u. py_sub x y = Inr u \<and> v = normalize_num u"
      by (auto simp: poly_op_def op_apply_def rbind_eq_Inr)
    with arith_as_rat(2) [OF ab(3,4)] show ?thesis by (auto simp: poly_value_sub)
  next
    case 2
    with assms(1,2) obtain u where p: "p = poly_sum (rev ps)" and u: "op_fold py_add vs = Inr u" "v = normalize_num u"
      by (auto simp: poly_op_def op_apply_def rbind_eq_Inr)
    have "as_rat u = Some (foldr (+) (map (poly_value asg) ps) 0)"
      by (rule op_fold_as_rat [OF u(1) assms(3) arith_as_rat(1)]) simp_all
    then show ?thesis unfolding sum(1) [symmetric] by (simp add: p u(2) poly_value_sum rev)
  next
    case 3
    with assms(4) two obtain a b x y where ab: "ps = [a, b]" "vs = [x, y]" "as_rat x = Some (poly_value asg a)"
      "as_rat y = Some (poly_value asg b)" by (auto simp: arity_ok_def)
    with 3 assms(1,2) have "poly_div a b = Inr p" and "\<exists>u. py_fraction x y = Inr u \<and> v = normalize_num u"
      by (auto simp: poly_op_def op_apply_def rbind_eq_Inr)
    with arith_as_rat(4) [OF ab(3,4)] poly_value_div show ?thesis by auto
  next
    case 4
    with assms(1,2) obtain u where p: "poly_times (rev ps) = Inr p" and u: "op_fold py_mul vs = Inr u" "v = normalize_num u"
      by (auto simp: poly_op_def op_apply_def rbind_eq_Inr)
    have "as_rat u = Some (foldr (*) (map (poly_value asg) ps) 1)"
      by (rule op_fold_as_rat [OF u(1) assms(3) arith_as_rat(3)]) (simp_all add: mult.assoc)
    then show ?thesis unfolding sum(2) [symmetric] by (simp add: poly_value_times [OF p] u(2) rev)
  qed
qed


section \<open>Trees\<close>

definition numeric_in :: "const list \<Rightarrow> fluent list \<Rightarrow> bool" where
  "numeric_in asg fs \<longleftrightarrow> (\<forall>f \<in> set fs. \<exists>v q. py_nth asg (int (fl_idx f)) = Inr v \<and> as_rat v = Some q)"

lemma poly_steps_value:
  "rfold poly_step (flat off t) st = Inr st' \<Longrightarrow> teval ifs asg t = Inr v \<Longrightarrow> arities t \<Longrightarrow> numeric_in asg (tree_fluents t) \<Longrightarrow>
     \<exists>p. st' = p # st \<and> as_rat v = Some (poly_value asg p)"
  "rfold poly_step (flats off ts) st = Inr st' \<Longrightarrow> rmap (teval ifs asg) ts = Inr vs \<Longrightarrow> list_all arities ts \<Longrightarrow>
     numeric_in asg (concat (map tree_fluents ts)) \<Longrightarrow> \<exists>ps. st' = rev ps @ st \<and> valued asg ps vs"
proof (induction off t and off ts arbitrary: st st' v and st st' vs rule: flat_flats.induct)
  case (1 off c)
  then show ?case by (auto split: option.splits)
next
  case (2 off f)
  then show ?case by (auto simp: numeric_in_def term_value_def fluent_rat_def)
next
  case (3 off k ts)
  from 3(2) obtain st1 where st1: "rfold poly_step (flats off ts) st = Inr st1" "poly_step (NOp k (roots off ts)) st1 = Inr st'"
    by (auto simp: rfold_append rbind_eq_Inr)
  from 3(3) obtain vs where vs: "rmap (teval ifs asg) ts = Inr vs" "op_apply k vs = Inr v" by (auto simp: rbind_eq_Inr)
  from 3(1) [OF st1(1) vs(1)] 3(4,5) obtain ps where ps: "st1 = rev ps @ st" "valued asg ps vs" by auto
  have len: "length ps = length ts" using ps(2) vs(1) by (auto simp: valued_def rmap_Inr_iff dest: list_all2_lengthD)
  with st1(2) ps(1) obtain p where "poly_op k (rev ps) = Inr p" "st' = p # st" "k \<in> {''-'', ''+'', ''/'', ''*''}"
    by (auto simp: rbind_eq_Inr split: if_splits)
  with poly_op_value [OF _ vs(2) ps(2)] 3(4) len show ?case by auto
next
  case (4 off f rt ts)
  then show ?case by (auto simp: rfold_append rbind_eq_Inr)
next
  case (5 off)
  then show ?case by (auto simp: valued_def)
next
  case (6 off t ts)
  from 6(3) obtain st1 where st1: "rfold poly_step (flat off t) st = Inr st1" "rfold poly_step (flats (off + tsize t) ts) st1 = Inr st'"
    by (auto simp: rfold_append rbind_eq_Inr)
  from 6(4) obtain w ws where vs: "teval ifs asg t = Inr w" "rmap (teval ifs asg) ts = Inr ws" "vs = w # ws" by (auto simp: rbind_eq_Inr)
  have num: "numeric_in asg (tree_fluents t)" "numeric_in asg (concat (map tree_fluents ts))" using 6(6) by (auto simp: numeric_in_def)
  from 6(1) [OF st1(1) vs(1) _ num(1)] 6(5) obtain p where p: "st1 = p # st" "as_rat w = Some (poly_value asg p)" by auto
  from 6(2) [OF st1(2) vs(2) _ num(2)] 6(5) obtain ps where ps: "st' = rev ps @ st1" "valued asg ps ws" by auto
  from p ps vs(3) show ?case by (intro exI [of _ "p # ps"]) (simp add: valued_def)
qed

lemma to_linear_polynomial_value:
  assumes "to_linear_polynomial (flatten t) = Inr p" "teval ifs asg t = Inr v" "arities t" "numeric_in asg (tree_fluents t)"
  shows "as_rat v = Some (poly_value asg p)"
proof -
  from assms(1) obtain st where st: "rfold poly_step (flat 0 t) [] = Inr st"
      "(case st of [p] \<Rightarrow> Inr p | _ \<Rightarrow> Inl AssertErr) = (Inr p :: poly res)"
    unfolding to_linear_polynomial_def flatten_def rbind_eq_Inr by blast
  from poly_steps_value(1) [OF st(1) assms(2-4)] obtain q where "st = [q]" "as_rat v = Some (poly_value asg q)" by auto
  with st(2) show ?thesis by simp
qed



section \<open>Simple numeric conditions\<close>

text \<open>Every polynomial has each fluent once.\<close>

lemma poly_add_term_wf: "dict_wf p \<Longrightarrow> dict_wf (poly_add_term f w p)"
  by (simp add: poly_add_term_def)

lemma poly_add_terms_wf: "dict_wf p \<Longrightarrow> dict_wf (fold (\<lambda>(f, w). poly_add_term f (g w)) q p)"
  by (induction q arbitrary: p) (auto simp: poly_add_term_wf)

lemma poly_drop_wf: "dict_wf p \<Longrightarrow> dict_wf (poly_drop p)"
  by (auto simp: poly_drop_def dict_wf_def distinct_map intro: inj_on_subset distinct_filter)

lemma map_values_wf: "dict_wf (map (\<lambda>(f, w). (f, g w)) p) = dict_wf p"
  by (simp add: dict_wf_def comp_def case_prod_beta)

lemma poly_op_wf:
  assumes "poly_op k ps = Inr p" "\<forall>p \<in> set ps. dict_wf p"
  shows "dict_wf p"
proof -
  have "dict_wf (fold (fold (\<lambda>(f, w). poly_add_term f w)) ps q)" if "dict_wf q" for q
    using that poly_add_terms_wf [where g = "\<lambda>w. w"] by (induction ps arbitrary: q) auto
  then have sum: "dict_wf (poly_sum ps)" by (simp add: poly_sum_def poly_drop_wf)
  have times: "dict_wf p" if run: "poly_times ps = Inr p" for p
  proof -
    from run obtain c acc where loop: "rfold poly_factor ps (1, None) = Inr (c, acc)"
      and p: "p = (case acc of None \<Rightarrow> [(None, c)] | Some p \<Rightarrow> if c = 0 then [(None, c)] else map (\<lambda>(f, w). (f, w * c)) p)"
      by (auto simp: poly_times_def rbind_eq_Inr)
    have "\<forall>q. snd (c, acc) = Some q \<longrightarrow> dict_wf q"
      by (rule rfold_invariant [where I = "\<lambda>ca. \<forall>q. snd ca = Some q \<longrightarrow> dict_wf q", OF loop])
        (use assms(2) in \<open>auto simp: poly_factor_def split: if_splits\<close>)
    moreover have "dict_wf [(None, c)]" by (simp add: dict_wf_def)
    ultimately show ?thesis by (auto simp: p map_values_wf [where g = "\<lambda>w. w * c"] split: option.split)
  qed
  have "dict_wf (poly_sub a b)" if "a \<in> set ps" for a b
    using poly_add_terms_wf [where g = uminus] assms(2) that by (simp add: poly_sub_def poly_drop_wf)
  moreover have "dict_wf q" if "poly_div a b = Inr q" "a \<in> set ps" for a b q
    using that assms(2) map_values_wf [where g = "\<lambda>w. w / poly_const b"] by (auto simp: poly_div_def split: if_splits)
  ultimately show ?thesis using assms(1) sum times
    by (cases ps rule: list_cases2) (auto simp: poly_op_def split: if_splits)
qed

lemma poly_steps_wf:
  assumes "rfold poly_step e st = Inr st'" "\<forall>p \<in> set st. dict_wf p"
  shows "\<forall>p \<in> set st'. dict_wf p"
  using assms
proof (rule rfold_invariant)
  fix n st st' assume st: "\<forall>p \<in> set st. dict_wf p" and step: "poly_step n st = Inr st'"
  have single: "dict_wf [x]" for x :: "fluent option \<times> rat" by (simp add: dict_wf_def)
  show "\<forall>p \<in> set st'. dict_wf p"
  proof (cases n)
    case (NOp k ops)
    with step obtain p where p: "poly_op k (take (length ops) st) = Inr p" "st' = p # drop (length ops) st"
      by (auto simp: rbind_eq_Inr split: if_splits)
    have "\<forall>p \<in> set (take (length ops) st). dict_wf p" using st set_take_subset by fast
    with poly_op_wf [OF p(1)] have "dict_wf p" by blast
    moreover have "\<forall>p \<in> set (drop (length ops) st). dict_wf p" using st set_drop_subset by fast
    ultimately show ?thesis using p(2) by simp
  qed (use st step single in \<open>auto split: option.splits\<close>)
qed

lemma to_linear_polynomial_wf: "to_linear_polynomial e = Inr p \<Longrightarrow> dict_wf p"
proof -
  assume "to_linear_polynomial e = Inr p"
  then obtain st where st: "rfold poly_step e [] = Inr st" "(case st of [p] \<Rightarrow> Inr p | _ \<Rightarrow> Inl AssertErr) = (Inr p :: poly res)"
    unfolding to_linear_polynomial_def rbind_eq_Inr by blast
  then have "st = [p]" by (cases st rule: list_cases2) simp_all
  with poly_steps_wf [OF st(1)] show ?thesis by simp
qed

lemma poly_value_split:
  assumes "dict_wf p"
  shows "poly_value asg p = (\<Sum>(f, w) \<leftarrow> filter (\<lambda>(f, w). f \<noteq> None) p. w * term_value asg f) + poly_const p"
  using assms
proof (induction p)
  case (Cons x p)
  obtain f w where x: "x = (f, w)" by (cases x)
  show ?case
  proof (cases f)
    case None
    then have new: "None \<notin> fst ` set p" using Cons.prems x by (simp add: dict_wf_def)
    then have "poly_const p = 0" by (simp add: poly_const_def map_of_eq_None_iff [THEN iffD2])
    with Cons x None show ?thesis by (simp add: dict_wf_def poly_const_def [of "(None, w) # p"])
  next
    case (Some g)
    with Cons x show ?thesis by (simp add: dict_wf_def poly_const_def)
  qed
qed (simp add: poly_const_def)

lemma butlast_flatten: "butlast (flatten (TOp k ts)) @ [NOp k' (roots 0 ts)] = flatten (TOp k' ts)"
  by (simp add: flatten_def)

lemma last_flatten_Op: "py_last (flatten (TOp k ts)) = Inr (NOp k (roots 0 ts))"
  by (simp add: flatten_def)

text \<open>
  The polynomial of the difference of two numbers decides their comparison.
\<close>

lemma linear_comparison:
  assumes lin: "to_linear_polynomial (flatten (TOp ''-'' [a, b])) = Inr p" and k: "k = ''<'' \<or> k = ''<=''"
    and val: "evaluate ifs (flatten (TOp k [a, b])) asg = Inr v" and ar: "arities a" "arities b"
    and wf: "wf_tree a" "wf_tree b" and num: "numeric_in asg (tree_fluents a @ tree_fluents b)"
  shows "v = CBool (if k = ''<'' then poly_value asg p < 0 else poly_value asg p \<le> 0)"
proof -
  have "wf_tree (TOp k [a, b])" using wf k by (auto simp: op_kinds_def)
  then have "teval ifs asg (TOp k [a, b]) = Inr v" using val evaluate_flatten by simp
  with k obtain x y where xy: "teval ifs asg a = Inr x" "teval ifs asg b = Inr y"
    and v: "\<exists>r. py_compare (if k = ''<'' then (<) else (\<le>)) x y = Inr r \<and> v = CBool r"
    by (auto simp: rbind_eq_Inr op_apply_def)
  from v obtain q r where qr: "as_rat x = Some q" "as_rat y = Some r" "v = CBool (if k = ''<'' then q < r else q \<le> r)"
    by (auto simp: py_compare_def split: option.splits if_splits)
  obtain u where u: "py_sub x y = Inr u" "as_rat u = Some (q - r)" using py_sub_as_rat [OF qr(1,2)] by blast
  have "teval ifs asg (TOp ''-'' [a, b]) = Inr (normalize_num u)" using xy u(1) by (simp add: op_apply_def)
  moreover have "arities (TOp ''-'' [a, b])" using ar by (simp add: arity_ok_def op_kinds_def)
  moreover have "numeric_in asg (tree_fluents (TOp ''-'' [a, b]))" using num by simp
  ultimately have "q - r = poly_value asg p"
    using to_linear_polynomial_value [OF lin] u(2) by fastforce
  with qr(3) show ?thesis by auto
qed

text \<open>The value of a sum of weighted fluents and a constant, in exact numbers.\<close>

definition weighted_sum :: "const list \<Rightarrow> fluent list \<Rightarrow> rat list \<Rightarrow> rat \<Rightarrow> rat" where
  "weighted_sum asg fs ws k = (\<Sum>(f, w) \<leftarrow> zip fs ws. w * fluent_rat asg f) + k"

lemma extracted_polynomial:
  assumes "extract_fluents_weights (flatten (TOp k [a, b])) = Inr (Some c)"
  obtains p where "to_linear_polynomial (flatten (TOp ''-'' [a, b])) = Inr p" "k = ''<'' \<or> k = ''<=''"
    "sc_strict c = (k = ''<'')" "sc_fluents c = map (\<lambda>(f, w). the f) (filter (\<lambda>(f, w). f \<noteq> None) p)"
    "sc_weights c = map to_float (map snd (filter (\<lambda>(f, w). f \<noteq> None) p))" "sc_const c = to_float (poly_const p)"
    "\<forall>asg. poly_value asg p = weighted_sum asg (sc_fluents c) (map snd (filter (\<lambda>(f, w). f \<noteq> None) p)) (poly_const p)"
    "distinct (sc_fluents c)"
proof -
  have k: "k = ''<'' \<or> k = ''<=''" using assms last_flatten_Op [of k "[a, b]"] by (auto simp: extract_fluents_weights_def split: if_splits)
  with assms obtain p where p: "linear_polynomial (flatten (TOp ''-'' [a, b])) = Inr (Some p)"
    and c: "c = (let ts = filter (\<lambda>(f, w). f \<noteq> None) p in
        \<lparr>sc_fluents = map (\<lambda>(f, w). the f) ts, sc_weights = map (\<lambda>(f, w). to_float w) ts,
         sc_const = to_float (poly_const p), sc_strict = (k = ''<'')\<rparr>)"
    by (auto simp: extract_fluents_weights_def last_flatten_Op butlast_flatten rbind_eq_Inr Let_def simp del: roots.simps split: option.splits)
  then have lin: "to_linear_polynomial (flatten (TOp ''-'' [a, b])) = Inr p"
    by (auto simp: linear_polynomial_def split: sum.splits if_splits)
  let ?ts = "filter (\<lambda>(f, w). f \<noteq> None) p"
  have "(\<Sum>(f, w) \<leftarrow> ts. w * term_value asg f) = (\<Sum>(f, w) \<leftarrow> zip (map (\<lambda>(f, w). the f) ts) (map snd ts). w * fluent_rat asg f)"
    if "\<forall>x \<in> set ts. fst x \<noteq> None" for ts :: "(fluent option \<times> rat) list" and asg
    using that by (induction ts) (auto simp: term_value_def)
  from this [of ?ts] have "\<forall>asg. poly_value asg p = weighted_sum asg (sc_fluents c) (map snd ?ts) (poly_const p)"
    by (auto simp: poly_value_split [OF to_linear_polynomial_wf [OF lin]] c weighted_sum_def Let_def)
  moreover have "distinct (sc_fluents c)"
  proof -
    have "distinct (map fst ?ts)" using to_linear_polynomial_wf [OF lin] by (auto simp: dict_wf_def intro: distinct_map_filter)
    moreover have "inj_on the (fst ` set ?ts)" by (auto simp: inj_on_def)
    ultimately have "distinct (map the (map fst ?ts))" unfolding distinct_map by simp
    moreover have "sc_fluents c = map the (map fst ?ts)" by (auto simp: c Let_def)
    ultimately show ?thesis by simp
  qed
  ultimately show thesis using lin k by (intro that [of p]) (simp_all add: c Let_def split_def comp_def)
qed

end
