(* ===== verification/Relax_Effects.thy ===== *)
theory Relax_Effects
  imports Relax_Polynomials Relax_Eval HMax_Admissible
begin

text \<open>
  What the operators of \<open>DeleteRelaxationHeuristic\<close> say of the effects of their events, on typed
  problems: constant increases and assignments are exact, and a Boolean or object value that a fluent
  takes is among the facts of the operator.
\<close>

section \<open>Numeric trees\<close>

lemma poly_fluents_numeric:
  "rfold poly_step (flat off t) st = Inr st' \<Longrightarrow> tree_ty G t = Some TyNum \<Longrightarrow> \<forall>f \<in> set (tree_fluents t). G f = TyNum"
  "rfold poly_step (flats off ts) st = Inr st' \<Longrightarrow> \<forall>t \<in> set ts. tree_ty G t = Some TyNum \<Longrightarrow>
     \<forall>t \<in> set ts. \<forall>f \<in> set (tree_fluents t). G f = TyNum"
proof (induction off t and off ts arbitrary: st st' and st st' rule: flat_flats.induct)
  case (3 off k ts)
  from 3(2) obtain st1 where st1: "rfold poly_step (flats off ts) st = Inr st1" "poly_step (NOp k (roots off ts)) st1 = Inr st'"
    by (auto simp: rfold_append rbind_eq_Inr)
  then have k: "k \<in> {''-'', ''+'', ''/'', ''*''}" by (auto split: if_splits)
  from 3(3) obtain tys where tys: "list_all2 (\<lambda>t ty. tree_ty G t = Some ty) ts tys" "op_ty k tys = Some TyNum"
    by (rule tree_ty_OpE)
  from k tys(2) have num: "\<forall>ty \<in> set tys. ty = TyNum" by (auto simp: op_ty_simps split: if_splits)
  from tys(1) num have "\<forall>t \<in> set ts. tree_ty G t = Some TyNum" by (induction rule: list_all2_induct) auto
  from 3(1) [OF st1(1) this] show ?case by auto
next
  case (4 off f rt ts)
  then show ?case by (auto simp: rfold_append rbind_eq_Inr)
next
  case (6 off t ts)
  from 6(3) obtain st1 where st1: "rfold poly_step (flat off t) st = Inr st1" "rfold poly_step (flats (off + tsize t) ts) st1 = Inr st'"
    unfolding flats.simps rfold_append rbind_eq_Inr by blast
  from 6(1) [OF st1(1)] 6(2) [OF st1(2)] 6(4) show ?case by simp
qed simp_all

lemma linear_fluents_numeric:
  assumes "to_linear_polynomial (flatten t) = Inr p" "tree_ty G t = Some TyNum"
  shows "\<forall>f \<in> set (tree_fluents t). G f = TyNum"
proof -
  from assms(1) obtain st where "rfold poly_step (flat 0 t) [] = Inr st"
    unfolding to_linear_polynomial_def flatten_def rbind_eq_Inr by blast
  from poly_fluents_numeric(1) [OF this assms(2)] show ?thesis .
qed

lemma number_as_rat: "const_ty v = Some TyNum \<Longrightarrow> \<exists>q. as_rat v = Some q"
  by (cases v) auto

lemma typed_numeric_in:
  assumes "typed_values G n asg" "\<forall>f \<in> set fs. fl_idx f < n \<and> G f = TyNum"
  shows "numeric_in asg fs"
  unfolding numeric_in_def
proof
  fix f assume "f \<in> set fs"
  with assms have "fl_idx f < length asg" "const_ty (asg ! fl_idx f) = Some TyNum"
    by (cases f; force simp: typed_values_def typed_assignment_def)+
  then show "\<exists>v q. py_nth asg (int (fl_idx f)) = Inr v \<and> as_rat v = Some q"
    using number_as_rat by (simp add: py_nth_int_iff)
qed

text \<open>A linear expression of numbers has the value of its polynomial.\<close>

lemma linear_value:
  assumes "to_linear_polynomial (flatten t) = Inr p" "tree_ty G t = Some TyNum" "\<forall>f \<in> set (tree_fluents t). fl_idx f < n"
    and "typed_values G n asg" "evaluate ifs (flatten t) asg = Inr v"
  shows "as_rat v = Some (poly_value asg p)"
proof (rule to_linear_polynomial_value [OF assms(1)])
  show "teval ifs asg t = Inr v" using assms(2,5) by (simp add: evaluate_flatten tree_ty_wf)
  show "arities t" using assms(2) by (rule typed_arities)
  show "numeric_in asg (tree_fluents t)" using typed_numeric_in [OF assms(4)] linear_fluents_numeric [OF assms(1,2)] assms(3) by blast
qed

text \<open>
  A simple condition: some exact weights and an exact constant decide the comparison in every
  typed state, and the heuristic keeps the floats nearest to them.
\<close>

lemma typed_condition_exact:
  assumes ext: "extract_fluents_weights (flatten (TOp k [a, b])) = Inr (Some c)"
    and ty: "tree_ty G a = Some TyNum" "tree_ty G b = Some TyNum" and n: "\<forall>f \<in> set (tree_fluents a @ tree_fluents b). fl_idx f < n"
  shows "\<exists>ws k0. length ws = length (sc_fluents c) \<and> distinct (sc_fluents c) \<and>
    sc_weights c = map to_float ws \<and> sc_const c = to_float k0 \<and> sc_strict c = (k = ''<'') \<and>
    (\<forall>asg v. typed_values G n asg \<longrightarrow> evaluate ifs (flatten (TOp k [a, b])) asg = Inr v \<longrightarrow>
       v = CBool (if k = ''<'' then weighted_sum asg (sc_fluents c) ws k0 < 0 else weighted_sum asg (sc_fluents c) ws k0 \<le> 0))"
  using ext
proof (rule extracted_polynomial)
  fix p assume p: "to_linear_polynomial (flatten (TOp ''-'' [a, b])) = Inr p" "k = ''<'' \<or> k = ''<=''"
    "sc_strict c = (k = ''<'')" "sc_fluents c = map (\<lambda>(f, w). the f) (filter (\<lambda>(f, w). f \<noteq> None) p)"
    "sc_weights c = map to_float (map snd (filter (\<lambda>(f, w). f \<noteq> None) p))" "sc_const c = to_float (poly_const p)"
    "\<forall>asg. poly_value asg p = weighted_sum asg (sc_fluents c) (map snd (filter (\<lambda>(f, w). f \<noteq> None) p)) (poly_const p)"
    "distinct (sc_fluents c)"
  let ?ws = "map snd (filter (\<lambda>(f, w). f \<noteq> None) p)"
  have "tree_ty G (TOp ''-'' [a, b]) = Some TyNum" using ty by (simp add: op_ty_simps)
  from linear_fluents_numeric [OF p(1) this] have num: "\<forall>f \<in> set (tree_fluents a @ tree_fluents b). G f = TyNum" by simp
  have "v = CBool (if k = ''<'' then weighted_sum asg (sc_fluents c) ?ws (poly_const p) < 0
      else weighted_sum asg (sc_fluents c) ?ws (poly_const p) \<le> 0)"
    if "typed_values G n asg" "evaluate ifs (flatten (TOp k [a, b])) asg = Inr v" for asg v
  proof -
    have "numeric_in asg (tree_fluents a @ tree_fluents b)" using typed_numeric_in [OF that(1)] num n by simp
    from linear_comparison [OF p(1,2) that(2) _ _ _ _ this] ty typed_arities tree_ty_wf p(7) show ?thesis by simp
  qed
  moreover have "length ?ws = length (sc_fluents c)" by (simp add: p(4))
  ultimately show ?thesis using p(3,5,6,8) by (intro exI [of _ ?ws] exI [of _ "poly_const p"]) blast
qed


section \<open>The effects of an event\<close>

text \<open>The fluents of the problem have the types of their domains.\<close>

definition domain_types :: "(fluent \<Rightarrow> ty) \<Rightarrow> nat \<Rightarrow> fluent_domain list \<Rightarrow> bool" where
  "domain_types G num ds \<longleftrightarrow> num \<le> length ds \<and> (\<forall>i < num. kind_ty (fd_kind (ds ! i)) = G (Fluent i))"

definition in_domain :: "fluent_domain list \<Rightarrow> fluent \<Rightarrow> const \<Rightarrow> bool" where
  "in_domain ds f v \<longleftrightarrow> (case fd_kind (ds ! fl_idx f) of KObject \<Rightarrow> v \<in> CObj ` set (fd_objects (ds ! fl_idx f)) | _ \<Rightarrow> True)"

definition value_of :: "const list \<Rightarrow> fluent \<Rightarrow> const" where
  "value_of asg f = asg ! fl_idx f"

definition numeric_effect :: "rop \<Rightarrow> const list \<Rightarrow> const list \<Rightarrow> fluent \<Rightarrow> bool" where
  "numeric_effect r asg asg' f \<longleftrightarrow> (case dict_get (ro_increase r) f of
     Some k \<Rightarrow> fluent_rat asg' f = fluent_rat asg f + k
   | None \<Rightarrow> (case dict_get (ro_assign r) f of
       Some q \<Rightarrow> fluent_rat asg' f = q
     | None \<Rightarrow> dict_get (ro_complex r) f \<noteq> None \<or> fluent_rat asg' f = fluent_rat asg f))"

definition fact_effect :: "fluent_domain list \<Rightarrow> rop \<Rightarrow> const list \<Rightarrow> const list \<Rightarrow> fluent \<Rightarrow> bool" where
  "fact_effect ds r asg asg' f \<longleftrightarrow> value_of asg' f = value_of asg f \<or> (f, value_of asg' f) \<in> set (ro_effects r) \<or>
     \<not> in_domain ds f (value_of asg' f)"

text \<open>The operator tells of every fluent what the event makes of it.\<close>

definition effects_known :: "(fluent \<Rightarrow> ty) \<Rightarrow> nat \<Rightarrow> fluent_domain list \<Rightarrow> rop \<Rightarrow> const list \<Rightarrow> const list \<Rightarrow> bool" where
  "effects_known G num ds r asg asg' \<longleftrightarrow> (\<forall>f. fl_idx f < num \<longrightarrow>
     (if G f = TyNum then numeric_effect r asg asg' f else fact_effect ds r asg asg' f))"

lemma fluent_rat_update:
  "fl_idx g < length asg \<Longrightarrow> fluent_rat (asg[fl_idx g := v]) f = (if f = g then (case as_rat v of None \<Rightarrow> 0 | Some q \<Rightarrow> q) else fluent_rat asg f)"
  by (cases f; cases g) (auto simp: fluent_rat_def py_nth_def)

lemma value_of_update:
  "fl_idx g < length asg \<Longrightarrow> value_of (asg[fl_idx g := v]) f = (if f = g then v else value_of asg f)"
  by (cases f; cases g) (auto simp: value_of_def)

lemma increase_polynomial:
  assumes "to_linear_polynomial e = Inr p" "length (dict_del None p) = 1" "dict_get (dict_del None p) (Some f) = Some 1"
  shows "poly_value asg p = fluent_rat asg f + poly_const p"
proof -
  from assms(2) obtain x where x: "dict_del None p = [x]" by (auto simp: length_Suc_conv)
  with assms(3) have "dict_del None p = [(Some f, 1)]" by (cases x) (auto split: if_splits)
  moreover have "dict_del None p = filter (\<lambda>(f, w). f \<noteq> None) p"
    by (induction p) (auto simp: AList.delete_eq neq_commute [of None])
  ultimately show ?thesis
    by (simp add: poly_value_split [OF to_linear_polynomial_wf [OF assms(1)]] term_value_def)
qed

lemma update_numeric_cases:
  assumes run: "update_numeric_effects eff r = Inr r'"
  obtains (assign) c q where "eff_value eff = [NConst c]" "as_rat c = Some q" "r' = r\<lparr>ro_assign := dict_set (eff_fluent eff) q (ro_assign r)\<rparr>"
  | (increase) p where "to_linear_polynomial (eff_value eff) = Inr p" "length (dict_del None p) = 1"
      "dict_get (dict_del None p) (Some (eff_fluent eff)) = Some 1" "r' = r\<lparr>ro_increase := dict_set (eff_fluent eff) (poly_const p) (ro_increase r)\<rparr>"
  | (complex) "r' = complex_effect eff r"
proof (cases "case eff_value eff of [NConst c] \<Rightarrow> as_rat c | _ \<Rightarrow> None")
  case const: None
  with run obtain pl where pl: "linear_polynomial (eff_value eff) = Inr pl" by (auto simp: update_numeric_effects_def rbind_eq_Inr)
  show ?thesis
  proof (cases pl)
    case None
    with run pl const show ?thesis by (intro that(3)) (auto simp: update_numeric_effects_def)
  next
    case (Some p)
    then have "to_linear_polynomial (eff_value eff) = Inr p" using pl by (auto simp: linear_polynomial_def split: sum.splits if_splits)
    with run pl Some const show ?thesis
      by (cases "length (dict_del None p) = 1 \<and> dict_get (dict_del None p) (Some (eff_fluent eff)) = Some 1")
        (auto simp: update_numeric_effects_def Let_def intro: that(2,3))
  qed
next
  case (Some q)
  then obtain c where "eff_value eff = [NConst c]" "as_rat c = Some q" by (auto split: list.splits node.splits)
  with run show ?thesis by (intro that(1)) (auto simp: update_numeric_effects_def)
qed

lemma numeric_effect_known:
  assumes run: "update_numeric_effects eff r = Inr r'" and eff: "typed_effect G num eff" "G (eff_fluent eff) = TyNum"
    and new: "dict_get (ro_increase r) (eff_fluent eff) = None" "dict_get (ro_assign r) (eff_fluent eff) = None"
    and asg: "typed_values G num asg" "length x = num" and v: "evaluate ifs (eff_value eff) asg = Inr v"
    and y: "y = x[fl_idx (eff_fluent eff) := v]"
  shows "numeric_effect r' asg y (eff_fluent eff)"
    and "f \<noteq> eff_fluent eff \<Longrightarrow> numeric_effect r' asg y f = numeric_effect r asg x f"
proof -
  let ?f = "eff_fluent eff"
  from eff obtain t where t: "eff_value eff = flatten t" "tree_ty G t = Some TyNum" "\<forall>g \<in> set (tree_fluents t). fl_idx g < num"
    and f: "fl_idx ?f < length x" using asg(2) by (auto simp: typed_effect_def)
  have rat: "fluent_rat y g = (if g = ?f then (case as_rat v of None \<Rightarrow> 0 | Some q \<Rightarrow> q) else fluent_rat x g)" for g
    unfolding y by (rule fluent_rat_update [OF f])
  from run have "numeric_effect r' asg y ?f \<and> (f \<noteq> ?f \<longrightarrow> numeric_effect r' asg y f = numeric_effect r asg x f)"
  proof (cases rule: update_numeric_cases)
    case (assign c q)
    then have "v = c" using v by simp
    with assign rat new show ?thesis by (cases "f = ?f") (simp_all add: numeric_effect_def update_conv' split: option.split)
  next
    case (increase p)
    then have "as_rat v = Some (fluent_rat asg ?f + poly_const p)"
      using linear_value [of t p G num asg ifs v] t asg(1) v increase_polynomial [OF increase(1-3)] by simp
    with increase rat new show ?thesis by (cases "f = ?f") (simp_all add: numeric_effect_def update_conv' split: option.split)
  next
    case complex
    with rat new show ?thesis by (cases "f = ?f") (simp_all add: numeric_effect_def complex_effect_def update_conv' split: option.split)
  qed
  then show "numeric_effect r' asg y ?f" "f \<noteq> ?f \<Longrightarrow> numeric_effect r' asg y f = numeric_effect r asg x f" by blast+
qed

lemma add_fact_effect:
  assumes run: "add_effect ds eff r = Inr r'" and d: "py_nth ds (int (fl_idx (eff_fluent eff))) = Inr d" "kind_ty (fd_kind d) \<noteq> TyNum"
    and ty: "const_ty v = Some (kind_ty (fd_kind d))" and v: "evaluate ifs (eff_value eff) asg = Inr v" and ds: "d = ds ! fl_idx (eff_fluent eff)"
  shows "ro_increase r' = ro_increase r" "ro_assign r' = ro_assign r" "ro_complex r' = ro_complex r"
    and "set (ro_effects r) \<subseteq> set (ro_effects r')"
    and "(eff_fluent eff, v) \<in> set (ro_effects r') \<or> \<not> in_domain ds (eff_fluent eff) v"
proof -
  consider "fd_kind d = KBool" | "fd_kind d = KObject" using d(2) by (cases "fd_kind d") auto
  then have "\<exists>xs. r' = r\<lparr>ro_effects := ro_effects r @ xs\<rparr> \<and> ((eff_fluent eff, v) \<in> set xs \<or> \<not> in_domain ds (eff_fluent eff) v)"
  proof cases
    case 1
    with ty obtain b where b: "v = CBool b" by (cases v) (auto split: if_splits)
    let ?xs = "case eff_value eff of [NConst (CBool b)] \<Rightarrow> [(eff_fluent eff, CBool b)] | _ \<Rightarrow> [(eff_fluent eff, CBool True), (eff_fluent eff, CBool False)]"
    have "(eff_fluent eff, v) \<in> set ?xs" using b v by (cases b) (auto split: list.split node.split const.split)
    moreover have "r' = r\<lparr>ro_effects := ro_effects r @ ?xs\<rparr>" using run d(1) 1 by (simp add: add_effect_def Let_def)
    ultimately show ?thesis by blast
  next
    case 2
    with ty obtain ob where ob: "v = CObj ob" by (cases v) (auto split: if_splits)
    let ?xs = "case eff_value eff of [NConst (CObj ob)] \<Rightarrow> [(eff_fluent eff, CObj ob)] | _ \<Rightarrow> map (\<lambda>ob. (eff_fluent eff, CObj ob)) (fd_objects d)"
    have "(eff_fluent eff, v) \<in> set ?xs \<or> \<not> in_domain ds (eff_fluent eff) v"
      using ob v 2 ds by (auto simp: in_domain_def split: list.split node.split const.split)
    moreover have "r' = r\<lparr>ro_effects := ro_effects r @ ?xs\<rparr>" using run d(1) 2 by (simp add: add_effect_def Let_def)
    ultimately show ?thesis by blast
  qed
  then show "ro_increase r' = ro_increase r" "ro_assign r' = ro_assign r" "ro_complex r' = ro_complex r"
    "set (ro_effects r) \<subseteq> set (ro_effects r')" "(eff_fluent eff, v) \<in> set (ro_effects r') \<or> \<not> in_domain ds (eff_fluent eff) v"
    by auto
qed

lemma add_effect_known:
  assumes run: "add_effect ds eff r = Inr r'" "apply_effect ifs asg eff x = Inr y"
    and eff: "typed_effect G num eff" and ds: "domain_types G num ds" and asg: "typed_values G num asg" "length x = num"
    and I: "effects_known G num ds r asg x"
  shows "effects_known G num ds r' asg y \<and> length y = num"
proof -
  let ?f = "eff_fluent eff"
  from eff obtain t where t: "eff_value eff = flatten t" "tree_ty G t = Some (G ?f)" "\<forall>g \<in> set (tree_fluents t). fl_idx g < num"
    and f: "fl_idx ?f < num" by (auto simp: typed_effect_def)
  from run(2) obtain v where v: "evaluate ifs (eff_value eff) asg = Inr v" and y: "y = x[fl_idx ?f := v]"
    by (auto simp: apply_effect_def rbind_eq_Inr py_update_int_iff)
  have ty: "const_ty v = Some (G ?f)" using evaluate_typed [OF asg(1) t(2,3), of ifs] v t(1) by simp
  have val: "value_of y g = (if g = ?f then v else value_of x g)" for g using value_of_update [of ?f x v g] f asg(2) y by simp
  have rat: "fluent_rat y g = fluent_rat x g" if "g \<noteq> ?f" for g using fluent_rat_update [of ?f x v g] f asg(2) y that by simp
  define d where "d = ds ! fl_idx ?f"
  have d: "py_nth ds (int (fl_idx ?f)) = Inr d" "kind_ty (fd_kind d) = G ?f"
    using ds f by (cases ?f; auto simp: domain_types_def py_nth_int_iff d_def)+
  have len: "length y = num" using y asg(2) by simp
  show ?thesis
  proof (cases "G ?f = TyNum")
    case True
    with d have "fd_kind d = KInt \<or> fd_kind d = KReal" by (cases "fd_kind d") auto
    with run(1) d(1) have "dict_get (ro_increase r) ?f = None" "dict_get (ro_assign r) ?f = None"
      and up: "update_numeric_effects eff r = Inr r'" by (auto simp: add_effect_def Let_def split: if_splits)
    note known = numeric_effect_known [OF up eff True this(1,2) asg v y]
    have "ro_effects r' = ro_effects r" using up by (cases rule: update_numeric_cases) (simp_all add: complex_effect_def)
    then show ?thesis using I known rat val len True unfolding effects_known_def fact_effect_def by metis
  next
    case False
    have same: "ro_increase r' = ro_increase r" "ro_assign r' = ro_assign r" "ro_complex r' = ro_complex r"
      and more: "set (ro_effects r) \<subseteq> set (ro_effects r')"
      and new: "(?f, v) \<in> set (ro_effects r') \<or> \<not> in_domain ds ?f v"
      using add_fact_effect [OF run(1) d(1) _ _ v d_def] False d(2) ty by simp_all
    have "numeric_effect r' asg y g = numeric_effect r asg x g" if "G g = TyNum" for g
    proof -
      from False that have "g \<noteq> ?f" by auto
      then show ?thesis by (simp add: numeric_effect_def same rat cong: option.case_cong)
    qed
    then show ?thesis using I val more new len unfolding effects_known_def fact_effect_def by (auto split: if_splits)
  qed
qed

lemma event_effects_known:
  assumes run: "event_rop ds a f e = Inr r" "rfold (apply_effect ifs asg) (ev_effects e) asg = Inr asg'"
    and e: "\<forall>eff \<in> set (ev_effects e). typed_effect G num eff" and ds: "domain_types G num ds" and asg: "typed_values G num asg"
  shows "effects_known G num ds r asg asg'"
proof -
  have "effects_known G num ds r' asg y" if "rfold (add_effect ds) effs r = Inr r'" "rfold (apply_effect ifs asg) effs x = Inr y"
    "\<forall>eff \<in> set effs. typed_effect G num eff" "length x = num" "effects_known G num ds r asg x" for effs r r' x y
    using that
  proof (induction effs arbitrary: r x)
    case (Cons eff effs)
    from Cons.prems(1) obtain r1 where r1: "add_effect ds eff r = Inr r1" "rfold (add_effect ds) effs r1 = Inr r'" by (auto simp: rbind_eq_Inr)
    from Cons.prems(2) obtain x1 where x1: "apply_effect ifs asg eff x = Inr x1" "rfold (apply_effect ifs asg) effs x1 = Inr y" by (auto simp: rbind_eq_Inr)
    from add_effect_known [OF r1(1) x1(1) _ ds asg] Cons.prems(3-5) have "effects_known G num ds r1 asg x1 \<and> length x1 = num" by simp
    with Cons.IH [OF r1(2) x1(2)] Cons.prems(3) show ?case by simp
  qed simp
  note fold = this
  show ?thesis
  proof (rule fold [OF run(1) [unfolded event_rop_def] run(2) e])
    show "length asg = num" using asg by (simp add: typed_values_def)
  qed (simp add: effects_known_def numeric_effect_def fact_effect_def)
qed

end
