(* ===== verification/Relax_Demo.thy ===== *)
theory Relax_Demo
  imports Examples Relax_Built Relax_Effects
begin

text \<open>
  The delete relaxation on a numeric example: an action lowers a counter by 3, and the goal is a
  counter below 0.  From 2 one application does, but the constant of a strict condition is raised
  by half the smallest net effect, here 3/2, and two are counted.
\<close>

definition counter :: fluent where
  "counter = Fluent 0"

definition lower_exp :: expression where
  "lower_exp = [NFluent counter, NConst (CInt 3), NOp ''-'' [0, 1]]"

definition negative_exp :: expression where
  "negative_exp = [NFluent counter, NConst (CInt 0), NOp ''<'' [0, 1]]"

definition lower_event :: event where
  "lower_event = \<lparr>ev_action = light, ev_pos = 0, ev_conditions = true_exp, ev_start_conditions = [],
     ev_end_conditions = [], ev_effects = [\<lparr>eff_fluent = counter, eff_value = lower_exp\<rparr>]\<rparr>"

definition lower_events :: "(action, timed_event list) dict" where
  "lower_events = [(light, [(\<lparr>tm_start = True, tm_delay = 0\<rparr>, lower_event)])]"

definition lower_domains :: "fluent_domain list" where
  "lower_domains = [\<lparr>fd_kind = KInt, fd_objects = []\<rparr>]"

definition lower_space :: sspace where
  "lower_space = (case mk_search_space [None] lower_events [light] None None None (Some [CInt 2])
     (Some negative_exp) None None None None of Inr sp \<Rightarrow> sp)"

definition lower_relax :: relaxation where
  "lower_relax = (case mk_relax [light] lower_domains lower_events negative_exp HMAX False False None of Inr R \<Rightarrow> R)"

lemma lower_relax_eq: "mk_relax [light] lower_domains lower_events negative_exp HMAX False False None = Inr lower_relax"
  by code_simp

definition lower_init :: "tp stn state" where
  "lower_init = state_in (initial_state delta_stn_ops no_ifs lower_space None 0)"

definition lower_done :: "tp stn state" where
  "lower_done = state_in (get_successor_state delta_stn_ops no_ifs lower_space lower_init light 0)"

lemma lower_steps:
  "initial_state delta_stn_ops no_ifs lower_space None 0 = Inr (Some lower_init, 0)"
  "get_successor_state_with_compression delta_stn_ops no_ifs lower_space lower_init light True 0 = Inr (Some lower_done, 0)"
  "goal_reached no_ifs lower_space lower_done None = Inr True"
  by code_simp+

lemma lower_tables:
  "rx_drain lower_relax = False" "rx_goal_op lower_relax = 1"
  "rx_op_numeric lower_relax = [[(1, \<lparr>nc_fluents = [counter], nc_weights = [1], nc_const = Fin (3 / 2)\<rparr>)]]"
  "initial_condition_costs no_ifs lower_relax lower_init = Inr [Fin 0, Inf]"
  by code_simp+

lemma lower_value: "relax_eval_core no_ifs lower_relax lower_init = Inr (Some 2)"
  by code_simp

text \<open>One event leads to the goal, and the value is 2.\<close>

lemma hmax_overestimates:
  "rx_kind lower_relax = HMAX" "relax_eval_core no_ifs lower_relax lower_init = Inr (Some 2)"
  "goal_reached no_ifs lower_space lower_done None = Inr True" "st_g lower_done = st_g lower_init + 1"
  using lower_value lower_steps(3) by simp_all code_simp+

definition lower_types :: "fluent \<Rightarrow> ty" where
  "lower_types f = (if f = counter then TyNum else TyBool)"

definition lower_op :: rop where
  "lower_op = rx_operators lower_relax ! 0"

definition lower_cond :: ncond where
  "lower_cond = \<lparr>nc_fluents = [counter], nc_weights = [1], nc_const = Fin (3 / 2)\<rparr>"

lemma lower_op_facts:
  "event_rop (all_domains lower_domains lower_events [light]) light (Fluent 1) lower_event = Inr lower_op"
  "repetitions False lower_op lower_cond lower_init = Inr (Some 2)" "\<not> has_assign_or_complex lower_op (nc_fluents lower_cond)"
  "st_assignments lower_init = [CInt 2]" "condition_value lower_cond lower_init = Inr (Fin (7 / 2))"
  by code_simp+

lemma lower_applied: "rfold (apply_effect no_ifs [CInt i]) (ev_effects lower_event) [CInt i] = Inr [CInt (i - 3)]"
  by (simp add: lower_event_def apply_effect_def lower_exp_def counter_def evaluate_def py_last_eq py_nth_def py_update_def eval_operator_def eval_binary_def operand_def py_sub_def py_arith_def)

lemma lower_typed:
  "\<forall>eff \<in> set (ev_effects lower_event). typed_effect lower_types 1 eff"
  "domain_types lower_types 1 (all_domains lower_domains lower_events [light])"
  "typed_values lower_types 1 (st_assignments lower_init)"
proof -
  have "lower_exp = flatten (TOp ''-'' [TFluent counter, TConst (CInt 3)])" by code_simp
  then show "\<forall>eff \<in> set (ev_effects lower_event). typed_effect lower_types 1 eff"
    unfolding typed_effect_def
    by (auto simp: lower_event_def counter_def lower_types_def op_ty_simps intro!: exI [of _ "TOp ''-'' [TFluent counter, TConst (CInt 3)]"])
  show "typed_values lower_types 1 (st_assignments lower_init)"
    by (simp add: lower_op_facts typed_values_def typed_assignment_def lower_types_def counter_def)
qed (simp_all add: domain_types_def all_domains_def lower_domains_def lower_types_def counter_def)

text \<open>
  The counts are those of floats: from 21/10, in steps of 3/10, seven steps lead to 0, and eight
  are counted.
\<close>

lemma float_repetitions:
  "repetitions False \<lparr>ro_action = light, ro_effects = [], ro_increase = [(counter, - 3 / 10)], ro_assign = [],
      ro_complex = [], ro_cost = 1\<rparr>
    \<lparr>nc_fluents = [counter], nc_weights = [1], nc_const = Fin 0\<rparr>
    (mk_state [CFrac (21 / 10)] None [] ms_empty 0 [] :: tp stn state) = Inr (Some 8)"
  by code_simp

end
