(* ===== verification/Spec2Isabelle.thy ===== *)
theory Spec2Isabelle
  imports Novelty_Demo HMax_Demo Relax_Demo
begin

text \<open>
  A development of TamerLite, a heuristic-search planner for classical, numeric and temporal
  problems (package \<open>src/tamerlite\<close>).  A planning problem is encoded into ground actions,
  each a list of events with conditions and effects; a search explores the states of a
  search space, and on temporal problems each state carries a simple temporal network.

  \<^bold>\<open>Parts.\<close>

  \<^item> \<open>Tamer_Prelude\<close>: Python errors and the error monad, lists and insertion-ordered
    dictionaries, loops that may not end (\<open>run_loop\<close>, \<open>run_rounds\<close>, with \<open>NoReturn\<close> for a loop
    that never returns), and the predicate \<open>errs\<close> on the errors a computation can end with.
  \<^item> \<open>Values\<close>, \<open>Expressions\<close>: the constants, Python's numeric operations on them and the node
    arrays of \<open>core/search_space.py\<close> with \<open>evaluate\<close>; \<open>Expression_Trees\<close>: the trees these arrays
    flatten, and \<open>Converter\<close>: the \<open>walk_*\<close> methods of \<open>converter.py\<close> that build them.
  \<^item> \<open>Expression_Types\<close>: the types of trees and their soundness; \<open>Typed_Space\<close>: effects keep the
    assignments typed.
  \<^item> \<open>Simplify\<close>: the function \<open>simplify\<close>; \<open>Simplify_Facts\<close> shows that on flattened trees it is a fold
    of the tree, \<open>Simplify_Value\<close> that the fold keeps the value.
  \<^item> \<open>Search_State\<close>: \<open>MultiSet\<close>, \<open>State\<close>, \<open>MutexChecker\<close> and \<open>PrecedenceChecker\<close> with their caches.
  \<^item> \<open>Stn\<close>: the incremental simple temporal network of the Rust core (\<open>DeltaSTN\<close>), over rationals
    and at tolerance 0, with the contract \<open>temporal_network\<close> it is proved to meet.  The Python
    search space works with the network of the unified-planning library, which is not in the
    repository; the Rust search runs \<open>DeltaSTN\<close> on 64-bit floats with a tolerance.
  \<^item> \<open>Search_Space\<close>: the class \<open>SearchSpace\<close>, method by method; \<open>Search_Space_Facts\<close>,
    \<open>Temporal_Space\<close>, \<open>Space_Returns\<close>: what holds of every state it can reach (\<open>reachable\<close>) on any
    network that meets the contract (locale \<open>network_space\<close>).
  \<^item> \<open>Dedup\<close>: the visited-state stores of \<open>core/search.py\<close>, \<open>Open_Lists\<close>: its priority queues, with
    the push and pop of the standard library's \<open>heapq\<close>, \<open>Search\<close>: its searches; \<open>Dedup_Facts\<close>, \<open>Search_Facts\<close>, \<open>Search_Returns\<close>: the store
    against its specification, soundness and termination of the searches; \<open>Planning\<close>: the
    searches on the search space; \<open>Examples\<close>: two small problems.
  \<^item> \<open>Multiqueue\<close>: the search of \<open>core/multiqueue.py\<close>, one heap per heuristic over shared
    containers; \<open>Multiqueue_Facts\<close>: its soundness and termination.
  \<^item> \<open>Plan_Builder\<close>: \<open>build_plan\<close>; \<open>Plan_Facts\<close> shows that the network of a replayed path is implied
    by the network of the state it ends in, \<open>Plan_Result\<close> that the plan is its earliest schedule
    and, for the path of a goal state, the earliest one its actions and interfering events allow.
  \<^item> \<open>Novelty\<close>: the tables of \<open>core/novelty.py\<close>; \<open>Novelty_Facts\<close> proves the sparse evaluation against
    one that compares every subgoal, \<open>Novelty_Search\<close> that its operations return, and
    \<open>Novelty_Demo\<close> has an example; \<open>Tree_Positions\<close>: where sub-trees lie in a flattened tree.
  \<^item> \<open>HMax_Explicit\<close>: the heuristic \<open>HMaxExplicit\<close> of \<open>core/heuristics.py\<close>.  \<open>HMax_Delta\<close> shows that the
    enumeration visits exactly the combinations with a new value, \<open>HMax_Rounds\<close> and
    \<open>HMax_Layers\<close> that round by round the value sets are the layers of a relaxation,
    \<open>HMax_Built\<close> that the constructor makes operators fit for this, \<open>HMax_Returns\<close> that an
    evaluation ends when the layers settle (on numeric problems they need not, and the code then
    runs until memory is out), \<open>HMax_Admissible\<close> that the value is a lower bound, \<open>HMax_Cache\<close>
    that the cache changes no value; \<open>HMax_Demo\<close> has an example.
  \<^item> The delete-relaxation heuristics \<open>hff\<close>, \<open>hadd\<close> and \<open>hmax\<close> (\<open>DeleteRelaxationHeuristic\<close> of
    \<open>core/heuristics.py\<close>): \<open>Relax_Conditions\<close>, the conditions, their rewriting and linear polynomials;
    \<open>Relax_Costs\<close>, the costs of conditions; \<open>Relax_Operators\<close>, the constructor and its tables;
    \<open>Relax_Eval\<close>, the evaluation.  \<open>Relax_Cost_Facts\<close>, \<open>Relax_Updates\<close> and \<open>Relax_Cheapest\<close> show that
    the loop computes cheapest costs and ends, \<open>Relax_Shapes\<close> and \<open>Relax_Built\<close> that the constructor makes
    tables fit for this, \<open>Relax_Polynomials\<close> that polynomials have the values of their expressions;
    \<open>Relax_Effects\<close> that simple conditions are the comparisons they are taken from and that the
    operators say of every fluent what their events do to it; \<open>Relax_Demo\<close> has an example.
  \<^item> \<open>Doubles\<close>: the rounding of Python's floats.

  \<^bold>\<open>Correspondence.\<close>  A record models each class, with one definition per method named after
  it.  A method that changes its object returns the changed one; the instance counter
  of the search space is threaded as a number.  Errors are values of \<open>py_error\<close>.  A finite
  float is the rational number it stands for, and where the code computes with weights, values
  of conditions, net effects, repetitions and weighted heuristic values the results are rounded
  as in \<open>Doubles\<close>, whose exponents have no upper bound; costs of the delete relaxation, numbers
  of events, are not rounded.  Dictionaries and sets compare keys by
  Python's equality; hashing is not modelled.

  \<^bold>\<open>Parameters.\<close>  What is not in the repository is an argument: the interpreted functions of the
  problem (\<open>ifenv\<close>), the network class (\<open>tn_ops\<close>, of which the Rust one is an instance), the clock of the
  timeout (\<open>out\<close>), the min-max heap and the Bloom filter of the memory-bounded searches.
  Heuristics are arguments of the searches too.  The novelty tables compare fluent values by
  object identity: which slots of two states share an object is an argument (\<open>same\<close>, \<open>ident\<close>), of
  which only that a shared slot has one value is assumed.  The order in which \<open>HMaxExplicit\<close> iterates
  a set of values is an argument (\<open>ord\<close>), assumed to list the members of the set.

  \<^bold>\<open>Not modelled.\<close>  The encoder and the engine, which translate to and from the objects of the
  unified-planning library; the choice of the implementation at import time; logging; the Rust
  core apart from its network.
\<close>


section \<open>States of a temporal search\<close>

text \<open>C1 A temporal state the search can reach can be executed: its network is consistent, and
  in every schedule of the network the events of the path happen in path order, interfering
  ones at least epsilon apart, no pending event happens before one of the path, and the plan
  ends at the deadline.\<close>

theorem temporal_states_executable:
  assumes "0 \<le> sp_epsilon sp" "sp_temporal sp" "events_named sp"
    and "reachable delta_stn_ops ifs sp c s" "\<forall>d. sp_deadline sp = Some d \<longrightarrow> 0 \<le> d"
  shows "\<exists>n C. st_tn s = Some n \<and> stn_carries n C \<and> stn_check n \<and> (\<exists>\<tau>. schedules \<tau> C) \<and>
    (\<forall>\<tau>. schedules \<tau> C \<longrightarrow> path_ordered sp \<tau> (st_path s) \<and>
       (\<forall>p \<in> set (st_path s). \<forall>v \<in> pending_tps sp (st_todo s). \<tau> (entry_tp p) \<le> \<tau> v) \<and>
       (\<forall>d. sp_deadline sp = Some d \<longrightarrow> \<tau> EndPlan - \<tau> StartPlan = d))"
proof -
  obtain n C A where "st_tn s = Some n" "stn_carries n C" "tn_check delta_stn_ops n" "consistent C"
    and path: "path_kept sp C (st_path s) (st_todo s)"
    by (rule rustamer_network.reachable_network [OF assms])
  moreover have "\<tau> EndPlan - \<tau> StartPlan = d" if "schedules \<tau> C" "sp_deadline sp = Some d" for \<tau> d
    using path that schedules_memD [OF that(1), of EndPlan StartPlan d]
      schedules_memD [OF that(1), of StartPlan EndPlan "- d"]
    by (auto simp: path_kept_def deadline_edges_def)
  ultimately show ?thesis
    by (intro exI [of _ n] exI [of _ C]) (auto simp: path_kept_def consistent_def delta_stn_ops_def)
qed

theorem temporal_states_executable_witness:
  "\<exists>n C. st_tn timed_done = Some n \<and> stn_carries n C \<and> stn_check n \<and> (\<exists>\<tau>. schedules \<tau> C) \<and>
    (\<forall>\<tau>. schedules \<tau> C \<longrightarrow> path_ordered timed_demo \<tau> (st_path timed_done) \<and>
       (\<forall>p \<in> set (st_path timed_done). \<forall>v \<in> pending_tps timed_demo (st_todo timed_done). \<tau> (entry_tp p) \<le> \<tau> v) \<and>
       (\<forall>d. sp_deadline timed_demo = Some d \<longrightarrow> \<tau> EndPlan - \<tau> StartPlan = d))"
  by (rule temporal_states_executable [OF timed_demo_facts(1,2) demo_named(2) timed_reachable(3) timed_demo_facts(3)])


section \<open>Searches\<close>





text \<open>C4 Under an expansion limit \<open>wastar_search\<close> on the network of the Rust core always returns:
  with a result, or with an error of the interpreter, of the clock or of its own limit.\<close>

theorem wastar_returns:
  assumes "ifs_return ifs" "heuristic_returns H"
  shows "wastar_search (search_space_of delta_stn_ops ifs sp) H w out (Some m) early weak c \<noteq> Inl NoReturn \<and>
    (\<forall>e. wastar_search (search_space_of delta_stn_ops ifs sp) H w out (Some m) early weak c = Inl e \<longrightarrow>
       ordinary e \<or> (e = Timeout \<and> (\<exists>k. out k)) \<or> e = ExpansionLimit m)"
  by (rule search_returned [OF wastar_search_errs [OF rustamer_network.search_space_returns [OF assms(1)] assms(2)]])

theorem wastar_returns_witness:
  "wastar_search (search_space_of delta_stn_ops no_ifs timed_demo) blind 1 no_timeout (Some 1) False False 0
     \<noteq> Inl NoReturn"
  using wastar_returns [OF no_ifs_return blind_returns] by blast



text \<open>C6 Breadth-first and depth-first search return under a limit.\<close>

theorem basic_returns:
  assumes "ifs_return ifs"
  shows "basic_search (search_space_of delta_stn_ops ifs sp) bfs out (Some m) early c \<noteq> Inl NoReturn \<and>
    (\<forall>e. basic_search (search_space_of delta_stn_ops ifs sp) bfs out (Some m) early c = Inl e \<longrightarrow>
       ordinary e \<or> (e = Timeout \<and> (\<exists>k. out k)) \<or> e = ExpansionLimit m)"
  by (rule search_returned [OF basic_search_errs [OF rustamer_network.search_space_returns [OF assms]]])

theorem basic_returns_witness:
  "basic_search (search_space_of delta_stn_ops no_ifs timed_demo) True no_timeout (Some 1) False 0 \<noteq> Inl NoReturn"
  using basic_returns [OF no_ifs_return] by blast







text \<open>C10 Novelty search with its tables returns under a limit.\<close>

theorem novbfs_returns:
  assumes "ifs_return ifs" "heuristic_returns H"
  shows "novbfs_search (search_space_of delta_stn_ops ifs sp) H (numeric_novelty ifs ident) nn hg out (Some m) early weak c
      \<noteq> Inl NoReturn \<and>
    (\<forall>e. novbfs_search (search_space_of delta_stn_ops ifs sp) H (numeric_novelty ifs ident) nn hg out (Some m) early weak c
       = Inl e \<longrightarrow> ordinary e \<or> (e = Timeout \<and> (\<exists>k. out k)) \<or> e = ExpansionLimit m)"
  by (rule search_returned [OF novbfs_search_errs [OF rustamer_network.search_space_returns [OF assms(1)] assms(2)
        numeric_novelty_returns [OF assms(1)]]])

theorem novbfs_returns_witness:
  "novbfs_search (search_space_of delta_stn_ops no_ifs timed_demo) blind (numeric_novelty no_ifs equal_slots)
     lit_novelty True no_timeout (Some 1) False False 0 \<noteq> Inl NoReturn"
  using novbfs_returns [OF no_ifs_return blind_returns] by blast



text \<open>C12 The multi-queue search returns under a limit: a round expands a state or takes an item of a
  state already expanded off its queue.\<close>

theorem multiqueue_returns:
  assumes "ifs_return ifs" "\<forall>Hw \<in> set Hs. heuristic_returns (fst Hw)"
  shows "multiqueue_search (search_space_of delta_stn_ops ifs sp) Hs out (Some m) early weak c \<noteq> Inl NoReturn \<and>
    (\<forall>e. multiqueue_search (search_space_of delta_stn_ops ifs sp) Hs out (Some m) early weak c = Inl e \<longrightarrow>
       ordinary e \<or> (e = Timeout \<and> (\<exists>k. out k)) \<or> e = ExpansionLimit m)"
  unfolding multiqueue_search_def
  by (rule search_returned [OF multiqueue_search_errs [OF rustamer_network.search_space_returns [OF assms(1)] assms(2)
        allI [OF errs_round_robin]]])

theorem multiqueue_returns_witness:
  "multiqueue_search (search_space_of delta_stn_ops no_ifs timed_demo) [(blind, 1), (blind, 1 / 2)]
     no_timeout (Some 1) False False 0 \<noteq> Inl NoReturn"
proof -
  have "\<forall>Hw \<in> set [(blind, 1), (blind, 1 / 2)]. heuristic_returns (fst Hw)"
    using blind_returns by simp
  from multiqueue_returns [OF no_ifs_return this] show ?thesis by blast
qed

section \<open>Novelty\<close>

text \<open>C13 The novelty of the children of one expansion: evaluated in turn, with only the leaves that
  a changed fluent can affect, the cached features of the parent and the snapshot of its
  satisfied subgoals, they get the classes and leave the tables that comparing every
  subgoal of the parent with the child's gives.\<close>

theorem novelty_of_children:
  assumes "readers_complete nn" "readable ifs (nn_leaves nn) p"
    and "\<forall>c \<in> set cs. child_of ifs (nn_leaves nn) p c"
  shows "\<exists>nn'. eval_children ifs (p, q) cs (begin_expansion nn) =
      Inr (fst (judge_children ifs (nn_leaves nn) (p, q) cs (\<lambda>r. get_partition r nn)), nn') \<and>
    (\<lambda>r. get_partition r nn') = snd (judge_children ifs (nn_leaves nn) (p, q) cs (\<lambda>r. get_partition r nn)) \<and>
    nn_leaves nn' = nn_leaves nn \<and> nn_readers nn' = nn_readers nn \<and> nn_max_partition nn' = nn_max_partition nn"
  using eval_children_judged [of "begin_expansion nn" ifs p cs q] assms
  by (simp add: begin_expansion_def readers_complete_def cached_def get_partition_def)

theorem novelty_of_children_witness:
  "\<exists>nn'. eval_children no_ifs (demo_parent, 0) demo_children (begin_expansion demo_novelty) =
      Inr (fst (judge_children no_ifs (nn_leaves demo_novelty) (demo_parent, 0) demo_children
        (\<lambda>r. get_partition r demo_novelty)), nn')"
  using novelty_of_children [OF demo_novelty_complete demo_parent_readable demo_children_ok] by blast

text \<open>C14 The tables of a catalogue: once the subgoals are collected the constructor returns, and every
  leaf is listed with each fluent it reads, so a changed value is never missed.\<close>

theorem novelty_built:
  assumes "catalogue_of events goals ds = Inr c"
  shows "\<exists>nn. mk_novelty events goals ds = Inr nn \<and> nn_leaves nn = ct_leaves c \<and> readers_complete nn"
  by (rule mk_novelty_complete [OF assms])

theorem novelty_built_witness:
  "\<exists>nn. mk_novelty demo_events lit_level_exp demo_domains = Inr nn \<and> nn_leaves nn = ct_leaves demo_catalogue \<and>
     readers_complete nn"
  by (rule novelty_built [OF demo_catalogue_eq])

text \<open>C15 Walking a formula for its subgoals returns, with the expressions of its leaves under nested
  conjunctions and disjunctions, from left to right.\<close>

theorem subgoals_of_formula: "iter_subgoal_leaves (flatten t) = Inr (map flatten (tree_leaves t))"
  by (rule iter_subgoal_leaves_flatten)


section \<open>Visited states\<close>

text \<open>C16 What \<open>VisitedStates.insert\<close> answers after any sequence of insertions: a state is new
  exactly when the rule of the policy finds no state inserted before that makes it redundant,
  an equal one or, under the dominance rule, one with an earlier makespan.\<close>

theorem visited_insert_answer:
  assumes "visited_run S weak hist = Inr v" "\<forall>s \<in> set hist. keyed S s" "0 \<le> ss_epsilon S"
    and "keyed S s" "visited_insert S s v = Inr (new, v')"
  shows "new \<longleftrightarrow> \<not> redundant_spec S (policy_of S weak) hist s"
  using visited_run_store [OF assms(1-3)] visited_insert_spec [OF _ assms(4,3,5)] by metis

theorem visited_insert_answer_witness:
  "redundant_spec demo_ops (policy_of demo_ops False) [lit_state 0] (lit_state 2)"
  using visited_insert_answer [OF lit_store_run(1) _ _ lit_store_run(2,3)] lit_store_run(2,4) by simp

text \<open>C17 The keys of the store form an equivalence on the states of one search space: equal
  assignments, as Python compares them, and on a temporal problem the same actions in
  progress at the same event.\<close>

theorem repr_eq_equivalence:
  assumes "keyed S s" "keyed S t" "keyed S u"
  shows "repr_eq S s s \<and> (repr_eq S s t \<longrightarrow> repr_eq S t s) \<and>
    (repr_eq S s t \<and> repr_eq S t u \<longrightarrow> repr_eq S s u) \<and>
    (repr_eq S s t \<longleftrightarrow> assignments_eq (st_assignments s) (st_assignments t) \<and>
      (ss_temporal S \<longrightarrow> pending_index s = pending_index t))"
  using assms repr_eq_refl repr_eq_sym repr_eq_trans repr_eq_iff by blast

theorem repr_eq_equivalence_witness: "repr_eq demo_ops (lit_state 0) (lit_state 0)"
  using repr_eq_equivalence [OF lit_store_run(2) lit_store_run(2) lit_store_run(2)] by blast


section \<open>States of every search\<close>

text \<open>C18 The active conditions of a reachable state hold in it: what a search relies on when it
  does not check inherited conditions again.\<close>

theorem active_conditions_hold:
  assumes "space_ok sp" "reachable T ifs sp c s"
  shows "\<forall>e. e \<in># ms_abs (st_active s) \<longrightarrow> holds ifs (st_assignments s) e = Inr True"
proof -
  from reachable_actives_hold [OF assms] have "ms_wf (st_active s)"
    "\<forall>c \<in> set (ms_iter (st_active s)). holds ifs (st_assignments s) c = Inr True"
    by (simp_all add: actives_hold_def)
  with active_conditions.members_abs show ?thesis by blast
qed

theorem active_conditions_hold_witness:
  "dark_exp \<in># ms_abs (st_active timed_running) \<and> holds no_ifs (st_assignments timed_running) dark_exp = Inr True"
  using active_conditions_hold [OF demo_ok(2) timed_reachable(2)] dark_active by simp

text \<open>C19 The makespan of a reachable temporal state is a lower bound: no schedule of its network
  with nonnegative times puts the last event of the path earlier, and one puts it there.\<close>

theorem makespan_earliest:
  assumes "0 \<le> sp_epsilon sp" "sp_temporal sp" "events_named sp"
    and "reachable delta_stn_ops ifs sp c s" "\<forall>d. sp_deadline sp = Some d \<longrightarrow> 0 \<le> d" "st_path s \<noteq> []"
  shows "\<exists>n C m. st_tn s = Some n \<and> stn_carries n C \<and> makespan delta_stn_ops s = Inr m \<and>
    (\<forall>\<sigma>. schedules \<sigma> C \<longrightarrow> (\<forall>v. 0 \<le> \<sigma> v) \<longrightarrow> m \<le> \<sigma> (entry_tp (last (st_path s)))) \<and>
    (\<exists>\<sigma>. schedules \<sigma> C \<and> (\<forall>v. 0 \<le> \<sigma> v) \<and> \<sigma> (entry_tp (last (st_path s))) = m)"
proof -
  let ?v = "entry_tp (last (st_path s))"
  obtain n C A where n: "st_tn s = Some n" "stn_carries n C" "tn_check delta_stn_ops n"
    and path: "path_kept sp C (st_path s) (st_todo s)"
    by (rule rustamer_network.reachable_network [OF assms(1-5)])
  have v: "?v \<in> cnodes C" using path assms(6) by (auto simp: path_kept_def)
  from rustamer_network.distance_earliest [OF n(2,3)] obtain \<tau> where \<tau>: "earliest \<tau> C"
    "dict_get (tn_distances delta_stn_ops n) ?v = Some (- \<tau> ?v)"
    using v by blast
  have "makespan delta_stn_ops s = Inr (\<tau> ?v)"
    using n(1) \<tau>(2) assms(6) by (simp add: makespan_def dict_lookup_def)
  with n \<tau>(1) v show ?thesis
    unfolding earliest_def by (intro exI [of _ n] exI [of _ C] exI [of _ "\<tau> ?v"]) auto
qed

theorem makespan_earliest_witness:
  "\<exists>n C m. st_tn timed_done = Some n \<and> stn_carries n C \<and> makespan delta_stn_ops timed_done = Inr m \<and>
    (\<forall>\<sigma>. schedules \<sigma> C \<longrightarrow> (\<forall>v. 0 \<le> \<sigma> v) \<longrightarrow> m \<le> \<sigma> (entry_tp (last (st_path timed_done)))) \<and>
    (\<exists>\<sigma>. schedules \<sigma> C \<and> (\<forall>v. 0 \<le> \<sigma> v) \<and> \<sigma> (entry_tp (last (st_path timed_done))) = m)"
proof -
  have "st_path timed_done \<noteq> []" by code_simp
  from makespan_earliest [OF timed_demo_facts(1,2) demo_named(2) timed_reachable(3) timed_demo_facts(3) this]
  show ?thesis .
qed

text \<open>C20 The time points of a reachable temporal state are different keys for Python: tuples
  whose second component is a boolean or an event position never collide.\<close>

theorem time_points_distinct:
  assumes "0 \<le> sp_epsilon sp" "sp_temporal sp" "events_named sp"
    and "reachable delta_stn_ops ifs sp c s" "\<forall>d. sp_deadline sp = Some d \<longrightarrow> 0 \<le> d"
  shows "\<exists>n C. st_tn s = Some n \<and> stn_carries n C \<and> inj_on py_key (cnodes C)"
proof -
  obtain n C A where "st_tn s = Some n" "stn_carries n C" "\<forall>v \<in> cnodes C. numbered A c v"
    by (rule rustamer_network.reachable_network [OF assms])
  with numbered_keys show ?thesis by blast
qed

theorem time_points_distinct_witness:
  "\<exists>n C. st_tn timed_done = Some n \<and> stn_carries n C \<and> inj_on py_key (cnodes C)"
  by (rule time_points_distinct [OF timed_demo_facts(1,2) demo_named(2) timed_reachable(3) timed_demo_facts(3)])

text \<open>C21 The depth of a reachable state counts the events on its path, and every successor
  appends at least one event, all of the action applied.\<close>

theorem path_grows:
  assumes "events_named sp" "reachable T ifs sp c s"
    and "get_successor_state_with_compression T ifs sp s a enabled c1 = Inr (Some s', c')"
  shows "length (st_path s) = st_g s + (if sp_timed sp = None then 0 else 1) \<and>
    (\<exists>es. es \<noteq> [] \<and> st_path s' = st_path s @ es \<and> st_g s' = st_g s + length es \<and> (\<forall>p \<in> set es. fst p = a))"
  using reachable_depth [OF assms(1,2)] successor_path [OF assms(1,3)] by blast

theorem path_grows_witness:
  "length (st_path timed_running) = st_g timed_running + (if sp_timed timed_demo = None then 0 else 1)"
  using path_grows [OF demo_named(2) timed_reachable(2) timed_steps(3)] by blast

text \<open>C22 A classical state never has a network or an action in progress.\<close>

theorem classical_states:
  assumes "reachable T ifs sp c s" "\<not> sp_temporal sp"
  shows "st_tn s = None \<and> st_todo s = []"
  using assms by (rule reachable_classical)

theorem classical_states_witness:
  "st_tn (mk_state [CBool False] None [] ms_empty 0 [] :: tp stn state) = None \<and>
   st_todo (mk_state [CBool False] None [] ms_empty 0 [] :: tp stn state) = []"
  by (rule classical_states [OF demo_initial demo_facts])


section \<open>Expressions\<close>

text \<open>C23 Evaluating the flattened node array of a tree computes the value of the tree, errors
  included.\<close>

theorem evaluate_tree:
  assumes "wf_tree t"
  shows "evaluate ifs (flatten t) asg = teval ifs asg t"
  using assms by (rule evaluate_flatten)

theorem evaluate_tree_witness: "evaluate no_ifs (flatten small_tree) [CBool True] = teval no_ifs [CBool True] small_tree"
  by (rule evaluate_tree [OF small_tree_wf])

text \<open>C24 An expression whose tree is typed evaluates, under an assignment that gives every fluent a
  value of its type, to a canonical value of its own type; the only errors it can raise are a
  division by zero and those of its interpreted functions.\<close>

theorem evaluation_typed:
  assumes "typed_values G n asg" "tree_ty G t = Some ty" "\<forall>f \<in> set (tree_fluents t). fl_idx f < n"
  shows "case evaluate ifs (flatten t) asg of
      Inr v \<Rightarrow> const_ty v = Some ty
    | Inl e \<Rightarrow> e = ZeroDivErr \<or> (\<exists>f rt args. if_call ifs f rt args = Inl e)"
  using evaluate_typed [OF assms, of ifs] unfolding type_error_free_def .

theorem evaluation_typed_witness:
  "case evaluate no_ifs (flatten small_tree) [CBool True] of
      Inr v \<Rightarrow> const_ty v = Some TyBool
    | Inl e \<Rightarrow> e = ZeroDivErr \<or> (\<exists>f rt args. if_call no_ifs f rt args = Inl e)"
  by (rule evaluation_typed [OF lit_typed small_tree_typed])

text \<open>C25 Types are preserved: when the effects of the events assign values of the types of their
  fluents, every successor of a state with a typed assignment, compressed ones included, has
  a typed assignment again.\<close>

theorem states_stay_typed:
  assumes "typed_space G n sp" "typed_values G n (st_assignments s)"
    and "get_successor_state_with_compression T ifs sp s a enabled c = Inr (Some s', c')"
  shows "typed_values G n (st_assignments s')"
  using assms by (rule successor_typed)

theorem states_stay_typed_witness: "typed_values all_bool 1 (st_assignments timed_running)"
  by (rule states_stay_typed [OF timed_demo_typed timed_init_typed timed_steps(2)])

text \<open>C26 Simplifying an expression by the fluents whose values are known, which folds the operators
  in place in an array and then lays out what its root still reaches, returns; the result
  mentions no known fluent, and it has the value of the expression under every typed
  assignment that agrees with the known values, as long as the expression has one.\<close>

theorem simplify_keeps_value:
  assumes "tree_ty G t = Some ty" "typed_assignment G asg" "fluents_declared asg t" "knows vals asg"
    and "evaluate ifs (flatten t) asg = Inr v"
  shows "\<exists>e. simplify ifs (flatten t) vals call = Inr e \<and> evaluate ifs e asg = Inr v \<and>
    (\<forall>f \<in> set (get_fluents e). f \<in> set (get_fluents (flatten t)) \<and> dict_get vals f = None)"
proof -
  have "teval ifs asg t = Inr v" using assms(5) evaluate_flatten [OF tree_ty_wf [OF assms(1)]] by simp
  from fold_tree_value [OF assms(2,4,1,3) this] obtain u where
    u: "fold_tree ifs vals call t = Inr u" "teval ifs asg u = Inr v" by blast
  note arities = typed_arities [OF assms(1)]
  from fold_tree_closed [OF arities u(1)] have "wf_tree u" "set (tree_fluents u) \<subseteq> set (tree_fluents t) - dom (dict_get vals)"
    by (auto simp: closed_over_def)
  then show ?thesis
    using simplify_flatten [OF arities, of ifs vals call] u evaluate_flatten [of u ifs asg]
      get_fluents_flat(1) [of 0 u] get_fluents_flat(1) [of 0 t] by (auto simp: flatten_def)
qed

theorem simplify_keeps_value_witness:
  "\<exists>e. simplify no_ifs (flatten small_tree) [(lit, CBool True)] True = Inr e \<and>
     evaluate no_ifs e [CBool True] = Inr (CBool True)"
proof -
  have "typed_assignment all_bool [CBool True]" "fluents_declared [CBool True] small_tree"
    "knows [(lit, CBool True)] [CBool True]"
    by (simp_all add: typed_assignment_def all_bool_def fluents_declared_def small_tree_def lit_def knows_def py_nth_def)
  moreover have "evaluate no_ifs (flatten small_tree) [CBool True] = Inr (CBool True)" by code_simp
  ultimately show ?thesis using simplify_keeps_value [OF small_tree_typed(1)] by blast
qed

text \<open>C27 What the converter builds for a formula is the array of a tree with the operators of
  the formula, and evaluates to the value of that tree.\<close>

theorem converted_evaluates:
  assumes "converted e t"
  shows "e = flatten t \<and> (\<forall>ifs asg. evaluate ifs e asg = teval ifs asg t) \<and> get_fluents e = tree_fluents t"
  using converted_flatten [OF assms] evaluate_flatten get_fluents_flat(1) [of 0 t] by (simp add: flatten_def)

theorem converted_evaluates_witness:
  "get_fluents (walk_and [[NFluent lit], [NFluent lit]]) = [lit, lit]"
proof -
  from converted_evaluates [OF both_converted] have
    "get_fluents (walk_and [[NFluent lit], [NFluent lit]]) = tree_fluents (TOp ''and'' [TFluent lit, TFluent lit])"
    by blast
  also have "\<dots> = [lit, lit]" by simp
  finally show ?thesis .
qed


section \<open>The temporal network\<close>

text \<open>C28 Adding a constraint to a network always returns, and the answer of the check is whether
  the constraints added so far have a schedule.\<close>

theorem network_add_decides:
  assumes "stn_carries n C"
  shows "\<exists>n'. stn_add x y b n = Inr n' \<and> stn_carries n' (insert (x, y, b) C) \<and>
    (stn_check n' \<longleftrightarrow> (\<exists>\<tau>. schedules \<tau> (insert (x, y, b) C)))"
  using stn_add_correct [OF assms, of x y b] stn_check_correct unfolding consistent_def by blast

theorem network_add_decides_witness:
  "\<exists>n'. stn_add StartPlan EndPlan (- 1) (stn_new 0) = Inr n' \<and> stn_carries n' {(StartPlan, EndPlan, - 1)} \<and>
    (stn_check n' \<longleftrightarrow> (\<exists>\<tau>. schedules \<tau> {(StartPlan, EndPlan, - 1)}))"
  by (rule network_add_decides [OF stn_carries_new])


section \<open>Open lists\<close>

text \<open>C29 The open lists of the best-first searches: after any history of pushes and pops
  the queue of a weighted A* search holds what was pushed and not popped and gives out an item
  that is least in its heuristic value, then in the number of its open actions, then in its
  index; the queue of the novelty search goes by the novelty, the heuristic value, the signed
  depth, the number of open actions and the index.\<close>

theorem open_lists_least_first:
  "(\<forall>ops q popped. queue_run (priority_queue pitem_lt) ops = Inr (q, popped) \<longrightarrow>
      least_first (priority_queue pitem_lt) mset
        (\<lambda>a. (pi_heuristic a, length (st_todo (pi_state a)), pi_idx a)) ops q popped) \<and>
   (\<forall>ops q popped. queue_run (priority_queue novitem_lt) ops = Inr (q, popped) \<longrightarrow>
      least_first (priority_queue novitem_lt) mset
        (\<lambda>a. (ni_novelty a, ni_h a, ni_g_key a, length (st_todo (ni_state a)), ni_idx a)) ops q popped)"
  using pitem_history novitem_history unfolding pitem_key_def [abs_def] novitem_key_def [abs_def] by blast

theorem open_lists_least_first_witness:
  "least_first (priority_queue pitem_lt) mset
     (\<lambda>a. (pi_heuristic a, length (st_todo (pi_state a)), pi_idx a))
     [Some (demo_item 2 1), Some (demo_item 1 3), Some (demo_item 1 2), None]
     [demo_item 1 3, demo_item 2 1] [demo_item 1 2]"
proof -
  have "queue_run (priority_queue pitem_lt) [Some (demo_item 2 1), Some (demo_item 1 3), Some (demo_item 1 2), None] =
      Inr ([demo_item 1 3, demo_item 2 1], [demo_item 1 2])" by (rule demo_history)
  with open_lists_least_first show ?thesis by blast
qed

text \<open>C30 The memory-bounded queue never holds more items than its bound, and what a push leaves
  out is no smaller than any item that stays.\<close>

theorem bounded_queue_keeps_best:
  assumes "minmax_laws pitem_lt M items good" "good h" "size (items h) \<le> bound" "0 < bound"
  shows "\<exists>h' dropped. bounded_push pitem_lt M bound x h = Inr h' \<and> good h' \<and> size (items h') \<le> bound \<and>
    items h' + dropped = add_mset x (items h) \<and> (\<forall>d \<in># dropped. \<forall>y \<in># items h'. \<not> pitem_lt d y)"
  using bounded_push_spec [OF assms pitems.item_order_axioms] .

theorem bounded_queue_keeps_best_witness:
  "\<exists>h' dropped. bounded_push pitem_lt (sorted_minmax pitem_lt) 1
      \<lparr>pi_heuristic = 1, pi_state = lit_state 0, pi_idx = 0\<rparr> [] = Inr h' \<and> sorted_wrt (\<lambda>a b. \<not> pitem_lt b a) h' \<and>
    size (mset h') \<le> 1 \<and> mset h' + dropped = add_mset \<lparr>pi_heuristic = 1, pi_state = lit_state 0, pi_idx = 0\<rparr> (mset []) \<and> (\<forall>d \<in># dropped. \<forall>y \<in># mset h'. \<not> pitem_lt d y)"
  by (rule bounded_queue_keeps_best [OF pitems.sorted_minmax_laws]) simp_all


section \<open>Interference\<close>

text \<open>C31 The cache of \<open>MutexChecker\<close> changes no answer: a cached check answers as the uncached
  one does, error for error, and leaves a cache with the same property.\<close>

theorem mutex_cache_transparent:
  assumes "cache_ok mutex_fluents efs cache"
  shows "\<exists>cache'. mutex_contains efs cache p q = rbind (mutex efs p q) (\<lambda>b. Inr (b, cache')) \<and>
    cache_ok mutex_fluents efs cache'"
  unfolding mutex_contains_def mutex_def by (rule cached_check_transparent [OF assms])

theorem mutex_cache_transparent_witness:
  "\<exists>cache'. mutex_contains (sp_event_fluents timed_demo) [] (light, 0) (light, 1) =
      rbind (mutex (sp_event_fluents timed_demo) (light, 0) (light, 1)) (\<lambda>b. Inr (b, cache')) \<and>
    cache_ok mutex_fluents (sp_event_fluents timed_demo) cache'"
  by (rule mutex_cache_transparent) simp

text \<open>C32 An action that can be expanded but has no events is rejected by the constructor, and a
  search space it builds keeps, for each event, its effect-independent start conditions and
  its fluents.\<close>

theorem search_space_built:
  assumes "mk_search_space ds evs acts safe objs prev init goal rel dl eps timed = r" "dict_wf evs"
  shows "((\<exists>a \<in> set (case rel of Some rs \<Rightarrow> rs | None \<Rightarrow> acts). dict_get evs a = None) \<longrightarrow> r = Inl ValueErr) \<and>
    (\<forall>sp. r = Inr sp \<longrightarrow> space_ok sp)"
proof (intro conjI impI allI)
  show "r = Inl ValueErr" if "\<exists>a \<in> set (case rel of Some rs \<Rightarrow> rs | None \<Rightarrow> acts). dict_get evs a = None"
    using that assms(1) unfolding mk_search_space_def Let_def by simp
  show "space_ok sp" if "r = Inr sp" for sp
    using mk_search_space_ok assms that by blast
qed

theorem search_space_built_witness: "space_ok timed_demo"
proof -
  have "dict_wf timed_demo_events" by code_simp
  with search_space_built [OF timed_demo_eq] show ?thesis by simp
qed


section \<open>The relaxation heuristic\<close>

text \<open>C33 The value of \<open>HMaxExplicit\<close> is the number of the first layer of the relaxation in which the
  goals can hold, and \<open>None\<close> when there is no such layer: a layer adds to the one before all values
  that the effects of the applicable events can take on its values.  That only combinations with
  a new value are evaluated, that conditions once true are not tested again, and that operators
  none of whose fluents changed are skipped makes no difference, nor does the order of sets.\<close>

theorem hmax_explicit_layers:
  assumes "hmax_for G num sp goal H" "typed_values G num (st_assignments s)" "\<forall>vs. set (ord vs) = set vs"
    and "initial_values H s = Inr A" "hmax_eval_core ifs ord H s = Inr r"
  shows "first_layer ifs H (value_sets A) r"
  using assms by (rule hmax_value_layer)

theorem hmax_explicit_layers_witness:
  "first_layer no_ifs timed_hmax (value_sets [[CBool False], [CBool False], [CBool True]]) (Some 2)"
  by (rule hmax_explicit_layers [OF timed_hmax_for timed_init_typed _ timed_init_values timed_hmax_run]) simp

text \<open>C34 The value of \<open>HMaxExplicit\<close> is a lower bound: when some sequence of successors, compressed
  ones included, leads from a reachable state to a goal state, the value is a number, and not
  above the number of events between the two.  So a state is only given up when no goal
  can be reached from it.  Of the actions listed as safe to compress it is assumed, as the encoder
  sees to, that a later event's conditions follow from the conditions its earlier events have
  opened and not closed.\<close>

theorem hmax_explicit_lower_bound:
  assumes "hmax_for G num sp goal H" "space_ok sp" "compress_ok ifs G num sp"
    and "reachable T ifs sp c s" "typed_values G num (st_assignments s)"
    and "\<forall>vs. set (ord vs) = set vs" "hmax_eval_core ifs ord H s = Inr r"
    and "leads_to T ifs sp s s'" "the_goal sp g = Inr goal" "goal_reached ifs sp s' g = Inr True"
  shows "\<exists>d. r = Some d \<and> d \<le> st_g s' - st_g s"
  using assms by (rule hmax_eval_core_bound)

theorem hmax_explicit_lower_bound_witness:
  "sp_comp_safe press = Some [True] \<and> (\<exists>d. Some (2 :: nat) = Some d \<and> d \<le> st_g press_done - st_g press_init)"
  using hmax_explicit_lower_bound [OF press_hmax_for press_ok press_compress_ok press_reachable press_init_typed
      _ press_hmax_run press_leads press_steps(3,4)] press_fields(3) by simp

text \<open>C35 An evaluation of \<open>HMaxExplicit\<close> ends, with a value or an error of the interpreter, when some
  layer of the relaxation holds the goals or adds nothing to the next; and some layer adds
  nothing when all fluents are Boolean.\<close>

theorem hmax_explicit_returns:
  assumes "hmax_for G num sp goal H" "typed_values G num (st_assignments s)" "\<forall>vs. set (ord vs) = set vs"
    and "initial_values H s = Inr A" "ifs_return ifs"
    and "(\<forall>i < num. G (Fluent i) = TyBool) \<or> (\<exists>d. settles ifs H (value_sets A) d)"
  shows "(\<exists>r. hmax_eval_core ifs ord H s = Inr r) \<or> (\<exists>e. hmax_eval_core ifs ord H s = Inl e \<and> ordinary e)"
  using hmax_value_returns [OF assms] by (cases "hmax_eval_core ifs ord H s") (auto dest: errsD)

theorem hmax_explicit_returns_witness:
  "(\<exists>r. hmax_eval_core no_ifs id timed_hmax timed_init = Inr r) \<or>
   (\<exists>e. hmax_eval_core no_ifs id timed_hmax timed_init = Inl e \<and> ordinary e)"
  by (rule hmax_explicit_returns [OF timed_hmax_for timed_init_typed _ timed_init_values no_ifs_return])
    (simp_all add: all_bool_def)

text \<open>C36 The internal cache of \<open>HMaxExplicit\<close> changes no value: an evaluation with a cache of values
  of typed states gives what one without it gives, error for error, and leaves such a cache.\<close>

theorem hmax_cache_transparent:
  fixes s :: "'n state"
  assumes "hmax_cache_ok ifs ord H G TYPE('n state) d" "typed_assignment G (st_assignments s)" "dict_wf (st_todo s)"
  shows "\<exists>d'. hmax_eval ifs ord H (Some d) s = rbind (hmax_eval_core ifs ord H s) (\<lambda>r. Inr (r, Some d')) \<and>
    hmax_cache_ok ifs ord H G TYPE('n state) d'"
  using assms by (rule hmax_eval_cached)

theorem hmax_cache_transparent_witness:
  "\<exists>d'. hmax_eval no_ifs id timed_hmax (Some []) timed_init =
      rbind (hmax_eval_core no_ifs id timed_hmax timed_init) (\<lambda>r. Inr (r, Some d')) \<and>
    hmax_cache_ok no_ifs id timed_hmax all_bool TYPE(tp stn state) d'"
proof -
  have "typed_assignment all_bool (st_assignments timed_init)" using timed_init_typed by (simp add: typed_values_def)
  moreover have "hmax_cache_ok no_ifs id timed_hmax all_bool TYPE(tp stn state) []" by (simp add: hmax_cache_ok_def)
  ultimately show ?thesis using hmax_cache_transparent timed_init_todo by blast
qed


section \<open>The delete relaxation\<close>

text \<open>C37 The value of \<open>hadd\<close>, and of \<open>hmax\<close> when no numeric condition has two achievers, exists and is
  the cheapest cost of the goal: the greatest one that costs of the conditions can give it which
  are at most the initial ones and, for each condition, at most what every achiever offers, its own
  cost and that of the repetitions it takes.  That the loop stops at the goal, skips stale entries
  and closed operators and counts the conditions still missing makes no difference.\<close>

theorem relax_value_cheapest:
  assumes "mk_relax as domains evs goal kind inadm no_numbers timed = Inr R" "kind \<noteq> HFF" "\<not> rx_drain R"
    and "initial_condition_costs ifs R s = Inr K0"
    and "\<forall>op < rx_goal_op R. \<forall>p \<in> set (rx_op_numeric R ! op). \<exists>v. condition_value (snd p) s = Inr v"
  shows "\<exists>h. relax_eval_core ifs R s = Inr (finite_part h) \<and> cheapest R s K0 h"
proof (rule relax_eval_cheapest)
  fix op assume "op < rx_goal_op R"
  then show "readable_op R s K0 op"
    using assms(5) mk_relax_wf(4) [OF assms(1)] by (fastforce simp: readable_op_def)
qed (use mk_relax_wf [OF assms(1)] assms(2-4) in auto)

theorem relax_value_cheapest_witness:
  "\<exists>h. relax_eval_core no_ifs lower_relax lower_init = Inr (finite_part h) \<and> cheapest lower_relax lower_init [Fin 0, Inf] h"
  by (rule relax_value_cheapest [OF lower_relax_eq _ _ lower_tables(4)])
    (use lower_op_facts(5) in \<open>simp_all add: lower_tables lower_cond_def\<close>)

text \<open>C38 A comparison of numbers the heuristic takes for a simple condition is decided, in every typed
  state, by the exact sum of some weights times its fluents, each of which occurs once, and a
  constant: it is true when the sum is negative or, for a comparison that is not strict, zero.
  What the heuristic keeps are the floats nearest to these weights and to the constant.\<close>

theorem simple_condition_exact:
  assumes "extract_fluents_weights (flatten (TOp k [a, b])) = Inr (Some c)"
    and "tree_ty G a = Some TyNum" "tree_ty G b = Some TyNum" "\<forall>f \<in> set (tree_fluents a @ tree_fluents b). fl_idx f < n"
  shows "\<exists>ws k0. length ws = length (sc_fluents c) \<and> distinct (sc_fluents c) \<and>
    sc_weights c = map to_float ws \<and> sc_const c = to_float k0 \<and> sc_strict c = (k = ''<'') \<and>
    (\<forall>asg v. typed_values G n asg \<longrightarrow> evaluate ifs (flatten (TOp k [a, b])) asg = Inr v \<longrightarrow>
       v = CBool (if k = ''<'' then weighted_sum asg (sc_fluents c) ws k0 < 0 else weighted_sum asg (sc_fluents c) ws k0 \<le> 0))"
  using assms by (rule typed_condition_exact)

theorem simple_condition_exact_witness:
  "\<exists>ws k0. length ws = 1 \<and> distinct [counter] \<and> [1] = map to_float ws \<and> 0 = to_float k0 \<and> True = (''<'' = ''<'') \<and>
    (\<forall>asg v. typed_values lower_types 1 asg \<longrightarrow>
       evaluate no_ifs (flatten (TOp ''<'' [TFluent counter, TConst (CInt 0)])) asg = Inr v \<longrightarrow>
       v = CBool (weighted_sum asg [counter] ws k0 < 0))"
proof -
  let ?c = "\<lparr>sc_fluents = [counter], sc_weights = [1], sc_const = 0, sc_strict = True\<rparr>"
  have "extract_fluents_weights (flatten (TOp ''<'' [TFluent counter, TConst (CInt 0)])) = Inr (Some ?c)" by code_simp
  from simple_condition_exact [OF this, of lower_types 1 no_ifs] show ?thesis
    by (simp add: lower_types_def counter_def)
qed



end
